(* ===== verification/Prelude.thy ===== *)
theory Prelude
  imports Main "HOL-Library.Word" "HOL-Library.Signed_Division" "HOL-Library.Multiset"
begin

unbundle bit_operations_syntax

text \<open>
  Shared vocabulary of the development: the C integer types at their widths, the SQLite
  result codes, memory blocks as byte lists with pointer access by offset, big-endian
  byte strings, and the generic lemmas the component theories build on.

  Conventions. A pointer into constant data is the list of the bytes from that pointer on
  (the pointer \<open>&z[k]\<close> is \<open>drop k z\<close>); a function that writes through a
  pointer maps the list of the bytes from that pointer on to the updated list, and
  \<open>at_off k f\<close> applies it at \<open>&z[k]\<close>. Reading with \<open>!\<close> beyond the end
  of a list is unspecified, as it is in C; the theorems carry the bounds that exclude it.
  Signed C integers of 64 bits are words read with \<open>sint\<close>.
\<close>

section \<open>Types and result codes\<close>

type_synonym u8 = "8 word"
type_synonym u16 = "16 word"
type_synonym u32 = "32 word"
type_synonym u64 = "64 word"
type_synonym i64 = "64 word"

abbreviation (input) SQLITE_OK :: int where "SQLITE_OK \<equiv> 0"
abbreviation (input) SQLITE_ERROR :: int where "SQLITE_ERROR \<equiv> 1"
abbreviation (input) SQLITE_NOMEM :: int where "SQLITE_NOMEM \<equiv> 7"
abbreviation (input) SQLITE_CORRUPT :: int where "SQLITE_CORRUPT \<equiv> 11"
abbreviation (input) SQLITE_FULL :: int where "SQLITE_FULL \<equiv> 13"
abbreviation (input) SQLITE_CONSTRAINT :: int where "SQLITE_CONSTRAINT \<equiv> 19"
abbreviation (input) SQLITE_CORRUPT_VTAB :: int where "SQLITE_CORRUPT_VTAB \<equiv> 267"

named_theorems bytes_simps \<open>reading and writing byte strings\<close>
named_theorems wf_intros \<open>introduction rules of the well-formedness predicates\<close>

section \<open>Blocks of memory\<close>

definition at_off :: "nat \<Rightarrow> ('a list \<Rightarrow> 'a list) \<Rightarrow> 'a list \<Rightarrow> 'a list" where
  "at_off k f z = take k z @ f (drop k z)"

definition memcpy :: "'a list \<Rightarrow> 'a list \<Rightarrow> nat \<Rightarrow> 'a list" where
  "memcpy dst src n = take n src @ drop n dst"

definition memset :: "'a list \<Rightarrow> 'a \<Rightarrow> nat \<Rightarrow> 'a list" where
  "memset dst c n = replicate n c @ drop n dst"

lemma length_at_off [simp]:
  "(\<And>xs. length (f xs) = length xs) \<Longrightarrow> length (at_off k f z) = length z"
  by (simp add: at_off_def)

lemma length_memcpy [simp]:
  "n \<le> length src \<Longrightarrow> n \<le> length dst \<Longrightarrow> length (memcpy dst src n) = length dst"
  by (simp add: memcpy_def)

lemma length_memset [simp]: "n \<le> length dst \<Longrightarrow> length (memset dst c n) = length dst"
  by (simp add: memset_def)

lemma take_at_off: "j \<le> k \<Longrightarrow> k \<le> length z \<Longrightarrow> take j (at_off k f z) = take j z"
  by (simp add: at_off_def min_def)

lemma drop_at_off: "k \<le> length z \<Longrightarrow> drop k (at_off k f z) = f (drop k z)"
  by (simp add: at_off_def)

lemma nth_at_off_before: "j < k \<Longrightarrow> k \<le> length z \<Longrightarrow> at_off k f z ! j = z ! j"
  by (simp add: at_off_def nth_append)

section \<open>Big-endian byte strings\<close>

primrec be_nat :: "u8 list \<Rightarrow> nat" where
  "be_nat [] = 0"
| "be_nat (b # bs) = unat b * 256 ^ length bs + be_nat bs"

primrec be_bytes :: "nat \<Rightarrow> nat \<Rightarrow> u8 list" where
  "be_bytes 0 v = []"
| "be_bytes (Suc n) v = of_nat (v div 256 ^ n) # be_bytes n v"

lemma unat_byte_le: "unat (b :: u8) \<le> 255"
proof -
  have "unat b < 2 ^ 8" using unsigned_less [of b] by simp
  then show ?thesis by simp
qed

lemma unat_of_nat_byte: "unat (of_nat k :: u8) = k mod 256"
  by (simp add: unat_of_nat)

lemma of_nat_byte_eq: "(of_nat j :: u8) = of_nat k \<longleftrightarrow> j mod 256 = k mod 256"
  by (simp add: word_unat_eq_iff unat_of_nat_byte)

lemma be_nat_less: "be_nat bs < 256 ^ length bs"
proof (induction bs)
  case (Cons b bs)
  have "unat b * 256 ^ length bs \<le> 255 * 256 ^ length bs"
    using unat_byte_le [of b] by (rule mult_right_mono) simp
  with Cons have "unat b * 256 ^ length bs + be_nat bs < 255 * 256 ^ length bs + 256 ^ length bs"
    by (rule add_le_less_mono [rotated])
  then show ?case by simp
qed simp

lemma length_be_bytes [simp]: "length (be_bytes n v) = n"
  by (induction n) auto

lemma be_nat_be_bytes: "be_nat (be_bytes n v) = v mod 256 ^ n"
proof (induction n)
  case (Suc n)
  have "v mod (256 ^ n * 256) = 256 ^ n * (v div 256 ^ n mod 256) + v mod 256 ^ n"
    by (rule mod_mult2_eq)
  with Suc show ?case by (simp add: unat_of_nat_byte mult.commute)
qed simp

lemma be_bytes_add_power: "be_bytes m (k * 256 ^ (m + d) + v) = be_bytes m v"
proof (induction m arbitrary: d)
  case (Suc m)
  have e: "k * 256 ^ (Suc m + d) + v = (k * 256 ^ d * 256) * 256 ^ m + v"
    by (simp add: power_add)
  have "(k * 256 ^ (Suc m + d) + v) div 256 ^ m = k * 256 ^ d * 256 + v div 256 ^ m"
    unfolding e by (rule div_mult_self3) simp
  then have "(of_nat ((k * 256 ^ (Suc m + d) + v) div 256 ^ m) :: u8) = of_nat (v div 256 ^ m)"
    by (simp only: of_nat_byte_eq mod_mult_self3)
  with Suc [of "Suc d"] show ?case by simp
qed simp

lemma be_bytes_be_nat: "be_bytes (length bs) (be_nat bs) = bs"
proof (induction bs)
  case (Cons b bs)
  have "be_bytes (length bs) (unat b * 256 ^ length bs + be_nat bs) = bs"
    using be_bytes_add_power [of "length bs" "unat b" 0] Cons by simp
  then show ?case using be_nat_less [of bs] by simp
qed simp

text \<open>A byte of a word, as the code extracts it with a shift and a mask.\<close>

lemma byte_of_word:
  fixes x :: "'a::len word"
  shows "(ucast (drop_bit k x) :: u8) = of_nat (unat x div 2 ^ k)"
proof (rule bit_word_eqI)
  fix n assume n: "n < LENGTH(8)"
  show "bit (ucast (drop_bit k x) :: u8) n \<longleftrightarrow> bit (of_nat (unat x div 2 ^ k) :: u8) n"
    using n by (simp add: bit_simps flip: drop_bit_eq_div)
qed

lemma and_0xff_ucast:
  fixes x :: "'a::len word"
  shows "8 \<le> LENGTH('a) \<Longrightarrow> (ucast (x AND 0xff) :: u8) = ucast x"
proof (rule bit_word_eqI)
  fix n assume n: "n < LENGTH(8)" "8 \<le> LENGTH('a)"
  have m: "(255 :: 'a word) = mask 8" by (simp add: mask_eq_exp_minus_1)
  show "bit (ucast (x AND 0xff) :: u8) n \<longleftrightarrow> bit (ucast x :: u8) n"
    using n unfolding m by (simp add: bit_simps)
qed

lemma push_bit_byte: "push_bit k (ucast (b :: u8)) = (of_nat (unat b * 2 ^ k) :: 'a::len word)"
  by (simp add: push_bit_eq_mult)

lemma unat_less_exp: "unat (x :: 'a::len word) < 2 ^ LENGTH('a)"
  by (rule unsigned_less)

lemma unat_ucast_up:
  fixes x :: "'a::len word"
  shows "LENGTH('a) \<le> LENGTH('b) \<Longrightarrow> unat (ucast x :: 'b::len word) = unat x"
proof -
  assume "LENGTH('a) \<le> LENGTH('b)"
  then have "(2::nat) ^ LENGTH('a) \<le> 2 ^ LENGTH('b)" by (rule power_increasing) simp
  then have "unat x < 2 ^ LENGTH('b)" using unsigned_less [of x] by (rule less_le_trans [rotated])
  then show ?thesis by (simp add: unsigned_ucast_eq take_bit_nat_eq_self)
qed

lemma ucast_ucast_up:
  fixes x :: "'a::len word"
  shows "LENGTH('a) \<le> LENGTH('b) \<Longrightarrow> ucast (ucast x :: 'b::len word) = x"
  by (rule bit_word_eqI) (simp add: bit_simps)

lemma byte_bit7: "bit (b :: u8) 7 \<longleftrightarrow> 128 \<le> unat b"
proof -
  have "unat b div 2 ^ 7 = 0 \<or> unat b div 2 ^ 7 = 1"
    using unat_byte_le [of b] by auto
  moreover have "bit b 7 \<longleftrightarrow> odd (unat b div 2 ^ 7)"
    by (simp add: bit_iff_odd [symmetric] bit_unsigned_iff del: power_numeral)
  ultimately show ?thesis by (auto simp: div_eq_0_iff)
qed

lemma be_bytes_numeral [simp]:
  "be_bytes (numeral k) v = of_nat (v div 256 ^ pred_numeral k) # be_bytes (pred_numeral k) v"
  by (simp add: numeral_eq_Suc)

lemma sdiv_nonneg: "0 \<le> a \<Longrightarrow> 0 < b \<Longrightarrow> a sdiv b = a div (b :: int)"
  by (cases "a = 0") (auto simp: signed_divide_int_def sgn_if)

section \<open>Lists\<close>

lemma take_drop_nth:
  "k + n \<le> length xs \<Longrightarrow> take n (drop k xs) = map (\<lambda>i. xs ! (k + i)) [0..<n]"
  by (rule nth_equalityI) auto

lemma nth_drop0: "k < length xs \<Longrightarrow> drop k xs ! 0 = xs ! k"
  by simp

lemma upt_2: "[0..<2] = [0, 1::nat]" by (simp add: upt_rec)
lemma upt_4: "[0..<4] = [0, 1, 2, 3::nat]" by (simp add: upt_rec)
lemma upt_8: "[0..<8] = [0, 1, 2, 3, 4, 5, 6, 7::nat]" by (simp add: upt_rec)

end
