(* ===== verification/Varint.thy ===== *)
theory Varint
  imports Prelude
begin

text \<open>
  Variable-length integers and four-byte integers of \<^verbatim>\<open>util.c\<close>: \<open>sqlite3PutVarint\<close>,
  \<open>sqlite3GetVarint\<close>, \<open>sqlite3GetVarint32\<close>, \<open>sqlite3VarintLen\<close>, \<open>sqlite3Get4byte\<close> and
  \<open>sqlite3Put4byte\<close>. The writers are modelled by the list of the bytes they store from
  \<open>p[0]\<close> on; their C return value, the number of bytes written, is the length of that
  list. The reader is the unrolled 32-bit code of the source; it is proved equal to the
  byte-by-byte reading of the format, and from that the round trip follows.
\<close>

section \<open>Writing\<close>

text \<open>The loop \<open>for(i=7; i>=0; i--)\<close> of the nine-byte case.\<close>

fun put9_loop :: "nat \<Rightarrow> u64 \<Rightarrow> u8 list \<Rightarrow> u8 list" where
  "put9_loop 0 v p = p"
| "put9_loop (Suc i) v p = put9_loop i (drop_bit 7 v) (ucast ((v AND 0x7f) OR 0x80) # p)"

lemma drop_bit_7_less: "drop_bit 7 v \<noteq> (0::u64) \<Longrightarrow> unat (drop_bit 7 v) < unat v"
proof -
  assume a: "drop_bit 7 v \<noteq> (0::u64)"
  have e: "unat (drop_bit 7 v) = unat v div 128"
    by (simp only: unat_drop_bit_eq) (simp add: drop_bit_eq_div)
  have "v \<noteq> 0" using a by auto
  then have "0 < unat v" by (simp add: unat_gt_0)
  then show ?thesis unfolding e by simp
qed

text \<open>The \<open>do ... while\<close> loop that fills \<open>buf[]\<close>, least significant group first.\<close>

function varint_buf :: "u64 \<Rightarrow> u8 list" where
  "varint_buf v =
     ucast ((v AND 0x7f) OR 0x80) # (if drop_bit 7 v \<noteq> 0 then varint_buf (drop_bit 7 v) else [])"
  by pat_completeness auto

termination
  by (relation "measure unat") (auto intro: drop_bit_7_less)

declare varint_buf.simps [simp del]

definition putVarint64 :: "u64 \<Rightarrow> u8 list" where
  "putVarint64 v =
     (if v AND push_bit 32 0xff000000 \<noteq> 0 then put9_loop 8 (drop_bit 8 v) [ucast v]
      else let buf = varint_buf v; buf = buf[0 := hd buf AND 0x7f] in rev buf)"

definition sqlite3PutVarint :: "u64 \<Rightarrow> u8 list" where
  "sqlite3PutVarint v =
     (if v \<le> 0x7f then [ucast (v AND 0x7f)]
      else if v \<le> 0x3fff then
        [ucast ((drop_bit 7 v AND 0x7f) OR 0x80), ucast (v AND 0x7f)]
      else putVarint64 v)"

text \<open>\<open>sqlite3VarintLen\<close>: the loop is bounded by \<open>ALWAYS(i<9)\<close>.\<close>

function varintLen_loop :: "nat \<Rightarrow> u64 \<Rightarrow> nat" where
  "varintLen_loop i v =
     (let i = i + 1; v = drop_bit 7 v in if v \<noteq> 0 \<and> i < 9 then varintLen_loop i v else i)"
  by pat_completeness auto
termination
  by (relation "measure (\<lambda>(i, v). 9 - i)") auto

declare varintLen_loop.simps [simp del]

definition sqlite3VarintLen :: "u64 \<Rightarrow> nat" where
  "sqlite3VarintLen v = varintLen_loop 0 v"

section \<open>Reading\<close>

definition SLOT_2_0 :: u32 where "SLOT_2_0 = 0x001fc07f"
definition SLOT_4_2_0 :: u32 where "SLOT_4_2_0 = 0xf01fc07f"

definition sqlite3GetVarint :: "u8 list \<Rightarrow> u64 \<times> nat" where
  "sqlite3GetVarint p =
    (let a = (ucast (p ! 0) :: u32) in
     if a AND 0x80 = 0 then (ucast a, 1) else
     let b = (ucast (p ! 1) :: u32) in
     if b AND 0x80 = 0 then
       (let a = a AND 0x7f; a = push_bit 7 a; a = a OR b in (ucast a, 2)) else
     let a = push_bit 14 a; a = a OR ucast (p ! 2) in
     if a AND 0x80 = 0 then
       (let a = a AND SLOT_2_0; b = b AND 0x7f; b = push_bit 7 b; a = a OR b in (ucast a, 3)) else
     let a = a AND SLOT_2_0; b = push_bit 14 b; b = b OR ucast (p ! 3) in
     if b AND 0x80 = 0 then
       (let b = b AND SLOT_2_0; a = push_bit 7 a; a = a OR b in (ucast a, 4)) else
     let b = b AND SLOT_2_0; s = a; a = push_bit 14 a; a = a OR ucast (p ! 4) in
     if a AND 0x80 = 0 then
       (let b = push_bit 7 b; a = a OR b; s = drop_bit 18 s
        in (push_bit 32 (ucast s) OR ucast a, 5)) else
     let s = push_bit 7 s; s = s OR b; b = push_bit 14 b; b = b OR ucast (p ! 5) in
     if b AND 0x80 = 0 then
       (let a = a AND SLOT_2_0; a = push_bit 7 a; a = a OR b; s = drop_bit 18 s
        in (push_bit 32 (ucast s) OR ucast a, 6)) else
     let a = push_bit 14 a; a = a OR ucast (p ! 6) in
     if a AND 0x80 = 0 then
       (let a = a AND SLOT_4_2_0; b = b AND SLOT_2_0; b = push_bit 7 b; a = a OR b;
            s = drop_bit 11 s
        in (push_bit 32 (ucast s) OR ucast a, 7)) else
     let a = a AND SLOT_2_0; b = push_bit 14 b; b = b OR ucast (p ! 7) in
     if b AND 0x80 = 0 then
       (let b = b AND SLOT_4_2_0; a = push_bit 7 a; a = a OR b; s = drop_bit 4 s
        in (push_bit 32 (ucast s) OR ucast a, 8)) else
     let a = push_bit 15 a; a = a OR ucast (p ! 8);
         b = b AND SLOT_2_0; b = push_bit 8 b; a = a OR b;
         s = push_bit 4 s; b = ucast (p ! 4); b = b AND 0x7f; b = drop_bit 3 b; s = s OR b
     in (push_bit 32 (ucast s) OR ucast a, 9))"

text \<open>
  \<open>sqlite3GetVarint32\<close> is compiled without its one-byte case, because the macro
  \<open>getVarint32\<close> (which handles that case inline) is defined before it.
\<close>

definition sqlite3GetVarint32 :: "u8 list \<Rightarrow> u32 \<times> nat" where
  "sqlite3GetVarint32 p =
    (let a = (ucast (p ! 0) :: u32); b = (ucast (p ! 1) :: u32) in
     if b AND 0x80 = 0 then (let a = a AND 0x7f; a = push_bit 7 a in (a OR b, 2)) else
     let a = push_bit 14 a; a = a OR ucast (p ! 2) in
     if a AND 0x80 = 0 then
       (let a = a AND (push_bit 14 0x7f OR 0x7f); b = b AND 0x7f; b = push_bit 7 b
        in (a OR b, 3)) else
     let (v64, n) = sqlite3GetVarint p in
     if v64 AND 0xffffffff \<noteq> v64 then (0xffffffff, n) else (ucast v64, n))"

definition getVarint32 :: "u8 list \<Rightarrow> u32 \<times> nat" where
  "getVarint32 p = (if p ! 0 < 0x80 then (ucast (p ! 0), 1) else sqlite3GetVarint32 p)"

section \<open>Four-byte integers\<close>

definition sqlite3Get4byte :: "u8 list \<Rightarrow> u32" where
  "sqlite3Get4byte p =
     push_bit 24 (ucast (p ! 0)) OR push_bit 16 (ucast (p ! 1)) OR
     push_bit 8 (ucast (p ! 2)) OR ucast (p ! 3)"

definition sqlite3Put4byte :: "u8 list \<Rightarrow> u32 \<Rightarrow> u8 list" where
  "sqlite3Put4byte p v =
     p[0 := ucast (drop_bit 24 v), 1 := ucast (drop_bit 16 v),
       2 := ucast (drop_bit 8 v), 3 := ucast v]"

section \<open>The format, byte by byte\<close>

text \<open>
  \<open>varint_ref k acc p\<close> reads the format as the comment in the source defines it:
  seven bits from each byte whose top bit is set, seven bits from the first byte whose top
  bit is clear, and all eight bits of the ninth byte. \<open>varint_complete\<close> says that the
  bytes from \<open>p\<close> on hold a whole varint, so that the reader stays inside them.
\<close>

fun varint_ref :: "nat \<Rightarrow> u64 \<Rightarrow> u8 list \<Rightarrow> u64 \<times> nat" where
  "varint_ref k acc [] = (acc, k)"
| "varint_ref k acc (b # bs) =
     (if k = 8 then (push_bit 8 acc OR ucast b, 9)
      else let acc' = push_bit 7 acc OR ucast (take_bit 7 b)
           in if bit b 7 then varint_ref (Suc k) acc' bs else (acc', Suc k))"

fun varint_complete :: "nat \<Rightarrow> u8 list \<Rightarrow> bool" where
  "varint_complete k [] = False"
| "varint_complete k (b # bs) = (k = 8 \<or> \<not> bit b 7 \<or> varint_complete (Suc k) bs)"

section \<open>Lemmas: bits of the masks\<close>

lemma bit_byte_ge [simp]: "8 \<le> n \<Longrightarrow> \<not> bit (b :: u8) n"
  using bit_imp_le_length [of b n] by auto

lemma all_less_32: "(\<forall>n<32. P n) \<longleftrightarrow> list_all P [0..<32::nat]"
  by (auto simp: list_all_iff)

lemma bit_SLOT_2_0: "n < 32 \<Longrightarrow> bit SLOT_2_0 n \<longleftrightarrow> n < 7 \<or> 14 \<le> n \<and> n < 21"
proof -
  have "\<forall>n<32. bit SLOT_2_0 n \<longleftrightarrow> n < 7 \<or> 14 \<le> n \<and> n < 21"
    unfolding all_less_32 by code_simp
  then show "n < 32 \<Longrightarrow> ?thesis" by simp
qed

lemma bit_SLOT_4_2_0:
  "n < 32 \<Longrightarrow> bit SLOT_4_2_0 n \<longleftrightarrow> n < 7 \<or> 14 \<le> n \<and> n < 21 \<or> 28 \<le> n"
proof -
  have "\<forall>n<32. bit SLOT_4_2_0 n \<longleftrightarrow> n < 7 \<or> 14 \<le> n \<and> n < 21 \<or> 28 \<le> n"
    unfolding all_less_32 by code_simp
  then show "n < 32 \<Longrightarrow> ?thesis" by simp
qed

lemma and_0x80_iff: "x AND 0x80 = (0::u32) \<longleftrightarrow> \<not> bit x 7"
proof -
  have "(0x80 :: u32) = push_bit 7 1" by simp
  then show ?thesis by (metis and_exp_eq_0_iff_not_bit push_bit_of_1)
qed

lemma and_0x7f_eq: "x AND 0x7f = take_bit 7 (x :: u32)"
  by (simp add: take_bit_eq_mask mask_eq_exp_minus_1)

lemmas varint_bits = bit_simps bit_SLOT_2_0 bit_SLOT_4_2_0

lemma u64_bitsI:
  "list_all (\<lambda>k. bit a k \<longleftrightarrow> bit b k)
    [0, 1, 2, 3, 4, 5, 6, 7, 8, 9, 10, 11, 12, 13, 14, 15, 16, 17, 18, 19, 20, 21, 22,
     23, 24, 25, 26, 27, 28, 29, 30, 31, 32, 33, 34, 35, 36, 37, 38, 39, 40, 41, 42, 43,
     44, 45, 46, 47, 48, 49, 50, 51, 52, 53, 54, 55, 56, 57, 58, 59, 60, 61, 62, 63] \<Longrightarrow> a = (b :: u64)"
proof (rule bit_word_eqI)
  fix n assume h: "list_all (\<lambda>k. bit a k \<longleftrightarrow> bit b k)
    [0, 1, 2, 3, 4, 5, 6, 7, 8, 9, 10, 11, 12, 13, 14, 15, 16, 17, 18, 19, 20, 21, 22,
     23, 24, 25, 26, 27, 28, 29, 30, 31, 32, 33, 34, 35, 36, 37, 38, 39, 40, 41, 42, 43,
     44, 45, 46, 47, 48, 49, 50, 51, 52, 53, 54, 55, 56, 57, 58, 59, 60, 61, 62, 63]"
    and n: "n < LENGTH(64)"
  have "set [0..<64::nat] = set
    [0, 1, 2, 3, 4, 5, 6, 7, 8, 9, 10, 11, 12, 13, 14, 15, 16, 17, 18, 19, 20, 21, 22,
     23, 24, 25, 26, 27, 28, 29, 30, 31, 32, 33, 34, 35, 36, 37, 38, 39, 40, 41, 42, 43,
     44, 45, 46, 47, 48, 49, 50, 51, 52, 53, 54, 55, 56, 57, 58, 59, 60, 61, 62, 63]"
    by code_simp
  moreover have "n \<in> set [0..<64]" using n by simp
  ultimately have "n \<in> set
    [0, 1, 2, 3, 4, 5, 6, 7, 8, 9, 10, 11, 12, 13, 14, 15, 16, 17, 18, 19, 20, 21, 22,
     23, 24, 25, 26, 27, 28, 29, 30, 31, 32, 33, 34, 35, 36, 37, 38, 39, 40, 41, 42, 43,
     44, 45, 46, 47, 48, 49, 50, 51, 52, 53, 54, 55, 56, 57, 58, 59, 60, 61, 62, 63]"
    by (rule back_subst [where P = "\<lambda>A. n \<in> A", rotated])
  with h show "bit a n \<longleftrightarrow> bit b n" unfolding list_all_iff by (rule bspec)
qed

section \<open>Lemmas: the unrolled reader is the reference reader\<close>

lemmas get_unfold = sqlite3GetVarint_def Let_def and_0x80_iff and_0x7f_eq varint_bits

lemma get_ref_1:
  fixes p0 :: u8
  shows "\<not> bit p0 7 \<Longrightarrow>
   sqlite3GetVarint (p0 # bs)
     = varint_ref 0 0 (p0 # bs)"
  by (simp add: get_unfold, rule u64_bitsI, simp add: varint_bits)

lemma get_ref_2:
  fixes p0 :: u8
  shows "bit p0 7 \<Longrightarrow> \<not> bit p1 7 \<Longrightarrow>
   sqlite3GetVarint (p0 # p1 # bs)
     = varint_ref 0 0 (p0 # p1 # bs)"
  by (simp add: get_unfold, rule u64_bitsI, simp add: varint_bits)

lemma get_ref_3:
  fixes p0 :: u8
  shows "bit p0 7 \<Longrightarrow> bit p1 7 \<Longrightarrow> \<not> bit p2 7 \<Longrightarrow>
   sqlite3GetVarint (p0 # p1 # p2 # bs)
     = varint_ref 0 0 (p0 # p1 # p2 # bs)"
  by (simp add: get_unfold, rule u64_bitsI, simp add: varint_bits)

lemma get_ref_4:
  fixes p0 :: u8
  shows "bit p0 7 \<Longrightarrow> bit p1 7 \<Longrightarrow> bit p2 7 \<Longrightarrow> \<not> bit p3 7 \<Longrightarrow>
   sqlite3GetVarint (p0 # p1 # p2 # p3 # bs)
     = varint_ref 0 0 (p0 # p1 # p2 # p3 # bs)"
  by (simp add: get_unfold, rule u64_bitsI, simp add: varint_bits)

lemma get_ref_5:
  fixes p0 :: u8
  shows "bit p0 7 \<Longrightarrow> bit p1 7 \<Longrightarrow> bit p2 7 \<Longrightarrow> bit p3 7 \<Longrightarrow> \<not> bit p4 7 \<Longrightarrow>
   sqlite3GetVarint (p0 # p1 # p2 # p3 # p4 # bs)
     = varint_ref 0 0 (p0 # p1 # p2 # p3 # p4 # bs)"
  by (simp add: get_unfold, rule u64_bitsI, simp add: varint_bits)

lemma get_ref_6:
  fixes p0 :: u8
  shows "bit p0 7 \<Longrightarrow> bit p1 7 \<Longrightarrow> bit p2 7 \<Longrightarrow> bit p3 7 \<Longrightarrow> bit p4 7 \<Longrightarrow> \<not> bit p5 7 \<Longrightarrow>
   sqlite3GetVarint (p0 # p1 # p2 # p3 # p4 # p5 # bs)
     = varint_ref 0 0 (p0 # p1 # p2 # p3 # p4 # p5 # bs)"
  by (simp add: get_unfold, rule u64_bitsI, simp add: varint_bits)

lemma get_ref_7:
  fixes p0 :: u8
  shows "bit p0 7 \<Longrightarrow> bit p1 7 \<Longrightarrow> bit p2 7 \<Longrightarrow> bit p3 7 \<Longrightarrow> bit p4 7 \<Longrightarrow> bit p5 7 \<Longrightarrow> \<not> bit p6 7 \<Longrightarrow>
   sqlite3GetVarint (p0 # p1 # p2 # p3 # p4 # p5 # p6 # bs)
     = varint_ref 0 0 (p0 # p1 # p2 # p3 # p4 # p5 # p6 # bs)"
  by (simp add: get_unfold, rule u64_bitsI, simp add: varint_bits)

lemma get_ref_8:
  fixes p0 :: u8
  shows "bit p0 7 \<Longrightarrow> bit p1 7 \<Longrightarrow> bit p2 7 \<Longrightarrow> bit p3 7 \<Longrightarrow> bit p4 7 \<Longrightarrow> bit p5 7 \<Longrightarrow> bit p6 7 \<Longrightarrow> \<not> bit p7 7 \<Longrightarrow>
   sqlite3GetVarint (p0 # p1 # p2 # p3 # p4 # p5 # p6 # p7 # bs)
     = varint_ref 0 0 (p0 # p1 # p2 # p3 # p4 # p5 # p6 # p7 # bs)"
  by (simp add: get_unfold, rule u64_bitsI, simp add: varint_bits)

lemma get_ref_9:
  fixes p0 :: u8
  shows "bit p0 7 \<Longrightarrow> bit p1 7 \<Longrightarrow> bit p2 7 \<Longrightarrow> bit p3 7 \<Longrightarrow> bit p4 7 \<Longrightarrow> bit p5 7 \<Longrightarrow> bit p6 7 \<Longrightarrow> bit p7 7 \<Longrightarrow>
   sqlite3GetVarint (p0 # p1 # p2 # p3 # p4 # p5 # p6 # p7 # p8 # bs)
     = varint_ref 0 0 (p0 # p1 # p2 # p3 # p4 # p5 # p6 # p7 # p8 # bs)"
  by (simp add: get_unfold, rule u64_bitsI, simp add: varint_bits)

lemma varint_complete_step:
  assumes "varint_complete k p" "k \<noteq> 8"
  obtains b bs where "p = b # bs" "\<not> bit b 7"
    | b bs where "p = b # bs" "bit b 7" "varint_complete (Suc k) bs"
  using assms by (cases p) auto

lemma varint_complete_last:
  assumes "varint_complete (Suc (Suc (Suc (Suc (Suc (Suc (Suc (Suc 0)))))))) p"
  obtains b bs where "p = b # bs"
  using assms by (cases p) auto

text \<open>The unrolled reader computes what the format says, on every complete varint.\<close>

lemma sqlite3GetVarint_ref:
  "varint_complete 0 p \<Longrightarrow> sqlite3GetVarint p = varint_ref 0 0 p"
  apply (erule varint_complete_step, simp, hypsubst, rule get_ref_1, assumption+)
  apply (erule varint_complete_step, simp, hypsubst, rule get_ref_2, assumption+)
  apply (erule varint_complete_step, simp, hypsubst, rule get_ref_3, assumption+)
  apply (erule varint_complete_step, simp, hypsubst, rule get_ref_4, assumption+)
  apply (erule varint_complete_step, simp, hypsubst, rule get_ref_5, assumption+)
  apply (erule varint_complete_step, simp, hypsubst, rule get_ref_6, assumption+)
  apply (erule varint_complete_step, simp, hypsubst, rule get_ref_7, assumption+)
  apply (erule varint_complete_step, simp, hypsubst, rule get_ref_8, assumption+)
  apply (erule varint_complete_last, hypsubst, rule get_ref_9, assumption+)
  done

section \<open>Lemmas: the writers\<close>

lemma mask_0x7f: "(0x7f :: u64) = mask 7"
  by (simp add: mask_eq_exp_minus_1)

lemma bit_0x80: "bit (0x80 :: u64) n \<longleftrightarrow> n = 7"
proof -
  have e: "(0x80 :: u64) = 2 ^ 7" by simp
  show ?thesis unfolding e by (subst bit_exp_iff) auto
qed

lemma bit_0x80_byte: "bit (0x80 :: u8) n \<longleftrightarrow> n = 7"
proof -
  have e: "(0x80 :: u8) = 2 ^ 7" by simp
  show ?thesis unfolding e by (subst bit_exp_iff) auto
qed

lemma bit_group: "bit (ucast ((v AND 0x7f) OR 0x80 :: u64) :: u8) 7"
  by (simp add: bit_simps bit_0x80 bit_0x80_byte)

lemma take_bit_group: "take_bit 7 (ucast ((v AND 0x7f) OR 0x80 :: u64) :: u8) = ucast (take_bit 7 v)"
  unfolding mask_0x7f
  by (rule bit_word_eqI, simp only: bit_simps bit_0x80) auto

lemma join_group: "push_bit 7 (drop_bit 7 v) OR ucast (ucast (take_bit 7 v) :: u8) = (v :: u64)"
proof (rule bit_word_eqI)
  fix n assume "n < LENGTH(64)"
  then show "bit (push_bit 7 (drop_bit 7 v) OR ucast (ucast (take_bit 7 v) :: u8)) n \<longleftrightarrow> bit v n"
    by (cases "n < 7") (auto simp: bit_simps)
qed

lemma unat_drop_7: "unat (drop_bit 7 w :: u64) = unat w div 128"
  by (simp only: unat_drop_bit_eq) (simp add: drop_bit_eq_div)

lemma varint_ref_rev_buf:
  "length (varint_buf w) \<le> 8 \<Longrightarrow>
   varint_ref 0 0 (rev (varint_buf w) @ rest) = varint_ref (length (varint_buf w)) w rest"
proof (induction w arbitrary: rest rule: varint_buf.induct)
  case (1 w)
  let ?g = "ucast ((w AND 0x7f) OR 0x80) :: u8"
  show ?case
  proof (cases "drop_bit 7 w = 0")
    case True
    then have "push_bit 7 0 OR ucast (take_bit 7 ?g) = w"
      using join_group [of w] by (simp only: take_bit_group)
    with True show ?thesis
      by (simp only: varint_buf.simps [of w]) (simp add: bit_group)
  next
    case False
    have l: "length (varint_buf (drop_bit 7 w)) < 8"
      using 1(2) False by (simp add: varint_buf.simps [of w])
    have "varint_ref 0 0 (rev (varint_buf (drop_bit 7 w)) @ ?g # rest)
        = varint_ref (length (varint_buf (drop_bit 7 w))) (drop_bit 7 w) (?g # rest)"
      using 1(1) [OF False] l by simp
    also have "\<dots> = varint_ref (Suc (length (varint_buf (drop_bit 7 w)))) w rest"
      using l by (simp add: bit_group take_bit_group join_group)
    finally show ?thesis using False by (simp add: varint_buf.simps [of w])
  qed
qed
lemma length_varint_buf:
  "unat w < 128 ^ Suc m \<Longrightarrow> length (varint_buf w) \<le> Suc m"
proof (induction m arbitrary: w)
  case 0
  then have "drop_bit 7 w = 0" 
    by (simp add: word_unat_eq_iff unat_drop_7 del: drop_bit_eq_div)
  then show ?case by (simp add: varint_buf.simps [of w])
next
  case (Suc m)
  have "unat (drop_bit 7 w) = unat w div 128"
    by (simp only: unat_drop_bit_eq) (simp add: drop_bit_eq_div)
  with Suc have "length (varint_buf (drop_bit 7 w)) \<le> Suc m"
    by (simp add: less_mult_imp_div_less mult.commute)
  then show ?case by (simp add: varint_buf.simps [of w])
qed


lemma top_byte_clear: "v AND push_bit 32 0xff000000 = (0::u64) \<Longrightarrow> unat v < 128 ^ 8"
proof -
  assume a: "v AND push_bit 32 0xff000000 = 0"
  have m: "push_bit 32 0xff000000 = (push_bit 56 (mask 8) :: u64)" by (simp add: mask_eq_exp_minus_1)
  have "drop_bit 56 v = 0"
  proof (rule bit_word_eqI)
    fix n assume n: "n < LENGTH(64)"
    show "bit (drop_bit 56 v) n \<longleftrightarrow> bit 0 n"
    proof (cases "n < 8")
      case True
      have "bit (v AND push_bit 56 (mask 8)) (56 + n) \<longleftrightarrow> bit (0::u64) (56 + n)"
        using a m by simp
      with True show ?thesis by (simp add: bit_simps)
    next
      case False
      then have "\<not> bit v (56 + n)" using bit_imp_le_length [of v "56 + n"] by auto
      then show ?thesis by (simp add: bit_simps)
    qed
  qed
  then have "unat v div 2 ^ 56 = 0"
    by (metis drop_bit_eq_div unat_drop_bit_eq unsigned_0)
  then show ?thesis by (simp add: div_eq_0_iff)
qed


lemma group_and_0x7f: "(ucast ((v AND 0x7f) OR 0x80 :: u64) :: u8) AND 0x7f = ucast (v AND 0x7f)"
proof -
  have m: "(0x7f :: u8) = mask 7" by (simp add: mask_eq_exp_minus_1)
  show ?thesis unfolding mask_0x7f m
    by (rule bit_word_eqI, simp only: bit_simps bit_0x80) auto
qed

lemma drop_7_eq_0: "drop_bit 7 v = 0 \<longleftrightarrow> v \<le> (0x7f :: u64)"
proof -
  have "drop_bit 7 v = 0 \<longleftrightarrow> unat v div 128 = 0"
    by (simp only: word_unat_eq_iff unat_drop_7 unsigned_0)
  also have "\<dots> \<longleftrightarrow> unat v < 128" by (simp add: div_eq_0_iff)
  also have "\<dots> \<longleftrightarrow> v \<le> 0x7f" by (auto simp: word_le_nat_alt)
  finally show ?thesis .
qed

lemma drop_14_eq_0: "drop_bit 7 (drop_bit 7 v) = 0 \<longleftrightarrow> v \<le> (0x3fff :: u64)"
proof -
  have "drop_bit 7 (drop_bit 7 v) = 0 \<longleftrightarrow> unat v div 128 div 128 = 0"
    by (simp only: word_unat_eq_iff unat_drop_7 unsigned_0)
  also have "\<dots> \<longleftrightarrow> unat v < 16384" by (simp add: div_mult2_eq [symmetric] div_eq_0_iff)
  also have "\<dots> \<longleftrightarrow> v \<le> 0x3fff" by (auto simp: word_le_nat_alt)
  finally show ?thesis .
qed

lemma short_top_clear:
  assumes "v \<le> (0x3fff :: u64)"
  shows "v AND push_bit 32 0xff000000 = 0"
proof -
  have m: "push_bit 32 0xff000000 = (push_bit 56 (mask 8) :: u64)" by (simp add: mask_eq_exp_minus_1)
  have d: "drop_bit 14 v = 0" using assms drop_14_eq_0 [of v] by (simp only: drop_bit_drop_bit) simp
  show ?thesis unfolding m
  proof (rule bit_word_eqI)
    fix n
    have "\<not> bit v n" if "14 \<le> n"
    proof -
      have "bit (drop_bit 14 v) (n - 14) \<longleftrightarrow> bit v n" using that by (simp only: bit_drop_bit_eq) simp
      then show ?thesis unfolding d by simp
    qed
    then show "bit (v AND push_bit 56 (mask 8)) n \<longleftrightarrow> bit 0 n"
      by (auto simp: bit_simps)
  qed
qed

definition buf_bytes :: "u64 \<Rightarrow> u8 list" where
  "buf_bytes v = (if drop_bit 7 v = 0 then [] else rev (varint_buf (drop_bit 7 v))) @ [ucast (v AND 0x7f)]"

text \<open>The two short forms of the writer agree with its general loop.\<close>

lemma rev_masked_buf:
  "(let buf = varint_buf v; buf = buf[0 := hd buf AND 0x7f] in rev buf) = buf_bytes v"
  by (simp add: varint_buf.simps [of v] Let_def group_and_0x7f buf_bytes_def)

lemma sqlite3PutVarint_eq:
  "sqlite3PutVarint v =
     (if v AND push_bit 32 0xff000000 \<noteq> 0 then put9_loop 8 (drop_bit 8 v) [ucast v] else buf_bytes v)"
proof -
  consider "v \<le> 0x7f" | "\<not> v \<le> 0x7f" "v \<le> 0x3fff" | "\<not> v \<le> 0x3fff" by blast
  then show ?thesis
  proof cases
    case 1
    then have "v \<le> 0x3fff" by (simp add: word_le_nat_alt)
    then have "v AND push_bit 32 0xff000000 = 0" by (rule short_top_clear)
    moreover have "drop_bit 7 v = 0" using 1 drop_7_eq_0 by blast
    ultimately show ?thesis using 1 unfolding sqlite3PutVarint_def buf_bytes_def by (simp only: if_True) simp
  next
    case 2
    have t: "v AND push_bit 32 0xff000000 = 0" using 2(2) by (rule short_top_clear)
    have d: "drop_bit 7 v \<noteq> 0" "drop_bit 7 (drop_bit 7 v) = 0"
      using 2 drop_7_eq_0 drop_14_eq_0 by blast+
    show ?thesis using 2 t d
      unfolding sqlite3PutVarint_def buf_bytes_def varint_buf.simps [of "drop_bit 7 v"]
      by (simp only: if_True if_False) simp
  next
    case 3
    then have "\<not> v \<le> 0x7f" by (auto simp: word_le_nat_alt)
    with 3 show ?thesis unfolding sqlite3PutVarint_def putVarint64_def rev_masked_buf by simp
  qed
qed

lemma take_bit_7_step:
  "push_bit 7 (take_bit (7 * i) (drop_bit 7 w)) OR ucast (ucast (take_bit 7 w) :: u8)
     = take_bit (7 * Suc i) (w :: u64)"
proof (rule bit_word_eqI)
  fix n assume "n < LENGTH(64)"
  then show "bit (push_bit 7 (take_bit (7 * i) (drop_bit 7 w)) OR ucast (ucast (take_bit 7 w) :: u8)) n
      \<longleftrightarrow> bit (take_bit (7 * Suc i) w) n"
    by (cases "n < 7") (auto simp: bit_simps)
qed

lemma varint_ref_put9_loop:
  "i \<le> 8 \<Longrightarrow>
   varint_ref 0 0 (put9_loop i w p @ rest) = varint_ref i (take_bit (7 * i) w) (p @ rest)"
proof (induction i arbitrary: w p)
  case (Suc i)
  let ?g = "ucast ((w AND 0x7f) OR 0x80) :: u8"
  have "varint_ref 0 0 (put9_loop (Suc i) w p @ rest)
      = varint_ref i (take_bit (7 * i) (drop_bit 7 w)) (?g # p @ rest)"
    using Suc.IH [of "drop_bit 7 w" "?g # p"] Suc.prems by simp
  also have "\<dots> = varint_ref (Suc i) (take_bit (7 * Suc i) w) (p @ rest)"
    using Suc.prems unfolding varint_ref.simps Let_def take_bit_group take_bit_7_step
    by (simp only: bit_group if_True) simp
  finally show ?case .
qed simp

lemma length_put9_loop: "length (put9_loop i w p) = i + length p"
  by (induction i arbitrary: w p) auto

lemma join_byte: "push_bit 8 (take_bit 56 (drop_bit 8 v)) OR ucast (ucast v :: u8) = (v :: u64)"
proof (rule bit_word_eqI)
  fix n assume "n < LENGTH(64)"
  then show "bit (push_bit 8 (take_bit 56 (drop_bit 8 v)) OR ucast (ucast v :: u8)) n \<longleftrightarrow> bit v n"
    by (cases "n < 8") (auto simp: bit_simps)
qed

lemma varint_ref_buf_bytes:
  assumes "unat v < 128 ^ 8"
  shows "varint_ref 0 0 (buf_bytes v @ rest) = (v, length (buf_bytes v))"
proof -
  have m: "\<not> bit (ucast (v AND 0x7f) :: u8) 7" "take_bit 7 (ucast (v AND 0x7f) :: u8) = ucast (take_bit 7 v)"
    unfolding mask_0x7f take_bit_eq_mask [symmetric]
    by (simp add: bit_simps) (rule bit_word_eqI, auto simp: bit_simps)
  show ?thesis
  proof (cases "drop_bit 7 v = 0")
    case True
    then have "ucast (ucast (take_bit 7 v) :: u8) = v" using join_group [of v] by simp
    with True m show ?thesis by (simp add: buf_bytes_def)
  next
    case False
    have "unat (drop_bit 7 v) < 128 ^ Suc 6" using assms by (simp add: unat_drop_7 del: drop_bit_eq_div)
    then have l: "length (varint_buf (drop_bit 7 v)) \<le> 7"
      using length_varint_buf by fastforce
    then have "varint_ref 0 0 (rev (varint_buf (drop_bit 7 v)) @ ucast (v AND 0x7f) # rest)
        = varint_ref (length (varint_buf (drop_bit 7 v))) (drop_bit 7 v) (ucast (v AND 0x7f) # rest)"
      by (intro varint_ref_rev_buf) simp
    also have "\<dots> = (v, Suc (length (varint_buf (drop_bit 7 v))))"
      using l unfolding varint_ref.simps Let_def m join_group by (simp add: m)
    finally show ?thesis using False by (simp add: buf_bytes_def)
  qed
qed

text \<open>Writing a value and reading it back with the reference reader.\<close>

lemma varint_ref_put:
  "varint_ref 0 0 (sqlite3PutVarint v @ rest) = (v, length (sqlite3PutVarint v))"
proof (cases "v AND push_bit 32 0xff000000 = 0")
  case True
  then show ?thesis
    using varint_ref_buf_bytes [OF top_byte_clear [OF True]] by (simp only: sqlite3PutVarint_eq) simp
next
  case False
  then show ?thesis
    using varint_ref_put9_loop [of 8 "drop_bit 8 v" "[ucast v]" rest]
    by (simp only: sqlite3PutVarint_eq if_True) (simp add: length_put9_loop join_byte)
qed

lemma varint_complete_append: "varint_complete k p \<Longrightarrow> varint_complete k (p @ rest)"
  by (induction k p rule: varint_complete.induct) auto

lemma varint_incomplete_continues:
  "\<not> varint_complete k p \<Longrightarrow> k \<le> 8 \<Longrightarrow>
   k + length p \<le> 8 \<and> (\<exists>acc'. varint_ref k acc (p @ rest) = varint_ref (k + length p) acc' rest)"
proof (induction k p arbitrary: acc rule: varint_complete.induct)
  case (2 k b bs)
  then have "k \<noteq> 8" "bit b 7" "\<not> varint_complete (Suc k) bs" by auto
  with 2 show ?case by (auto simp: Let_def)
qed auto

lemma varint_ref_consumes: "k \<le> 8 \<Longrightarrow> k < snd (varint_ref k acc (b # p))"
proof (induction p arbitrary: k acc b)
  case (Cons c p)
  show ?case
  proof (cases "k = 8 \<or> \<not> bit b 7")
    case False
    then have "Suc k < snd (varint_ref (Suc k) (push_bit 7 acc OR ucast (take_bit 7 b)) (c # p))"
      using Cons.prems by (intro Cons.IH) simp
    with False show ?thesis by (simp add: Let_def del: varint_ref.simps(2) add: varint_ref.simps(2) [of k])
  qed (auto simp: Let_def)
qed (auto simp: Let_def)

lemma varint_complete_put: "varint_complete 0 (sqlite3PutVarint v @ rest)"
proof (rule varint_complete_append, rule ccontr)
  assume "\<not> varint_complete 0 (sqlite3PutVarint v)"
  from varint_incomplete_continues [OF this, of 0 "[0]"] obtain acc where
    l: "length (sqlite3PutVarint v) \<le> 8" and
    e: "varint_ref 0 0 (sqlite3PutVarint v @ [0]) = varint_ref (length (sqlite3PutVarint v)) acc [0]"
    by auto
  show False using varint_ref_consumes [OF l, of acc 0 "[]"] unfolding e [symmetric] varint_ref_put by simp
qed

lemma varint_buf_bound: "unat v < 128 ^ length (varint_buf v)"
proof (induction v rule: varint_buf.induct)
  case (1 v)
  show ?case
  proof (cases "drop_bit 7 v = 0")
    case True
    then have "unat v div 128 = 0" by (simp only: unat_drop_7 [symmetric] unsigned_0)
    with True show ?thesis by (simp add: varint_buf.simps [of v] div_eq_0_iff)
  next
    case False
    with 1 have "unat v div 128 < 128 ^ length (varint_buf (drop_bit 7 v))"
      by (simp only: unat_drop_7 not_False_eq_True)
    then have "unat v < 128 ^ length (varint_buf (drop_bit 7 v)) * 128"
      by (simp only: div_less_iff_less_mult zero_less_numeral)
    with False show ?thesis by (simp add: varint_buf.simps [of v] mult.commute)
  qed
qed

lemma varintLen_loop_eq: "i < 9 \<Longrightarrow> varintLen_loop i v = min 9 (i + length (varint_buf v))"
proof (induction v arbitrary: i rule: varint_buf.induct)
  case (1 v)
  have "0 < length (varint_buf (drop_bit 7 v))" by (subst varint_buf.simps) simp
  then show ?case using 1
    by (cases "drop_bit 7 v = 0"; cases "i = 8")
      (auto simp: varintLen_loop.simps [of i v] varintLen_loop.simps [of 8 v] varint_buf.simps [of v] Let_def)
qed

lemma bit_unat_ge: "unat (v :: u64) < 2 ^ m \<Longrightarrow> m \<le> n \<Longrightarrow> \<not> bit v n"
proof
  assume a: "unat v < 2 ^ m" "m \<le> n" and b: "bit v n"
  have "(2::nat) ^ m \<le> 2 ^ n" using a(2) by (rule power_increasing) simp
  with a(1) have "unat v div 2 ^ n = 0" by (meson div_less less_le_trans)
  moreover have "bit (unat v) n" using b by (simp add: bit_unsigned_iff)
  ultimately show False by (simp add: bit_iff_odd)
qed

lemma length_sqlite3PutVarint: "length (sqlite3PutVarint v) = sqlite3VarintLen v"
proof (cases "v AND push_bit 32 0xff000000 = 0")
  case True
  then have "length (varint_buf v) \<le> Suc 7" by (intro length_varint_buf) (use top_byte_clear in simp)
  moreover have "length (buf_bytes v) = length (varint_buf v)"
    by (simp add: buf_bytes_def varint_buf.simps [of v])
  ultimately show ?thesis using True
    by (simp only: sqlite3PutVarint_eq sqlite3VarintLen_def) (simp add: varintLen_loop_eq)
next
  case False
  have "\<not> length (varint_buf v) \<le> 8"
  proof
    assume "length (varint_buf v) \<le> 8"
    then have "unat v < 128 ^ 8"
      using varint_buf_bound [of v] power_increasing [of "length (varint_buf v)" 8 "128::nat"] by linarith
    then have "unat v < 2 ^ 56" by simp
    then have nb: "56 \<le> n \<Longrightarrow> \<not> bit v n" for n by (rule bit_unat_ge)
    have m: "push_bit 32 0xff000000 = (push_bit 56 (mask 8) :: u64)" by (simp add: mask_eq_exp_minus_1)
    have "v AND push_bit 32 0xff000000 = 0"
      unfolding m by (rule bit_word_eqI) (auto simp: bit_simps nb)
    with False show False by simp
  qed
  with False show ?thesis
    by (simp only: sqlite3PutVarint_eq sqlite3VarintLen_def) (simp add: varintLen_loop_eq length_put9_loop)
qed

text \<open>The 32-bit reader.\<close>

lemma u32_cap: "(v :: u64) AND 0xffffffff \<noteq> v \<longleftrightarrow> \<not> v \<le> 0xffffffff"
proof -
  have m: "(0xffffffff :: u64) = mask 32" by (simp add: mask_eq_exp_minus_1)
  have "v AND mask 32 = v \<longleftrightarrow> unat v < 2 ^ 32"
    by (simp only: take_bit_eq_mask [symmetric] word_unat_eq_iff unsigned_take_bit_eq take_bit_nat_eq_self_iff)
  also have "\<dots> \<longleftrightarrow> v \<le> mask 32"
    unfolding m [symmetric] by (auto simp: word_le_nat_alt)
  finally show ?thesis unfolding m by simp
qed

lemma SLOT_2_0_eq: "push_bit 14 0x7f OR 0x7f = SLOT_2_0"
  by (simp add: SLOT_2_0_def)

lemma sqlite3GetVarint32_eq:
  assumes "bit (p ! 0) 7"
  shows "sqlite3GetVarint32 p =
    (let (v, n) = sqlite3GetVarint p in (if v \<le> 0xffffffff then ucast v else 0xffffffff, n))"
proof -
  have u: "ucast (ucast x :: u64) = x" "(ucast x :: u64) \<le> 0xffffffff" for x :: u32
    using unat_less_exp [of x] by (simp_all add: ucast_ucast_up word_le_nat_alt unat_ucast_up)
  have a: "(ucast (p ! 0) :: u32) AND 0x80 \<noteq> 0"
    using assms by (simp only: and_0x80_iff) (simp add: bit_simps)
  let ?b = "ucast (p ! 1) AND 0x80 = (0::u32)"
  let ?a = "(push_bit 14 (ucast (p ! 0)) OR ucast (p ! 2)) AND 0x80 = (0::u32)"
  consider ?b | "\<not> ?b" ?a | "\<not> ?b" "\<not> ?a" by blast
  then show ?thesis
  proof cases
    case 1
    then show ?thesis
      by (simp only: sqlite3GetVarint32_def sqlite3GetVarint_def Let_def a if_False if_True) (simp add: u)
  next
    case 2
    then show ?thesis
      by (simp only: sqlite3GetVarint32_def sqlite3GetVarint_def Let_def a if_False if_True SLOT_2_0_eq)
        (simp add: u)
  next
    case 3
    then show ?thesis
      by (simp only: sqlite3GetVarint32_def Let_def if_False u32_cap) (auto split: prod.split)
  qed
qed

lemma getVarint32_eq:
  "getVarint32 p =
    (let (v, n) = sqlite3GetVarint p in (if v \<le> 0xffffffff then ucast v else 0xffffffff, n))"
proof (cases "bit (p ! 0) 7")
  case True
  then have "\<not> p ! 0 < 0x80" by (simp add: byte_bit7 word_less_nat_alt)
  then show ?thesis using sqlite3GetVarint32_eq [OF True] by (simp add: getVarint32_def)
next
  case False
  then have l: "p ! 0 < 0x80" by (simp add: byte_bit7 word_less_nat_alt)
  have a: "(ucast (p ! 0) :: u32) AND 0x80 = 0"
    using False by (simp only: and_0x80_iff) (simp add: bit_simps)
  have "unat (p ! 0) \<le> 4294967295" using unat_byte_le [of "p ! 0"] by simp
  then show ?thesis
    by (simp only: getVarint32_def sqlite3GetVarint_def Let_def l a if_True)
      (simp add: word_le_nat_alt unat_ucast_up ucast_ucast_up)
qed

lemma sqlite3Get4byte_Put4byte:
  assumes "4 \<le> length p"
  shows "sqlite3Get4byte (sqlite3Put4byte p v) = v"
proof (rule bit_word_eqI)
  have l: "0 < length p" "1 < length p" "2 < length p" "3 < length p" using assms by auto
  fix n assume "n < LENGTH(32)"
  then consider "n < 8" | "8 \<le> n" "n < 16" | "16 \<le> n" "n < 24" | "24 \<le> n" "n < 32" by force
  then show "bit (sqlite3Get4byte (sqlite3Put4byte p v)) n \<longleftrightarrow> bit v n"
    by cases (use l in \<open>auto simp: sqlite3Get4byte_def sqlite3Put4byte_def bit_simps\<close>)
qed

section \<open>Properties\<close>

text \<open>C13: Every 64-bit value written by \<open>sqlite3PutVarint\<close> is read back by the unrolled
  \<open>sqlite3GetVarint\<close>, whatever bytes follow, and the reader consumes exactly the bytes
  written.\<close>

theorem varint_roundtrip:
  "sqlite3GetVarint (sqlite3PutVarint v @ rest) = (v, length (sqlite3PutVarint v))"
  using sqlite3GetVarint_ref [OF varint_complete_put] varint_ref_put by simp

text \<open>The number of bytes written is what \<open>sqlite3VarintLen\<close> predicts, and it is
  between 1 and 9.\<close>

theorem varint_len:
  "length (sqlite3PutVarint v) = sqlite3VarintLen v \<and>
   1 \<le> sqlite3VarintLen v \<and> sqlite3VarintLen v \<le> 9"
proof -
  have "0 < length (varint_buf v)" by (subst varint_buf.simps) simp
  then show ?thesis
    using length_sqlite3PutVarint by (simp add: sqlite3VarintLen_def varintLen_loop_eq Suc_le_eq)
qed

text \<open>The optimised 32-bit reader (the macro with its inlined one-byte case) returns the
  value of the 64-bit reader when it fits in 32 bits and 0xffffffff otherwise, and consumes
  the same number of bytes.\<close>

theorem getVarint32_saturates:
  "getVarint32 p =
    (let (v, n) = sqlite3GetVarint p in (if v \<le> 0xffffffff then ucast v else 0xffffffff, n))"
  by (rule getVarint32_eq)

text \<open>Four-byte integers: what \<open>sqlite3Put4byte\<close> stores, \<open>sqlite3Get4byte\<close> reads; the
  store keeps the size of the buffer and every byte after the fourth.\<close>

theorem four_byte_roundtrip:
  assumes "4 \<le> length p"
  shows "sqlite3Get4byte (sqlite3Put4byte p v) = v \<and>
    length (sqlite3Put4byte p v) = length p \<and> drop 4 (sqlite3Put4byte p v) = drop 4 p"
  using sqlite3Get4byte_Put4byte [OF assms] by (simp add: sqlite3Put4byte_def)

theorem four_byte_roundtrip_witness:
  "sqlite3Get4byte (sqlite3Put4byte [0, 0, 0, 0, 9] 0xdeadbeef) = 0xdeadbeef \<and>
   drop 4 (sqlite3Put4byte [0, 0, 0, 0, 9] 0xdeadbeef) = [9]"
  using four_byte_roundtrip [of "[0, 0, 0, 0, 9]" "0xdeadbeef"] by simp

end
