(* ===== verification/Ctype.thy ===== *)
theory Ctype
  imports Prelude "HOL-Library.Word"
begin

text \<open>
  Character classes and C strings, from \<^verbatim>\<open>global.c\<close> and \<^verbatim>\<open>util.c\<close>: the
  case and class tables, comparison without regard to case, removal of quotes and decoding of hexadecimal
  literals. A pointer to a NUL-terminated string is the list of the bytes from it on;
  \<open>zat z i\<close> is \<open>z[i]\<close>, with the terminator behind the last element. The tables are shown to
  agree with the character ranges they encode, and the functions with their descriptions on strings.
\<close>

section \<open>Tables\<close>

definition sqlite3UpperToLower :: "u8 list" where
  "sqlite3UpperToLower = [
    0, 1, 2, 3, 4, 5, 6, 7, 8, 9, 10, 11, 12, 13, 14, 15, 16, 17,
    18, 19, 20, 21, 22, 23, 24, 25, 26, 27, 28, 29, 30, 31, 32, 33, 34, 35,
    36, 37, 38, 39, 40, 41, 42, 43, 44, 45, 46, 47, 48, 49, 50, 51, 52, 53,
    54, 55, 56, 57, 58, 59, 60, 61, 62, 63, 64, 97, 98, 99, 100, 101, 102, 103,
    104, 105, 106, 107, 108, 109, 110, 111, 112, 113, 114, 115, 116, 117, 118, 119, 120, 121,
    122, 91, 92, 93, 94, 95, 96, 97, 98, 99, 100, 101, 102, 103, 104, 105, 106, 107,
    108, 109, 110, 111, 112, 113, 114, 115, 116, 117, 118, 119, 120, 121, 122, 123, 124, 125,
    126, 127, 128, 129, 130, 131, 132, 133, 134, 135, 136, 137, 138, 139, 140, 141, 142, 143,
    144, 145, 146, 147, 148, 149, 150, 151, 152, 153, 154, 155, 156, 157, 158, 159, 160, 161,
    162, 163, 164, 165, 166, 167, 168, 169, 170, 171, 172, 173, 174, 175, 176, 177, 178, 179,
    180, 181, 182, 183, 184, 185, 186, 187, 188, 189, 190, 191, 192, 193, 194, 195, 196, 197,
    198, 199, 200, 201, 202, 203, 204, 205, 206, 207, 208, 209, 210, 211, 212, 213, 214, 215,
    216, 217, 218, 219, 220, 221, 222, 223, 224, 225, 226, 227, 228, 229, 230, 231, 232, 233,
    234, 235, 236, 237, 238, 239, 240, 241, 242, 243, 244, 245, 246, 247, 248, 249, 250, 251,
    252, 253, 254, 255]"

definition sqlite3CtypeMap :: "u8 list" where
  "sqlite3CtypeMap = [
    0x00, 0x00, 0x00, 0x00, 0x00, 0x00, 0x00, 0x00, 0x00, 0x01, 0x01, 0x01, 0x01, 0x01, 0x00, 0x00,
    0x00, 0x00, 0x00, 0x00, 0x00, 0x00, 0x00, 0x00, 0x00, 0x00, 0x00, 0x00, 0x00, 0x00, 0x00, 0x00,
    0x01, 0x00, 0x00, 0x00, 0x40, 0x00, 0x00, 0x00, 0x00, 0x00, 0x00, 0x00, 0x00, 0x00, 0x00, 0x00,
    0x0c, 0x0c, 0x0c, 0x0c, 0x0c, 0x0c, 0x0c, 0x0c, 0x0c, 0x0c, 0x00, 0x00, 0x00, 0x00, 0x00, 0x00,
    0x00, 0x0a, 0x0a, 0x0a, 0x0a, 0x0a, 0x0a, 0x02, 0x02, 0x02, 0x02, 0x02, 0x02, 0x02, 0x02, 0x02,
    0x02, 0x02, 0x02, 0x02, 0x02, 0x02, 0x02, 0x02, 0x02, 0x02, 0x02, 0x00, 0x00, 0x00, 0x00, 0x40,
    0x00, 0x2a, 0x2a, 0x2a, 0x2a, 0x2a, 0x2a, 0x22, 0x22, 0x22, 0x22, 0x22, 0x22, 0x22, 0x22, 0x22,
    0x22, 0x22, 0x22, 0x22, 0x22, 0x22, 0x22, 0x22, 0x22, 0x22, 0x22, 0x00, 0x00, 0x00, 0x00, 0x00,
    0x40, 0x40, 0x40, 0x40, 0x40, 0x40, 0x40, 0x40, 0x40, 0x40, 0x40, 0x40, 0x40, 0x40, 0x40, 0x40,
    0x40, 0x40, 0x40, 0x40, 0x40, 0x40, 0x40, 0x40, 0x40, 0x40, 0x40, 0x40, 0x40, 0x40, 0x40, 0x40,
    0x40, 0x40, 0x40, 0x40, 0x40, 0x40, 0x40, 0x40, 0x40, 0x40, 0x40, 0x40, 0x40, 0x40, 0x40, 0x40,
    0x40, 0x40, 0x40, 0x40, 0x40, 0x40, 0x40, 0x40, 0x40, 0x40, 0x40, 0x40, 0x40, 0x40, 0x40, 0x40,
    0x40, 0x40, 0x40, 0x40, 0x40, 0x40, 0x40, 0x40, 0x40, 0x40, 0x40, 0x40, 0x40, 0x40, 0x40, 0x40,
    0x40, 0x40, 0x40, 0x40, 0x40, 0x40, 0x40, 0x40, 0x40, 0x40, 0x40, 0x40, 0x40, 0x40, 0x40, 0x40,
    0x40, 0x40, 0x40, 0x40, 0x40, 0x40, 0x40, 0x40, 0x40, 0x40, 0x40, 0x40, 0x40, 0x40, 0x40, 0x40,
    0x40, 0x40, 0x40, 0x40, 0x40, 0x40, 0x40, 0x40, 0x40, 0x40, 0x40, 0x40, 0x40, 0x40, 0x40, 0x40]"

definition UpperToLower :: "u8 \<Rightarrow> u8" where
  "UpperToLower c = sqlite3UpperToLower ! unat c"

definition sqlite3Toupper :: "u8 \<Rightarrow> u8" where
  "sqlite3Toupper x = x AND NOT (sqlite3CtypeMap ! unat x AND 0x20)"

definition sqlite3Isspace :: "u8 \<Rightarrow> bool" where
  "sqlite3Isspace x \<longleftrightarrow> sqlite3CtypeMap ! unat x AND 0x01 \<noteq> 0"

definition sqlite3Isalnum :: "u8 \<Rightarrow> bool" where
  "sqlite3Isalnum x \<longleftrightarrow> sqlite3CtypeMap ! unat x AND 0x06 \<noteq> 0"

definition sqlite3Isalpha :: "u8 \<Rightarrow> bool" where
  "sqlite3Isalpha x \<longleftrightarrow> sqlite3CtypeMap ! unat x AND 0x02 \<noteq> 0"

definition sqlite3Isdigit :: "u8 \<Rightarrow> bool" where
  "sqlite3Isdigit x \<longleftrightarrow> sqlite3CtypeMap ! unat x AND 0x04 \<noteq> 0"

definition sqlite3Isxdigit :: "u8 \<Rightarrow> bool" where
  "sqlite3Isxdigit x \<longleftrightarrow> sqlite3CtypeMap ! unat x AND 0x08 \<noteq> 0"

definition IdChar :: "u8 \<Rightarrow> bool" where
  "IdChar x \<longleftrightarrow> sqlite3CtypeMap ! unat x AND 0x46 \<noteq> 0"

section \<open>Strings\<close>

definition zat :: "u8 list \<Rightarrow> nat \<Rightarrow> u8" where
  "zat z i = (if i < length z then z ! i else 0)"

text \<open>The bytes of a string before its terminator.\<close>

definition cstr :: "u8 list \<Rightarrow> u8 list" where
  "cstr z = takeWhile (\<lambda>c. c \<noteq> 0) z"

fun strlen_loop :: "u8 list \<Rightarrow> nat \<Rightarrow> nat" where
  "strlen_loop [] n = n"
| "strlen_loop (c # z) n = (if c \<noteq> 0 then strlen_loop z (n + 1) else n)"

text \<open>A null pointer is \<open>None\<close>. The mask keeps the low 30 bits of the length.\<close>

definition sqlite3Strlen30 :: "u8 list option \<Rightarrow> int" where
  "sqlite3Strlen30 z = (case z of None \<Rightarrow> 0 | Some z \<Rightarrow> 0x3fffffff AND int (strlen_loop z 0))"

fun sqlite3_stricmp :: "u8 list \<Rightarrow> u8 list \<Rightarrow> int" where
  "sqlite3_stricmp [] w = uint (UpperToLower 0) - uint (UpperToLower (zat w 0))"
| "sqlite3_stricmp (a # z) w =
     (if a \<noteq> 0 \<and> UpperToLower a = UpperToLower (zat w 0) then sqlite3_stricmp z (tl w)
      else uint (UpperToLower a) - uint (UpperToLower (zat w 0)))"

fun sqlite3_strnicmp :: "u8 list \<Rightarrow> u8 list \<Rightarrow> nat \<Rightarrow> int" where
  "sqlite3_strnicmp z w 0 = 0"
| "sqlite3_strnicmp z w (Suc n) =
     (if zat z 0 \<noteq> 0 \<and> UpperToLower (zat z 0) = UpperToLower (zat w 0) then sqlite3_strnicmp (tl z) (tl w) n
      else uint (UpperToLower (zat z 0)) - uint (UpperToLower (zat w 0)))"

text \<open>
  \<open>sqlite3Dequote\<close> in place: \<open>i\<close> is the next index to read and \<open>j\<close> the next to write. The loop
  ends at the closing quote; the end of the block stands for the violated assertion.
\<close>

function dequote_loop :: "u8 \<Rightarrow> nat \<Rightarrow> nat \<Rightarrow> u8 list \<Rightarrow> nat \<times> u8 list" where
  "dequote_loop quote i j z =
     (if length z \<le> i then (j, z)
      else if z ! i = quote then
        if zat z (i + 1) = quote then dequote_loop quote (i + 2) (j + 1) (z[j := quote])
        else (j, z)
      else dequote_loop quote (i + 1) (j + 1) (z[j := z ! i]))"
  by pat_completeness auto
termination
  by (relation "measure (\<lambda>(quote, i, j, z). length z - i)") auto

declare dequote_loop.simps [simp del]

definition quote_of :: "u8 \<Rightarrow> u8 option" where
  "quote_of q =
     (if q = 0x27 then Some q else if q = 0x22 then Some q else if q = 0x60 then Some q
      else if q = 0x5b then Some 0x5d else None)"

definition sqlite3Dequote :: "u8 list option \<Rightarrow> int \<times> u8 list option" where
  "sqlite3Dequote z =
     (case z of
        None \<Rightarrow> (-1, None)
      | Some z \<Rightarrow>
          (case quote_of (zat z 0) of
             None \<Rightarrow> (-1, Some z)
           | Some quote \<Rightarrow> let (j, z) = dequote_loop quote 1 0 z in (int j, Some (z[j := 0]))))"

definition sqlite3HexToInt :: "int \<Rightarrow> u8" where
  "sqlite3HexToInt h = (let h = h + 9 * (1 AND drop_bit 6 h) in of_int (h AND 0xf))"

text \<open>The loop of \<open>sqlite3HexToBlob\<close>: pairs of digits while \<open>i < n\<close>.\<close>

function hex_loop :: "u8 list \<Rightarrow> int \<Rightarrow> nat \<Rightarrow> u8 list" where
  "hex_loop z n i =
     (if int i < n then
        (push_bit 4 (sqlite3HexToInt (uint (zat z i))) OR sqlite3HexToInt (uint (zat z (i + 1)))) # hex_loop z n (i + 2)
      else [])"
  by pat_completeness auto
termination
  by (relation "measure (\<lambda>(z, n, i). nat (n - int i))") auto

declare hex_loop.simps [simp del]

definition sqlite3HexToBlob :: "bool \<Rightarrow> u8 list \<Rightarrow> int \<Rightarrow> u8 list option" where
  "sqlite3HexToBlob mallocOk z n = (let n = n - 1 in if mallocOk then Some (hex_loop z n 0 @ [0]) else None)"

section \<open>Lemmas: the tables\<close>

lemma byte_range: "0 \<le> uint (c :: u8) \<and> uint c \<le> 255"
  using uint_bounded [of c] by simp

lemma byte_cases:
  assumes "list_all P (map word_of_int [0..255])"
  shows "P (c :: u8)"
proof -
  have "c \<in> set (map word_of_int [0..255])"
    using byte_range [of c] by (auto intro!: image_eqI [of _ _ "uint c"])
  with assms show ?thesis by (simp only: list_all_iff)
qed

lemma table_cases:
  assumes "length tab = 256" "list_all (\<lambda>(n, m). Q (word_of_int n) m) (zip [0..255] tab)"
  shows "Q (c :: u8) (tab ! unat c)"
proof -
  have u: "unat c < 256" using unat_less_exp [of c] by simp
  have l: "length [0..(255::int)] = 256" by (simp only: length_upto)
  have "[0..255] ! unat c = 0 + int (unat c)" by (rule nth_upto) (use byte_range [of c] in simp)
  moreover have "0 + int (unat c) = uint c" by simp
  ultimately have "zip [0..255] tab ! unat c = (uint c, tab ! unat c)"
    using nth_zip [of "unat c" "[0..255]" tab] u assms(1) l by metis
  moreover have "unat c < length (zip [0..255] tab)" using u assms(1) l by (metis length_zip min.idem)
  ultimately have "(uint c, tab ! unat c) \<in> set (zip [0..255] tab)" by (metis nth_mem)
  with assms(2) show ?thesis by (auto simp: list_all_iff)
qed

lemma UpperToLower_eq: "UpperToLower c = (if 65 \<le> c \<and> c \<le> 90 then c + 32 else c)"
  unfolding UpperToLower_def
  by (rule table_cases [of sqlite3UpperToLower "\<lambda>c m. m = (if 65 \<le> c \<and> c \<le> 90 then c + 32 else c)"])
    (simp add: sqlite3UpperToLower_def, code_simp)

lemma UpperToLower_0 [simp]: "UpperToLower c = 0 \<longleftrightarrow> c = 0"
  unfolding UpperToLower_eq by (rule byte_cases) code_simp

lemma UpperToLower_zero [simp]: "UpperToLower 0 = 0"
  by simp

lemma length_ctype: "length sqlite3CtypeMap = 256"
  by (simp add: sqlite3CtypeMap_def)

lemmas ctype_cases = table_cases [of sqlite3CtypeMap, OF length_ctype]

lemma class_ranges:
  "sqlite3Isspace c \<longleftrightarrow> 9 \<le> c \<and> c \<le> 13 \<or> c = 32"
  "sqlite3Isdigit c \<longleftrightarrow> 48 \<le> c \<and> c \<le> 57"
  "sqlite3Isalpha c \<longleftrightarrow> 65 \<le> c \<and> c \<le> 90 \<or> 97 \<le> c \<and> c \<le> 122"
  "sqlite3Isalnum c \<longleftrightarrow> 65 \<le> c \<and> c \<le> 90 \<or> 97 \<le> c \<and> c \<le> 122 \<or> 48 \<le> c \<and> c \<le> 57"
  "sqlite3Isxdigit c \<longleftrightarrow> 48 \<le> c \<and> c \<le> 57 \<or> 65 \<le> c \<and> c \<le> 70 \<or> 97 \<le> c \<and> c \<le> 102"
  "IdChar c \<longleftrightarrow> 65 \<le> c \<and> c \<le> 90 \<or> 97 \<le> c \<and> c \<le> 122 \<or> 48 \<le> c \<and> c \<le> 57 \<or> c = 0x24 \<or> c = 0x5f \<or> 128 \<le> c"
  "sqlite3Toupper c = (if 97 \<le> c \<and> c \<le> 122 then c - 32 else c)"
proof -
  show "sqlite3Isspace c \<longleftrightarrow> 9 \<le> c \<and> c \<le> 13 \<or> c = 32"
    unfolding sqlite3Isspace_def
    by (rule ctype_cases [of "\<lambda>c m. m AND 0x01 \<noteq> 0 \<longleftrightarrow> 9 \<le> c \<and> c \<le> 13 \<or> c = 32"]) code_simp
  show "sqlite3Isdigit c \<longleftrightarrow> 48 \<le> c \<and> c \<le> 57"
    unfolding sqlite3Isdigit_def
    by (rule ctype_cases [of "\<lambda>c m. m AND 0x04 \<noteq> 0 \<longleftrightarrow> 48 \<le> c \<and> c \<le> 57"]) code_simp
  show "sqlite3Isalpha c \<longleftrightarrow> 65 \<le> c \<and> c \<le> 90 \<or> 97 \<le> c \<and> c \<le> 122"
    unfolding sqlite3Isalpha_def
    by (rule ctype_cases [of "\<lambda>c m. m AND 0x02 \<noteq> 0 \<longleftrightarrow> 65 \<le> c \<and> c \<le> 90 \<or> 97 \<le> c \<and> c \<le> 122"]) code_simp
  show "sqlite3Isalnum c \<longleftrightarrow> 65 \<le> c \<and> c \<le> 90 \<or> 97 \<le> c \<and> c \<le> 122 \<or> 48 \<le> c \<and> c \<le> 57"
    unfolding sqlite3Isalnum_def
    by (rule ctype_cases [of "\<lambda>c m. m AND 0x06 \<noteq> 0 \<longleftrightarrow> 65 \<le> c \<and> c \<le> 90 \<or> 97 \<le> c \<and> c \<le> 122 \<or> 48 \<le> c \<and> c \<le> 57"]) code_simp
  show "sqlite3Isxdigit c \<longleftrightarrow> 48 \<le> c \<and> c \<le> 57 \<or> 65 \<le> c \<and> c \<le> 70 \<or> 97 \<le> c \<and> c \<le> 102"
    unfolding sqlite3Isxdigit_def
    by (rule ctype_cases [of "\<lambda>c m. m AND 0x08 \<noteq> 0 \<longleftrightarrow> 48 \<le> c \<and> c \<le> 57 \<or> 65 \<le> c \<and> c \<le> 70 \<or> 97 \<le> c \<and> c \<le> 102"]) code_simp
  show "IdChar c \<longleftrightarrow> 65 \<le> c \<and> c \<le> 90 \<or> 97 \<le> c \<and> c \<le> 122 \<or> 48 \<le> c \<and> c \<le> 57 \<or> c = 0x24 \<or> c = 0x5f \<or> 128 \<le> c"
    unfolding IdChar_def
    by (rule ctype_cases [of "\<lambda>c m. m AND 0x46 \<noteq> 0 \<longleftrightarrow> 65 \<le> c \<and> c \<le> 90 \<or> 97 \<le> c \<and> c \<le> 122 \<or> 48 \<le> c \<and> c \<le> 57 \<or> c = 0x24 \<or> c = 0x5f \<or> 128 \<le> c"]) code_simp
  show "sqlite3Toupper c = (if 97 \<le> c \<and> c \<le> 122 then c - 32 else c)"
    unfolding sqlite3Toupper_def
    by (rule ctype_cases [of "\<lambda>c m. c AND NOT (m AND 0x20) = (if 97 \<le> c \<and> c \<le> 122 then c - 32 else c)"]) code_simp
qed

section \<open>Lemmas: comparison\<close>

lemma zat_Nil [simp]: "zat [] i = 0"
  by (simp add: zat_def)

lemma zat_Cons [simp]: "zat (c # z) 0 = c" "zat (c # z) (Suc i) = zat z i"
  by (simp_all add: zat_def)

lemma cstr_simps [simp]: "cstr [] = []" "cstr (c # z) = (if c \<noteq> 0 then c # cstr z else [])"
  by (simp_all add: cstr_def)

lemma strlen_loop_cstr: "strlen_loop z n = n + length (cstr z)"
  by (induction z n rule: strlen_loop.induct) auto

text \<open>The string with upper case letters replaced, which is what the comparisons look at.\<close>

definition folded :: "u8 list \<Rightarrow> u8 list" where
  "folded z = map UpperToLower (cstr z)"

lemma folded_simps [simp]: "folded [] = []" "folded (c # z) = (if c \<noteq> 0 then UpperToLower c # folded z else [])"
  by (simp_all add: folded_def)

lemma folded_Nil: "folded w = [] \<longleftrightarrow> zat w 0 = 0"
  by (cases w) (auto simp: folded_def)

lemma uint_UpperToLower_0 [simp]: "uint (UpperToLower c) = 0 \<longleftrightarrow> c = 0"
  using UpperToLower_0 [of c] by (simp add: word_uint_eq_iff del: UpperToLower_0)

lemma stricmp_0: "sqlite3_stricmp z w = 0 \<longleftrightarrow> folded z = folded w"
proof (induction z w rule: sqlite3_stricmp.induct)
  case (1 w)
  then show ?case by (cases w) auto
next
  case (2 a z w)
  then show ?case by (cases w) (auto simp: word_uint_eq_iff [symmetric])
qed

abbreviation lex_less :: "u8 list \<Rightarrow> u8 list \<Rightarrow> bool" where
  "lex_less x y \<equiv> (x, y) \<in> lexord {(a, b). a < b}"

lemma stricmp_less: "sqlite3_stricmp z w < 0 \<longleftrightarrow> lex_less (folded z) (folded w)"
proof (induction z w rule: sqlite3_stricmp.induct)
  case (1 w)
  have "0 < UpperToLower c" if "c \<noteq> 0" for c using that UpperToLower_0 [of c] word_gt_0 by metis
  then show ?case by (cases w) (auto simp: word_less_def)
next
  case (2 a z w)
  have "0 < UpperToLower c" if "c \<noteq> 0" for c using that UpperToLower_0 [of c] word_gt_0 by metis
  then show ?case using 2 by (cases w) (auto simp: word_less_def)
qed

lemma strnicmp_take: "sqlite3_strnicmp z w n = sqlite3_stricmp (take n (cstr z)) (take n (cstr w))"
proof (induction z w n rule: sqlite3_strnicmp.induct)
  case (2 z w n)
  then show ?case by (cases z; cases w) auto
qed simp

section \<open>Lemmas: quotes\<close>

definition doubled :: "u8 \<Rightarrow> u8 list \<Rightarrow> u8 list" where
  "doubled q s = concat (map (\<lambda>c. if c = q then [q, q] else [c]) s)"

lemma doubled_simps [simp]:
  "doubled q [] = []" "doubled q (c # s) = (if c = q then q # q # doubled q s else c # doubled q s)"
  by (simp_all add: doubled_def)

lemma drop_Cons_nth: "drop i z = c # r \<Longrightarrow> i < length z \<and> z ! i = c \<and> drop (Suc i) z = r"
  by (metis Cons_nth_drop_Suc drop_all list.distinct(1) list.inject not_le_imp_less)

lemma dequote_loop_doubled:
  assumes "drop i z = doubled q s @ q # r" "zat r 0 \<noteq> q" "j < i"
  shows "\<exists>z'. dequote_loop q i j z = (j + length s, z') \<and> length z' = length z \<and> take (j + length s) z' = take j z @ s"
  using assms
proof (induction s arbitrary: i j z)
  case Nil
  then have "i < length z" "z ! i = q" "drop (Suc i) z = r" using drop_Cons_nth [of i z q r] by auto
  moreover from this have "zat z (i + 1) = zat r 0" by (auto simp: zat_def)
  ultimately show ?case using Nil.prems(2) by (simp add: dequote_loop.simps [of q i])
next
  case (Cons c s)
  have put: "take (j + 1) (z[j := c]) = take j z @ [c]" if "j < length z"
    using that by (simp add: take_Suc_conv_app_nth)
  show ?case
  proof (cases "c = q")
    case True
    from Cons.prems True have d: "drop i z = q # q # doubled q s @ q # r" by simp
    note d1 = drop_Cons_nth [OF d] and d2 = drop_Cons_nth [of "Suc i" z, OF conjunct2 [OF conjunct2 [OF drop_Cons_nth [OF d]]]]
    have "dequote_loop q i j z = dequote_loop q (i + 2) (j + 1) (z[j := q])"
      using d1 d2 by (subst dequote_loop.simps) (simp add: zat_def)
    moreover have "drop (i + 2) (z[j := q]) = doubled q s @ q # r"
      using d2 Cons.prems(3) by simp
    ultimately show ?thesis
      using Cons.IH [of "i + 2" "z[j := q]" "j + 1"] Cons.prems(2,3) put d1 True by auto
  next
    case False
    from Cons.prems False have d: "drop i z = c # doubled q s @ q # r" by simp
    note d1 = drop_Cons_nth [OF d]
    have "dequote_loop q i j z = dequote_loop q (i + 1) (j + 1) (z[j := c])"
      using d1 False by (subst dequote_loop.simps) simp
    moreover have "drop (i + 1) (z[j := c]) = doubled q s @ q # r"
      using d1 Cons.prems(3) by simp
    ultimately show ?thesis
      using Cons.IH [of "i + 1" "z[j := c]" "j + 1"] Cons.prems(2,3) put d1 by auto
  qed
qed

section \<open>Lemmas: hexadecimal digits\<close>

definition hex_value :: "u8 \<Rightarrow> u8" where
  "hex_value c = (if 48 \<le> c \<and> c \<le> 57 then c - 48 else if 65 \<le> c \<and> c \<le> 70 then c - 55 else c - 87)"

lemma sqlite3HexToInt_value: "sqlite3Isxdigit c \<Longrightarrow> sqlite3HexToInt (uint c) = hex_value c"
  by (rule byte_cases [of "\<lambda>c. sqlite3Isxdigit c \<longrightarrow> sqlite3HexToInt (uint c) = hex_value c", rule_format]) code_simp

text \<open>The upper case digit of a nibble, and the text of a byte string.\<close>

definition hex_digit :: "u8 \<Rightarrow> u8" where
  "hex_digit v = (if v < 10 then v + 48 else v + 55)"

definition hex_text :: "u8 list \<Rightarrow> u8 list" where
  "hex_text bs = concat (map (\<lambda>b. [hex_digit (drop_bit 4 b), hex_digit (b AND 0xf)]) bs)"

lemma hex_text_simps [simp]:
  "hex_text [] = []" "hex_text (b # bs) = hex_digit (drop_bit 4 b) # hex_digit (b AND 0xf) # hex_text bs"
  by (simp_all add: hex_text_def)

lemma hex_pair: "push_bit 4 (sqlite3HexToInt (uint (hex_digit (drop_bit 4 b)))) OR sqlite3HexToInt (uint (hex_digit (b AND 0xf))) = b"
  by (rule byte_cases) code_simp

lemma length_hex_text [simp]: "length (hex_text bs) = 2 * length bs"
  by (induction bs) auto

lemma hex_loop_text:
  assumes "drop i z = hex_text bs @ r" "n = int i + 2 * int (length bs)" "i \<le> length z"
  shows "hex_loop z n i = bs"
  using assms
proof (induction bs arbitrary: i)
  case Nil
  then show ?case by (subst hex_loop.simps) simp
next
  case (Cons b bs)
  from Cons.prems(1) have d: "drop i z = hex_digit (drop_bit 4 b) # hex_digit (b AND 0xf) # hex_text bs @ r" by simp
  note d1 = drop_Cons_nth [OF d] and d2 = drop_Cons_nth [of "Suc i" z, OF conjunct2 [OF conjunct2 [OF drop_Cons_nth [OF d]]]]
  have "hex_loop z n (i + 2) = bs" by (rule Cons.IH) (use Cons.prems d2 in auto)
  moreover have "int i < n" using Cons.prems(2) by simp
  moreover have "zat z i = hex_digit (drop_bit 4 b)" "zat z (i + 1) = hex_digit (b AND 0xf)"
    using d1 d2 by (auto simp: zat_def)
  ultimately show ?case by (subst hex_loop.simps) (simp add: hex_pair)
qed

section \<open>Properties\<close>

text \<open>\<open>sqlite3_stricmp\<close> compares two strings up to their terminators after replacing upper case letters: it
  is zero exactly for equal results, negative exactly when the first comes before the second in the
  order of bytes; \<open>sqlite3_strnicmp\<close> does the same on the first \<open>n\<close> bytes.\<close>

theorem stricmp_compares_folded:
  "(sqlite3_stricmp z w = 0 \<longleftrightarrow> folded z = folded w) \<and>
   (sqlite3_stricmp z w < 0 \<longleftrightarrow> lex_less (folded z) (folded w)) \<and>
   sqlite3_strnicmp z w n = sqlite3_stricmp (take n (cstr z)) (take n (cstr w))"
  by (simp add: stricmp_0 stricmp_less strnicmp_take)

text \<open>\<open>sqlite3Dequote\<close> undoes quoting: of a string between one of the four kinds of quotes, with the
  closing quote doubled inside, it leaves the string itself and a terminator in place and returns its length. A string
  that does not begin with a quote is left alone.\<close>

theorem dequote_roundtrip:
  assumes "quote_of a = Some q" "zat r 0 \<noteq> q"
  shows "\<exists>z'. sqlite3Dequote (Some (a # doubled q s @ q # r)) = (int (length s), Some z') \<and>
      take (length s) z' = s \<and> z' ! length s = 0 \<and> length z' = length s + length (filter ((=) q) s) + length r + 2"
proof -
  let ?z = "a # doubled q s @ q # r"
  obtain z' where z': "dequote_loop q 1 0 ?z = (length s, z')" "length z' = length ?z" "take (length s) z' = s"
    using dequote_loop_doubled [of 1 ?z q s r 0] assms(2) by auto
  have d: "length (doubled q s) = length s + length (filter ((=) q) s)"
    by (induction s) auto
  have "sqlite3Dequote (Some ?z) = (int (length s), Some (z'[length s := 0]))"
    using assms(1) z'(1) by (simp add: sqlite3Dequote_def)
  then show ?thesis using z'(2,3) d by auto
qed

text \<open>Decoding the hexadecimal text of a byte string, followed by the closing quote the tokenizer counts in, gives the
  bytes and a terminator.\<close>

theorem hex_blob_roundtrip:
  "sqlite3HexToBlob True (hex_text bs @ r) (2 * int (length bs) + 1) = Some (bs @ [0])"
  using hex_loop_text [of 0 "hex_text bs @ r" bs r "2 * int (length bs)"] by (simp add: sqlite3HexToBlob_def)

theorem dequote_roundtrip_witness:
  "\<exists>z'. sqlite3Dequote (Some (0x27 # doubled 0x27 [0x61, 0x27, 0x62] @ [0x27])) = (3, Some z') \<and>
     take 3 z' = [0x61, 0x27, 0x62]"
  using dequote_roundtrip [of "0x27" "0x27" "[]" "[0x61, 0x27, 0x62]"] by (auto simp: quote_of_def numeral_3_eq_3)

end
