(* ===== verification/Int64.thy ===== *)
theory Int64
  imports Ctype
begin

text \<open>
  Integer arithmetic and integer literals of \<^verbatim>\<open>util.c\<close>: addition, subtraction and multiplication with a
  test for overflow, the parsers of decimal and hexadecimal literals, and the logarithmic
  estimates of the query planner. A 64-bit signed integer is a \<open>64 word\<close> read by \<open>sint\<close>; every
  operation of the code wraps. Characters of UTF-16 text are represented by their
  low bytes once the high bytes have been seen to be zero, as the code does.
\<close>

section \<open>Arithmetic with overflow\<close>

abbreviation (input) LARGEST_INT64 :: i64 where "LARGEST_INT64 \<equiv> 0x7fffffffffffffff"
abbreviation (input) SMALLEST_INT64 :: i64 where "SMALLEST_INT64 \<equiv> 0x8000000000000000"
abbreviation (input) TWOPOWER32 :: int where "TWOPOWER32 \<equiv> 0x100000000"
abbreviation (input) TWOPOWER31 :: int where "TWOPOWER31 \<equiv> 0x80000000"

text \<open>The result code and the new value of \<open>*pA\<close>.\<close>

definition sqlite3AddInt64 :: "i64 \<Rightarrow> i64 \<Rightarrow> int \<times> i64" where
  "sqlite3AddInt64 iA iB =
     (if 0 \<le> sint iB then
        if 0 < sint iA \<and> sint (LARGEST_INT64 - iA) < sint iB then (1, iA) else (0, iA + iB)
      else
        if sint iA < 0 \<and> sint (- (iA + LARGEST_INT64)) > sint (iB + 1) then (1, iA) else (0, iA + iB))"

definition sqlite3SubInt64 :: "i64 \<Rightarrow> i64 \<Rightarrow> int \<times> i64" where
  "sqlite3SubInt64 iA iB =
     (if iB = SMALLEST_INT64 then
        if 0 \<le> sint iA then (1, iA) else (0, iA - iB)
      else sqlite3AddInt64 iA (- iB))"

definition sqlite3MulInt64 :: "i64 \<Rightarrow> i64 \<Rightarrow> int \<times> i64" where
  "sqlite3MulInt64 iA iB =
     (let iA1 = sint iA sdiv TWOPOWER32; iA0 = sint iA smod TWOPOWER32;
          iB1 = sint iB sdiv TWOPOWER32; iB0 = sint iB smod TWOPOWER32
      in if iA1 = 0 \<and> iB1 = 0 then (0, iA * iB)
         else if iA1 \<noteq> 0 \<and> iB1 \<noteq> 0 then (1, iA)
         else
           let r = (of_int (if iA1 = 0 then iA0 * iB1 else iA1 * iB0) :: i64)
           in if sint r < - TWOPOWER31 \<or> TWOPOWER31 \<le> sint r then (1, iA)
              else
                let (rc, r) = sqlite3AddInt64 (r * of_int TWOPOWER32) (of_int (iA0 * iB0))
                in if rc \<noteq> 0 then (1, iA) else (0, r))"

definition sqlite3AbsInt32 :: "32 word \<Rightarrow> 32 word" where
  "sqlite3AbsInt32 x = (if 0 \<le> sint x then x else if x = 0x80000000 then 0x7fffffff else - x)"

section \<open>Decimal literals\<close>

datatype encoding = SQLITE_UTF8 | SQLITE_UTF16LE | SQLITE_UTF16BE

text \<open>
  The characters the parser looks at, from the bytes of the text and the byte behind it in memory, and
  \<open>nonNum\<close>. In UTF-16 the text ends before the first character whose high byte is not zero. An odd
  byte at the end is ignored when the low byte comes first; when it is a high byte of zero, the code
  sets \<open>zEnd\<close> one past the text and the byte there is taken for the low byte.
\<close>

fun utf16_chars :: "bool \<Rightarrow> u8 list \<Rightarrow> u8 \<Rightarrow> u8 list \<times> bool" where
  "utf16_chars big (a # b # z) behind =
     (let (hi, lo) = (if big then (a, b) else (b, a))
      in if hi = 0 then let (cs, nonNum) = utf16_chars big z behind in (lo # cs, nonNum) else ([], True))"
| "utf16_chars big [a] behind = (if \<not> big then ([], False) else if a = 0 then ([behind], False) else ([], True))"
| "utf16_chars big [] behind = ([], False)"

definition text_chars :: "u8 list \<Rightarrow> u8 \<Rightarrow> encoding \<Rightarrow> u8 list \<times> bool" where
  "text_chars z behind enc =
     (case enc of
        SQLITE_UTF8 \<Rightarrow> (z, False)
      | SQLITE_UTF16LE \<Rightarrow> utf16_chars False z behind
      | SQLITE_UTF16BE \<Rightarrow> utf16_chars True z behind)"

definition pow63 :: "u8 list" where
  "pow63 = [0x39, 0x32, 0x32, 0x33, 0x33, 0x37, 0x32, 0x30, 0x33, 0x36, 0x38, 0x35, 0x34, 0x37, 0x37, 0x35, 0x38, 0x30]"

fun compare_loop :: "u8 list \<Rightarrow> u8 list \<Rightarrow> int" where
  "compare_loop (c # zNum) (p # pow) =
     (let d = (uint c - uint p) * 10 in if d = 0 then compare_loop zNum pow else d)"
| "compare_loop _ _ = 0"

definition compare2pow63 :: "u8 list \<Rightarrow> int" where
  "compare2pow63 zNum =
     (let c = compare_loop zNum pow63 in if c = 0 then uint (zNum ! 18) - 0x38 else c)"

definition skip_spaces :: "u8 list \<Rightarrow> u8 list" where
  "skip_spaces z = dropWhile sqlite3Isspace z"

text \<open>The sign: whether it is a minus, and the characters behind it.\<close>

definition get_sign :: "u8 list \<Rightarrow> bool \<times> u8 list" where
  "get_sign z =
     (case z of
        [] \<Rightarrow> (False, [])
      | c # r \<Rightarrow> if c = 0x2d then (True, r) else if c = 0x2b then (False, r) else (False, z))"

text \<open>The digit loop: the value, the number of digits and the rest.\<close>

fun digits_loop :: "u8 list \<Rightarrow> u64 \<Rightarrow> nat \<Rightarrow> u64 \<times> nat \<times> u8 list" where
  "digits_loop [] u i = (u, i, [])"
| "digits_loop (c # z) u i =
     (if 0x30 \<le> c \<and> c \<le> 0x39 then digits_loop z (u * 10 + ucast c - 0x30) (i + 1) else (u, i, c # z))"

definition sqlite3Atoi64 :: "u8 list \<Rightarrow> u8 \<Rightarrow> encoding \<Rightarrow> int \<times> i64" where
  "sqlite3Atoi64 z behind enc =
     (let (z, nonNum) = text_chars z behind enc;
          z = skip_spaces z;
          (neg, zStart) = get_sign z;
          zNum = dropWhile (\<lambda>c. c = 0x30) zStart;
          (u, i, rest) = digits_loop zNum 0 0;
          pNum = (if LARGEST_INT64 < u then (if neg then SMALLEST_INT64 else LARGEST_INT64)
                  else if neg then - u else u)
      in if (rest \<noteq> [] \<and> hd rest \<noteq> 0) \<or> (i = 0 \<and> length zStart = length zNum) \<or> 19 < i \<or> nonNum then (1, pNum)
         else if i < 19 then (0, pNum)
         else let c = compare2pow63 zNum
              in (if c < 0 then 0 else if 0 < c then 1 else if neg then 0 else 2, pNum))"

section \<open>Hexadecimal literals and 32-bit integers\<close>

fun hex_digits :: "u8 list \<Rightarrow> u64 \<Rightarrow> nat \<Rightarrow> u64 \<times> nat \<times> u8 list" where
  "hex_digits [] u k = (u, k, [])"
| "hex_digits (c # z) u k =
     (if sqlite3Isxdigit c then hex_digits z (u * 16 + ucast (sqlite3HexToInt (uint c))) (k + 1) else (u, k, c # z))"

definition is_hex :: "u8 list \<Rightarrow> bool" where
  "is_hex z \<longleftrightarrow> zat z 0 = 0x30 \<and> (zat z 1 = 0x78 \<or> zat z 1 = 0x58) \<and> sqlite3Isxdigit (zat z 2)"

definition sqlite3DecOrHexToI64 :: "u8 list \<Rightarrow> int \<times> i64" where
  "sqlite3DecOrHexToI64 z =
     (if is_hex z then
        let (u, k, rest) = hex_digits (dropWhile (\<lambda>c. c = 0x30) (drop 2 z)) 0 0
        in (if zat rest 0 = 0 \<and> k \<le> 16 then 0 else 1, u)
      else sqlite3Atoi64 (take (nat (sqlite3Strlen30 (Some z))) z) 0 SQLITE_UTF8)"

text \<open>At most eight digits of a 32-bit hexadecimal literal.\<close>

fun hex8_digits :: "nat \<Rightarrow> u8 list \<Rightarrow> u32 \<Rightarrow> u32 \<times> u8 list" where
  "hex8_digits 0 z u = (u, z)"
| "hex8_digits (Suc k) z u =
     (if sqlite3Isxdigit (zat z 0) then hex8_digits k (tl z) (u * 16 + ucast (sqlite3HexToInt (uint (zat z 0)))) else (u, z))"

text \<open>At most \<open>k\<close> decimal digits: the value and their number.\<close>

fun dec_digits :: "nat \<Rightarrow> u8 list \<Rightarrow> int \<Rightarrow> nat \<Rightarrow> int \<times> nat" where
  "dec_digits 0 z v i = (v, i)"
| "dec_digits (Suc k) z v i =
     (let c = uint (zat z 0) - 0x30 in if 0 \<le> c \<and> c \<le> 9 then dec_digits k (tl z) (v * 10 + c) (i + 1) else (v, i))"

definition sqlite3GetInt32 :: "u8 list \<Rightarrow> int option" where
  "sqlite3GetInt32 zNum =
     (if zat zNum 0 \<noteq> 0x2d \<and> zat zNum 0 \<noteq> 0x2b \<and> is_hex zNum then
        let (u, rest) = hex8_digits 8 (dropWhile (\<lambda>c. c = 0x30) (drop 2 zNum)) 0
        in if u AND 0x80000000 = 0 \<and> \<not> sqlite3Isxdigit (zat rest 0) then Some (sint u) else None
      else
        let neg = (if zat zNum 0 = 0x2d then 1 else 0);
            z = (if zat zNum 0 = 0x2d \<or> zat zNum 0 = 0x2b then tl zNum else zNum);
            (v, i) = dec_digits 11 z 0 0
        in if 10 < i then None
           else if 2147483647 < v - neg then None
           else Some (if neg = 1 then - v else v))"

definition sqlite3Atoi :: "u8 list option \<Rightarrow> int" where
  "sqlite3Atoi z = (case z of None \<Rightarrow> 0 | Some z \<Rightarrow> (case sqlite3GetInt32 z of Some x \<Rightarrow> x | None \<Rightarrow> 0))"

section \<open>Logarithmic estimates\<close>

text \<open>A \<open>LogEst\<close> is a 16-bit signed integer.\<close>

definition logest :: "int \<Rightarrow> int" where
  "logest i = signed_take_bit 15 i"

definition sqlite3LogEstAdd :: "int \<Rightarrow> int \<Rightarrow> int" where
  "sqlite3LogEstAdd a b =
     (let x = [10, 10, 9, 9, 8, 8, 7, 7, 7, 6, 6, 6, 5, 5, 5, 4, 4, 4, 4, 3, 3, 3, 3, 3, 3, 2, 2, 2, 2, 2, 2, 2]
      in if b \<le> a then
           if b + 49 < a then a else if b + 31 < a then logest (a + 1) else logest (a + x ! nat (a - b))
         else
           if a + 49 < b then b else if a + 31 < b then logest (b + 1) else logest (b + x ! nat (b - a)))"

text \<open>The three loops of \<open>sqlite3LogEst\<close>; each shift changes \<open>x\<close> by a factor.\<close>

lemma unat_double_small: "x < 8 \<Longrightarrow> unat (x * 2 :: u64) = unat x * 2"
  by (simp add: unat_word_ariths word_less_nat_alt)

lemma unat_shift_less: "0 < k \<Longrightarrow> 0 < (x :: u64) \<Longrightarrow> unat (drop_bit k x) < unat x"
  by (simp only: unat_drop_bit_eq word_less_nat_alt)
    (use div_less_dividend [of "2 ^ k" "unat x"] one_less_power [of "2 :: nat" k] in \<open>simp add: drop_bit_eq_div\<close>)

function logest_up :: "u64 \<Rightarrow> int \<Rightarrow> u64 \<times> int" where
  "logest_up x y = (if 0 < x \<and> x < 8 then logest_up (push_bit 1 x) (y - 10) else (x, y))"
  by pat_completeness auto
termination
  by (relation "measure (\<lambda>(x, y). 8 - unat x)") (auto simp: unat_double_small, auto simp: word_less_nat_alt)

function logest_down4 :: "u64 \<Rightarrow> int \<Rightarrow> u64 \<times> int" where
  "logest_down4 x y = (if 255 < x then logest_down4 (drop_bit 4 x) (y + 40) else (x, y))"
  by pat_completeness auto
termination
  by (relation "measure (\<lambda>(x, y). unat x)") (auto intro!: unat_shift_less simp: word_less_nat_alt)

function logest_down1 :: "u64 \<Rightarrow> int \<Rightarrow> u64 \<times> int" where
  "logest_down1 x y = (if 15 < x then logest_down1 (drop_bit 1 x) (y + 10) else (x, y))"
  by pat_completeness auto
termination
  by (relation "measure (\<lambda>(x, y). unat x)") (auto intro!: unat_shift_less simp: word_less_nat_alt)

declare logest_up.simps [simp del] logest_down4.simps [simp del] logest_down1.simps [simp del]

definition sqlite3LogEst :: "u64 \<Rightarrow> int" where
  "sqlite3LogEst x =
     (if x < 2 then 0
      else
        let (x, y) = (if x < 8 then logest_up x 40 else case logest_down4 x 40 of (x, y) \<Rightarrow> logest_down1 x y)
        in [0, 2, 3, 5, 6, 7, 8, 9] ! unat (x AND 7) + y - 10)"

definition sqlite3LogEstToInt :: "int \<Rightarrow> u64" where
  "sqlite3LogEstToInt x =
     (if x < 10 then 1
      else
        let n = x mod 10; x = x div 10;
            n = (if 5 \<le> n then n - 2 else if 1 \<le> n then n - 1 else n)
        in if 3 \<le> x then (if 60 < x then LARGEST_INT64 else push_bit (nat (x - 3)) (of_int (n + 8)))
           else drop_bit (nat (3 - x)) (of_int (n + 8)))"

section \<open>Lemmas: signed arithmetic\<close>

abbreviation fits64 :: "int \<Rightarrow> bool" where
  "fits64 i \<equiv> - (2 ^ 63) \<le> i \<and> i < 2 ^ 63"

lemma sint_fits: "fits64 (sint (a :: i64))"
  using sint_greater_eq [of a] sint_less [of a] by simp

lemma sint_of_int_fits: "fits64 i \<Longrightarrow> sint (of_int i :: i64) = i"
  by (simp add: signed_of_int signed_take_bit_int_eq_self)

lemma word_eq_of_sint: "(a :: i64) = of_int (sint a)"
  by simp

lemma sint_plus: "fits64 (sint a + sint b) \<Longrightarrow> sint (a + b :: i64) = sint a + sint b"
  using sint_of_int_fits [of "sint a + sint b"] by simp

lemma sint_minus: "fits64 (sint a - sint b) \<Longrightarrow> sint (a - b :: i64) = sint a - sint b"
  using sint_of_int_fits [of "sint a - sint b"] by simp

lemma sint_mult: "fits64 (sint a * sint b) \<Longrightarrow> sint (a * b :: i64) = sint a * sint b"
  using sint_of_int_fits [of "sint a * sint b"] by simp

lemma sint_neg: "sint a \<noteq> - (2 ^ 63) \<Longrightarrow> sint (- a :: i64) = - sint a"
  using sint_of_int_fits [of "- sint a"] sint_fits [of a] by simp

lemma sint_LARGEST: "sint LARGEST_INT64 = 2 ^ 63 - 1" "sint SMALLEST_INT64 = - (2 ^ 63)"
  by simp_all

lemma AddInt64_cases:
  "sqlite3AddInt64 iA iB = (if fits64 (sint iA + sint iB) then (0, iA + iB) else (1, iA))"
proof (cases "0 \<le> sint iB")
  case True
  have "sint (LARGEST_INT64 - iA) = 2 ^ 63 - 1 - sint iA" if "0 < sint iA"
    using that sint_fits [of iA] sint_minus [of LARGEST_INT64 iA] sint_LARGEST by simp
  then show ?thesis
    using True sint_fits [of iA] sint_fits [of iB] by (auto simp: sqlite3AddInt64_def)
next
  case False
  have "sint (- (iA + LARGEST_INT64)) = - (sint iA + (2 ^ 63 - 1))" if "sint iA < 0"
    using that sint_fits [of iA] sint_plus [of iA LARGEST_INT64] sint_neg [of "iA + LARGEST_INT64"] sint_LARGEST by simp
  moreover have "sint (iB + 1) = sint iB + 1"
    using False sint_fits [of iB] sint_plus [of iB 1] by simp
  ultimately show ?thesis
    using False sint_fits [of iA] sint_fits [of iB] by (auto simp: sqlite3AddInt64_def)
qed

lemma SubInt64_cases:
  "sqlite3SubInt64 iA iB = (if fits64 (sint iA - sint iB) then (0, iA - iB) else (1, iA))"
proof (cases "iB = SMALLEST_INT64")
  case True
  then show ?thesis using sint_fits [of iA] sint_LARGEST by (auto simp: sqlite3SubInt64_def)
next
  case False
  then have "sint iB \<noteq> - (2 ^ 63)" using sint_LARGEST(2) by (metis word_eq_of_sint)
  then show ?thesis using False AddInt64_cases [of iA "- iB"] by (simp add: sqlite3SubInt64_def sint_neg)
qed

text \<open>Truncated division by \<open>2\<^sup>3\<^sup>2\<close> splits a value into halves of its own sign.\<close>

lemma split32:
  fixes x :: int
  defines "h \<equiv> x sdiv TWOPOWER32" and "l \<equiv> x smod TWOPOWER32"
  shows "x = h * TWOPOWER32 + l" "\<bar>l\<bar> < TWOPOWER32" "0 \<le> x \<Longrightarrow> 0 \<le> h \<and> 0 \<le> l" "x \<le> 0 \<Longrightarrow> h \<le> 0 \<and> l \<le> 0"
proof -
  have pos: "y sdiv TWOPOWER32 = y div TWOPOWER32" "y smod TWOPOWER32 = y mod TWOPOWER32" if "0 \<le> y" for y
    using that by (auto simp: sdiv_nonneg signed_modulo_int_def minus_mult_div_eq_mod sgn_if)
  have neg: "y sdiv TWOPOWER32 = - (- y div TWOPOWER32)" "y smod TWOPOWER32 = - (- y mod TWOPOWER32)" if "y \<le> 0" for y
    using that by (auto simp: signed_divide_int_def signed_modulo_int_def sgn_if minus_mult_div_eq_mod [symmetric])
  show "x = h * TWOPOWER32 + l"
  proof (cases "0 \<le> x")
    case False
    define y where "y = - x"
    have "h = - (y div TWOPOWER32)" "l = - (y mod TWOPOWER32)" "x = - y"
      using False neg by (auto simp: h_def l_def y_def)
    then show ?thesis using div_mult_mod_eq [of y TWOPOWER32] by linarith
  qed (simp add: h_def l_def pos)
  show "\<bar>l\<bar> < TWOPOWER32" by (cases "0 \<le> x") (simp_all add: l_def pos neg)
  show "0 \<le> x \<Longrightarrow> 0 \<le> h \<and> 0 \<le> l" by (simp add: h_def l_def pos pos_imp_zdiv_nonneg_iff)
  show "x \<le> 0 \<Longrightarrow> h \<le> 0 \<and> l \<le> 0" by (simp add: h_def l_def neg pos_imp_zdiv_nonneg_iff)
qed

lemma mul_core:
  fixes r lo :: int
  assumes "fits64 r" "fits64 lo" "0 \<le> r \<and> 0 \<le> lo \<or> r \<le> 0 \<and> lo \<le> 0"
  shows "(let r' = (of_int r :: i64)
          in if sint r' < - TWOPOWER31 \<or> TWOPOWER31 \<le> sint r' then (1, iA)
             else let (rc, v) = sqlite3AddInt64 (r' * of_int TWOPOWER32) (of_int lo) in if rc \<noteq> 0 then (1, iA) else (0, v))
       = (if fits64 (r * TWOPOWER32 + lo) then (0, of_int (r * TWOPOWER32 + lo)) else (1 :: int, iA))"
proof (cases "r < - TWOPOWER31 \<or> TWOPOWER31 \<le> r")
  case True
  then have "\<not> fits64 (r * TWOPOWER32 + lo)" using assms(3) by auto
  then show ?thesis using True by (simp add: sint_of_int_fits [OF assms(1)])
next
  case False
  then have f: "fits64 (r * TWOPOWER32)" by auto
  have s: "sint (of_int r * of_int TWOPOWER32 :: i64) = r * TWOPOWER32"
    using sint_of_int_fits [OF f] by simp
  show ?thesis
    using False AddInt64_cases [of "of_int r * of_int TWOPOWER32" "of_int lo"]
    by (simp add: sint_of_int_fits [OF assms(1)] sint_of_int_fits [OF assms(2)] s [simplified] Let_def)
qed

lemma mul_half:
  fixes x y h l :: int
  assumes "\<bar>x\<bar> < TWOPOWER32" "fits64 y" "y = h * TWOPOWER32 + l"
    and "0 \<le> y \<Longrightarrow> 0 \<le> h \<and> 0 \<le> l" "y \<le> 0 \<Longrightarrow> h \<le> 0 \<and> l \<le> 0"
  shows "fits64 (x * h)" "0 \<le> x * h \<and> 0 \<le> x * l \<or> x * h \<le> 0 \<and> x * l \<le> 0"
proof -
  have "\<bar>h\<bar> \<le> TWOPOWER31" using assms(2-5) by (cases "0 \<le> y") auto
  then have "\<bar>x\<bar> * \<bar>h\<bar> \<le> (TWOPOWER32 - 1) * TWOPOWER31" using assms(1) by (intro mult_mono) auto
  then have "\<bar>x * h\<bar> < 2 ^ 63" by (simp add: abs_mult)
  then show "fits64 (x * h)" by auto
  show "0 \<le> x * h \<and> 0 \<le> x * l \<or> x * h \<le> 0 \<and> x * l \<le> 0"
    using assms(4,5) by (cases "0 \<le> y"; cases "0 \<le> x") (auto simp: zero_le_mult_iff mult_le_0_iff)
qed

lemma high_half_large:
  fixes x h l :: int
  assumes "x = h * TWOPOWER32 + l" "h \<noteq> 0" "0 \<le> x \<Longrightarrow> 0 \<le> h \<and> 0 \<le> l" "x \<le> 0 \<Longrightarrow> h \<le> 0 \<and> l \<le> 0"
  shows "TWOPOWER32 \<le> \<bar>x\<bar>"
  using assms by (cases "0 \<le> x") auto

lemma MulInt64_cases:
  assumes "fits64 ((sint iA smod TWOPOWER32) * (sint iB smod TWOPOWER32))"
  shows "sqlite3MulInt64 iA iB = (if fits64 (sint iA * sint iB) then (0, iA * iB) else (1, iA))"
proof -
  define a where "a = sint iA" define b where "b = sint iB"
  define a1 where "a1 = a sdiv TWOPOWER32" define a0 where "a0 = a smod TWOPOWER32"
  define b1 where "b1 = b sdiv TWOPOWER32" define b0 where "b0 = b smod TWOPOWER32"
  note A = split32 [of a, folded a1_def a0_def] and B = split32 [of b, folded b1_def b0_def]
  have lo: "fits64 (a0 * b0)" using assms by (simp add: a0_def b0_def a_def b_def)
  have fit: "fits64 a" "fits64 b" using sint_fits by (simp_all add: a_def b_def)
  have ab: "iA = of_int a" "iB = of_int b" by (simp_all add: a_def b_def)
  have w: "of_int (a * b) = iA * iB" by (simp only: ab of_int_mult)
  have def: "sqlite3MulInt64 iA iB =
     (if a1 = 0 \<and> b1 = 0 then (0, iA * iB)
      else if a1 \<noteq> 0 \<and> b1 \<noteq> 0 then (1, iA)
      else let r = (of_int (if a1 = 0 then a0 * b1 else a1 * b0) :: i64)
           in if sint r < - TWOPOWER31 \<or> TWOPOWER31 \<le> sint r then (1, iA)
              else let (rc, r) = sqlite3AddInt64 (r * of_int TWOPOWER32) (of_int (a0 * b0))
                   in if rc \<noteq> 0 then (1, iA) else (0, r))"
    unfolding sqlite3MulInt64_def a_def [symmetric] b_def [symmetric] a1_def [symmetric] b1_def [symmetric]
      a0_def [symmetric] b0_def [symmetric] by (simp add: Let_def)
  consider "a1 = 0" "b1 = 0" | "a1 \<noteq> 0" "b1 \<noteq> 0" | "a1 = 0" "b1 \<noteq> 0" | "a1 \<noteq> 0" "b1 = 0" by blast
  then show ?thesis
  proof cases
    case 1
    then have "a = a0" "b = b0" using A(1) B(1) by auto
    then show ?thesis using 1 lo by (simp add: def a_def [symmetric] b_def [symmetric])
  next
    case 2
    have "TWOPOWER32 * TWOPOWER32 \<le> \<bar>a\<bar> * \<bar>b\<bar>"
      using high_half_large [OF A(1) 2(1) A(3,4)] high_half_large [OF B(1) 2(2) B(3,4)] by (intro mult_mono) auto
    then have "\<not> fits64 (a * b)" by (auto simp: abs_mult [symmetric])
    then show ?thesis using 2 by (simp add: def a_def [symmetric] b_def [symmetric])
  next
    case 3
    then have e: "a = a0" using A(1) by simp
    have p: "a * b = a0 * b1 * TWOPOWER32 + a0 * b0" by (subst B(1)) (simp add: e algebra_simps)
    note H = mul_half [OF A(2) fit(2) B(1,3,4)]
    show ?thesis
      using mul_core [OF H(1) lo H(2), of iA] 3
      by (simp only: def a_def [symmetric] b_def [symmetric] p [symmetric] w if_True if_False simp_thms)
  next
    case 4
    then have e: "b = b0" using B(1) by simp
    have p: "a * b = a1 * b0 * TWOPOWER32 + a0 * b0" by (subst A(1)) (simp add: e algebra_simps)
    note H = mul_half [OF B(2) fit(1) A(1,3,4)]
    have c: "b0 * a1 = a1 * b0" "b0 * a0 = a0 * b0" by simp_all
    show ?thesis
      using mul_core [OF H(1) [unfolded c] lo H(2) [unfolded c], of iA] 4
      by (simp only: def a_def [symmetric] b_def [symmetric] p [symmetric] w if_True if_False simp_thms)
  qed
qed

section \<open>Lemmas: decimal digits\<close>

abbreviation dec_digit :: "u8 \<Rightarrow> bool" where
  "dec_digit c \<equiv> 0x30 \<le> c \<and> c \<le> 0x39"

definition dec_from :: "int \<Rightarrow> u8 list \<Rightarrow> int" where
  "dec_from v ds = foldl (\<lambda>v c. v * 10 + (uint c - 0x30)) v ds"

definition dec_value :: "u8 list \<Rightarrow> int" where
  "dec_value ds = dec_from 0 ds"

lemma dec_from_simps [simp]: "dec_from v [] = v" "dec_from v (c # ds) = dec_from (v * 10 + (uint c - 0x30)) ds"
  by (simp_all add: dec_from_def)

lemma dec_from_eq: "dec_from v ds = v * 10 ^ length ds + dec_value ds"
proof (induction ds arbitrary: v)
  case (Cons c ds)
  have "dec_value (c # ds) = (uint c - 0x30) * 10 ^ length ds + dec_value ds"
    using Cons [of "uint c - 0x30"] by (simp add: dec_value_def)
  then show ?case using Cons [of "v * 10 + (uint c - 0x30)"] by (simp add: algebra_simps)
qed (simp add: dec_value_def)

lemma dec_value_Cons: "dec_value (c # ds) = (uint c - 0x30) * 10 ^ length ds + dec_value ds"
  using dec_from_eq [of "uint c - 0x30" ds] by (simp add: dec_value_def)


lemma dec_digit_uint: "dec_digit c \<Longrightarrow> 0 \<le> uint c - 0x30 \<and> uint c - 0x30 \<le> 9"
  by (auto simp: word_le_def)

lemma dec_value_bounds: "list_all dec_digit ds \<Longrightarrow> 0 \<le> dec_value ds \<and> dec_value ds < 10 ^ length ds"
proof (induction ds)
  case (Cons c ds)
  then have "0 \<le> (uint c - 0x30) * 10 ^ length ds" "(uint c - 0x30) * 10 ^ length ds \<le> 9 * 10 ^ length ds"
    using dec_digit_uint [of c] by auto
  moreover have "0 \<le> dec_value ds \<and> dec_value ds < 10 ^ length ds" using Cons by simp
  moreover have "(10::int) ^ length (c # ds) = 10 * 10 ^ length ds" by simp
  ultimately show ?case unfolding dec_value_Cons by linarith
qed (simp add: dec_value_def)
















lemma dec_digits_eq:
  "dec_digits k z v i =
     (dec_from v (take k (takeWhile dec_digit z)), i + length (take k (takeWhile dec_digit z)))"
proof (induction k z v i rule: dec_digits.induct)
  case (2 k z v i)
  have d: "0 \<le> uint c - 0x30 \<and> uint c - 0x30 \<le> 9 \<longleftrightarrow> dec_digit c" for c :: u8
    by (auto simp: word_le_def)
  show ?case using 2 by (cases z) (auto simp: d [simplified] simp del: One_nat_def)
qed simp

section \<open>Properties\<close>

text \<open>C26: \<open>sqlite3AddInt64\<close> and \<open>sqlite3SubInt64\<close> detect overflow exactly: they return 0 and the sum or difference when it
  fits 64 bits, and otherwise 1, leaving the operand unchanged.\<close>

theorem AddSubInt64_exact:
  "(case sqlite3AddInt64 iA iB of (rc, r) \<Rightarrow>
      if fits64 (sint iA + sint iB) then rc = 0 \<and> sint r = sint iA + sint iB else rc = 1 \<and> r = iA) \<and>
   (case sqlite3SubInt64 iA iB of (rc, r) \<Rightarrow>
      if fits64 (sint iA - sint iB) then rc = 0 \<and> sint r = sint iA - sint iB else rc = 1 \<and> r = iA)"
  by (auto simp: AddInt64_cases SubInt64_cases sint_plus sint_minus)

text \<open>\<open>sqlite3MulInt64\<close> detects overflow exactly whenever the product of the low halves of the operands fits 64 bits.\<close>

theorem MulInt64_exact:
  assumes "fits64 ((sint iA smod TWOPOWER32) * (sint iB smod TWOPOWER32))"
  shows "case sqlite3MulInt64 iA iB of (rc, r) \<Rightarrow>
    if fits64 (sint iA * sint iB) then rc = 0 \<and> sint r = sint iA * sint iB else rc = 1 \<and> r = iA"
  using MulInt64_cases [OF assms] by (auto simp: sint_mult)

text \<open>Where that product does not fit, the overflow of the multiplication goes unnoticed: the square of 4294967295 is reported as
  a success with a negative result.\<close>

theorem MulInt64_misses_overflow:
  "\<not> fits64 (sint (0xffffffff :: i64) * sint (0xffffffff :: i64)) \<and>
   fst (sqlite3MulInt64 0xffffffff 0xffffffff) = 0 \<and> sint (snd (sqlite3MulInt64 0xffffffff 0xffffffff)) < 0"
  by code_simp


text \<open>That the byte behind a text matters: three bytes of big endian text are the number 1 or 12 by what follows them.\<close>

theorem Atoi64_reads_behind_text:
  "sqlite3Atoi64 [0, 0x31, 0] 0 SQLITE_UTF16BE = (0, 1) \<and> sqlite3Atoi64 [0, 0x31, 0] 0x32 SQLITE_UTF16BE = (0, 12)"
  by code_simp

theorem MulInt64_exact_witness:
  "fst (sqlite3MulInt64 3000000000 3000000000) = 0 \<and> sint (snd (sqlite3MulInt64 3000000000 3000000000)) = 9000000000000000000"
proof -
  have "fits64 ((sint (3000000000 :: i64) smod TWOPOWER32) * (sint (3000000000 :: i64) smod TWOPOWER32))" by code_simp
  from MulInt64_exact [OF this] show ?thesis by (auto split: prod.splits if_splits)
qed

text \<open>
  \<open>sqlite3GetInt32\<close> on decimal text: more than ten digits are refused, even when leading zeros make the value small, and a text
  without digits is the number 0.
\<close>

lemma GetInt32_decimal:
  assumes "\<not> is_hex z"
  defines "r \<equiv> (if zat z 0 = 0x2d \<or> zat z 0 = 0x2b then tl z else z)"
  defines "ds \<equiv> takeWhile dec_digit r"
  defines "v \<equiv> (if zat z 0 = 0x2d then - dec_value ds else dec_value ds)"
  shows "sqlite3GetInt32 z = (if 10 < length ds \<or> v < - (2 ^ 31) \<or> 2 ^ 31 \<le> v then None else Some v)"
proof -
  have "list_all dec_digit ds" unfolding ds_def list_all_iff using set_takeWhileD by fast
  then have b: "0 \<le> dec_value ds" using dec_value_bounds by blast
  have t: "take 11 ds = ds" if "\<not> 10 < length ds" using that by simp
  define neg :: int where "neg = (if zat z 0 = 0x2d then 1 else 0)"
  have g: "sqlite3GetInt32 z =
      (if 10 < length (take 11 ds) then None
       else if 2147483647 < dec_value (take 11 ds) - neg then None
       else Some (if neg = 1 then - dec_value (take 11 ds) else dec_value (take 11 ds)))"
    unfolding sqlite3GetInt32_def Let_def neg_def [symmetric] r_def [symmetric] dec_digits_eq
      ds_def [symmetric] dec_value_def [symmetric] prod.case add_0
    by (simp only: assms(1) simp_thms if_False)
  show ?thesis
  proof (cases "10 < length ds")
    case False
    then show ?thesis using b by (simp add: g t v_def neg_def)
  qed (simp add: g)
qed

end
