(* ===== verification/Hash_Table.thy ===== *)
theory Hash_Table
  imports Ctype "HOL-Library.Monad_Syntax"
begin

text \<open>
  The generic hash table of \<^verbatim>\<open>hash.c\<close>, which holds the schema, the collations and the
  registered modules of a connection by name. All elements are on one doubly-linked list; a bucket points to
  the first of its elements, which are consecutive on the list.

  Elements are addressed by numbers, 0 being NULL, and live in a heap of the elements of one table; an access
  through NULL or to a freed element has the result \<open>None\<close>, so that every statement of the form
  \<open>f x = Some y\<close> includes memory safety and termination of the loops. The outcome of an allocation
  is an argument: for an element its address with the contents found there, for a bucket array the function that gives
  \<^verbatim>\<open>sqlite3MallocSize\<close> of the block for a request (\<open>None\<close> where the allocation fails).
  Pointers have 32 bits, as on the target, and a bucket 8 bytes.
\<close>

section \<open>Elements and tables\<close>

record HashElem =
  hnext :: nat
  hprev :: nat
  hdata :: nat
  hkey :: "u8 list"

record ht_entry =
  ht_count :: u32
  ht_chain :: nat

record Hash =
  htsize :: u32
  hcount :: u32
  first :: nat
  ht :: "ht_entry list option"

type_synonym elems = "nat \<Rightarrow> HashElem option"

section \<open>Operations\<close>

definition sqlite3HashInit :: Hash where
  "sqlite3HashInit = \<lparr>htsize = 0, hcount = 0, first = 0, ht = None\<rparr>"

partial_function (option) clear_loop :: "elems \<Rightarrow> nat \<Rightarrow> elems option" where
  "clear_loop m elem =
     (if elem = 0 then Some m
      else do { e \<leftarrow> m elem; clear_loop (m(elem := None)) (hnext e) })"

definition sqlite3HashClear :: "Hash \<Rightarrow> elems \<Rightarrow> (Hash \<times> elems) option" where
  "sqlite3HashClear pH m = do {
     m \<leftarrow> clear_loop m (first pH);
     Some (pH\<lparr>first := 0, ht := None, htsize := 0, hcount := 0\<rparr>, m) }"

fun strHash_loop :: "u32 \<Rightarrow> u8 list \<Rightarrow> u32" where
  "strHash_loop h [] = h"
| "strHash_loop h (c # z) =
     (if c \<noteq> 0 then strHash_loop (push_bit 3 h XOR h XOR ucast (UpperToLower c)) z else h)"

definition strHash :: "u8 list \<Rightarrow> u32" where
  "strHash z = strHash_loop 0 z"

text \<open>Assignment to a field of the element at an address, and access to \<open>ht[h]\<close>.\<close>

definition upd_elem :: "elems \<Rightarrow> nat \<Rightarrow> (HashElem \<Rightarrow> HashElem) \<Rightarrow> elems option" where
  "upd_elem m p f = (case m p of None \<Rightarrow> None | Some e \<Rightarrow> Some (m(p \<mapsto> f e)))"

definition entry :: "Hash \<Rightarrow> nat \<Rightarrow> ht_entry option" where
  "entry pH h = (case ht pH of None \<Rightarrow> None | Some t \<Rightarrow> if h < length t then Some (t ! h) else None)"

definition set_entry :: "Hash \<Rightarrow> nat \<Rightarrow> ht_entry \<Rightarrow> Hash" where
  "set_entry pH h en = pH\<lparr>ht := map_option (\<lambda>t. t[h := en]) (ht pH)\<rparr>"

definition insertElement :: "Hash \<Rightarrow> elems \<Rightarrow> nat option \<Rightarrow> nat \<Rightarrow> (Hash \<times> elems) option" where
  "insertElement pH m pEntry pNew = do {
     (pH, pHead) \<leftarrow>
       (case pEntry of
          Some h \<Rightarrow> do {
            en \<leftarrow> entry pH h;
            Some (set_entry pH h \<lparr>ht_count = ht_count en + 1, ht_chain = pNew\<rparr>,
                  if ht_count en \<noteq> 0 then ht_chain en else 0) }
        | None \<Rightarrow> Some (pH, 0));
     if pHead \<noteq> 0 then do {
       m \<leftarrow> upd_elem m pNew (\<lambda>e. e\<lparr>hnext := pHead\<rparr>);
       hd \<leftarrow> m pHead;
       m \<leftarrow> upd_elem m pNew (\<lambda>e. e\<lparr>hprev := hprev hd\<rparr>);
       (pH, m) \<leftarrow>
         (if hprev hd \<noteq> 0 then do {
            m \<leftarrow> upd_elem m (hprev hd) (\<lambda>e. e\<lparr>hnext := pNew\<rparr>);
            Some (pH, m) }
          else Some (pH\<lparr>first := pNew\<rparr>, m));
       m \<leftarrow> upd_elem m pHead (\<lambda>e. e\<lparr>hprev := pNew\<rparr>);
       Some (pH, m) }
     else do {
       m \<leftarrow> upd_elem m pNew (\<lambda>e. e\<lparr>hnext := first pH\<rparr>);
       m \<leftarrow> (if first pH \<noteq> 0 then upd_elem m (first pH) (\<lambda>e. e\<lparr>hprev := pNew\<rparr>) else Some m);
       m \<leftarrow> upd_elem m pNew (\<lambda>e. e\<lparr>hprev := 0\<rparr>);
       Some (pH\<lparr>first := pNew\<rparr>, m) } }"

text \<open>The loop of \<open>rehash\<close>; a remainder by zero has no result.\<close>

partial_function (option) rehash_loop :: "u32 \<Rightarrow> Hash \<Rightarrow> elems \<Rightarrow> nat \<Rightarrow> (Hash \<times> elems) option" where
  "rehash_loop new_size pH m elem =
     (if elem = 0 then Some (pH, m)
      else if new_size = 0 then None
      else do {
        e \<leftarrow> m elem;
        pm \<leftarrow> insertElement pH m (Some (unat (strHash (hkey e) mod new_size))) elem;
        rehash_loop new_size (fst pm) (snd pm) (hnext e) })"

definition rehash :: "(u32 \<Rightarrow> u32 option) \<Rightarrow> Hash \<Rightarrow> elems \<Rightarrow> u32 \<Rightarrow> (bool \<times> Hash \<times> elems) option" where
  "rehash table_malloc pH m new_size =
     (let new_size = (if new_size * 8 > 1024 then 1024 div 8 else new_size) in
      if new_size = htsize pH then Some (False, pH, m)
      else
        (case table_malloc (new_size * 8) of
           None \<Rightarrow> Some (False, pH, m)
         | Some bytes \<Rightarrow>
             (let new_size = bytes div 8;
                  elem = first pH;
                  pH = pH\<lparr>ht := Some (replicate (unat new_size) \<lparr>ht_count = 0, ht_chain = 0\<rparr>),
                          htsize := new_size, first := 0\<rparr>
              in do {
                (pH, m) \<leftarrow> rehash_loop new_size pH m elem;
                Some (True, pH, m) })))"

text \<open>\<open>while( count-- )\<close> makes as many steps as the value of the counter read without sign.\<close>

fun find_loop :: "elems \<Rightarrow> u8 list \<Rightarrow> nat \<Rightarrow> nat \<Rightarrow> nat option" where
  "find_loop m pKey elem 0 = Some 0"
| "find_loop m pKey elem (Suc n) =
     (case m elem of
        None \<Rightarrow> None
      | Some e \<Rightarrow> if sqlite3_stricmp (hkey e) pKey = 0 then Some elem else find_loop m pKey (hnext e) n)"

definition findElementWithHash :: "Hash \<Rightarrow> elems \<Rightarrow> u8 list \<Rightarrow> (nat \<times> nat) option" where
  "findElementWithHash pH m pKey = do {
     (h, elem, cnt) \<leftarrow>
       (if ht pH \<noteq> None then
          if htsize pH = 0 then None
          else do {
            let h = unat (strHash pKey mod htsize pH);
            en \<leftarrow> entry pH h;
            Some (h, ht_chain en, ht_count en) }
        else Some (0, first pH, hcount pH));
     elem \<leftarrow> find_loop m pKey elem (unat cnt);
     Some (elem, h) }"

definition removeElementGivenHash :: "Hash \<Rightarrow> elems \<Rightarrow> nat \<Rightarrow> nat \<Rightarrow> (Hash \<times> elems) option" where
  "removeElementGivenHash pH m elem h = do {
     e \<leftarrow> m elem;
     (pH, m) \<leftarrow>
       (if hprev e \<noteq> 0 then do {
          m \<leftarrow> upd_elem m (hprev e) (\<lambda>p. p\<lparr>hnext := hnext e\<rparr>);
          Some (pH, m) }
        else Some (pH\<lparr>first := hnext e\<rparr>, m));
     m \<leftarrow> (if hnext e \<noteq> 0 then upd_elem m (hnext e) (\<lambda>n. n\<lparr>hprev := hprev e\<rparr>) else Some m);
     pH \<leftarrow>
       (if ht pH \<noteq> None then do {
          en \<leftarrow> entry pH h;
          Some (set_entry pH h
            \<lparr>ht_count = ht_count en - 1, ht_chain = (if ht_chain en = elem then hnext e else ht_chain en)\<rparr>) }
        else Some pH);
     let m = m(elem := None);
     let pH = pH\<lparr>hcount := hcount pH - 1\<rparr>;
     if hcount pH = 0 then sqlite3HashClear pH m else Some (pH, m) }"

definition sqlite3HashFind :: "Hash \<Rightarrow> elems \<Rightarrow> u8 list \<Rightarrow> nat option" where
  "sqlite3HashFind pH m pKey = do {
     (elem, h) \<leftarrow> findElementWithHash pH m pKey;
     if elem \<noteq> 0 then map_option hdata (m elem) else Some 0 }"

text \<open>The step of \<open>sqlite3HashInsert\<close> that enlarges the table and computes the hash again.\<close>

definition grow_step ::
  "(u32 \<Rightarrow> u32 option) \<Rightarrow> u8 list \<Rightarrow> nat \<Rightarrow> Hash \<Rightarrow> elems \<Rightarrow> (nat \<times> Hash \<times> elems) option" where
  "grow_step table_malloc pKey h pH m =
     (if hcount pH \<ge> 10 \<and> hcount pH > 2 * htsize pH then do {
        (resized, pH, m) \<leftarrow> rehash table_malloc pH m (hcount pH * 2);
        if resized then
          if htsize pH = 0 then None else Some (unat (strHash pKey mod htsize pH), pH, m)
        else Some (h, pH, m) }
      else Some (h, pH, m))"

definition sqlite3HashInsert ::
  "(nat \<times> HashElem) option \<Rightarrow> (u32 \<Rightarrow> u32 option) \<Rightarrow> Hash \<Rightarrow> elems \<Rightarrow> u8 list \<Rightarrow> nat \<Rightarrow> (nat \<times> Hash \<times> elems) option" where
  "sqlite3HashInsert new table_malloc pH m pKey data = do {
     (elem, h) \<leftarrow> findElementWithHash pH m pKey;
     if elem \<noteq> 0 then do {
       e \<leftarrow> m elem;
       if data = 0 then do {
         (pH, m) \<leftarrow> removeElementGivenHash pH m elem h;
         Some (hdata e, pH, m) }
       else do {
         m \<leftarrow> upd_elem m elem (\<lambda>e. e\<lparr>hdata := data, hkey := pKey\<rparr>);
         Some (hdata e, pH, m) } }
     else if data = 0 then Some (0, pH, m)
     else
       (case new of
          None \<Rightarrow> Some (data, pH, m)
        | Some (new_elem, e) \<Rightarrow> do {
            let m = m(new_elem \<mapsto> e\<lparr>hkey := pKey, hdata := data\<rparr>);
            let pH = pH\<lparr>hcount := hcount pH + 1\<rparr>;
            (h, pH, m) \<leftarrow> grow_step table_malloc pKey h pH m;
            (pH, m) \<leftarrow> insertElement pH m (if ht pH \<noteq> None then Some h else None) new_elem;
            Some (0, pH, m) }) }"

section \<open>Lemmas: consecutive elements\<close>

text \<open>The elements with a property are consecutive: one without it has none of them before or none behind it.\<close>

definition contig :: "('a \<Rightarrow> bool) \<Rightarrow> 'a list \<Rightarrow> bool" where
  "contig P xs \<longleftrightarrow>
     (\<forall>A g B. xs = A @ g # B \<longrightarrow> \<not> P g \<longrightarrow> (\<forall>a\<in>set A. \<not> P a) \<or> (\<forall>b\<in>set B. \<not> P b))"

lemma contigD: "contig P (A @ g # B) \<Longrightarrow> \<not> P g \<Longrightarrow> (\<forall>a\<in>set A. \<not> P a) \<or> (\<forall>b\<in>set B. \<not> P b)"
  by (simp add: contig_def)

lemma contig_Nil [simp]: "contig P []"
  by (simp add: contig_def)

lemma split_middle:
  assumes "A @ x # B = A' @ g # B'"
  obtains (before) C where "A = A' @ g # C" "B' = C @ x # B"
    | (here) "A = A'" "x = g" "B = B'"
    | (behind) C where "B = C @ g # B'" "A' = A @ x # C"
  using assms by (auto simp: append_eq_append_conv2 Cons_eq_append_conv append_eq_Cons_conv)

lemma contig_insert_other:
  assumes "contig P (A @ B)" "\<not> P x" "(\<forall>a\<in>set A. \<not> P a) \<or> (\<forall>b\<in>set B. \<not> P b)"
  shows "contig P (A @ x # B)"
  unfolding contig_def
proof (intro allI impI)
  fix A' g B'
  assume eq: "A @ x # B = A' @ g # B'" and g: "\<not> P g"
  from eq show "(\<forall>a\<in>set A'. \<not> P a) \<or> (\<forall>b\<in>set B'. \<not> P b)"
  proof (cases rule: split_middle)
    case (before C)
    with assms contigD [of P A' g "C @ B"] g show ?thesis by auto
  next
    case here
    with assms show ?thesis by simp
  next
    case (behind C)
    with assms contigD [of P "A @ C" g B'] g show ?thesis by auto
  qed
qed

lemma contig_insert_front:
  assumes "contig P (A @ h # B)" "P x" "P h" "\<forall>a\<in>set A. \<not> P a"
  shows "contig P (A @ x # h # B)"
  unfolding contig_def
proof (intro allI impI)
  fix A' g B'
  assume eq: "A @ x # h # B = A' @ g # B'" and g: "\<not> P g"
  from eq show "(\<forall>a\<in>set A'. \<not> P a) \<or> (\<forall>b\<in>set B'. \<not> P b)"
  proof (cases rule: split_middle)
    case (behind C)
    with g \<open>P h\<close> obtain C' where "C = h # C'" "B = C' @ g # B'" by (cases C) auto
    with assms contigD [of P "A @ h # C'" g B'] g show ?thesis by auto
  qed (use assms g in auto)
qed

lemma contig_new:
  assumes "\<forall>x\<in>set xs. \<not> P x"
  shows "contig P (x # xs)"
  using assms by (auto simp: contig_def Cons_eq_append_conv)

lemma contig_remove:
  assumes "contig P (A @ x # B)"
  shows "contig P (A @ B)"
  unfolding contig_def
proof (intro allI impI)
  fix A' g B'
  assume eq: "A @ B = A' @ g # B'" and g: "\<not> P g"
  then consider C where "A = A' @ g # C" "B' = C @ B" | C where "B = C @ g # B'" "A' = A @ C"
    by (auto simp: append_eq_append_conv2 Cons_eq_append_conv append_eq_Cons_conv)
  then show "(\<forall>a\<in>set A'. \<not> P a) \<or> (\<forall>b\<in>set B'. \<not> P b)"
  proof cases
    case 1
    with assms contigD [of P A' g "C @ x # B"] g show ?thesis by auto
  next
    case 2
    with assms contigD [of P "A @ x # C" g B'] g show ?thesis by auto
  qed
qed

lemma contig_segment:
  assumes "contig P xs"
  shows "\<exists>A B. xs = A @ filter P xs @ B \<and> (\<forall>a\<in>set A. \<not> P a) \<and> (\<forall>b\<in>set B. \<not> P b)"
proof -
  define A where "A = takeWhile (\<lambda>x. \<not> P x) xs"
  define R where "R = dropWhile (\<lambda>x. \<not> P x) xs"
  define S where "S = takeWhile P R"
  define B where "B = dropWhile P R"
  have xs: "xs = A @ S @ B" by (simp add: A_def R_def S_def B_def)
  have A: "\<forall>a\<in>set A. \<not> P a" by (auto simp: A_def dest: set_takeWhileD)
  have S: "\<forall>a\<in>set S. P a" by (auto simp: S_def dest: set_takeWhileD)
  have B: "\<forall>b\<in>set B. \<not> P b"
  proof (cases B)
    case (Cons g B')
    then have g: "\<not> P g" unfolding B_def by (metis hd_dropWhile list.distinct(1) list.sel(1))
    have "R \<noteq> []" using Cons by (auto simp: B_def)
    then have "P (hd R)" using hd_dropWhile [of "\<lambda>x. \<not> P x" xs] by (simp add: R_def)
    with \<open>R \<noteq> []\<close> have "S \<noteq> []" by (cases R) (auto simp: S_def)
    with S have "\<exists>a\<in>set (A @ S). P a" by (cases S) auto
    with contigD [of P "A @ S" g B'] g assms xs Cons show ?thesis by auto
  qed simp
  have "filter P xs = S" using A S B by (simp add: xs filter_id_conv filter_empty_conv)
  with xs have "xs = A @ filter P xs @ B" by simp
  with A B show ?thesis by (intro exI [of _ A] exI [of _ B]) simp
qed

lemma contig_head_next:
  assumes "contig P (A @ x # B)" "P x" "filter P B \<noteq> []"
  shows "B \<noteq> []" "P (hd B)"
proof -
  from assms(3) show "B \<noteq> []" by auto
  then obtain g B' where B: "B = g # B'" by (cases B) auto
  show "P (hd B)"
    using contigD [of P "A @ [x]" g B'] assms by (auto simp: B filter_empty_conv split: if_splits)
qed

section \<open>Lemmas: the doubly-linked list\<close>

definition hdd :: "nat list \<Rightarrow> nat \<Rightarrow> nat" where
  "hdd xs d = (case xs of [] \<Rightarrow> d | x # _ \<Rightarrow> x)"

definition lastd :: "nat list \<Rightarrow> nat \<Rightarrow> nat" where
  "lastd xs d = (if xs = [] then d else last xs)"

text \<open>\<open>dll m pv xs nx\<close>: the elements \<open>xs\<close> are linked in this order, between \<open>pv\<close> and \<open>nx\<close>.\<close>

fun dll :: "elems \<Rightarrow> nat \<Rightarrow> nat list \<Rightarrow> nat \<Rightarrow> bool" where
  "dll m pv [] nx \<longleftrightarrow> True"
| "dll m pv (x # xs) nx \<longleftrightarrow>
     x \<noteq> 0 \<and> (\<exists>e. m x = Some e \<and> hprev e = pv \<and> hnext e = hdd xs nx) \<and> dll m x xs nx"

lemma hdd_simps [simp]:
  "hdd [] d = d" "hdd (x # xs) d = x" "hdd (xs @ ys) d = hdd xs (hdd ys d)"
  by (auto simp: hdd_def split: list.split)

lemma lastd_simps [simp]:
  "lastd [] d = d" "lastd (x # xs) d = lastd xs x" "lastd (xs @ ys) d = lastd ys (lastd xs d)"
  by (auto simp: lastd_def)

lemma dll_append [simp]:
  "dll m pv (xs @ ys) nx \<longleftrightarrow> dll m pv xs (hdd ys nx) \<and> dll m (lastd xs pv) ys nx"
  by (induction xs arbitrary: pv) auto

lemma dll_frame: "(\<And>x. x \<in> set xs \<Longrightarrow> m' x = m x) \<Longrightarrow> dll m' pv xs nx = dll m pv xs nx"
  by (induction xs arbitrary: pv) auto

lemma dll_upd [simp]: "x \<notin> set xs \<Longrightarrow> dll (m(x := v)) pv xs nx = dll m pv xs nx"
  by (rule dll_frame) auto

lemma dll_nonzero: "dll m pv xs nx \<Longrightarrow> 0 \<notin> set xs"
  by (induction xs arbitrary: pv) auto

lemma dll_defined: "dll m pv xs nx \<Longrightarrow> x \<in> set xs \<Longrightarrow> m x \<noteq> None"
  by (induction xs arbitrary: pv) auto

text \<open>Redirecting the pointer at one end of a segment.\<close>

lemma dll_set_next:
  assumes "dll m pv (xs @ [x]) nx" "m x = Some e" "x \<notin> set xs"
  shows "dll (m(x \<mapsto> e\<lparr>hnext := nx'\<rparr>)) pv (xs @ [x]) nx'"
  using assms by auto

lemma dll_set_prev:
  assumes "dll m pv (x # xs) nx" "m x = Some e" "x \<notin> set xs"
  shows "dll (m(x \<mapsto> e\<lparr>hprev := pv'\<rparr>)) pv' (x # xs) nx"
  using assms by auto

text \<open>Key and data of an element, which no linking changes.\<close>

definition payload :: "elems \<Rightarrow> nat \<Rightarrow> (u8 list \<times> nat) option" where
  "payload m x = map_option (\<lambda>e. (hkey e, hdata e)) (m x)"

lemma payload_upd: "m x = Some e \<Longrightarrow> (hkey e', hdata e') = (hkey e, hdata e) \<Longrightarrow> payload (m(x \<mapsto> e')) = payload m"
  by (auto simp: payload_def fun_eq_iff)

definition linked :: "elems \<Rightarrow> elems \<Rightarrow> nat list \<Rightarrow> bool" where
  "linked m m' xs \<longleftrightarrow> dll m' 0 xs 0 \<and> payload m' = payload m \<and> (\<forall>x. x \<notin> set xs \<longrightarrow> m' x = m x)"

lemma insert_before_head:
  assumes "dll m 0 (h # B) 0" "distinct (h # B)" "new \<notin> set (h # B)" "new \<noteq> 0" "m new = Some e"
    and "entry pH b = Some en" "ht_count en \<noteq> 0" "ht_chain en = h"
  shows "\<exists>m'. insertElement pH m (Some b) new =
     Some ((set_entry pH b \<lparr>ht_count = ht_count en + 1, ht_chain = new\<rparr>)\<lparr>first := new\<rparr>, m') \<and> linked m m' (new # h # B)"
proof -
  obtain eh where eh: "m h = Some eh" "hprev eh = 0" "hnext eh = hdd B 0" "h \<noteq> 0" using assms(1) by auto
  define m' where "m' = m(new \<mapsto> e\<lparr>hnext := h, hprev := 0\<rparr>, h \<mapsto> eh\<lparr>hprev := new\<rparr>)"
  have "insertElement pH m (Some b) new =
     Some ((set_entry pH b \<lparr>ht_count = ht_count en + 1, ht_chain = new\<rparr>)\<lparr>first := new\<rparr>, m')"
    using assms eh by (simp add: insertElement_def upd_elem_def m'_def)
  moreover have "payload m' = payload m"
    using assms eh by (auto simp: payload_def m'_def fun_eq_iff)
  moreover have "dll m' 0 (new # h # B) 0"
    using assms eh by (auto simp: m'_def)
  ultimately show ?thesis by (auto simp: linked_def m'_def)
qed

lemma insert_before_inner:
  assumes "dll m 0 (A @ a # h # B) 0" "distinct (A @ a # h # B)" "new \<notin> set (A @ a # h # B)" "new \<noteq> 0" "m new = Some e"
    and "entry pH b = Some en" "ht_count en \<noteq> 0" "ht_chain en = h"
  shows "\<exists>m'. insertElement pH m (Some b) new =
     Some (set_entry pH b \<lparr>ht_count = ht_count en + 1, ht_chain = new\<rparr>, m') \<and> linked m m' (A @ a # new # h # B)"
proof -
  obtain eh where eh: "m h = Some eh" "hprev eh = a" "hnext eh = hdd B 0" "h \<noteq> 0" using assms(1) by auto
  obtain ea where ea: "m a = Some ea" "hprev ea = lastd A 0" "hnext ea = h" "a \<noteq> 0" using assms(1) by auto
  define m' where "m' = m(new \<mapsto> e\<lparr>hnext := h, hprev := a\<rparr>, a \<mapsto> ea\<lparr>hnext := new\<rparr>, h \<mapsto> eh\<lparr>hprev := new\<rparr>)"
  have "insertElement pH m (Some b) new =
     Some (set_entry pH b \<lparr>ht_count = ht_count en + 1, ht_chain = new\<rparr>, m')"
    using assms eh ea by (simp add: insertElement_def upd_elem_def m'_def)
  moreover have "payload m' = payload m"
    using assms eh ea by (auto simp: payload_def m'_def fun_eq_iff)
  moreover have "dll m' 0 (A @ a # new # h # B) 0"
    using assms eh ea by (auto simp: m'_def)
  ultimately show ?thesis by (auto simp: linked_def m'_def)
qed

lemma insert_front:
  assumes "dll m 0 xs 0" "distinct xs" "new \<notin> set xs" "new \<noteq> 0" "m new = Some e"
    and "first pH = hdd xs 0"
    and "case pEntry of None \<Rightarrow> pH' = pH
       | Some b \<Rightarrow> (\<exists>en. entry pH b = Some en \<and> ht_count en = 0 \<and> pH' = set_entry pH b \<lparr>ht_count = 1, ht_chain = new\<rparr>)"
  shows "\<exists>m'. insertElement pH m pEntry new = Some (pH'\<lparr>first := new\<rparr>, m') \<and> linked m m' (new # xs)"
proof -
  have first': "first pH' = hdd xs 0" using assms(6,7) by (auto simp: set_entry_def split: option.splits)
  show ?thesis
  proof (cases xs)
    case Nil
    define m' where "m' = m(new \<mapsto> e\<lparr>hnext := 0, hprev := 0\<rparr>)"
    have "insertElement pH m pEntry new = Some (pH'\<lparr>first := new\<rparr>, m')"
      using assms first' Nil by (auto simp: insertElement_def upd_elem_def m'_def split: option.splits)
    moreover have "payload m' = payload m"
      using assms by (auto simp: payload_def m'_def fun_eq_iff)
    ultimately show ?thesis using assms Nil by (auto simp: linked_def m'_def)
  next
    case (Cons h B)
    obtain eh where eh: "m h = Some eh" "hprev eh = 0" "hnext eh = hdd B 0" "h \<noteq> 0" using assms(1) Cons by auto
    define m' where "m' = m(new \<mapsto> e\<lparr>hnext := h, hprev := 0\<rparr>, h \<mapsto> eh\<lparr>hprev := new\<rparr>)"
    have "insertElement pH m pEntry new = Some (pH'\<lparr>first := new\<rparr>, m')"
      using assms first' Cons eh by (auto simp: insertElement_def upd_elem_def m'_def fun_upd_twist split: option.splits)
    moreover have "payload m' = payload m"
      using assms Cons eh by (auto simp: payload_def m'_def fun_eq_iff)
    moreover have "dll m' 0 (new # xs) 0"
      using assms Cons eh by (auto simp: m'_def)
    ultimately show ?thesis using Cons by (auto simp: linked_def m'_def)
  qed
qed

section \<open>Lemmas: the buckets\<close>

definition bidx :: "u32 \<Rightarrow> elems \<Rightarrow> nat \<Rightarrow> nat" where
  "bidx n m x = unat (strHash (hkey (the (m x))) mod n)"

lemma bidx_payload: "payload m' x = payload m x \<Longrightarrow> bidx n m' x = bidx n m x"
  by (cases "m x"; cases "m' x") (auto simp: bidx_def payload_def)

lemma bidx_bound: "0 < n \<Longrightarrow> bidx n m x < unat n"
  by (simp add: bidx_def word_mod_less_divisor unat_mono)

definition bucket_ok :: "(nat \<Rightarrow> bool) \<Rightarrow> nat list \<Rightarrow> ht_entry \<Rightarrow> bool" where
  "bucket_ok P xs en \<longleftrightarrow> contig P xs \<and> unat (ht_count en) = length (filter P xs) \<and>
     (filter P xs \<noteq> [] \<longrightarrow> ht_chain en = hd (filter P xs))"

definition table_ok :: "u32 \<Rightarrow> elems \<Rightarrow> nat list \<Rightarrow> ht_entry list \<Rightarrow> bool" where
  "table_ok n m xs t \<longleftrightarrow> 0 < n \<and> length t = unat n \<and>
     (\<forall>b < length t. bucket_ok (\<lambda>x. bidx n m x = b) xs (t ! b))"

definition buckets_ok :: "Hash \<Rightarrow> elems \<Rightarrow> nat list \<Rightarrow> bool" where
  "buckets_ok pH m xs \<longleftrightarrow>
     (case ht pH of None \<Rightarrow> htsize pH = 0 | Some t \<Rightarrow> table_ok (htsize pH) m xs t)"

lemma bucket_insert_other:
  assumes "bucket_ok P (A @ B) en" "\<not> P x" "(\<forall>a\<in>set A. \<not> P a) \<or> (\<forall>b\<in>set B. \<not> P b)"
  shows "bucket_ok P (A @ x # B) en"
  using assms by (simp add: bucket_ok_def contig_insert_other)

lemma unat_plus1: "unat (c :: u32) < 2 ^ 32 - 1 \<Longrightarrow> unat (c + 1) = Suc (unat c)"
  by (simp add: unat_word_ariths)

lemma bucket_insert_front:
  assumes "bucket_ok P (A @ h # B) en" "P x" "P h" "\<forall>a\<in>set A. \<not> P a" "length (A @ h # B) < 2 ^ 32 - 1"
  shows "bucket_ok P (A @ x # h # B) \<lparr>ht_count = ht_count en + 1, ht_chain = x\<rparr>"
proof -
  have "length (filter P B) < 2 ^ 32 - 2"
    using assms(5) le_less_trans [OF length_filter_le [of P B]] by simp
  then show ?thesis
    using assms by (simp add: bucket_ok_def contig_insert_front unat_plus1 filter_empty_conv)
qed

lemma bucket_insert_new:
  assumes "filter P xs = []" "P x"
  shows "bucket_ok P (x # xs) \<lparr>ht_count = 1, ht_chain = x\<rparr>"
  using assms by (simp add: bucket_ok_def contig_new filter_empty_conv)

lemma bucket_insert_new_other:
  assumes "bucket_ok P xs en" "\<not> P x"
  shows "bucket_ok P (x # xs) en"
  using bucket_insert_other [of P "[]" xs en x] assms by simp

lemma bucket_segment:
  assumes "bucket_ok P xs en"
  shows "\<exists>A B. xs = A @ filter P xs @ B \<and> (\<forall>a\<in>set A. \<not> P a) \<and> (\<forall>b\<in>set B. \<not> P b)"
  using assms contig_segment unfolding bucket_ok_def by blast

lemma bucket_ok_cong:
  assumes "\<And>x. x \<in> set xs \<Longrightarrow> P x = Q x"
  shows "bucket_ok P xs en = bucket_ok Q xs en"
proof -
  have "filter P xs = filter Q xs" using assms by (auto intro: filter_cong)
  moreover have "contig P xs = contig Q xs" using assms unfolding contig_def by (intro all_cong1) auto
  ultimately show ?thesis by (simp add: bucket_ok_def)
qed

lemma table_ok_cong:
  assumes "\<And>x. x \<in> set xs \<Longrightarrow> bidx n m' x = bidx n m x"
  shows "table_ok n m' xs t = table_ok n m xs t"
  using bucket_ok_cong [of xs "\<lambda>x. bidx n m' x = _" "\<lambda>x. bidx n m x = _"] assms by (simp add: table_ok_def)

lemma buckets_ok_cong:
  assumes "\<And>x. x \<in> set xs \<Longrightarrow> bidx (htsize pH) m' x = bidx (htsize pH) m x"
  shows "buckets_ok pH m' xs = buckets_ok pH m xs"
  using table_ok_cong [of xs "htsize pH" m' m] assms by (simp add: buckets_ok_def split: option.split)

lemma table_insert_empty:
  assumes "table_ok n m xs t" "filter (\<lambda>x. bidx n m x = bidx n m new) xs = []"
  shows "table_ok n m (new # xs) (t[bidx n m new := \<lparr>ht_count = 1, ht_chain = new\<rparr>])"
  unfolding table_ok_def
proof (intro conjI allI impI)
  fix c assume c: "c < length (t[bidx n m new := \<lparr>ht_count = 1, ht_chain = new\<rparr>])"
  show "bucket_ok (\<lambda>x. bidx n m x = c) (new # xs) (t[bidx n m new := \<lparr>ht_count = 1, ht_chain = new\<rparr>] ! c)"
  proof (cases "c = bidx n m new")
    case True
    with c bucket_insert_new [OF assms(2)] show ?thesis by simp
  next
    case False
    have "bucket_ok (\<lambda>x. bidx n m x = c) xs (t ! c)" using assms(1) c by (simp add: table_ok_def)
    from bucket_insert_new_other [OF this, of new] False show ?thesis by simp
  qed
qed (use assms in \<open>simp_all add: table_ok_def\<close>)

lemma table_insert_front:
  assumes "table_ok n m (A @ h # B) t" "bidx n m h = bidx n m new" "\<forall>a\<in>set A. bidx n m a \<noteq> bidx n m new"
    and "length (A @ h # B) < 2 ^ 32 - 1"
    and en': "en' = \<lparr>ht_count = ht_count (t ! bidx n m new) + 1, ht_chain = new\<rparr>"
  shows "table_ok n m (A @ new # h # B) (t[bidx n m new := en'])"
  unfolding table_ok_def
proof (intro conjI allI impI)
  fix c assume c: "c < length (t[bidx n m new := en'])"
  have bk: "bucket_ok (\<lambda>x. bidx n m x = c) (A @ h # B) (t ! c)" using assms(1) c by (simp add: table_ok_def)
  show "bucket_ok (\<lambda>x. bidx n m x = c) (A @ new # h # B) (t[bidx n m new := en'] ! c)"
  proof (cases "c = bidx n m new")
    case True
    have "bucket_ok (\<lambda>x. bidx n m x = c) (A @ new # h # B) en'"
      unfolding en' True by (rule bucket_insert_front) (use bk assms True in simp_all)
    with True c show ?thesis by simp
  next
    case False
    have "contig (\<lambda>x. bidx n m x = c) (A @ h # B)" using bk by (simp add: bucket_ok_def)
    from contigD [OF this] assms(2) False
    have "(\<forall>a\<in>set A. bidx n m a \<noteq> c) \<or> (\<forall>x\<in>set (h # B). bidx n m x \<noteq> c)" by auto
    then have "bucket_ok (\<lambda>x. bidx n m x = c) (A @ new # h # B) (t ! c)"
      by (rule bucket_insert_other [OF bk, rotated]) (use False in simp)
    with False show ?thesis by simp
  qed
qed (use assms in \<open>simp_all add: table_ok_def\<close>)

lemma insert_before:
  assumes "dll m 0 (A @ h # B) 0" "distinct (A @ h # B)" "first pH = hdd (A @ h # B) 0"
    and "new \<notin> set (A @ h # B)" "new \<noteq> 0" "m new = Some e"
    and "entry pH b = Some en" "ht_count en \<noteq> 0" "ht_chain en = h"
  shows "\<exists>m'. insertElement pH m (Some b) new =
     Some ((set_entry pH b \<lparr>ht_count = ht_count en + 1, ht_chain = new\<rparr>)\<lparr>first := hdd (A @ [new]) 0\<rparr>, m') \<and>
     linked m m' (A @ new # h # B)"
proof (cases A rule: rev_cases)
  case Nil
  then show ?thesis using insert_before_head [of m h B new e pH b en] assms by simp
next
  case (snoc A' a)
  have fst: "(set_entry pH b en')\<lparr>first := hdd (A @ [new]) 0\<rparr> = set_entry pH b en'" for en'
    using assms(3) snoc by (simp add: set_entry_def)
  show ?thesis
    unfolding fst using insert_before_inner [of m A' a h B new e pH b en] assms snoc by simp
qed

text \<open>What insertion of an element achieves, with the list of the table after it.\<close>

definition inserted :: "Hash \<Rightarrow> elems \<Rightarrow> nat list \<Rightarrow> nat \<Rightarrow> Hash \<Rightarrow> elems \<Rightarrow> nat list \<Rightarrow> bool" where
  "inserted pH m xs new pH' m' xs' \<longleftrightarrow>
     (\<exists>A B. xs = A @ B \<and> xs' = A @ new # B) \<and> linked m m' xs' \<and>
     first pH' = hdd xs' 0 \<and> htsize pH' = htsize pH \<and> hcount pH' = hcount pH \<and>
     (ht pH' = None \<longleftrightarrow> ht pH = None) \<and> buckets_ok pH' m' xs'"

lemma insertedI:
  assumes "xs = A @ B" "linked m m' (A @ new # B)" "buckets_ok pH' m (A @ new # B)"
    and "first pH' = hdd (A @ new # B) 0" "htsize pH' = htsize pH" "hcount pH' = hcount pH"
      "ht pH' = None \<longleftrightarrow> ht pH = None"
  shows "inserted pH m xs new pH' m' (A @ new # B)"
  using assms buckets_ok_cong [of "A @ new # B" pH' m' m] bidx_payload [of m' _ m]
  by (auto simp: inserted_def linked_def)

lemma insertElement_linear:
  assumes "ht pH = None" "htsize pH = 0" "dll m 0 xs 0" "distinct xs" "first pH = hdd xs 0"
    and new: "new \<notin> set xs" "new \<noteq> 0" "m new = Some e"
  shows "\<exists>pH' m' xs'. insertElement pH m None new = Some (pH', m') \<and> inserted pH m xs new pH' m' xs'"
proof -
  obtain m' where ins: "insertElement pH m None new = Some (pH\<lparr>first := new\<rparr>, m')" "linked m m' (new # xs)"
    using insert_front [OF assms(3,4) new assms(5), where pEntry = None and pH' = pH] by auto
  have "inserted pH m xs new (pH\<lparr>first := new\<rparr>) m' ([] @ new # xs)"
    by (rule insertedI) (use ins assms in \<open>simp_all add: buckets_ok_def\<close>)
  with ins show ?thesis by auto
qed

lemma insertElement_bucket:
  assumes ok: "ht pH = Some t" "table_ok (htsize pH) m xs t" "dll m 0 xs 0" "distinct xs" "first pH = hdd xs 0"
    and new: "new \<notin> set xs" "new \<noteq> 0" "m new = Some e" "length xs < 2 ^ 32 - 1"
    and b: "b = bidx (htsize pH) m new"
  shows "\<exists>pH' m' xs'. insertElement pH m (Some b) new = Some (pH', m') \<and> inserted pH m xs new pH' m' xs'"
proof -
  let ?P = "\<lambda>x. bidx (htsize pH) m x = b"
  have bt: "b < length t" using ok(2) bidx_bound by (simp add: b table_ok_def)
  have bk: "bucket_ok ?P xs (t ! b)" using ok(2) bt by (simp add: table_ok_def)
  have en: "entry pH b = Some (t ! b)" using bt ok(1) by (simp add: entry_def)
  show ?thesis
  proof (cases "filter ?P xs")
    case Nil
    define pH' where "pH' = set_entry pH b \<lparr>ht_count = 1, ht_chain = new\<rparr>"
    have "ht_count (t ! b) = 0" using bk Nil by (simp add: bucket_ok_def unat_eq_0)
    with insert_front [OF ok(3,4) new(1,2,3) ok(5), where pEntry = "Some b" and pH' = pH'] en
    obtain m' where ins: "insertElement pH m (Some b) new = Some (pH'\<lparr>first := new\<rparr>, m')" "linked m m' (new # xs)"
      by (auto simp: pH'_def)
    have "inserted pH m xs new (pH'\<lparr>first := new\<rparr>) m' ([] @ new # xs)"
      by (rule insertedI)
        (use ins ok(1) table_insert_empty [OF ok(2), of new] Nil in \<open>simp_all add: buckets_ok_def pH'_def set_entry_def b\<close>)
    with ins show ?thesis by auto
  next
    case (Cons h S)
    obtain A B where AB: "xs = A @ filter ?P xs @ B" "\<forall>a\<in>set A. \<not> ?P a" using bucket_segment [OF bk] by blast
    from AB(1) have xs: "xs = A @ h # (S @ B)" unfolding Cons by simp
    have "h \<in> set (filter ?P xs)" unfolding Cons by simp
    then have h: "bidx (htsize pH) m h = b" by simp
    have cnt: "ht_count (t ! b) \<noteq> 0" "ht_chain (t ! b) = h" using bk Cons by (auto simp: bucket_ok_def)
    define en' where "en' = \<lparr>ht_count = ht_count (t ! b) + 1, ht_chain = new\<rparr>"
    define pH' where "pH' = (set_entry pH b en')\<lparr>first := hdd (A @ [new]) 0\<rparr>"
    obtain m' where ins: "insertElement pH m (Some b) new = Some (pH', m')" "linked m m' (A @ new # h # (S @ B))"
      using insert_before [of m A h "S @ B" pH new e b "t ! b"] ok new xs en cnt by (auto simp: pH'_def en'_def)
    have "table_ok (htsize pH) m (A @ new # h # (S @ B)) (t[b := en'])"
      unfolding b by (rule table_insert_front) (use ok xs h AB(2) new(4) in \<open>simp_all add: b en'_def\<close>)
    then have "inserted pH m xs new pH' m' (A @ new # (h # S @ B))"
      by (intro insertedI) (use ins xs ok(1) in \<open>simp_all add: buckets_ok_def pH'_def set_entry_def\<close>)
    with ins show ?thesis by auto
  qed
qed

lemma insertElement_ok:
  assumes "buckets_ok pH m xs" "dll m 0 xs 0" "distinct xs" "first pH = hdd xs 0"
    and "new \<notin> set xs" "new \<noteq> 0" "m new = Some e" "length xs < 2 ^ 32 - 1"
    and "ht pH \<noteq> None \<Longrightarrow> h = bidx (htsize pH) m new"
  shows "\<exists>pH' m' xs'. insertElement pH m (if ht pH \<noteq> None then Some h else None) new = Some (pH', m') \<and>
     inserted pH m xs new pH' m' xs'"
  using assms insertElement_linear [of pH m xs new e] insertElement_bucket [of pH _ m xs new e h]
  by (cases "ht pH") (auto simp: buckets_ok_def)

section \<open>Lemmas: resizing\<close>

text \<open>While \<open>rehash\<close> runs, the elements still to be moved are linked forwards only.\<close>

fun nexts :: "elems \<Rightarrow> nat list \<Rightarrow> bool" where
  "nexts m [] \<longleftrightarrow> True"
| "nexts m (x # xs) \<longleftrightarrow> x \<noteq> 0 \<and> (\<exists>e. m x = Some e \<and> hnext e = hdd xs 0) \<and> nexts m xs"

lemma dll_nexts: "dll m pv xs 0 \<Longrightarrow> nexts m xs"
  by (induction xs arbitrary: pv) auto

lemma nexts_frame: "(\<And>x. x \<in> set xs \<Longrightarrow> m' x = m x) \<Longrightarrow> nexts m' xs = nexts m xs"
  by (induction xs) auto

definition rehashed :: "Hash \<Rightarrow> elems \<Rightarrow> nat list \<Rightarrow> Hash \<Rightarrow> elems \<Rightarrow> nat list \<Rightarrow> bool" where
  "rehashed pH m xs pH' m' xs' \<longleftrightarrow>
     mset xs' = mset xs \<and> linked m m' xs' \<and> first pH' = hdd xs' 0 \<and> htsize pH' = htsize pH \<and>
     hcount pH' = hcount pH \<and> ht pH' \<noteq> None \<and> buckets_ok pH' m' xs'"

lemma rehash_loop_ok:
  assumes "nexts m rs" "dll m 0 ys 0" "first pH = hdd ys 0" "distinct (ys @ rs)" "ht pH \<noteq> None"
    and "buckets_ok pH m ys" "htsize pH = n" "length (ys @ rs) < 2 ^ 32 - 1"
  shows "\<exists>pH' m' xs'. rehash_loop n pH m (hdd rs 0) = Some (pH', m') \<and> rehashed pH m (ys @ rs) pH' m' xs'"
  using assms
proof (induction rs arbitrary: m ys pH)
  case Nil
  then show ?case by (subst rehash_loop.simps) (auto simp: rehashed_def linked_def)
next
  case (Cons x rs)
  from Cons.prems obtain e where e: "x \<noteq> 0" "m x = Some e" "hnext e = hdd rs 0" by auto
  have n: "n \<noteq> 0" using Cons.prems by (auto simp: buckets_ok_def table_ok_def)
  obtain pH1 m1 ys1 where ins: "insertElement pH m (Some (bidx n m x)) x = Some (pH1, m1)" "inserted pH m ys x pH1 m1 ys1"
    using insertElement_ok [of pH m ys x e "bidx n m x"] Cons.prems e by auto
  from ins(2) have ys1: "mset ys1 = add_mset x (mset ys)" "set ys1 = insert x (set ys)" "distinct ys1 = distinct (x # ys)"
    "length ys1 = Suc (length ys)"
    by (auto simp: inserted_def)
  have m1: "payload m1 = payload m" "\<And>y. y \<notin> set ys1 \<Longrightarrow> m1 y = m y" "dll m1 0 ys1 0"
    using ins(2) by (auto simp: inserted_def linked_def)
  have "y \<notin> set ys1" if "y \<in> set rs" for y using that Cons.prems(4) ys1(2) by auto
  then have "m1 y = m y" if "y \<in> set rs" for y using that m1(2) by blast
  then have "nexts m1 rs" using Cons.prems(1) nexts_frame [of rs m1 m] by simp
  then obtain pH' m' xs' where re: "rehash_loop n pH1 m1 (hdd rs 0) = Some (pH', m')" "rehashed pH1 m1 (ys1 @ rs) pH' m' xs'"
    using Cons.IH [of m1 ys1 pH1] Cons.prems ins(2) ys1 m1(3) by (auto simp: inserted_def)
  have "rehash_loop n pH m (hdd (x # rs) 0) = Some (pH', m')"
    using e n ins(1) re(1) by (subst rehash_loop.simps) (simp add: bidx_def)
  moreover have "set xs' = set (ys1 @ rs)" using re(2) by (metis rehashed_def set_mset_mset)
  then have "rehashed pH m (ys @ x # rs) pH' m' xs'"
    using re(2) ins(2) m1 ys1 by (auto simp: rehashed_def inserted_def linked_def)
  ultimately show ?case by blast
qed

definition malloc_size_ok :: "(u32 \<Rightarrow> u32 option) \<Rightarrow> bool" where
  "malloc_size_ok table_malloc \<longleftrightarrow> (\<forall>n b. table_malloc n = Some b \<longrightarrow> n \<le> b)"

lemma table_ok_fresh: "0 < n \<Longrightarrow> table_ok n m [] (replicate (unat n) \<lparr>ht_count = 0, ht_chain = 0\<rparr>)"
  by (simp add: table_ok_def bucket_ok_def)

lemma rehash_size:
  assumes "n \<noteq> 0" "unat n < 2 ^ 29" "malloc_size_ok tm"
    and n': "n' = (if n * 8 > 1024 then 1024 div 8 else n)" and "tm (n' * 8) = Some b"
  shows "0 < b div 8"
proof -
  have "unat (n * 8) = unat n * 8" using assms(2) by (simp add: unat_word_ariths)
  moreover have "n' \<le> 128" using n' calculation by (auto simp: word_le_nat_alt word_less_nat_alt split: if_splits)
  moreover have "1 \<le> n'" using n' assms(1) by (auto simp: word_le_nat_alt unat_gt_0 Suc_le_eq)
  ultimately have "8 \<le> unat (n' * 8)" by (simp add: unat_word_ariths word_le_nat_alt)
  moreover have "n' * 8 \<le> b" using assms(3,5) by (auto simp: malloc_size_ok_def)
  ultimately have "8 \<le> unat b" by (simp add: word_le_nat_alt)
  then show ?thesis by (simp add: word_less_nat_alt unat_div)
qed

lemma rehash_ok:
  assumes "dll m 0 xs 0" "first pH = hdd xs 0" "distinct xs" "length xs < 2 ^ 28" "buckets_ok pH m xs"
    and "malloc_size_ok tm" "n \<noteq> 0" "unat n < 2 ^ 29"
  shows "\<exists>resized pH' m' xs'. rehash tm pH m n = Some (resized, pH', m') \<and>
     (if resized then ht pH' \<noteq> None \<and> htsize pH' \<noteq> 0 else pH' = pH) \<and>
     mset xs' = mset xs \<and> linked m m' xs' \<and> first pH' = hdd xs' 0 \<and> hcount pH' = hcount pH \<and> buckets_ok pH' m' xs'"
proof -
  define n' where "n' = (if n * 8 > 1024 then 1024 div 8 else n)"
  have same: ?thesis if "rehash tm pH m n = Some (False, pH, m)"
    using that assms by (intro exI [of _ False] exI [of _ pH] exI [of _ m] exI [of _ xs]) (simp add: linked_def)
  show ?thesis
  proof (cases "n' = htsize pH \<or> tm (n' * 8) = None")
    case True
    then show ?thesis by (intro same) (auto simp: rehash_def n'_def [symmetric] Let_def)
  next
    case False
    then obtain b where b: "tm (n' * 8) = Some b" and ne: "n' \<noteq> htsize pH" by auto
    have pos: "0 < b div 8" by (rule rehash_size [OF assms(7,8,6) n'_def b])
    define pH1 where "pH1 = pH\<lparr>ht := Some (replicate (unat (b div 8)) \<lparr>ht_count = 0, ht_chain = 0\<rparr>),
      htsize := b div 8, first := 0\<rparr>"
    have "buckets_ok pH1 m []" using table_ok_fresh [OF pos] by (simp add: buckets_ok_def pH1_def)
    with assms dll_nexts [OF assms(1)] rehash_loop_ok [of m xs "[]" pH1 "b div 8"]
    obtain pH' m' xs' where re: "rehash_loop (b div 8) pH1 m (hdd xs 0) = Some (pH', m')" "rehashed pH1 m xs pH' m' xs'"
      by (auto simp: pH1_def)
    have "rehash tm pH m n = Some (True, pH', m')"
      using re(1) b ne assms(2) by (simp add: rehash_def n'_def [symmetric] Let_def pH1_def)
    moreover have "htsize pH' \<noteq> 0" using re(2) pos by (auto simp: rehashed_def pH1_def)
    ultimately show ?thesis using re(2)
      by (intro exI [of _ True] exI [of _ pH'] exI [of _ m'] exI [of _ xs']) (auto simp: rehashed_def pH1_def)
  qed
qed

section \<open>Lemmas: searching\<close>

definition fkey :: "elems \<Rightarrow> nat \<Rightarrow> u8 list" where
  "fkey m x = folded (hkey (the (m x)))"

definition edata :: "elems \<Rightarrow> nat \<Rightarrow> nat" where
  "edata m x = hdata (the (m x))"

lemma strHash_loop_folded: "strHash_loop h z = foldl (\<lambda>h c. push_bit 3 h XOR h XOR ucast c) h (folded z)"
  by (induction h z rule: strHash_loop.induct) simp_all

lemma strHash_folded: "folded z = folded w \<Longrightarrow> strHash z = strHash w"
  by (simp add: strHash_def strHash_loop_folded)

definition found :: "elems \<Rightarrow> u8 list \<Rightarrow> nat list \<Rightarrow> nat" where
  "found m pKey xs = (case find (\<lambda>x. fkey m x = folded pKey) xs of None \<Rightarrow> 0 | Some x \<Rightarrow> x)"

lemma find_loop_segment:
  "dll m pv (xs @ B) nx \<Longrightarrow> find_loop m pKey (hdd (xs @ B) nx) (length xs) = Some (found m pKey xs)"
  by (induction xs arbitrary: pv) (auto simp: found_def fkey_def stricmp_0)

lemma find_filter: "(\<And>x. Q x \<Longrightarrow> P x) \<Longrightarrow> find Q (filter P xs) = find Q xs"
  by (induction xs) auto

lemma findElementWithHash_ok:
  assumes "dll m 0 xs 0" "first pH = hdd xs 0" "hcount pH = of_nat (length xs)" "length xs < 2 ^ 28" "buckets_ok pH m xs"
  shows "\<exists>h. findElementWithHash pH m pKey = Some (found m pKey xs, h) \<and>
     (ht pH \<noteq> None \<longrightarrow> h = unat (strHash pKey mod htsize pH))"
proof (cases "ht pH")
  case None
  have "unat (hcount pH) = length xs" using assms(3,4) by (simp add: unat_of_nat)
  with None find_loop_segment [of m 0 xs "[]" 0 pKey] assms(1,2)
  show ?thesis by (simp add: findElementWithHash_def)
next
  case (Some t)
  define h where "h = unat (strHash pKey mod htsize pH)"
  let ?P = "\<lambda>x. bidx (htsize pH) m x = h"
  have t: "0 < htsize pH" "length t = unat (htsize pH)" using assms(5) Some by (auto simp: buckets_ok_def table_ok_def)
  have h: "h < length t" using t by (simp add: h_def word_mod_less_divisor unat_mono)
  have bk: "bucket_ok ?P xs (t ! h)" using assms(5) Some h by (simp add: buckets_ok_def table_ok_def)
  define fs where "fs = filter ?P xs"
  obtain A B where AB: "xs = A @ fs @ B" using bucket_segment [OF bk] unfolding fs_def by blast
  have "?P x" if "fkey m x = folded pKey" for x
    using strHash_folded [OF that [unfolded fkey_def]] by (simp add: bidx_def h_def)
  then have fnd: "found m pKey fs = found m pKey xs" unfolding found_def fs_def by (subst find_filter) auto
  have cnt: "unat (ht_count (t ! h)) = length fs" "fs \<noteq> [] \<Longrightarrow> ht_chain (t ! h) = hd fs"
    using bk unfolding bucket_ok_def fs_def [symmetric] by auto
  have "find_loop m pKey (ht_chain (t ! h)) (length fs) = Some (found m pKey fs)"
  proof (cases fs)
    case (Cons x S)
    have "dll m (lastd A 0) (fs @ B) 0" using assms(1) unfolding AB dll_append by simp
    from find_loop_segment [OF this] show ?thesis using cnt(2) Cons by simp
  qed (simp add: found_def)
  with fnd cnt(1) Some t h show ?thesis
    by (auto simp: findElementWithHash_def entry_def h_def Let_def)
qed

section \<open>Lemmas: removal\<close>

lemma bucket_remove_other:
  assumes "bucket_ok P (A @ x # B) en" "\<not> P x"
  shows "bucket_ok P (A @ B) en"
  using assms contig_remove [of P A x B] by (simp add: bucket_ok_def)

lemma bucket_remove:
  assumes "bucket_ok P (A @ x # B) en" "P x" "x \<notin> set A"
  shows "bucket_ok P (A @ B) \<lparr>ht_count = ht_count en - 1, ht_chain = (if ht_chain en = x then hdd B 0 else ht_chain en)\<rparr>"
proof -
  have "unat (ht_count en) = length (filter P A) + Suc (length (filter P B))"
    and c: "contig P (A @ x # B)" and hd: "ht_chain en = hd (filter P A @ x # filter P B)"
    using assms by (auto simp: bucket_ok_def)
  then have cnt: "unat (ht_count en - 1) = length (filter P A) + length (filter P B)"
    by (subst unat_minus_one) auto
  have "(if ht_chain en = x then hdd B 0 else ht_chain en) = hd (filter P A @ filter P B)"
    if "filter P A @ filter P B \<noteq> []"
  proof (cases "filter P A")
    case Nil
    with hd that contig_head_next [OF c \<open>P x\<close>] show ?thesis by (cases B) auto
  next
    case (Cons a S)
    have "a \<in> set (filter P A)" unfolding Cons by simp
    then have "a \<in> set A" by simp
    with hd Cons assms(3) show ?thesis by auto
  qed
  with cnt contig_remove [OF c] show ?thesis by (simp add: bucket_ok_def)
qed

lemma table_remove:
  assumes "table_ok n m (A @ x # B) t" "x \<notin> set A" "b = bidx n m x"
    and en': "en' = \<lparr>ht_count = ht_count (t ! b) - 1, ht_chain = (if ht_chain (t ! b) = x then hdd B 0 else ht_chain (t ! b))\<rparr>"
  shows "table_ok n m (A @ B) (t[b := en'])"
  unfolding table_ok_def
proof (intro conjI allI impI)
  fix c assume c: "c < length (t[b := en'])"
  have bk: "bucket_ok (\<lambda>x. bidx n m x = c) (A @ x # B) (t ! c)" using assms(1) c by (simp add: table_ok_def)
  show "bucket_ok (\<lambda>x. bidx n m x = c) (A @ B) (t[b := en'] ! c)"
  proof (cases "c = b")
    case True
    have "bucket_ok (\<lambda>x. bidx n m x = c) (A @ B) en'"
      unfolding en' True [symmetric] by (rule bucket_remove [OF bk _ assms(2)]) (simp add: True assms(3))
    with True c show ?thesis by simp
  next
    case False
    with bucket_remove_other [OF bk] assms(3) show ?thesis by simp
  qed
qed (use assms in \<open>simp_all add: table_ok_def\<close>)

text \<open>Unlinking, first of the element before, then of the element behind.\<close>

lemma unlink_next:
  assumes "dll m 0 (A @ x # B) 0" "distinct (A @ x # B)" "m x = Some e"
  shows "\<exists>m'. (if hprev e \<noteq> 0 then upd_elem m (hprev e) (\<lambda>p. p\<lparr>hnext := hnext e\<rparr>) = Some m' else m' = m) \<and>
     dll m' 0 A (hdd B 0) \<and> dll m' x B 0 \<and> payload m' = payload m \<and> (\<forall>y. y \<notin> set A \<longrightarrow> m' y = m y) \<and>
     (hprev e = 0 \<longleftrightarrow> A = []) \<and> hprev e = lastd A 0 \<and> hnext e = hdd B 0"
proof (cases A rule: rev_cases)
  case Nil
  then show ?thesis using assms by (intro exI [of _ m]) auto
next
  case (snoc A' a)
  then obtain ea where ea: "m a = Some ea" "hprev ea = lastd A' 0" "a \<noteq> 0" "hprev e = a" "hnext e = hdd B 0"
    using assms(1,3) by auto
  have "payload (m(a \<mapsto> ea\<lparr>hnext := hnext e\<rparr>)) = payload m" by (rule payload_upd) (use ea in simp_all)
  then show ?thesis using assms snoc ea
    by (intro exI [of _ "m(a \<mapsto> ea\<lparr>hnext := hnext e\<rparr>)"]) (auto simp: upd_elem_def)
qed

lemma unlink_prev:
  assumes "dll m 0 A (hdd B 0)" "dll m x B 0" "distinct (A @ B)"
  shows "\<exists>m'. (if hdd B 0 \<noteq> 0 then upd_elem m (hdd B 0) (\<lambda>n. n\<lparr>hprev := lastd A 0\<rparr>) = Some m' else m' = m) \<and>
     dll m' 0 (A @ B) 0 \<and> payload m' = payload m \<and> (\<forall>y. y \<notin> set B \<longrightarrow> m' y = m y)"
proof (cases B)
  case Nil
  then show ?thesis using assms by (intro exI [of _ m]) auto
next
  case (Cons b B')
  then obtain eb where eb: "m b = Some eb" "b \<noteq> 0" "hnext eb = hdd B' 0" using assms(2) by auto
  have "payload (m(b \<mapsto> eb\<lparr>hprev := lastd A 0\<rparr>)) = payload m" by (rule payload_upd) (use eb in simp_all)
  then show ?thesis using assms Cons eb
    by (intro exI [of _ "m(b \<mapsto> eb\<lparr>hprev := lastd A 0\<rparr>)"]) (auto simp: upd_elem_def)
qed

section \<open>The table as a map\<close>

definition contents :: "elems \<Rightarrow> nat list \<Rightarrow> u8 list \<rightharpoonup> nat" where
  "contents m xs = map_of (map (\<lambda>x. (fkey m x, edata m x)) xs)"

lemma contents_Some:
  "distinct (map (fkey m) xs) \<Longrightarrow> contents m xs k = Some d \<longleftrightarrow> (\<exists>x\<in>set xs. fkey m x = k \<and> edata m x = d)"
  by (auto simp: contents_def map_of_eq_Some_iff o_def)

lemma contents_perm:
  assumes "mset xs' = mset xs" "distinct (map (fkey m) xs)"
  shows "contents m xs' = contents m xs"
proof
  fix k
  have d: "distinct (map (fkey m) xs')" using assms by (metis mset_eq_imp_distinct_iff mset_map)
  have "set xs' = set xs" using assms(1) by (metis set_mset_mset)
  then have "contents m xs' k = Some v \<longleftrightarrow> contents m xs k = Some v" for v
    using contents_Some [OF d] contents_Some [OF assms(2)] by simp
  then show "contents m xs' k = contents m xs k" by (metis option.exhaust)
qed

lemma contents_None: "contents m xs k = None \<longleftrightarrow> (\<forall>x\<in>set xs. fkey m x \<noteq> k)"
  by (auto simp: contents_def map_of_eq_None_iff image_image)

lemma contents_NoneI: "k \<notin> fkey m ` set xs \<Longrightarrow> contents m xs k = None"
  by (auto simp: contents_None)

definition hash_list :: "Hash \<Rightarrow> elems \<Rightarrow> nat list \<Rightarrow> bool" where
  "hash_list pH m xs \<longleftrightarrow>
     first pH = hdd xs 0 \<and> dll m 0 xs 0 \<and> distinct xs \<and> dom m = set xs \<and> distinct (map (fkey m) xs) \<and>
     (\<forall>x\<in>set xs. edata m x \<noteq> 0) \<and> hcount pH = of_nat (length xs) \<and> length xs < 2 ^ 28 \<and> buckets_ok pH m xs"

text \<open>
  The table represents a map from folded keys to data: there is an order of its elements in which they are linked
  and in which every bucket is a consecutive part, no key occurs twice, and the heap holds these elements and no others.
\<close>

definition hash_rel :: "Hash \<times> elems \<Rightarrow> (u8 list \<rightharpoonup> nat) \<Rightarrow> bool" where
  "hash_rel s M \<longleftrightarrow> (\<exists>xs. hash_list (fst s) (snd s) xs \<and> M = contents (snd s) xs)"

lemma hash_list_count: "hash_list pH m xs \<Longrightarrow> unat (hcount pH) = length xs"
  by (simp add: hash_list_def unat_of_nat)

lemma found_cases:
  assumes "hash_list pH m xs"
  obtains (absent) "found m k xs = 0" "\<forall>x\<in>set xs. fkey m x \<noteq> folded k" "contents m xs (folded k) = None"
    | (present) x e where "found m k xs = x" "x \<noteq> 0" "x \<in> set xs" "m x = Some e" "fkey m x = folded k"
        "contents m xs (folded k) = Some (hdata e)" "hdata e \<noteq> 0"
proof (cases "find (\<lambda>x. fkey m x = folded k) xs")
  case None
  with contents_None [of m xs "folded k"] absent show thesis by (auto simp: found_def find_None_iff)
next
  case (Some x)
  then have x: "x \<in> set xs" "fkey m x = folded k" by (auto simp: find_Some_iff)
  have ok: "dll m 0 xs 0" "distinct (map (fkey m) xs)" "edata m x \<noteq> 0"
    using assms x(1) by (auto simp: hash_list_def)
  from dll_nonzero [OF ok(1)] dll_defined [OF ok(1) x(1)] x obtain e where "x \<noteq> 0" "m x = Some e" by auto
  with Some x ok contents_Some [OF ok(2)] show thesis
    by (intro present [of x e]) (auto simp: found_def edata_def)
qed

lemma remove_run:
  assumes dll: "dll m 0 (A @ x # B) 0" "distinct (A @ x # B)" and bo: "buckets_ok pH m (A @ x # B)"
    and fst: "first pH = hdd (A @ x # B) 0" and x: "m x = Some e" and h: "ht pH \<noteq> None \<Longrightarrow> h = bidx (htsize pH) m x"
  shows "\<exists>pH' m'. removeElementGivenHash pH m x h = (if hcount pH' = 0 then sqlite3HashClear pH' m' else Some (pH', m')) \<and>
     dll m' 0 (A @ B) 0 \<and> m' x = None \<and> (\<forall>y. y \<noteq> x \<longrightarrow> payload m' y = payload m y) \<and>
     first pH' = hdd (A @ B) 0 \<and> hcount pH' = hcount pH - 1 \<and> buckets_ok pH' m (A @ B)"
proof -
  obtain m1 where m1: "if hprev e \<noteq> 0 then upd_elem m (hprev e) (\<lambda>p. p\<lparr>hnext := hnext e\<rparr>) = Some m1 else m1 = m"
    "dll m1 0 A (hdd B 0)" "dll m1 x B 0" "payload m1 = payload m" "hprev e = 0 \<longleftrightarrow> A = []"
    "hprev e = lastd A 0" "hnext e = hdd B 0"
    using unlink_next [OF dll x] by metis
  obtain m2 where m2: "if hdd B 0 \<noteq> 0 then upd_elem m1 (hdd B 0) (\<lambda>n. n\<lparr>hprev := lastd A 0\<rparr>) = Some m2 else m2 = m1"
    "dll m2 0 (A @ B) 0" "payload m2 = payload m1"
    using unlink_prev [OF m1(2,3)] dll(2) by auto
  define m' where "m' = m2(x := None)"
  define pH1 where "pH1 = (if A = [] then pH\<lparr>first := hdd B 0\<rparr> else pH)"
  define en where "en = the (entry pH h)"
  define en' where "en' = \<lparr>ht_count = ht_count en - 1, ht_chain = (if ht_chain en = x then hdd B 0 else ht_chain en)\<rparr>"
  define pH2 where "pH2 = (if ht pH \<noteq> None then set_entry pH1 h en' else pH1)"
  define pH' where "pH' = pH2\<lparr>hcount := hcount pH - 1\<rparr>"
  have ent: "ht pH \<noteq> None \<Longrightarrow> entry pH1 h = Some en \<and> entry pH h = Some en"
    using bo h bidx_bound [of "htsize pH" m x]
    by (auto simp: pH1_def en_def entry_def buckets_ok_def table_ok_def split: option.splits)
  have hc: "hcount pH2 = hcount pH" "ht pH1 = ht pH" "htsize pH' = htsize pH"
    by (simp_all add: pH'_def pH2_def pH1_def set_entry_def)
  have "removeElementGivenHash pH m x h = (if hcount pH' = 0 then sqlite3HashClear pH' m' else Some (pH', m'))"
    using m1 m2 x ent hc
    by (auto simp: removeElementGivenHash_def pH'_def pH2_def pH1_def en'_def m'_def Let_def split: if_splits)
  moreover have "first pH' = hdd (A @ B) 0"
    using fst by (cases A) (auto simp: pH'_def pH2_def pH1_def set_entry_def)
  moreover have "buckets_ok pH' m (A @ B)"
  proof (cases "ht pH")
    case (Some t)
    with ent have "en = t ! h" by (auto simp: entry_def split: if_splits)
    with Some bo h dll(2) have "table_ok (htsize pH) m (A @ B) (t[h := en'])"
      by (intro table_remove [of "htsize pH" m A x B t h]) (simp_all add: buckets_ok_def en'_def)
    moreover have "ht pH' = Some (t[h := en'])" using Some by (simp add: pH'_def pH2_def pH1_def set_entry_def)
    ultimately show ?thesis using hc(3) by (simp add: buckets_ok_def)
  qed (use bo in \<open>simp add: buckets_ok_def pH'_def pH2_def pH1_def\<close>)
  moreover have "dll m' 0 (A @ B) 0" using m2(2) dll(2) unfolding m'_def by (subst dll_upd) auto
  ultimately show ?thesis
    using m1(4) m2(3) by (intro exI [of _ pH'] exI [of _ m']) (auto simp: m'_def pH'_def payload_def fun_eq_iff)
qed

lemma fkey_payload: "payload m' x = payload m x \<Longrightarrow> fkey m' x = fkey m x \<and> edata m' x = edata m x"
  by (cases "m x"; cases "m' x") (auto simp: fkey_def edata_def payload_def)

lemma payload_None: "payload m x = None \<longleftrightarrow> m x = None"
  by (simp add: payload_def)

lemma contents_cong:
  "(\<And>x. x \<in> set xs \<Longrightarrow> fkey m' x = fkey m x \<and> edata m' x = edata m x) \<Longrightarrow> contents m' xs = contents m xs"
  unfolding contents_def by (rule arg_cong [where f = map_of]) simp

lemma contents_append [simp]: "contents m (xs @ ys) = contents m ys ++ contents m xs"
  by (simp add: contents_def)

lemma contents_Cons [simp]: "contents m (x # xs) = (contents m xs)(fkey m x \<mapsto> edata m x)"
  by (simp add: contents_def)

lemma sqlite3HashInit_rel: "hash_rel (sqlite3HashInit, Map.empty) Map.empty"
  unfolding hash_rel_def
  by (rule exI [of _ "[]"]) (simp add: hash_list_def sqlite3HashInit_def buckets_ok_def contents_def)

lemma removeElementGivenHash_ok:
  assumes ok: "hash_list pH m xs" and x: "x \<in> set xs" "m x = Some e"
    and h: "ht pH \<noteq> None \<Longrightarrow> h = bidx (htsize pH) m x"
  shows "\<exists>pH' m'. removeElementGivenHash pH m x h = Some (pH', m') \<and> hash_rel (pH', m') ((contents m xs)(fkey m x := None))"
proof -
  obtain A B where xs: "xs = A @ x # B" using x(1) by (meson split_list)
  obtain pH' m' where run: "removeElementGivenHash pH m x h = (if hcount pH' = 0 then sqlite3HashClear pH' m' else Some (pH', m'))"
    and m': "dll m' 0 (A @ B) 0" "m' x = None" "\<And>y. y \<noteq> x \<Longrightarrow> payload m' y = payload m y"
    and pH': "first pH' = hdd (A @ B) 0" "hcount pH' = hcount pH - 1" "buckets_ok pH' m (A @ B)"
    using remove_run [of m A x B pH e h] ok x(2) h by (auto simp: hash_list_def xs)
  have notx: "y \<noteq> x" if "y \<in> set (A @ B)" for y using that ok by (auto simp: hash_list_def xs)
  have same: "fkey m' y = fkey m y" "edata m' y = edata m y" "bidx n m' y = bidx n m y" if "y \<in> set (A @ B)" for y n
    using fkey_payload [OF m'(3) [OF notx [OF that]]] bidx_payload [OF m'(3) [OF notx [OF that]]] by simp_all
  have dom: "dom m' = set (A @ B)"
  proof -
    have "y \<in> dom m' \<longleftrightarrow> y \<in> dom m - {x}" for y
      using m'(2) m'(3) [of y] payload_None [of m' y] payload_None [of m y] by (cases "y = x") (simp_all add: domIff)
    then have "dom m' = dom m - {x}" by blast
    then show ?thesis using ok by (auto simp: hash_list_def xs)
  qed
  have cnt: "hcount pH' = of_nat (length (A @ B))" using ok pH'(2) by (simp add: hash_list_def xs)
  have keys: "map (fkey m') (A @ B) = map (fkey m) (A @ B)" using same(1) by (intro map_cong) auto
  have con: "contents m' (A @ B) = (contents m xs)(fkey m x := None)"
  proof -
    have "contents m A (fkey m x) = None" "contents m B (fkey m x) = None"
      using ok by (auto simp: hash_list_def xs intro!: contents_NoneI)
    then have "contents m (A @ B) = (contents m xs)(fkey m x := None)"
      by (auto simp: xs fun_eq_iff map_add_def split: option.split)
    then show ?thesis using contents_cong [of "A @ B" m' m] same by simp
  qed
  have list: "hash_list pH' m' (A @ B)"
    unfolding hash_list_def keys
    using m'(1) pH'(1,3) dom cnt ok same buckets_ok_cong [of "A @ B" pH' m' m] by (auto simp: hash_list_def xs)
  show ?thesis
  proof (cases "A @ B = []")
    case True
    then have "removeElementGivenHash pH m x h = Some (sqlite3HashInit, Map.empty)"
      using run pH'(1) cnt dom by (simp add: sqlite3HashClear_def clear_loop.simps sqlite3HashInit_def)
    moreover have "(contents m xs)(fkey m x := None) = Map.empty" using con True by (simp add: contents_def)
    ultimately show ?thesis using sqlite3HashInit_rel by simp
  next
    case False
    then have "hcount pH' \<noteq> 0" using hash_list_count [OF list] by auto
    then show ?thesis using run list con by (auto simp: hash_rel_def)
  qed
qed

lemma sqlite3HashFind_ok:
  assumes "hash_rel (pH, m) M"
  shows "sqlite3HashFind pH m pKey = Some (case M (folded pKey) of None \<Rightarrow> 0 | Some d \<Rightarrow> d)"
proof -
  obtain xs where xs: "hash_list pH m xs" "M = contents m xs" using assms by (auto simp: hash_rel_def)
  obtain h where h: "findElementWithHash pH m pKey = Some (found m pKey xs, h)"
    using findElementWithHash_ok [of m xs pH pKey] xs(1) by (auto simp: hash_list_def)
  show ?thesis using xs(1) by (cases rule: found_cases [where k = pKey]) (auto simp: sqlite3HashFind_def h xs(2))
qed

text \<open>Replacing key and data of an element in place.\<close>

lemma dll_cong_links:
  assumes "\<And>x. x \<in> set xs \<Longrightarrow> map_option (\<lambda>e. (hnext e, hprev e)) (m' x) = map_option (\<lambda>e. (hnext e, hprev e)) (m x)"
  shows "dll m pv xs nx \<Longrightarrow> dll m' pv xs nx"
  using assms by (induction xs arbitrary: pv) fastforce+

lemma replace_ok:
  assumes ok: "hash_list pH m xs" and x: "x \<in> set xs" "m x = Some e" "fkey m x = folded pKey" and "data \<noteq> 0"
  shows "hash_rel (pH, m(x \<mapsto> e\<lparr>hdata := data, hkey := pKey\<rparr>)) ((contents m xs)(folded pKey \<mapsto> data))"
proof -
  define m' where "m' = m(x \<mapsto> e\<lparr>hdata := data, hkey := pKey\<rparr>)"
  have keys: "fkey m' = fkey m" using x by (auto simp: m'_def fkey_def fun_eq_iff)
  have data: "edata m' = (edata m)(x := data)" by (auto simp: m'_def edata_def fun_eq_iff)
  have "folded (hkey e) = folded pKey" using x by (simp add: fkey_def)
  then have idx: "bidx n m' y = bidx n m y" for n y
    using x(2) strHash_folded [of "hkey e" pKey] by (auto simp: m'_def bidx_def)
  have "dll m' 0 xs 0"
    by (rule dll_cong_links [of xs m' m]) (use ok x(2) in \<open>auto simp: m'_def hash_list_def\<close>)
  moreover have "dom m' = set xs" using ok x(1) by (auto simp: m'_def hash_list_def)
  ultimately have "hash_list pH m' xs"
    using ok \<open>data \<noteq> 0\<close> buckets_ok_cong [of xs pH m' m] idx by (auto simp: hash_list_def keys data)
  moreover obtain A B where xs: "xs = A @ x # B" using x(1) by (meson split_list)
  have none: "contents m A (fkey m x) = None" "contents m B (fkey m x) = None" and notx: "x \<notin> set A" "x \<notin> set B"
    using ok by (auto simp: hash_list_def xs intro!: contents_NoneI)
  have "contents m' A = contents m A" "contents m' B = contents m B"
    using notx by (auto simp: keys data intro!: contents_cong)
  with none have "contents m' xs = (contents m xs)(folded pKey \<mapsto> data)"
    by (auto simp: xs keys data x(3) fun_eq_iff map_add_def split: option.split)
  ultimately show ?thesis unfolding m'_def hash_rel_def by auto
qed

text \<open>Adding an element, once the table has been resized or left as it is.\<close>

lemma inserted_rel:
  assumes ins: "inserted pH m xs new pH' m' xs'" and dom: "dom m = insert new (set xs)" "new \<notin> set xs" "distinct xs"
    and keys: "distinct (map (fkey m) xs)" "\<forall>x\<in>set xs. fkey m x \<noteq> fkey m new"
    and data: "\<forall>x\<in>set xs. edata m x \<noteq> 0" "edata m new \<noteq> 0"
    and cnt: "hcount pH = of_nat (Suc (length xs))" "Suc (length xs) < 2 ^ 28"
  shows "hash_rel (pH', m') ((contents m xs)(fkey m new \<mapsto> edata m new))"
proof -
  obtain A B where xs: "xs = A @ B" "xs' = A @ new # B" using ins by (auto simp: inserted_def)
  have pay: "payload m' = payload m" using ins by (auto simp: inserted_def linked_def)
  have same: "fkey m' = fkey m" "edata m' = edata m"
    using fkey_payload [of m' _ m] pay by (auto simp: fun_eq_iff)
  have "dom m' = dom m" using payload_None [of m'] payload_None [of m] pay by (auto simp: dom_def)
  moreover have "first pH' = hdd xs' 0" "dll m' 0 xs' 0" "hcount pH' = hcount pH" "buckets_ok pH' m' xs'"
    using ins by (auto simp: inserted_def linked_def)
  ultimately have "hash_list pH' m' xs'"
    using dom keys data cnt by (auto simp: hash_list_def same xs)
  moreover have "contents m A (fkey m new) = None" "contents m B (fkey m new) = None"
    using keys(2) by (auto simp: xs contents_None)
  then have "contents m' xs' = (contents m xs)(fkey m new \<mapsto> edata m new)"
    using contents_cong [of xs' m' m] by (auto simp: same xs fun_eq_iff map_add_def split: option.split)
  ultimately show ?thesis by (auto simp: hash_rel_def)
qed

lemma grow_ok:
  assumes "dll m 0 xs 0" "first pH = hdd xs 0" "distinct xs" "length xs < 2 ^ 28" "buckets_ok pH m xs"
    and "malloc_size_ok tm" "hcount pH = of_nat (Suc (length xs))" "Suc (length xs) < 2 ^ 28"
    and h: "ht pH \<noteq> None \<Longrightarrow> h = unat (strHash pKey mod htsize pH)"
  shows "\<exists>h' pH' m' xs'.
     grow_step tm pKey h pH m = Some (h', pH', m') \<and>
     (ht pH' \<noteq> None \<longrightarrow> h' = unat (strHash pKey mod htsize pH')) \<and>
     mset xs' = mset xs \<and> linked m m' xs' \<and> first pH' = hdd xs' 0 \<and> hcount pH' = hcount pH \<and> buckets_ok pH' m' xs'"
proof (cases "hcount pH \<ge> 10 \<and> hcount pH > 2 * htsize pH")
  case True
  have "unat (hcount pH) = Suc (length xs)" using assms(7,8) by (simp only: unat_of_nat) simp
  then have "unat (hcount pH * 2) = 2 * Suc (length xs)" using assms(8) by (simp add: unat_word_ariths)
  then have "hcount pH * 2 \<noteq> 0" "unat (hcount pH * 2) < 2 ^ 29" using assms(8) by auto
  from rehash_ok [OF assms(1-6) this] obtain resized pH' m' xs' where
    re: "rehash tm pH m (hcount pH * 2) = Some (resized, pH', m')"
    and r: "if resized then ht pH' \<noteq> None \<and> htsize pH' \<noteq> 0 else pH' = pH"
    and rest: "mset xs' = mset xs" "linked m m' xs'" "first pH' = hdd xs' 0" "hcount pH' = hcount pH" "buckets_ok pH' m' xs'"
    by blast
  show ?thesis
    using re r rest h True by (cases resized) (auto simp: grow_step_def)
next
  case False
  then have lin: "linked m m xs" using assms(1) by (simp add: linked_def)
  show ?thesis
    unfolding grow_step_def if_not_P [OF False] using lin assms(2,5) h
    by (intro exI [of _ h] exI [of _ pH] exI [of _ m] exI [of _ xs]) simp
qed

text \<open>What the allocator guarantees: a fresh address for an element, and at least the requested size.\<close>

definition fresh_alloc :: "(nat \<times> HashElem) option \<Rightarrow> (u32 \<Rightarrow> u32 option) \<Rightarrow> Hash \<times> elems \<Rightarrow> bool" where
  "fresh_alloc new tm s \<longleftrightarrow> malloc_size_ok tm \<and> unat (hcount (fst s)) + 1 < 2 ^ 28 \<and>
     (case new of None \<Rightarrow> False | Some (a, e) \<Rightarrow> a \<noteq> 0 \<and> a \<notin> dom (snd s))"

lemma add_ok:
  assumes ok: "hash_list pH m xs" and absent: "\<forall>x\<in>set xs. fkey m x \<noteq> folded pKey" "found m pKey xs = 0"
    and alloc: "fresh_alloc (Some (a, e)) tm (pH, m)" and "data \<noteq> 0"
  shows "\<exists>pH' m'. sqlite3HashInsert (Some (a, e)) tm pH m pKey data = Some (0, pH', m') \<and>
     hash_rel (pH', m') ((contents m xs)(folded pKey \<mapsto> data))"
proof -
  define m1 where "m1 = m(a \<mapsto> e\<lparr>hkey := pKey, hdata := data\<rparr>)"
  define pH1 where "pH1 = pH\<lparr>hcount := hcount pH + 1\<rparr>"
  have a: "a \<noteq> 0" "a \<notin> set xs" "malloc_size_ok tm" using alloc ok by (auto simp: fresh_alloc_def hash_list_def)
  have cnt: "hcount pH = of_nat (length xs)" "Suc (length xs) < 2 ^ 28" "length xs < 2 ^ 28"
    using alloc ok by (auto simp: fresh_alloc_def hash_list_def unat_of_nat)
  have cnt1: "hcount pH1 = of_nat (Suc (length xs))" using cnt(1) by (simp add: pH1_def)
  have same: "fkey m1 x = fkey m x" "edata m1 x = edata m x" "bidx n m1 x = bidx n m x" if "x \<in> set xs" for x n
    using that a(2) by (auto simp: m1_def fkey_def edata_def bidx_def)
  have new: "fkey m1 a = folded pKey" "edata m1 a = data" "bidx n m1 a = unat (strHash pKey mod n)" for n
    by (simp_all add: m1_def fkey_def edata_def bidx_def)
  have dll1: "dll m1 0 xs 0" "first pH1 = hdd xs 0" "distinct xs" "buckets_ok pH1 m1 xs"
    using ok a(2) buckets_ok_cong [of xs pH1 m1 m] same(3)
    by (auto simp: hash_list_def m1_def pH1_def buckets_ok_def split: option.splits)
  obtain h where find: "findElementWithHash pH m pKey = Some (0, h)" "ht pH \<noteq> None \<longrightarrow> h = unat (strHash pKey mod htsize pH)"
    using findElementWithHash_ok [of m xs pH pKey] ok absent(2) by (auto simp: hash_list_def)
  have h1: "ht pH1 \<noteq> None \<Longrightarrow> h = unat (strHash pKey mod htsize pH1)" using find(2) by (auto simp: pH1_def)
  obtain h2 pH2 m2 xs2 where grow: "grow_step tm pKey h pH1 m1 = Some (h2, pH2, m2)"
    and h2: "ht pH2 \<noteq> None \<Longrightarrow> h2 = unat (strHash pKey mod htsize pH2)"
    and r: "mset xs2 = mset xs" "linked m1 m2 xs2" "first pH2 = hdd xs2 0" "hcount pH2 = hcount pH1" "buckets_ok pH2 m2 xs2"
    using grow_ok [OF dll1(1,2,3) cnt(3) dll1(4) a(3) cnt1 cnt(2) h1] by blast
  have sets: "set xs2 = set xs" "distinct xs2" "length xs2 = length xs"
    using r(1) dll1(3) by (metis set_mset_mset) (metis r(1) dll1(3) mset_eq_imp_distinct_iff, metis r(1) mset_eq_length)
  have m2: "m2 a = m1 a" "payload m2 = payload m1" using r(2) a(2) sets(1) by (auto simp: linked_def)
  have m2': "fkey m2 x = fkey m1 x" "edata m2 x = edata m1 x" "bidx n m2 x = bidx n m1 x" for x n
    using fkey_payload [of m2 x m1] bidx_payload [of m2 x m1] m2(2) by simp_all
  obtain pH3 m3 xs3 where ins: "insertElement pH2 m2 (if ht pH2 \<noteq> None then Some h2 else None) a = Some (pH3, m3)"
    "inserted pH2 m2 xs2 a pH3 m3 xs3"
    using insertElement_ok [of pH2 m2 xs2 a "e\<lparr>hkey := pKey, hdata := data\<rparr>" h2] r a sets m2(1) h2 cnt(3) m2'(3) new(3)
    by (auto simp: linked_def m1_def)
  have run: "sqlite3HashInsert (Some (a, e)) tm pH m pKey data = Some (0, pH3, m3)"
    using find(1) \<open>data \<noteq> 0\<close> grow ins(1)
    by (simp add: sqlite3HashInsert_def m1_def [symmetric] pH1_def [symmetric] Let_def)
  have "dom m2 = dom m1"
    using payload_None [of m2] payload_None [of m1] m2(2) by (auto simp: dom_def)
  then have "dom m2 = insert a (set xs2)" using ok by (auto simp: m1_def sets hash_list_def)
  moreover have keys2: "map (fkey m2) xs = map (fkey m) xs" using m2'(1) same(1) by simp
  then have "distinct (map (fkey m2) xs2)"
    using ok r(1) by (metis hash_list_def mset_eq_imp_distinct_iff mset_map)
  ultimately have "hash_rel (pH3, m3) ((contents m2 xs2)(fkey m2 a \<mapsto> edata m2 a))"
    using ins(2) sets a(2) r(4) cnt1 cnt(2) ok absent(1) \<open>data \<noteq> 0\<close>
    by (intro inserted_rel [of pH2 m2 xs2]) (auto simp: m2' same new hash_list_def)
  moreover have "contents m2 xs2 = contents m2 xs"
    by (rule contents_perm [OF r(1)], unfold keys2) (use ok in \<open>simp add: hash_list_def\<close>)
  moreover have "contents m2 xs = contents m xs" by (rule contents_cong) (simp add: m2' same)
  ultimately show ?thesis using run by (simp add: m2' new)
qed

lemma sqlite3HashInsert_ok:
  assumes "hash_rel (pH, m) M" "fresh_alloc new tm (pH, m)"
  shows "\<exists>pH' m'. sqlite3HashInsert new tm pH m pKey data =
       Some (case M (folded pKey) of None \<Rightarrow> 0 | Some d \<Rightarrow> d, pH', m') \<and>
     hash_rel (pH', m') (M(folded pKey := (if data = 0 then None else Some data)))"
proof -
  obtain xs where ok: "hash_list pH m xs" and M: "M = contents m xs" using assms(1) by (auto simp: hash_rel_def)
  obtain h where find: "findElementWithHash pH m pKey = Some (found m pKey xs, h)"
    "ht pH \<noteq> None \<longrightarrow> h = unat (strHash pKey mod htsize pH)"
    using findElementWithHash_ok [of m xs pH pKey] ok by (auto simp: hash_list_def)
  from ok show ?thesis
  proof (cases rule: found_cases [where k = pKey])
    case absent
    show ?thesis
    proof (cases "data = 0")
      case True
      have "M(folded pKey := None) = M" using absent(3) by (auto simp: M)
      with True absent find assms(1) show ?thesis by (simp add: sqlite3HashInsert_def M)
    next
      case False
      obtain a e where "new = Some (a, e)" using assms(2) by (auto simp: fresh_alloc_def split: option.splits)
      with add_ok [OF ok absent(2,1) _ False] assms(2) absent(3) False show ?thesis by (simp add: M)
    qed
  next
    case (present x e)
    show ?thesis
    proof (cases "data = 0")
      case True
      have "ht pH \<noteq> None \<Longrightarrow> h = bidx (htsize pH) m x"
        using find(2) present(4,5) strHash_folded [of "hkey e" pKey] by (simp add: bidx_def fkey_def)
      from removeElementGivenHash_ok [OF ok present(3,4) this] True present find(1) show ?thesis
        by (auto simp: sqlite3HashInsert_def M)
    next
      case False
      with replace_ok [OF ok present(3,4,5) False] present find(1) show ?thesis
        by (simp add: sqlite3HashInsert_def upd_elem_def M)
    qed
  qed
qed

lemma sqlite3HashInsert_oom:
  assumes "hash_rel (pH, m) M" "M (folded pKey) = None" "data \<noteq> 0"
  shows "sqlite3HashInsert None tm pH m pKey data = Some (data, pH, m)"
proof -
  obtain xs where ok: "hash_list pH m xs" and M: "M = contents m xs" using assms(1) by (auto simp: hash_rel_def)
  obtain h where find: "findElementWithHash pH m pKey = Some (found m pKey xs, h)"
    using findElementWithHash_ok [of m xs pH pKey] ok by (auto simp: hash_list_def)
  from ok show ?thesis
    by (cases rule: found_cases [where k = pKey]) (use assms(2,3) M find in \<open>simp_all add: sqlite3HashInsert_def\<close>)
qed

lemma clear_loop_ok: "nexts m xs \<Longrightarrow> distinct xs \<Longrightarrow> clear_loop m (hdd xs 0) = Some (m |` (- set xs))"
proof (induction xs arbitrary: m)
  case Nil
  then show ?case by (simp add: clear_loop.simps)
next
  case (Cons x xs)
  then obtain e where e: "x \<noteq> 0" "m x = Some e" "hnext e = hdd xs 0" by auto
  have "nexts (m(x := None)) xs = nexts m xs" using Cons.prems(2) by (intro nexts_frame) auto
  then have nx: "nexts (m(x := None)) xs" using Cons.prems(1) by simp
  have "clear_loop (m(x := None)) (hdd xs 0) = Some (m(x := None) |` (- set xs))"
    by (rule Cons.IH [OF nx]) (use Cons.prems(2) in simp)
  moreover have "m(x := None) |` (- set xs) = m |` (- set (x # xs))" by (auto simp: restrict_map_def fun_eq_iff)
  ultimately show ?case using e by (subst clear_loop.simps) simp
qed

lemma sqlite3HashClear_ok:
  assumes "hash_rel (pH, m) M"
  shows "sqlite3HashClear pH m = Some (sqlite3HashInit, Map.empty)"
proof -
  obtain xs where ok: "hash_list pH m xs" using assms by (auto simp: hash_rel_def)
  have "m |` (- set xs) = Map.empty" using ok by (auto simp: hash_list_def restrict_map_def fun_eq_iff)
  with ok clear_loop_ok [OF dll_nexts, of m 0 xs] show ?thesis
    by (simp add: sqlite3HashClear_def hash_list_def sqlite3HashInit_def)
qed

section \<open>The interface of a dictionary\<close>

text \<open>
  A dictionary with allocation: insertion under a key that is normalised, the value 0 meaning removal; an insertion is
  promised to work when the outcome \<open>a\<close> of its allocations is good.
\<close>

definition value_at :: "('k \<rightharpoonup> nat) \<Rightarrow> 'k \<Rightarrow> nat" where
  "value_at M k = (case M k of None \<Rightarrow> 0 | Some d \<Rightarrow> d)"

lemma value_at_simps [simp]:
  "value_at Map.empty k = 0"
  "value_at (M(j := (if d = 0 then None else Some d))) k = (if j = k then d else value_at M k)"
  by (simp_all add: value_at_def)

locale dictionary =
  fixes rel :: "'s \<Rightarrow> ('k \<rightharpoonup> nat) \<Rightarrow> bool" and empty :: 's
    and look :: "'s \<Rightarrow> 'n \<Rightarrow> nat option"
    and ins :: "'a \<Rightarrow> 's \<Rightarrow> 'n \<Rightarrow> nat \<Rightarrow> (nat \<times> 's) option"
    and norm :: "'n \<Rightarrow> 'k" and good :: "'a \<Rightarrow> 's \<Rightarrow> bool"
  assumes rel_empty: "rel empty Map.empty"
    and look_rel: "rel s M \<Longrightarrow> look s n = Some (value_at M (norm n))"
    and ins_rel: "rel s M \<Longrightarrow> good a s \<Longrightarrow>
      \<exists>s'. ins a s n d = Some (value_at M (norm n), s') \<and>
        rel s' (M(norm n := (if d = 0 then None else Some d)))"

text \<open>A sequence of insertions, which ends early where an allocation is not good.\<close>

fun history :: "('a \<Rightarrow> 's \<Rightarrow> 'n \<Rightarrow> nat \<Rightarrow> (nat \<times> 's) option) \<Rightarrow> ('a \<Rightarrow> 's \<Rightarrow> bool) \<Rightarrow> 's \<Rightarrow> ('a \<times> 'n \<times> nat) list \<Rightarrow>
    ('a \<times> 's) + 's option" where
  "history ins good s [] = Inr (Some s)"
| "history ins good s ((a, n, d) # ops) =
     (if \<not> good a s then Inl (a, s)
      else case ins a s n d of None \<Rightarrow> Inr None | Some (r, s') \<Rightarrow> history ins good s' ops)"

text \<open>The value written last under a key, or the value before.\<close>

fun last_write :: "('n \<Rightarrow> 'k) \<Rightarrow> ('a \<times> 'n \<times> nat) list \<Rightarrow> 'k \<Rightarrow> nat \<Rightarrow> nat" where
  "last_write norm [] k v = v"
| "last_write norm ((a, n, d) # ops) k v = last_write norm ops k (if norm n = k then d else v)"

context dictionary
begin

lemma history_rel:
  assumes "rel s M"
  shows "case history ins good s ops of
      Inl (a, s') \<Rightarrow> \<not> good a s'
    | Inr None \<Rightarrow> False
    | Inr (Some s') \<Rightarrow> (\<exists>M'. rel s' M' \<and>
        (\<forall>k. (value_at M' k) = last_write norm ops k (value_at M k)))"
  using assms
proof (induction ops arbitrary: s M)
  case Nil
  then show ?case by auto
next
  case (Cons op ops)
  obtain a n d where op: "op = (a, n, d)" by (cases op)
  show ?case
  proof (cases "good a s")
    case True
    define M1 where "M1 = M(norm n := (if d = 0 then None else Some d))"
    obtain s1 where s1: "ins a s n d = Some (value_at M (norm n), s1)" "rel s1 M1"
      using ins_rel [OF Cons.prems True] unfolding M1_def by blast
    have "(value_at M1 k) = (if norm n = k then d else value_at M k)" for k
      unfolding M1_def by (rule value_at_simps)
    with Cons.IH [OF s1(2)] s1(1) True show ?thesis unfolding op
      by (auto split: sum.splits option.splits)
  qed (simp add: op)
qed

lemma history_look:
  "case history ins good empty ops of
      Inl (a, s') \<Rightarrow> \<not> good a s'
    | Inr None \<Rightarrow> False
    | Inr (Some s') \<Rightarrow> (\<forall>n. look s' n = Some (last_write norm ops (norm n) 0))"
  using history_rel [OF rel_empty, of ops] look_rel by (auto split: sum.splits option.splits prod.splits)

end

definition insert_op ::
  "(nat \<times> HashElem) option \<times> (u32 \<Rightarrow> u32 option) \<Rightarrow> Hash \<times> elems \<Rightarrow> u8 list \<Rightarrow> nat \<Rightarrow> (nat \<times> Hash \<times> elems) option" where
  "insert_op al s pKey data = sqlite3HashInsert (fst al) (snd al) (fst s) (snd s) pKey data"

definition alloc_good :: "(nat \<times> HashElem) option \<times> (u32 \<Rightarrow> u32 option) \<Rightarrow> Hash \<times> elems \<Rightarrow> bool" where
  "alloc_good al s = fresh_alloc (fst al) (snd al) s"

interpretation hash: dictionary hash_rel "(sqlite3HashInit, Map.empty)" "\<lambda>s. sqlite3HashFind (fst s) (snd s)"
  insert_op folded alloc_good
proof unfold_locales
  show "hash_rel (sqlite3HashInit, Map.empty) Map.empty" by (rule sqlite3HashInit_rel)
  show "sqlite3HashFind (fst s) (snd s) n = Some (value_at M (folded n))" if "hash_rel s M" for s M n
    using sqlite3HashFind_ok [of "fst s" "snd s" M n] that by (simp add: value_at_def)
  show "\<exists>s'. insert_op a s n d = Some (value_at M (folded n), s') \<and>
      hash_rel s' (M(folded n := (if d = 0 then None else Some d)))"
    if "hash_rel s M" "alloc_good a s" for s M a n d
    using sqlite3HashInsert_ok [of "fst s" "snd s" M "fst a" "snd a" n d] that
    by (auto simp: insert_op_def alloc_good_def value_at_def)
qed

section \<open>Properties\<close>

text \<open>C17: The hash table is a map on case-folded keys. On a table that represents a map, a lookup returns the value of
  the key or NULL; an insertion whose allocations succeed returns the previous value and represents the updated
  map, or the map without the key when the data is NULL; an insertion of a new key that cannot be allocated returns the
  data and changes nothing; and clearing frees every element. No step accesses memory outside the table's elements.\<close>

theorem hash_refines_map:
  assumes "hash_rel (pH, m) M"
  shows "sqlite3HashFind pH m pKey = Some (value_at M (folded pKey)) \<and>
    (fresh_alloc new tm (pH, m) \<longrightarrow>
      (\<exists>pH' m'. sqlite3HashInsert new tm pH m pKey data = Some (value_at M (folded pKey), pH', m') \<and>
        hash_rel (pH', m') (M(folded pKey := (if data = 0 then None else Some data))))) \<and>
    (M (folded pKey) = None \<and> data \<noteq> 0 \<longrightarrow> sqlite3HashInsert None tm pH m pKey data = Some (data, pH, m)) \<and>
    sqlite3HashClear pH m = Some (sqlite3HashInit, Map.empty)"
  using sqlite3HashFind_ok [OF assms, of pKey] sqlite3HashInsert_ok [OF assms, of new tm pKey data]
    sqlite3HashInsert_oom [OF assms] sqlite3HashClear_ok [OF assms]
  by (simp add: value_at_def)

theorem hash_refines_map_witness:
  "\<exists>pH' m'. sqlite3HashInsert (Some (1, \<lparr>hnext = 7, hprev = 7, hdata = 0, hkey = []\<rparr>)) (\<lambda>n. Some n)
      sqlite3HashInit Map.empty [65, 0] 5 = Some (0, pH', m') \<and> hash_rel (pH', m') [[97] \<mapsto> 5] \<and>
    sqlite3HashInsert None (\<lambda>n. Some n) sqlite3HashInit Map.empty [65, 0] 5 = Some (5, sqlite3HashInit, Map.empty)"
proof -
  have "fresh_alloc (Some (1, \<lparr>hnext = 7, hprev = 7, hdata = 0, hkey = []\<rparr>)) (\<lambda>n. Some n) (sqlite3HashInit, Map.empty)"
    by (simp add: fresh_alloc_def malloc_size_ok_def sqlite3HashInit_def)
  moreover have "folded [65, 0] = [97]" by (simp add: UpperToLower_eq)
  ultimately show ?thesis
    using hash_refines_map [OF sqlite3HashInit_rel,
        where new = "Some (1, \<lparr>hnext = 7, hprev = 7, hdata = 0, hkey = []\<rparr>)" and tm = "\<lambda>n. Some n"
          and pKey = "[65, 0]" and data = 5]
    by (simp add: value_at_def)
qed

text \<open>After any sequence of insertions and removals into an empty table, a lookup returns the data written last under
  a key that is equal up to case, or NULL. A sequence stops early only where an allocation fails.\<close>

theorem hash_table_history:
  "case history insert_op alloc_good (sqlite3HashInit, Map.empty) ops of
      Inl (al, s) \<Rightarrow> \<not> alloc_good al s
    | Inr None \<Rightarrow> False
    | Inr (Some s) \<Rightarrow> (\<forall>pKey. sqlite3HashFind (fst s) (snd s) pKey = Some (last_write folded ops (folded pKey) 0))"
  by (rule hash.history_look)

end
