(* ===== verification/Rowset.thy ===== *)
theory Rowset
  imports Prelude "HOL-Library.Tree" "HOL-Library.Monad_Syntax"
begin

text \<open>
  The set of rowids of \<^verbatim>\<open>rowset.c\<close>. An entry is on exactly one list or in exactly one tree, so
  that a list linked by \<open>pRight\<close> is the list of its values and a tree is a binary tree of them, NULL
  being the empty list or tree; \<open>pLast\<close> is the last entry of the list \<open>pEntry\<close>, by its value.
  The forest is the list of its trees. Rowids are only compared and are integers here. Entries are allocated in chunks,
  of which the number is kept; the outcome of an allocation is an argument.

  The results of the sort and of the conversion to a tree are optional: \<open>None\<close> stands for an index
  behind the end of \<open>aBucket\<close> and for a loop or recursion that does not end.
\<close>

section \<open>State\<close>

record RowSet =
  nChunk :: nat
  pEntry :: "int list"
  pLast :: "int option"
  pForest :: "int tree list"
  nFresh :: u16
  rsFlags :: u16
  iBatch :: int

abbreviation (input) ROWSET_SORTED :: u16 where "ROWSET_SORTED \<equiv> 0x01"
abbreviation (input) ROWSET_NEXT :: u16 where "ROWSET_NEXT \<equiv> 0x02"

text \<open>A \<open>RowSet\<close> has 32 bytes on the target, an entry 16 and a chunk 63 entries.\<close>

definition ROWSET_ENTRY_PER_CHUNK :: u16 where
  "ROWSET_ENTRY_PER_CHUNK = (1024 - 8) div 16"

definition sqlite3RowSetInit :: "u32 \<Rightarrow> RowSet" where
  "sqlite3RowSetInit N =
     \<lparr>nChunk = 0, pEntry = [], pLast = None, pForest = [], nFresh = ucast ((N - 32) div 16),
      rsFlags = ROWSET_SORTED, iBatch = 0\<rparr>"

definition sqlite3RowSetClear :: "RowSet \<Rightarrow> RowSet" where
  "sqlite3RowSetClear p =
     p\<lparr>nChunk := 0, nFresh := 0, pEntry := [], pLast := None, pForest := [], rsFlags := ROWSET_SORTED\<rparr>"

definition rowSetEntryAlloc :: "bool \<Rightarrow> RowSet \<Rightarrow> bool \<times> RowSet" where
  "rowSetEntryAlloc mallocOk p =
     (if nFresh p = 0 then
        if \<not> mallocOk then (False, p)
        else (True, p\<lparr>nChunk := nChunk p + 1, nFresh := ROWSET_ENTRY_PER_CHUNK - 1\<rparr>)
      else (True, p\<lparr>nFresh := nFresh p - 1\<rparr>))"

definition sqlite3RowSetInsert :: "bool \<Rightarrow> RowSet \<Rightarrow> int \<Rightarrow> RowSet" where
  "sqlite3RowSetInsert mallocOk p rowid =
     (let (ok, p) = rowSetEntryAlloc mallocOk p in
      if \<not> ok then p
      else
        (let p = (case pLast p of
                    Some v \<Rightarrow>
                      (let p = (if rsFlags p AND ROWSET_SORTED \<noteq> 0 \<and> rowid \<le> v
                                then p\<lparr>rsFlags := rsFlags p AND NOT ROWSET_SORTED\<rparr> else p)
                       in p\<lparr>pEntry := pEntry p @ [rowid]\<rparr>)
                  | None \<Rightarrow> p\<lparr>pEntry := [rowid]\<rparr>)
         in p\<lparr>pLast := Some rowid\<rparr>))"

section \<open>Sorting\<close>

fun rowSetEntryMerge :: "int list \<Rightarrow> int list \<Rightarrow> int list" where
  "rowSetEntryMerge [] pB = pB"
| "rowSetEntryMerge pA [] = pA"
| "rowSetEntryMerge (a # pA) (b # pB) =
     (if a < b then a # rowSetEntryMerge pA (b # pB)
      else if b < a then b # rowSetEntryMerge (a # pA) pB
      else rowSetEntryMerge pA (b # pB))"

text \<open>The inner loop of \<open>rowSetEntrySort\<close>, on the buckets from \<open>aBucket[i]\<close> on.\<close>

fun bucket_loop :: "int list list \<Rightarrow> int list \<Rightarrow> int list list option" where
  "bucket_loop [] pIn = None"
| "bucket_loop (b # bs) pIn =
     (if b \<noteq> [] then map_option ((#) []) (bucket_loop bs (rowSetEntryMerge b pIn)) else Some (pIn # bs))"

fun sort_loop :: "int list list \<Rightarrow> int list \<Rightarrow> int list list option" where
  "sort_loop aBucket [] = Some aBucket"
| "sort_loop aBucket (v # pNext) = do { aBucket \<leftarrow> bucket_loop aBucket [v]; sort_loop aBucket pNext }"

definition rowSetEntrySort :: "int list \<Rightarrow> int list option" where
  "rowSetEntrySort pIn = do {
     aBucket \<leftarrow> sort_loop (replicate 40 []) pIn;
     Some (foldl rowSetEntryMerge [] aBucket) }"

section \<open>Trees\<close>

fun rowSetTreeToList :: "int tree \<Rightarrow> int list" where
  "rowSetTreeToList Leaf = []"
| "rowSetTreeToList (Node l v r) =
     (if l \<noteq> Leaf then rowSetTreeToList l @ [v] else [v]) @ (if r \<noteq> Leaf then rowSetTreeToList r else [])"

fun rowSetNDeepTree :: "int list \<Rightarrow> nat \<Rightarrow> (int tree \<times> int list) option" where
  "rowSetNDeepTree [] iDepth = Some (Leaf, [])"
| "rowSetNDeepTree (v # vs) 0 = None"
| "rowSetNDeepTree (v # vs) (Suc iDepth) =
     (if iDepth = 0 then Some (Node Leaf v Leaf, vs)
      else do {
        (l, ls) \<leftarrow> rowSetNDeepTree (v # vs) iDepth;
        (case ls of
           [] \<Rightarrow> Some (l, [])
         | w # ws \<Rightarrow> do {
             (r, rest) \<leftarrow> rowSetNDeepTree ws iDepth;
             Some (Node l w r, rest) }) })"

partial_function (option) tree_loop :: "nat \<Rightarrow> int tree \<Rightarrow> int list \<Rightarrow> int tree option" where
  "tree_loop iDepth p pList =
     (case pList of
        [] \<Rightarrow> Some p
      | v # vs \<Rightarrow> do {
          rs \<leftarrow> rowSetNDeepTree vs iDepth;
          tree_loop (iDepth + 1) (Node p v (fst rs)) (snd rs) })"

definition rowSetListToTree :: "int list \<Rightarrow> int tree option" where
  "rowSetListToTree pList =
     (case pList of [] \<Rightarrow> None | v # vs \<Rightarrow> tree_loop 1 (Node Leaf v Leaf) vs)"

section \<open>Extraction and tests\<close>

definition rowSetToList :: "RowSet \<Rightarrow> RowSet option" where
  "rowSetToList p = do {
     p \<leftarrow> (if rsFlags p AND ROWSET_SORTED = 0 then do {
              l \<leftarrow> rowSetEntrySort (pEntry p);
              Some (p\<lparr>pEntry := l\<rparr>) }
            else Some p);
     Some (p\<lparr>rsFlags := rsFlags p OR ROWSET_NEXT\<rparr>) }"

definition sqlite3RowSetNext :: "RowSet \<Rightarrow> (int option \<times> RowSet) option" where
  "sqlite3RowSetNext p = do {
     p \<leftarrow> (if rsFlags p AND ROWSET_NEXT = 0 then rowSetToList p else Some p);
     (case pEntry p of
        v # vs \<Rightarrow>
          (let p = p\<lparr>pEntry := vs\<rparr>; p = (if vs = [] then sqlite3RowSetClear p else p) in Some (Some v, p))
      | [] \<Rightarrow> Some (None, p)) }"

text \<open>
  The loop that sorts a list into the forest. It gives the list that remains when no tree of the forest was empty.
\<close>

fun forest_loop :: "int list \<Rightarrow> int tree list \<Rightarrow> (int tree list \<times> int list option) option" where
  "forest_loop p [] = Some ([], Some p)"
| "forest_loop p (pTree # ts) =
     (if pTree = Leaf then do {
        t \<leftarrow> rowSetListToTree p;
        Some (t # ts, None) }
      else do {
        (ts, left) \<leftarrow> forest_loop (rowSetEntryMerge (rowSetTreeToList pTree) p) ts;
        Some (Leaf # ts, left) })"

definition batch_step :: "bool \<Rightarrow> RowSet \<Rightarrow> RowSet option" where
  "batch_step mallocOk pRowSet = do {
     l \<leftarrow> (if rsFlags pRowSet AND ROWSET_SORTED = 0 then rowSetEntrySort (pEntry pRowSet) else Some (pEntry pRowSet));
     (ts, left) \<leftarrow> forest_loop l (pForest pRowSet);
     let pRowSet = pRowSet\<lparr>pForest := ts\<rparr>;
     pRowSet \<leftarrow>
       (case left of
          None \<Rightarrow> Some pRowSet
        | Some l \<Rightarrow>
            (let (ok, pRowSet) = rowSetEntryAlloc mallocOk pRowSet in
             if ok then do {
               t \<leftarrow> rowSetListToTree l;
               Some (pRowSet\<lparr>pForest := ts @ [t]\<rparr>) }
             else Some pRowSet));
     Some (pRowSet\<lparr>pEntry := [], pLast := None, rsFlags := rsFlags pRowSet OR ROWSET_SORTED\<rparr>) }"

fun tree_search :: "int tree \<Rightarrow> int \<Rightarrow> bool" where
  "tree_search Leaf iRowid = False"
| "tree_search (Node l v r) iRowid =
     (if v < iRowid then tree_search r iRowid else if v > iRowid then tree_search l iRowid else True)"

fun forest_search :: "int tree list \<Rightarrow> int \<Rightarrow> bool" where
  "forest_search [] iRowid = False"
| "forest_search (t # ts) iRowid = (if tree_search t iRowid then True else forest_search ts iRowid)"

definition sqlite3RowSetTest :: "bool \<Rightarrow> RowSet \<Rightarrow> int \<Rightarrow> int \<Rightarrow> (bool \<times> RowSet) option" where
  "sqlite3RowSetTest mallocOk pRowSet batch iRowid = do {
     pRowSet \<leftarrow>
       (if batch \<noteq> iBatch pRowSet then do {
          pRowSet \<leftarrow> (if pEntry pRowSet \<noteq> [] then batch_step mallocOk pRowSet else Some pRowSet);
          Some (pRowSet\<lparr>iBatch := batch\<rparr>) }
        else Some pRowSet);
     Some (forest_search (pForest pRowSet) iRowid, pRowSet) }"

section \<open>Lemmas: sorting\<close>

abbreviation ascending :: "int list \<Rightarrow> bool" where
  "ascending \<equiv> sorted_wrt (<)"

lemma set_rowSetEntryMerge [simp]: "set (rowSetEntryMerge A B) = set A \<union> set B"
  by (induction A B rule: rowSetEntryMerge.induct) auto

lemma ascending_rowSetEntryMerge: "ascending A \<Longrightarrow> ascending B \<Longrightarrow> ascending (rowSetEntryMerge A B)"
  by (induction A B rule: rowSetEntryMerge.induct) auto

lemma rowSetEntryMerge_Nil [simp]: "rowSetEntryMerge A B = [] \<longleftrightarrow> A = [] \<and> B = []"
  by (metis set_rowSetEntryMerge set_empty Un_empty)

text \<open>The buckets count in binary how many entries they have taken.\<close>

fun taken :: "int list list \<Rightarrow> nat" where
  "taken [] = 0"
| "taken (b # bs) = (if b = [] then 0 else 1) + 2 * taken bs"

definition buckets_sorted :: "int list list \<Rightarrow> bool" where
  "buckets_sorted bs \<longleftrightarrow> (\<forall>b\<in>set bs. ascending b)"

lemma bucket_loop_ok:
  assumes "taken bs + 1 < 2 ^ length bs" "buckets_sorted bs" "ascending p" "p \<noteq> []"
  shows "\<exists>bs'. bucket_loop bs p = Some bs' \<and> taken bs' = taken bs + 1 \<and> length bs' = length bs \<and>
     buckets_sorted bs' \<and> \<Union> (set ` set bs') = set p \<union> \<Union> (set ` set bs)"
  using assms
proof (induction bs arbitrary: p)
  case (Cons b bs)
  show ?case
  proof (cases "b = []")
    case False
    have "taken bs + 1 < 2 ^ length bs" using Cons.prems(1) False by auto
    with Cons.IH [of "rowSetEntryMerge b p"] Cons.prems False ascending_rowSetEntryMerge
    obtain bs' where "bucket_loop bs (rowSetEntryMerge b p) = Some bs'" "taken bs' = taken bs + 1" "length bs' = length bs"
      "buckets_sorted bs'" "\<Union> (set ` set bs') = set b \<union> set p \<union> \<Union> (set ` set bs)"
      by (auto simp: buckets_sorted_def)
    with False show ?thesis by (auto simp: buckets_sorted_def)
  qed (use Cons.prems in \<open>auto simp: buckets_sorted_def\<close>)
qed simp

lemma sort_loop_ok:
  assumes "taken bs + length vs < 2 ^ length bs" "buckets_sorted bs"
  shows "\<exists>bs'. sort_loop bs vs = Some bs' \<and> buckets_sorted bs' \<and> \<Union> (set ` set bs') = set vs \<union> \<Union> (set ` set bs)"
  using assms
proof (induction vs arbitrary: bs)
  case (Cons v vs)
  then obtain bs1 where bs1: "bucket_loop bs [v] = Some bs1" "taken bs1 = taken bs + 1" "length bs1 = length bs"
    "buckets_sorted bs1" "\<Union> (set ` set bs1) = {v} \<union> \<Union> (set ` set bs)"
    using bucket_loop_ok [of bs "[v]"] by auto
  with Cons.IH [of bs1] Cons.prems show ?case by auto
qed simp

lemma foldl_merge:
  "ascending p \<Longrightarrow> buckets_sorted bs \<Longrightarrow>
     ascending (foldl rowSetEntryMerge p bs) \<and> set (foldl rowSetEntryMerge p bs) = set p \<union> \<Union> (set ` set bs)"
  by (induction bs arbitrary: p) (auto simp: buckets_sorted_def ascending_rowSetEntryMerge)

lemma taken_replicate [simp]: "taken (replicate n []) = 0"
  by (induction n) auto

lemma rowSetEntrySort_ok:
  assumes "length xs < 2 ^ 40"
  shows "\<exists>l. rowSetEntrySort xs = Some l \<and> ascending l \<and> set l = set xs"
proof -
  have "buckets_sorted (replicate 40 [])" by (simp add: buckets_sorted_def)
  with assms sort_loop_ok [of "replicate 40 []" xs] obtain bs where
    "sort_loop (replicate 40 []) xs = Some bs" "buckets_sorted bs" "\<Union> (set ` set bs) = set xs" by auto
  with foldl_merge [of "[]" bs] show ?thesis by (simp add: rowSetEntrySort_def)
qed

section \<open>Lemmas: trees\<close>

lemma rowSetTreeToList_inorder [simp]: "rowSetTreeToList t = inorder t"
  by (induction t) auto

lemma rowSetNDeepTree_ok:
  "0 < d \<Longrightarrow> \<exists>t rest. rowSetNDeepTree vs d = Some (t, rest) \<and> inorder t @ rest = vs \<and> size t \<le> 2 ^ d - 1 \<and> height t \<le> d"
proof (induction d arbitrary: vs)
  case (Suc d)
  show ?case
  proof (cases vs)
    case (Cons v vs')
    show ?thesis
    proof (cases "d = 0")
      case False
      then obtain l ls where l: "rowSetNDeepTree vs d = Some (l, ls)" "inorder l @ ls = vs" "size l \<le> 2 ^ d - 1" "height l \<le> d"
        using Suc.IH by blast
      show ?thesis
      proof (cases ls)
        case Nil
        have "size l \<le> 2 ^ Suc d - 1" using l(3) by simp
        with Nil l False show ?thesis by (auto simp: Cons)
      next
        case (Cons w ws)
        obtain r rest where r: "rowSetNDeepTree ws d = Some (r, rest)" "inorder r @ rest = ws" "size r \<le> 2 ^ d - 1" "height r \<le> d"
          using Suc.IH False by blast
        have "rowSetNDeepTree vs (Suc d) = Some (Node l w r, rest)"
          using l(1) r(1) Cons False \<open>vs = v # vs'\<close> by simp
        moreover have "size (Node l w r) \<le> 2 ^ Suc d - 1"
          using l(3) r(3) one_le_power [of "2 :: nat" d] by (simp only: tree.size power_Suc) linarith
        ultimately show ?thesis using l(2,4) r(2,4) Cons by auto
      qed
    qed (auto simp: Cons)
  qed simp
qed simp

lemma tree_loop_ok: "0 < d \<Longrightarrow> \<exists>t. tree_loop d p vs = Some t \<and> inorder t = inorder p @ vs"
proof (induction "length vs" arbitrary: d p vs rule: less_induct)
  case less
  show ?case
  proof (cases vs)
    case Nil
    then show ?thesis by (subst tree_loop.simps) simp
  next
    case (Cons v vs')
    obtain r rest where r: "rowSetNDeepTree vs' d = Some (r, rest)" "inorder r @ rest = vs'"
      using rowSetNDeepTree_ok [OF less.prems] by blast
    then have "length rest < length vs" using Cons by auto
    from less.hyps [OF this, of "d + 1" "Node p v r"]
    obtain t where "tree_loop (d + 1) (Node p v r) rest = Some t" "inorder t = inorder p @ v # inorder r @ rest" by auto
    with r Cons show ?thesis by (subst tree_loop.simps) auto
  qed
qed

lemma rowSetListToTree_ok: "vs \<noteq> [] \<Longrightarrow> \<exists>t. rowSetListToTree vs = Some t \<and> inorder t = vs"
  using tree_loop_ok [of 1 "Node Leaf (hd vs) Leaf" "tl vs"] by (cases vs) (auto simp: rowSetListToTree_def)

lemma bst_of_list: "inorder t = l \<Longrightarrow> ascending l \<Longrightarrow> bst t \<and> set_tree t = set l"
  by (auto simp: bst_iff_sorted_wrt_less)

definition members :: "int tree list \<Rightarrow> int set" where
  "members ts = \<Union> (set_tree ` set ts)"

lemma members_simps [simp]:
  "members [] = {}" "members (t # ts) = set_tree t \<union> members ts" "members (ts @ us) = members ts \<union> members us"
  by (auto simp: members_def)

lemma forest_loop_ok:
  assumes "l \<noteq> []" "ascending l" "\<forall>t\<in>set ts. bst t"
  shows "\<exists>ts' left. forest_loop l ts = Some (ts', left) \<and> (\<forall>t\<in>set ts'. bst t) \<and>
     (case left of
        None \<Rightarrow> members ts' = set l \<union> members ts
      | Some l' \<Rightarrow> members ts' = {} \<and> l' \<noteq> [] \<and> ascending l' \<and> set l' = set l \<union> members ts)"
  using assms
proof (induction ts arbitrary: l)
  case (Cons t ts)
  show ?case
  proof (cases "t = Leaf")
    case True
    obtain t' where "rowSetListToTree l = Some t'" "inorder t' = l" using rowSetListToTree_ok Cons.prems(1) by blast
    with True Cons.prems bst_of_list [of t' l] show ?thesis by auto
  next
    case False
    have "rowSetEntryMerge (rowSetTreeToList t) l \<noteq> []" "ascending (rowSetEntryMerge (rowSetTreeToList t) l)"
      using Cons.prems ascending_rowSetEntryMerge by (auto simp: bst_iff_sorted_wrt_less)
    from Cons.IH [OF this] Cons.prems(3) obtain ts' left where
      "forest_loop (rowSetEntryMerge (rowSetTreeToList t) l) ts = Some (ts', left)" "\<forall>t\<in>set ts'. bst t"
      "case left of
         None \<Rightarrow> members ts' = set (rowSetEntryMerge (rowSetTreeToList t) l) \<union> members ts
       | Some l' \<Rightarrow> members ts' = {} \<and> l' \<noteq> [] \<and> ascending l' \<and> set l' = set (rowSetEntryMerge (rowSetTreeToList t) l) \<union> members ts"
      by auto
    with False show ?thesis by (auto split: option.splits)
  qed
qed auto

lemma tree_search_iff: "bst t \<Longrightarrow> tree_search t x \<longleftrightarrow> x \<in> set_tree t"
  by (induction t) auto

lemma forest_search_iff: "\<forall>t\<in>set ts. bst t \<Longrightarrow> forest_search ts x \<longleftrightarrow> x \<in> members ts"
  by (induction ts) (auto simp: tree_search_iff)

section \<open>Lemmas: the invariant\<close>

definition rowset_inv :: "RowSet \<Rightarrow> bool" where
  "rowset_inv p \<longleftrightarrow> rsFlags p \<in> {0, ROWSET_SORTED} \<and> (rsFlags p = ROWSET_SORTED \<longrightarrow> ascending (pEntry p)) \<and>
     pLast p = (if pEntry p = [] then None else Some (last (pEntry p))) \<and> (\<forall>t\<in>set (pForest p). bst t)"

lemma sqlite3RowSetInit_inv: "rowset_inv (sqlite3RowSetInit N)"
  by (simp add: rowset_inv_def sqlite3RowSetInit_def)

lemma rowSetEntryAlloc_cases:
  assumes "rowSetEntryAlloc mallocOk p = (ok, p')"
  shows "pEntry p' = pEntry p" "pLast p' = pLast p" "pForest p' = pForest p" "rsFlags p' = rsFlags p" "iBatch p' = iBatch p"
    "mallocOk \<Longrightarrow> ok"
  using assms by (auto simp: rowSetEntryAlloc_def split: if_splits)

lemma ascending_snoc: "ascending xs \<Longrightarrow> xs \<noteq> [] \<Longrightarrow> last xs < v \<Longrightarrow> ascending (xs @ [v])"
proof (induction xs)
  case (Cons a xs)
  then show ?case
  proof (cases "xs = []")
    case False
    then have "a < last xs" using Cons.prems(1) last_in_set by auto
    then have "a < v" using Cons.prems(3) False by simp
    with Cons False show ?thesis by auto
  qed simp
qed simp

lemma sqlite3RowSetInsert_ok:
  assumes "rowset_inv p"
  shows "rowset_inv (sqlite3RowSetInsert mallocOk p v)"
    and "pForest (sqlite3RowSetInsert mallocOk p v) = pForest p" "iBatch (sqlite3RowSetInsert mallocOk p v) = iBatch p"
    and "pEntry (sqlite3RowSetInsert mallocOk p v) = pEntry p \<or> pEntry (sqlite3RowSetInsert mallocOk p v) = pEntry p @ [v]"
    and "mallocOk \<Longrightarrow> pEntry (sqlite3RowSetInsert mallocOk p v) = pEntry p @ [v]"
proof -
  obtain ok p1 where al: "rowSetEntryAlloc mallocOk p = (ok, p1)" by fastforce
  note p1 = rowSetEntryAlloc_cases [OF al]
  note ins = sqlite3RowSetInsert_def [of mallocOk p v, unfolded al prod.case]
  have fl: "rsFlags p = 0 \<or> rsFlags p = 1" using assms by (simp add: rowset_inv_def)
  show "rowset_inv (sqlite3RowSetInsert mallocOk p v)"
    using assms p1 fl ascending_snoc [of "pEntry p" v]
    by (auto simp: ins rowset_inv_def Let_def split: option.splits if_splits)
  show "pForest (sqlite3RowSetInsert mallocOk p v) = pForest p" "iBatch (sqlite3RowSetInsert mallocOk p v) = iBatch p"
    "pEntry (sqlite3RowSetInsert mallocOk p v) = pEntry p \<or> pEntry (sqlite3RowSetInsert mallocOk p v) = pEntry p @ [v]"
    "mallocOk \<Longrightarrow> pEntry (sqlite3RowSetInsert mallocOk p v) = pEntry p @ [v]"
    unfolding ins using assms p1 by (auto simp: rowset_inv_def Let_def split: option.splits if_splits)
qed

lemma sorted_entries:
  assumes "rowset_inv p" "length (pEntry p) < 2 ^ 40"
  shows "\<exists>l. (if rsFlags p AND ROWSET_SORTED = 0 then rowSetEntrySort (pEntry p) else Some (pEntry p)) = Some l \<and>
     ascending l \<and> set l = set (pEntry p)"
  using rowSetEntrySort_ok [OF assms(2)] assms(1) by (auto simp: rowset_inv_def)

lemma batch_step_ok:
  assumes inv: "rowset_inv p" "length (pEntry p) < 2 ^ 40" "pEntry p \<noteq> []"
  shows "\<exists>p'. batch_step mallocOk p = Some p' \<and> rowset_inv p' \<and> pEntry p' = [] \<and> iBatch p' = iBatch p \<and>
     members (pForest p') \<subseteq> members (pForest p) \<union> set (pEntry p) \<and>
     (mallocOk \<longrightarrow> members (pForest p') = members (pForest p) \<union> set (pEntry p))"
proof -
  obtain l where l: "(if rsFlags p AND ROWSET_SORTED = 0 then rowSetEntrySort (pEntry p) else Some (pEntry p)) = Some l"
    "ascending l" "set l = set (pEntry p)" using sorted_entries [OF inv(1,2)] by blast
  then have "l \<noteq> []" using inv(3) by auto
  have fl: "rsFlags p OR ROWSET_SORTED = ROWSET_SORTED" using inv(1) by (auto simp: rowset_inv_def)
  obtain ts left where f: "forest_loop l (pForest p) = Some (ts, left)" "\<forall>t\<in>set ts. bst t"
    and left: "case left of
        None \<Rightarrow> members ts = set l \<union> members (pForest p)
      | Some l' \<Rightarrow> members ts = {} \<and> l' \<noteq> [] \<and> ascending l' \<and> set l' = set l \<union> members (pForest p)"
    using forest_loop_ok [OF \<open>l \<noteq> []\<close> l(2), of "pForest p"] inv(1) by (auto simp: rowset_inv_def)
  show ?thesis
  proof (cases left)
    case None
    with l(1,3) f left fl show ?thesis by (auto simp: batch_step_def rowset_inv_def)
  next
    case (Some l')
    obtain ok p1 where al: "rowSetEntryAlloc mallocOk (p\<lparr>pForest := ts\<rparr>) = (ok, p1)" by fastforce
    note p1 = rowSetEntryAlloc_cases [OF al]
    obtain t where t: "rowSetListToTree l' = Some t" "inorder t = l'" using rowSetListToTree_ok left Some by force
    with left Some have "bst t" "set_tree t = set l \<union> members (pForest p)" using bst_of_list [of t l'] by auto
    with l(1,3) f left fl p1 t(1) Some show ?thesis
      by (cases ok) (auto simp: batch_step_def al rowset_inv_def)
  qed
qed

lemma sqlite3RowSetTest_ok:
  assumes inv: "rowset_inv p" "length (pEntry p) < 2 ^ 40"
  shows "\<exists>p'. sqlite3RowSetTest mallocOk p b x = Some (x \<in> members (pForest p'), p') \<and> rowset_inv p' \<and> iBatch p' = b \<and>
     (if b = iBatch p then p' = p
      else pEntry p' = [] \<and> members (pForest p') \<subseteq> members (pForest p) \<union> set (pEntry p) \<and>
        (mallocOk \<longrightarrow> members (pForest p') = members (pForest p) \<union> set (pEntry p)))"
proof (cases "b = iBatch p \<or> pEntry p = []")
  case True
  define p' where "p' = p\<lparr>iBatch := b\<rparr>"
  have "rowset_inv p'" using inv(1) by (simp add: rowset_inv_def p'_def)
  then have "forest_search (pForest p') x \<longleftrightarrow> x \<in> members (pForest p')" by (simp add: forest_search_iff rowset_inv_def)
  with True \<open>rowset_inv p'\<close> show ?thesis
    by (intro exI [of _ p']) (auto simp: sqlite3RowSetTest_def p'_def)
next
  case False
  then obtain p1 where p1: "batch_step mallocOk p = Some p1" "rowset_inv p1" "pEntry p1 = []"
    "members (pForest p1) \<subseteq> members (pForest p) \<union> set (pEntry p)"
    "mallocOk \<longrightarrow> members (pForest p1) = members (pForest p) \<union> set (pEntry p)"
    using batch_step_ok [OF inv, of mallocOk] by blast
  have "forest_search (pForest p1) x \<longleftrightarrow> x \<in> members (pForest p1)" using p1(2) by (simp add: forest_search_iff rowset_inv_def)
  with False p1 show ?thesis
    by (intro exI [of _ "p1\<lparr>iBatch := b\<rparr>"]) (auto simp: sqlite3RowSetTest_def rowset_inv_def)
qed

section \<open>Lemmas: extraction\<close>

text \<open>At most \<open>n\<close> calls of \<open>sqlite3RowSetNext\<close>, until it finds the set empty.\<close>

fun next_rows :: "nat \<Rightarrow> RowSet \<Rightarrow> int list option" where
  "next_rows 0 p = Some []"
| "next_rows (Suc n) p = do {
     (v, p) \<leftarrow> sqlite3RowSetNext p;
     (case v of None \<Rightarrow> Some [] | Some v \<Rightarrow> map_option ((#) v) (next_rows n p)) }"

lemma next_rows_cleared: "next_rows (Suc n) (sqlite3RowSetClear p) = Some []"
  by (simp add: sqlite3RowSetNext_def rowSetToList_def sqlite3RowSetClear_def)

lemma next_rows_list:
  assumes "rsFlags p AND ROWSET_NEXT \<noteq> 0" "length (pEntry p) < n"
  shows "next_rows n p = Some (pEntry p)"
  using assms
proof (induction "pEntry p" arbitrary: p n)
  case Nil
  then show ?case by (cases n) (simp_all add: sqlite3RowSetNext_def)
next
  case (Cons v vs)
  then obtain k where n: "n = Suc (Suc k)" by (metis Suc_less_eq2 gr0_implies_Suc length_Cons less_nat_zero_code not_gr_zero)
  define p1 where "p1 = (if vs = [] then sqlite3RowSetClear (p\<lparr>pEntry := vs\<rparr>) else p\<lparr>pEntry := vs\<rparr>)"
  have next1: "sqlite3RowSetNext p = Some (Some v, p1)"
    using Cons.prems(1) Cons.hyps(2) [symmetric] by (simp add: sqlite3RowSetNext_def p1_def)
  have "next_rows (Suc k) p1 = Some vs"
  proof (cases "vs = []")
    case True
    then show ?thesis unfolding p1_def using next_rows_cleared [of k] by simp
  next
    case False
    then show ?thesis using Cons.hyps(1) [of "p\<lparr>pEntry := vs\<rparr>" "Suc k"] Cons.prems Cons.hyps(2) [symmetric] n by (simp add: p1_def)
  qed
  with next1 show ?case by (simp only: n next_rows.simps) (simp add: Cons.hyps(2) [symmetric])
qed

lemma next_rows_sorted:
  assumes inv: "rowset_inv p" "length (pEntry p) < 2 ^ 40" "length (pEntry p) \<le> n"
  shows "next_rows (Suc n) p = Some (sorted_list_of_set (set (pEntry p)))"
proof -
  obtain l where l: "(if rsFlags p AND ROWSET_SORTED = 0 then rowSetEntrySort (pEntry p) else Some (pEntry p)) = Some l"
    "ascending l" "set l = set (pEntry p)" using sorted_entries [OF inv(1,2)] by blast
  define p1 where "p1 = p\<lparr>pEntry := l, rsFlags := rsFlags p OR ROWSET_NEXT\<rparr>"
  have fl: "rsFlags p = 0 \<or> rsFlags p = 1" using inv(1) by (auto simp: rowset_inv_def)
  have "rowSetToList p = Some p1" using l(1) fl by (auto simp: rowSetToList_def p1_def)
  then have "sqlite3RowSetNext p = sqlite3RowSetNext p1"
    using fl by (auto simp: sqlite3RowSetNext_def p1_def)
  then have "next_rows (Suc n) p = next_rows (Suc n) p1" by simp
  moreover have "length l \<le> length (pEntry p)"
    using l(2,3) distinct_card [of l] card_length [of "pEntry p"] by (simp add: strict_sorted_iff)
  then have "next_rows (Suc n) p1 = Some l"
    using next_rows_list [of p1 "Suc n"] fl inv(3) by (auto simp: p1_def)
  moreover have "sorted_list_of_set (set (pEntry p)) = l"
    using l(2,3) by (metis sorted_list_of_set.idem_if_sorted_distinct strict_sorted_iff)
  ultimately show ?thesis by simp
qed

lemma inserts_entries:
  "rowset_inv p \<Longrightarrow> rowset_inv (foldl (sqlite3RowSetInsert True) p xs) \<and>
     pEntry (foldl (sqlite3RowSetInsert True) p xs) = pEntry p @ xs"
  by (induction xs arbitrary: p) (simp_all add: sqlite3RowSetInsert_ok)

text \<open>Rowids inserted in any order, with repetitions, are extracted in ascending order and without repetitions,
  after which the set is empty.\<close>

theorem rowset_yields_sorted:
  assumes "length xs < 2 ^ 40"
  shows "next_rows (Suc (length xs)) (foldl (sqlite3RowSetInsert True) (sqlite3RowSetInit N) xs) =
     Some (sorted_list_of_set (set xs))"
  using assms next_rows_sorted [of "foldl (sqlite3RowSetInsert True) (sqlite3RowSetInit N) xs" "length xs"]
    inserts_entries [OF sqlite3RowSetInit_inv, of N xs]
  by (simp add: sqlite3RowSetInit_def)

theorem rowset_yields_sorted_witness:
  "next_rows 4 (foldl (sqlite3RowSetInsert True) (sqlite3RowSetInit 64) [7, -2, 7]) = Some [-2, 7]"
proof -
  have srt: "sorted_list_of_set (set [7, -2, 7]) = [-2, 7 :: int]" by code_simp
  have len: "Suc (length [7, -2, 7 :: int]) = 4" by simp
  have "length [7, -2, 7 :: int] < 2 ^ 40" by simp
  from rowset_yields_sorted [OF this, of 64] show ?thesis unfolding srt len .
qed

section \<open>The interface of a batched set\<close>

text \<open>
  A set of integers whose additions become visible to tests when the number of the batch changes: \<open>vis\<close> are the
  visible elements and \<open>pend\<close> the pending ones, at most \<open>cap\<close> of which are allowed.
\<close>

locale batched_set =
  fixes inv :: "'s \<Rightarrow> bool" and vis :: "'s \<Rightarrow> int set" and pend :: "'s \<Rightarrow> int list" and batch :: "'s \<Rightarrow> int"
    and add :: "'s \<Rightarrow> int \<Rightarrow> 's" and test :: "'s \<Rightarrow> int \<Rightarrow> int \<Rightarrow> (bool \<times> 's) option" and cap :: nat
  assumes add_law: "inv s \<Longrightarrow> inv (add s v) \<and> vis (add s v) = vis s \<and> pend (add s v) = pend s @ [v] \<and> batch (add s v) = batch s"
    and test_law: "inv s \<Longrightarrow> length (pend s) < cap \<Longrightarrow>
      \<exists>s'. test s b x = Some (x \<in> vis s', s') \<and> inv s' \<and> batch s' = b \<and>
        (if b = batch s then vis s' = vis s \<and> pend s' = pend s
         else vis s' = vis s \<union> set (pend s) \<and> pend s' = [])"

datatype rowset_op = Add int | Test int int

fun run_ops :: "('s \<Rightarrow> int \<Rightarrow> 's) \<Rightarrow> ('s \<Rightarrow> int \<Rightarrow> int \<Rightarrow> (bool \<times> 's) option) \<Rightarrow> 's \<Rightarrow> rowset_op list \<Rightarrow> bool list option" where
  "run_ops add test s [] = Some []"
| "run_ops add test s (Add v # ops) = run_ops add test (add s v) ops"
| "run_ops add test s (Test b x # ops) =
     (case test s b x of None \<Rightarrow> None | Some (r, s') \<Rightarrow> map_option ((#) r) (run_ops add test s' ops))"

text \<open>The answers by the documented meaning: a test sees what was added before the last change of the batch number.\<close>

fun answers :: "int set \<Rightarrow> int set \<Rightarrow> int \<Rightarrow> rowset_op list \<Rightarrow> bool list" where
  "answers V P b [] = []"
| "answers V P b (Add v # ops) = answers V (insert v P) b ops"
| "answers V P b (Test b' x # ops) =
     (if b' = b then (x \<in> V) # answers V P b ops else (x \<in> V \<union> P) # answers (V \<union> P) {} b' ops)"

context batched_set
begin

lemma run_answers:
  assumes "inv s" "length (pend s) + length ops \<le> cap"
  shows "run_ops add test s ops = Some (answers (vis s) (set (pend s)) (batch s) ops)"
  using assms
proof (induction ops arbitrary: s)
  case (Cons op ops)
  show ?case
  proof (cases op)
    case (Add v)
    with Cons add_law [of s v] show ?thesis by simp
  next
    case (Test b x)
    have "length (pend s) < cap" using Cons.prems(2) by simp
    from test_law [OF Cons.prems(1) this, of b x] obtain s' where
      s': "test s b x = Some (x \<in> vis s', s')" "inv s'" "batch s' = b"
        "if b = batch s then vis s' = vis s \<and> pend s' = pend s else vis s' = vis s \<union> set (pend s) \<and> pend s' = []"
      by blast
    have "length (pend s') + length ops \<le> cap" using s'(4) Cons.prems(2) by (auto split: if_splits)
    with Cons.IH [OF s'(2)] s' Test show ?thesis by (auto split: if_splits)
  qed
qed simp

end

interpretation rowset: batched_set rowset_inv "\<lambda>p. members (pForest p)" pEntry iBatch
  "sqlite3RowSetInsert True" "sqlite3RowSetTest True" "2 ^ 40"
proof unfold_locales
  show "rowset_inv (sqlite3RowSetInsert True s v) \<and>
      members (pForest (sqlite3RowSetInsert True s v)) = members (pForest s) \<and>
      pEntry (sqlite3RowSetInsert True s v) = pEntry s @ [v] \<and> iBatch (sqlite3RowSetInsert True s v) = iBatch s"
    if "rowset_inv s" for s v
    using sqlite3RowSetInsert_ok [OF that] by simp
  show "\<exists>s'. sqlite3RowSetTest True s b x = Some (x \<in> members (pForest s'), s') \<and> rowset_inv s' \<and> iBatch s' = b \<and>
      (if b = iBatch s then members (pForest s') = members (pForest s) \<and> pEntry s' = pEntry s
       else members (pForest s') = members (pForest s) \<union> set (pEntry s) \<and> pEntry s' = [])"
    if "rowset_inv s" "length (pEntry s) < 2 ^ 40" for s b x
    using sqlite3RowSetTest_ok [OF that, of True b x] by fastforce
qed

text \<open>C28: Any sequence of insertions and tests on a new set gives the documented answers: a test is true exactly for the
  rowids inserted before the last change of the batch number. The sorts never run over their 40 buckets.\<close>

theorem rowset_answers:
  assumes "length ops \<le> 2 ^ 40"
  shows "run_ops (sqlite3RowSetInsert True) (sqlite3RowSetTest True) (sqlite3RowSetInit N) ops = Some (answers {} {} 0 ops)"
  using rowset.run_answers [OF sqlite3RowSetInit_inv, of N ops] assms by (simp add: sqlite3RowSetInit_def)

theorem rowset_answers_witness:
  "run_ops (sqlite3RowSetInsert True) (sqlite3RowSetTest True) (sqlite3RowSetInit 32)
     [Add 5, Test 0 5, Test 1 5, Add 3, Test 1 3, Test 2 3] = Some [False, True, False, True]"
  using rowset_answers [of "[Add 5, Test 0 5, Test 1 5, Add 3, Test 1 3, Test 2 3]" 32] by simp

end
