(* ===== verification/Bitvec_Set.thy ===== *)
theory Bitvec_Set
  imports Prelude "HOL-Library.Monad_Syntax"
begin

text \<open>
  The bitmap of \<^verbatim>\<open>bitvec.c\<close>, with which the pager records the pages it has journalled: a plain
  bitmap for few bits, a hash table with open addressing for few members of a large range, and otherwise an array of
  smaller bitmaps. Every object is reached through one pointer only, so that a bitmap is a value of a
  recursive type. The union is tagged with the view last written; the code clears it before it changes the view. The
  unsigned 32-bit integers are natural numbers, with the wrap-around written out in the two places where it can occur.

  The outcomes of the allocations still to be made are a list that is threaded through, an exhausted list meaning
  success. The result \<open>None\<close> stands for the use of another view of the union, an index out of range or
  a loop that does not end; the recursion of \<open>sqlite3BitvecSet\<close> takes fuel, and seven calls are shown to be enough.
\<close>

section \<open>Representation\<close>

datatype Bitvec = Bitvec (iSize: nat) (nSet: nat) (iDivisor: nat) (bv_u: bitvec_u)
  and bitvec_u = aBitmap "u8 list" | aHash "nat list" | apSub "Bitvec option list"

text \<open>The constants for objects of 512 bytes and pointers of four.\<close>

abbreviation (input) BITVEC_NELEM :: nat where "BITVEC_NELEM \<equiv> 500"
abbreviation (input) BITVEC_NBIT :: nat where "BITVEC_NBIT \<equiv> 4000"
abbreviation (input) BITVEC_NINT :: nat where "BITVEC_NINT \<equiv> 125"
abbreviation (input) BITVEC_MXHASH :: nat where "BITVEC_MXHASH \<equiv> 62"
abbreviation (input) BITVEC_NPTR :: nat where "BITVEC_NPTR \<equiv> 125"

definition BITVEC_HASH :: "nat \<Rightarrow> nat" where
  "BITVEC_HASH x = (x * 1) mod BITVEC_NINT"

definition dec32 :: "nat \<Rightarrow> nat" where
  "dec32 i = (i + 2 ^ 32 - 1) mod 2 ^ 32"

definition bv_malloc :: "bool list \<Rightarrow> bool \<times> bool list" where
  "bv_malloc mem = (case mem of [] \<Rightarrow> (True, []) | ok # rest \<Rightarrow> (ok, rest))"

section \<open>Operations\<close>

text \<open>A zeroed object: which view of the union is used depends on the size.\<close>

definition new_bitvec :: "nat \<Rightarrow> Bitvec" where
  "new_bitvec sz =
     Bitvec sz 0 0 (if sz \<le> BITVEC_NBIT then aBitmap (replicate BITVEC_NELEM 0) else aHash (replicate BITVEC_NINT 0))"

definition sqlite3BitvecCreate :: "bool list \<Rightarrow> nat \<Rightarrow> Bitvec option \<times> bool list" where
  "sqlite3BitvecCreate mem sz = (let (ok, mem) = bv_malloc mem in (if ok then Some (new_bitvec sz) else None, mem))"

partial_function (option) probe_test :: "nat list \<Rightarrow> nat \<Rightarrow> nat \<Rightarrow> bool option" where
  "probe_test hs i h =
     (if hs ! h \<noteq> 0 then if hs ! h = i then Some True else probe_test hs i ((h + 1) mod BITVEC_NINT)
      else Some False)"

partial_function (option) test_loop :: "Bitvec \<Rightarrow> nat \<Rightarrow> bool option" where
  "test_loop p i =
     (if iDivisor p \<noteq> 0 then
        (case bv_u p of
           apSub subs \<Rightarrow>
             if i div iDivisor p < length subs then
               (case subs ! (i div iDivisor p) of
                  None \<Rightarrow> Some False
                | Some q \<Rightarrow> test_loop q (i mod iDivisor p))
             else None
         | _ \<Rightarrow> None)
      else if iSize p \<le> BITVEC_NBIT then
        (case bv_u p of
           aBitmap bs \<Rightarrow> if i div 8 < length bs then Some (bs ! (i div 8) AND push_bit (i AND 7) 1 \<noteq> 0) else None
         | _ \<Rightarrow> None)
      else
        (case bv_u p of
           aHash hs \<Rightarrow> probe_test hs (i + 1) (BITVEC_HASH i)
         | _ \<Rightarrow> None))"

definition sqlite3BitvecTest :: "Bitvec option \<Rightarrow> nat \<Rightarrow> bool option" where
  "sqlite3BitvecTest p i =
     (case p of
        None \<Rightarrow> Some False
      | Some p \<Rightarrow> if i > iSize p \<or> i = 0 then Some False else test_loop p (dec32 i))"

text \<open>The loop on a collision: \<open>None\<close> as the inner result when the value is there, else the free slot.\<close>

partial_function (option) probe_set :: "nat list \<Rightarrow> nat \<Rightarrow> nat \<Rightarrow> nat option option" where
  "probe_set hs i h =
     (if hs ! h = i then Some None
      else
        (let h = (if h + 1 \<ge> BITVEC_NINT then 0 else h + 1) in
         if hs ! h \<noteq> 0 then probe_set hs i h else Some (Some h)))"

text \<open>\<open>p->nSet++; p->u.aHash[h] = i;\<close>\<close>

definition hash_put :: "Bitvec \<Rightarrow> nat list \<Rightarrow> nat \<Rightarrow> nat \<Rightarrow> Bitvec" where
  "hash_put p hs h i = Bitvec (iSize p) (nSet p + 1) (iDivisor p) (aHash (hs[h := i]))"

text \<open>The object with its union cleared, as \<open>bitvec_set_rehash\<close> leaves it before it sets the values again.\<close>

definition subdivided :: "Bitvec \<Rightarrow> Bitvec" where
  "subdivided p =
     Bitvec (iSize p) (nSet p) ((iSize p + BITVEC_NPTR - 1) mod 2 ^ 32 div BITVEC_NPTR) (apSub (replicate BITVEC_NPTR None))"

text \<open>
  \<open>sqlite3BitvecSet\<close> behind \<open>i--\<close>, and the loop that sets all values of an old hash table. The results of the calls
  are combined by the bitwise or.
\<close>

fun set_loop :: "nat \<Rightarrow> bool list \<Rightarrow> Bitvec \<Rightarrow> nat \<Rightarrow> (int \<times> Bitvec \<times> bool list) option"
  and set_values :: "nat \<Rightarrow> bool list \<Rightarrow> Bitvec \<Rightarrow> nat list \<Rightarrow> int \<Rightarrow> (int \<times> Bitvec \<times> bool list) option" where
  "set_loop 0 mem p i = None"
| "set_loop (Suc fuel) mem p i =
     (if iSize p > BITVEC_NBIT \<and> iDivisor p \<noteq> 0 then
        (case bv_u p of
           apSub subs \<Rightarrow>
             if i div iDivisor p < length subs then
               (let (sub, mem) =
                  (case subs ! (i div iDivisor p) of
                     Some q \<Rightarrow> (Some q, mem)
                   | None \<Rightarrow> sqlite3BitvecCreate mem (iDivisor p))
                in case sub of
                     None \<Rightarrow> Some (SQLITE_NOMEM, p, mem)
                   | Some q \<Rightarrow> do {
                       (rc, q, mem) \<leftarrow> set_loop fuel mem q (i mod iDivisor p);
                       Some (rc, Bitvec (iSize p) (nSet p) (iDivisor p) (apSub (subs[i div iDivisor p := Some q])), mem) })
             else None
         | _ \<Rightarrow> None)
      else if iSize p \<le> BITVEC_NBIT then
        (case bv_u p of
           aBitmap bs \<Rightarrow>
             if i div 8 < length bs then
               Some (SQLITE_OK,
                 Bitvec (iSize p) (nSet p) (iDivisor p) (aBitmap (bs[i div 8 := bs ! (i div 8) OR push_bit (i AND 7) 1])), mem)
             else None
         | _ \<Rightarrow> None)
      else
        (case bv_u p of
           aHash hs \<Rightarrow>
             (let h = BITVEC_HASH i; v = i + 1 in
              if hs ! h = 0 \<and> nSet p < BITVEC_NINT - 1 then Some (SQLITE_OK, hash_put p hs h v, mem)
              else do {
                slot \<leftarrow> (if hs ! h = 0 then Some (Some h) else probe_set hs v h);
                (case slot of
                   None \<Rightarrow> Some (SQLITE_OK, p, mem)
                 | Some h \<Rightarrow>
                     if nSet p \<ge> BITVEC_MXHASH then
                       (let (ok, mem) = bv_malloc mem in
                        if \<not> ok then Some (SQLITE_NOMEM, p, mem)
                        else do {
                          (rc, p, mem) \<leftarrow> set_loop fuel mem (subdivided p) (dec32 v);
                          set_values fuel mem p hs rc })
                     else Some (SQLITE_OK, hash_put p hs h v, mem)) })
         | _ \<Rightarrow> None))"
| "set_values fuel mem p [] rc = Some (rc, p, mem)"
| "set_values fuel mem p (v # vs) rc =
     (if v \<noteq> 0 then do {
        (rc', p, mem) \<leftarrow> set_loop fuel mem p (dec32 v);
        set_values fuel mem p vs (rc OR rc') }
      else set_values fuel mem p vs rc)"

abbreviation (input) BITVEC_FUEL :: nat where "BITVEC_FUEL \<equiv> 7"

definition sqlite3BitvecSet :: "bool list \<Rightarrow> Bitvec option \<Rightarrow> nat \<Rightarrow> (int \<times> Bitvec option \<times> bool list) option" where
  "sqlite3BitvecSet mem p i =
     (case p of
        None \<Rightarrow> Some (SQLITE_OK, None, mem)
      | Some p \<Rightarrow> do {
          (rc, p, mem) \<leftarrow> set_loop BITVEC_FUEL mem p (dec32 i);
          Some (rc, Some p, mem) })"

partial_function (option) free_slot :: "nat list \<Rightarrow> nat \<Rightarrow> nat option" where
  "free_slot hs h =
     (if hs ! h \<noteq> 0 then free_slot hs (if h + 1 \<ge> BITVEC_NINT then 0 else h + 1) else Some h)"

fun rebuild :: "nat \<Rightarrow> nat list \<Rightarrow> nat \<times> nat list \<Rightarrow> (nat \<times> nat list) option" where
  "rebuild i [] (n, hs) = Some (n, hs)"
| "rebuild i (v # vs) (n, hs) =
     (if v \<noteq> 0 \<and> v \<noteq> i + 1 then do {
        h \<leftarrow> free_slot hs (BITVEC_HASH (dec32 v));
        rebuild i vs (n + 1, hs[h := v]) }
      else rebuild i vs (n, hs))"

partial_function (option) bv_clear_loop :: "Bitvec \<Rightarrow> nat \<Rightarrow> Bitvec option" where
  "bv_clear_loop p i =
     (if iDivisor p \<noteq> 0 then
        (case bv_u p of
           apSub subs \<Rightarrow>
             if i div iDivisor p < length subs then
               (case subs ! (i div iDivisor p) of
                  None \<Rightarrow> Some p
                | Some q \<Rightarrow> do {
                    q \<leftarrow> bv_clear_loop q (i mod iDivisor p);
                    Some (Bitvec (iSize p) (nSet p) (iDivisor p) (apSub (subs[i div iDivisor p := Some q]))) })
             else None
         | _ \<Rightarrow> None)
      else if iSize p \<le> BITVEC_NBIT then
        (case bv_u p of
           aBitmap bs \<Rightarrow>
             if i div 8 < length bs then
               Some (Bitvec (iSize p) (nSet p) (iDivisor p) (aBitmap (bs[i div 8 := bs ! (i div 8) AND NOT (push_bit (i AND 7) 1)])))
             else None
         | _ \<Rightarrow> None)
      else
        (case bv_u p of
           aHash hs \<Rightarrow> do {
             (n, hs) \<leftarrow> rebuild i hs (0, replicate BITVEC_NINT 0);
             Some (Bitvec (iSize p) n (iDivisor p) (aHash hs)) }
         | _ \<Rightarrow> None))"

definition sqlite3BitvecClear :: "Bitvec option \<Rightarrow> nat \<Rightarrow> Bitvec option option" where
  "sqlite3BitvecClear p i =
     (case p of None \<Rightarrow> Some None | Some p \<Rightarrow> map_option Some (bv_clear_loop p (dec32 i)))"

definition sqlite3BitvecSize :: "Bitvec \<Rightarrow> nat" where
  "sqlite3BitvecSize p = iSize p"

section \<open>Lemmas: open addressing\<close>

lemma dec32_Suc [simp]: "v < 2 ^ 32 \<Longrightarrow> dec32 (v + 1) = v" "v < 2 ^ 32 \<Longrightarrow> dec32 (Suc v) = v"
  by (simp_all add: dec32_def)

lemma dec32_pos: "0 < i \<Longrightarrow> i < 2 ^ 32 \<Longrightarrow> dec32 i = i - 1"
  using dec32_Suc(2) [of "i - 1"] by simp

text \<open>The slot \<open>k\<close> steps behind \<open>h\<close>.\<close>

definition probe_slot :: "nat list \<Rightarrow> nat \<Rightarrow> nat \<Rightarrow> nat" where
  "probe_slot hs h k = hs ! ((h + k) mod 125)"

lemma slot_step [simp]: "probe_slot hs (Suc h mod 125) k = probe_slot hs h (Suc k)"
  by (simp add: probe_slot_def mod_simps)

lemma slot_0: "h < 125 \<Longrightarrow> probe_slot hs h 0 = hs ! h"
  by (simp add: probe_slot_def)

lemma wrap_step: "h < 125 \<Longrightarrow> (if h + 1 \<ge> 125 then 0 else h + 1) = Suc h mod (125 :: nat)"
  by (simp add: mod_if)

lemma probe_test_run:
  assumes "h < 125" "\<forall>k'<k. probe_slot hs h k' \<noteq> 0 \<and> probe_slot hs h k' \<noteq> v" "probe_slot hs h k = 0 \<or> probe_slot hs h k = v"
  shows "probe_test hs v h = Some (probe_slot hs h k \<noteq> 0)"
  using assms
proof (induction k arbitrary: h)
  case 0
  then show ?case by (subst probe_test.simps) (auto simp: slot_0)
next
  case (Suc k)
  have "hs ! h \<noteq> 0" "hs ! h \<noteq> v" using Suc.prems(1,2) slot_0 [of h hs] by force+
  moreover have "probe_test hs v (Suc h mod 125) = Some (probe_slot hs (Suc h mod 125) k \<noteq> 0)"
    by (rule Suc.IH) (use Suc.prems in auto)
  ultimately show ?case by (subst probe_test.simps) simp
qed

lemma free_slot_run:
  assumes "h < 125" "\<forall>k'<k. probe_slot hs h k' \<noteq> 0" "probe_slot hs h k = 0"
  shows "free_slot hs h = Some ((h + k) mod 125)"
  using assms
proof (induction k arbitrary: h)
  case 0
  then show ?case by (subst free_slot.simps) (auto simp: slot_0)
next
  case (Suc k)
  have "hs ! h \<noteq> 0" using Suc.prems(1,2) slot_0 [of h hs] by force
  moreover have "free_slot hs (Suc h mod 125) = Some ((Suc h mod 125 + k) mod 125)"
    by (rule Suc.IH) (use Suc.prems in auto)
  ultimately show ?case
    by (subst free_slot.simps) (simp only: wrap_step [OF Suc.prems(1)], simp add: mod_simps)
qed

lemma probe_set_run:
  assumes "h < 125" "\<forall>k'<k. probe_slot hs h k' \<noteq> 0 \<and> probe_slot hs h k' \<noteq> v" "probe_slot hs h k = 0 \<or> probe_slot hs h k = v" "0 < v" "hs ! h \<noteq> 0"
  shows "probe_set hs v h = Some (if probe_slot hs h k = 0 then Some ((h + k) mod 125) else None)"
  using assms
proof (induction k arbitrary: h)
  case 0
  then show ?case by (subst probe_set.simps) (auto simp: slot_0)
next
  case (Suc k)
  let ?h = "Suc h mod 125"
  have ne: "hs ! h \<noteq> v" using Suc.prems(1,2) slot_0 [of h hs] by force
  have run: "probe_set hs v h = (if hs ! ?h \<noteq> 0 then probe_set hs v ?h else Some (Some ?h))"
    using ne by (subst probe_set.simps) (simp only: wrap_step [OF Suc.prems(1)] Let_def if_False)
  show ?case
  proof (cases "hs ! ?h = 0")
    case True
    then have "k = 0" using Suc.prems(2) by (cases k) (auto simp: probe_slot_def)
    with True run show ?thesis by (simp add: probe_slot_def)
  next
    case False
    have "probe_set hs v ?h = Some (if probe_slot hs ?h k = 0 then Some ((?h + k) mod 125) else None)"
      by (rule Suc.IH) (use Suc.prems False in auto)
    with False run show ?thesis by (simp add: mod_simps)
  qed
qed

text \<open>The table holds each of its values on the way from its home slot, before the first free one.\<close>

definition on_path :: "nat list \<Rightarrow> nat \<Rightarrow> bool" where
  "on_path hs v \<longleftrightarrow> (\<exists>k<125. probe_slot hs ((v - 1) mod 125) k = v \<and> (\<forall>k'<k. probe_slot hs ((v - 1) mod 125) k' \<noteq> 0))"

abbreviation values_of :: "nat list \<Rightarrow> nat list" where
  "values_of hs \<equiv> filter (\<lambda>v. v \<noteq> 0) hs"

definition hash_ok :: "nat list \<Rightarrow> nat \<Rightarrow> nat set \<Rightarrow> bool" where
  "hash_ok hs n S \<longleftrightarrow> length hs = 125 \<and> length (values_of hs) = n \<and> n < 125 \<and> distinct (values_of hs) \<and>
     S = (\<lambda>v. v - 1) ` set (values_of hs) \<and> (\<forall>v\<in>set (values_of hs). on_path hs v)"

lemma hash_ok_empty: "hash_ok (replicate 125 0) 0 {}"
  by (simp add: hash_ok_def)

lemma hash_ok_member:
  assumes "hash_ok hs n S"
  shows "i \<in> S \<longleftrightarrow> i + 1 \<in> set hs"
  using assms by (force simp: hash_ok_def image_iff)

lemma slot_update:
  assumes "length hs = 125" "j < 125"
  shows "probe_slot (hs[j := v]) h k = (if (h + k) mod 125 = j then v else probe_slot hs h k)"
  using assms by (simp add: probe_slot_def nth_list_update)

lemma slot_reach: "j < 125 \<Longrightarrow> \<exists>k<125. (h + k) mod 125 = (j :: nat)"
proof -
  assume j: "j < 125"
  define r where "r = h mod 125"
  have r: "r < 125" by (simp add: r_def)
  have eq: "(h + k) mod 125 = (r + k) mod 125" for k by (simp add: r_def mod_simps)
  show ?thesis
  proof (cases "r \<le> j")
    case True
    then have "(h + (j - r)) mod 125 = j" using j by (subst eq) simp
    moreover have "j - r < 125" using j by simp
    ultimately show ?thesis by blast
  next
    case False
    with j r have "r + (j + 125 - r) = j + 125" "j + 125 - r < 125" by simp_all
    moreover have "(h + (j + 125 - r)) mod 125 = j" using j calculation(1) by (subst eq) simp
    ultimately show ?thesis by blast
  qed
qed

lemma hash_free:
  assumes "hash_ok hs n S"
  shows "\<exists>k<125. probe_slot hs h k = 0"
proof -
  have "values_of hs \<noteq> hs" using assms by (auto simp: hash_ok_def)
  then obtain j where "j < 125" "hs ! j = 0"
    using assms by (auto simp: hash_ok_def filter_id_conv in_set_conv_nth)
  with slot_reach [of j h] show ?thesis by (auto simp: probe_slot_def)
qed

text \<open>The first slot behind a home slot that is free or holds the value.\<close>

lemma hash_probe:
  assumes ok: "hash_ok hs n S"
  obtains k where "k < 125" "probe_slot hs (BITVEC_HASH i) k = 0 \<or> probe_slot hs (BITVEC_HASH i) k = i + 1"
    "\<forall>k'<k. probe_slot hs (BITVEC_HASH i) k' \<noteq> 0 \<and> probe_slot hs (BITVEC_HASH i) k' \<noteq> i + 1"
    "probe_slot hs (BITVEC_HASH i) k \<noteq> 0 \<longleftrightarrow> i \<in> S"
proof -
  let ?s = "probe_slot hs (BITVEC_HASH i)"
  define k where "k = (LEAST k. ?s k = 0 \<or> ?s k = i + 1)"
  obtain f where f: "f < 125" "?s f = 0" using hash_free [OF ok] by blast
  have k: "?s k = 0 \<or> ?s k = i + 1" unfolding k_def by (rule LeastI [of _ f]) (use f in simp)
  have least: "\<forall>k'<k. ?s k' \<noteq> 0 \<and> ?s k' \<noteq> i + 1"
  proof (intro allI impI)
    fix k' assume "k' < k"
    from not_less_Least [OF this [unfolded k_def]] show "?s k' \<noteq> 0 \<and> ?s k' \<noteq> i + 1" by simp
  qed
  have "k \<le> f" using least f(2) by (meson not_le)
  then have "k < 125" using f(1) by simp
  moreover have "?s k \<noteq> 0 \<longleftrightarrow> i \<in> S"
  proof
    assume "?s k \<noteq> 0"
    moreover have "?s k \<in> set hs" using ok by (simp add: probe_slot_def hash_ok_def)
    ultimately have "i + 1 \<in> set hs" using k by auto
    then show "i \<in> S" using hash_ok_member [OF ok] by simp
  next
    assume "i \<in> S"
    then have "i + 1 \<in> set (values_of hs)" using hash_ok_member [OF ok] by simp
    then have "on_path hs (i + 1)" using ok unfolding hash_ok_def by blast
    then obtain k0 where k0: "?s k0 = i + 1" "\<forall>k'<k0. ?s k' \<noteq> 0"
      unfolding on_path_def BITVEC_HASH_def by (simp only: add_diff_cancel_right' mult_1_right) blast
    have "k \<le> k0" using least k0(1) by (meson not_le)
    with k0 show "?s k \<noteq> 0" by (cases "k = k0") auto
  qed
  ultimately show thesis by (intro that [OF _ k least])
qed

lemma hash_insert:
  assumes ok: "hash_ok hs n S" "n + 1 < 125" "i \<notin> S"
    and k: "k < 125" "probe_slot hs (BITVEC_HASH i) k = 0" "\<forall>k'<k. probe_slot hs (BITVEC_HASH i) k' \<noteq> 0"
    and j: "j = (BITVEC_HASH i + k) mod 125"
  shows "hash_ok (hs[j := i + 1]) (n + 1) (insert i S)"
proof -
  have len: "length hs = 125" and j1: "j < 125" using ok(1) j by (auto simp: hash_ok_def)
  have z: "hs ! j = 0" using k(2) by (simp add: probe_slot_def j)
  have spl: "hs = take j hs @ 0 # drop (Suc j) hs" using id_take_nth_drop [of j hs] len j1 z by simp
  have upd: "hs[j := i + 1] = take j hs @ (i + 1) # drop (Suc j) hs" using len j1 by (simp add: upd_conv_take_nth_drop)
  have vals: "values_of hs = values_of (take j hs) @ values_of (drop (Suc j) hs)" by (subst spl) simp
  have vals': "values_of (hs[j := i + 1]) = values_of (take j hs) @ (i + 1) # values_of (drop (Suc j) hs)"
    by (subst upd) simp
  have new: "i + 1 \<notin> set (values_of hs)" using ok(3) hash_ok_member [OF ok(1)] by auto
  have path: "on_path (hs[j := i + 1]) w" if w: "on_path hs w" "w \<noteq> 0" for w
  proof -
    obtain k0 where k0: "k0 < 125" "probe_slot hs ((w - 1) mod 125) k0 = w" "\<forall>k'<k0. probe_slot hs ((w - 1) mod 125) k' \<noteq> 0"
      using w(1) by (auto simp: on_path_def)
    have "((w - 1) mod 125 + k0) mod 125 \<noteq> j" using k0(2) z w(2) by (auto simp: probe_slot_def)
    with k0 show ?thesis unfolding on_path_def by (intro exI [of _ k0]) (auto simp: slot_update [OF len j1])
  qed
  have "on_path (hs[j := i + 1]) (i + 1)"
    unfolding on_path_def slot_update [OF len j1]
    using k j [symmetric] by (intro exI [of _ k]) (simp add: BITVEC_HASH_def)
  moreover have "set (values_of (hs[j := i + 1])) = insert (i + 1) (set (values_of hs))"
    "length (values_of (hs[j := i + 1])) = Suc (length (values_of hs))"
    unfolding vals vals' by auto
  moreover have "distinct (values_of (hs[j := i + 1]))"
    using new ok(1) unfolding hash_ok_def vals vals' by auto
  ultimately show ?thesis using path ok(1,2) len unfolding hash_ok_def by auto
qed

section \<open>Lemmas: the set of a bitmap\<close>

text \<open>
  \<open>bv_rep n p S\<close>: the object is well formed, at most \<open>n\<close> levels deep, and holds the bits \<open>S\<close>, counted from 0.
  The part of a set that a subordinate bitmap holds is \<open>sub_set\<close>.
\<close>

definition sub_set :: "nat set \<Rightarrow> nat \<Rightarrow> nat \<Rightarrow> nat set" where
  "sub_set S d b = {k. k < d \<and> b * d + k \<in> S}"

fun bv_cap :: "nat \<Rightarrow> nat" where
  "bv_cap 0 = 4000"
| "bv_cap (Suc n) = 125 * bv_cap n"

definition bitmap_rep :: "Bitvec \<Rightarrow> nat set \<Rightarrow> bool" where
  "bitmap_rep p S \<longleftrightarrow> iSize p \<le> 4000 \<and> iDivisor p = 0 \<and>
     (\<exists>bs. bv_u p = aBitmap bs \<and> length bs = 500 \<and> S = {k. k < iSize p \<and> bit (bs ! (k div 8)) (k mod 8)})"

definition hash_rep :: "Bitvec \<Rightarrow> nat set \<Rightarrow> bool" where
  "hash_rep p S \<longleftrightarrow> 4000 < iSize p \<and> iDivisor p = 0 \<and> (\<exists>hs. bv_u p = aHash hs \<and> hash_ok hs (nSet p) S)"

definition bounded :: "nat \<Rightarrow> Bitvec \<Rightarrow> nat set \<Rightarrow> bool" where
  "bounded n p S \<longleftrightarrow> S \<subseteq> {..<iSize p} \<and> iSize p \<le> bv_cap n \<and> iSize p + 124 < 2 ^ 32"

definition subs_rep :: "(Bitvec \<Rightarrow> nat set \<Rightarrow> bool) \<Rightarrow> Bitvec \<Rightarrow> nat set \<Rightarrow> bool" where
  "subs_rep rep p S \<longleftrightarrow> 4000 < iSize p \<and> iDivisor p = (iSize p + 124) div 125 \<and>
     (\<exists>subs. bv_u p = apSub subs \<and> length subs = 125 \<and>
        (\<forall>b<125. case subs ! b of
            None \<Rightarrow> sub_set S (iDivisor p) b = {}
          | Some q \<Rightarrow> iSize q = iDivisor p \<and> rep q (sub_set S (iDivisor p) b)))"

fun bv_rep :: "nat \<Rightarrow> Bitvec \<Rightarrow> nat set \<Rightarrow> bool" where
  "bv_rep 0 p S \<longleftrightarrow> bounded 0 p S \<and> bitmap_rep p S"
| "bv_rep (Suc n) p S \<longleftrightarrow>
     bounded (Suc n) p S \<and> (bitmap_rep p S \<or> hash_rep p S \<or> subs_rep (bv_rep n) p S)"

lemma bv_rep_bounded: "bv_rep n p S \<Longrightarrow> bounded n p S"
  by (cases n) auto

lemma bv_rep_bitmap: "iSize p \<le> 4000 \<Longrightarrow> bv_rep n p S \<longleftrightarrow> bounded n p S \<and> bitmap_rep p S"
  by (cases n) (auto simp: hash_rep_def subs_rep_def)

lemma new_bitvec_rep:
  assumes "sz \<le> bv_cap n" "sz + 124 < 2 ^ 32"
  shows "bv_rep n (new_bitvec sz) {}"
  using assms hash_ok_empty
  by (cases n) (auto simp: bounded_def bitmap_rep_def hash_rep_def new_bitvec_def)

lemma sub_index:
  assumes "i < sz" "d = (sz + 124) div 125" "4000 < (sz :: nat)"
  shows "i div d < 125" "0 < d" "i mod d < d"
proof -
  have "sz \<le> 125 * d" using assms(2) by simp
  moreover show "0 < d" using assms(2,3) by simp
  ultimately show "i div d < 125" using assms(1) by (simp add: less_mult_imp_div_less mult.commute)
  show "i mod d < d" using \<open>0 < d\<close> by simp
qed

lemma sub_size:
  assumes "sz \<le> bv_cap (Suc n)" "d = (sz + 124) div 125" "sz + 124 < 2 ^ 32"
  shows "d \<le> bv_cap n" "d + 124 < 2 ^ 32"
  using assms by simp_all

lemma sub_set_index: "0 < d \<Longrightarrow> i mod d \<in> sub_set S d (i div d) \<longleftrightarrow> i \<in> S"
  by (simp add: sub_set_def)

lemma and_7 [simp]: "i AND 7 = i mod (8 :: nat)"
  using take_bit_eq_mask [of 3 i] by (simp add: take_bit_eq_mod mask_eq_exp_minus_1)

lemma test_loop_ok: "bv_rep n p S \<Longrightarrow> i < iSize p \<Longrightarrow> test_loop p i = Some (i \<in> S)"
proof (induction n arbitrary: p S i)
  have bm: "test_loop p i = Some (i \<in> S)" if "bitmap_rep p S" "i < iSize p" for p S i
  proof -
    have "i div 8 < 500" using that by (auto simp: bitmap_rep_def)
    with that show ?thesis by (subst test_loop.simps) (auto simp: bitmap_rep_def and_exp_eq_0_iff_not_bit)
  qed
  {
    case 0
    then show ?case by (intro bm) simp_all
  next
    case (Suc n)
    from Suc.prems consider "bitmap_rep p S" | "hash_rep p S" | "subs_rep (bv_rep n) p S" by auto
    then show ?case
    proof cases
      case 1
      then show ?thesis by (rule bm) (rule Suc.prems)
    next
      case 2
      then obtain hs where hs: "bv_u p = aHash hs" "hash_ok hs (nSet p) S" by (auto simp: hash_rep_def)
      obtain k where k: "\<forall>k'<k. probe_slot hs (BITVEC_HASH i) k' \<noteq> 0 \<and> probe_slot hs (BITVEC_HASH i) k' \<noteq> i + 1"
        "probe_slot hs (BITVEC_HASH i) k = 0 \<or> probe_slot hs (BITVEC_HASH i) k = i + 1" "probe_slot hs (BITVEC_HASH i) k \<noteq> 0 \<longleftrightarrow> i \<in> S"
        using hash_probe [OF hs(2), of i] by metis
      have "probe_test hs (i + 1) (BITVEC_HASH i) = Some (i \<in> S)"
        using probe_test_run [OF _ k(1,2)] k(3) by (simp add: BITVEC_HASH_def)
      with 2 hs(1) show ?thesis by (subst test_loop.simps) (simp add: hash_rep_def)
    next
      case 3
      then obtain subs where p: "4000 < iSize p" "iDivisor p = (iSize p + 124) div 125" "bv_u p = apSub subs" "length subs = 125"
        and subs: "\<And>b. b < 125 \<Longrightarrow> case subs ! b of None \<Rightarrow> sub_set S (iDivisor p) b = {}
          | Some q \<Rightarrow> iSize q = iDivisor p \<and> bv_rep n q (sub_set S (iDivisor p) b)"
        by (auto simp: subs_rep_def)
      note d = sub_index [OF Suc.prems(2) p(2,1)]
      have sub: "i mod iDivisor p \<in> sub_set S (iDivisor p) (i div iDivisor p) \<longleftrightarrow> i \<in> S" by (rule sub_set_index [OF d(2)])
      show ?thesis
      proof (cases "subs ! (i div iDivisor p)")
        case None
        with subs [OF d(1)] sub d p show ?thesis by (subst test_loop.simps) simp
      next
        case (Some q)
        with subs [OF d(1)] have "test_loop q (i mod iDivisor p) = Some (i \<in> S)"
          using Suc.IH [of q "sub_set S (iDivisor p) (i div iDivisor p)" "i mod iDivisor p"] d(3) sub by simp
        with Some d p show ?thesis by (subst test_loop.simps) simp
      qed
    qed
  }
qed

section \<open>Lemmas: setting a bit\<close>

text \<open>
  What a call that sets a bit achieves: it returns, keeps the representation \<open>rep\<close>, adds no other bit and, when it succeeds,
  has added the bit; without a failed allocation it succeeds.
\<close>

definition set_done ::
  "(Bitvec \<Rightarrow> nat set \<Rightarrow> bool) \<Rightarrow> bool list \<Rightarrow> Bitvec \<Rightarrow> nat set \<Rightarrow> nat set \<Rightarrow> (int \<times> Bitvec \<times> bool list) option \<Rightarrow> bool" where
  "set_done rep mem p S N r \<longleftrightarrow>
     (\<exists>rc p' mem' S'. r = Some (rc, p', mem') \<and> rep p' S' \<and> iSize p' = iSize p \<and> S' \<subseteq> N \<union> S \<and>
        rc \<in> {SQLITE_OK, SQLITE_NOMEM} \<and> (rc = SQLITE_OK \<longrightarrow> S' = N \<union> S) \<and>
        set mem' \<subseteq> set mem \<and> (False \<notin> set mem \<longrightarrow> rc = SQLITE_OK))"

lemma set_doneI:
  assumes "r = Some (rc, p', mem')" "rep p' S'" "iSize p' = iSize p" "S' \<subseteq> N \<union> S" "rc \<in> {SQLITE_OK, SQLITE_NOMEM}"
    "rc = SQLITE_OK \<Longrightarrow> S' = N \<union> S" "set mem' \<subseteq> set mem" "False \<notin> set mem \<Longrightarrow> rc = SQLITE_OK"
  shows "set_done rep mem p S N r"
  unfolding set_done_def using assms by blast

lemma set_done_same: "rep p S \<Longrightarrow> i \<in> S \<Longrightarrow> set_done rep mem p S {i} (Some (SQLITE_OK, p, mem))"
  unfolding set_done_def by blast

lemma set_done_nomem:
  "rep p S \<Longrightarrow> set mem' \<subseteq> set mem \<Longrightarrow> False \<in> set mem \<Longrightarrow> set_done rep mem p S N (Some (SQLITE_NOMEM, p, mem'))"
  by (rule set_doneI [where S' = S]) auto

lemma bv_malloc_cases:
  assumes "bv_malloc mem = (ok, mem')"
  shows "set mem' \<subseteq> set mem" "False \<notin> set mem \<Longrightarrow> ok"
  using assms by (auto simp: bv_malloc_def split: list.splits)

text \<open>Replacing the part of a set in one subordinate bitmap.\<close>

definition splice :: "nat set \<Rightarrow> nat \<Rightarrow> nat \<Rightarrow> nat set \<Rightarrow> nat set" where
  "splice S d b T = {x \<in> S. x div d \<noteq> b} \<union> (\<lambda>k. b * d + k) ` T"

lemma block_div: "x < d \<Longrightarrow> (c * d + x) div d = (c :: nat)"
  by (cases "d = 0") simp_all

lemma sub_set_splice:
  assumes "T \<subseteq> {..<d}"
  shows "sub_set (splice S d b T) d c = (if c = b then T else sub_set S d c)"
proof -
  have dis: False if "c * d + x = b * d + y" "x < d" "y < d" "c \<noteq> b" for x y
    using that block_div [of x d c] block_div [of y d b] by simp
  show ?thesis
  proof (cases "c = b")
    case True
    with assms show ?thesis by (auto simp: sub_set_def splice_def block_div)
  next
    case False
    with assms show ?thesis by (auto simp: sub_set_def splice_def block_div dest: dis)
  qed
qed

lemma splice_mono:
  assumes "T \<subseteq> insert (i mod d) (sub_set S d (i div d))" "0 < d"
  shows "splice S d (i div d) T \<subseteq> insert i S"
  using assms by (auto simp: splice_def sub_set_def)

lemma splice_insert:
  assumes "0 < d"
  shows "splice S d (i div d) (insert (i mod d) (sub_set S d (i div d))) = insert i S"
proof -
  have "x \<in> (\<lambda>k. i div d * d + k) ` sub_set S d (i div d)" if "x \<in> S" "x div d = i div d" for x
  proof -
    have "i div d * d + x mod d = x" using that(2) div_mult_mod_eq [of x d] by simp
    with that(1) assms show ?thesis by (intro image_eqI [of _ _ "x mod d"]) (simp_all add: sub_set_def)
  qed
  then show ?thesis by (auto simp: splice_def sub_set_def)
qed

lemma subs_rep_update:
  assumes p: "subs_rep rep p S" "bv_u p = apSub subs" and b: "b < 125"
    and q: "iSize q = iDivisor p" "rep q T" "T \<subseteq> {..<iDivisor p}"
  shows "subs_rep rep (Bitvec (iSize p) (nSet p) (iDivisor p) (apSub (subs[b := Some q]))) (splice S (iDivisor p) b T)"
  using p b q by (auto simp: subs_rep_def sub_set_splice nth_list_update split: option.splits)

text \<open>One level of the recursion, given the level below.\<close>

lemma set_loop_subs:
  assumes IH: "\<And>mem q T k. bv_rep n q T \<Longrightarrow> k < iSize q \<Longrightarrow> set_done (bv_rep n) mem q T {k} (set_loop fuel mem q k)"
    and p: "subs_rep (bv_rep n) p S" "bounded (Suc n) p S" and i: "i < iSize p"
  shows "set_done (\<lambda>p S. subs_rep (bv_rep n) p S \<and> bounded (Suc n) p S) mem p S {i} (set_loop (Suc fuel) mem p i)"
proof -
  define d where "d = iDivisor p"
  define b where "b = i div d"
  obtain subs where u: "4000 < iSize p" "d = (iSize p + 124) div 125" "bv_u p = apSub subs" "length subs = 125"
    and subs: "\<forall>b<125. case subs ! b of None \<Rightarrow> sub_set S d b = {} | Some q \<Rightarrow> iSize q = d \<and> bv_rep n q (sub_set S d b)"
    using p(1) unfolding subs_rep_def d_def by blast
  note idx = sub_index [OF i u(2,1)]
  have size: "d \<le> bv_cap n" "d + 124 < 2 ^ 32"
    using sub_size [OF _ u(2), of n] p(2) by (auto simp: bounded_def)
  have b: "b < 125" using idx(1) by (simp add: b_def)
  obtain sub mem1 where alloc: "(case subs ! b of Some q \<Rightarrow> (Some q, mem) | None \<Rightarrow> sqlite3BitvecCreate mem d) = (sub, mem1)" by fastforce
  have mem1: "set mem1 \<subseteq> set mem" "False \<notin> set mem \<Longrightarrow> sub \<noteq> None"
    using alloc bv_malloc_cases [of mem]
    by (cases "subs ! b"; auto simp: sqlite3BitvecCreate_def split: prod.splits if_splits)+
  have sub: "iSize q = d \<and> bv_rep n q (sub_set S d b)" if "sub = Some q" for q
    using alloc subs [rule_format, OF b] that new_bitvec_rep [OF size]
    by (auto simp: sqlite3BitvecCreate_def new_bitvec_def split: option.splits prod.splits if_splits)
  have run: "set_loop (Suc fuel) mem p i =
      (case sub of
         None \<Rightarrow> Some (SQLITE_NOMEM, p, mem1)
       | Some q \<Rightarrow> do {
           (rc, q, mem) \<leftarrow> set_loop fuel mem1 q (i mod d);
           Some (rc, Bitvec (iSize p) (nSet p) d (apSub (subs[b := Some q])), mem) })"
    unfolding set_loop.simps d_def [symmetric] b_def [symmetric] using u(1,3,4) b idx(2) alloc by simp
  show ?thesis
  proof (cases sub)
    case None
    with run mem1 p show ?thesis by (intro set_doneI [where S' = S]) auto
  next
    case (Some q)
    have "set_done (bv_rep n) mem1 q (sub_set S d b) {i mod d} (set_loop fuel mem1 q (i mod d))"
      using IH [of q "sub_set S d b" "i mod d" mem1] sub [OF Some] idx(3) by simp
    then obtain rc q' mem2 T where r: "set_loop fuel mem1 q (i mod d) = Some (rc, q', mem2)" "bv_rep n q' T" "iSize q' = d"
      "T \<subseteq> {i mod d} \<union> sub_set S d b" "rc \<in> {SQLITE_OK, SQLITE_NOMEM}" "rc = SQLITE_OK \<longrightarrow> T = {i mod d} \<union> sub_set S d b"
      "set mem2 \<subseteq> set mem1" "False \<notin> set mem1 \<longrightarrow> rc = SQLITE_OK"
      using sub [OF Some] unfolding set_done_def by metis
    have T: "T \<subseteq> {..<d}" using r(4) idx(3) by (auto simp: sub_set_def)
    have le: "splice S d b T \<subseteq> insert i S" using splice_mono [OF _ idx(2), of T i S] r(4) by (simp add: b_def)
    define p' where "p' = Bitvec (iSize p) (nSet p) d (apSub (subs[b := Some q']))"
    show ?thesis
    proof (rule set_doneI)
      show "set_loop (Suc fuel) mem p i = Some (rc, p', mem2)" using run r(1) Some by (simp add: p'_def)
      show "subs_rep (bv_rep n) p' (splice S d b T) \<and> bounded (Suc n) p' (splice S d b T)"
        using subs_rep_update [OF p(1) u(3) b, of q' T] r(2,3) T p(2) le i by (auto simp: p'_def d_def bounded_def)
      show "splice S d b T \<subseteq> {i} \<union> S" "iSize p' = iSize p" "set mem2 \<subseteq> set mem" "rc \<in> {SQLITE_OK, SQLITE_NOMEM}"
        using le r(5,7) mem1(1) by (auto simp: p'_def)
      show "splice S d b T = {i} \<union> S" if "rc = SQLITE_OK"
        using splice_insert [OF idx(2), of S i] r(6) that by (simp add: b_def)
      show "rc = SQLITE_OK" if "False \<notin> set mem" using r(8) mem1(1) that by blast
    qed
  qed
qed

lemma set_values_ok:
  assumes step: "\<And>mem p S i. R p S \<Longrightarrow> i < iSize p \<Longrightarrow> set_done R mem p S {i} (set_loop fuel mem p i)"
    and "R p S" "\<forall>v\<in>set vs. v \<le> iSize p" "iSize p < 2 ^ 32" "rc \<in> {SQLITE_OK, SQLITE_NOMEM}"
  shows "\<exists>rc' p' mem' S'. set_values fuel mem p vs rc = Some (rc', p', mem') \<and> R p' S' \<and> iSize p' = iSize p \<and>
     S' \<subseteq> (\<lambda>v. v - 1) ` set (values_of vs) \<union> S \<and> rc' \<in> {SQLITE_OK, SQLITE_NOMEM} \<and>
     (rc' = SQLITE_OK \<longrightarrow> rc = SQLITE_OK \<and> S' = (\<lambda>v. v - 1) ` set (values_of vs) \<union> S) \<and>
     set mem' \<subseteq> set mem \<and> (rc = SQLITE_OK \<and> False \<notin> set mem \<longrightarrow> rc' = SQLITE_OK)"
  using assms(2-)
proof (induction vs arbitrary: mem p S rc)
  case Nil
  then show ?case by auto
next
  case (Cons v vs)
  show ?case
  proof (cases "v = 0")
    case True
    with Cons.IH [of p S rc mem] Cons.prems show ?thesis by simp
  next
    case False
    have v: "v - 1 < iSize p" "dec32 v = v - 1" using Cons.prems(2,3) False by (auto simp: dec32_pos)
    from step [OF Cons.prems(1) v(1), of mem] obtain rc1 p1 mem1 S1 where
      r1: "set_loop fuel mem p (v - 1) = Some (rc1, p1, mem1)" "R p1 S1" "iSize p1 = iSize p" "S1 \<subseteq> {v - 1} \<union> S"
        "rc1 \<in> {SQLITE_OK, SQLITE_NOMEM}" "rc1 = SQLITE_OK \<longrightarrow> S1 = {v - 1} \<union> S" "set mem1 \<subseteq> set mem"
        "False \<notin> set mem \<longrightarrow> rc1 = SQLITE_OK"
      unfolding set_done_def by blast
    have rc: "rc OR rc1 \<in> {SQLITE_OK, SQLITE_NOMEM}" "rc OR rc1 = SQLITE_OK \<longleftrightarrow> rc = SQLITE_OK \<and> rc1 = SQLITE_OK"
      using r1(5) Cons.prems(4) by auto
    obtain rc' p' mem' S' where r2: "set_values fuel mem1 p1 vs (rc OR rc1) = Some (rc', p', mem')" "R p' S'" "iSize p' = iSize p1"
        "S' \<subseteq> (\<lambda>v. v - 1) ` set (values_of vs) \<union> S1" "rc' \<in> {SQLITE_OK, SQLITE_NOMEM}"
        "rc' = SQLITE_OK \<longrightarrow> rc OR rc1 = SQLITE_OK \<and> S' = (\<lambda>v. v - 1) ` set (values_of vs) \<union> S1"
        "set mem' \<subseteq> set mem1" "rc OR rc1 = SQLITE_OK \<and> False \<notin> set mem1 \<longrightarrow> rc' = SQLITE_OK"
      using Cons.IH [OF r1(2) _ _ rc(1), of mem1] Cons.prems(2,3) r1(3) by auto
    have run: "set_values fuel mem p (v # vs) rc = Some (rc', p', mem')" using False v(2) r1(1) r2(1) by simp
    define N where "N = (\<lambda>v. v - 1) ` set (values_of vs)"
    have N: "(\<lambda>v. v - 1) ` set (values_of (v # vs)) = insert (v - 1) N" using False by (simp add: N_def)
    have "S' \<subseteq> insert (v - 1) N \<union> S" using r2(4) r1(4) by (auto simp: N_def)
    moreover have "rc = SQLITE_OK \<and> S' = insert (v - 1) N \<union> S" if "rc' = SQLITE_OK"
      using r2(6) r1(6) rc(2) that by (auto simp: N_def)
    moreover have "rc' = SQLITE_OK" if "rc = SQLITE_OK \<and> False \<notin> set mem"
      using r2(8) r1(7,8) rc(2) that by auto
    moreover have "set mem' \<subseteq> set mem" "iSize p' = iSize p" using r2(3,7) r1(3,7) by auto
    ultimately show ?thesis unfolding run N using r2(2,5) by blast
  qed
qed

lemma set_loop_bitmap:
  assumes "bitmap_rep p S" "bounded n p S" "i < iSize p"
  shows "set_done (bv_rep n) mem p S {i} (set_loop (Suc fuel) mem p i)"
proof -
  obtain bs where bs: "bv_u p = aBitmap bs" "length bs = 500" "S = {k. k < iSize p \<and> bit (bs ! (k div 8)) (k mod 8)}"
    and p: "iSize p \<le> 4000" "iDivisor p = 0" using assms(1) by (auto simp: bitmap_rep_def)
  define bs' where "bs' = bs[i div 8 := bs ! (i div 8) OR push_bit (i mod 8) 1]"
  define p' where "p' = Bitvec (iSize p) (nSet p) 0 (aBitmap bs')"
  have len: "length bs' = 500" using bs(2) by (simp add: bs'_def)
  have i: "i div 8 < 500" using assms(3) p(1) by simp
  have bit: "bit (bs' ! (k div 8)) (k mod 8) \<longleftrightarrow> k = i \<or> bit (bs ! (k div 8)) (k mod 8)" for k
  proof (cases "k div 8 = i div 8")
    case True
    have "k mod 8 = i mod 8 \<longleftrightarrow> k = i" using True div_mult_mod_eq [of k 8] div_mult_mod_eq [of i 8] by metis
    with True i bs(2) show ?thesis by (auto simp: bs'_def bit_simps)
  qed (use bs(2) in \<open>auto simp: bs'_def nth_list_update\<close>)
  show ?thesis
  proof (rule set_doneI)
    show "set_loop (Suc fuel) mem p i = Some (SQLITE_OK, p', mem)" using bs i p by (simp add: p'_def bs'_def)
    have "bitmap_rep p' (insert i S)"
      using bs(3) len p assms(3) unfolding bitmap_rep_def p'_def by (auto simp: bit)
    moreover have "bounded n p' (insert i S)" using assms(2,3) by (auto simp: bounded_def p'_def)
    ultimately show "bv_rep n p' (insert i S)" using p(1) by (subst bv_rep_bitmap) (auto simp: p'_def)
  qed (auto simp: p'_def)
qed

lemma hash_put_rep:
  assumes "hash_rep p S" "bounded (Suc n) p S" "i < iSize p" "hash_ok (hs[j := i + 1]) (nSet p + 1) (insert i S)"
  shows "set_done (bv_rep (Suc n)) mem p S {i} (Some (SQLITE_OK, hash_put p hs j (i + 1), mem))"
  by (rule set_doneI [where p' = "hash_put p hs j (i + 1)" and S' = "insert i S"])
    (use assms in \<open>auto simp: hash_put_def hash_rep_def bounded_def\<close>)

lemma subdivided_rep:
  assumes "hash_rep p S" "bounded (Suc n) p S"
  shows "subs_rep R (subdivided p) {} \<and> bounded (Suc n) (subdivided p) {}"
  using assms by (auto simp: subs_rep_def subdivided_def bounded_def hash_rep_def sub_set_def)

lemma rehash_step:
  assumes IH: "\<And>mem q T k. bv_rep n q T \<Longrightarrow> k < iSize q \<Longrightarrow> set_done (bv_rep n) mem q T {k} (set_loop fuel mem q k)"
    and p: "hash_rep p S" "bounded (Suc n) p S" "bv_u p = aHash hs" and i: "i < iSize p"
  shows "set_done (bv_rep (Suc n)) mem p S {i}
     (do { (rc, p, mem) \<leftarrow> set_loop (Suc fuel) mem (subdivided p) i; set_values (Suc fuel) mem p hs rc })"
proof -
  define R where "R = (\<lambda>p S. subs_rep (bv_rep n) p S \<and> bounded (Suc n) p S)"
  have step: "set_done R mem p S {i} (set_loop (Suc fuel) mem p i)" if "R p S" "i < iSize p" for mem p S i
    using set_loop_subs [OF IH, where p = p and S = S and i = i and mem = mem] that unfolding R_def by blast
  have size: "iSize (subdivided p) = iSize p" "iSize p < 2 ^ 32" using p(2) by (simp_all add: subdivided_def bounded_def)
  have S: "S = (\<lambda>v. v - 1) ` set (values_of hs)" using p(1,3) by (auto simp: hash_rep_def hash_ok_def)
  have "R (subdivided p) {}" using subdivided_rep [OF p(1,2)] by (simp add: R_def)
  from step [OF this, of i mem] i obtain rc1 p1 mem1 S1 where
    r1: "set_loop (Suc fuel) mem (subdivided p) i = Some (rc1, p1, mem1)" "R p1 S1" "iSize p1 = iSize p" "S1 \<subseteq> {i}"
      "rc1 \<in> {SQLITE_OK, SQLITE_NOMEM}" "rc1 = SQLITE_OK \<longrightarrow> S1 = {i}" "set mem1 \<subseteq> set mem" "False \<notin> set mem \<longrightarrow> rc1 = SQLITE_OK"
    unfolding set_done_def size by auto
  have "v \<le> iSize p1" if "v \<in> set hs" for v
  proof (cases "v = 0")
    case False
    then have "v - 1 \<in> S" using that by (auto simp: S)
    then show ?thesis using p(2) r1(3) by (auto simp: bounded_def)
  qed simp
  then obtain rc' p' mem' S' where r2: "set_values (Suc fuel) mem1 p1 hs rc1 = Some (rc', p', mem')" "R p' S'" "iSize p' = iSize p1"
      "S' \<subseteq> S \<union> S1" "rc' \<in> {SQLITE_OK, SQLITE_NOMEM}" "rc' = SQLITE_OK \<longrightarrow> rc1 = SQLITE_OK \<and> S' = S \<union> S1"
      "set mem' \<subseteq> set mem1" "rc1 = SQLITE_OK \<and> False \<notin> set mem1 \<longrightarrow> rc' = SQLITE_OK"
    using set_values_ok [OF step r1(2) _ _ r1(5), of hs mem1] size(2) r1(3) unfolding S by auto
  show ?thesis
  proof (rule set_doneI)
    show "do { (rc, p, mem) \<leftarrow> set_loop (Suc fuel) mem (subdivided p) i; set_values (Suc fuel) mem p hs rc } = Some (rc', p', mem')"
      by (simp add: r1(1) r2(1) del: set_loop.simps)
    show "bv_rep (Suc n) p' S'" using r2(2) by (simp add: R_def)
    show "S' \<subseteq> {i} \<union> S" using r2(4) r1(4) by blast
    show "S' = {i} \<union> S" if "rc' = SQLITE_OK" using r2(6) r1(6) that by blast
    show "rc' = SQLITE_OK" if "False \<notin> set mem" using r2(8) r1(7,8) that by blast
  qed (use r1 r2 in auto)
qed

lemma set_loop_hash:
  assumes IH: "\<And>mem q T k. bv_rep n q T \<Longrightarrow> k < iSize q \<Longrightarrow> set_done (bv_rep n) mem q T {k} (set_loop fuel mem q k)"
    and p: "hash_rep p S" "bounded (Suc n) p S" and i: "i < iSize p"
  shows "set_done (bv_rep (Suc n)) mem p S {i} (set_loop (Suc (Suc fuel)) mem p i)"
proof -
  define h where "h = BITVEC_HASH i"
  obtain hs where hs: "bv_u p = aHash hs" "hash_ok hs (nSet p) S" and p1: "4000 < iSize p" "iDivisor p = 0"
    using p(1) by (auto simp: hash_rep_def)
  obtain k where k: "k < 125" "probe_slot hs h k = 0 \<or> probe_slot hs h k = i + 1" "\<forall>k'<k. probe_slot hs h k' \<noteq> 0 \<and> probe_slot hs h k' \<noteq> i + 1"
    "probe_slot hs h k \<noteq> 0 \<longleftrightarrow> i \<in> S" using hash_probe [OF hs(2), of i] unfolding h_def by metis
  define j where "j = (h + k) mod 125"
  have h: "h < 125" by (simp add: h_def BITVEC_HASH_def)
  have free: "k = 0 \<and> i \<notin> S \<and> j = h" if "hs ! h = 0"
  proof -
    have "k = 0" using k(3) that slot_0 [OF h, of hs] by (metis not_gr_zero)
    with k(4) that slot_0 [OF h, of hs] h show ?thesis by (simp add: j_def)
  qed
  have ins: "hash_ok (hs[j := i + 1]) (nSet p + 1) (insert i S)" if "i \<notin> S" "nSet p + 1 < 125"
    using hash_insert [OF hs(2) that(2,1) k(1), of j] k(3,4) that(1) by (simp add: h_def j_def)
  have probe: "probe_set hs (Suc i) h = Some (if i \<in> S then None else Some j)" if "hs ! h \<noteq> 0"
    using probe_set_run [OF h k(3,2) _ that] k(4) by (auto simp: j_def)
  define rest where "rest = do { (rc, p, mem) \<leftarrow> set_loop (Suc fuel) (snd (bv_malloc mem)) (subdivided p) i; set_values (Suc fuel) mem p hs rc }"
  have i32: "i < 2 ^ 32" using p(2) i by (simp add: bounded_def)
  have run: "set_loop (Suc (Suc fuel)) mem p i =
      (if hs ! h = 0 \<and> nSet p < 124 then Some (SQLITE_OK, hash_put p hs h (i + 1), mem)
       else if i \<in> S then Some (SQLITE_OK, p, mem)
       else if nSet p \<ge> 62 then if \<not> fst (bv_malloc mem) then Some (SQLITE_NOMEM, p, snd (bv_malloc mem)) else rest
       else Some (SQLITE_OK, hash_put p hs j (i + 1), mem))"
    unfolding set_loop.simps(2) [of "Suc fuel" mem p i] h_def [symmetric] Let_def
    using p1 hs(1) i32 free probe
    by (cases "hs ! h = 0"; simp add: rest_def case_prod_beta del: set_loop.simps)
  have "bounded (Suc n) p S \<and> hash_rep p S" using p by simp
  then have same: "bv_rep (Suc n) p S" by simp
  note mal = bv_malloc_cases [of mem "fst (bv_malloc mem)" "snd (bv_malloc mem)", simplified]
  show ?thesis
  proof (cases "hs ! h = 0 \<and> nSet p < 124")
    case True
    with hash_put_rep [OF p i, of hs h mem] ins free show ?thesis unfolding run by simp
  next
    case False
    show ?thesis
    proof (cases "i \<in> S \<or> nSet p \<ge> 62 \<and> \<not> fst (bv_malloc mem)")
      case True
      then show ?thesis unfolding run if_not_P [OF False]
        using set_done_same [where rep = "bv_rep (Suc n)", OF same] set_done_nomem [where rep = "bv_rep (Suc n)", OF same mal(1)] mal(2) by (cases "i \<in> S") auto
    next
      case notin: False
      show ?thesis
      proof (cases "nSet p \<ge> 62")
        case True
        have "set_done (bv_rep (Suc n)) (snd (bv_malloc mem)) p S {i} rest"
          unfolding rest_def by (rule rehash_step [OF IH p hs(1) i])
        then have "set_done (bv_rep (Suc n)) mem p S {i} rest" using mal unfolding set_done_def by blast
        with True notin show ?thesis unfolding run if_not_P [OF False] by simp
      next
        case small: False
        with hash_put_rep [OF p i, of hs j mem] ins notin show ?thesis unfolding run if_not_P [OF False] by simp
      qed
    qed
  qed
qed

lemma set_loop_ok:
  "2 * n + 1 \<le> fuel \<Longrightarrow> bv_rep n p S \<Longrightarrow> i < iSize p \<Longrightarrow> set_done (bv_rep n) mem p S {i} (set_loop fuel mem p i)"
proof (induction n arbitrary: fuel mem p S i)
  case 0
  then obtain f where f: "fuel = Suc f" by (cases fuel) auto
  show ?case unfolding f by (rule set_loop_bitmap) (use 0 in simp_all)
next
  case (Suc n)
  define f where "f = fuel - 2"
  have f: "fuel = Suc (Suc f)" "2 * n + 1 \<le> f" using Suc.prems(1) by (simp_all add: f_def)
  note IH = Suc.IH [OF f(2)]
  from Suc.prems have b: "bounded (Suc n) p S"
    and c: "bitmap_rep p S \<or> hash_rep p S \<or> subs_rep (bv_rep n) p S" by auto
  from c consider "bitmap_rep p S" | "hash_rep p S" | "subs_rep (bv_rep n) p S" by blast
  then show ?case
  proof cases
    case 1
    show ?thesis unfolding f(1) by (rule set_loop_bitmap [OF 1 b Suc.prems(3)])
  next
    case 2
    show ?thesis unfolding f(1) by (rule set_loop_hash [OF IH 2 b Suc.prems(3)])
  next
    case 3
    have "set_done (\<lambda>p S. subs_rep (bv_rep n) p S \<and> bounded (Suc n) p S) mem p S {i} (set_loop (Suc (Suc f)) mem p i)"
      by (rule set_loop_subs [OF Suc.IH 3 b Suc.prems(3)]) (use f(2) in simp_all)
    then show ?thesis unfolding f(1) set_done_def by auto
  qed
qed

section \<open>Lemmas: clearing a bit\<close>

lemma rebuild_ok:
  assumes "hash_ok hs n S" "distinct (values_of vs)" "(\<lambda>v. v - 1) ` set (values_of vs) \<inter> S = {}"
    and "n + length (values_of vs) < 125" "\<forall>v\<in>set vs. v < 2 ^ 32"
  shows "\<exists>n' hs'. rebuild i vs (n, hs) = Some (n', hs') \<and> hash_ok hs' n' (S \<union> ((\<lambda>v. v - 1) ` set (values_of vs) - {i}))"
  using assms
proof (induction vs arbitrary: n hs S)
  case (Cons v vs)
  consider "v = 0" | "v = i + 1" | "v \<noteq> 0" "v \<noteq> i + 1" by blast
  then show ?case
  proof cases
    case 1
    with Cons.IH [of hs n S] Cons.prems show ?thesis by simp
  next
    case 2
    have "S \<union> ((\<lambda>v. v - 1) ` set (values_of (v # vs)) - {i}) = S \<union> ((\<lambda>v. v - 1) ` set (values_of vs) - {i})" using 2 by auto
    with Cons.IH [of hs n S] Cons.prems 2 show ?thesis by simp
  next
    case 3
    then obtain w where v: "v = w + 1" "w \<noteq> i" by (cases v) auto
    have w: "w \<notin> S" using Cons.prems(3) v by auto
    obtain k where k: "k < 125" "probe_slot hs (BITVEC_HASH w) k = 0" "\<forall>k'<k. probe_slot hs (BITVEC_HASH w) k' \<noteq> 0"
      using hash_probe [OF Cons.prems(1), of w] w by metis
    define j where "j = (BITVEC_HASH w + k) mod 125"
    have n: "n + 1 < 125" using Cons.prems(4) v by simp
    have ok: "hash_ok (hs[j := w + 1]) (n + 1) (insert w S)"
      by (rule hash_insert [OF Cons.prems(1) n w k j_def])
    have run: "rebuild i (v # vs) (n, hs) = rebuild i vs (n + 1, hs[j := w + 1])"
      using free_slot_run [OF _ k(3,2)] Cons.prems(5) v by (simp add: j_def BITVEC_HASH_def)
    have "w \<notin> (\<lambda>v. v - 1) ` set (values_of vs)" using Cons.prems(2) v by force
    then have "(\<lambda>v. v - 1) ` set (values_of vs) \<inter> insert w S = {}" using Cons.prems(3) v by auto
    from Cons.IH [OF ok _ this] Cons.prems(2,4,5) v
    obtain n' hs' where r: "rebuild i vs (n + 1, hs[j := w + 1]) = Some (n', hs')"
      "hash_ok hs' n' (insert w S \<union> ((\<lambda>v. v - 1) ` set (values_of vs) - {i}))" by auto
    have "insert w S \<union> ((\<lambda>v. v - 1) ` set (values_of vs) - {i}) = S \<union> ((\<lambda>v. v - 1) ` set (values_of (v # vs)) - {i})"
      using v by auto
    with r run show ?thesis by auto
  qed
qed auto

lemma clear_bitmap:
  assumes "bitmap_rep p S" "bounded n p S" "i < iSize p"
  shows "\<exists>p'. bv_clear_loop p i = Some p' \<and> bv_rep n p' (S - {i}) \<and> iSize p' = iSize p"
proof -
  obtain bs where bs: "bv_u p = aBitmap bs" "length bs = 500" "S = {k. k < iSize p \<and> bit (bs ! (k div 8)) (k mod 8)}"
    and p: "iSize p \<le> 4000" "iDivisor p = 0" using assms(1) by (auto simp: bitmap_rep_def)
  define bs' where "bs' = bs[i div 8 := bs ! (i div 8) AND NOT (push_bit (i mod 8) 1)]"
  define p' where "p' = Bitvec (iSize p) (nSet p) 0 (aBitmap bs')"
  have len: "length bs' = 500" using bs(2) by (simp add: bs'_def)
  have i: "i div 8 < 500" using assms(3) p(1) by simp
  have bit: "bit (bs' ! (k div 8)) (k mod 8) \<longleftrightarrow> k \<noteq> i \<and> bit (bs ! (k div 8)) (k mod 8)" for k
  proof (cases "k div 8 = i div 8")
    case True
    have "k mod 8 = i mod 8 \<longleftrightarrow> k = i" using True div_mult_mod_eq [of k 8] div_mult_mod_eq [of i 8] by metis
    with True i bs(2) show ?thesis by (auto simp: bs'_def bit_simps)
  qed (use bs(2) in \<open>auto simp: bs'_def nth_list_update\<close>)
  have "bv_clear_loop p i = Some p'" using bs i p by (subst bv_clear_loop.simps) (simp add: p'_def bs'_def)
  moreover have "bitmap_rep p' (S - {i})" using bs(3) len p unfolding bitmap_rep_def p'_def by (auto simp: bit)
  moreover have "bounded n p' (S - {i})" using assms(2) by (auto simp: bounded_def p'_def)
  ultimately show ?thesis using p(1) by (intro exI [of _ p']) (subst bv_rep_bitmap, auto simp: p'_def)
qed

lemma clear_hash:
  assumes "hash_rep p S" "bounded (Suc n) p S" "i < iSize p"
  shows "\<exists>p'. bv_clear_loop p i = Some p' \<and> bv_rep (Suc n) p' (S - {i}) \<and> iSize p' = iSize p"
proof -
  obtain hs where hs: "bv_u p = aHash hs" "hash_ok hs (nSet p) S" and p: "4000 < iSize p" "iDivisor p = 0"
    using assms(1) by (auto simp: hash_rep_def)
  have S: "S = (\<lambda>v. v - 1) ` set (values_of hs)" using hs(2) by (simp add: hash_ok_def)
  have "v < 2 ^ 32" if "v \<in> set hs" for v
  proof (cases "v = 0")
    case False
    then have "v - 1 \<in> S" using that by (auto simp: S)
    then show ?thesis using assms(2) by (auto simp: bounded_def)
  qed simp
  with rebuild_ok [OF hash_ok_empty, of hs i] hs(2) obtain n' hs' where
    r: "rebuild i hs (0, replicate 125 0) = Some (n', hs')" "hash_ok hs' n' (S - {i})"
    by (auto simp: hash_ok_def S)
  define p' where "p' = Bitvec (iSize p) n' 0 (aHash hs')"
  have "bv_clear_loop p i = Some p'" using p hs(1) r(1) by (subst bv_clear_loop.simps) (simp add: p'_def)
  moreover have "hash_rep p' (S - {i})" "bounded (Suc n) p' (S - {i})"
    using r(2) p assms(2) by (auto simp: hash_rep_def p'_def bounded_def)
  ultimately show ?thesis by (intro exI [of _ p']) (simp add: p'_def)
qed

lemma splice_remove:
  assumes "0 < d"
  shows "splice S d (i div d) (sub_set S d (i div d) - {i mod d}) = S - {i}"
proof -
  have "x \<in> (\<lambda>k. i div d * d + k) ` (sub_set S d (i div d) - {i mod d})" if "x \<in> S" "x \<noteq> i" "x div d = i div d" for x
  proof -
    have "i div d * d + x mod d = x" using that(3) div_mult_mod_eq [of x d] by simp
    moreover from this that(2) have "x mod d \<noteq> i mod d" by (metis div_mult_mod_eq)
    ultimately show ?thesis using that(1) assms by (intro image_eqI [of _ _ "x mod d"]) (simp_all add: sub_set_def)
  qed
  moreover have "y = i mod d" if "i div d * d + y = i" "y < d" for y
    using that by (metis add_left_cancel div_mult_mod_eq)
  ultimately show ?thesis by (auto simp: splice_def sub_set_def)
qed

lemma clear_ok: "bv_rep n p S \<Longrightarrow> i < iSize p \<Longrightarrow>
    \<exists>p'. bv_clear_loop p i = Some p' \<and> bv_rep n p' (S - {i}) \<and> iSize p' = iSize p"
proof (induction n arbitrary: p S i)
  case 0
  then show ?case by (intro clear_bitmap) auto
next
  case (Suc n)
  from Suc.prems have b: "bounded (Suc n) p S"
    and c: "bitmap_rep p S \<or> hash_rep p S \<or> subs_rep (bv_rep n) p S" by auto
  from c consider "bitmap_rep p S" | "hash_rep p S" | "subs_rep (bv_rep n) p S" by blast
  then show ?case
  proof cases
    case 3
    define d where "d = iDivisor p"
    define k where "k = i div d"
    obtain subs where u: "4000 < iSize p" "d = (iSize p + 124) div 125" "bv_u p = apSub subs" "length subs = 125"
      and subs: "\<forall>b<125. case subs ! b of None \<Rightarrow> sub_set S d b = {} | Some q \<Rightarrow> iSize q = d \<and> bv_rep n q (sub_set S d b)"
      using 3 unfolding subs_rep_def d_def by blast
    note idx = sub_index [OF Suc.prems(2) u(2,1)]
    have k: "k < 125" using idx(1) by (simp add: k_def)
    show ?thesis
    proof (cases "subs ! k")
      case None
      then have "i \<notin> S" using subs [rule_format, OF k] sub_set_index [OF idx(2), of i S] by (simp add: k_def)
      moreover have "bv_clear_loop p i = Some p"
        using u idx None by (subst bv_clear_loop.simps) (simp add: d_def k_def)
      ultimately show ?thesis using Suc.prems(1) by simp
    next
      case (Some q)
      then obtain q' where q': "bv_clear_loop q (i mod d) = Some q'" "bv_rep n q' (sub_set S d k - {i mod d})" "iSize q' = d"
        using Suc.IH [of q "sub_set S d k" "i mod d"] subs [rule_format, OF k] idx(3) by auto
      define p' where "p' = Bitvec (iSize p) (nSet p) d (apSub (subs[k := Some q']))"
      have "bv_clear_loop p i = Some p'"
        using u(1,3,4) idx k Some q'(1) unfolding k_def d_def p'_def by (subst bv_clear_loop.simps) simp
      moreover have "subs_rep (bv_rep n) p' (S - {i})"
        using subs_rep_update [OF 3 u(3) k, of q' "sub_set S d k - {i mod d}"] q'(2,3) splice_remove [OF idx(2), of S i]
        by (auto simp: p'_def d_def k_def sub_set_def)
      moreover have "bounded (Suc n) p' (S - {i})" using b by (auto simp: bounded_def p'_def)
      ultimately show ?thesis by (intro exI [of _ p']) (simp add: p'_def)
    qed
  qed (use b Suc.prems(2) clear_bitmap clear_hash in blast)+
qed

section \<open>The interface of a bitmap\<close>

text \<open>A bitmap with bits from 1 to its size, which may fail to set a bit and then loses at most bits it had.\<close>

locale bit_set =
  fixes rep :: "'s \<Rightarrow> nat set \<Rightarrow> bool" and limit :: "'s \<Rightarrow> nat" and test :: "'s \<Rightarrow> nat \<Rightarrow> bool option"
    and add :: "bool list \<Rightarrow> 's \<Rightarrow> nat \<Rightarrow> (int \<times> 's \<times> bool list) option" and remove :: "'s \<Rightarrow> nat \<Rightarrow> 's option"
  assumes test_law: "rep s S \<Longrightarrow> test s i = Some (i \<in> S)"
    and add_law: "rep s S \<Longrightarrow> 0 < i \<Longrightarrow> i \<le> limit s \<Longrightarrow>
      \<exists>rc s' mem' S'. add mem s i = Some (rc, s', mem') \<and> rep s' S' \<and> limit s' = limit s \<and> S' \<subseteq> insert i S \<and>
        (rc = SQLITE_OK \<longrightarrow> S' = insert i S) \<and> set mem' \<subseteq> set mem \<and> (False \<notin> set mem \<longrightarrow> rc = SQLITE_OK)"
    and remove_law: "rep s S \<Longrightarrow> 0 < i \<Longrightarrow> i \<le> limit s \<Longrightarrow>
      \<exists>s'. remove s i = Some s' \<and> rep s' (S - {i}) \<and> limit s' = limit s"

datatype bit_op = SetBit nat | ClearBit nat

fun op_bit :: "bit_op \<Rightarrow> nat" where
  "op_bit (SetBit i) = i"
| "op_bit (ClearBit i) = i"

text \<open>A sequence of operations, which ends with the first error.\<close>

fun bit_run :: "(bool list \<Rightarrow> 's \<Rightarrow> nat \<Rightarrow> (int \<times> 's \<times> bool list) option) \<Rightarrow> ('s \<Rightarrow> nat \<Rightarrow> 's option) \<Rightarrow>
    bool list \<Rightarrow> 's \<Rightarrow> bit_op list \<Rightarrow> (int \<times> 's) option" where
  "bit_run add remove mem s [] = Some (SQLITE_OK, s)"
| "bit_run add remove mem s (SetBit i # ops) =
     (case add mem s i of
        None \<Rightarrow> None
      | Some (rc, s', mem') \<Rightarrow> if rc = SQLITE_OK then bit_run add remove mem' s' ops else Some (rc, s'))"
| "bit_run add remove mem s (ClearBit i # ops) =
     (case remove s i of None \<Rightarrow> None | Some s' \<Rightarrow> bit_run add remove mem s' ops)"

fun bits_after :: "nat set \<Rightarrow> bit_op list \<Rightarrow> nat set" where
  "bits_after S [] = S"
| "bits_after S (SetBit i # ops) = bits_after (insert i S) ops"
| "bits_after S (ClearBit i # ops) = bits_after (S - {i}) ops"

context bit_set
begin

lemma bit_run_rep:
  assumes "rep s S" "\<forall>op\<in>set ops. 0 < op_bit op \<and> op_bit op \<le> limit s"
  shows "\<exists>rc s' S'. bit_run add remove mem s ops = Some (rc, s') \<and> rep s' S' \<and>
     (rc = SQLITE_OK \<longrightarrow> S' = bits_after S ops) \<and> (False \<notin> set mem \<longrightarrow> rc = SQLITE_OK)"
  using assms
proof (induction ops arbitrary: s S mem)
  case Nil
  then show ?case by auto
next
  case (Cons op ops)
  show ?case
  proof (cases op)
    case (SetBit i)
    with Cons.prems(2) have i: "0 < i" "i \<le> limit s" by auto
    from add_law [OF Cons.prems(1) i, of mem] obtain rc s1 mem1 S1 where
      a: "add mem s i = Some (rc, s1, mem1)" "rep s1 S1" "limit s1 = limit s" "rc = SQLITE_OK \<longrightarrow> S1 = insert i S"
        "set mem1 \<subseteq> set mem" "False \<notin> set mem \<longrightarrow> rc = SQLITE_OK" by metis
    show ?thesis
    proof (cases "rc = SQLITE_OK")
      case True
      from Cons.IH [OF a(2), of mem1] Cons.prems(2) a(3) obtain rc' s' S' where
        "bit_run add remove mem1 s1 ops = Some (rc', s')" "rep s' S'" "rc' = SQLITE_OK \<longrightarrow> S' = bits_after S1 ops"
        "False \<notin> set mem1 \<longrightarrow> rc' = SQLITE_OK" by auto
      with True a SetBit show ?thesis by auto
    next
      case False
      with a SetBit show ?thesis by auto
    qed
  next
    case (ClearBit i)
    with Cons.prems(2) have i: "0 < i" "i \<le> limit s" by auto
    from remove_law [OF Cons.prems(1) i] obtain s1 where
      "remove s i = Some s1" "rep s1 (S - {i})" "limit s1 = limit s" by blast
    with Cons.IH [of s1 "S - {i}" mem] Cons.prems(2) ClearBit show ?thesis by simp
  qed
qed

lemma bit_run_test:
  assumes "rep s {}" "\<forall>op\<in>set ops. 0 < op_bit op \<and> op_bit op \<le> limit s"
  shows "\<exists>rc s'. bit_run add remove mem s ops = Some (rc, s') \<and>
     (rc = SQLITE_OK \<longrightarrow> (\<forall>i. test s' i = Some (i \<in> bits_after {} ops))) \<and> (False \<notin> set mem \<longrightarrow> rc = SQLITE_OK)"
  using bit_run_rep [OF assms, of mem] test_law by metis

end

text \<open>The representation with bits counted from 1, at the depth that is enough for every size.\<close>

definition bitvec_rep :: "Bitvec \<Rightarrow> nat set \<Rightarrow> bool" where
  "bitvec_rep p S \<longleftrightarrow> bv_rep 3 p {k. Suc k \<in> S} \<and> 0 \<notin> S"

definition set_op :: "bool list \<Rightarrow> Bitvec \<Rightarrow> nat \<Rightarrow> (int \<times> Bitvec \<times> bool list) option" where
  "set_op mem p i =
     (case sqlite3BitvecSet mem (Some p) i of Some (rc, Some p', mem') \<Rightarrow> Some (rc, p', mem') | _ \<Rightarrow> None)"

definition clear_op :: "Bitvec \<Rightarrow> nat \<Rightarrow> Bitvec option" where
  "clear_op p i = (case sqlite3BitvecClear (Some p) i of Some (Some p') \<Rightarrow> Some p' | _ \<Rightarrow> None)"

lemma Suc_image: "0 \<notin> S \<Longrightarrow> Suc ` {k. Suc k \<in> S} = S"
proof
  assume "0 \<notin> S"
  show "S \<subseteq> Suc ` {k. Suc k \<in> S}"
  proof
    fix x assume "x \<in> S"
    with \<open>0 \<notin> S\<close> show "x \<in> Suc ` {k. Suc k \<in> S}" by (cases x) auto
  qed
qed auto

lemma bitvec_rep_bounds:
  assumes "bitvec_rep p S"
  shows "iSize p + 124 < 2 ^ 32" "S \<subseteq> {1..iSize p}"
proof -
  have b: "bounded 3 p {k. Suc k \<in> S}" "0 \<notin> S" using assms bv_rep_bounded by (auto simp: bitvec_rep_def)
  then show "iSize p + 124 < 2 ^ 32" by (simp add: bounded_def)
  have "Suc ` {k. Suc k \<in> S} \<subseteq> {1..iSize p}" using b(1) by (auto simp: bounded_def)
  then show "S \<subseteq> {1..iSize p}" unfolding Suc_image [OF b(2)] .
qed

lemma bitvec_test_ok:
  assumes "bitvec_rep p S"
  shows "sqlite3BitvecTest (Some p) i = Some (i \<in> S)"
proof (cases "i = 0 \<or> iSize p < i")
  case True
  with bitvec_rep_bounds [OF assms] show ?thesis by (auto simp: sqlite3BitvecTest_def)
next
  case False
  then obtain k where k: "i = Suc k" "k < iSize p" by (cases i) auto
  with bitvec_rep_bounds [OF assms] test_loop_ok [of 3 p "{k. Suc k \<in> S}" k] assms show ?thesis
    by (simp add: sqlite3BitvecTest_def bitvec_rep_def)
qed

lemma bitvec_set_ok:
  assumes "bitvec_rep p S" "0 < i" "i \<le> iSize p"
  shows "\<exists>rc p' mem' S'. sqlite3BitvecSet mem (Some p) i = Some (rc, Some p', mem') \<and> bitvec_rep p' S' \<and> iSize p' = iSize p \<and>
     S' \<subseteq> insert i S \<and> (rc = SQLITE_OK \<longrightarrow> S' = insert i S) \<and> set mem' \<subseteq> set mem \<and> (False \<notin> set mem \<longrightarrow> rc = SQLITE_OK)"
proof -
  obtain k where k: "i = Suc k" "k < iSize p" using assms(2,3) by (cases i) auto
  have "set_done (bv_rep 3) mem p {k. Suc k \<in> S} {k} (set_loop 7 mem p k)"
    by (rule set_loop_ok) (use assms(1) k in \<open>simp_all add: bitvec_rep_def\<close>)
  then obtain rc p' mem' T where r: "set_loop 7 mem p k = Some (rc, p', mem')" "bv_rep 3 p' T" "iSize p' = iSize p"
    "T \<subseteq> {k} \<union> {k. Suc k \<in> S}" "rc = SQLITE_OK \<longrightarrow> T = {k} \<union> {k. Suc k \<in> S}" "set mem' \<subseteq> set mem"
    "False \<notin> set mem \<longrightarrow> rc = SQLITE_OK" unfolding set_done_def by blast
  have "{k. Suc k \<in> Suc ` T} = T" by auto
  then have "bitvec_rep p' (Suc ` T)" using r(2) by (simp add: bitvec_rep_def)
  moreover have "Suc ` {k. Suc k \<in> S} = S" using assms(1) by (intro Suc_image) (simp add: bitvec_rep_def)
  then have "Suc ` T \<subseteq> insert i S" "rc = SQLITE_OK \<longrightarrow> Suc ` T = insert i S"
    using r(4,5) k(1) by auto
  moreover have "dec32 i = k" using k bitvec_rep_bounds [OF assms(1)] by simp
  ultimately show ?thesis using r(1,3,6,7) by (auto simp: sqlite3BitvecSet_def simp del: set_loop.simps)
qed

lemma bitvec_clear_ok:
  assumes "bitvec_rep p S" "0 < i" "i \<le> iSize p"
  shows "\<exists>p'. sqlite3BitvecClear (Some p) i = Some (Some p') \<and> bitvec_rep p' (S - {i}) \<and> iSize p' = iSize p"
proof -
  obtain k where k: "i = Suc k" "k < iSize p" using assms(2,3) by (cases i) auto
  obtain p' where p': "bv_clear_loop p k = Some p'" "bv_rep 3 p' ({k. Suc k \<in> S} - {k})" "iSize p' = iSize p"
    using clear_ok [of 3 p "{k. Suc k \<in> S}" k] assms(1) k(2) by (auto simp: bitvec_rep_def)
  have "{j. Suc j \<in> S - {i}} = {j. Suc j \<in> S} - {k}" using k(1) by auto
  moreover have "dec32 i = k" using k bitvec_rep_bounds [OF assms(1)] by simp
  ultimately show ?thesis using p' assms(1) by (simp add: sqlite3BitvecClear_def bitvec_rep_def)
qed

interpretation bitvec: bit_set bitvec_rep iSize "\<lambda>p. sqlite3BitvecTest (Some p)" set_op clear_op
proof unfold_locales
  show "sqlite3BitvecTest (Some s) i = Some (i \<in> S)" if "bitvec_rep s S" for s S i
    by (rule bitvec_test_ok [OF that])
  show "\<exists>rc s' mem' S'. set_op mem s i = Some (rc, s', mem') \<and> bitvec_rep s' S' \<and> iSize s' = iSize s \<and> S' \<subseteq> insert i S \<and>
      (rc = SQLITE_OK \<longrightarrow> S' = insert i S) \<and> set mem' \<subseteq> set mem \<and> (False \<notin> set mem \<longrightarrow> rc = SQLITE_OK)"
    if "bitvec_rep s S" "0 < i" "i \<le> iSize s" for s S i mem
  proof -
    from bitvec_set_ok [OF that, of mem] obtain rc p' mem' S' where
      r: "sqlite3BitvecSet mem (Some s) i = Some (rc, Some p', mem')" "bitvec_rep p' S' \<and> iSize p' = iSize s \<and>
        S' \<subseteq> insert i S \<and> (rc = SQLITE_OK \<longrightarrow> S' = insert i S) \<and> set mem' \<subseteq> set mem \<and> (False \<notin> set mem \<longrightarrow> rc = SQLITE_OK)"
      by blast
    then have "set_op mem s i = Some (rc, p', mem')" by (simp add: set_op_def)
    with r(2) show ?thesis by blast
  qed
  show "\<exists>s'. clear_op s i = Some s' \<and> bitvec_rep s' (S - {i}) \<and> iSize s' = iSize s"
    if "bitvec_rep s S" "0 < i" "i \<le> iSize s" for s S i
    using bitvec_clear_ok [OF that] by (auto simp: clear_op_def)
qed

lemma bv_cap_3: "bv_cap 3 = 7812500000"
  by (simp add: numeral_3_eq_3)

lemma new_bitvec_ok: "sz + 124 < 2 ^ 32 \<Longrightarrow> bitvec_rep (new_bitvec sz) {}"
  using new_bitvec_rep [of sz 3] by (simp add: bitvec_rep_def bv_cap_3)

section \<open>Properties\<close>

text \<open>C30: After any sequence of set and clear operations within the size of a new bitmap, every operation having
  succeeded, the test of a bit tells exactly whether it was set last and not cleared since, whichever of the three
  representations the operations led to. The sequence always returns, and it succeeds when every allocation does.\<close>

theorem bitvec_is_set:
  assumes "sz + 124 < 2 ^ 32" "\<forall>op\<in>set ops. 0 < op_bit op \<and> op_bit op \<le> sz"
  shows "\<exists>rc p. bit_run set_op clear_op mem (new_bitvec sz) ops = Some (rc, p) \<and>
     (rc = SQLITE_OK \<longrightarrow> (\<forall>i. sqlite3BitvecTest (Some p) i = Some (i \<in> bits_after {} ops))) \<and>
     (False \<notin> set mem \<longrightarrow> rc = SQLITE_OK)"
proof -
  have "iSize (new_bitvec sz) = sz" by (simp add: new_bitvec_def)
  with bitvec.bit_run_test [OF new_bitvec_ok [OF assms(1)], of ops mem] assms(2) show ?thesis by simp
qed

theorem bitvec_is_set_witness:
  "\<exists>p. bit_run set_op clear_op [] (new_bitvec 5000) [SetBit 4500, SetBit 7, ClearBit 4500] = Some (SQLITE_OK, p) \<and>
    sqlite3BitvecTest (Some p) 7 = Some True \<and> sqlite3BitvecTest (Some p) 4500 = Some False"
proof -
  have "\<forall>op\<in>set [SetBit 4500, SetBit 7, ClearBit 4500]. 0 < op_bit op \<and> op_bit op \<le> 5000" by simp
  from bitvec_is_set [OF _ this, of "[]"] show ?thesis by fastforce
qed

text \<open>C31: Setting a bit returns for every well-formed bitmap and every outcome of the allocations: the nested calls are
  at most seven deep, and a failed allocation is reported without adding any other bit.\<close>

theorem bitvec_set_returns:
  assumes "bitvec_rep p S" "0 < i" "i \<le> iSize p"
  shows "\<exists>rc p' mem' S'. sqlite3BitvecSet mem (Some p) i = Some (rc, Some p', mem') \<and> bitvec_rep p' S' \<and>
     iSize p' = iSize p \<and> S' \<subseteq> insert i S \<and> (rc = SQLITE_OK \<longrightarrow> S' = insert i S)"
  using bitvec_set_ok [OF assms, of mem] by blast

theorem bitvec_set_returns_witness:
  "\<exists>rc p' mem' S'. sqlite3BitvecSet [False] (Some (new_bitvec 100000)) 70000 = Some (rc, Some p', mem') \<and>
    bitvec_rep p' S' \<and> S' \<subseteq> {70000}"
proof -
  have "bitvec_rep (new_bitvec 100000) {}" by (rule new_bitvec_ok) simp
  from bitvec_set_returns [OF this, of 70000 "[False]"] show ?thesis by (auto simp: new_bitvec_def)
qed

end
