(* ===== verification/Wal_Index.thy ===== *)
theory Wal_Index
  imports Varint
begin

text \<open>
  The index of the write-ahead log (wal.c). It lies in memory shared by all connections and finds the frame of the
  log with the latest content of a page. It consists of pages with an array of page numbers, one for each frame,
  and a hash table with open addressing from page numbers to positions in the array.

  \<open>WalIndex\<close> is the shared part and \<open>Wal\<close> the part of a connection. The two arrays of an index page are functions from
  positions, the first array counted from 1 as the code does; frame and page numbers are natural numbers. The
  result codes of the requests for memory still to be made are a list; an exhausted list means success.
\<close>

section \<open>Representation\<close>

record wal_page =
  wp_aPgno :: "nat \<Rightarrow> nat"
  wp_aHash :: "nat \<Rightarrow> nat"

record WalIndexHdr =
  h_iVersion :: nat
  h_iChange :: nat
  h_isInit :: nat
  h_bigEndCksum :: nat
  h_szPage :: nat
  h_mxFrame :: nat
  h_nPage :: nat
  h_aFrameCksum :: "u32 \<times> u32"
  h_aSalt :: "u8 list"

record WalIndex =
  wi_page :: "nat \<Rightarrow> wal_page"
  wi_hdr :: WalIndexHdr
  nBackfill :: nat
  aReadMark :: "nat list"

record Wal =
  apWiData :: "nat list"
  map_rcs :: "int list"
  szPage :: nat
  readLock :: int
  w_hdr :: WalIndexHdr
  nCkpt :: nat

abbreviation (input) SQLITE_READONLY :: int where "SQLITE_READONLY \<equiv> 8"
abbreviation (input) HASHTABLE_NPAGE :: nat where "HASHTABLE_NPAGE \<equiv> 4096"
abbreviation (input) HASHTABLE_NPAGE_ONE :: nat where "HASHTABLE_NPAGE_ONE \<equiv> 4062"
abbreviation (input) HASHTABLE_NSLOT :: nat where "HASHTABLE_NSLOT \<equiv> 8192"

abbreviation mxFrame :: "Wal \<Rightarrow> nat" where "mxFrame w \<equiv> h_mxFrame (w_hdr w)"

section \<open>Operations\<close>

definition walIndexPage :: "Wal \<Rightarrow> nat \<Rightarrow> int \<times> Wal" where
  "walIndexPage w iPage =
     (if iPage \<in> set (apWiData w) then (SQLITE_OK, w)
      else case map_rcs w of
        [] \<Rightarrow> (SQLITE_OK, w\<lparr>apWiData := iPage # apWiData w\<rparr>)
      | rc # rest \<Rightarrow>
          if rc = SQLITE_OK \<or> rc = SQLITE_READONLY then (SQLITE_OK, w\<lparr>apWiData := iPage # apWiData w, map_rcs := rest\<rparr>)
          else (rc, w\<lparr>map_rcs := rest\<rparr>))"

definition walHash :: "nat \<Rightarrow> nat" where
  "walHash iPage = (iPage * 383) mod 2 ^ 32 mod HASHTABLE_NSLOT"

definition walNextHash :: "nat \<Rightarrow> nat" where
  "walNextHash iPriorHash = (iPriorHash + 1) mod HASHTABLE_NSLOT"

text \<open>\<open>walHashGet\<close> gives the frame number that belongs to position 0 of an index page.\<close>

definition iZero :: "nat \<Rightarrow> nat" where
  "iZero iHash = (if iHash = 0 then 0 else HASHTABLE_NPAGE_ONE + (iHash - 1) * HASHTABLE_NPAGE)"

definition walHashGet :: "Wal \<Rightarrow> nat \<Rightarrow> int \<times> nat \<times> Wal" where
  "walHashGet w iHash = (let (rc, w) = walIndexPage w iHash in (rc, iZero iHash, w))"

definition walFramePage :: "nat \<Rightarrow> nat" where
  "walFramePage iFrame = (iFrame + HASHTABLE_NPAGE - HASHTABLE_NPAGE_ONE - 1) div HASHTABLE_NPAGE"

definition walFramePgno :: "WalIndex \<Rightarrow> nat \<Rightarrow> nat" where
  "walFramePgno wi iFrame =
     (let iHash = walFramePage iFrame in
      if iHash = 0 then wp_aPgno (wi_page wi 0) iFrame
      else wp_aPgno (wi_page wi iHash) ((iFrame - 1 - HASHTABLE_NPAGE_ONE) mod HASHTABLE_NPAGE + 1))"

definition set_page :: "nat \<Rightarrow> wal_page \<Rightarrow> WalIndex \<Rightarrow> WalIndex" where
  "set_page h pg wi = wi\<lparr>wi_page := (wi_page wi)(h := pg)\<rparr>"

definition walCleanupHash :: "WalIndex \<Rightarrow> Wal \<Rightarrow> WalIndex" where
  "walCleanupHash wi w =
     (if mxFrame w = 0 then wi
      else
        (let h = walFramePage (mxFrame w); iLimit = mxFrame w - iZero h; pg = wi_page wi h in
         set_page h \<lparr>wp_aPgno = (\<lambda>i. if i > iLimit then 0 else wp_aPgno pg i),
                     wp_aHash = (\<lambda>i. if wp_aHash pg i > iLimit then 0 else wp_aHash pg i)\<rparr> wi))"

text \<open>The search for a free slot, with the number of collisions that are still allowed.\<close>

fun append_probe :: "(nat \<Rightarrow> nat) \<Rightarrow> nat \<Rightarrow> nat \<Rightarrow> nat option" where
  "append_probe hash 0 iKey = (if hash iKey \<noteq> 0 then None else Some iKey)"
| "append_probe hash (Suc n) iKey = (if hash iKey \<noteq> 0 then append_probe hash n (walNextHash iKey) else Some iKey)"

definition walIndexAppend :: "WalIndex \<Rightarrow> Wal \<Rightarrow> nat \<Rightarrow> nat \<Rightarrow> int \<times> WalIndex \<times> Wal" where
  "walIndexAppend wi w iFrame iPage =
     (let h = walFramePage iFrame; (rc, z, w) = walHashGet w h in
      if rc \<noteq> SQLITE_OK then (rc, wi, w)
      else
        (let idx = iFrame - z;
             wi = (if idx = 1 then set_page h \<lparr>wp_aPgno = (\<lambda>_. 0), wp_aHash = (\<lambda>_. 0)\<rparr> wi else wi);
             wi = (if wp_aPgno (wi_page wi h) idx \<noteq> 0 then walCleanupHash wi w else wi);
             pg = wi_page wi h
         in case append_probe (wp_aHash pg) idx (walHash iPage) of
              None \<Rightarrow> (SQLITE_CORRUPT, wi, w)
            | Some iKey \<Rightarrow>
                (SQLITE_OK, set_page h \<lparr>wp_aPgno = (wp_aPgno pg)(idx := iPage), wp_aHash = (wp_aHash pg)(iKey := idx mod 2 ^ 16)\<rparr> wi, w)))"

text \<open>The inner loop of \<open>sqlite3WalFindFrame\<close>; \<open>None\<close> is the corrupt index.\<close>

fun find_probe :: "wal_page \<Rightarrow> nat \<Rightarrow> nat \<Rightarrow> nat \<Rightarrow> nat \<Rightarrow> nat \<Rightarrow> nat \<Rightarrow> nat option" where
  "find_probe pg z iLast pgno 0 iKey iRead = (if wp_aHash pg iKey \<noteq> 0 then None else Some iRead)"
| "find_probe pg z iLast pgno (Suc n) iKey iRead =
     (if wp_aHash pg iKey \<noteq> 0 then
        (let iFrame = wp_aHash pg iKey + z;
             iRead = (if iFrame \<le> iLast \<and> wp_aPgno pg (wp_aHash pg iKey) = pgno then iFrame else iRead)
         in find_probe pg z iLast pgno n (walNextHash iKey) iRead)
      else Some iRead)"

text \<open>The outer loop over the index pages \<open>iHash\<close>, ..., 0, \<open>k\<close> of which are left.\<close>

fun tables_loop :: "WalIndex \<Rightarrow> nat \<Rightarrow> nat \<Rightarrow> nat \<Rightarrow> Wal \<Rightarrow> nat \<Rightarrow> int \<times> nat \<times> Wal" where
  "tables_loop wi iLast pgno 0 w iRead = (SQLITE_OK, iRead, w)"
| "tables_loop wi iLast pgno (Suc iHash) w iRead =
     (if iRead \<noteq> 0 then (SQLITE_OK, iRead, w)
      else
        (let (rc, z, w) = walHashGet w iHash in
         if rc \<noteq> SQLITE_OK then (rc, 0, w)
         else case find_probe (wi_page wi iHash) z iLast pgno HASHTABLE_NSLOT (walHash pgno) iRead of
           None \<Rightarrow> (SQLITE_CORRUPT, 0, w)
         | Some iRead \<Rightarrow> tables_loop wi iLast pgno iHash w iRead))"

definition sqlite3WalFindFrame :: "WalIndex \<Rightarrow> Wal \<Rightarrow> nat \<Rightarrow> int \<times> nat \<times> Wal" where
  "sqlite3WalFindFrame wi w pgno =
     (let iLast = mxFrame w in
      if iLast = 0 \<or> readLock w = 0 then (SQLITE_OK, 0, w)
      else tables_loop wi iLast pgno (walFramePage iLast + 1) w 0)"

text \<open>Rolling back: \<open>sqlite3WalUndo\<close> takes the shared header again and calls back for every frame dropped;
  the callbacks, whose result codes are a list, belong to the pager.\<close>

fun undo_loop :: "WalIndex \<Rightarrow> nat \<Rightarrow> nat \<Rightarrow> int list \<Rightarrow> int \<times> nat list" where
  "undo_loop wi iFrame 0 rcs = (SQLITE_OK, [])"
| "undo_loop wi iFrame (Suc n) rcs =
     (let rc = (case rcs of [] \<Rightarrow> SQLITE_OK | rc # _ \<Rightarrow> rc) in
      if rc \<noteq> SQLITE_OK then (rc, [walFramePgno wi iFrame])
      else let (rc, ps) = undo_loop wi (iFrame + 1) n (tl rcs) in (rc, walFramePgno wi iFrame # ps))"

definition sqlite3WalUndo :: "WalIndex \<Rightarrow> Wal \<Rightarrow> int list \<Rightarrow> int \<times> nat list \<times> WalIndex \<times> Wal" where
  "sqlite3WalUndo wi w rcs =
     (let iMax = mxFrame w; w = w\<lparr>w_hdr := wi_hdr wi\<rparr>;
          (rc, pages) = undo_loop wi (mxFrame w + 1) (iMax - mxFrame w) rcs
      in (rc, pages, if iMax \<noteq> mxFrame w then walCleanupHash wi w else wi, w))"

text \<open>A savepoint is the write position with its checksums and the checkpoint counter.\<close>

definition sqlite3WalSavepoint :: "Wal \<Rightarrow> nat \<times> (u32 \<times> u32) \<times> nat" where
  "sqlite3WalSavepoint w = (mxFrame w, h_aFrameCksum (w_hdr w), nCkpt w)"

definition sqlite3WalSavepointUndo :: "WalIndex \<Rightarrow> Wal \<Rightarrow> nat \<times> (u32 \<times> u32) \<times> nat \<Rightarrow> WalIndex \<times> Wal \<times> (nat \<times> (u32 \<times> u32) \<times> nat)" where
  "sqlite3WalSavepointUndo wi w aWalData =
     (let (mx, ck, nc) = (if snd (snd aWalData) \<noteq> nCkpt w then (0, fst (snd aWalData), nCkpt w) else aWalData) in
      if mx < mxFrame w then
        (let w = w\<lparr>w_hdr := (w_hdr w)\<lparr>h_mxFrame := mx, h_aFrameCksum := ck\<rparr>\<rparr> in (walCleanupHash wi w, w, (mx, ck, nc)))
      else (wi, w, (mx, ck, nc)))"

section \<open>The log and its index\<close>

text \<open>The frame with the latest content of a page among the first \<open>n\<close> frames of a log, given as the list of the page
  numbers of its frames; 0 if there is none. This is the linear search with which the code checks itself.\<close>

fun latest :: "nat list \<Rightarrow> nat \<Rightarrow> nat \<Rightarrow> nat" where
  "latest frames 0 p = 0"
| "latest frames (Suc n) p = (if frames ! n = p then Suc n else latest frames n p)"

text \<open>The number of frames that an index page covers, and the part of the frames it covers.\<close>

definition page_size :: "nat \<Rightarrow> nat" where
  "page_size h = (if h = 0 then HASHTABLE_NPAGE_ONE else HASHTABLE_NPAGE)"

definition segment :: "nat list \<Rightarrow> nat \<Rightarrow> nat list" where
  "segment frames h = take (page_size h) (drop (iZero h) frames)"

text \<open>Slot number \<open>d\<close> on the way from the home slot of a page.\<close>

definition step_slot :: "nat \<Rightarrow> nat \<Rightarrow> nat" where
  "step_slot h d = (h + d) mod HASHTABLE_NSLOT"

text \<open>
  An index page for a part \<open>L\<close> of the frames: the first array holds \<open>L\<close>, the slots hold its positions, each at most
  once, and every position lies on the way from its home slot behind smaller ones only.
\<close>

definition page_ok :: "wal_page \<Rightarrow> nat list \<Rightarrow> bool" where
  "page_ok pg L \<longleftrightarrow>
     (\<forall>i<length L. wp_aPgno pg (Suc i) = L ! i) \<and> (\<forall>i>length L. wp_aPgno pg i = 0) \<and>
     (\<forall>k<8192. wp_aHash pg k \<le> length L) \<and>
     (\<forall>j<8192. \<forall>k<8192. wp_aHash pg j = wp_aHash pg k \<longrightarrow> wp_aHash pg j \<noteq> 0 \<longrightarrow> j = k) \<and>
     (\<forall>i<length L. \<exists>d<8192. wp_aHash pg (step_slot (walHash (L ! i)) d) = Suc i \<and>
        (\<forall>e<d. wp_aHash pg (step_slot (walHash (L ! i)) e) \<noteq> 0 \<and> wp_aHash pg (step_slot (walHash (L ! i)) e) < Suc i))"

text \<open>The index covers a log; index pages behind the one of its last frame may hold anything.\<close>

definition wal_rep :: "WalIndex \<Rightarrow> nat list \<Rightarrow> bool" where
  "wal_rep wi frames \<longleftrightarrow> 0 \<notin> set frames \<and> (\<forall>h. iZero h < length frames \<longrightarrow> page_ok (wi_page wi h) (segment frames h))"

section \<open>Lemmas: frames and index pages\<close>

lemma iZero_mono: "h \<le> k \<Longrightarrow> iZero h \<le> iZero k"
  by (auto simp: iZero_def intro: mult_le_mono1)

lemma iZero_Suc: "iZero (Suc h) = iZero h + page_size h"
  by (cases h) (simp_all add: iZero_def page_size_def)

lemma walFramePage_iff:
  assumes "0 < f"
  shows "walFramePage f = h \<longleftrightarrow> iZero h < f \<and> f \<le> iZero h + page_size h"
proof -
  have d: "walFramePage f = (f + 33) div 4096" by (simp add: walFramePage_def)
  show ?thesis
  proof (cases h)
    case 0
    then show ?thesis using assms unfolding d by (auto simp: iZero_def page_size_def div_eq_0_iff)
  next
    case (Suc k)
    have "(f + 33) div 4096 = Suc k \<longleftrightarrow> Suc k \<le> (f + 33) div 4096 \<and> (f + 33) div 4096 < Suc (Suc k)" by auto
    also have "\<dots> \<longleftrightarrow> Suc k * 4096 \<le> f + 33 \<and> f + 33 < Suc (Suc k) * 4096"
      by (simp only: less_eq_div_iff_mult_less_eq div_less_iff_less_mult zero_less_numeral)
    finally have e: "(f + 33) div 4096 = Suc k \<longleftrightarrow> Suc k * 4096 \<le> f + 33 \<and> f + 33 < Suc (Suc k) * 4096" .
    show ?thesis unfolding d Suc e by (simp add: iZero_def page_size_def) linarith
  qed
qed

lemma walFramePage_bounds:
  assumes "0 < f"
  shows "iZero (walFramePage f) < f" "f \<le> iZero (walFramePage f) + page_size (walFramePage f)"
  using walFramePage_iff [OF assms, of "walFramePage f"] by simp_all

lemma iZero_le_framePage:
  assumes "0 < f"
  shows "iZero h < f \<longleftrightarrow> h \<le> walFramePage f"
proof
  assume a: "iZero h < f"
  show "h \<le> walFramePage f"
  proof (rule ccontr)
    assume "\<not> h \<le> walFramePage f"
    then have "iZero (Suc (walFramePage f)) \<le> iZero h" by (intro iZero_mono) simp
    with walFramePage_bounds(2) [OF assms] a show False by (simp add: iZero_Suc)
  qed
next
  assume "h \<le> walFramePage f"
  then show "iZero h < f" using iZero_mono walFramePage_bounds(1) [OF assms] le_less_trans by blast
qed

lemma segment_nth: "i < length (segment frames h) \<Longrightarrow> segment frames h ! i = frames ! (iZero h + i)"
  by (auto simp: segment_def)

lemma length_segment: "length (segment frames h) = min (page_size h) (length frames - iZero h)"
  by (simp add: segment_def)

lemma page_size_bound: "page_size h \<le> 4096" by (simp add: page_size_def)

lemma walHash_less: "walHash p < 8192" by (simp add: walHash_def)

lemma step_slot_simps [simp]:
  "step_slot h d < 8192" "h < 8192 \<Longrightarrow> step_slot h 0 = h"
  by (simp_all add: step_slot_def)

lemma step_slot_next: "step_slot (walNextHash h) d = step_slot h (Suc d)"
  unfolding step_slot_def walNextHash_def by presburger

lemma walNextHash_less: "walNextHash h < 8192" by (simp add: walNextHash_def)

lemma step_slot_inj:
  assumes "d < 8192" "e < 8192" "step_slot h d = step_slot h e"
  shows "d = e"
proof -
  have "(int h + int d) mod 8192 = (int h + int e) mod 8192"
    using arg_cong [OF assms(3), of int] by (simp add: step_slot_def zmod_int)
  then have "int d mod 8192 = int e mod 8192" by (simp add: mod_eq_dvd_iff)
  with assms(1,2) show ?thesis by simp
qed

lemma step_slot_onto:
  assumes "k < 8192"
  shows "\<exists>d<8192. step_slot h d = k"
proof -
  have "inj_on (step_slot h) {..<8192}" using step_slot_inj by (auto intro: inj_onI)
  moreover have "step_slot h ` {..<8192} \<subseteq> {..<8192}" by auto
  ultimately have "step_slot h ` {..<8192} = {..<8192}" by (intro endo_inj_surj) auto
  then show ?thesis using assms by (metis imageE lessThan_iff)
qed

section \<open>Lemmas: the search for the latest frame\<close>

lemma latest_le: "latest frames n p \<le> n"
  by (induction n) auto

lemma latest_spec:
  "latest frames n p = f \<longleftrightarrow>
     (if f = 0 then \<forall>i<n. frames ! i \<noteq> p else f \<le> n \<and> frames ! (f - 1) = p \<and> (\<forall>i<n. f \<le> i \<longrightarrow> frames ! i \<noteq> p))"
proof (induction n arbitrary: f)
  case (Suc n)
  show ?case
  proof (cases "frames ! n = p")
    case True
    then show ?thesis by (cases f) (auto simp: le_Suc_eq)
  next
    case False
    then show ?thesis using Suc [of f] by (auto simp: less_Suc_eq le_Suc_eq)
  qed
qed (cases "f = 0"; simp)

lemma latest_cong: "(\<And>i. i < n \<Longrightarrow> frames ! i = frames' ! i) \<Longrightarrow> latest frames n p = latest frames' n p"
  by (induction n) auto

lemma latest_append: "n \<le> length frames \<Longrightarrow> latest (frames @ rest) n p = latest frames n p"
  by (rule latest_cong) (simp add: nth_append)

lemma latest_take: "n \<le> k \<Longrightarrow> n \<le> length frames \<Longrightarrow> latest (take k frames) n p = latest frames n p"
  by (rule latest_cong) simp

text \<open>A search in two parts: the later part of the frames first.\<close>

lemma latest_split:
  assumes "z \<le> n" "n \<le> length frames"
  shows "latest frames n p = (if latest (drop z frames) (n - z) p \<noteq> 0 then z + latest (drop z frames) (n - z) p else latest frames z p)"
  using assms
proof (induction n)
  case (Suc n)
  show ?case
  proof (cases "z = Suc n")
    case False
    with Suc.prems have z: "z \<le> n" "Suc n - z = Suc (n - z)" by simp_all
    have "drop z frames ! (n - z) = frames ! n" using z(1) Suc.prems(2) by simp
    then show ?thesis using Suc.IH z Suc.prems(2) by simp
  qed simp
qed simp
section \<open>Lemmas: probing\<close>

abbreviation slots :: "wal_page \<Rightarrow> nat \<Rightarrow> nat \<Rightarrow> nat list" where
  "slots pg h m \<equiv> map (\<lambda>d. wp_aHash pg (step_slot h d)) [0..<m]"

lemma page_okD:
  assumes "page_ok pg L"
  shows page_ok_pgno: "i < length L \<Longrightarrow> wp_aPgno pg (Suc i) = L ! i"
    and page_ok_zero: "length L < i \<Longrightarrow> wp_aPgno pg i = 0"
    and page_ok_bound: "k < 8192 \<Longrightarrow> wp_aHash pg k \<le> length L"
    and page_ok_inj: "j < 8192 \<Longrightarrow> k < 8192 \<Longrightarrow> wp_aHash pg j = wp_aHash pg k \<Longrightarrow> wp_aHash pg j \<noteq> 0 \<Longrightarrow> j = k"
    and page_ok_reach: "i < length L \<Longrightarrow> \<exists>d<8192. wp_aHash pg (step_slot (walHash (L ! i)) d) = Suc i \<and>
        (\<forall>e<d. wp_aHash pg (step_slot (walHash (L ! i)) e) \<noteq> 0 \<and> wp_aHash pg (step_slot (walHash (L ! i)) e) < Suc i)"
  using assms unfolding page_ok_def by simp_all

text \<open>The first free slot on the way from \<open>h\<close>.\<close>

definition first_free :: "wal_page \<Rightarrow> nat \<Rightarrow> nat \<Rightarrow> bool" where
  "first_free pg h m \<longleftrightarrow> wp_aHash pg (step_slot h m) = 0 \<and> (\<forall>d<m. wp_aHash pg (step_slot h d) \<noteq> 0)"

lemma first_free_exists:
  assumes "page_ok pg L" "length L \<le> 4096"
  shows "\<exists>m\<le>length L. first_free pg h m"
proof -
  let ?s = "\<lambda>d. wp_aHash pg (step_slot h d)"
  have "\<exists>d\<le>length L. ?s d = 0"
  proof (rule ccontr)
    assume "\<not> ?thesis"
    then have nz: "?s d \<noteq> 0" if "d \<le> length L" for d using that by auto
    have "inj_on ?s {..length L}"
    proof (rule inj_onI)
      fix d e assume d: "d \<in> {..length L}" "e \<in> {..length L}" "?s d = ?s e"
      then have "step_slot h d = step_slot h e" using nz [of d] page_ok_inj [OF assms(1), of "step_slot h d" "step_slot h e"] by simp
      then show "d = e" using d assms(2) step_slot_inj [of d e h] by simp
    qed
    moreover have "?s ` {..length L} \<subseteq> {1..length L}"
      using nz page_ok_bound [OF assms(1)] by (auto simp: Suc_le_eq)
    ultimately have "card {..length L} \<le> card {1..length L}" by (intro card_inj_on_le [of ?s]) auto
    then show False by simp
  qed
  then obtain d where d: "d \<le> length L" "?s d = 0" by blast
  define m where "m = (LEAST d. ?s d = 0)"
  have 1: "?s m = 0" unfolding m_def using d(2) by (rule LeastI)
  have 2: "?s e \<noteq> 0" if "e < m" for e using not_less_Least that unfolding m_def by blast
  have 3: "m \<le> d" unfolding m_def using d(2) by (rule Least_le)
  have "first_free pg h m" unfolding first_free_def using 1 2 by blast
  moreover have "m \<le> length L" using 3 d(1) by simp
  ultimately show ?thesis by blast
qed

lemma first_free_next: "h < 8192 \<Longrightarrow> first_free pg h (Suc m) \<longleftrightarrow> wp_aHash pg h \<noteq> 0 \<and> first_free pg (walNextHash h) m"
  by (auto simp: first_free_def step_slot_next less_Suc_eq_0_disj)

lemma append_probe_eq:
  "first_free pg h m \<Longrightarrow> m \<le> n \<Longrightarrow> h < 8192 \<Longrightarrow> append_probe (wp_aHash pg) n h = Some (step_slot h m)"
proof (induction m arbitrary: h n)
  case 0
  then show ?case by (cases n) (simp_all add: first_free_def)
next
  case (Suc m)
  then obtain k where k: "n = Suc k" by (cases n) auto
  have f: "wp_aHash pg h \<noteq> 0" "first_free pg (walNextHash h) m" using Suc.prems first_free_next by blast+
  show ?case using Suc.IH [OF f(2), of k] Suc.prems f k walNextHash_less by (simp add: step_slot_next)
qed

lemma find_probe_eq:
  assumes "first_free pg h m" "m \<le> n" "h < 8192"
  shows "find_probe pg z iLast p n h r =
    Some (let M = filter (\<lambda>v. v + z \<le> iLast \<and> wp_aPgno pg v = p) (slots pg h m) in if M = [] then r else last M + z)"
  using assms
proof (induction m arbitrary: h n r)
  case 0
  then show ?case by (cases n) (simp_all add: first_free_def)
next
  case (Suc m)
  then obtain k where k: "n = Suc k" by (cases n) auto
  have f: "wp_aHash pg h \<noteq> 0" "first_free pg (walNextHash h) m" using Suc.prems first_free_next by blast+
  have s: "slots pg h (Suc m) = wp_aHash pg h # slots pg (walNextHash h) m"
    using Suc.prems(3) by (simp add: map_upt_Suc step_slot_next del: upt_Suc)
  show ?case unfolding s k using Suc.IH [OF f(2), of k] Suc.prems(2) k f(1) walNextHash_less by (simp add: Let_def)
qed

lemma sorted_matches:
  assumes "page_ok pg L" "first_free pg (walHash p) m" "m \<le> 4096"
  shows "sorted_wrt (<) (filter (\<lambda>v. v + z \<le> iLast \<and> wp_aPgno pg v = p) (slots pg (walHash p) m))"
proof -
  let ?P = "\<lambda>v. v + z \<le> iLast \<and> wp_aPgno pg v = p" and ?s = "\<lambda>d. wp_aHash pg (step_slot (walHash p) d)"
  have "?s d < ?s e" if "d < e" "e < m" "?P (?s d)" "?P (?s e)" for d e
  proof -
    have nz: "?s e \<noteq> 0" using assms(2) that(2) by (simp add: first_free_def)
    moreover have "?s e \<le> length L" using page_ok_bound [OF assms(1)] by simp
    ultimately obtain i where i: "?s e = Suc i" "i < length L" by (metis Suc_le_eq not0_implies_Suc)
    have "L ! i = p" using that(4) page_ok_pgno [OF assms(1) i(2)] unfolding i(1) by simp
    then obtain c where c: "c < 8192" "?s c = Suc i" "\<forall>d<c. ?s d < Suc i" using page_ok_reach [OF assms(1) i(2)] by auto
    have "step_slot (walHash p) c = step_slot (walHash p) e"
      using c(2) i(1) page_ok_inj [OF assms(1), of "step_slot (walHash p) c" "step_slot (walHash p) e"] by simp
    then have "c = e" using c(1) that(2) assms(3) step_slot_inj [of c e] by simp
    then show ?thesis using c(3) that(1) i(1) by simp
  qed
  then have "sorted_wrt (\<lambda>v w. ?P v \<longrightarrow> ?P w \<longrightarrow> v < w) (slots pg (walHash p) m)"
    by (auto simp: sorted_wrt_iff_nth_less)
  then have "sorted_wrt (\<lambda>v w. ?P v \<longrightarrow> ?P w \<longrightarrow> v < w) (filter ?P (slots pg (walHash p) m))" by (rule sorted_wrt_filter)
  then show ?thesis by (rule sorted_wrt_mono_rel [rotated]) auto
qed

lemma set_matches:
  assumes "page_ok pg L" "first_free pg (walHash p) m"
  shows "set (filter (\<lambda>v. v + z \<le> iLast \<and> wp_aPgno pg v = p) (slots pg (walHash p) m)) =
    {Suc i |i. i < length L \<and> L ! i = p \<and> Suc i + z \<le> iLast}" (is "?M = ?N")
proof
  let ?s = "\<lambda>d. wp_aHash pg (step_slot (walHash p) d)"
  show "?M \<subseteq> ?N"
  proof
    fix v assume "v \<in> ?M"
    then obtain d where d: "d < m" "v = ?s d" "v + z \<le> iLast" "wp_aPgno pg v = p" by auto
    have "v \<noteq> 0" "v \<le> length L" using assms(2) d(1,2) page_ok_bound [OF assms(1)] by (auto simp: first_free_def)
    then obtain i where i: "v = Suc i" "i < length L" by (metis Suc_le_eq not0_implies_Suc)
    then have "L ! i = p" using page_ok_pgno [OF assms(1)] d(4) by simp
    with i d(3) show "v \<in> ?N" by auto
  qed
  show "?N \<subseteq> ?M"
  proof
    fix v assume "v \<in> ?N"
    then obtain i where i: "v = Suc i" "i < length L" "L ! i = p" "v + z \<le> iLast" by auto
    then obtain d where d: "?s d = v" "\<forall>e<d. ?s e \<noteq> 0" using page_ok_reach [OF assms(1) i(2)] by auto
    have "d < m"
      using assms(2) d i(1) unfolding first_free_def by (metis linorder_neqE_nat nat.distinct(1))
    moreover have "wp_aPgno pg v = p" using page_ok_pgno [OF assms(1)] i by simp
    ultimately show "v \<in> ?M" using d(1) i(4) by force
  qed
qed

lemma last_sorted_ge: "sorted_wrt (<) (xs :: nat list) \<Longrightarrow> x \<in> set xs \<Longrightarrow> x \<le> last xs"
  by (induction xs) (auto intro: less_imp_le)

lemma find_probe_latest:
  assumes "page_ok pg L" "length L \<le> 4096" "z \<le> iLast"
  shows "find_probe pg z iLast p 8192 (walHash p) 0 =
    Some (let f = latest L (min (length L) (iLast - z)) p in if f = 0 then 0 else f + z)"
proof -
  from first_free_exists [OF assms(1,2)] obtain m where m: "m \<le> length L" "first_free pg (walHash p) m" by blast
  define M where "M = filter (\<lambda>v. v + z \<le> iLast \<and> wp_aPgno pg v = p) (slots pg (walHash p) m)"
  let ?n = "min (length L) (iLast - z)"
  have e: "find_probe pg z iLast p 8192 (walHash p) 0 = Some (if M = [] then 0 else last M + z)"
    unfolding M_def using find_probe_eq [OF m(2), of 8192 z iLast p 0] m(1) assms(2) walHash_less by (simp add: Let_def)
  have s: "sorted_wrt (<) M" unfolding M_def using m assms(2) by (intro sorted_matches [OF assms(1)]) auto
  have set: "set M = {Suc i |i. i < ?n \<and> L ! i = p}"
    unfolding M_def set_matches [OF assms(1) m(2)] using assms(3) by auto
  have "latest L ?n p = (if M = [] then 0 else last M)"
  proof (cases "M = []")
    case True
    then have "\<forall>i<?n. L ! i \<noteq> p" using set by auto
    then show ?thesis using True by (simp add: latest_spec [of L ?n p])
  next
    case False
    then have "last M \<in> set M" by simp
    then obtain i where i: "last M = Suc i" "i < ?n" "L ! i = p" unfolding set by auto
    have "\<forall>j<?n. last M \<le> j \<longrightarrow> L ! j \<noteq> p"
    proof (intro allI impI notI)
      fix j assume j: "j < ?n" "last M \<le> j" "L ! j = p"
      then have "Suc j \<in> set M" unfolding set by blast
      with last_sorted_ge [OF s] j(2) show False by fastforce
    qed
    then show ?thesis using False i by (simp add: latest_spec [of L ?n p])
  qed
  moreover have "last M \<noteq> 0" if "M \<noteq> []" using last_in_set [OF that] unfolding set by auto
  ultimately show ?thesis unfolding e by (auto simp: Let_def)
qed
section \<open>Lemmas: searching the index\<close>

text \<open>Requests for memory that will all succeed.\<close>

definition map_ok :: "Wal \<Rightarrow> bool" where
  "map_ok w \<longleftrightarrow> (\<forall>rc\<in>set (map_rcs w). rc = SQLITE_OK \<or> rc = SQLITE_READONLY)"

definition same_conn :: "Wal \<Rightarrow> Wal \<Rightarrow> bool" where
  "same_conn w w' \<longleftrightarrow> w_hdr w' = w_hdr w \<and> readLock w' = readLock w \<and> szPage w' = szPage w \<and> nCkpt w' = nCkpt w \<and> map_ok w'"

lemma walHashGet_ok: "map_ok w \<Longrightarrow> \<exists>w'. walHashGet w h = (SQLITE_OK, iZero h, w') \<and> same_conn w w'"
  by (cases "map_rcs w") (auto simp: walHashGet_def walIndexPage_def map_ok_def same_conn_def)

lemma same_conn_trans: "same_conn w w' \<Longrightarrow> same_conn w' w'' \<Longrightarrow> same_conn w w''"
  by (simp add: same_conn_def)

lemma tables_loop_found: "r \<noteq> 0 \<Longrightarrow> tables_loop wi iLast p k w r = (SQLITE_OK, r, w)"
  by (cases k) simp_all

lemma tables_loop_eq:
  assumes "wal_rep wi frames" "0 < iLast" "iLast \<le> length frames" "map_ok w" "k \<le> walFramePage iLast + 1"
  shows "\<exists>w'. tables_loop wi iLast p k w 0 = (SQLITE_OK, latest frames (min iLast (iZero k)) p, w') \<and> same_conn w w'"
  using assms(4,5)
proof (induction k arbitrary: w)
  case 0
  then show ?case by (simp add: iZero_def same_conn_def)
next
  case (Suc h)
  obtain w1 where w1: "walHashGet w h = (SQLITE_OK, iZero h, w1)" "same_conn w w1" using walHashGet_ok [OF Suc.prems(1)] by blast
  let ?z = "iZero h" and ?L = "segment frames h" and ?n = "min iLast (iZero (Suc h))"
  have z: "?z < iLast" using iZero_le_framePage [OF assms(2)] Suc.prems(2) by simp
  have ok: "page_ok (wi_page wi h) ?L" using assms(1,3) z by (auto simp: wal_rep_def)
  have len: "length ?L \<le> 4096" using page_size_bound [of h] by (simp add: length_segment)
  have n: "min (length ?L) (iLast - ?z) = ?n - ?z" using assms(3) z by (auto simp: length_segment iZero_Suc)
  have "latest ?L (?n - ?z) p = latest (drop ?z frames) (?n - ?z) p"
    unfolding segment_def using assms(3) by (intro latest_take) (auto simp: iZero_Suc)
  then have find: "find_probe (wi_page wi h) ?z iLast p 8192 (walHash p) 0 =
      Some (let f = latest (drop ?z frames) (?n - ?z) p in if f = 0 then 0 else f + ?z)"
    using find_probe_latest [OF ok len less_imp_le [OF z], of p] unfolding n by simp
  have split: "latest frames ?n p = (if latest (drop ?z frames) (?n - ?z) p \<noteq> 0
      then ?z + latest (drop ?z frames) (?n - ?z) p else latest frames ?z p)"
    using z assms(3) by (intro latest_split) (auto simp: iZero_Suc)
  have m: "min iLast ?z = ?z" using z by simp
  show ?case
  proof (cases "latest (drop ?z frames) (?n - ?z) p = 0")
    case True
    obtain w' where "tables_loop wi iLast p h w1 0 = (SQLITE_OK, latest frames ?z p, w')" "same_conn w1 w'"
      using Suc.IH [of w1] w1(2) Suc.prems(2) unfolding m by (auto simp: same_conn_def)
    then show ?thesis using w1 find True split same_conn_trans by auto
  next
    case False
    then show ?thesis using w1 find split by (auto simp: tables_loop_found Let_def add.commute)
  qed
qed

lemma FindFrame_eq:
  assumes "wal_rep wi frames" "mxFrame w \<le> length frames" "map_ok w" "readLock w \<noteq> 0"
  shows "\<exists>w'. sqlite3WalFindFrame wi w p = (SQLITE_OK, latest frames (mxFrame w) p, w') \<and> same_conn w w'"
proof (cases "mxFrame w = 0")
  case True
  then show ?thesis using assms(3) by (simp add: sqlite3WalFindFrame_def same_conn_def)
next
  case False
  then have f: "0 < mxFrame w" by simp
  have "min (mxFrame w) (iZero (walFramePage (mxFrame w) + 1)) = mxFrame w"
    using walFramePage_bounds(2) [OF f] by (simp add: iZero_Suc)
  then show ?thesis
    using tables_loop_eq [OF assms(1) f assms(2,3), of "walFramePage (mxFrame w) + 1" p] assms(4) f
    by (simp add: sqlite3WalFindFrame_def Let_def del: tables_loop.simps)
qed

section \<open>Lemmas: appending and rolling back\<close>

lemma page_ok_empty: "page_ok \<lparr>wp_aPgno = \<lambda>_. 0, wp_aHash = \<lambda>_. 0\<rparr> []"
  by (simp add: page_ok_def)

lemma page_ok_append:
  assumes "page_ok pg L" "length L < 4096" "first_free pg (walHash p) m" "m \<le> length L"
  shows "page_ok \<lparr>wp_aPgno = (wp_aPgno pg)(Suc (length L) := p),
    wp_aHash = (wp_aHash pg)(step_slot (walHash p) m := Suc (length L))\<rparr> (L @ [p])" (is "page_ok ?pg _")
  unfolding page_ok_def
proof (intro conjI allI impI)
  let ?k = "step_slot (walHash p) m"
  have free: "wp_aHash pg ?k = 0" and path: "\<And>d. d < m \<Longrightarrow> wp_aHash pg (step_slot (walHash p) d) \<noteq> 0"
    using assms(3) by (auto simp: first_free_def)
  fix i
  show "i < length (L @ [p]) \<Longrightarrow> wp_aPgno ?pg (Suc i) = (L @ [p]) ! i"
    using page_ok_pgno [OF assms(1), of i] by (auto simp: nth_append less_Suc_eq)
  show "length (L @ [p]) < i \<Longrightarrow> wp_aPgno ?pg i = 0" using page_ok_zero [OF assms(1), of i] by simp
  show "i < 8192 \<Longrightarrow> wp_aHash ?pg i \<le> length (L @ [p])" using page_ok_bound [OF assms(1), of i] by simp
  show "i = k" if "i < 8192" "k < 8192" "wp_aHash ?pg i = wp_aHash ?pg k" "wp_aHash ?pg i \<noteq> 0" for k
    using page_ok_inj [OF assms(1) that(1,2)] page_ok_bound [OF assms(1) that(1)] page_ok_bound [OF assms(1) that(2)] that(3,4)
    by (simp split: if_splits)
  show "\<exists>d<8192. wp_aHash ?pg (step_slot (walHash ((L @ [p]) ! i)) d) = Suc i \<and>
    (\<forall>e<d. wp_aHash ?pg (step_slot (walHash ((L @ [p]) ! i)) e) \<noteq> 0 \<and> wp_aHash ?pg (step_slot (walHash ((L @ [p]) ! i)) e) < Suc i)"
    if i: "i < length (L @ [p])"
  proof (cases "i = length L")
    case True
    have "wp_aHash pg (step_slot (walHash p) e) \<noteq> 0 \<and> wp_aHash pg (step_slot (walHash p) e) < Suc i" if "e < m" for e
      using path [OF that] page_ok_bound [OF assms(1), of "step_slot (walHash p) e"] True by simp
    moreover have "step_slot (walHash p) e \<noteq> ?k" if "e < m" for e using path [OF that] free by auto
    ultimately have "\<forall>e<m. wp_aHash ?pg (step_slot (walHash p) e) \<noteq> 0 \<and> wp_aHash ?pg (step_slot (walHash p) e) < Suc i" by simp
    moreover have "wp_aHash ?pg (step_slot (walHash p) m) = Suc i" using True by simp
    ultimately show ?thesis using True assms(2,4) by (intro exI [of _ m]) (simp del: wal_page.simps)
  next
    case False
    then have il: "i < length L" using i by simp
    let ?h = "walHash (L ! i)"
    from page_ok_reach [OF assms(1) il] obtain d where d: "d < 8192" "wp_aHash pg (step_slot ?h d) = Suc i"
      "\<forall>e<d. wp_aHash pg (step_slot ?h e) \<noteq> 0 \<and> wp_aHash pg (step_slot ?h e) < Suc i" by blast
    have ne: "step_slot ?h e \<noteq> ?k" if "e \<le> d" for e
    proof
      assume "step_slot ?h e = ?k"
      then have "wp_aHash pg (step_slot ?h e) = 0" using free by simp
      moreover have "wp_aHash pg (step_slot ?h e) \<noteq> 0" using d(2,3) that by (cases "e = d") (simp_all add: le_less)
      ultimately show False by simp
    qed
    have "wp_aHash ?pg (step_slot ?h e) = wp_aHash pg (step_slot ?h e)" if "e \<le> d" for e using ne [OF that] by simp
    then show ?thesis using d il by (intro exI [of _ d]) (simp add: nth_append del: wal_page.simps)
  qed
qed

lemma page_ok_cleanup:
  assumes "page_ok pg L" "n \<le> length L"
  shows "page_ok \<lparr>wp_aPgno = (\<lambda>i. if i > n then 0 else wp_aPgno pg i),
    wp_aHash = (\<lambda>i. if wp_aHash pg i > n then 0 else wp_aHash pg i)\<rparr> (take n L)" (is "page_ok ?pg _")
  unfolding page_ok_def
proof (intro conjI allI impI)
  have len: "length (take n L) = n" using assms(2) by simp
  fix i
  show "i < length (take n L) \<Longrightarrow> wp_aPgno ?pg (Suc i) = take n L ! i" using page_ok_pgno [OF assms(1), of i] by simp
  show "length (take n L) < i \<Longrightarrow> wp_aPgno ?pg i = 0" unfolding len by simp
  show "wp_aHash ?pg i \<le> length (take n L)" unfolding len by simp
  show "i = k" if "i < 8192" "k < 8192" "wp_aHash ?pg i = wp_aHash ?pg k" "wp_aHash ?pg i \<noteq> 0" for k
    using page_ok_inj [OF assms(1) that(1,2)] that(3,4) by (simp split: if_splits)
  show "\<exists>d<8192. wp_aHash ?pg (step_slot (walHash (take n L ! i)) d) = Suc i \<and>
    (\<forall>e<d. wp_aHash ?pg (step_slot (walHash (take n L ! i)) e) \<noteq> 0 \<and> wp_aHash ?pg (step_slot (walHash (take n L ! i)) e) < Suc i)"
    if i: "i < length (take n L)"
  proof -
    have il: "i < length L" "i < n" using i by simp_all
    let ?h = "walHash (L ! i)"
    from page_ok_reach [OF assms(1) il(1)] obtain d where d: "d < 8192" "wp_aHash pg (step_slot ?h d) = Suc i"
      "\<forall>e<d. wp_aHash pg (step_slot ?h e) \<noteq> 0 \<and> wp_aHash pg (step_slot ?h e) < Suc i" by blast
    have "\<not> wp_aHash pg (step_slot ?h e) > n" if "e < d" for e using d(3) il(2) that by auto
    then have "wp_aHash ?pg (step_slot ?h e) = wp_aHash pg (step_slot ?h e)" if "e < d" for e using that by simp
    moreover have "wp_aHash ?pg (step_slot ?h d) = Suc i" using d(2) il(2) by simp
    ultimately show ?thesis using d(1,3) il by (intro exI [of _ d]) (simp del: wal_page.simps)
  qed
qed
lemma segment_take_append_below:
  assumes "iZero k + page_size k \<le> n" "n \<le> length frames"
  shows "segment (take n frames @ [p]) k = segment frames k"
  using assms by (simp add: segment_def take_drop min_def)

lemma segment_take: "segment (take n frames) h = take (n - iZero h) (segment frames h)"
  by (simp add: segment_def drop_take min.commute)

lemma wal_page_eq: "\<lparr>wp_aPgno = wp_aPgno pg, wp_aHash = wp_aHash pg\<rparr> = (pg :: wal_page)"
  by simp

lemma wi_page_set_page [simp]: "wi_page (set_page h pg wi) k = (if k = h then pg else wi_page wi k)"
  by (simp add: set_page_def)

definition same_shared :: "WalIndex \<Rightarrow> WalIndex \<Rightarrow> bool" where
  "same_shared wi wi' \<longleftrightarrow> wi_hdr wi' = wi_hdr wi \<and> nBackfill wi' = nBackfill wi \<and> aReadMark wi' = aReadMark wi"

lemma same_shared_simps [simp]:
  "same_shared wi wi" "same_shared wi (set_page h pg wi)" "same_shared wi (walCleanupHash wi w)"
  by (simp_all add: same_shared_def set_page_def walCleanupHash_def Let_def)

text \<open>Dropping the frames behind \<open>mxFrame\<close>: the other index pages keep what they have.\<close>

lemma cleanup_page:
  assumes "page_ok (wi_page wi (walFramePage n)) (segment frames (walFramePage n))" "0 < n" "n \<le> length frames" "mxFrame w = n"
  shows "page_ok (wi_page (walCleanupHash wi w) (walFramePage n)) (segment (take n frames) (walFramePage n))"
    "k \<noteq> walFramePage n \<Longrightarrow> wi_page (walCleanupHash wi w) k = wi_page wi k"
proof -
  let ?h = "walFramePage n"
  have l: "n - iZero ?h \<le> length (segment frames ?h)" using walFramePage_bounds [OF assms(2)] assms(3) by (auto simp: length_segment)
  show "page_ok (wi_page (walCleanupHash wi w) ?h) (segment (take n frames) ?h)"
    using page_ok_cleanup [OF assms(1) l] assms(2,4) unfolding segment_take by (simp add: walCleanupHash_def Let_def)
  show "k \<noteq> ?h \<Longrightarrow> wi_page (walCleanupHash wi w) k = wi_page wi k"
    using assms(2,4) by (simp add: walCleanupHash_def Let_def)
qed

lemma wal_rep_take:
  assumes "wal_rep wi frames" "n \<le> length frames" "mxFrame w = n"
  shows "wal_rep (walCleanupHash wi w) (take n frames)"
proof (cases "n = 0")
  case True
  then show ?thesis by (simp add: wal_rep_def)
next
  case False
  then have n: "0 < n" by simp
  have pg: "page_ok (wi_page wi h) (segment frames h)" if "iZero h < n" for h using assms(1,2) that by (auto simp: wal_rep_def)
  note c = cleanup_page [OF pg [OF walFramePage_bounds(1) [OF n]] n assms(2,3)]
  have "page_ok (wi_page (walCleanupHash wi w) h) (segment (take n frames) h)" if h: "iZero h < n" for h
  proof (cases "h = walFramePage n")
    case True
    then show ?thesis using c(1) by simp
  next
    case False
    then have "Suc h \<le> walFramePage n" using iZero_le_framePage [OF n] h by simp
    then have "iZero h + page_size h \<le> n" using iZero_mono [of "Suc h" "walFramePage n"] walFramePage_bounds(1) [OF n] by (simp add: iZero_Suc)
    then have "segment (take n frames) h = segment frames h" by (simp add: segment_take length_segment)
    then show ?thesis using c(2) [OF False] pg [OF h] by simp
  qed
  moreover have "0 \<notin> set (take n frames)" using assms(1) set_take_subset [of n frames] by (auto simp: wal_rep_def)
  ultimately show ?thesis by (simp add: wal_rep_def)
qed

text \<open>The index page as \<open>walIndexAppend\<close> finds it or makes it: it covers the frames before the new one.\<close>

lemma append_page:
  assumes "wal_rep wi frames" "n \<le> length frames" "n < length frames \<longrightarrow> mxFrame w = n"
  defines "h \<equiv> walFramePage (Suc n)"
  defines "wi1 \<equiv> (if Suc n - iZero h = 1 then set_page h \<lparr>wp_aPgno = (\<lambda>_. 0), wp_aHash = (\<lambda>_. 0)\<rparr> wi else wi)"
  defines "wi2 \<equiv> (if wp_aPgno (wi_page wi1 h) (Suc n - iZero h) \<noteq> 0 then walCleanupHash wi1 w else wi1)"
  shows "page_ok (wi_page wi2 h) (segment (take n frames) h)" "\<forall>k. k \<noteq> h \<longrightarrow> wi_page wi2 k = wi_page wi k" "same_shared wi wi2"
proof -
  let ?z = "iZero h"
  have b: "?z < Suc n" "Suc n \<le> ?z + page_size h" unfolding h_def using walFramePage_bounds [of "Suc n"] by simp_all
  show "page_ok (wi_page wi2 h) (segment (take n frames) h)" "\<forall>k. k \<noteq> h \<longrightarrow> wi_page wi2 k = wi_page wi k" "same_shared wi wi2"
  proof (atomize (full), cases "n = ?z")
    case True
    then have one: "Suc n - ?z = 1" by simp
    have "wi1 = set_page h \<lparr>wp_aPgno = (\<lambda>_. 0), wp_aHash = (\<lambda>_. 0)\<rparr> wi" unfolding wi1_def one by simp
    moreover from this have "wi2 = wi1" unfolding wi2_def by simp
    moreover have "segment (take n frames) h = []" using True by (simp add: segment_take)
    ultimately show "page_ok (wi_page wi2 h) (segment (take n frames) h) \<and> (\<forall>k. k \<noteq> h \<longrightarrow> wi_page wi2 k = wi_page wi k) \<and> same_shared wi wi2"
      using page_ok_empty by simp
  next
    case False
    then have z: "?z < n" using b by simp
    have wi1: "wi1 = wi" unfolding wi1_def using z by simp
    have pg: "page_ok (wi_page wi h) (segment frames h)" using assms(1,2) z by (auto simp: wal_rep_def)
    show "page_ok (wi_page wi2 h) (segment (take n frames) h) \<and> (\<forall>k. k \<noteq> h \<longrightarrow> wi_page wi2 k = wi_page wi k) \<and> same_shared wi wi2"
    proof (cases "n = length frames")
      case True
      then have "length (segment frames h) = n - ?z" using b by (simp add: length_segment)
      then have "wp_aPgno (wi_page wi h) (Suc n - ?z) = 0" using z by (intro page_ok_zero [OF pg]) simp
      then have "wi2 = wi" unfolding wi2_def wi1 by simp
      then show ?thesis using pg True by simp
    next
      case False
      then have l: "n < length frames" using assms(2) by simp
      have i: "n - ?z < length (segment frames h)" using l b z by (auto simp: length_segment)
      have "wp_aPgno (wi_page wi h) (Suc n - ?z) = frames ! n"
        using page_ok_pgno [OF pg i] segment_nth [OF i] z by (simp add: Suc_diff_le)
      moreover have "frames ! n \<noteq> 0" using assms(1) l by (metis nth_mem wal_rep_def)
      ultimately have wi2: "wi2 = walCleanupHash wi w" unfolding wi2_def wi1 by simp
      have h: "walFramePage n = h" using walFramePage_iff [of n h] z b by simp
      have m: "mxFrame w = n" using assms(3) l by simp
      show ?thesis using cleanup_page [of wi n frames w] pg z assms(2) m unfolding h wi2 by simp
    qed
  qed
qed

lemma walHashGet_hdr: "w_hdr (snd (snd (walHashGet w h))) = w_hdr w \<and> readLock (snd (snd (walHashGet w h))) = readLock w \<and>
    nCkpt (snd (snd (walHashGet w h))) = nCkpt w"
  by (auto simp: walHashGet_def walIndexPage_def split: list.split)

lemma IndexAppend_mapped:
  assumes "wal_rep wi frames" "n \<le> length frames" "n < length frames \<longrightarrow> mxFrame w = n" "p \<noteq> 0"
    "walHashGet w (walFramePage (Suc n)) = (SQLITE_OK, z, w')"
  shows "\<exists>wi'. walIndexAppend wi w (Suc n) p = (SQLITE_OK, wi', w') \<and> wal_rep wi' (take n frames @ [p]) \<and> same_shared wi wi'"
proof -
  let ?h = "walFramePage (Suc n)"
  let ?z = "iZero ?h" and ?idx = "Suc n - iZero ?h"
  have w': "walHashGet w ?h = (SQLITE_OK, ?z, w')" and "w_hdr w' = w_hdr w"
    using assms(5) walHashGet_hdr [of w ?h] by (auto simp: walHashGet_def split: prod.splits)
  then have m': "n < length frames \<longrightarrow> mxFrame w' = n" using assms(3) by simp
  define wi1 where "wi1 = (if ?idx = 1 then set_page ?h \<lparr>wp_aPgno = (\<lambda>_. 0), wp_aHash = (\<lambda>_. 0)\<rparr> wi else wi)"
  define wi2 where "wi2 = (if wp_aPgno (wi_page wi1 ?h) ?idx \<noteq> 0 then walCleanupHash wi1 w' else wi1)"
  note pg = append_page [OF assms(1,2) m', folded wi1_def, folded wi2_def]
  let ?L = "segment (take n frames) ?h"
  have b: "?z < Suc n" "Suc n \<le> ?z + page_size ?h" using walFramePage_bounds [of "Suc n"] by simp_all
  have len: "length ?L = n - ?z" using b assms(2) by (simp add: segment_take length_segment)
  have small: "length ?L < 4096" using b page_size_bound [of ?h] unfolding len by simp
  have idx: "?idx = Suc (length ?L)" "?idx mod 2 ^ 16 = ?idx" using len b small by (simp_all add: Suc_diff_le)
  from first_free_exists [OF pg(1), of "walHash p"] small obtain m where m: "m \<le> length ?L" "first_free (wi_page wi2 ?h) (walHash p) m"
    by auto
  let ?pg = "\<lparr>wp_aPgno = (wp_aPgno (wi_page wi2 ?h))(?idx := p),
    wp_aHash = (wp_aHash (wi_page wi2 ?h))(step_slot (walHash p) m := ?idx)\<rparr>"
  let ?wi = "set_page ?h ?pg wi2"
  have probe: "append_probe (wp_aHash (wi_page wi2 ?h)) ?idx (walHash p) = Some (step_slot (walHash p) m)"
    using m idx(1) walHash_less by (intro append_probe_eq) auto
  have "walIndexAppend wi w (Suc n) p = (SQLITE_OK, ?wi, w')"
    by (simp only: walIndexAppend_def Let_def w' prod.case wi1_def [symmetric] wi2_def [symmetric] probe option.case idx(2)
        simp_thms if_False)
  moreover have "wal_rep ?wi (take n frames @ [p])"
  proof -
    have "page_ok (wi_page ?wi k) (segment (take n frames @ [p]) k)" if k: "iZero k < Suc n" for k
    proof (cases "k = ?h")
      case True
      have "segment (take n frames @ [p]) ?h = ?L @ [p]" using b assms(2) by (simp add: segment_def)
      then show ?thesis using page_ok_append [OF pg(1) small m(2,1)] idx(1) True by simp
    next
      case False
      then have "Suc k \<le> ?h" using iZero_le_framePage [of "Suc n" k] k by simp
      then have le: "iZero k + page_size k \<le> n" using iZero_mono [of "Suc k" ?h] b by (simp add: iZero_Suc)
      then have "iZero k < length frames" using assms(2) by (simp add: page_size_def split: if_splits)
      then show ?thesis using segment_take_append_below [OF le assms(2)] pg(2) False assms(1) by (simp add: wal_rep_def)
    qed
    moreover have "0 \<notin> set (take n frames @ [p])" using assms(1,4) set_take_subset [of n frames] by (auto simp: wal_rep_def)
    ultimately show ?thesis using assms(2) by (simp add: wal_rep_def)
  qed
  moreover have "same_shared wi ?wi" using pg(3) by (simp add: same_shared_def set_page_def)
  ultimately show ?thesis by blast
qed

text \<open>Appending either succeeds and extends the log, or fails for lack of memory and leaves the index as it was.\<close>

lemma IndexAppend_cases:
  assumes "wal_rep wi frames" "n \<le> length frames" "n < length frames \<longrightarrow> mxFrame w = n" "p \<noteq> 0"
    "walIndexAppend wi w (Suc n) p = (rc, wi', w')"
  shows "if rc = SQLITE_OK then wal_rep wi' (take n frames @ [p]) else wi' = wi" "same_shared wi wi'" "w_hdr w' = w_hdr w"
proof -
  obtain rc1 z w1 where g: "walHashGet w (walFramePage (Suc n)) = (rc1, z, w1)" by (metis prod_cases3)
  have h: "w_hdr w1 = w_hdr w" using walHashGet_hdr [of w "walFramePage (Suc n)"] unfolding g by simp
  have "(if rc = SQLITE_OK then wal_rep wi' (take n frames @ [p]) else wi' = wi) \<and> same_shared wi wi' \<and> w_hdr w' = w_hdr w"
  proof (cases "rc1 = SQLITE_OK")
    case True
    then show ?thesis using IndexAppend_mapped [OF assms(1-4), of z w1] g assms(5) h by auto
  next
    case False
    then have "rc = rc1" "wi' = wi" "w' = w1" using assms(5) g by (simp_all add: walIndexAppend_def Let_def)
    then show ?thesis using False h by simp
  qed
  then show "if rc = SQLITE_OK then wal_rep wi' (take n frames @ [p]) else wi' = wi" "same_shared wi wi'" "w_hdr w' = w_hdr w"
    by simp_all
qed
section \<open>Readers and a writer\<close>

text \<open>The end of \<open>sqlite3WalFrames\<close>: the write position of the connection moves, and a commit publishes the header. The
  header is published in one step; the two copies and the checksum that protect a reader against a torn header are not
  modelled.\<close>

definition walIndexWriteHdr :: "WalIndex \<Rightarrow> Wal \<Rightarrow> WalIndex \<times> Wal" where
  "walIndexWriteHdr wi w =
     (let hdr = (w_hdr w)\<lparr>h_isInit := 1, h_iVersion := 3007000\<rparr> in (wi\<lparr>wi_hdr := hdr\<rparr>, w\<lparr>w_hdr := hdr\<rparr>))"

definition frames_done :: "WalIndex \<Rightarrow> Wal \<Rightarrow> nat \<Rightarrow> nat \<Rightarrow> nat \<Rightarrow> WalIndex \<times> Wal" where
  "frames_done wi w iFrame sz nTruncate =
     (let hdr = (w_hdr w)\<lparr>h_szPage := (sz AND 0xff00) OR drop_bit 16 sz, h_mxFrame := iFrame\<rparr> in
      if nTruncate \<noteq> 0 then
        walIndexWriteHdr wi (w\<lparr>w_hdr := hdr\<lparr>h_iChange := (h_iChange hdr + 1) mod 2 ^ 32, h_nPage := nTruncate\<rparr>\<rparr>)
      else (wi, w\<lparr>w_hdr := hdr\<rparr>))"

text \<open>The part of \<open>walRestartLog\<close> that starts the log again from its beginning, when no reader uses it.\<close>

definition restart_log :: "WalIndex \<Rightarrow> Wal \<Rightarrow> u8 list \<Rightarrow> WalIndex \<times> Wal" where
  "restart_log wi w salt1 =
     (let aSalt = h_aSalt (w_hdr w);
          w = w\<lparr>nCkpt := (nCkpt w + 1) mod 2 ^ 32,
                w_hdr := (w_hdr w)\<lparr>h_mxFrame := 0, h_aSalt := sqlite3Put4byte (take 4 aSalt) (1 + sqlite3Get4byte aSalt) @ salt1\<rparr>\<rparr>;
          (wi, w) = walIndexWriteHdr wi w
      in (wi\<lparr>nBackfill := 0, aReadMark := [0, 0] @ replicate 3 0xffffffff\<rparr>, w))"

text \<open>
  The system of one index, the frames it covers, at most one writer with the position it has reached in its list of pages,
  and any number of readers, each with the frames that were committed when it began. A step is one call, so that
  readers run between any two changes of the index; a writer may stop at any point and leave what it has done.
\<close>

record wal_sys =
  sy_index :: WalIndex
  sy_frames :: "nat list"
  sy_writer :: "(Wal \<times> nat) option"
  sy_readers :: "(Wal \<times> nat list) list"

abbreviation committed :: "wal_sys \<Rightarrow> nat" where "committed s \<equiv> h_mxFrame (wi_hdr (sy_index s))"

inductive wal_step :: "wal_sys \<Rightarrow> wal_sys \<Rightarrow> bool" where
  begin_read:
    "w_hdr w = wi_hdr (sy_index s) \<Longrightarrow> readLock w > 0 \<Longrightarrow>
     wal_step s (s\<lparr>sy_readers := (w, take (committed s) (sy_frames s)) # sy_readers s\<rparr>)"
| end_read: "wal_step s (s\<lparr>sy_readers := remove1 r (sy_readers s)\<rparr>)"
| begin_write:
    "sy_writer s = None \<Longrightarrow> w_hdr w = wi_hdr (sy_index s) \<Longrightarrow> wal_step s (s\<lparr>sy_writer := Some (w, mxFrame w)\<rparr>)"
| append:
    "sy_writer s = Some (w, iFrame) \<Longrightarrow> p \<noteq> 0 \<Longrightarrow> walIndexAppend (sy_index s) w (iFrame + 1) p = (SQLITE_OK, wi, w') \<Longrightarrow>
     wal_step s (s\<lparr>sy_index := wi, sy_frames := take iFrame (sy_frames s) @ [p], sy_writer := Some (w', iFrame + 1)\<rparr>)"
| append_fails:
    "sy_writer s = Some (w, iFrame) \<Longrightarrow> p \<noteq> 0 \<Longrightarrow> walIndexAppend (sy_index s) w (iFrame + 1) p = (rc, wi, w') \<Longrightarrow> rc \<noteq> SQLITE_OK \<Longrightarrow>
     wal_step s (s\<lparr>sy_index := wi, sy_writer := Some (w', mxFrame w')\<rparr>)"
| frames_written:
    "sy_writer s = Some (w, iFrame) \<Longrightarrow> frames_done (sy_index s) w iFrame sz nTruncate = (wi, w') \<Longrightarrow>
     wal_step s (s\<lparr>sy_index := wi, sy_writer := Some (w', iFrame)\<rparr>)"
| undo:
    "sy_writer s = Some (w, mxFrame w) \<Longrightarrow> sqlite3WalUndo (sy_index s) w rcs = (rc, pages, wi, w') \<Longrightarrow>
     wal_step s (s\<lparr>sy_index := wi, sy_writer := Some (w', mxFrame w'),
       sy_frames := (if mxFrame w \<noteq> mxFrame w' then take (mxFrame w') (sy_frames s) else sy_frames s)\<rparr>)"
| savepoint_undo:
    "sy_writer s = Some (w, mxFrame w) \<Longrightarrow> sqlite3WalSavepointUndo (sy_index s) w sp = (wi, w', sp') \<Longrightarrow>
     committed s \<le> fst sp' \<Longrightarrow>
     wal_step s (s\<lparr>sy_index := wi, sy_writer := Some (w', mxFrame w'),
       sy_frames := (if mxFrame w \<noteq> mxFrame w' then take (mxFrame w') (sy_frames s) else sy_frames s)\<rparr>)"
| restart:
    "sy_writer s = Some (w, mxFrame w) \<Longrightarrow> sy_readers s = [] \<Longrightarrow> restart_log (sy_index s) w salt1 = (wi, w') \<Longrightarrow>
     wal_step s (s\<lparr>sy_index := wi, sy_frames := [], sy_writer := Some (w', 0)\<rparr>)"
| writer_stops: "wal_step s (s\<lparr>sy_writer := None\<rparr>)"

inductive wal_reach :: "wal_sys \<Rightarrow> bool" where
  start: "h_mxFrame (wi_hdr wi) = 0 \<Longrightarrow> wal_reach \<lparr>sy_index = wi, sy_frames = [], sy_writer = None, sy_readers = []\<rparr>"
| step: "wal_reach s \<Longrightarrow> wal_step s s' \<Longrightarrow> wal_reach s'"

definition wal_inv :: "wal_sys \<Rightarrow> bool" where
  "wal_inv s \<longleftrightarrow>
     wal_rep (sy_index s) (sy_frames s) \<and> committed s \<le> length (sy_frames s) \<and>
     (\<forall>(w, snap)\<in>set (sy_readers s). 0 < readLock w \<and> mxFrame w = length snap \<and> length snap \<le> committed s \<and>
        snap = take (length snap) (sy_frames s)) \<and>
     (\<forall>w i. sy_writer s = Some (w, i) \<longrightarrow> committed s \<le> mxFrame w \<and> mxFrame w \<le> i \<and> i \<le> length (sy_frames s) \<and>
        (i < length (sy_frames s) \<longrightarrow> i = mxFrame w))"

lemma wal_rep_same_pages: "wi_page wi' = wi_page wi \<Longrightarrow> wal_rep wi' frames \<longleftrightarrow> wal_rep wi frames"
  by (simp add: wal_rep_def)

lemma wal_rep_Nil [simp]: "wal_rep wi []" by (simp add: wal_rep_def)

text \<open>What a step may do to the part of the log that readers see.\<close>

lemma wal_inv_frames:
  assumes "wal_inv s" "wal_rep wi fs" "h_mxFrame (wi_hdr wi) = c" "committed s \<le> c" "c \<le> length fs"
    "take (committed s) fs = take (committed s) (sy_frames s)"
    "\<forall>w i. wr = Some (w, i) \<longrightarrow> c \<le> mxFrame w \<and> mxFrame w \<le> i \<and> i \<le> length fs \<and> (i < length fs \<longrightarrow> i = mxFrame w)"
  shows "wal_inv (s\<lparr>sy_index := wi, sy_frames := fs, sy_writer := wr\<rparr>)"
proof -
  have "snap = take (length snap) fs" if "(w, snap) \<in> set (sy_readers s)" for w snap
  proof -
    have "length snap \<le> committed s" "snap = take (length snap) (sy_frames s)" using assms(1) that by (auto simp: wal_inv_def)
    then have "take (length snap) fs = take (length snap) (sy_frames s)" using assms(6) by (metis min.absorb1 take_take)
    then show ?thesis using \<open>snap = take (length snap) (sy_frames s)\<close> by simp
  qed
  then show ?thesis using assms by (fastforce simp: wal_inv_def)
qed
lemma sys_update:
  "s\<lparr>sy_index := wi, sy_writer := wr\<rparr> = s\<lparr>sy_index := wi, sy_frames := sy_frames s, sy_writer := wr\<rparr>"
  "s\<lparr>sy_index := wi, sy_writer := wr, sy_frames := fs\<rparr> = s\<lparr>sy_index := wi, sy_frames := fs, sy_writer := wr\<rparr>"
  by (cases s; simp)+

lemma wal_inv_rollback:
  assumes "wal_inv s" "sy_writer s = Some (w, mxFrame w)" "committed s \<le> mxFrame w'" "mxFrame w' \<le> mxFrame w"
    "wi = (if mxFrame w \<noteq> mxFrame w' then walCleanupHash (sy_index s) w' else sy_index s)"
  shows "wal_inv (s\<lparr>sy_index := wi, sy_writer := Some (w', mxFrame w'),
       sy_frames := (if mxFrame w \<noteq> mxFrame w' then take (mxFrame w') (sy_frames s) else sy_frames s)\<rparr>)"
proof -
  have i: "wal_rep (sy_index s) (sy_frames s)" "committed s \<le> length (sy_frames s)" "mxFrame w \<le> length (sy_frames s)"
    using assms(1,2) by (auto simp: wal_inv_def)
  have hdr: "wi_hdr wi = wi_hdr (sy_index s)" using same_shared_simps(3) [of "sy_index s" w'] assms(5) by (simp add: same_shared_def)
  have l: "mxFrame w' \<le> length (sy_frames s)" using assms(4) i(3) by simp
  show ?thesis unfolding sys_update(2)
  proof (rule wal_inv_frames [OF assms(1)])
    show "wal_rep wi (if mxFrame w \<noteq> mxFrame w' then take (mxFrame w') (sy_frames s) else sy_frames s)"
      using assms(5) i(1) wal_rep_take [OF i(1) l refl] by simp
    show "h_mxFrame (wi_hdr wi) = committed s" by (simp add: hdr)
    show "committed s \<le> length (if mxFrame w \<noteq> mxFrame w' then take (mxFrame w') (sy_frames s) else sy_frames s)"
      using i(2) assms(3) by simp
    show "take (committed s) (if mxFrame w \<noteq> mxFrame w' then take (mxFrame w') (sy_frames s) else sy_frames s) =
        take (committed s) (sy_frames s)" using assms(3) by (simp add: min_def)
  qed (use l assms(3) in auto)
qed

lemma wal_step_inv: "wal_step s s' \<Longrightarrow> wal_inv s \<Longrightarrow> wal_inv s'"
proof (induction rule: wal_step.induct)
  case (begin_read w s)
  then show ?case by (auto simp: wal_inv_def min_def)
next
  case (end_read s r)
  then show ?case by (auto simp: wal_inv_def dest: notin_set_remove1)
next
  case (begin_write s w)
  then show ?case by (auto simp: wal_inv_def)
next
  case (append s w iFrame p wi w')
  have i: "wal_rep (sy_index s) (sy_frames s)" "iFrame \<le> length (sy_frames s)" "iFrame < length (sy_frames s) \<longrightarrow> mxFrame w = iFrame"
    "committed s \<le> mxFrame w" "mxFrame w \<le> iFrame"
    using append.prems append.hyps(1) by (auto simp: wal_inv_def)
  note a = IndexAppend_cases [OF i(1-3) append.hyps(2) append.hyps(3) [unfolded Suc_eq_plus1 [symmetric]]]
  show ?case
  proof (rule wal_inv_frames [OF append.prems])
    show "wal_rep wi (take iFrame (sy_frames s) @ [p])" using a(1) by simp
    show "h_mxFrame (wi_hdr wi) = committed s" using a(2) by (simp add: same_shared_def)
  qed (use i a(3) in auto)
next
  case (append_fails s w iFrame p rc wi w')
  have i: "wal_rep (sy_index s) (sy_frames s)" "iFrame \<le> length (sy_frames s)" "iFrame < length (sy_frames s) \<longrightarrow> mxFrame w = iFrame"
    "committed s \<le> mxFrame w" "mxFrame w \<le> iFrame" "committed s \<le> length (sy_frames s)"
    using append_fails.prems append_fails.hyps(1) by (auto simp: wal_inv_def)
  note a = IndexAppend_cases [OF i(1-3) append_fails.hyps(2) append_fails.hyps(3) [unfolded Suc_eq_plus1 [symmetric]]]
  have "wi = sy_index s" using a(1) append_fails.hyps(4) by simp
  then show ?case unfolding sys_update(1) using i a(3)
    by (intro wal_inv_frames [OF append_fails.prems]) auto
next
  case (frames_written s w iFrame sz nTruncate wi w')
  have i: "wal_rep (sy_index s) (sy_frames s)" "iFrame \<le> length (sy_frames s)" "committed s \<le> iFrame" "committed s \<le> length (sy_frames s)"
    using frames_written.prems frames_written.hyps(1) by (auto simp: wal_inv_def)
  have w: "wi_page wi = wi_page (sy_index s)" "mxFrame w' = iFrame" "h_mxFrame (wi_hdr wi) = (if nTruncate \<noteq> 0 then iFrame else committed s)"
    using frames_written.hyps(2) by (auto simp: frames_done_def walIndexWriteHdr_def Let_def split: if_splits)
  show ?case unfolding sys_update(1)
    by (rule wal_inv_frames [OF frames_written.prems, where c = "h_mxFrame (wi_hdr wi)"]) (use i w wal_rep_same_pages [OF w(1)] in auto)
next
  case (undo s w rcs rc pages wi w')
  have "w' = w\<lparr>w_hdr := wi_hdr (sy_index s)\<rparr>" "wi = (if mxFrame w \<noteq> mxFrame w' then walCleanupHash (sy_index s) w' else sy_index s)"
    using undo.hyps(2) by (auto simp: sqlite3WalUndo_def Let_def split: prod.splits)
  moreover have "committed s \<le> mxFrame w" using undo.prems undo.hyps(1) by (auto simp: wal_inv_def)
  ultimately show ?case using undo.hyps(1) by (intro wal_inv_rollback [OF undo.prems]) auto
next
  case (savepoint_undo s w sp wi w' sp')
  have m: "committed s \<le> mxFrame w" using savepoint_undo.prems savepoint_undo.hyps(1) by (auto simp: wal_inv_def)
  have "mxFrame w' = min (fst sp') (mxFrame w)" "wi = (if mxFrame w \<noteq> mxFrame w' then walCleanupHash (sy_index s) w' else sy_index s)"
    using savepoint_undo.hyps(2) by (auto simp: sqlite3WalSavepointUndo_def Let_def split: prod.splits if_splits)
  then show ?case using m savepoint_undo.hyps(1,3) by (intro wal_inv_rollback [OF savepoint_undo.prems]) auto
next
  case (restart s w salt1 wi w')
  have "mxFrame w' = 0" "h_mxFrame (wi_hdr wi) = 0"
    using restart.hyps(3) by (auto simp: restart_log_def walIndexWriteHdr_def Let_def)
  then show ?case using restart.hyps(2) by (simp add: wal_inv_def)
next
  case (writer_stops s)
  then show ?case by (auto simp: wal_inv_def)
qed

lemma wal_reach_inv: "wal_reach s \<Longrightarrow> wal_inv s"
proof (induction rule: wal_reach.induct)
  case (start wi)
  then show ?case by (simp add: wal_inv_def)
next
  case (step s s')
  then show ?case using wal_step_inv by blast
qed

section \<open>Properties\<close>

text \<open>C11: For an index that covers a log, the search through the hash tables finds the latest frame of a page among those the
  connection sees, or none, exactly as the linear search through the page numbers of the frames does.\<close>

theorem find_frame_latest:
  assumes "wal_rep wi frames" "mxFrame w \<le> length frames" "map_ok w" "readLock w \<noteq> 0"
  shows "\<exists>w'. sqlite3WalFindFrame wi w p = (SQLITE_OK, latest frames (mxFrame w) p, w') \<and> w_hdr w' = w_hdr w"
  using FindFrame_eq [OF assms, of p] by (auto simp: same_conn_def)

definition sample_hdr :: WalIndexHdr where
  "sample_hdr = \<lparr>h_iVersion = 3007000, h_iChange = 1, h_isInit = 1, h_bigEndCksum = 0, h_szPage = 4096, h_mxFrame = 0, h_nPage = 0,
     h_aFrameCksum = (0, 0), h_aSalt = replicate 8 0\<rparr>"

definition sample_index :: WalIndex where
  "sample_index = \<lparr>wi_page = (\<lambda>_. \<lparr>wp_aPgno = (\<lambda>_. 0), wp_aHash = (\<lambda>_. 0)\<rparr>), wi_hdr = sample_hdr, nBackfill = 0,
     aReadMark = [0, 0] @ replicate 3 0xffffffff\<rparr>"

definition sample_wal :: "nat \<Rightarrow> Wal" where
  "sample_wal n = \<lparr>apWiData = [], map_rcs = [], szPage = 4096, readLock = 1, w_hdr = sample_hdr\<lparr>h_mxFrame := n\<rparr>, nCkpt = 0\<rparr>"

lemma sample_append:
  "\<exists>wi w. walIndexAppend sample_index (sample_wal 0) 1 7 = (SQLITE_OK, wi, w) \<and> wal_rep wi [7] \<and> same_shared sample_index wi \<and>
     w_hdr w = w_hdr (sample_wal 0)"
proof -
  obtain w where w: "walHashGet (sample_wal 0) (walFramePage (Suc 0)) = (SQLITE_OK, iZero (walFramePage (Suc 0)), w)"
    "w_hdr w = w_hdr (sample_wal 0)"
    using walHashGet_ok [of "sample_wal 0" "walFramePage (Suc 0)"] by (auto simp: map_ok_def sample_wal_def same_conn_def)
  from IndexAppend_mapped [of sample_index "[]" 0 "sample_wal 0" 7, OF _ _ _ _ w(1)] w(2) show ?thesis by fastforce
qed

theorem find_frame_latest_witness:
  "\<exists>wi w. walIndexAppend sample_index (sample_wal 0) 1 7 = (SQLITE_OK, wi, w) \<and>
     (\<exists>w'. sqlite3WalFindFrame wi (sample_wal 1) 7 = (SQLITE_OK, 1, w')) \<and> (\<exists>w'. sqlite3WalFindFrame wi (sample_wal 1) 8 = (SQLITE_OK, 0, w'))"
proof -
  from sample_append obtain wi w where a: "walIndexAppend sample_index (sample_wal 0) 1 7 = (SQLITE_OK, wi, w)" "wal_rep wi [7]" by blast
  have m: "mxFrame (sample_wal 1) \<le> length [7 :: nat]" "map_ok (sample_wal 1)" "readLock (sample_wal 1) \<noteq> 0"
    "mxFrame (sample_wal 1) = 1" by (simp_all add: sample_wal_def map_ok_def)
  from find_frame_latest [OF a(2) m(1-3), of 7] find_frame_latest [OF a(2) m(1-3), of 8] a(1) show ?thesis unfolding m(4) by auto
qed

text \<open>C9: A reader keeps its snapshot. Whatever a writer does after the reader has begun (frames appended, spilled, committed, rolled back,
  also to a savepoint, failed requests for memory, a writer that stops in the middle, and the next one that clears away
  the remains), the reader finds for every page the latest frame among those committed when it began.\<close>

theorem reader_keeps_snapshot:
  assumes "wal_reach s" "(w, snap) \<in> set (sy_readers s)" "map_ok w"
  shows "\<exists>w'. sqlite3WalFindFrame (sy_index s) w p = (SQLITE_OK, latest snap (length snap) p, w')"
proof -
  have i: "wal_rep (sy_index s) (sy_frames s)" "0 < readLock w" "mxFrame w = length snap" "length snap \<le> length (sy_frames s)"
    "snap = take (length snap) (sy_frames s)"
    using wal_reach_inv [OF assms(1)] assms(2) by (auto simp: wal_inv_def)
  have "latest (sy_frames s) (length snap) p = latest snap (length snap) p"
    using latest_take [of "length snap" "length snap" "sy_frames s" p] i(4,5) by simp
  then show ?thesis using FindFrame_eq [OF i(1) _ assms(3), of p] i(2-4) by auto
qed

theorem reader_keeps_snapshot_witness:
  "\<exists>s w. wal_reach s \<and> (w, [7]) \<in> set (sy_readers s) \<and> (\<exists>w'. sqlite3WalFindFrame (sy_index s) w 7 = (SQLITE_OK, 1, w'))"
proof -
  define s0 where "s0 = \<lparr>sy_index = sample_index, sy_frames = [], sy_writer = None, sy_readers = []\<rparr>"
  define s1 where "s1 = s0\<lparr>sy_writer := Some (sample_wal 0, mxFrame (sample_wal 0))\<rparr>"
  have m: "mxFrame (sample_wal 0) = 0" by (simp add: sample_wal_def)
  have r0: "wal_reach s0" unfolding s0_def by (rule wal_reach.start) (simp add: sample_index_def sample_hdr_def)
  have "wal_step s0 s1" unfolding s1_def
    by (rule wal_step.begin_write) (simp_all add: s0_def sample_index_def sample_wal_def sample_hdr_def)
  with r0 have r1: "wal_reach s1" by (rule wal_reach.step)
  from sample_append obtain wi w where a: "walIndexAppend sample_index (sample_wal 0) 1 7 = (SQLITE_OK, wi, w)" "wal_rep wi [7]"
    "w_hdr w = w_hdr (sample_wal 0)" by blast
  define s2 where "s2 = s1\<lparr>sy_index := wi, sy_frames := take 0 (sy_frames s1) @ [7], sy_writer := Some (w, 0 + 1)\<rparr>"
  have "wal_step s1 s2" unfolding s2_def
    by (rule wal_step.append [of s1 "sample_wal 0" 0]) (simp_all add: s1_def s0_def m a(1) [unfolded One_nat_def])
  with r1 have r2: "wal_reach s2" by (rule wal_reach.step)
  obtain wi' w' where d: "frames_done wi w 1 4096 1 = (wi', w')" by fastforce
  then have h: "h_mxFrame (wi_hdr wi') = 1" by (auto simp: frames_done_def walIndexWriteHdr_def Let_def)
  define s3 where "s3 = s2\<lparr>sy_index := wi', sy_writer := Some (w', 1)\<rparr>"
  have "wal_step s2 s3" unfolding s3_def by (rule wal_step.frames_written [of s2 w 1 4096 1]) (simp_all add: s2_def d [unfolded One_nat_def])
  with r2 have r3: "wal_reach s3" by (rule wal_reach.step)
  let ?r = "(sample_wal 0)\<lparr>w_hdr := wi_hdr wi'\<rparr>"
  define s4 where "s4 = s3\<lparr>sy_readers := (?r, take (committed s3) (sy_frames s3)) # sy_readers s3\<rparr>"
  have "wal_step s3 s4" unfolding s4_def by (rule wal_step.begin_read) (simp_all add: s3_def sample_wal_def)
  with r3 have r4: "wal_reach s4" by (rule wal_reach.step)
  have mem: "(?r, [7]) \<in> set (sy_readers s4)" by (simp add: s4_def s3_def s2_def h)
  have "map_ok ?r" by (simp add: map_ok_def sample_wal_def)
  from reader_keeps_snapshot [OF r4 mem this, of 7] r4 mem show ?thesis by auto
qed

end
