(* ===== verification/Wal_Checkpoint.thy ===== *)
theory Wal_Checkpoint
  imports Wal_Index
begin

text \<open>
  Checkpoints of the write-ahead log (wal.c): the iterator over the pages of the log in ascending order and the copying of
  their latest frames back into the database.

  The index arrays that are sorted are a list which the merges overwrite in place, and a part of it is given by its offset and length, as the
  pointers of the code are. The iterator reads the page numbers from the shared index at every call. The database is a
  function from page numbers to page contents, the log one from frame numbers.

  Locks and file operations belong to the operating system layer. The outcome of an attempt for an exclusive lock is a function
  of a running number and the slots asked for, the answers of the busy handler and the result codes of the file operations
  still to be made are lists, and an exhausted list means refusal and success. A failed write leaves any content behind.
\<close>

section \<open>Sorting the frames of an index page\<close>

function walMerge_loop :: "(nat \<Rightarrow> nat) \<Rightarrow> nat list \<Rightarrow> nat list \<Rightarrow> nat list" where
  "walMerge_loop aContent aLeft aRight =
     (if aRight = [] \<and> aLeft = [] then []
      else
        (let (logpage, aLeft, aRight) =
               (if aLeft \<noteq> [] \<and> (aRight = [] \<or> aContent (hd aLeft) < aContent (hd aRight))
                then (hd aLeft, tl aLeft, aRight) else (hd aRight, aLeft, tl aRight));
             dbpage = aContent logpage;
             aLeft = (if aLeft \<noteq> [] \<and> aContent (hd aLeft) = dbpage then tl aLeft else aLeft)
         in logpage # walMerge_loop aContent aLeft aRight))"
  by pat_completeness auto
termination
  by (relation "measure (\<lambda>(c, l, r). length l + length r)")
     (auto split: if_splits simp: neq_Nil_conv)

declare walMerge_loop.simps [simp del]

definition part :: "nat list \<Rightarrow> nat \<times> nat \<Rightarrow> nat list" where
  "part A p = take (snd p) (drop (fst p) A)"

definition overwrite :: "nat list \<Rightarrow> nat \<Rightarrow> nat list \<Rightarrow> nat list" where
  "overwrite A k xs = take k A @ xs @ drop (k + length xs) A"

definition walMerge :: "(nat \<Rightarrow> nat) \<Rightarrow> nat list \<Rightarrow> nat \<times> nat \<Rightarrow> nat \<times> nat \<Rightarrow> nat list \<times> nat \<times> nat" where
  "walMerge aContent A aLeft aRight =
     (let aTmp = walMerge_loop aContent (part A aLeft) (part A aRight) in
      (overwrite A (fst aLeft) aTmp, fst aLeft, length aTmp))"

text \<open>The merges after one more element, along the one-bits at the end of its number.\<close>

function merge_up :: "(nat \<Rightarrow> nat) \<Rightarrow> nat \<Rightarrow> (nat \<times> nat) list \<Rightarrow> nat \<Rightarrow> nat list \<Rightarrow> nat \<times> nat \<Rightarrow> nat list \<times> (nat \<times> nat) \<times> nat" where
  "merge_up aContent iList aSub iSub A aMerge =
     (if bit iList iSub then
        (let (A, aMerge) = walMerge aContent A (aSub ! iSub) aMerge in merge_up aContent iList aSub (Suc iSub) A aMerge)
      else (A, aMerge, iSub))"
  by pat_completeness auto
termination
proof (relation "measure (\<lambda>(c, iList, aSub, iSub, A, m). drop_bit iSub iList)", goal_cases)
  case (2 aContent iList aSub iSub A aMerge x A' m')
  then have "odd (drop_bit iSub iList)" by (simp add: bit_iff_odd_drop_bit)
  then have "drop_bit iSub iList \<noteq> 0" by (metis even_zero)
  moreover have "drop_bit (Suc iSub) iList = drop_bit iSub iList div 2" by (simp only: drop_bit_eq_div power_Suc2 div_mult2_eq)
  ultimately show ?case by simp
qed simp

declare merge_up.simps [simp del]

definition sort_step :: "(nat \<Rightarrow> nat) \<Rightarrow> nat \<Rightarrow> nat list \<times> (nat \<times> nat) \<times> (nat \<times> nat) list \<times> nat \<Rightarrow> nat list \<times> (nat \<times> nat) \<times> (nat \<times> nat) list \<times> nat" where
  "sort_step aContent iList st =
     (let (A, aMerge, aSub, iSub) = st;
          (A, aMerge, iSub) = merge_up aContent iList aSub 0 A (iList, 1)
      in (A, aMerge, aSub[iSub := aMerge], iSub))"

definition merge_rest :: "(nat \<Rightarrow> nat) \<Rightarrow> nat \<Rightarrow> (nat \<times> nat) list \<Rightarrow> nat \<Rightarrow> nat list \<times> (nat \<times> nat) \<Rightarrow> nat list \<times> (nat \<times> nat)" where
  "merge_rest aContent nList aSub iSub st =
     (if bit nList iSub then walMerge aContent (fst st) (aSub ! iSub) (snd st) else st)"

definition walMergesort :: "(nat \<Rightarrow> nat) \<Rightarrow> nat list \<Rightarrow> nat list \<times> nat" where
  "walMergesort aContent aList =
     (let nList = length aList;
          (A, aMerge, aSub, iSub) = fold (sort_step aContent) [0..<nList] (aList, (0, 0), replicate 13 (0, 0), 0);
          (A, aMerge) = fold (merge_rest aContent nList aSub) [Suc iSub..<13] (A, aMerge)
      in (A, snd aMerge))"

section \<open>The iterator\<close>

text \<open>\<open>sg_aPgno\<close> is the index page that the pointer of the segment goes to.\<close>

record WalSegment =
  sg_iNext :: nat
  sg_aIndex :: "nat list"
  sg_aPgno :: nat
  sg_nEntry :: nat
  sg_iZero :: nat

record WalIterator =
  iPrior :: nat
  aSegment :: "WalSegment list"

definition seg_pgno :: "WalIndex \<Rightarrow> nat \<Rightarrow> nat \<Rightarrow> nat" where
  "seg_pgno wi i j = wp_aPgno (wi_page wi i) (Suc j)"

fun skip_loop :: "WalIndex \<Rightarrow> nat \<Rightarrow> nat \<Rightarrow> WalSegment \<Rightarrow> WalSegment" where
  "skip_loop wi iMin 0 sg = sg"
| "skip_loop wi iMin (Suc n) sg =
     (if seg_pgno wi (sg_aPgno sg) (sg_aIndex sg ! sg_iNext sg) > iMin then sg
      else skip_loop wi iMin n (sg\<lparr>sg_iNext := sg_iNext sg + 1\<rparr>))"

text \<open>The segments from the last one down; the result is the page found, its frame and the segments.\<close>

fun next_loop :: "WalIndex \<Rightarrow> nat \<Rightarrow> WalSegment list \<Rightarrow> nat \<Rightarrow> nat \<Rightarrow> nat \<times> nat \<times> WalSegment list" where
  "next_loop wi iMin [] iRet iFrame = (iRet, iFrame, [])"
| "next_loop wi iMin (sg # sgs) iRet iFrame =
     (let sg = skip_loop wi iMin (sg_nEntry sg - sg_iNext sg) sg;
          j = sg_aIndex sg ! sg_iNext sg;
          iPg = seg_pgno wi (sg_aPgno sg) j;
          (iRet, iFrame) = (if sg_iNext sg < sg_nEntry sg \<and> iPg < iRet then (iPg, sg_iZero sg + j) else (iRet, iFrame));
          (iRet, iFrame, sgs) = next_loop wi iMin sgs iRet iFrame
      in (iRet, iFrame, sg # sgs))"

definition walIteratorNext :: "WalIndex \<Rightarrow> WalIterator \<Rightarrow> nat \<Rightarrow> bool \<times> nat \<times> nat \<times> WalIterator" where
  "walIteratorNext wi p iFrame =
     (let (iRet, iFrame, sgs) = next_loop wi (iPrior p) (rev (aSegment p)) 0xffffffff iFrame in
      (iRet = 0xffffffff, iRet, iFrame, p\<lparr>iPrior := iRet, aSegment := rev sgs\<rparr>))"

text \<open>Building the iterator. \<open>m\<close> holds the outcomes of its two allocations.\<close>

definition make_segment :: "WalIndex \<Rightarrow> nat \<Rightarrow> nat \<Rightarrow> nat \<Rightarrow> WalSegment" where
  "make_segment wi iLast nSegment i =
     (let nEntry = (if i + 1 = nSegment then iLast - iZero i else if i = 0 then HASHTABLE_NPAGE_ONE else HASHTABLE_NPAGE);
          (aIndex, nEntry) = walMergesort (seg_pgno wi i) [0..<nEntry]
      in \<lparr>sg_iNext = 0, sg_aIndex = aIndex, sg_aPgno = i, sg_nEntry = nEntry, sg_iZero = iZero i + 1\<rparr>)"

fun segments_loop :: "WalIndex \<Rightarrow> nat \<Rightarrow> nat \<Rightarrow> nat list \<Rightarrow> Wal \<Rightarrow> int \<times> WalSegment list \<times> Wal" where
  "segments_loop wi iLast nSegment [] w = (SQLITE_OK, [], w)"
| "segments_loop wi iLast nSegment (i # is) w =
     (let (rc, z, w) = walHashGet w i in
      if rc \<noteq> SQLITE_OK then (rc, [], w)
      else let (rc, sgs, w) = segments_loop wi iLast nSegment is w in (rc, make_segment wi iLast nSegment i # sgs, w))"

definition walIteratorInit :: "WalIndex \<Rightarrow> Wal \<Rightarrow> bool \<times> bool \<Rightarrow> int \<times> WalIterator option \<times> Wal" where
  "walIteratorInit wi w m =
     (let iLast = mxFrame w; nSegment = walFramePage iLast + 1 in
      if \<not> fst m then (SQLITE_NOMEM, None, w)
      else if \<not> snd m then (SQLITE_NOMEM, None, w)
      else
        (let (rc, sgs, w) = segments_loop wi iLast nSegment [0..<nSegment] w in
         if rc \<noteq> SQLITE_OK then (rc, None, w) else (SQLITE_OK, Some \<lparr>iPrior = 0, aSegment = sgs\<rparr>, w)))"

section \<open>Lemmas: merging\<close>

text \<open>The last position of a list with a given key.\<close>

definition best :: "(nat \<Rightarrow> nat) \<Rightarrow> nat list \<Rightarrow> nat \<Rightarrow> nat option" where
  "best c xs = map_of (rev (map (\<lambda>i. (c i, i)) xs))"

lemma best_simps [simp]:
  "best c [] = Map.empty"
  "best c (x # xs) = (\<lambda>k. if k = c x then Some x else None) ++ best c xs"
  by (auto simp: best_def fun_eq_iff map_add_def split: option.splits)

lemma best_append: "best c (xs @ ys) = best c xs ++ best c ys"
  by (induction xs) auto

lemma best_dom: "dom (best c xs) = c ` set xs"
  by (induction xs) (auto simp: dom_def split: if_splits)

abbreviation ascending :: "(nat \<Rightarrow> nat) \<Rightarrow> nat list \<Rightarrow> bool" where
  "ascending c xs \<equiv> sorted_wrt (\<lambda>x y. c x < c y) xs"

lemma best_ascending: "ascending c xs \<Longrightarrow> x \<in> set xs \<Longrightarrow> best c xs (c x) = Some x"
proof (induction xs)
  case (Cons y ys)
  show ?case
  proof (cases "x \<in> set ys")
    case True
    then show ?thesis using Cons by (simp add: map_add_def)
  next
    case False
    then have "x = y" using Cons.prems by simp
    moreover have "c y \<notin> dom (best c ys)" using Cons.prems(1) by (auto simp: best_dom)
    ultimately show ?thesis by (simp add: map_add_def domIff)
  qed
qed simp

lemma best_Some: "ascending c xs \<Longrightarrow> best c xs k = Some x \<longleftrightarrow> x \<in> set xs \<and> c x = k"
proof
  assume a: "ascending c xs" "best c xs k = Some x"
  then have "k \<in> c ` set xs" using best_dom [of c xs] by blast
  then obtain y where "y \<in> set xs" "k = c y" by blast
  with a show "x \<in> set xs \<and> c x = k" using best_ascending by fastforce
qed (use best_ascending in blast)

lemma best_None: "\<forall>x\<in>set xs. c x \<noteq> k \<Longrightarrow> best c xs k = None"
  by (induction xs) (auto simp: map_add_def)

text \<open>What a merge makes of two ascending lists: an ascending list in which positions of the right one win.\<close>

definition merged_ok :: "(nat \<Rightarrow> nat) \<Rightarrow> nat list \<Rightarrow> nat list \<Rightarrow> nat list \<Rightarrow> bool" where
  "merged_ok c l r out \<longleftrightarrow> ascending c out \<and> best c out = best c l ++ best c r \<and> length out \<le> length l + length r"

lemma merged_ok_keys: "merged_ok c l r out \<Longrightarrow> c ` set out = c ` set l \<union> c ` set r"
  unfolding merged_ok_def by (metis best_dom dom_map_add sup_commute)

lemma merged_ok_Cons_left:
  assumes "merged_ok c l r out" "\<forall>y\<in>set l \<union> set r. c x < c y"
  shows "merged_ok c (x # l) r (x # out)"
proof -
  have "c ` set out = c ` (set l \<union> set r)" using merged_ok_keys [OF assms(1)] by auto
  then have "\<forall>y\<in>set out. c x < c y" using assms(2) by (metis imageE imageI)
  then show ?thesis using assms(1) by (auto simp: merged_ok_def)
qed

lemma merged_ok_Cons_right:
  assumes "merged_ok c l r out" "\<forall>y\<in>set l \<union> set r. c x < c y" "ys = [] \<or> (\<exists>y. ys = [y] \<and> c y = c x)"
  shows "merged_ok c (ys @ l) (x # r) (x # out)"
proof -
  have "c ` set out = c ` (set l \<union> set r)" using merged_ok_keys [OF assms(1)] by auto
  then have 1: "\<forall>y\<in>set out. c x < c y" using assms(2) by (metis imageE imageI)
  have n: "best c l (c x) = None" using assms(2) by (intro best_None ballI) (metis UnI1 UnI2 nat_neq_iff)
  have n': "best c r (c x) = None" using assms(2) by (intro best_None ballI) (metis UnI1 UnI2 nat_neq_iff)
  have "best c (x # out) = best c (ys @ l) ++ best c (x # r)"
  proof
    fix k
    have "best c out = best c l ++ best c r" using assms(1) by (simp add: merged_ok_def)
    then show "best c (x # out) k = (best c (ys @ l) ++ best c (x # r)) k"
      using n n' assms(3) by (cases "k = c x") (auto simp: map_add_def best_append split: option.splits)
  qed
  then show ?thesis using assms(1) 1 by (auto simp: merged_ok_def)
qed

lemma walMerge_loop_ok:
  "ascending c l \<Longrightarrow> ascending c r \<Longrightarrow> merged_ok c l r (walMerge_loop c l r)"
proof (induction c l r rule: walMerge_loop.induct)
  case (1 c l r)
  show ?case
  proof (cases "r = [] \<and> l = []")
    case True
    then show ?thesis by (subst walMerge_loop.simps) (simp add: merged_ok_def)
  next
    case ne: False
    show ?thesis
    proof (cases "l \<noteq> [] \<and> (r = [] \<or> c (hd l) < c (hd r))")
      case True
      then obtain x l' where l: "l = x # l'" by (cases l) auto
      have lt: "\<forall>y\<in>set l' \<union> set r. c x < c y"
        using True "1.prems" unfolding l by (cases r) (auto intro: less_trans)
      have no: "(l' \<noteq> [] \<and> c (hd l') = c x) = False" using lt by (cases l') auto
      have e: "walMerge_loop c l r = x # walMerge_loop c l' r"
        by (subst walMerge_loop.simps) (use True in \<open>simp add: l no del: not_Cons_self2\<close>)
      have "merged_ok c l' r (walMerge_loop c l' r)"
        using "1.IH" [OF ne refl _ refl refl refl, of x l' r] True no "1.prems" by (simp add: l)
      then show ?thesis unfolding e using merged_ok_Cons_left [OF _ lt] by (simp add: l)
    next
      case False
      then obtain x r' where r: "r = x # r'" using ne by (cases r) auto
      define ys where "ys = (if l \<noteq> [] \<and> c (hd l) = c x then [hd l] else [])"
      define l' where "l' = (if l \<noteq> [] \<and> c (hd l) = c x then tl l else l)"
      have l: "l = ys @ l'" by (simp add: ys_def l'_def)
      have asc: "ascending c l'" "ascending c r'" using "1.prems" r l by (simp_all add: sorted_wrt_append)
      have lt: "\<forall>y\<in>set l' \<union> set r'. c x < c y"
        using False "1.prems" unfolding r l'_def by (cases l) (auto intro: less_trans)
      have e: "walMerge_loop c l r = x # walMerge_loop c l' r'"
      proof -
        have f: "(l \<noteq> [] \<and> c (hd l) < c x) = False" using False r by simp
        show ?thesis unfolding r walMerge_loop.simps [of c l "x # r'"] l'_def by (simp add: f)
      qed
      have "merged_ok c l' r' (walMerge_loop c l' r')"
        using "1.IH" [OF ne refl _ refl refl refl, of x l r'] False asc by (simp add: r l'_def)
      moreover have "ys = [] \<or> (\<exists>y. ys = [y] \<and> c y = c x)" by (simp add: ys_def)
      ultimately have "merged_ok c (ys @ l') (x # r') (x # walMerge_loop c l' r')" using merged_ok_Cons_right lt by blast
      then show ?thesis using e l r by simp
    qed
  qed
qed

section \<open>Lemmas: the merge sort\<close>

text \<open>A sorted part of the array that stands for a range of the unsorted one.\<close>

definition good :: "(nat \<Rightarrow> nat) \<Rightarrow> nat list \<Rightarrow> nat list \<Rightarrow> nat \<times> nat \<Rightarrow> nat \<Rightarrow> bool" where
  "good c A0 A p len \<longleftrightarrow>
     fst p + len \<le> length A \<and> length A = length A0 \<and> snd p \<le> len \<and> ascending c (part A p) \<and> best c (part A p) = best c (part A0 (fst p, len))"

lemma length_overwrite [simp]: "k + length xs \<le> length A \<Longrightarrow> length (overwrite A k xs) = length A"
  by (simp add: overwrite_def)

lemma part_overwrite_same: "k \<le> length A \<Longrightarrow> part (overwrite A k xs) (k, length xs) = xs"
  by (simp add: part_def overwrite_def)

lemma part_overwrite_left: "off + len \<le> k \<Longrightarrow> m \<le> len \<Longrightarrow> k \<le> length A \<Longrightarrow> part (overwrite A k xs) (off, m) = part A (off, m)"
  by (simp add: part_def overwrite_def drop_take min_absorb1 min_absorb2)

lemma drop_overwrite: "k + length xs \<le> j \<Longrightarrow> k \<le> length A \<Longrightarrow> drop j (overwrite A k xs) = drop j A"
  by (simp add: overwrite_def)

lemma part_split: "part A (off, len + len') = part A (off, len) @ part A (off + len, len')"
  by (simp add: part_def take_add add.commute)

lemma length_part: "fst p + snd p \<le> length A \<Longrightarrow> length (part A p) = snd p"
  by (simp add: part_def)

lemma good_left:
  assumes "good c A0 A p len" "fst p + len \<le> k" "k + length xs \<le> length A"
  shows "good c A0 (overwrite A k xs) p len"
  using assms part_overwrite_left [of "fst p" len k "snd p" A xs] by (auto simp: good_def)

lemma good_merge:
  assumes "good c A0 A l len" "good c A0 A r len'" "fst r = fst l + len" "walMerge c A l r = (A', m)"
  shows "good c A0 A' m (len + len')" "fst m = fst l" "drop (fst l + len + len') A' = drop (fst l + len + len') A"
    "\<And>p k. good c A0 A p k \<Longrightarrow> fst p + k \<le> fst l \<Longrightarrow> good c A0 A' p k"
proof -
  define out where "out = walMerge_loop c (part A l) (part A r)"
  have A': "A' = overwrite A (fst l) out" "m = (fst l, length out)"
    using assms(4) by (auto simp: walMerge_def out_def Let_def)
  have ok: "merged_ok c (part A l) (part A r) out"
    unfolding out_def using assms(1,2) by (intro walMerge_loop_ok) (simp_all add: good_def)
  have b: "fst l + (len + len') \<le> length A" "snd l \<le> len" "snd r \<le> len'"
    using assms(1-3) by (simp_all add: good_def)
  have lo: "length out \<le> len + len'" using ok b assms(3) length_part [of l A] length_part [of r A] by (simp add: merged_ok_def)
  have best: "best c out = best c (part A0 (fst l, len + len'))"
    using ok assms(1-3) unfolding merged_ok_def good_def by (simp add: part_split best_append)
  show "good c A0 A' m (len + len')"
    using ok b lo best part_overwrite_same [of "fst l" A out] assms(1) by (simp add: good_def A' merged_ok_def)
  show "fst m = fst l" by (simp add: A')
  show "drop (fst l + len + len') A' = drop (fst l + len + len') A" unfolding A' using b lo by (intro drop_overwrite) simp_all
  show "good c A0 A' p k" if "good c A0 A p k" "fst p + k \<le> fst l" for p k
    unfolding A' using that b lo by (intro good_left) simp_all
qed

text \<open>A number with its lowest bits cleared.\<close>

definition low :: "nat \<Rightarrow> nat \<Rightarrow> nat" where
  "low i k = i div 2 ^ k * 2 ^ k"

lemma low_0 [simp]: "low i 0 = i" by (simp add: low_def)

lemma low_bit: "bit i k \<Longrightarrow> low i k = low i (Suc k) + 2 ^ k"
proof -
  assume "bit i k"
  then have "odd (i div 2 ^ k)" by (simp add: bit_iff_odd)
  then obtain q where q: "i div 2 ^ k = 2 * q + 1" by (elim oddE)
  moreover have "i div 2 ^ Suc k = i div 2 ^ k div 2" by (simp only: power_Suc2 div_mult2_eq)
  ultimately show ?thesis by (simp add: low_def algebra_simps)
qed

lemma low_no_bit: "\<not> bit i k \<Longrightarrow> low i (Suc k) = low i k"
proof -
  assume "\<not> bit i k"
  then have "even (i div 2 ^ k)" by (simp add: bit_iff_odd)
  then obtain q where q: "i div 2 ^ k = 2 * q" by (elim evenE)
  moreover have "i div 2 ^ Suc k = i div 2 ^ k div 2" by (simp only: power_Suc2 div_mult2_eq)
  ultimately show ?thesis by (simp add: low_def algebra_simps)
qed

lemma low_Suc_le: "low i (Suc k) \<le> low i k"
  by (cases "bit i k") (simp_all add: low_bit low_no_bit)

lemma low_mono: "j \<le> k \<Longrightarrow> low i k \<le> low i j"
  by (rule lift_Suc_antimono_le [of "low i"]) (rule low_Suc_le)

lemma low_ones: "(\<And>j. j < s \<Longrightarrow> bit i j) \<Longrightarrow> low i s + 2 ^ s = Suc i"
  by (induction s) (auto simp: low_bit)

text \<open>The bits of the successor, above the lowest zero.\<close>

lemma Suc_div:
  assumes "low i s + 2 ^ s = Suc i" "\<not> bit i s" "s < k"
  shows "Suc i div 2 ^ k = i div 2 ^ k"
proof -
  have "Suc i = i div 2 ^ Suc s * 2 ^ Suc s + 2 ^ s" using assms(1) low_no_bit [OF assms(2)] by (simp only: low_def)
  then have "Suc i div 2 ^ Suc s = i div 2 ^ Suc s"
    by (metis add.right_neutral div_less div_mult_self3 lessI mult.commute one_less_numeral_iff power_strict_increasing semiring_norm(76) zero_neq_numeral power_not_zero)
  moreover obtain d where "k = Suc s + d" using assms(3) less_iff_Suc_add by auto
  ultimately show ?thesis by (simp only: power_add div_mult2_eq)
qed

lemma Suc_bits:
  assumes "low i s + 2 ^ s = Suc i" "\<not> bit i s"
  shows "s < k \<Longrightarrow> bit (Suc i) k = bit i k" "bit (Suc i) s" "k < s \<Longrightarrow> \<not> bit (Suc i) k" "s < k \<Longrightarrow> low (Suc i) k = low i k"
proof -
  show "s < k \<Longrightarrow> bit (Suc i) k = bit i k" "s < k \<Longrightarrow> low (Suc i) k = low i k"
    using Suc_div [OF assms] by (simp_all add: bit_iff_odd low_def)
  have "even (i div 2 ^ s)" using assms(2) by (simp add: bit_iff_odd)
  moreover have s: "Suc i = (i div 2 ^ s + 1) * 2 ^ s" using assms(1) by (simp add: low_def algebra_simps)
  ultimately show "bit (Suc i) s" by (simp add: bit_iff_odd)
  show "\<not> bit (Suc i) k" if "k < s"
  proof -
    obtain d where "s = k + Suc d" using \<open>k < s\<close> less_iff_Suc_add by auto
    then have "Suc i = (i div 2 ^ s + 1) * 2 ^ Suc d * 2 ^ k" using s by (simp add: power_add algebra_simps)
    then have "Suc i div 2 ^ k = (i div 2 ^ s + 1) * 2 ^ Suc d" by simp
    then show ?thesis by (simp add: bit_iff_odd)
  qed
qed

text \<open>The parts kept after \<open>i\<close> elements, one for each bit of \<open>i\<close> from number \<open>s\<close> on.\<close>

definition subs_ok :: "(nat \<Rightarrow> nat) \<Rightarrow> nat list \<Rightarrow> nat list \<Rightarrow> (nat \<times> nat) list \<Rightarrow> nat \<Rightarrow> nat \<Rightarrow> bool" where
  "subs_ok c A0 A aSub i s \<longleftrightarrow>
     (\<forall>k\<ge>s. bit i k \<longrightarrow> good c A0 A (aSub ! k) (2 ^ k) \<and> fst (aSub ! k) = low i (Suc k))"

lemma subs_okD:
  assumes "subs_ok c A0 A aSub i s" "s \<le> k" "bit i k"
  shows "good c A0 A (aSub ! k) (2 ^ k)" "fst (aSub ! k) = low i (Suc k)"
  using assms by (auto simp: subs_ok_def)

lemma subs_ok_merge:
  assumes "subs_ok c A0 A aSub i s" "bit i s" "good c A0 A r len" "fst r = low i s" "walMerge c A (aSub ! s) r = (A', m)"
  shows "subs_ok c A0 A' aSub i (Suc s)" "good c A0 A' m (2 ^ s + len)" "fst m = low i (Suc s)"
    "drop (low i s + len) A' = drop (low i s + len) A"
proof -
  have s: "good c A0 A (aSub ! s) (2 ^ s)" "fst (aSub ! s) = low i (Suc s)" using subs_okD [OF assms(1) order_refl assms(2)] .
  have f: "fst r = fst (aSub ! s) + 2 ^ s" using assms(4) s(2) low_bit [OF assms(2)] by simp
  note g = good_merge [OF s(1) assms(3) f assms(5)]
  show "good c A0 A' m (2 ^ s + len)" "fst m = low i (Suc s)" using g(1,2) s(2) by simp_all
  show "drop (low i s + len) A' = drop (low i s + len) A" using g(3) f assms(4) by simp
  have "good c A0 A' (aSub ! k) (2 ^ k) \<and> fst (aSub ! k) = low i (Suc k)" if k: "Suc s \<le> k" "bit i k" for k
  proof -
    have 1: "good c A0 A (aSub ! k) (2 ^ k)" "fst (aSub ! k) = low i (Suc k)" using subs_okD [OF assms(1) _ k(2)] k(1) by simp_all
    have "fst (aSub ! k) + 2 ^ k = low i k" using 1(2) low_bit [OF k(2)] by simp
    also have "\<dots> \<le> low i (Suc s)" using k(1) by (rule low_mono)
    finally show ?thesis using g(4) [OF 1(1)] s(2) 1(2) by simp
  qed
  then show "subs_ok c A0 A' aSub i (Suc s)" by (simp add: subs_ok_def)
qed

lemma merge_up_ok:
  assumes "subs_ok c A0 A aSub i s" "good c A0 A m (2 ^ s)" "fst m = low i s" "\<And>j. j < s \<Longrightarrow> bit i j"
    "merge_up c i aSub s A m = (A', m', s')"
  shows "subs_ok c A0 A' aSub i s' \<and> good c A0 A' m' (2 ^ s') \<and> fst m' = low i s' \<and> low i s' + 2 ^ s' = Suc i \<and> \<not> bit i s' \<and>
    drop (Suc i) A' = drop (Suc i) A"
  using assms
proof (induction c i aSub s A m rule: merge_up.induct)
  case (1 c i aSub s A m)
  show ?case
  proof (cases "bit i s")
    case False
    then show ?thesis using "1.prems" low_ones [of s i] by (simp add: merge_up.simps [of c i aSub s A m])
  next
    case True
    obtain A1 m1 where m1: "walMerge c A (aSub ! s) m = (A1, m1)" by (metis surj_pair)
    note g = subs_ok_merge [OF "1.prems"(1) True "1.prems"(2,3) m1]
    have ones: "\<And>j. j < Suc s \<Longrightarrow> bit i j" using "1.prems"(4) True by (auto simp: less_Suc_eq)
    have up: "merge_up c i aSub (Suc s) A1 m1 = (A', m', s')"
      using "1.prems"(5) True m1 by (simp add: merge_up.simps [of c i aSub s A m])
    have d: "drop (Suc i) A1 = drop (Suc i) A" using g(4) low_ones [of s i] "1.prems"(4) by simp
    have "good c A0 A1 m1 (2 ^ Suc s)" using g(2) by (simp add: mult_2)
    from "1.IH" [OF True m1 [symmetric] refl g(1) this g(3) ones up] d show ?thesis by simp
  qed
qed

lemma sort_step_ok:
  assumes "subs_ok c A0 A aSub i 0" "length A = length A0" "drop i A = drop i A0" "i < length A0" "length A0 \<le> 4096" "length aSub = 13"
    "sort_step c i (A, m, aSub, s) = (A', m', aSub', s')"
  shows "subs_ok c A0 A' aSub' (Suc i) 0 \<and> length A' = length A0 \<and> drop (Suc i) A' = drop (Suc i) A0 \<and> length aSub' = 13 \<and>
    bit (Suc i) s' \<and> (\<forall>j < s' . \<not> bit (Suc i) j) \<and> m' = aSub' ! s'"
proof -
  have up: "merge_up c i aSub 0 A (i, 1) = (A', m', s')" and sub: "aSub' = aSub[s' := m']"
    using assms(7) by (auto simp: sort_step_def Let_def split: prod.splits)
  have p: "part A (i, 1) = part A0 (i, 1)" using assms(3) by (simp add: part_def)
  moreover have "length (part A (i, 1)) = 1" using assms(2,4) by (simp add: part_def)
  then have "ascending c (part A (i, 1))" by (auto simp: length_Suc_conv)
  ultimately have "good c A0 A (i, 1) (2 ^ 0)" using assms(2,4) by (simp add: good_def)
  from merge_up_ok [OF assms(1) this _ _ up]
  have g: "subs_ok c A0 A' aSub i s'" "good c A0 A' m' (2 ^ s')" "fst m' = low i s'" "low i s' + 2 ^ s' = Suc i" "\<not> bit i s'"
    "drop (Suc i) A' = drop (Suc i) A" by auto
  note b = Suc_bits [OF g(4,5)]
  have "(2::nat) ^ s' \<le> Suc i" using g(4) by linarith
  then have "(2::nat) ^ s' < 2 ^ 13" using assms(4,5) by simp
  then have s13: "s' < 13" by (simp only: power_strict_increasing_iff)
  have "good c A0 A' (aSub' ! k) (2 ^ k) \<and> fst (aSub' ! k) = low (Suc i) (Suc k)" if k: "bit (Suc i) k" for k
  proof -
    have "s' \<le> k" using k b(3) [of k] by (meson not_le)
    then consider "k = s'" | "s' < k" by linarith
    then show ?thesis
    proof cases
      case 1
      then show ?thesis using g(2,3,5) s13 assms(6) b(4) [of "Suc s'"] low_no_bit [OF g(5)] by (simp add: sub)
    next
      case 2
      then show ?thesis using subs_okD [OF g(1), of k] b(1,4) [of k] b(4) [of "Suc k"] k by (simp add: sub)
    qed
  qed
  then have "subs_ok c A0 A' aSub' (Suc i) 0" by (simp add: subs_ok_def)
  moreover have "drop (Suc i) A = drop (Suc i) A0" using arg_cong [OF assms(3), of tl] by (simp add: drop_Suc tl_drop)
  ultimately show ?thesis using g(2,6) b(2,3) s13 assms(2,6) by (simp add: sub good_def)
qed

lemma sort_steps_ok:
  assumes "length A0 \<le> 4096" "0 < i" "i \<le> length A0"
    "fold (sort_step c) [0..<i] (A0, (0, 0), replicate 13 (0, 0), 0) = (A, m, aSub, s)"
  shows "subs_ok c A0 A aSub i 0 \<and> length A = length A0 \<and> drop i A = drop i A0 \<and> length aSub = 13 \<and>
    bit i s \<and> (\<forall>j < s. \<not> bit i j) \<and> m = aSub ! s"
  using assms
proof (induction i arbitrary: A m aSub s)
  case (Suc i)
  obtain A1 m1 aSub1 s1 where f: "fold (sort_step c) [0..<i] (A0, (0, 0), replicate 13 (0, 0), 0) = (A1, m1, aSub1, s1)"
    by (metis prod.exhaust)
  have st: "sort_step c i (A1, m1, aSub1, s1) = (A, m, aSub, s)" using Suc.prems(4) f by simp
  have "subs_ok c A0 A1 aSub1 i 0 \<and> length A1 = length A0 \<and> drop i A1 = drop i A0 \<and> length aSub1 = 13"
  proof (cases "i = 0")
    case True
    then show ?thesis using f by (auto simp: subs_ok_def)
  next
    case False
    then show ?thesis using Suc.IH [OF Suc.prems(1) _ _ f] Suc.prems(3) by simp
  qed
  then show ?case using sort_step_ok [OF _ _ _ _ Suc.prems(1) _ st] Suc.prems(3) by simp
qed simp

text \<open>The remaining merges, for the bits of the length from number \<open>s\<close> on.\<close>

lemma merge_rest_ok:
  assumes "subs_ok c A0 A aSub (length A0) s" "good c A0 A m (length A0 - low (length A0) s)" "fst m = low (length A0) s" "s \<le> t"
    "fold (merge_rest c (length A0) aSub) [s..<t] (A, m) = (A', m')"
  shows "good c A0 A' m' (length A0 - low (length A0) t) \<and> fst m' = low (length A0) t"
  using assms(4,1-3,5)
proof (induction arbitrary: A m rule: inc_induct)
  case (step n)
  let ?i = "length A0"
  have r: "fold (merge_rest c ?i aSub) [Suc n..<t] (merge_rest c ?i aSub n (A, m)) = (A', m')"
    using step.prems(4) step.hyps by (simp add: upt_conv_Cons)
  have le: "low ?i n \<le> ?i" by (simp add: low_def)
  show ?case
  proof (cases "bit ?i n")
    case True
    obtain A1 m1 where m1: "walMerge c A (aSub ! n) m = (A1, m1)" by (metis surj_pair)
    note g = subs_ok_merge [OF step.prems(1) True step.prems(2,3) m1]
    have "2 ^ n + (?i - low ?i n) = ?i - low ?i (Suc n)" using low_bit [OF True] le by linarith
    then have "good c A0 A1 m1 (?i - low ?i (Suc n))" using g(2) by simp
    moreover have "merge_rest c ?i aSub n (A, m) = (A1, m1)" using True m1 by (simp add: merge_rest_def)
    ultimately show ?thesis using step.IH [OF g(1) _ g(3)] r by simp
  next
    case False
    have "subs_ok c A0 A aSub ?i (Suc n)" using step.prems(1) by (auto simp: subs_ok_def)
    moreover have "merge_rest c ?i aSub n (A, m) = (A, m)" using False by (simp add: merge_rest_def)
    ultimately show ?thesis using step.IH [of A m] step.prems(2,3) r low_no_bit [OF False] by simp
  qed
qed simp

lemma walMergesort_ok:
  assumes "0 < length aList" "length aList \<le> 4096" "walMergesort c aList = (A, n)"
  shows "n \<le> length A" "ascending c (take n A)" "best c (take n A) = best c aList"
proof -
  let ?i = "length aList"
  obtain A1 m1 aSub s where f: "fold (sort_step c) [0..<?i] (aList, (0, 0), replicate 13 (0, 0), 0) = (A1, m1, aSub, s)"
    by (metis prod.exhaust)
  note g = sort_steps_ok [OF assms(2,1) order_refl f]
  then have s: "good c aList A1 m1 (2 ^ s)" "fst m1 = low ?i (Suc s)" using subs_okD [of c aList A1 aSub ?i 0 s] by auto
  have "low ?i s = ?i"
  proof -
    have "low ?i k = ?i" if "k \<le> s" for k using that g by (induction k) (auto simp: low_no_bit)
    then show ?thesis by simp
  qed
  then have l: "?i - low ?i (Suc s) = 2 ^ s" using low_bit [of ?i s] g by simp
  have "(2::nat) ^ s \<le> ?i" using l by linarith
  then have "(2::nat) ^ s < 2 ^ 13" using assms(2) by simp
  then have s13: "s < 13" by (simp only: power_strict_increasing_iff)
  obtain A' m' where r: "fold (merge_rest c ?i aSub) [Suc s..<13] (A1, m1) = (A', m')" by (metis surj_pair)
  have "subs_ok c aList A1 aSub ?i (Suc s)" using g by (auto simp: subs_ok_def)
  from merge_rest_ok [OF this _ s(2) _ r] s(1) l s13
  have "good c aList A' m' (?i - low ?i 13)" "fst m' = low ?i 13" by simp_all
  moreover have "low ?i 13 = 0" using assms(2) by (simp add: low_def)
  moreover have "A = A'" "n = snd m'" using assms(3) f r by (simp_all add: walMergesort_def Let_def)
  ultimately show "n \<le> length A" "ascending c (take n A)" "best c (take n A) = best c aList"
    by (simp_all add: good_def part_def)
qed

section \<open>Lemmas: the iterator\<close>

lemma skip_loop_fields [simp]:
  "sg_nEntry (skip_loop wi iMin n sg) = sg_nEntry sg" "sg_aIndex (skip_loop wi iMin n sg) = sg_aIndex sg"
  "sg_aPgno (skip_loop wi iMin n sg) = sg_aPgno sg" "sg_iZero (skip_loop wi iMin n sg) = sg_iZero sg"
  by (induction n arbitrary: sg) auto

abbreviation seg_key :: "WalIndex \<Rightarrow> WalSegment \<Rightarrow> nat \<Rightarrow> nat" where
  "seg_key wi sg j \<equiv> seg_pgno wi (sg_aPgno sg) (sg_aIndex sg ! j)"

lemma skip_loop_iNext:
  "n = sg_nEntry sg - sg_iNext sg \<Longrightarrow> sg_iNext sg \<le> sg_nEntry sg \<Longrightarrow>
   sg_iNext sg \<le> sg_iNext (skip_loop wi iMin n sg) \<and> sg_iNext (skip_loop wi iMin n sg) \<le> sg_nEntry sg \<and>
   (\<forall>j. sg_iNext sg \<le> j \<longrightarrow> j < sg_iNext (skip_loop wi iMin n sg) \<longrightarrow> seg_key wi sg j \<le> iMin)"
proof (induction n arbitrary: sg)
  case (Suc n)
  show ?case
  proof (cases "seg_key wi sg (sg_iNext sg) > iMin")
    case False
    then have s: "skip_loop wi iMin (Suc n) sg = skip_loop wi iMin n (sg\<lparr>sg_iNext := sg_iNext sg + 1\<rparr>)" by simp
    let ?t = "sg\<lparr>sg_iNext := sg_iNext sg + 1\<rparr>"
    have n: "n = sg_nEntry ?t - sg_iNext ?t" "sg_iNext ?t \<le> sg_nEntry ?t" using Suc.prems by simp_all
    note IH = Suc.IH [OF n, simplified]
    have "seg_key wi sg j \<le> iMin" if "sg_iNext sg \<le> j" "j < sg_iNext (skip_loop wi iMin n ?t)" for j
      using IH that False by (cases "j = sg_iNext sg") auto
    then show ?thesis unfolding s using IH by auto
  next
    case True
    then have "skip_loop wi iMin (Suc n) sg = sg" by simp
    then show ?thesis using Suc.prems(2) by auto
  qed
qed auto

lemma skip_loop_stops:
  "sg_nEntry sg - sg_iNext sg \<le> n \<Longrightarrow> sg_iNext (skip_loop wi iMin n sg) < sg_nEntry sg \<Longrightarrow>
   iMin < seg_key wi sg (sg_iNext (skip_loop wi iMin n sg))"
proof (induction n arbitrary: sg)
  case (Suc n)
  show ?case
  proof (cases "iMin < seg_key wi sg (sg_iNext sg)")
    case False
    then have s: "skip_loop wi iMin (Suc n) sg = skip_loop wi iMin n (sg\<lparr>sg_iNext := sg_iNext sg + 1\<rparr>)" by simp
    show ?thesis using Suc.IH [of "sg\<lparr>sg_iNext := sg_iNext sg + 1\<rparr>"] Suc.prems unfolding s by simp
  qed simp
qed auto

text \<open>The page found always lies above the one found before, whatever the index holds; this is why the loops over the
  iterator end.\<close>

lemma next_loop_bounds:
  "next_loop wi iMin sgs iRet iFrame = (iRet', iFrame', sgs') \<Longrightarrow> iRet' \<le> iRet \<and> (iRet' \<noteq> iRet \<longrightarrow> iMin < iRet')"
proof (induction sgs arbitrary: iRet iFrame iRet' iFrame' sgs')
  case (Cons sg sgs)
  define s where "s = skip_loop wi iMin (sg_nEntry sg - sg_iNext sg) sg"
  have st: "sg_iNext s < sg_nEntry s \<Longrightarrow> iMin < seg_key wi s (sg_iNext s)"
    using skip_loop_stops [of sg "sg_nEntry sg - sg_iNext sg" wi iMin] by (simp add: s_def)
  show ?case using Cons.prems Cons.IH st
    by (fastforce simp: s_def [symmetric] Let_def split: prod.splits if_splits)
qed simp

lemma walIteratorNext_bounds:
  assumes "walIteratorNext wi p iFrame = (isDone, iPage, iFrame', p')"
  shows "isDone \<longleftrightarrow> iPage = 0xffffffff" "\<not> isDone \<Longrightarrow> iPrior p < iPage \<and> iPage < 0xffffffff" "iPrior p' = iPage"
proof -
  obtain sgs where n: "next_loop wi (iPrior p) (rev (aSegment p)) 0xffffffff iFrame = (iPage, iFrame', sgs)"
    and d: "isDone = (iPage = 0xffffffff)" "p' = p\<lparr>iPrior := iPage, aSegment := rev sgs\<rparr>"
    using assms by (auto simp: walIteratorNext_def Let_def split: prod.splits)
  show "isDone \<longleftrightarrow> iPage = 0xffffffff" "\<not> isDone \<Longrightarrow> iPrior p < iPage \<and> iPage < 0xffffffff" "iPrior p' = iPage"
    using next_loop_bounds [OF n] d by auto
qed

lemma walIteratorNext_decreases:
  assumes "(isDone, iPage, iFrame', p') = walIteratorNext wi p iFrame" "\<not> isDone"
  shows "4294967295 - iPrior p' < 4294967295 - iPrior p"
  using walIteratorNext_bounds [OF assms(1) [symmetric]] assms(2) by auto

text \<open>The frames of a segment: from \<open>iZero i\<close> up to the next segment or the last frame.\<close>

definition seg_len :: "nat \<Rightarrow> nat \<Rightarrow> nat" where
  "seg_len mx i = min (iZero (Suc i)) mx - iZero i"

definition seg_ok :: "WalIndex \<Rightarrow> nat \<Rightarrow> nat \<Rightarrow> nat \<Rightarrow> WalSegment \<Rightarrow> bool" where
  "seg_ok wi mx iMin i sg \<longleftrightarrow>
     sg_aPgno sg = i \<and> sg_iZero sg = iZero i + 1 \<and> sg_iNext sg \<le> sg_nEntry sg \<and> sg_nEntry sg \<le> length (sg_aIndex sg) \<and>
     ascending (seg_pgno wi i) (take (sg_nEntry sg) (sg_aIndex sg)) \<and>
     best (seg_pgno wi i) (take (sg_nEntry sg) (sg_aIndex sg)) = best (seg_pgno wi i) [0..<seg_len mx i] \<and>
     (\<forall>j < sg_iNext sg. seg_key wi sg j \<le> iMin)"

lemma seg_ok_skip:
  assumes "seg_ok wi mx iMin i sg"
  shows "seg_ok wi mx iMin i (skip_loop wi iMin (sg_nEntry sg - sg_iNext sg) sg)"
  using assms skip_loop_iNext [OF refl, of sg wi iMin] by (auto simp: seg_ok_def) (meson not_less)

lemma seg_ok_mono: "seg_ok wi mx iMin i sg \<Longrightarrow> iMin \<le> iMin' \<Longrightarrow> seg_ok wi mx iMin' i sg"
  by (auto simp: seg_ok_def intro: order_trans)

text \<open>The last position with a given key, read off the unsorted list.\<close>

lemma best_upt: "best c [0..<n] k = Some j \<longleftrightarrow> j < n \<and> c j = k \<and> (\<forall>j'<n. j < j' \<longrightarrow> c j' \<noteq> k)"
proof (induction n)
  case (Suc n)
  have "best c [0..<Suc n] k = (if c n = k then Some n else best c [0..<n] k)" by (simp add: best_append map_add_def)
  then show ?case using Suc by (auto simp: less_Suc_eq)
qed simp

lemma seg_next:
  assumes "seg_ok wi mx iMin i sg" "sg_iNext sg < sg_nEntry sg" "iMin < seg_key wi sg (sg_iNext sg)"
  shows "best (seg_pgno wi i) [0..<seg_len mx i] (seg_key wi sg (sg_iNext sg)) = Some (sg_aIndex sg ! sg_iNext sg)"
    "\<forall>j < seg_len mx i. iMin < seg_pgno wi i j \<longrightarrow> seg_key wi sg (sg_iNext sg) \<le> seg_pgno wi i j"
proof -
  let ?c = "seg_pgno wi i" and ?S = "take (sg_nEntry sg) (sg_aIndex sg)" and ?n = "sg_iNext sg"
  have s: "sg_aPgno sg = i" "ascending ?c ?S" "best ?c ?S = best ?c [0..<seg_len mx i]" "\<forall>j<?n. seg_key wi sg j \<le> iMin"
    "length ?S = sg_nEntry sg" using assms(1) unfolding seg_ok_def by auto
  have n: "?S ! ?n = sg_aIndex sg ! ?n" "?S ! ?n \<in> set ?S" using assms(2) s(5) nth_mem [of ?n ?S] by simp_all
  show "best ?c [0..<seg_len mx i] (seg_key wi sg ?n) = Some (sg_aIndex sg ! ?n)"
    using best_ascending [OF s(2) n(2)] s(1,3) n(1) by simp
  show "\<forall>j < seg_len mx i. iMin < ?c j \<longrightarrow> seg_key wi sg ?n \<le> ?c j"
  proof (intro allI impI)
    fix j assume j: "j < seg_len mx i" "iMin < ?c j"
    then have "?c j \<in> ?c ` set [0..<seg_len mx i]" by simp
    then have "?c j \<in> ?c ` set ?S" using s(3) best_dom by metis
    then obtain k where k: "k < length ?S" "?c (?S ! k) = ?c j" by (auto simp: in_set_conv_nth)
    then have "\<not> k < ?n" using j(2) s(1,4,5) by auto
    then have "?c (?S ! ?n) \<le> ?c (?S ! k)" using sorted_wrt_nth_less [OF s(2), of ?n k] k(1) by (cases "k = ?n") auto
    then show "seg_key wi sg ?n \<le> ?c j" using k(2) n(1) s(1) by simp
  qed
qed

lemma seg_done:
  assumes "seg_ok wi mx iMin i sg" "\<not> sg_iNext sg < sg_nEntry sg"
  shows "\<forall>j < seg_len mx i. seg_pgno wi i j \<le> iMin"
proof (intro allI impI)
  let ?c = "seg_pgno wi i" and ?S = "take (sg_nEntry sg) (sg_aIndex sg)"
  fix j assume "j < seg_len mx i"
  then have "?c j \<in> ?c ` set [0..<seg_len mx i]" by simp
  then have "?c j \<in> ?c ` set ?S" using assms(1) best_dom unfolding seg_ok_def by metis
  then obtain k where "k < sg_nEntry sg" "?c (?S ! k) = ?c j" using assms(1) by (auto simp: in_set_conv_nth seg_ok_def)
  then show "?c j \<le> iMin" using assms by (auto simp: seg_ok_def)
qed

text \<open>The least page above \<open>iMin\<close> among the frames from \<open>z\<close> on, with its latest frame.\<close>

definition least_above :: "nat list \<Rightarrow> nat \<Rightarrow> nat \<Rightarrow> nat \<Rightarrow> nat \<Rightarrow> nat \<Rightarrow> bool" where
  "least_above frames mx iMin z iRet iFrame \<longleftrightarrow>
     (\<forall>f. z \<le> f \<longrightarrow> f < mx \<longrightarrow> iMin < frames ! f \<longrightarrow> iRet \<le> frames ! f) \<and>
     (iRet \<noteq> 0xffffffff \<longrightarrow> iMin < iRet \<and> iRet < 0xffffffff \<and> iFrame = latest frames mx iRet \<and> z < iFrame)"

text \<open>An index that covers the frames and holds page numbers only.\<close>

definition seg_reads :: "WalIndex \<Rightarrow> nat list \<Rightarrow> nat \<Rightarrow> bool" where
  "seg_reads wi frames mx \<longleftrightarrow> mx \<le> length frames \<and> (\<forall>f<mx. 0 < frames ! f \<and> frames ! f < 0xffffffff) \<and>
     (\<forall>i j. j < seg_len mx i \<longrightarrow> seg_pgno wi i j = frames ! (iZero i + j))"

lemma seg_reads_rep:
  assumes "wal_rep wi frames" "mx \<le> length frames" "\<forall>p\<in>set frames. p < 0xffffffff"
  shows "seg_reads wi frames mx"
proof -
  have "seg_pgno wi i j = frames ! (iZero i + j)" if "j < seg_len mx i" for i j
  proof -
    have l: "j < length (segment frames i)" "iZero i < length frames"
      using that assms(2) by (auto simp: seg_len_def iZero_Suc length_segment)
    then have "page_ok (wi_page wi i) (segment frames i)" using assms(1) by (simp add: wal_rep_def)
    then show ?thesis using page_ok_pgno [of _ _ j] l(1) segment_nth [of j frames i] by (simp add: seg_pgno_def)
  qed
  moreover have "0 < frames ! f \<and> frames ! f < 0xffffffff" if "f < mx" for f
    using that assms nth_mem [of f frames] by (metis gr0I less_le_trans wal_rep_def)
  ultimately show ?thesis using assms(2) by (auto simp: seg_reads_def)
qed

lemma latest_eqI:
  "f < n \<Longrightarrow> frames ! f = p \<Longrightarrow> (\<And>i. f < i \<Longrightarrow> i < n \<Longrightarrow> frames ! i \<noteq> p) \<Longrightarrow> latest frames n p = Suc f"
  using latest_spec [of frames n p "Suc f"] by (auto simp: Suc_le_eq)

lemma next_segment:
  assumes r: "seg_reads wi frames mx" and s: "seg_ok wi mx iMin i sg" and z: "iZero i < mx"
    and l: "least_above frames mx iMin (min (iZero (Suc i)) mx) iRet iFrame" "iRet \<le> 0xffffffff"
    and stop: "sg_iNext sg < sg_nEntry sg \<Longrightarrow> iMin < seg_key wi sg (sg_iNext sg)"
    and e: "(iRet', iFrame') = (if sg_iNext sg < sg_nEntry sg \<and> seg_key wi sg (sg_iNext sg) < iRet
      then (seg_key wi sg (sg_iNext sg), sg_iZero sg + sg_aIndex sg ! sg_iNext sg) else (iRet, iFrame))"
  shows "least_above frames mx iMin (iZero i) iRet' iFrame'"
proof -
  let ?k = "seg_key wi sg (sg_iNext sg)" and ?j = "sg_aIndex sg ! sg_iNext sg" and ?e = "min (iZero (Suc i)) mx"
  have ze: "iZero i \<le> ?e" "?e - iZero i = seg_len mx i" using z by (auto simp: seg_len_def iZero_Suc)
  have rd: "f < ?e \<Longrightarrow> iZero i \<le> f \<Longrightarrow> frames ! f = seg_pgno wi i (f - iZero i)" for f
    using r ze by (auto simp: seg_reads_def)
  have z': "sg_iZero sg = iZero i + 1" "sg_aPgno sg = i" using s by (simp_all add: seg_ok_def)
  show ?thesis
  proof (cases "sg_iNext sg < sg_nEntry sg")
    case False
    then have "\<forall>f. iZero i \<le> f \<longrightarrow> f < ?e \<longrightarrow> frames ! f \<le> iMin"
      using seg_done [OF s False] rd ze by (metis diff_less_mono)
    then show ?thesis using l e False ze(1) by (auto simp: least_above_def) (metis min_less_iff_conj not_le)+
  next
    case True
    note n = seg_next [OF s True stop [OF True]]
    have low: "?k \<le> frames ! f" if "iZero i \<le> f" "f < ?e" "iMin < frames ! f" for f
      using n(2) that rd ze by (metis diff_less_mono)
    have j: "?j < seg_len mx i" "seg_pgno wi i ?j = ?k" "\<And>j'. ?j < j' \<Longrightarrow> j' < seg_len mx i \<Longrightarrow> seg_pgno wi i j' \<noteq> ?k"
      using n(1) by (auto simp: best_upt)
    show ?thesis
    proof (cases "?k < iRet")
      case False
      then have e': "iRet' = iRet" "iFrame' = iFrame" using e by auto
      have "iRet \<le> frames ! f" if f: "iZero i \<le> f" "f < mx" "iMin < frames ! f" for f
      proof (cases "f < ?e")
        case True
        then show ?thesis using low [OF f(1) True f(3)] False by simp
      qed (use l(1) f in \<open>auto simp: least_above_def\<close>)
      moreover have "iRet \<noteq> 0xffffffff \<Longrightarrow> iMin < iRet \<and> iRet < 0xffffffff \<and> iFrame = latest frames mx iRet \<and> ?e < iFrame"
        using l(1) by (simp add: least_above_def)
      ultimately show ?thesis using le_less_trans [OF ze(1), of iFrame] unfolding least_above_def e' by blast
    next
      case lt: True
      have e': "iRet' = ?k" "iFrame' = iZero i + 1 + ?j" using e True lt z'(1) by auto
      have "latest frames mx ?k = Suc (iZero i + ?j)"
      proof (rule latest_eqI)
        show "iZero i + ?j < mx" using j(1) ze(2) by linarith
        show "frames ! (iZero i + ?j) = ?k" using r j(1,2) by (simp add: seg_reads_def)
        fix f assume f: "iZero i + ?j < f" "f < mx"
        show "frames ! f \<noteq> ?k"
        proof (cases "f < ?e")
          case True
          then have "f - iZero i < seg_len mx i" "?j < f - iZero i" using f(1) ze by linarith+
          then show ?thesis using rd [OF True] j(3) f(1) by simp
        next
          case False
          then have "iMin < frames ! f \<Longrightarrow> iRet \<le> frames ! f" using l(1) f(2) by (auto simp: least_above_def)
          then show ?thesis using lt stop [OF True] by auto
        qed
      qed
      moreover have "?k \<le> frames ! f" if "iZero i \<le> f" "f < mx" "iMin < frames ! f" for f
      proof (cases "f < ?e")
        case False
        then have "iRet \<le> frames ! f" using l(1) that by (auto simp: least_above_def)
        then show ?thesis using lt by simp
      qed (use low that in blast)
      ultimately show ?thesis using stop [OF True] lt l(2) by (auto simp: least_above_def e')
    qed
  qed
qed

lemma next_loop_ok:
  assumes "seg_reads wi frames mx" "n \<le> walFramePage mx + 1" "0 < mx"
    "list_all2 (seg_ok wi mx iMin) (rev [0..<n]) sgs"
    "least_above frames mx iMin (min (iZero n) mx) iRet iFrame" "iRet \<le> 0xffffffff"
    "next_loop wi iMin sgs iRet iFrame = (iRet', iFrame', sgs')"
  shows "least_above frames mx iMin 0 iRet' iFrame' \<and> list_all2 (seg_ok wi mx iMin) (rev [0..<n]) sgs'"
  using assms
proof (induction n arbitrary: sgs iRet iFrame sgs')
  case 0
  then show ?case by (simp add: iZero_def)
next
  case (Suc n)
  obtain sg rest where sgs: "sgs = sg # rest" and sg: "seg_ok wi mx iMin n sg" "list_all2 (seg_ok wi mx iMin) (rev [0..<n]) rest"
    using Suc.prems(4) by (auto simp: list_all2_Cons1)
  define s where "s = skip_loop wi iMin (sg_nEntry sg - sg_iNext sg) sg"
  have s: "seg_ok wi mx iMin n s" unfolding s_def by (rule seg_ok_skip [OF sg(1)])
  have stop: "sg_iNext s < sg_nEntry s \<Longrightarrow> iMin < seg_key wi s (sg_iNext s)"
    using skip_loop_stops [of sg "sg_nEntry sg - sg_iNext sg" wi iMin] by (simp add: s_def)
  obtain r1 f1 where e: "(r1, f1) = (if sg_iNext s < sg_nEntry s \<and> seg_key wi s (sg_iNext s) < iRet
      then (seg_key wi s (sg_iNext s), sg_iZero s + sg_aIndex s ! sg_iNext s) else (iRet, iFrame))" by (metis surj_pair)
  obtain rest' where n: "next_loop wi iMin rest r1 f1 = (iRet', iFrame', rest')" "sgs' = s # rest'"
    using Suc.prems(7) unfolding sgs by (auto simp: s_def [symmetric] e [symmetric] Let_def split: prod.splits)
  have z: "iZero n < mx" using iZero_le_framePage [OF Suc.prems(3), of n] Suc.prems(2) by simp
  have "least_above frames mx iMin (iZero n) r1 f1"
    by (rule next_segment [OF Suc.prems(1) s z Suc.prems(5,6) stop e])
  then have "least_above frames mx iMin (min (iZero n) mx) r1 f1" using z by (simp add: min_def)
  moreover have "r1 \<le> 0xffffffff" using e Suc.prems(6) by (auto split: if_splits)
  ultimately show ?case using Suc.IH [OF Suc.prems(1) _ Suc.prems(3) sg(2) _ _ n(1)] Suc.prems(2) s n(2) by simp
qed

text \<open>The state of an iterator between two calls.\<close>

definition iter_ok :: "WalIndex \<Rightarrow> nat \<Rightarrow> WalIterator \<Rightarrow> bool" where
  "iter_ok wi mx p \<longleftrightarrow> list_all2 (seg_ok wi mx (iPrior p)) [0..<walFramePage mx + 1] (aSegment p)"

lemma walIteratorNext_ok:
  assumes "seg_reads wi frames mx" "0 < mx" "iter_ok wi mx p" "walIteratorNext wi p iFrame = (isDone, iPage, iFrame', p')"
  shows "least_above frames mx (iPrior p) 0 iPage iFrame'" "\<not> isDone \<Longrightarrow> iter_ok wi mx p'"
proof -
  obtain sgs where n: "next_loop wi (iPrior p) (rev (aSegment p)) 0xffffffff iFrame = (iPage, iFrame', sgs)"
    and d: "p' = p\<lparr>iPrior := iPage, aSegment := rev sgs\<rparr>"
    using assms(4) by (auto simp: walIteratorNext_def Let_def split: prod.splits)
  have "mx \<le> iZero (walFramePage mx + 1)" using walFramePage_bounds(2) [OF assms(2)] by (simp add: iZero_Suc)
  then have l: "least_above frames mx (iPrior p) (min (iZero (walFramePage mx + 1)) mx) 0xffffffff iFrame"
    by (auto simp: least_above_def)
  have "list_all2 (seg_ok wi mx (iPrior p)) (rev [0..<walFramePage mx + 1]) (rev (aSegment p))"
    using assms(3) by (simp only: iter_ok_def list_all2_rev)
  from next_loop_ok [OF assms(1) order_refl assms(2) this l order_refl n]
  have g: "least_above frames mx (iPrior p) 0 iPage iFrame'" "list_all2 (seg_ok wi mx (iPrior p)) (rev [0..<walFramePage mx + 1]) sgs"
    by blast+
  show "least_above frames mx (iPrior p) 0 iPage iFrame'" by (rule g(1))
  show "iter_ok wi mx p'" if "\<not> isDone"
  proof -
    have "iPrior p \<le> iPage" using walIteratorNext_bounds [OF assms(4)] that by simp
    then have "list_all2 (seg_ok wi mx iPage) (rev [0..<walFramePage mx + 1]) sgs"
      using g(2) by (elim list_all2_mono) (rule seg_ok_mono)
    then have "list_all2 (seg_ok wi mx iPage) [0..<walFramePage mx + 1] (rev sgs)" by (metis list_all2_rev rev_rev_ident)
    then show ?thesis by (simp add: iter_ok_def d)
  qed
qed

lemma make_segment_ok:
  assumes "0 < mx" "i < walFramePage mx + 1"
  shows "seg_ok wi mx 0 i (make_segment wi mx (walFramePage mx + 1) i)"
proof -
  let ?n = "if i + 1 = walFramePage mx + 1 then mx - iZero i else if i = 0 then HASHTABLE_NPAGE_ONE else HASHTABLE_NPAGE"
  have z: "iZero i < mx" using iZero_le_framePage [OF assms(1), of i] assms(2) by simp
  have n: "?n = seg_len mx i"
  proof (cases "i = walFramePage mx")
    case True
    then show ?thesis using walFramePage_bounds(2) [OF assms(1)] by (auto simp: seg_len_def iZero_Suc min_def)
  next
    case False
    then have "iZero (Suc i) < mx" using iZero_le_framePage [OF assms(1), of "Suc i"] assms(2) by simp
    then show ?thesis using False by (simp add: seg_len_def iZero_Suc page_size_def)
  qed
  have b: "0 < seg_len mx i" "seg_len mx i \<le> 4096" using z page_size_bound [of i] by (auto simp: seg_len_def iZero_Suc page_size_def)
  obtain A k where m: "walMergesort (seg_pgno wi i) [0..<seg_len mx i] = (A, k)" by fastforce
  have s: "make_segment wi mx (walFramePage mx + 1) i =
      \<lparr>sg_iNext = 0, sg_aIndex = A, sg_aPgno = i, sg_nEntry = k, sg_iZero = iZero i + 1\<rparr>"
    unfolding make_segment_def n Let_def m by simp
  show ?thesis using walMergesort_ok [OF _ _ m] b unfolding s seg_ok_def by simp
qed

lemma segments_loop_ok:
  "segments_loop wi mx n is w = (rc, sgs, w') \<Longrightarrow> w_hdr w' = w_hdr w \<and> (rc = SQLITE_OK \<longrightarrow> sgs = map (make_segment wi mx n) is)"
proof (induction "is" arbitrary: w sgs)
  case (Cons i "is")
  obtain rc1 z w1 where g: "walHashGet w i = (rc1, z, w1)" by (metis prod.exhaust)
  have h: "w_hdr w1 = w_hdr w"
    using g by (auto simp: walHashGet_def walIndexPage_def Let_def split: if_splits list.splits)
  show ?case using Cons.prems Cons.IH [of w1] g h by (auto split: if_splits prod.splits)
qed simp

lemma walIteratorInit_ok:
  assumes "0 < mxFrame w" "walIteratorInit wi w m = (rc, p, w')"
  shows "w_hdr w' = w_hdr w" "rc = SQLITE_OK \<Longrightarrow> \<exists>q. p = Some q \<and> iter_ok wi (mxFrame w) q \<and> iPrior q = 0"
proof -
  let ?n = "walFramePage (mxFrame w) + 1"
  obtain rc1 sgs w1 where l: "segments_loop wi (mxFrame w) ?n [0..<?n] w = (rc1, sgs, w1)" by (metis prod.exhaust)
  note s = segments_loop_ok [OF l]
  show "w_hdr w' = w_hdr w" using assms(2) l s by (auto simp: walIteratorInit_def Let_def split: if_splits)
  assume "rc = SQLITE_OK"
  then have "p = Some \<lparr>iPrior = 0, aSegment = sgs\<rparr>" "rc1 = SQLITE_OK"
    using assms(2) l by (auto simp: walIteratorInit_def Let_def split: if_splits)
  moreover have "list_all2 (seg_ok wi (mxFrame w) 0) [0..<?n] (map (make_segment wi (mxFrame w) ?n) [0..<?n])"
    unfolding list_all2_map2 by (rule list.rel_refl_strong) (rule make_segment_ok [OF assms(1)], auto)
  ultimately show "\<exists>q. p = Some q \<and> iter_ok wi (mxFrame w) q \<and> iPrior q = 0" using s by (simp add: iter_ok_def)
qed

section \<open>The checkpoint\<close>

text \<open>\<open>we_lock t k n\<close> is the outcome of attempt number \<open>t\<close> for exclusive locks on the slots \<open>k\<close>, ..., \<open>k + n - 1\<close>;
  \<open>we_torn\<close> is what a failed write leaves in a page.\<close>

record wal_env =
  we_exclusive :: bool
  we_lock :: "nat \<Rightarrow> nat \<Rightarrow> nat \<Rightarrow> int"
  we_time :: nat
  we_busy :: "bool list"
  we_io :: "int list"
  we_torn :: "u8 list"

abbreviation (input) SQLITE_BUSY :: int where "SQLITE_BUSY \<equiv> 5"
abbreviation (input) SQLITE_CHECKPOINT_PASSIVE :: nat where "SQLITE_CHECKPOINT_PASSIVE \<equiv> 0"
abbreviation (input) SQLITE_CHECKPOINT_RESTART :: nat where "SQLITE_CHECKPOINT_RESTART \<equiv> 2"
abbreviation (input) READMARK_NOT_USED :: nat where "READMARK_NOT_USED \<equiv> 0xffffffff"
abbreviation (input) WAL_NREADER :: nat where "WAL_NREADER \<equiv> 5"
abbreviation WAL_READ_LOCK :: "nat \<Rightarrow> nat" where "WAL_READ_LOCK i \<equiv> 3 + i"

definition walLockExclusive :: "wal_env \<Rightarrow> nat \<Rightarrow> nat \<Rightarrow> int \<times> wal_env" where
  "walLockExclusive e lockIdx n =
     (if we_exclusive e then (SQLITE_OK, e) else (we_lock e (we_time e) lockIdx n, e\<lparr>we_time := we_time e + 1\<rparr>))"

definition io_op :: "wal_env \<Rightarrow> int \<times> wal_env" where
  "io_op e = (case we_io e of [] \<Rightarrow> (SQLITE_OK, e) | rc # rest \<Rightarrow> (rc, e\<lparr>we_io := rest\<rparr>))"

text \<open>Each further attempt needs one more answer of the busy handler.\<close>

fun busy_loop :: "bool list \<Rightarrow> bool \<Rightarrow> wal_env \<Rightarrow> nat \<Rightarrow> nat \<Rightarrow> int \<times> wal_env" where
  "busy_loop [] xBusy e lockIdx n = walLockExclusive e lockIdx n"
| "busy_loop (b # bs) xBusy e lockIdx n =
     (let (rc, e) = walLockExclusive e lockIdx n in
      if xBusy \<and> rc = SQLITE_BUSY then (if b then busy_loop bs xBusy (e\<lparr>we_busy := bs\<rparr>) lockIdx n else (rc, e\<lparr>we_busy := bs\<rparr>))
      else (rc, e))"

definition walBusyLock :: "wal_env \<Rightarrow> bool \<Rightarrow> nat \<Rightarrow> nat \<Rightarrow> int \<times> wal_env" where
  "walBusyLock e xBusy lockIdx n = busy_loop (we_busy e) xBusy e lockIdx n"

text \<open>The last frame that no reader keeps from being copied. The first component is \<open>True\<close> when the function is left.\<close>

fun safe_loop :: "nat list \<Rightarrow> int \<Rightarrow> WalIndex \<Rightarrow> wal_env \<Rightarrow> nat \<Rightarrow> bool \<Rightarrow> bool \<times> int \<times> WalIndex \<times> wal_env \<times> nat \<times> bool" where
  "safe_loop [] rc wi e mxSafeFrame xBusy = (False, rc, wi, e, mxSafeFrame, xBusy)"
| "safe_loop (i # is) rc wi e mxSafeFrame xBusy =
     (let y = aReadMark wi ! i in
      if mxSafeFrame > y then
        (let (rc, e) = walBusyLock e xBusy (WAL_READ_LOCK i) 1 in
         if rc = SQLITE_OK then
           safe_loop is rc (wi\<lparr>aReadMark := (aReadMark wi)[i := if i = 1 then mxSafeFrame else READMARK_NOT_USED]\<rparr>) e mxSafeFrame xBusy
         else if rc = SQLITE_BUSY then safe_loop is rc wi e y False
         else (True, rc, wi, e, mxSafeFrame, xBusy))
      else safe_loop is rc wi e mxSafeFrame xBusy)"

type_synonym db_file = "nat \<Rightarrow> u8 list"

text \<open>The loop that copies frames of the log \<open>fdata\<close> into the database.\<close>

function copy_loop :: "WalIndex \<Rightarrow> (nat \<Rightarrow> u8 list) \<Rightarrow> nat \<Rightarrow> nat \<Rightarrow> nat \<Rightarrow> WalIterator \<Rightarrow> nat \<Rightarrow> db_file \<Rightarrow> wal_env \<Rightarrow> int \<times> db_file \<times> wal_env" where
  "copy_loop wi fdata nBack mxSafeFrame mxPage pIter iFrame db e =
     (let (isDone, iDbpage, iFrame, pIter') = walIteratorNext wi pIter iFrame in
      if isDone then (SQLITE_OK, db, e)
      else if iFrame \<le> nBack \<or> iFrame > mxSafeFrame \<or> iDbpage > mxPage then
        copy_loop wi fdata nBack mxSafeFrame mxPage pIter' iFrame db e
      else
        (let (rc, e) = io_op e in
         if rc \<noteq> SQLITE_OK then (rc, db, e)
         else
           (let (rc, e) = io_op e in
            if rc \<noteq> SQLITE_OK then (rc, db(iDbpage := we_torn e), e)
            else copy_loop wi fdata nBack mxSafeFrame mxPage pIter' iFrame (db(iDbpage := fdata iFrame)) e)))"
  by pat_completeness auto
termination
  by (relation "measure (\<lambda>(wi, fdata, b, m, x, pIter, f, db, e). 0xffffffff - iPrior pIter)")
     (simp_all, (metis walIteratorNext_decreases)+)

declare copy_loop.simps [simp del]

text \<open>The part under the lock of slot 0: the log is synchronised, the frames are copied, a database that is complete is cut to its size,
  and the number of copied frames is raised.\<close>

definition backfill :: "(nat \<Rightarrow> u8 list) \<Rightarrow> bool \<Rightarrow> WalIterator \<Rightarrow> nat \<Rightarrow> nat \<Rightarrow> WalIndex \<Rightarrow> Wal \<Rightarrow> db_file \<Rightarrow> wal_env \<Rightarrow>
    int \<times> WalIndex \<times> db_file \<times> wal_env" where
  "backfill fdata sync_flags pIter mxSafeFrame mxPage wi w db e =
     (let (rc, e) = (if sync_flags then io_op e else (SQLITE_OK, e));
          (rc, e) = (if rc = SQLITE_OK then io_op e else (rc, e));
          (rc, db, e) = (if rc = SQLITE_OK then copy_loop wi fdata (nBackfill wi) mxSafeFrame mxPage pIter 0 db e else (rc, db, e))
      in if rc \<noteq> SQLITE_OK then (rc, wi, db, e)
         else
           (let (rc, db, e) =
                  (if mxSafeFrame = h_mxFrame (wi_hdr wi) then
                     (let (rc, e) = io_op e;
                          db = (if rc = SQLITE_OK then (\<lambda>p. if p > h_nPage (w_hdr w) then [] else db p) else db);
                          (rc, e) = (if rc = SQLITE_OK \<and> sync_flags then io_op e else (rc, e))
                      in (rc, db, e))
                   else (rc, db, e))
            in if rc = SQLITE_OK then (rc, wi\<lparr>nBackfill := mxSafeFrame\<rparr>, db, e) else (rc, wi, db, e)))"

definition walCheckpoint :: "(nat \<Rightarrow> u8 list) \<Rightarrow> nat \<Rightarrow> bool \<Rightarrow> bool \<Rightarrow> bool \<times> bool \<Rightarrow> WalIndex \<Rightarrow> Wal \<Rightarrow> db_file \<Rightarrow> wal_env \<Rightarrow>
    int \<times> WalIndex \<times> Wal \<times> db_file \<times> wal_env" where
  "walCheckpoint fdata eMode xBusyCall sync_flags m wi w db e =
     (if nBackfill wi \<ge> mxFrame w then (SQLITE_OK, wi, w, db, e)
      else
        (let (rc, pIter, w) = walIteratorInit wi w m in
         if rc \<noteq> SQLITE_OK then (rc, wi, w, db, e)
         else
           (let xBusy = (eMode \<noteq> SQLITE_CHECKPOINT_PASSIVE \<and> xBusyCall);
                mxPage = h_nPage (w_hdr w);
                (out, rc, wi, e, mxSafeFrame, xBusy) = safe_loop [1..<WAL_NREADER] rc wi e (mxFrame w) xBusy
            in if out then (rc, wi, w, db, e)
               else
                 (let (rc, wi, db, e) =
                        (if nBackfill wi < mxSafeFrame then
                           (let (rc, e) = walBusyLock e xBusy (WAL_READ_LOCK 0) 1 in
                            if rc = SQLITE_OK then backfill fdata sync_flags (the pIter) mxSafeFrame mxPage wi w db e
                            else (rc, wi, db, e))
                         else (rc, wi, db, e));
                      rc = (if rc = SQLITE_BUSY then SQLITE_OK else rc);
                      (rc, e) =
                        (if rc = SQLITE_OK \<and> eMode \<noteq> SQLITE_CHECKPOINT_PASSIVE then
                           (if nBackfill wi < mxFrame w then (SQLITE_BUSY, e)
                            else if eMode = SQLITE_CHECKPOINT_RESTART then walBusyLock e xBusy (WAL_READ_LOCK 1) (WAL_NREADER - 1)
                            else (rc, e))
                         else (rc, e))
                  in (rc, wi, w, db, e)))))"

section \<open>Lemmas: the checkpoint\<close>

definition copyable :: "nat list \<Rightarrow> nat \<Rightarrow> nat \<Rightarrow> nat \<Rightarrow> nat \<Rightarrow> nat \<Rightarrow> bool" where
  "copyable frames mx nBack mxSafeFrame mxPage p \<longleftrightarrow>
     nBack < latest frames mx p \<and> latest frames mx p \<le> mxSafeFrame \<and> p \<le> mxPage"

lemma least_above_next:
  assumes "seg_reads wi frames mx" "least_above frames mx iMin 0 iPage iFrame" "iMin < p" "p < iPage"
  shows "latest frames mx p = 0"
proof -
  have "frames ! f \<noteq> p" if "f < mx" for f using assms(2-4) that by (auto simp: least_above_def)
  then show ?thesis using latest_spec [of frames mx p 0] by simp
qed

lemma latest_range:
  assumes "seg_reads wi frames mx" "latest frames mx p \<noteq> 0"
  shows "0 < p" "p < 0xffffffff"
proof -
  have "latest frames mx p \<le> mx" "frames ! (latest frames mx p - 1) = p"
    using latest_spec [of frames mx p "latest frames mx p"] assms(2) by auto
  moreover have "latest frames mx p - 1 < mx" using calculation(1) assms(2) by linarith
  ultimately show "0 < p" "p < 0xffffffff" using assms(1) unfolding seg_reads_def by metis+
qed

lemma copy_loop_ok:
  assumes "seg_reads wi frames mx" "0 < mx" "iter_ok wi mx p"
    "copy_loop wi fdata nBack mxSafe mxPage p iFrame db e = (rc, db', e')"
  shows "(\<forall>q. db' q \<noteq> db q \<longrightarrow> iPrior p < q \<and> copyable frames mx nBack mxSafe mxPage q) \<and>
    (rc = SQLITE_OK \<longrightarrow> (\<forall>q. iPrior p < q \<longrightarrow> copyable frames mx nBack mxSafe mxPage q \<longrightarrow> db' q = fdata (latest frames mx q)))"
  using assms
proof (induction wi fdata nBack mxSafe mxPage p iFrame db e rule: copy_loop.induct)
  case (1 wi fdata nBack mxSafe mxPage p iFrame db e)
  obtain isDone pg f p' where n: "walIteratorNext wi p iFrame = (isDone, pg, f, p')" by (metis prod.exhaust)
  note ok = walIteratorNext_ok [OF "1.prems"(1-3) n] and b = walIteratorNext_bounds [OF n]
  note loop = copy_loop.simps [of wi fdata nBack mxSafe mxPage p iFrame db e]
  let ?c = "copyable frames mx nBack mxSafe mxPage"
  have gap: "\<not> ?c q" if "iPrior p < q" "q < pg" for q
    using least_above_next [OF "1.prems"(1) ok(1) that] by (simp add: copyable_def)
  show ?case
  proof (cases isDone)
    case True
    have "\<not> ?c q" if "iPrior p < q" for q
      using gap [OF that] latest_range(2) [OF "1.prems"(1), of q] b(1) True by (cases "q < pg") (auto simp: copyable_def)
    then show ?thesis using "1.prems"(4) True n by (auto simp: loop)
  next
    case False
    have pg: "iPrior p < pg" "f = latest frames mx pg" "iPrior p' = pg" "iter_ok wi mx p'"
      using b False ok by (auto simp: least_above_def)
    show ?thesis
    proof (cases "f \<le> nBack \<or> f > mxSafe \<or> pg > mxPage")
      case skip: True
      have r: "copy_loop wi fdata nBack mxSafe mxPage p' f db e = (rc, db', e')"
        using "1.prems"(4) n False skip by (simp add: loop)
      have nc: "\<not> ?c pg" using skip pg(2) by (auto simp: copyable_def)
      note IH = "1.IH"(1) [OF n [symmetric] refl refl refl False skip "1.prems"(1,2) pg(4) r, unfolded pg(3)]
      show ?thesis
      proof (intro conjI allI impI)
        fix q assume "db' q \<noteq> db q"
        then show "iPrior p < q" "?c q" using IH pg(1) by (auto intro: less_trans)
      next
        fix q assume q: "rc = SQLITE_OK" "iPrior p < q" "?c q"
        then have "pg < q" using gap [of q] nc by (metis linorder_neqE_nat)
        then show "db' q = fdata (latest frames mx q)" using IH q by blast
      qed
    next
      case copy: False
      then have c: "?c pg" using pg(2) by (auto simp: copyable_def)
      obtain rc1 e1 where i1: "io_op e = (rc1, e1)" by fastforce
      obtain rc2 e2 where i2: "io_op e1 = (rc2, e2)" by fastforce
      show ?thesis
      proof (cases "rc1 = SQLITE_OK \<and> rc2 = SQLITE_OK")
        case False
        then show ?thesis using "1.prems"(4) n \<open>\<not> isDone\<close> copy c pg(1) i1 i2
          by (auto simp: loop split: if_splits)
      next
        case True
        then have r: "copy_loop wi fdata nBack mxSafe mxPage p' f (db(pg := fdata f)) e2 = (rc, db', e')"
          using "1.prems"(4) n False copy i1 i2 by (simp add: loop)
        note IH = "1.IH"(2) [OF n [symmetric] refl refl refl False copy i1 [symmetric] refl _ i2 [symmetric] refl _ "1.prems"(1,2) pg(4) r, unfolded pg(3)]
        have IH1: "db' q \<noteq> (db(pg := fdata f)) q \<longrightarrow> pg < q \<and> ?c q" for q using IH True by simp
        have IH2: "rc = SQLITE_OK \<longrightarrow> pg < q \<longrightarrow> ?c q \<longrightarrow> db' q = fdata (latest frames mx q)" for q using IH True by simp
        show ?thesis
        proof (intro conjI allI impI)
          fix q assume "db' q \<noteq> db q"
          then show "iPrior p < q" "?c q" using IH1 [of q] pg(1) c by (auto split: if_splits)
        next
          fix q assume q: "rc = SQLITE_OK" "iPrior p < q" "?c q"
          then consider "q = pg" | "pg < q" using gap [of q] by (metis linorder_neqE_nat)
          then show "db' q = fdata (latest frames mx q)" using IH1 [of q] IH2 [of q] q pg(2) by cases auto
        qed
      qed
    qed
  qed
qed

text \<open>A reader holds a shared lock on its slot, so that no attempt for an exclusive lock that includes it succeeds.\<close>

definition holds_slot :: "wal_env \<Rightarrow> nat \<Rightarrow> bool" where
  "holds_slot e k \<longleftrightarrow> \<not> we_exclusive e \<and> (\<forall>t l n. l \<le> WAL_READ_LOCK k \<longrightarrow> WAL_READ_LOCK k < l + n \<longrightarrow> we_lock e t l n \<noteq> SQLITE_OK)"

definition same_locks :: "wal_env \<Rightarrow> wal_env \<Rightarrow> bool" where
  "same_locks e e' \<longleftrightarrow> we_exclusive e' = we_exclusive e \<and> we_lock e' = we_lock e"

lemma same_locks_refl [simp]: "same_locks e e" by (simp add: same_locks_def)

lemma same_locks_holds: "same_locks e e' \<Longrightarrow> holds_slot e' k \<longleftrightarrow> holds_slot e k"
  by (simp add: same_locks_def holds_slot_def)

lemma busy_loop_ok:
  "busy_loop bs xBusy e l n = (rc, e') \<Longrightarrow>
   same_locks e e' \<and> (holds_slot e k \<longrightarrow> l \<le> WAL_READ_LOCK k \<longrightarrow> WAL_READ_LOCK k < l + n \<longrightarrow> rc \<noteq> SQLITE_OK)"
proof (induction bs arbitrary: e rc)
  case Nil
  then show ?case by (auto simp: walLockExclusive_def same_locks_def holds_slot_def split: if_splits)
next
  case (Cons b bs)
  obtain rc1 e1 where l: "walLockExclusive e l n = (rc1, e1)" by fastforce
  have l1: "same_locks e e1" "holds_slot e k \<longrightarrow> l \<le> WAL_READ_LOCK k \<longrightarrow> WAL_READ_LOCK k < l + n \<longrightarrow> rc1 \<noteq> SQLITE_OK"
    using l by (auto simp: walLockExclusive_def same_locks_def holds_slot_def split: if_splits)
  have u: "same_locks e1 (e1\<lparr>we_busy := bs\<rparr>)" by (simp add: same_locks_def)
  show ?case
  proof (cases "xBusy \<and> rc1 = SQLITE_BUSY \<and> b")
    case True
    then have "busy_loop bs xBusy (e1\<lparr>we_busy := bs\<rparr>) l n = (rc, e')" using Cons.prems l by simp
    from Cons.IH [OF this] l1 u show ?thesis using same_locks_holds [of e "e1\<lparr>we_busy := bs\<rparr>" k] by (simp add: same_locks_def)
  next
    case False
    then show ?thesis using Cons.prems l l1 u by (auto simp: same_locks_def split: if_splits)
  qed
qed

lemma walBusyLock_ok:
  assumes "walBusyLock e xBusy l n = (rc, e')"
  shows "same_locks e e'" "holds_slot e k \<Longrightarrow> l \<le> WAL_READ_LOCK k \<Longrightarrow> WAL_READ_LOCK k < l + n \<Longrightarrow> rc \<noteq> SQLITE_OK"
  using busy_loop_ok [OF assms [unfolded walBusyLock_def], of k] by blast+

text \<open>The frames to copy are limited by the mark of every reader; marks of other slots may change.\<close>

definition same_index :: "WalIndex \<Rightarrow> WalIndex \<Rightarrow> bool" where
  "same_index wi wi' \<longleftrightarrow> wi_page wi' = wi_page wi \<and> wi_hdr wi' = wi_hdr wi \<and> nBackfill wi' = nBackfill wi"

lemma safe_loop_ok:
  "safe_loop is rc wi e mx xb = (out, rc', wi', e', mx', xb') \<Longrightarrow> distinct is \<Longrightarrow>
   same_index wi wi' \<and> same_locks e e' \<and> mx' \<le> mx \<and>
   (\<forall>k\<in>set is. holds_slot e k \<longrightarrow> \<not> out \<longrightarrow> mx' \<le> aReadMark wi ! k)"
proof (induction "is" arbitrary: rc wi e mx xb)
  case (Cons i "is")
  let ?y = "aReadMark wi ! i"
  note d = Cons.prems(2) [simplified]
  show ?case
  proof (cases "mx > ?y")
    case False
    then show ?thesis using Cons.IH [of rc wi e mx xb] Cons.prems d by (fastforce simp: Let_def)
  next
    case True
    obtain rc1 e1 where l: "walBusyLock e xb (WAL_READ_LOCK i) 1 = (rc1, e1)" by fastforce
    note l1 = walBusyLock_ok [OF l]
    let ?wi = "wi\<lparr>aReadMark := (aReadMark wi)[i := if i = 1 then mx else READMARK_NOT_USED]\<rparr>"
    have h: "holds_slot e1 k \<longleftrightarrow> holds_slot e k" for k using same_locks_holds [OF l1(1)] .
    have w: "same_index wi ?wi" "\<And>k. k \<in> set is \<Longrightarrow> aReadMark ?wi ! k = aReadMark wi ! k"
      using d by (auto simp: same_index_def nth_list_update_neq split: if_splits) (metis nth_list_update_neq)+
    consider "rc1 = SQLITE_OK" | "rc1 = SQLITE_BUSY" | "rc1 \<noteq> SQLITE_OK \<and> rc1 \<noteq> SQLITE_BUSY" by blast
    then show ?thesis
    proof cases
      case 1
      then have "safe_loop is rc1 ?wi e1 mx xb = (out, rc', wi', e', mx', xb')" using Cons.prems(1) True l by simp
      from Cons.IH [OF this] d have IH: "same_index ?wi wi'" "same_locks e1 e'" "mx' \<le> mx"
        "\<forall>k\<in>set is. holds_slot e1 k \<longrightarrow> \<not> out \<longrightarrow> mx' \<le> aReadMark ?wi ! k" by blast+
      have "\<not> holds_slot e i" using l1(2) [of i] 1 by auto
      then show ?thesis using IH w h l1(1) by (auto simp: same_index_def same_locks_def)
    next
      case 2
      then have "safe_loop is rc1 wi e1 ?y False = (out, rc', wi', e', mx', xb')" using Cons.prems(1) True l by simp
      from Cons.IH [OF this] d have IH: "same_index wi wi'" "same_locks e1 e'" "mx' \<le> ?y"
        "\<forall>k\<in>set is. holds_slot e1 k \<longrightarrow> \<not> out \<longrightarrow> mx' \<le> aReadMark wi ! k" by blast+
      then show ?thesis using True h l1(1) by (auto simp: same_locks_def)
    next
      case 3
      then show ?thesis using Cons.prems(1) True l l1(1) by (auto simp: same_index_def)
    qed
  qed
qed (auto simp: same_index_def)

lemma backfill_ok:
  assumes "seg_reads wi frames mx" "0 < mx" "iter_ok wi mx p" "iPrior p = 0" "mxPage = h_nPage (w_hdr w)"
    "backfill fdata sync p mxSafe mxPage wi w db e = (rc, wi', db', e')"
  shows "wi' = wi \<or> wi' = wi\<lparr>nBackfill := mxSafe\<rparr>"
    "db' q \<noteq> db q \<Longrightarrow> copyable frames mx (nBackfill wi) mxSafe mxPage q \<or> (mxPage < q \<and> mxSafe = h_mxFrame (wi_hdr wi))"
    "wi' \<noteq> wi \<Longrightarrow> copyable frames mx (nBackfill wi) mxSafe mxPage q \<Longrightarrow> db' q = fdata (latest frames mx q)"
proof -
  obtain rc1 e1 where i1: "(if sync then io_op e else (SQLITE_OK, e)) = (rc1, e1)" by (metis surj_pair)
  obtain rc2 e2 where i2: "(if rc1 = SQLITE_OK then io_op e1 else (rc1, e1)) = (rc2, e2)" by (metis surj_pair)
  obtain rc3 db3 e3 where i3: "(if rc2 = SQLITE_OK then copy_loop wi fdata (nBackfill wi) mxSafe mxPage p 0 db e2 else (rc2, db, e2)) = (rc3, db3, e3)"
    by (metis prod.exhaust)
  let ?c = "copyable frames mx (nBackfill wi) mxSafe mxPage"
  have q0: "?c q \<Longrightarrow> 0 < q" for q using latest_range(1) [OF assms(1), of q] by (simp add: copyable_def)
  have db3: "(\<forall>q. db3 q \<noteq> db q \<longrightarrow> ?c q) \<and> (rc3 = SQLITE_OK \<longrightarrow> (\<forall>q. ?c q \<longrightarrow> db3 q = fdata (latest frames mx q)))"
  proof (cases "rc2 = SQLITE_OK")
    case True
    then show ?thesis using copy_loop_ok [OF assms(1-3), of fdata "nBackfill wi" mxSafe mxPage 0 db e2] i3 assms(4) q0 by simp
  next
    case False
    then show ?thesis using i3 by auto
  qed
  have b: "backfill fdata sync p mxSafe mxPage wi w db e =
      (if rc3 \<noteq> SQLITE_OK then (rc3, wi, db3, e3)
       else
         (let (rc, db, e) =
                (if mxSafe = h_mxFrame (wi_hdr wi) then
                   (let (rc, e) = io_op e3;
                        db = (if rc = SQLITE_OK then (\<lambda>p. if p > h_nPage (w_hdr w) then [] else db3 p) else db3);
                        (rc, e) = (if rc = SQLITE_OK \<and> sync then io_op e else (rc, e))
                    in (rc, db, e))
                 else (rc3, db3, e3))
          in if rc = SQLITE_OK then (rc, wi\<lparr>nBackfill := mxSafe\<rparr>, db, e) else (rc, wi, db, e)))"
    by (simp add: backfill_def i1 i2 i3)
  have cut: "(wi' = wi \<or> wi' = wi\<lparr>nBackfill := mxSafe\<rparr> \<and> rc3 = SQLITE_OK) \<and>
      (db' q = db3 q \<or> h_nPage (w_hdr w) < q \<and> mxSafe = h_mxFrame (wi_hdr wi))" for q
    using assms(6) unfolding b by (auto simp: Let_def split: if_splits prod.splits)
  show "wi' = wi \<or> wi' = wi\<lparr>nBackfill := mxSafe\<rparr>" using cut by blast
  show "?c q \<or> (mxPage < q \<and> mxSafe = h_mxFrame (wi_hdr wi))" if "db' q \<noteq> db q"
    using that cut [of q] db3 assms(5) by metis
  show "db' q = fdata (latest frames mx q)" if "wi' \<noteq> wi" "?c q"
    using that cut [of q] db3 assms(5) by (metis copyable_def not_le)
qed

text \<open>What a checkpoint does, in one statement: either nothing, or the frames up to a limit that every reader allows are copied
  under the lock of slot 0.\<close>

definition checkpointed :: "nat list \<Rightarrow> (nat \<Rightarrow> u8 list) \<Rightarrow> WalIndex \<Rightarrow> Wal \<Rightarrow> db_file \<Rightarrow> wal_env \<Rightarrow> nat \<Rightarrow> WalIndex \<Rightarrow> db_file \<Rightarrow> bool" where
  "checkpointed frames fdata wi w db e mxSafe wi' db' \<longleftrightarrow>
     nBackfill wi < mxSafe \<and> mxSafe \<le> mxFrame w \<and> (\<forall>k<WAL_NREADER. holds_slot e k \<longrightarrow> 0 < k \<and> mxSafe \<le> aReadMark wi ! k) \<and>
     (\<forall>q. db' q \<noteq> db q \<longrightarrow> copyable frames (mxFrame w) (nBackfill wi) mxSafe (h_nPage (w_hdr w)) q \<or>
        (h_nPage (w_hdr w) < q \<and> mxSafe = h_mxFrame (wi_hdr wi))) \<and>
     (nBackfill wi' = nBackfill wi \<or>
      nBackfill wi' = mxSafe \<and> (\<forall>q. copyable frames (mxFrame w) (nBackfill wi) mxSafe (h_nPage (w_hdr w)) q \<longrightarrow>
        db' q = fdata (latest frames (mxFrame w) q)))"

lemma walCheckpoint_effect:
  assumes "seg_reads wi frames (mxFrame w)" "walCheckpoint fdata eMode xb sync m wi w db e = (rc, wi', w', db', e')"
  shows "wi_page wi' = wi_page wi \<and> wi_hdr wi' = wi_hdr wi \<and>
    (db' = db \<and> nBackfill wi' = nBackfill wi \<or> (\<exists>mxSafe. checkpointed frames fdata wi w db e mxSafe wi' db'))"
proof (cases "nBackfill wi \<ge> mxFrame w")
  case True
  then show ?thesis using assms(2) by (simp add: walCheckpoint_def)
next
  case False
  then have mx: "0 < mxFrame w" by simp
  obtain rc1 p w1 where i: "walIteratorInit wi w m = (rc1, p, w1)" by (metis prod.exhaust)
  note iok = walIteratorInit_ok [OF mx i]
  show ?thesis
  proof (cases "rc1 = SQLITE_OK")
    case False
    then show ?thesis using assms(2) \<open>\<not> nBackfill wi \<ge> mxFrame w\<close> i by (simp add: walCheckpoint_def)
  next
    case rc1: True
    then obtain q where q: "p = Some q" "iter_ok wi (mxFrame w) q" "iPrior q = 0" using iok(2) by blast
    let ?xb = "eMode \<noteq> SQLITE_CHECKPOINT_PASSIVE \<and> xb"
    obtain out rc2 wi2 e2 mxS xb2 where s: "safe_loop [1..<WAL_NREADER] rc1 wi e (mxFrame w1) ?xb = (out, rc2, wi2, e2, mxS, xb2)"
      by (metis prod.exhaust)
    from safe_loop_ok [OF s] iok(1) have sok: "same_index wi wi2" "same_locks e e2" "mxS \<le> mxFrame w"
      "\<forall>k\<in>{1..<WAL_NREADER}. holds_slot e k \<longrightarrow> \<not> out \<longrightarrow> mxS \<le> aReadMark wi ! k" by simp_all
    show ?thesis
    proof (cases "out \<or> \<not> nBackfill wi2 < mxS")
      case True
      then show ?thesis using assms(2) False i rc1 s sok(1)
        by (auto simp: walCheckpoint_def same_index_def Let_def split: prod.splits if_splits)
    next
      case go: False
      obtain rc3 e3 where l: "walBusyLock e2 xb2 (WAL_READ_LOCK 0) 1 = (rc3, e3)" by fastforce
      note lok = walBusyLock_ok [OF l]
      show ?thesis
      proof (cases "rc3 = SQLITE_OK")
        case nolock: False
        then show ?thesis using assms(2) False i rc1 s sok(1) go l
          by (auto simp: walCheckpoint_def same_index_def Let_def split: prod.splits if_splits)
      next
        case lock: True
        obtain rc4 wi4 db4 e4 where b: "backfill fdata sync q mxS (h_nPage (w_hdr w1)) wi2 w1 db e3 = (rc4, wi4, db4, e4)"
          by (metis prod.exhaust)
        have r: "wi' = wi4" "db' = db4" using assms(2) False i rc1 q(1) s go l lock b
          by (auto simp: walCheckpoint_def Let_def split: prod.splits if_splits)
        have pages: "seg_pgno wi2 = seg_pgno wi" using sok(1) by (simp add: seg_pgno_def same_index_def fun_eq_iff)
        have reads: "seg_reads wi2 frames (mxFrame w)" using assms(1) by (simp add: seg_reads_def pages)
        have "seg_ok wi2 = seg_ok wi" by (simp add: seg_ok_def fun_eq_iff pages)
        then have it: "iter_ok wi2 (mxFrame w) q" using q(2) by (simp add: iter_ok_def)
        note bok = backfill_ok [OF reads mx it q(3) refl b]
        have "holds_slot e k \<Longrightarrow> k < WAL_NREADER \<Longrightarrow> 0 < k \<and> mxS \<le> aReadMark wi ! k" for k
          using sok(4) go lok(2) [of k] lock same_locks_holds [OF sok(2), of k] by (cases "k = 0") auto
        moreover have "nBackfill wi4 = nBackfill wi2 \<or> nBackfill wi4 = mxS \<and> wi4 \<noteq> wi2" using bok(1) by auto
        ultimately have "checkpointed frames fdata wi w db e mxS wi' db'"
          using bok(2,3) go sok(1,3) iok(1) unfolding checkpointed_def r same_index_def by (simp (no_asm_simp)) metis
        moreover have "wi_page wi' = wi_page wi \<and> wi_hdr wi' = wi_hdr wi" using bok(1) sok(1) by (auto simp: r same_index_def)
        ultimately show ?thesis by blast
      qed
    qed
  qed
qed

section \<open>What readers see\<close>

text \<open>A page as a connection reads it: from the frame the index names, or else from the database.\<close>

definition seen :: "(nat \<Rightarrow> nat) \<Rightarrow> (nat \<Rightarrow> u8 list) \<Rightarrow> db_file \<Rightarrow> nat \<Rightarrow> u8 list" where
  "seen frame fdata db p = (if frame p = 0 then db p else fdata (frame p))"

text \<open>The interface between a reader and the index: a usable connection finds the latest of the frames visible to it. A
  database page may then change below a frame that the reader finds, and a database into which the visible frames have
  been copied gives the same pages without the log.\<close>

locale frame_lookup =
  fixes rep :: "'i \<Rightarrow> nat list \<Rightarrow> bool" and visible :: "'c \<Rightarrow> nat" and usable :: "'c \<Rightarrow> bool" and lookup :: "'i \<Rightarrow> 'c \<Rightarrow> nat \<Rightarrow> nat"
  assumes lookup_latest: "rep i frames \<Longrightarrow> usable c \<Longrightarrow> visible c \<le> length frames \<Longrightarrow> lookup i c p = latest frames (visible c) p"
begin

lemma seen_below_frame:
  assumes "rep i frames" "rep i' frames" "usable c" "visible c \<le> length frames"
    "db' p \<noteq> db p \<Longrightarrow> 0 < latest frames mx p \<and> latest frames mx p \<le> visible c"
  shows "seen (lookup i' c) fdata db' p = seen (lookup i c) fdata db p"
proof (cases "db' p = db p")
  case True
  then show ?thesis using assms(1-4) by (simp add: seen_def lookup_latest)
next
  case False
  let ?f = "latest frames mx p"
  have f: "0 < ?f" "?f \<le> visible c" using assms(5) False by auto
  then have "frames ! (?f - 1) = p" using latest_spec [of frames mx p ?f] by auto
  moreover have "?f - 1 < visible c" using f by linarith
  ultimately have "latest frames (visible c) p \<noteq> 0" using latest_spec [of frames "visible c" p 0] by auto
  then show ?thesis using assms(1-4) by (simp add: seen_def lookup_latest)
qed

lemma seen_copied:
  assumes "rep i frames" "usable c" "visible c \<le> length frames"
    "db' p = (if latest frames (visible c) p = 0 then db p else fdata (latest frames (visible c) p))"
  shows "seen (lookup i c) fdata db p = db' p"
  using assms by (simp add: seen_def lookup_latest)

end

definition wal_lookup :: "WalIndex \<Rightarrow> Wal \<Rightarrow> nat \<Rightarrow> nat" where
  "wal_lookup wi w p = fst (snd (sqlite3WalFindFrame wi w p))"

definition wal_usable :: "Wal \<Rightarrow> bool" where
  "wal_usable w \<longleftrightarrow> map_ok w \<and> readLock w \<noteq> 0"

interpretation walk: frame_lookup wal_rep mxFrame wal_usable wal_lookup
proof unfold_locales
  fix wi frames w p
  assume "wal_rep wi frames" "wal_usable w" "mxFrame w \<le> length frames"
  then show "wal_lookup wi w p = latest frames (mxFrame w) p"
    using FindFrame_eq [of wi frames w p] by (auto simp: wal_lookup_def wal_usable_def)
qed

lemma lookup_slot_0: "readLock r = 0 \<Longrightarrow> wal_lookup wi r p = 0"
  by (simp add: wal_lookup_def sqlite3WalFindFrame_def)

section \<open>Properties\<close>

text \<open>C37: The merge sort of the checkpoint sorts positions by the page numbers stored there, without repetitions, and keeps for every
  page number the last position of the list that has it.\<close>

theorem walMergesort_keeps_latest:
  assumes "0 < length aList" "length aList \<le> HASHTABLE_NPAGE" "walMergesort aContent aList = (A, n)"
  shows "sorted_wrt (\<lambda>i j. aContent i < aContent j) (take n A) \<and>
    (\<forall>i. i \<in> set (take n A) \<longleftrightarrow> (\<exists>xs ys. aList = xs @ i # ys \<and> (\<forall>j\<in>set ys. aContent j \<noteq> aContent i)))"
proof -
  note ok = walMergesort_ok [OF assms]
  have "best aContent l (aContent i) = Some i \<longleftrightarrow> (\<exists>xs ys. l = xs @ i # ys \<and> (\<forall>j\<in>set ys. aContent j \<noteq> aContent i))"
    (is "_ \<longleftrightarrow> (\<exists>xs ys. l = xs @ i # ys \<and> ?none ys)") for i l
  proof (induction l rule: rev_induct)
    case (snoc x l)
    have "best aContent (l @ [x]) (aContent i) = (if aContent x = aContent i then Some x else best aContent l (aContent i))"
      by (auto simp: best_append map_add_def)
    moreover have "(\<exists>xs ys. l @ [x] = xs @ i # ys \<and> ?none ys) \<longleftrightarrow> x = i \<or> aContent x \<noteq> aContent i \<and> (\<exists>xs ys. l = xs @ i # ys \<and> ?none ys)"
      (is "?L \<longleftrightarrow> ?R")
    proof
      assume ?L
      then obtain xs ys where "l @ [x] = xs @ i # ys" "?none ys" by blast
      then show ?R by (cases ys rule: rev_cases) auto
    next
      assume ?R
      then show ?L
      proof
        assume "x = i"
        then have "l @ [x] = l @ i # []" by simp
        then show ?L by fastforce
      next
        assume "aContent x \<noteq> aContent i \<and> (\<exists>xs ys. l = xs @ i # ys \<and> ?none ys)"
        then obtain xs ys where "l @ [x] = xs @ i # (ys @ [x])" "?none (ys @ [x])" by auto
        then show ?L by blast
      qed
    qed
    ultimately show ?case using snoc by (cases "aContent x = aContent i") auto
  qed simp
  then show ?thesis using ok(2,3) best_Some [OF ok(2)] by metis
qed

lemma checkpoint_keeps_seen:
  assumes "wal_rep wi frames" "\<forall>p\<in>set frames. p < 0xffffffff"
    "mxFrame w \<le> h_mxFrame (wi_hdr wi)" "h_mxFrame (wi_hdr wi) \<le> length frames"
    "map_ok r" "mxFrame r \<le> h_mxFrame (wi_hdr wi)"
    "holds_slot e (nat (readLock r))" "0 \<le> readLock r" "readLock r < 5" "0 < readLock r \<Longrightarrow> aReadMark wi ! nat (readLock r) \<le> mxFrame r"
    "p \<le> h_nPage (w_hdr w) \<or> mxFrame r \<noteq> mxFrame w"
    "walCheckpoint fdata eMode xBusy sync m wi w db e = (rc, wi', w', db', e')"
  shows "seen (wal_lookup wi' r) fdata db' p = seen (wal_lookup wi r) fdata db p"
proof -
  have reads: "seg_reads wi frames (mxFrame w)" using assms(1-4) by (intro seg_reads_rep) auto
  from walCheckpoint_effect [OF reads assms(12)] have pages: "wi_page wi' = wi_page wi"
    and eff: "db' = db \<or> (\<exists>mxSafe. checkpointed frames fdata wi w db e mxSafe wi' db')" by blast+
  have rep: "wal_rep wi' frames" using assms(1) wal_rep_same_pages [OF pages] by simp
  have nz: "0 < readLock r \<and> mxSafe \<le> mxFrame r" if "checkpointed frames fdata wi w db e mxSafe wi' db'" for mxSafe
  proof -
    have "\<forall>k<WAL_NREADER. holds_slot e k \<longrightarrow> 0 < k \<and> mxSafe \<le> aReadMark wi ! k" using that unfolding checkpointed_def by blast
    moreover have "nat (readLock r) < WAL_NREADER" using assms(9) by simp
    ultimately have "0 < nat (readLock r)" "mxSafe \<le> aReadMark wi ! nat (readLock r)" using assms(7) by blast+
    then show ?thesis using assms(10) by simp
  qed
  show ?thesis
  proof (cases "readLock r = 0")
    case True
    then show ?thesis using eff nz by (auto simp: seen_def lookup_slot_0)
  next
    case False
    show ?thesis
    proof (rule walk.seen_below_frame [OF assms(1) rep])
      show "wal_usable r" using assms(5) False by (simp add: wal_usable_def)
      show "mxFrame r \<le> length frames" using assms(4,6) by simp
      assume "db' p \<noteq> db p"
      then obtain mxSafe where c: "checkpointed frames fdata wi w db e mxSafe wi' db'" using eff by auto
      then have "mxSafe \<le> mxFrame w" "copyable frames (mxFrame w) (nBackfill wi) mxSafe (h_nPage (w_hdr w)) p \<or>
          (h_nPage (w_hdr w) < p \<and> mxSafe = h_mxFrame (wi_hdr wi))"
        using \<open>db' p \<noteq> db p\<close> unfolding checkpointed_def by blast+
      then have "copyable frames (mxFrame w) (nBackfill wi) mxSafe (h_nPage (w_hdr w)) p"
        using nz [OF c] assms(3,6,11) by linarith
      then show "0 < latest frames (mxFrame w) p \<and> latest frames (mxFrame w) p \<le> mxFrame r"
        using nz [OF c] by (auto simp: copyable_def)
    qed
  qed
qed

text \<open>C8: A checkpoint is invisible to readers. While a reader holds the lock of its slot, a checkpoint that copies frames, and may fail or
  leave torn pages at any point, does not change what the reader sees of any page of its snapshot.\<close>

theorem checkpoint_invisible:
  assumes "wal_rep wi frames" "\<forall>p\<in>set frames. p < 0xffffffff"
    "mxFrame w \<le> h_mxFrame (wi_hdr wi)" "h_mxFrame (wi_hdr wi) \<le> length frames"
    "map_ok r" "mxFrame r \<le> h_mxFrame (wi_hdr wi)"
    "holds_slot e (nat (readLock r))" "0 \<le> readLock r" "readLock r < 5" "0 < readLock r \<Longrightarrow> aReadMark wi ! nat (readLock r) \<le> mxFrame r"
    "p \<le> h_nPage (w_hdr w) \<or> mxFrame r \<noteq> mxFrame w"
    "walCheckpoint fdata eMode xBusy sync m wi w db e = (rc, wi', w', db', e')"
  shows "seen (wal_lookup wi' r) fdata db' p = seen (wal_lookup wi r) fdata db p"
  using assms by (rule checkpoint_keeps_seen)

text \<open>C35: After a checkpoint, with any outcome, a page of the database whose latest frame is among those counted as copied holds the content of
  that frame, and a page that is not in the log is unchanged, provided this was so before for the frames counted as copied then.\<close>

theorem checkpoint_backfills:
  assumes "wal_rep wi frames" "\<forall>p\<in>set frames. p < 0xffffffff" "mxFrame w \<le> length frames"
    "\<forall>p\<le>h_nPage (w_hdr w). 0 < latest frames (mxFrame w) p \<longrightarrow> latest frames (mxFrame w) p \<le> nBackfill wi \<longrightarrow>
       db p = fdata (latest frames (mxFrame w) p)"
    "walCheckpoint fdata eMode xBusy sync m wi w db e = (rc, wi', w', db', e')"
    "p \<le> h_nPage (w_hdr w)" "latest frames (mxFrame w) p \<le> nBackfill wi'"
  shows "db' p = (if latest frames (mxFrame w) p = 0 then db p else fdata (latest frames (mxFrame w) p))"
proof -
  let ?f = "latest frames (mxFrame w) p"
  have reads: "seg_reads wi frames (mxFrame w)" using assms(1-3) by (intro seg_reads_rep) auto
  have old: "?f \<le> nBackfill wi \<Longrightarrow> db p = (if ?f = 0 then db p else fdata ?f)" using assms(4,6) by simp
  from walCheckpoint_effect [OF reads assms(5)]
  consider "db' = db" "nBackfill wi' = nBackfill wi" | mxSafe where "checkpointed frames fdata wi w db e mxSafe wi' db'" by blast
  then show ?thesis
  proof cases
    case 1
    then show ?thesis using old assms(7) by simp
  next
    case (2 mxSafe)
    let ?c = "copyable frames (mxFrame w) (nBackfill wi) mxSafe (h_nPage (w_hdr w)) p"
    have c: "db' p \<noteq> db p \<longrightarrow> ?c" "nBackfill wi' \<noteq> nBackfill wi \<longrightarrow> nBackfill wi' = mxSafe \<and> (?c \<longrightarrow> db' p = fdata ?f)"
      using 2 assms(6) unfolding checkpointed_def by fastforce+
    show ?thesis
    proof (cases "?f \<le> nBackfill wi")
      case True
      then have "db' p = db p" using c(1) by (auto simp: copyable_def)
      then show ?thesis using old [OF True] by simp
    next
      case False
      then have n: "nBackfill wi' = mxSafe" "?c \<longrightarrow> db' p = fdata ?f" using c(2) assms(7) by auto
      moreover have ?c using False n(1) assms(6,7) by (simp add: copyable_def)
      ultimately show ?thesis using False by simp
    qed
  qed
qed

text \<open>An environment in which every lock is granted and no file operation fails.\<close>

definition undisturbed :: "wal_env \<Rightarrow> bool" where
  "undisturbed e \<longleftrightarrow> we_io e = [] \<and> (\<forall>t l n. we_lock e t l n = SQLITE_OK)"

lemma undisturbed_simps [simp]:
  "undisturbed e \<Longrightarrow> io_op e = (SQLITE_OK, e)"
  "undisturbed (e\<lparr>we_time := t\<rparr>) = undisturbed e"
  by (simp_all add: undisturbed_def io_op_def)

lemma undisturbed_lock: "undisturbed e \<Longrightarrow> \<exists>e'. walBusyLock e xBusy l n = (SQLITE_OK, e') \<and> undisturbed e'"
  by (cases "we_busy e") (auto simp: walBusyLock_def walLockExclusive_def undisturbed_def)

lemma undisturbed_copy:
  "undisturbed e \<Longrightarrow> fst (copy_loop wi fdata nBack mxSafe mxPage p iFrame db e) = SQLITE_OK \<and>
     undisturbed (snd (snd (copy_loop wi fdata nBack mxSafe mxPage p iFrame db e)))"
proof (induction wi fdata nBack mxSafe mxPage p iFrame db e rule: copy_loop.induct)
  case (1 wi fdata nBack mxSafe mxPage p iFrame db e)
  obtain isDone pg f p' where n: "walIteratorNext wi p iFrame = (isDone, pg, f, p')" by (metis prod.exhaust)
  note loop = copy_loop.simps [of wi fdata nBack mxSafe mxPage p iFrame db e]
  have io: "io_op e = (SQLITE_OK, e)" using "1.prems" by simp
  show ?case
  proof (cases isDone)
    case False
    show ?thesis
    proof (cases "f \<le> nBack \<or> f > mxSafe \<or> pg > mxPage")
      case True
      then show ?thesis using "1.IH"(1) [OF n [symmetric] refl refl refl False True "1.prems"] n False by (simp add: loop)
    next
      case copy: False
      have "fst (copy_loop wi fdata nBack mxSafe mxPage p' f (db(pg := fdata f)) e) = SQLITE_OK \<and>
          undisturbed (snd (snd (copy_loop wi fdata nBack mxSafe mxPage p' f (db(pg := fdata f)) e)))"
        using "1.IH"(2) [OF n [symmetric] refl refl refl False copy io [symmetric] refl _ io [symmetric] refl _ "1.prems"] by (simp add: fun_upd_def)
      then show ?thesis using n False copy by (simp add: loop io)
    qed
  qed (use n "1.prems" in \<open>simp add: loop\<close>)
qed

lemma undisturbed_safe:
  "undisturbed e \<Longrightarrow> \<exists>wi' e'. safe_loop is SQLITE_OK wi e mx xb = (False, SQLITE_OK, wi', e', mx, xb) \<and> undisturbed e' \<and> same_index wi wi'"
proof (induction "is" arbitrary: wi e)
  case (Cons i "is")
  show ?case
  proof (cases "mx > aReadMark wi ! i")
    case True
    obtain e1 where l: "walBusyLock e xb (WAL_READ_LOCK i) 1 = (SQLITE_OK, e1)" "undisturbed e1" using undisturbed_lock [OF Cons.prems] by blast
    let ?wi = "wi\<lparr>aReadMark := (aReadMark wi)[i := if i = 1 then mx else READMARK_NOT_USED]\<rparr>"
    obtain wi' e' where "safe_loop is SQLITE_OK ?wi e1 mx xb = (False, SQLITE_OK, wi', e', mx, xb)" "undisturbed e'" "same_index ?wi wi'"
      using Cons.IH [OF l(2)] by blast
    then show ?thesis using True l(1) by (auto simp: same_index_def Let_def)
  next
    case False
    then show ?thesis using Cons.IH [OF Cons.prems] by simp
  qed
qed (simp add: same_index_def)

lemma undisturbed_backfill:
  assumes "undisturbed e"
  shows "\<exists>db' e'. backfill fdata sync p mxSafe mxPage wi w db e = (SQLITE_OK, wi\<lparr>nBackfill := mxSafe\<rparr>, db', e') \<and> undisturbed e'"
proof -
  obtain rc db1 e1 where c: "copy_loop wi fdata (nBackfill wi) mxSafe mxPage p 0 db e = (rc, db1, e1)" by (metis prod.exhaust)
  then have "rc = SQLITE_OK" "undisturbed e1"
    using undisturbed_copy [OF assms, of wi fdata "nBackfill wi" mxSafe mxPage p 0 db] by simp_all
  then show ?thesis using assms c by (simp add: backfill_def)
qed

lemma undisturbed_init:
  assumes "map_ok w"
  shows "\<exists>q w'. walIteratorInit wi w (True, True) = (SQLITE_OK, Some q, w') \<and> w_hdr w' = w_hdr w"
proof -
  have "\<exists>sgs w'. segments_loop wi n k is w = (SQLITE_OK, sgs, w') \<and> w_hdr w' = w_hdr w" for n k "is" using assms
  proof (induction "is" arbitrary: w)
    case (Cons i "is")
    obtain w1 where w1: "walHashGet w i = (SQLITE_OK, iZero i, w1)" "same_conn w w1" using walHashGet_ok [OF Cons.prems] by blast
    then obtain sgs w' where "segments_loop wi n k is w1 = (SQLITE_OK, sgs, w')" "w_hdr w' = w_hdr w1"
      using Cons.IH [of w1] by (auto simp: same_conn_def)
    then show ?case using w1 by (simp add: same_conn_def)
  qed simp
  from this [of "mxFrame w" "walFramePage (mxFrame w) + 1" "[0..<walFramePage (mxFrame w) + 1]"]
  show ?thesis by (auto simp: walIteratorInit_def Let_def)
qed

lemma walCheckpoint_undisturbed:
  assumes "undisturbed e" "map_ok w"
  shows "\<exists>wi' w' db' e'. walCheckpoint fdata eMode xBusy sync (True, True) wi w db e = (SQLITE_OK, wi', w', db', e') \<and> mxFrame w \<le> nBackfill wi'"
proof (cases "nBackfill wi \<ge> mxFrame w")
  case True
  then show ?thesis by (simp add: walCheckpoint_def)
next
  case False
  let ?xb = "eMode \<noteq> SQLITE_CHECKPOINT_PASSIVE \<and> xBusy"
  obtain q w1 where i: "walIteratorInit wi w (True, True) = (SQLITE_OK, Some q, w1)" "w_hdr w1 = w_hdr w" using undisturbed_init [OF assms(2)] by blast
  obtain wi2 e2 where s: "safe_loop [1..<WAL_NREADER] SQLITE_OK wi e (mxFrame w1) ?xb = (False, SQLITE_OK, wi2, e2, mxFrame w1, ?xb)"
    "undisturbed e2" "same_index wi wi2" using undisturbed_safe [OF assms(1), of "[1..<WAL_NREADER]" wi "mxFrame w1" ?xb] by blast
  obtain e3 where l: "walBusyLock e2 ?xb (WAL_READ_LOCK 0) 1 = (SQLITE_OK, e3)" "undisturbed e3" using undisturbed_lock [OF s(2)] by blast
  obtain db4 e4 where b: "backfill fdata sync q (mxFrame w1) (h_nPage (w_hdr w1)) wi2 w1 db e3 = (SQLITE_OK, wi2\<lparr>nBackfill := mxFrame w1\<rparr>, db4, e4)"
    "undisturbed e4" using undisturbed_backfill [OF l(2)] by blast
  obtain e5 where r: "walBusyLock e4 ?xb (WAL_READ_LOCK 1) (WAL_NREADER - 1) = (SQLITE_OK, e5)" using undisturbed_lock [OF b(2)] by blast
  have n: "nBackfill wi2 < mxFrame w1" using False s(3) i(2) by (simp add: same_index_def)
  show ?thesis unfolding walCheckpoint_def using False i s(1) l(1) b(1) r n
    by (cases "eMode = SQLITE_CHECKPOINT_RESTART") (simp_all add: Let_def)
qed

text \<open>C36: A checkpoint makes progress. Without readers and failures it succeeds and counts every frame of the snapshot of its connection as
  copied, in all three modes.\<close>

theorem checkpoint_completes:
  assumes "undisturbed e" "map_ok w"
  shows "\<exists>wi' w' db' e'. walCheckpoint fdata eMode xBusy sync (True, True) wi w db e = (SQLITE_OK, wi', w', db', e') \<and> mxFrame w \<le> nBackfill wi'"
  using assms by (rule walCheckpoint_undisturbed)

section \<open>Witnesses\<close>

definition sample_env :: "int \<Rightarrow> wal_env" where
  "sample_env rc = \<lparr>we_exclusive = False, we_lock = (\<lambda>_ _ _. rc), we_time = 0, we_busy = [], we_io = [], we_torn = []\<rparr>"

lemma sample_env_simps: "undisturbed (sample_env SQLITE_OK)" "holds_slot (sample_env SQLITE_BUSY) k"
  by (simp_all add: sample_env_def undisturbed_def holds_slot_def)

definition sample_conn :: Wal where
  "sample_conn = (sample_wal 1)\<lparr>w_hdr := sample_hdr\<lparr>h_mxFrame := 1, h_nPage := 7\<rparr>\<rparr>"

lemma sample_conn_simps [simp]:
  "mxFrame sample_conn = 1" "h_nPage (w_hdr sample_conn) = 7" "map_ok sample_conn" "readLock sample_conn = 1" "wal_usable sample_conn"
  by (simp_all add: sample_conn_def sample_wal_def map_ok_def wal_usable_def)

lemma sample_rep:
  "\<exists>wi. wal_rep wi [7] \<and> h_mxFrame (wi_hdr wi) = 1 \<and> nBackfill wi = 0 \<and> aReadMark wi = [0, 1, 0xffffffff, 0xffffffff, 0xffffffff]"
proof -
  obtain wi where "wal_rep wi [7]" using sample_append by blast
  then have "wal_rep (wi\<lparr>wi_hdr := w_hdr sample_conn, nBackfill := 0, aReadMark := [0, 1, 0xffffffff, 0xffffffff, 0xffffffff]\<rparr>) [7]"
    by (simp add: wal_rep_def)
  moreover have "h_mxFrame (w_hdr sample_conn) = 1" by simp
  ultimately show ?thesis by fastforce
qed

theorem walMergesort_keeps_latest_witness:
  "walMergesort (\<lambda>i. [7, 3, 7] ! i) [0, 1, 2] = ([1, 2, 2], 2) \<and> sorted_wrt (\<lambda>i j. [7, 3, 7 :: nat] ! i < [7, 3, 7] ! j) (take 2 [1, 2, 2])"
proof -
  have e: "walMergesort (\<lambda>i. [7, 3, 7] ! i) [0, 1, 2] = ([1, 2, 2], 2)" by code_simp
  from walMergesort_keeps_latest [OF _ _ e] e show ?thesis by simp
qed

theorem checkpoint_invisible_witness:
  "\<exists>wi rc wi' w' db' e'. wal_rep wi [7] \<and>
     walCheckpoint (\<lambda>_. [5]) SQLITE_CHECKPOINT_PASSIVE False True (True, True) wi sample_conn (\<lambda>_. []) (sample_env SQLITE_BUSY) = (rc, wi', w', db', e') \<and>
     seen (wal_lookup wi' sample_conn) (\<lambda>_. [5]) db' 7 = [5]"
proof -
  obtain wi where wi: "wal_rep wi [7]" "h_mxFrame (wi_hdr wi) = 1" "aReadMark wi = [0, 1, 0xffffffff, 0xffffffff, 0xffffffff]" using sample_rep by blast
  obtain rc wi' w' db' e' where c: "walCheckpoint (\<lambda>_. [5]) SQLITE_CHECKPOINT_PASSIVE False True (True, True) wi sample_conn (\<lambda>_. []) (sample_env SQLITE_BUSY) =
      (rc, wi', w', db', e')" by (metis prod.exhaust)
  have "seen (wal_lookup wi' sample_conn) (\<lambda>_. [5]) db' 7 = seen (wal_lookup wi sample_conn) (\<lambda>_. [5]) (\<lambda>_. []) 7"
    by (rule checkpoint_invisible [OF wi(1) _ _ _ _ _ _ _ _ _ _ c]) (simp_all add: wi sample_env_simps)
  also have "\<dots> = [5]" using walk.lookup_latest [OF wi(1), of sample_conn 7] by (simp add: seen_def)
  finally show ?thesis using wi(1) c by blast
qed

theorem checkpoint_backfills_witness:
  "\<exists>wi wi' w' db' e'. wal_rep wi [7] \<and>
     walCheckpoint (\<lambda>_. [5]) SQLITE_CHECKPOINT_PASSIVE False True (True, True) wi sample_conn (\<lambda>_. []) (sample_env SQLITE_OK) = (SQLITE_OK, wi', w', db', e') \<and>
     db' 7 = [5] \<and> db' 6 = []"
proof -
  obtain wi where wi: "wal_rep wi [7]" "nBackfill wi = 0" using sample_rep by blast
  obtain wi' w' db' e' where c: "walCheckpoint (\<lambda>_. [5]) SQLITE_CHECKPOINT_PASSIVE False True (True, True) wi sample_conn (\<lambda>_. []) (sample_env SQLITE_OK) =
      (SQLITE_OK, wi', w', db', e')" "mxFrame sample_conn \<le> nBackfill wi'"
    using walCheckpoint_undisturbed [OF sample_env_simps(1), of sample_conn] by (metis sample_conn_simps(3))
  have "db' p = (if latest [7] (mxFrame sample_conn) p = 0 then [] else [5])" if "p \<le> 7" for p
    using checkpoint_backfills [OF wi(1) _ _ _ c(1), of p] that wi(2) c(2) latest_le [of "[7]" 1 p] by simp
  from this [of 7] this [of 6] show ?thesis using wi(1) c(1) by auto
qed

theorem checkpoint_completes_witness:
  "\<exists>wi' w' db' e'. walCheckpoint (\<lambda>_. [5]) SQLITE_CHECKPOINT_RESTART False True (True, True) sample_index sample_conn (\<lambda>_. []) (sample_env SQLITE_OK) =
     (SQLITE_OK, wi', w', db', e') \<and> 1 \<le> nBackfill wi'"
  using checkpoint_completes [OF sample_env_simps(1), of sample_conn] by simp

end
