(* ===== verification/Wal_File.thy ===== *)
theory Wal_File
  imports Wal_Checkpoint "HOL-Library.Sublist"
begin

text \<open>
  The file of the write-ahead log (wal.c): checksums, the encoding of frames, the writing of frames with synchronisation
  points and padding, and the recovery of the index from the file.

  A file is a list of bytes. The result codes of the file operations come from the environment \<open>wal_env\<close>; a failed
  write leaves other bytes in the range that was to be written. A page to be written is its number and its content. The
  machine is little-endian.
\<close>

section \<open>Checksums and frames\<close>

definition read32 :: "bool \<Rightarrow> u8 list \<Rightarrow> u32" where
  "read32 nativeCksum p = (if nativeCksum then sqlite3Get4byte [p ! 3, p ! 2, p ! 1, p ! 0] else sqlite3Get4byte p)"

function cksum_loop :: "bool \<Rightarrow> u8 list \<Rightarrow> u32 \<times> u32 \<Rightarrow> u32 \<times> u32" where
  "cksum_loop nativeCksum a s =
     (let s1 = fst s + (read32 nativeCksum a + snd s);
          s2 = snd s + (read32 nativeCksum (drop 4 a) + s1)
      in if length a > 8 then cksum_loop nativeCksum (drop 8 a) (s1, s2) else (s1, s2))"
  by pat_completeness auto
termination by (relation "measure (\<lambda>(n, a, s). length a)") auto

declare cksum_loop.simps [simp del]

text \<open>Without an initial value the checksum starts from zero.\<close>

definition walChecksumBytes :: "bool \<Rightarrow> u8 list \<Rightarrow> (u32 \<times> u32) option \<Rightarrow> u32 \<times> u32" where
  "walChecksumBytes nativeCksum a aIn = cksum_loop nativeCksum a (case aIn of None \<Rightarrow> (0, 0) | Some s \<Rightarrow> s)"

abbreviation put4 :: "u32 \<Rightarrow> u8 list" where "put4 v \<equiv> sqlite3Put4byte [0, 0, 0, 0] v"

abbreviation (input) SQLITE_BIGENDIAN :: nat where "SQLITE_BIGENDIAN \<equiv> 0"
abbreviation (input) WAL_MAGIC :: u32 where "WAL_MAGIC \<equiv> 0x377f0682"
abbreviation (input) WAL_MAX_VERSION :: u32 where "WAL_MAX_VERSION \<equiv> 3007000"
abbreviation (input) SQLITE_CANTOPEN :: int where "SQLITE_CANTOPEN \<equiv> 14"

abbreviation set_cksum :: "u32 \<times> u32 \<Rightarrow> Wal \<Rightarrow> Wal" where
  "set_cksum c w \<equiv> w\<lparr>w_hdr := (w_hdr w)\<lparr>h_aFrameCksum := c\<rparr>\<rparr>"

definition walEncodeFrame :: "Wal \<Rightarrow> nat \<Rightarrow> nat \<Rightarrow> u8 list \<Rightarrow> u8 list \<times> Wal" where
  "walEncodeFrame w iPage nTruncate aData =
     (let aFrame = put4 (of_nat iPage) @ put4 (of_nat nTruncate) @ h_aSalt (w_hdr w);
          nativeCksum = (h_bigEndCksum (w_hdr w) = SQLITE_BIGENDIAN);
          aCksum = walChecksumBytes nativeCksum (take 8 aFrame) (Some (h_aFrameCksum (w_hdr w)));
          aCksum = walChecksumBytes nativeCksum (take (szPage w) aData) (Some aCksum)
      in (aFrame @ put4 (fst aCksum) @ put4 (snd aCksum), set_cksum aCksum w))"

definition walDecodeFrame :: "Wal \<Rightarrow> u8 list \<Rightarrow> u8 list \<Rightarrow> (nat \<times> nat) option \<times> Wal" where
  "walDecodeFrame w aData aFrame =
     (if h_aSalt (w_hdr w) \<noteq> take 8 (drop 8 aFrame) then (None, w)
      else
        (let pgno = sqlite3Get4byte aFrame in
         if pgno = 0 then (None, w)
         else
           (let nativeCksum = (h_bigEndCksum (w_hdr w) = SQLITE_BIGENDIAN);
                aCksum = walChecksumBytes nativeCksum (take 8 aFrame) (Some (h_aFrameCksum (w_hdr w)));
                aCksum = walChecksumBytes nativeCksum (take (szPage w) aData) (Some aCksum);
                w = set_cksum aCksum w
            in if fst aCksum \<noteq> sqlite3Get4byte (drop 16 aFrame) \<or> snd aCksum \<noteq> sqlite3Get4byte (drop 20 aFrame) then (None, w)
               else (Some (unat pgno, unat (sqlite3Get4byte (drop 4 aFrame))), w))))"

section \<open>Writing\<close>

text \<open>A log file with the fields of the connection that belong to it.\<close>

record wal_file =
  wf_bytes :: "u8 list"
  mxWalSize :: int
  truncateOnCommit :: bool
  syncHeader :: bool
  padToSectorBoundary :: bool
  sectorSize :: nat

definition write_at :: "u8 list \<Rightarrow> nat \<Rightarrow> u8 list \<Rightarrow> u8 list" where
  "write_at f iOffset xs = take iOffset (f @ replicate (iOffset - length f) 0) @ xs @ drop (iOffset + length xs) f"

definition os_write :: "u8 list \<Rightarrow> nat \<Rightarrow> u8 list \<Rightarrow> wal_env \<Rightarrow> int \<times> u8 list \<times> wal_env" where
  "os_write f iOffset xs e =
     (let (rc, e) = io_op e in (rc, write_at f iOffset (if rc = SQLITE_OK then xs else take (length xs) (we_torn e)), e))"

definition walFrameOffset :: "nat \<Rightarrow> nat \<Rightarrow> nat" where
  "walFrameOffset iFrame sz = 32 + (iFrame - 1) * (sz + 24)"

definition walWriteToLog :: "nat \<Rightarrow> u8 list \<Rightarrow> nat \<Rightarrow> u8 list \<Rightarrow> wal_env \<Rightarrow> int \<times> u8 list \<times> wal_env" where
  "walWriteToLog iSyncPoint pContent iOffset f e =
     (if iOffset < iSyncPoint \<and> iOffset + length pContent \<ge> iSyncPoint then
        (let iFirstAmt = iSyncPoint - iOffset; (rc, f, e) = os_write f iOffset (take iFirstAmt pContent) e in
         if rc \<noteq> SQLITE_OK then (rc, f, e)
         else
           (let iOffset = iOffset + iFirstAmt; pContent = drop iFirstAmt pContent; (rc, e) = io_op e in
            if pContent = [] \<or> rc \<noteq> SQLITE_OK then (rc, f, e) else os_write f iOffset pContent e))
      else os_write f iOffset pContent e)"

definition walWriteOneFrame :: "nat \<Rightarrow> Wal \<Rightarrow> nat \<times> u8 list \<Rightarrow> nat \<Rightarrow> nat \<Rightarrow> u8 list \<Rightarrow> wal_env \<Rightarrow> int \<times> Wal \<times> u8 list \<times> wal_env" where
  "walWriteOneFrame iSyncPoint w pPage nTruncate iOffset f e =
     (let (aFrame, w) = walEncodeFrame w (fst pPage) nTruncate (snd pPage);
          (rc, f, e) = walWriteToLog iSyncPoint aFrame iOffset f e
      in if rc \<noteq> SQLITE_OK then (rc, w, f, e)
         else let (rc, f, e) = walWriteToLog iSyncPoint (snd pPage) (iOffset + 24) f e in (rc, w, f, e))"

text \<open>The loop over the list of pages; the last frame of a commit carries the size of the database.\<close>

fun frames_loop :: "(nat \<times> u8 list) list \<Rightarrow> nat \<Rightarrow> nat \<Rightarrow> Wal \<Rightarrow> nat \<Rightarrow> u8 list \<Rightarrow> wal_env \<Rightarrow> int \<times> Wal \<times> nat \<times> u8 list \<times> wal_env" where
  "frames_loop [] nTruncate sz w iOffset f e = (SQLITE_OK, w, iOffset, f, e)"
| "frames_loop (p # ps) nTruncate sz w iOffset f e =
     (let nDbSize = (if ps = [] then nTruncate else 0); (rc, w, f, e) = walWriteOneFrame 0 w p nDbSize iOffset f e in
      if rc \<noteq> SQLITE_OK then (rc, w, iOffset, f, e) else frames_loop ps nTruncate sz w (iOffset + (sz + 24)) f e)"

text \<open>The loop that repeats the last frame up to the synchronisation point.\<close>

function pad_loop :: "nat \<times> u8 list \<Rightarrow> nat \<Rightarrow> nat \<Rightarrow> nat \<Rightarrow> Wal \<Rightarrow> nat \<Rightarrow> u8 list \<Rightarrow> wal_env \<Rightarrow> nat \<Rightarrow> int \<times> Wal \<times> u8 list \<times> wal_env \<times> nat" where
  "pad_loop pLast nTruncate sz iSyncPoint w iOffset f e nExtra =
     (if iOffset < iSyncPoint then
        (let (rc, w, f, e) = walWriteOneFrame iSyncPoint w pLast nTruncate iOffset f e in
         if rc \<noteq> SQLITE_OK then (rc, w, f, e, nExtra)
         else pad_loop pLast nTruncate sz iSyncPoint w (iOffset + (sz + 24)) f e (nExtra + 1))
      else (SQLITE_OK, w, f, e, nExtra))"
  by pat_completeness auto
termination by (relation "measure (\<lambda>(p, t, sz, sp, w, off, f, e, n). sp - off)") auto

declare pad_loop.simps [simp del]

fun append_loop :: "nat list \<Rightarrow> nat \<Rightarrow> WalIndex \<Rightarrow> Wal \<Rightarrow> int \<times> nat \<times> WalIndex \<times> Wal" where
  "append_loop [] iFrame wi w = (SQLITE_OK, iFrame, wi, w)"
| "append_loop (p # ps) iFrame wi w =
     (let (rc, wi, w) = walIndexAppend wi w (iFrame + 1) p in
      if rc \<noteq> SQLITE_OK then (rc, iFrame + 1, wi, w) else append_loop ps (iFrame + 1) wi w)"

text \<open>The header of the log.\<close>

definition walHeader :: "nat \<Rightarrow> nat \<Rightarrow> u8 list \<Rightarrow> u8 list \<times> (u32 \<times> u32)" where
  "walHeader sz nCk aSalt =
     (let aWalHdr = put4 (WAL_MAGIC OR of_nat SQLITE_BIGENDIAN) @ put4 WAL_MAX_VERSION @ put4 (of_nat sz) @ put4 (of_nat nCk) @ aSalt;
          aCksum = walChecksumBytes True aWalHdr None
      in (aWalHdr @ put4 (fst aCksum) @ put4 (snd aCksum), aCksum))"

text \<open>The first block of \<open>sqlite3WalFrames\<close>: at the beginning of a log its header is written. \<open>rnd\<close> are eight random bytes.\<close>

definition start_log :: "nat \<Rightarrow> bool \<Rightarrow> u8 list \<Rightarrow> Wal \<Rightarrow> wal_file \<Rightarrow> wal_env \<Rightarrow> int \<times> Wal \<times> wal_file \<times> wal_env" where
  "start_log sz sync_flags rnd w F e =
     (if mxFrame w = 0 then
        (let aSalt = (if nCkpt w = 0 then rnd else h_aSalt (w_hdr w));
             (aWalHdr, aCksum) = walHeader sz (nCkpt w) aSalt;
             w = w\<lparr>szPage := sz, w_hdr := (w_hdr w)\<lparr>h_aSalt := aSalt, h_bigEndCksum := SQLITE_BIGENDIAN, h_aFrameCksum := aCksum\<rparr>\<rparr>;
             F = F\<lparr>truncateOnCommit := True\<rparr>;
             (rc, f, e) = os_write (wf_bytes F) 0 aWalHdr e;
             F = F\<lparr>wf_bytes := f\<rparr>
         in if rc \<noteq> SQLITE_OK then (rc, w, F, e)
            else if syncHeader F \<and> sync_flags then (let (rc, e) = io_op e in (rc, w, F, e))
            else (SQLITE_OK, w, F, e))
      else (SQLITE_OK, w, F, e))"

text \<open>The end of a transaction: padding to a sector or synchronisation, and the truncation of a log that has grown too long.\<close>

definition end_transaction :: "nat \<Rightarrow> nat \<times> u8 list \<Rightarrow> nat \<Rightarrow> bool \<Rightarrow> Wal \<Rightarrow> nat \<Rightarrow> wal_file \<Rightarrow> wal_env \<Rightarrow> int \<times> Wal \<times> wal_file \<times> wal_env \<times> nat" where
  "end_transaction sz pLast nTruncate sync_tx w iOffset F e =
     (if nTruncate \<noteq> 0 \<and> sync_tx then
        (if padToSectorBoundary F then
           (let iSyncPoint = ((iOffset + sectorSize F - 1) div sectorSize F) * sectorSize F;
                (rc, w, f, e, nExtra) = pad_loop pLast nTruncate sz iSyncPoint w iOffset (wf_bytes F) e 0
            in (rc, w, F\<lparr>wf_bytes := f\<rparr>, e, nExtra))
         else let (rc, e) = io_op e in (rc, w, F, e, 0))
      else (SQLITE_OK, w, F, e, 0))"

definition walLimitSize :: "nat \<Rightarrow> wal_file \<Rightarrow> wal_env \<Rightarrow> wal_file \<times> wal_env" where
  "walLimitSize nMax F e =
     (let (rx, e) = io_op e in
      if rx = SQLITE_OK \<and> length (wf_bytes F) > nMax then
        (let (rx, e) = io_op e in (if rx = SQLITE_OK then F\<lparr>wf_bytes := take nMax (wf_bytes F)\<rparr> else F, e))
      else (F, e))"

definition limit_log :: "nat \<Rightarrow> nat \<Rightarrow> nat \<Rightarrow> wal_file \<Rightarrow> wal_env \<Rightarrow> wal_file \<times> wal_env" where
  "limit_log sz nTruncate iNext F e =
     (if nTruncate \<noteq> 0 \<and> truncateOnCommit F \<and> mxWalSize F \<ge> 0 then
        (let n = (if int (walFrameOffset iNext sz) > mxWalSize F then walFrameOffset iNext sz else nat (mxWalSize F));
             (F, e) = walLimitSize n F e
         in (F\<lparr>truncateOnCommit := False\<rparr>, e))
      else (F, e))"

text \<open>\<open>sqlite3WalFrames\<close> after \<open>walRestartLog\<close>, whose work on the index is \<open>restart_log\<close>. \<open>pList\<close> is not empty, and \<open>nTruncate\<close> is not 0
  exactly for a commit.\<close>

definition sqlite3WalFrames :: "nat \<Rightarrow> (nat \<times> u8 list) list \<Rightarrow> nat \<Rightarrow> bool \<Rightarrow> bool \<Rightarrow> u8 list \<Rightarrow> WalIndex \<Rightarrow> Wal \<Rightarrow> wal_file \<Rightarrow> wal_env \<Rightarrow>
    int \<times> WalIndex \<times> Wal \<times> wal_file \<times> wal_env" where
  "sqlite3WalFrames sz pList nTruncate sync_flags sync_tx rnd wi w F e =
     (let (rc, w, F, e) = start_log sz sync_flags rnd w F e in
      if rc \<noteq> SQLITE_OK then (rc, wi, w, F, e)
      else
        (let (rc, w, iOffset, f, e) = frames_loop pList nTruncate sz w (walFrameOffset (mxFrame w + 1) sz) (wf_bytes F) e;
             F = F\<lparr>wf_bytes := f\<rparr>
         in if rc \<noteq> SQLITE_OK then (rc, wi, w, F, e)
            else
              (let (rc, w, F, e, nExtra) = end_transaction sz (last pList) nTruncate sync_tx w iOffset F e in
               if rc \<noteq> SQLITE_OK \<and> padToSectorBoundary F then (rc, wi, w, F, e)
               else
                 (let (F, e) = limit_log sz nTruncate (mxFrame w + length pList + nExtra + 1) F e in
                  if rc \<noteq> SQLITE_OK then (rc, wi, w, F, e)
                  else
                    (let (rc, iFrame, wi, w) = append_loop (map fst pList @ replicate nExtra (fst (last pList))) (mxFrame w) wi w in
                     if rc \<noteq> SQLITE_OK then (rc, wi, w, F, e)
                     else let (wi, w) = frames_done wi w iFrame sz nTruncate in (SQLITE_OK, wi, w, F, e))))))"

section \<open>Recovery\<close>

definition zero_hdr :: WalIndexHdr where
  "zero_hdr = \<lparr>h_iVersion = 0, h_iChange = 0, h_isInit = 0, h_bigEndCksum = 0, h_szPage = 0, h_mxFrame = 0, h_nPage = 0,
     h_aFrameCksum = (0, 0), h_aSalt = replicate 8 0\<rparr>"

text \<open>The loop over the frames. \<open>f\<close> is the rest of the file from the current offset, \<open>ck\<close> the checksum of the last commit.\<close>

function recover_loop :: "nat \<Rightarrow> u8 list \<Rightarrow> nat \<Rightarrow> u32 \<times> u32 \<Rightarrow> WalIndex \<Rightarrow> Wal \<Rightarrow> wal_env \<Rightarrow> int \<times> (u32 \<times> u32) \<times> WalIndex \<times> Wal \<times> wal_env" where
  "recover_loop sz f iFrame ck wi w e =
     (if sz + 24 \<le> length f then
        (let (rc, e) = io_op e in
         if rc \<noteq> SQLITE_OK then (rc, ck, wi, w, e)
         else
           (let (r, w) = walDecodeFrame w (take sz (drop 24 f)) (take 24 f) in
            case r of
              None \<Rightarrow> (SQLITE_OK, ck, wi, w, e)
            | Some (pgno, nTruncate) \<Rightarrow>
                (let (rc, wi, w) = walIndexAppend wi w (iFrame + 1) pgno in
                 if rc \<noteq> SQLITE_OK then (rc, ck, wi, w, e)
                 else if nTruncate \<noteq> 0 then
                   recover_loop sz (drop (sz + 24) f) (iFrame + 1) (h_aFrameCksum (w_hdr w)) wi
                     (w\<lparr>w_hdr := (w_hdr w)\<lparr>h_mxFrame := iFrame + 1, h_nPage := nTruncate, h_szPage := (sz AND 0xff00) OR drop_bit 16 sz\<rparr>\<rparr>) e
                 else recover_loop sz (drop (sz + 24) f) (iFrame + 1) ck wi w e)))
      else (SQLITE_OK, ck, wi, w, e))"
  by pat_completeness auto
termination by (relation "measure (\<lambda>(sz, f, i, ck, wi, w, e). length f)") auto

declare recover_loop.simps [simp del]

text \<open>Reading the file. The first component tells whether the label \<open>finished\<close> is reached.\<close>

definition recover_file :: "bool \<Rightarrow> u8 list \<Rightarrow> WalIndex \<Rightarrow> Wal \<Rightarrow> wal_env \<Rightarrow> bool \<times> int \<times> (u32 \<times> u32) \<times> WalIndex \<times> Wal \<times> wal_env" where
  "recover_file m f wi w e =
     (if length f > 32 then
        (let (rc, e) = io_op e in
         if rc \<noteq> SQLITE_OK then (False, rc, (0, 0), wi, w, e)
         else
           (let aBuf = take 32 f; magic = sqlite3Get4byte aBuf; sz = sqlite3Get4byte (drop 8 aBuf) in
            if magic AND 0xFFFFFFFE \<noteq> WAL_MAGIC \<or> sz AND (sz - 1) \<noteq> 0 \<or> sint sz > 65536 \<or> sint sz < 512 then (True, SQLITE_OK, (0, 0), wi, w, e)
            else
              (let big = unat (magic AND 1); ck = walChecksumBytes (big = SQLITE_BIGENDIAN) (take 24 aBuf) None;
                   w = w\<lparr>szPage := unat sz, nCkpt := unat (sqlite3Get4byte (drop 12 aBuf)),
                         w_hdr := (w_hdr w)\<lparr>h_bigEndCksum := big, h_aSalt := take 8 (drop 16 aBuf), h_aFrameCksum := ck\<rparr>\<rparr>
               in if fst ck \<noteq> sqlite3Get4byte (drop 24 aBuf) \<or> snd ck \<noteq> sqlite3Get4byte (drop 28 aBuf) then (True, SQLITE_OK, (0, 0), wi, w, e)
                  else if sqlite3Get4byte (drop 4 aBuf) \<noteq> WAL_MAX_VERSION then (True, SQLITE_CANTOPEN, (0, 0), wi, w, e)
                  else if \<not> m then (False, SQLITE_NOMEM, (0, 0), wi, w, e)
                  else (True, recover_loop (unat sz) (drop 32 f) 0 (0, 0) wi w e))))
      else (True, SQLITE_OK, (0, 0), wi, w, e))"

definition walIndexRecover :: "bool \<Rightarrow> bool \<Rightarrow> u8 list \<Rightarrow> WalIndex \<Rightarrow> Wal \<Rightarrow> wal_env \<Rightarrow> int \<times> WalIndex \<times> Wal \<times> wal_env" where
  "walIndexRecover ckptLock m f wi w e =
     (let iLock = 1 + (if ckptLock then 1 else 0); (rc, e) = walLockExclusive e iLock (8 - iLock) in
      if rc \<noteq> SQLITE_OK then (rc, wi, w, e)
      else
        (let w = w\<lparr>w_hdr := zero_hdr\<rparr>; (rc, e) = io_op e in
         if rc \<noteq> SQLITE_OK then (rc, wi, w, e)
         else
           (let (fin, rc, ck, wi, w, e) = recover_file m f wi w e in
            if fin \<and> rc = SQLITE_OK then
              (let (wi, w) = walIndexWriteHdr wi (set_cksum ck w);
                   wi = wi\<lparr>nBackfill := 0,
                           aReadMark := [0, if mxFrame w \<noteq> 0 then mxFrame w else READMARK_NOT_USED, READMARK_NOT_USED, READMARK_NOT_USED, READMARK_NOT_USED]\<rparr>
               in (SQLITE_OK, wi, w, e))
            else (rc, wi, w, e))))"

section \<open>The log as a list of frames\<close>

type_synonym frame = "nat \<times> nat \<times> u8 list"

text \<open>The bytes of a frame that follows a log with checksum \<open>c\<close>, and the checksum after it. A frame is a page number, the size of the
  database after a commit or 0, and the content of the page.\<close>

definition frame_cksum :: "u8 list \<Rightarrow> u32 \<times> u32 \<Rightarrow> frame \<Rightarrow> u32 \<times> u32" where
  "frame_cksum salt c x =
     walChecksumBytes True (snd (snd x)) (Some (walChecksumBytes True (put4 (of_nat (fst x)) @ put4 (of_nat (fst (snd x)))) (Some c)))"

definition frame_bytes :: "u8 list \<Rightarrow> u32 \<times> u32 \<Rightarrow> frame \<Rightarrow> u8 list" where
  "frame_bytes salt c x =
     put4 (of_nat (fst x)) @ put4 (of_nat (fst (snd x))) @ salt @
     put4 (fst (frame_cksum salt c x)) @ put4 (snd (frame_cksum salt c x)) @ snd (snd x)"

abbreviation log_cksum :: "u8 list \<Rightarrow> u32 \<times> u32 \<Rightarrow> frame list \<Rightarrow> u32 \<times> u32" where
  "log_cksum salt c fr \<equiv> foldl (frame_cksum salt) c fr"

fun log_bytes :: "u8 list \<Rightarrow> u32 \<times> u32 \<Rightarrow> frame list \<Rightarrow> u8 list" where
  "log_bytes salt c [] = []"
| "log_bytes salt c (x # fr) = frame_bytes salt c x @ log_bytes salt (frame_cksum salt c x) fr"

definition wf_frame :: "nat \<Rightarrow> frame \<Rightarrow> bool" where
  "wf_frame sz x \<longleftrightarrow> 0 < fst x \<and> fst x < 2 ^ 32 \<and> fst (snd x) < 2 ^ 32 \<and> length (snd (snd x)) = sz"

text \<open>The number of frames up to the last commit.\<close>

definition last_commit :: "frame list \<Rightarrow> nat" where
  "last_commit fr = length (dropWhile (\<lambda>x. fst (snd x) = 0) (rev fr))"

lemma last_commit_snoc [simp]: "last_commit (fr @ [x]) = (if fst (snd x) = 0 then last_commit fr else Suc (length fr))"
  by (simp add: last_commit_def)

lemma last_commit_Nil [simp]: "last_commit [] = 0" by (simp add: last_commit_def)

lemma last_commit_le: "last_commit fr \<le> length fr"
  using length_dropWhile_le [of _ "rev fr"] by (simp add: last_commit_def)

lemma log_bytes_append: "log_bytes salt c (fr @ fr') = log_bytes salt c fr @ log_bytes salt (log_cksum salt c fr) fr'"
  by (induction fr arbitrary: c) simp_all

section \<open>Lemmas: encoding\<close>

lemma length_put4 [simp]: "length (put4 v) = 4" by (simp add: sqlite3Put4byte_def)

lemma get4_put4 [simp]: "sqlite3Get4byte (put4 v @ xs) = v"
  using sqlite3Get4byte_Put4byte [of "[0, 0, 0, 0]" v] by (simp add: sqlite3Get4byte_def sqlite3Put4byte_def)

lemma get4_put4_alone [simp]: "sqlite3Get4byte (put4 v) = v"
  using get4_put4 [of v "[]"] by simp

lemma get4_take [simp]: "4 \<le> n \<Longrightarrow> 4 \<le> length xs \<Longrightarrow> sqlite3Get4byte (take n xs) = sqlite3Get4byte xs"
  by (simp add: sqlite3Get4byte_def)

lemma unat_of_nat_u32 [simp]: "n < 4294967296 \<Longrightarrow> unat (of_nat n :: u32) = n"
  by (simp add: unat_of_nat take_bit_eq_mod)

lemma of_nat_u32_eq_0: "n < 4294967296 \<Longrightarrow> (of_nat n :: u32) = 0 \<longleftrightarrow> n = 0"
proof
  assume n: "n < 4294967296" and z: "(of_nat n :: u32) = 0"
  from z have "unat (of_nat n :: u32) = 0" by (simp only: unsigned_0)
  then show "n = 0" unfolding unat_of_nat_u32 [OF n] .
qed simp

lemma take_put4s: "take 8 (put4 a @ put4 b @ xs) = put4 a @ put4 b"
  by simp

lemma length_frame_bytes: "length salt = 8 \<Longrightarrow> wf_frame sz x \<Longrightarrow> length (frame_bytes salt c x) = sz + 24"
  by (simp add: frame_bytes_def wf_frame_def)

lemma length_log_bytes: "length salt = 8 \<Longrightarrow> \<forall>x\<in>set fr. wf_frame sz x \<Longrightarrow> length (log_bytes salt c fr) = length fr * (sz + 24)"
  by (induction fr arbitrary: c) (simp_all add: length_frame_bytes)

text \<open>A connection that writes or reads the log, with the current checksum.\<close>

definition conn_at :: "nat \<Rightarrow> u8 list \<Rightarrow> u32 \<times> u32 \<Rightarrow> Wal \<Rightarrow> bool" where
  "conn_at sz salt c w \<longleftrightarrow> szPage w = sz \<and> h_bigEndCksum (w_hdr w) = SQLITE_BIGENDIAN \<and> h_aSalt (w_hdr w) = salt \<and>
     h_aFrameCksum (w_hdr w) = c \<and> length salt = 8"

lemma encode_frame:
  assumes "conn_at sz salt c w" "length d = sz"
  shows "walEncodeFrame w p t d = (take 24 (frame_bytes salt c (p, t, d)), set_cksum (frame_cksum salt c (p, t, d)) w)"
proof -
  have "take (szPage w) d = d" using assms by (simp add: conn_at_def)
  then show ?thesis using assms
    by (simp add: walEncodeFrame_def Let_def conn_at_def frame_bytes_def frame_cksum_def)
qed

lemma decode_frame:
  assumes "conn_at sz salt c w" "wf_frame sz x"
  shows "walDecodeFrame w (snd (snd x)) (take 24 (frame_bytes salt c x)) = (Some (fst x, fst (snd x)), set_cksum (frame_cksum salt c x) w)"
proof -
  have "take (szPage w) (snd (snd x)) = snd (snd x)" using assms by (simp add: conn_at_def wf_frame_def)
  moreover have "(of_nat (fst x) :: u32) \<noteq> 0" using assms(2) of_nat_u32_eq_0 [of "fst x"] by (simp add: wf_frame_def)
  ultimately show ?thesis using assms
    by (simp add: walDecodeFrame_def Let_def conn_at_def frame_bytes_def frame_cksum_def wf_frame_def)
qed

text \<open>A frame header written by \<open>walEncodeFrame\<close> is accepted by \<open>walDecodeFrame\<close> in the same state of the connection, with either byte order of
  the checksums: it returns the page number and the size of the database, and both leave the same running checksum.\<close>

theorem frame_roundtrip:
  assumes "walEncodeFrame w iPage nTruncate aData = (aFrame, w')" "0 < iPage" "iPage < 2 ^ 32" "nTruncate < 2 ^ 32" "length (h_aSalt (w_hdr w)) = 8"
  shows "walDecodeFrame w aData aFrame = (Some (iPage, nTruncate), w')"
proof -
  have "(of_nat iPage :: u32) \<noteq> 0" using assms(2,3) of_nat_u32_eq_0 [of iPage] by simp
  then show ?thesis using assms by (auto simp: walEncodeFrame_def walDecodeFrame_def Let_def)
qed

section \<open>Lemmas: recovery\<close>

lemma recover_one:
  assumes "conn_at sz salt c w" "wf_frame sz x" "map_ok w" "undisturbed e" "wal_rep wi frames" "length frames = n"
  shows "\<exists>wi' w'. walIndexAppend wi (set_cksum (frame_cksum salt c x) w) (n + 1) (fst x) = (SQLITE_OK, wi', w') \<and> wal_rep wi' (frames @ [fst x]) \<and>
    map_ok w' \<and> conn_at sz salt (frame_cksum salt c x) w' \<and> mxFrame w' = mxFrame w \<and> h_nPage (w_hdr w') = h_nPage (w_hdr w) \<and>
    (\<forall>rest ck. recover_loop sz (frame_bytes salt c x @ rest) n ck wi w e =
      (if fst (snd x) \<noteq> 0 then
         recover_loop sz rest (n + 1) (frame_cksum salt c x) wi'
           (w'\<lparr>w_hdr := (w_hdr w')\<lparr>h_mxFrame := n + 1, h_nPage := fst (snd x), h_szPage := (sz AND 0xff00) OR drop_bit 16 sz\<rparr>\<rparr>) e
       else recover_loop sz rest (n + 1) ck wi' w' e))"
proof -
  let ?c = "frame_cksum salt c x"
  let ?w = "set_cksum ?c w"
  have "map_ok ?w" using assms(3) by (simp add: map_ok_def)
  then obtain w1 where h: "walHashGet ?w (walFramePage (Suc n)) = (SQLITE_OK, iZero (walFramePage (Suc n)), w1)" "same_conn ?w w1"
    using walHashGet_ok by blast
  have "fst x \<noteq> 0" using assms(2) by (simp add: wf_frame_def)
  from IndexAppend_mapped [OF assms(5) _ _ this h(1)] assms(6) obtain wi' where
    a: "walIndexAppend wi ?w (Suc n) (fst x) = (SQLITE_OK, wi', w1)" "wal_rep wi' (frames @ [fst x])" by auto
  have l: "length (frame_bytes salt c x) = sz + 24" using assms(1,2) length_frame_bytes by (simp add: conn_at_def)
  have tk: "take 24 (frame_bytes salt c x @ rest) = take 24 (frame_bytes salt c x)" for rest using l by simp
  have dr: "take sz (drop 24 (frame_bytes salt c x @ rest)) = snd (snd x)" for rest
    using assms(1,2) by (simp add: frame_bytes_def conn_at_def wf_frame_def)
  have w1: "map_ok w1" "w_hdr w1 = w_hdr ?w" "szPage w1 = szPage ?w" using h(2) by (simp_all add: same_conn_def)
  have ck: "h_aFrameCksum (w_hdr w1) = ?c" using w1 by simp
  have "recover_loop sz (frame_bytes salt c x @ rest) n ck wi w e =
      (if fst (snd x) \<noteq> 0 then
         recover_loop sz rest (n + 1) ?c wi'
           (w1\<lparr>w_hdr := (w_hdr w1)\<lparr>h_mxFrame := n + 1, h_nPage := fst (snd x), h_szPage := (sz AND 0xff00) OR drop_bit 16 sz\<rparr>\<rparr>) e
       else recover_loop sz rest (n + 1) ck wi' w1 e)" for rest ck
    unfolding recover_loop.simps [of sz "frame_bytes salt c x @ rest"] tk dr decode_frame [OF assms(1,2)]
    using l a(1) assms(4) ck by simp
  moreover have "conn_at sz salt ?c w1" using assms(1) w1 by (simp add: conn_at_def)
  ultimately show ?thesis using a w1 unfolding Suc_eq_plus1 by (intro exI [of _ wi'] exI [of _ w1]) simp
qed

definition commit_cksum :: "u8 list \<Rightarrow> u32 \<times> u32 \<Rightarrow> frame list \<Rightarrow> u32 \<times> u32" where
  "commit_cksum salt c fr = (if last_commit fr = 0 then (0, 0) else log_cksum salt c (take (last_commit fr) fr))"

definition commit_size :: "frame list \<Rightarrow> nat" where
  "commit_size fr = (if last_commit fr = 0 then 0 else fst (snd (fr ! (last_commit fr - 1))))"

lemma recover_frames:
  assumes "conn_at sz salt c w" "\<forall>x\<in>set fr. wf_frame sz x" "map_ok w" "undisturbed e" "mxFrame w = 0" "h_nPage (w_hdr w) = 0"
  shows "\<exists>wi' w'. (\<forall>rest. recover_loop sz (log_bytes salt c fr @ rest) 0 (0, 0) wi w e = recover_loop sz rest (length fr) (commit_cksum salt c fr) wi' w' e) \<and>
    wal_rep wi' (map fst fr) \<and> map_ok w' \<and> conn_at sz salt (log_cksum salt c fr) w' \<and> mxFrame w' = last_commit fr \<and> h_nPage (w_hdr w') = commit_size fr"
  using assms(2)
proof (induction fr rule: rev_induct)
  case Nil
  then show ?case using assms by (intro exI [of _ wi] exI [of _ w]) (simp add: commit_cksum_def commit_size_def)
next
  case (snoc x fr)
  let ?c = "log_cksum salt c fr"
  from snoc obtain wi1 w1 where i: "\<And>rest. recover_loop sz (log_bytes salt c fr @ rest) 0 (0, 0) wi w e = recover_loop sz rest (length fr) (commit_cksum salt c fr) wi1 w1 e"
    "wal_rep wi1 (map fst fr)" "map_ok w1" "conn_at sz salt ?c w1" "mxFrame w1 = last_commit fr" "h_nPage (w_hdr w1) = commit_size fr" by auto
  have x: "wf_frame sz x" using snoc.prems by simp
  let ?cx = "frame_cksum salt ?c x"
  obtain wi2 w2 where s: "walIndexAppend wi1 (set_cksum ?cx w1) (length fr + 1) (fst x) = (SQLITE_OK, wi2, w2)" "wal_rep wi2 (map fst fr @ [fst x])"
    "map_ok w2" "conn_at sz salt ?cx w2" "mxFrame w2 = mxFrame w1" "h_nPage (w_hdr w2) = h_nPage (w_hdr w1)"
    and loop: "\<And>rest ck. recover_loop sz (frame_bytes salt ?c x @ rest) (length fr) ck wi1 w1 e =
      (if fst (snd x) \<noteq> 0 then
         recover_loop sz rest (length fr + 1) ?cx wi2
           (w2\<lparr>w_hdr := (w_hdr w2)\<lparr>h_mxFrame := length fr + 1, h_nPage := fst (snd x), h_szPage := (sz AND 0xff00) OR drop_bit 16 sz\<rparr>\<rparr>) e
       else recover_loop sz rest (length fr + 1) ck wi2 w2 e)"
    using recover_one [OF i(4) x i(3) assms(4) i(2) length_map] by blast
  show ?case
  proof (cases "fst (snd x) = 0")
    case True
    have "commit_cksum salt c (fr @ [x]) = commit_cksum salt c fr" "commit_size (fr @ [x]) = commit_size fr"
      using True last_commit_le [of fr] by (auto simp: commit_cksum_def commit_size_def nth_append)
    then show ?thesis using True i s loop by (intro exI [of _ wi2] exI [of _ w2]) (simp add: log_bytes_append)
  next
    case False
    let ?w = "w2\<lparr>w_hdr := (w_hdr w2)\<lparr>h_mxFrame := length fr + 1, h_nPage := fst (snd x), h_szPage := (sz AND 0xff00) OR drop_bit 16 sz\<rparr>\<rparr>"
    have "commit_cksum salt c (fr @ [x]) = ?cx" "commit_size (fr @ [x]) = fst (snd x)"
      using False by (auto simp: commit_cksum_def commit_size_def)
    moreover have "map_ok ?w" "conn_at sz salt ?cx ?w" using s(3,4) by (simp_all add: map_ok_def conn_at_def)
    ultimately show ?thesis using False i(1) s(2) loop by (intro exI [of _ wi2] exI [of _ ?w]) (simp add: log_bytes_append)
  qed
qed

text \<open>What stops the loop: the rest of a frame, or a frame with another salt, as those left over from before the log was restarted.\<close>

definition log_ends :: "nat \<Rightarrow> u8 list \<Rightarrow> u8 list \<Rightarrow> bool" where
  "log_ends sz salt rest \<longleftrightarrow> length rest < sz + 24 \<or> take 8 (drop 8 rest) \<noteq> salt"

lemma recover_end:
  assumes "log_ends sz salt rest" "conn_at sz salt c w" "undisturbed e"
  shows "recover_loop sz rest n ck wi w e = (SQLITE_OK, ck, wi, w, e)"
proof (cases "length rest < sz + 24")
  case True
  then show ?thesis by (simp add: recover_loop.simps [of sz rest])
next
  case False
  then have "take 8 (drop 8 (take 24 rest)) \<noteq> salt" using assms(1) by (simp add: log_ends_def drop_take min_def)
  then have "walDecodeFrame w d (take 24 rest) = (None, w)" for d
    using assms(2) by (auto simp: walDecodeFrame_def conn_at_def)
  then show ?thesis using False assms(3) by (simp add: recover_loop.simps [of sz rest])
qed

definition valid_page_size :: "nat \<Rightarrow> bool" where
  "valid_page_size sz \<longleftrightarrow> (\<exists>k. 9 \<le> k \<and> k \<le> 16 \<and> sz = 2 ^ k)"

lemma valid_page_size_cases:
  assumes "valid_page_size sz"
  shows "sz \<in> {512, 1024, 2048, 4096, 8192, 16384, 32768, 65536}"
proof -
  obtain k where k: "9 \<le> k" "k \<le> 16" "sz = 2 ^ k" using assms by (auto simp: valid_page_size_def)
  then have "k \<in> {9, 10, 11, 12, 13, 14, 15, 16}" by auto
  then show ?thesis using k(3) by auto
qed

lemma valid_page_size_word:
  assumes "valid_page_size sz"
  shows "(of_nat sz :: u32) AND (of_nat sz - 1) = 0" "sint (of_nat sz :: u32) \<le> 65536" "512 \<le> sint (of_nat sz :: u32)" "unat (of_nat sz :: u32) = sz"
  using valid_page_size_cases [OF assms] by auto

lemma header_fields:
  assumes "walHeader sz nCk salt = (h, c)" "length salt = 8"
  shows "length h = 32" "sqlite3Get4byte h = WAL_MAGIC" "sqlite3Get4byte (drop 4 h) = WAL_MAX_VERSION" "sqlite3Get4byte (drop 8 h) = of_nat sz"
    "sqlite3Get4byte (drop 12 h) = of_nat nCk" "take 8 (drop 16 h) = salt" "sqlite3Get4byte (drop 24 h) = fst c" "sqlite3Get4byte (drop 28 h) = snd c"
    "walChecksumBytes True (take 24 h) None = c"
  using assms by (auto simp: walHeader_def Let_def)

text \<open>What recovery leaves in a connection and the index: the frames, the position of the last commit and its header.\<close>

definition recovered :: "frame list \<Rightarrow> WalIndex \<Rightarrow> Wal \<Rightarrow> bool" where
  "recovered fr wi w \<longleftrightarrow> wal_rep wi (map fst fr) \<and> mxFrame w = last_commit fr \<and> h_nPage (w_hdr w) = commit_size fr"

lemma recover_file_ok:
  assumes "valid_page_size sz" "length salt = 8" "\<forall>x\<in>set fr. wf_frame sz x" "walHeader sz nCk salt = (h, c)" "log_ends sz salt rest"
    "undisturbed e" "map_ok w" "w_hdr w = zero_hdr"
  shows "\<exists>wi' w'. recover_file True (h @ log_bytes salt c fr @ rest) wi w e = (True, SQLITE_OK, commit_cksum salt c fr, wi', w', e) \<and>
    recovered fr wi' w'"
proof -
  note h = header_fields [OF assms(4,2)]
  let ?f = "h @ log_bytes salt c fr @ rest"
  show ?thesis
  proof (cases "length ?f > 32")
    case False
    then have "length (log_bytes salt c fr) = 0" using h(1) by simp
    then have "fr = []" using length_log_bytes [OF assms(2,3), of c] by simp
    moreover have "recover_file True ?f wi w e = (True, SQLITE_OK, (0, 0), wi, w, e)" using False by (simp add: recover_file_def)
    ultimately show ?thesis using assms(8)
      by (intro exI [of _ wi] exI [of _ w]) (simp add: recovered_def commit_cksum_def commit_size_def zero_hdr_def)
  next
    case True
    let ?w = "w\<lparr>szPage := sz, nCkpt := unat (of_nat nCk :: u32), w_hdr := (w_hdr w)\<lparr>h_bigEndCksum := 0, h_aSalt := salt, h_aFrameCksum := c\<rparr>\<rparr>"
    have tk: "take 32 ?f = h" "drop 32 ?f = log_bytes salt c fr @ rest" using h(1) by simp_all
    have io: "io_op e = (SQLITE_OK, e)" using assms(6) by simp
    have r: "recover_file True ?f wi w e = (True, recover_loop sz (log_bytes salt c fr @ rest) 0 (0, 0) wi ?w e)"
      unfolding recover_file_def tk io Let_def using True h valid_page_size_word [OF assms(1)] by simp
    have w: "conn_at sz salt c ?w" "map_ok ?w" "mxFrame ?w = 0" "h_nPage (w_hdr ?w) = 0"
      using assms(2,7,8) by (simp_all add: conn_at_def map_ok_def zero_hdr_def)
    from recover_frames [OF w(1) assms(3) w(2) assms(6) w(3,4)] obtain wi' w' where
      "\<And>t. recover_loop sz (log_bytes salt c fr @ t) 0 (0, 0) wi ?w e = recover_loop sz t (length fr) (commit_cksum salt c fr) wi' w' e"
      "wal_rep wi' (map fst fr)" "conn_at sz salt (log_cksum salt c fr) w'" "mxFrame w' = last_commit fr" "h_nPage (w_hdr w') = commit_size fr" by blast
    then show ?thesis using r recover_end [OF assms(5) _ assms(6)] by (auto simp: recovered_def)
  qed
qed

lemma walIndexRecover_ok:
  assumes "valid_page_size sz" "length salt = 8" "\<forall>x\<in>set fr. wf_frame sz x" "walHeader sz nCk salt = (h, c)" "log_ends sz salt rest"
    "undisturbed e" "map_ok w"
  shows "\<exists>wi' w' e'. walIndexRecover ckptLock True (h @ log_bytes salt c fr @ rest) wi w e = (SQLITE_OK, wi', w', e') \<and>
    recovered fr wi' w' \<and> wi_hdr wi' = w_hdr w' \<and> h_aFrameCksum (w_hdr w') = commit_cksum salt c fr \<and> h_isInit (wi_hdr wi') = 1 \<and> nBackfill wi' = 0"
proof -
  let ?i = "1 + (if ckptLock then 1 else 0 :: nat)" and ?w = "w\<lparr>w_hdr := zero_hdr\<rparr>"
  have "\<exists>e1. walLockExclusive e a b = (SQLITE_OK, e1) \<and> undisturbed e1" for a b
    using assms(6) by (cases "we_exclusive e") (auto simp: walLockExclusive_def undisturbed_def)
  then obtain e1 where l: "walLockExclusive e ?i (8 - ?i) = (SQLITE_OK, e1)" "undisturbed e1" by blast
  have "map_ok ?w" using assms(7) by (simp add: map_ok_def)
  from recover_file_ok [OF assms(1-5) l(2) this, of wi] obtain wi' w' where
    r: "recover_file True (h @ log_bytes salt c fr @ rest) wi ?w e1 = (True, SQLITE_OK, commit_cksum salt c fr, wi', w', e1)" "recovered fr wi' w'" by auto
  have io: "io_op e1 = (SQLITE_OK, e1)" using l(2) by simp
  show ?thesis unfolding walIndexRecover_def Let_def l(1) prod.case io r(1)
    using r(2) by (simp add: recovered_def walIndexWriteHdr_def Let_def wal_rep_def)
qed

text \<open>C12: Recovery after a crash. From a log that was cut inside a frame, or is followed by frames of an older generation, the index is rebuilt so that
  every connection finds for each page its latest frame among the committed transactions: what was committed is found, and what was not is ignored.\<close>

theorem recover_committed:
  assumes "valid_page_size sz" "length salt = 8" "\<forall>x\<in>set fr. wf_frame sz x" "walHeader sz nCk salt = (h, c)" "log_ends sz salt rest"
    "undisturbed e" "map_ok w" "walIndexRecover ckptLock True (h @ log_bytes salt c fr @ rest) wi w e = (rc, wi', w', e')"
    "w_hdr r = wi_hdr wi'" "wal_usable r"
  shows "wal_lookup wi' r p = latest (map fst fr) (last_commit fr) p"
proof -
  from walIndexRecover_ok [OF assms(1-7), of ckptLock wi] assms(8) have "recovered fr wi' w'" "wi_hdr wi' = w_hdr w'" by auto
  then show ?thesis using walk.lookup_latest [of wi' "map fst fr" r p] assms(9,10) last_commit_le [of fr] by (simp add: recovered_def)
qed

text \<open>Recovery succeeds when no operation of the system fails, and publishes a header with the number of committed frames, the size of the
  database after the last commit and the checksum from which the log is continued.\<close>

theorem recover_publishes:
  assumes "valid_page_size sz" "length salt = 8" "\<forall>x\<in>set fr. wf_frame sz x" "walHeader sz nCk salt = (h, c)" "log_ends sz salt rest"
    "undisturbed e" "map_ok w" "walIndexRecover ckptLock True (h @ log_bytes salt c fr @ rest) wi w e = (rc, wi', w', e')"
  shows "rc = SQLITE_OK \<and> h_mxFrame (wi_hdr wi') = last_commit fr \<and> h_nPage (wi_hdr wi') = commit_size fr \<and>
    h_aFrameCksum (wi_hdr wi') = commit_cksum salt c fr \<and> wi_hdr wi' = w_hdr w'"
  using walIndexRecover_ok [OF assms(1-7), of ckptLock wi] assms(8) by (auto simp: recovered_def)

section \<open>Lemmas: writing\<close>

text \<open>A file begins with the log of the given frames, and the connection is about to continue it.\<close>

definition log_written :: "nat \<Rightarrow> nat \<Rightarrow> u8 list \<Rightarrow> frame list \<Rightarrow> u8 list \<Rightarrow> Wal \<Rightarrow> bool" where
  "log_written sz nCk salt fr f w \<longleftrightarrow>
     (let (h, c) = walHeader sz nCk salt in
      prefix (h @ log_bytes salt c fr) f \<and> conn_at sz salt (log_cksum salt c fr) w \<and> (\<forall>x\<in>set fr. wf_frame sz x))"

fun tx_frames :: "nat \<Rightarrow> (nat \<times> u8 list) list \<Rightarrow> frame list" where
  "tx_frames nTruncate [] = []"
| "tx_frames nTruncate (p # ps) = (fst p, if ps = [] then nTruncate else 0, snd p) # tx_frames nTruncate ps"

definition wf_page :: "nat \<Rightarrow> nat \<times> u8 list \<Rightarrow> bool" where
  "wf_page sz p \<longleftrightarrow> 0 < fst p \<and> fst p < 2 ^ 32 \<and> length (snd p) = sz"

lemma length_tx_frames [simp]: "length (tx_frames t ps) = length ps" by (induction ps) simp_all

lemma map_tx_frames [simp]: "map fst (tx_frames t ps) = map fst ps" by (induction ps) simp_all

lemma last_tx_frames: "ps \<noteq> [] \<Longrightarrow> last (tx_frames t ps) = (fst (last ps), t, snd (last ps))"
proof (induction ps)
  case (Cons p ps)
  then show ?case by (cases ps) simp_all
qed simp

text \<open>Writing changes nothing in a connection but its checksum.\<close>

definition cksum_moved :: "Wal \<Rightarrow> Wal \<Rightarrow> bool" where
  "cksum_moved w w' \<longleftrightarrow> (\<exists>c. w' = set_cksum c w)"

lemma cksum_movedI [simp]: "cksum_moved w (set_cksum c w)"
  unfolding cksum_moved_def by (rule exI) (rule refl)

lemma cksum_moved_refl [simp]: "cksum_moved w w"
  using cksum_movedI [of w "h_aFrameCksum (w_hdr w)"] by simp

lemma cksum_moved_trans: "cksum_moved w w' \<Longrightarrow> cksum_moved w' w'' \<Longrightarrow> cksum_moved w w''"
proof -
  assume "cksum_moved w w'" "cksum_moved w' w''"
  then obtain c c' where "w' = set_cksum c w" "w'' = set_cksum c' w'" unfolding cksum_moved_def by blast
  then have "w'' = set_cksum c' w" by simp
  then show ?thesis by simp
qed

lemma cksum_moved_fields:
  assumes "cksum_moved w w'"
  shows "mxFrame w' = mxFrame w" "szPage w' = szPage w" "map_ok w' = map_ok w" "h_nPage (w_hdr w') = h_nPage (w_hdr w)"
  using assms by (auto simp: cksum_moved_def map_ok_def)

abbreviation log_size :: "nat \<Rightarrow> nat \<Rightarrow> nat" where "log_size sz n \<equiv> 32 + n * (sz + 24)"

lemma write_at_prefix: "prefix pre f \<Longrightarrow> prefix (pre @ xs) (write_at f (length pre) xs)"
  by (auto simp: prefix_def write_at_def)

lemma os_write_ok: "os_write f off xs e = (SQLITE_OK, f', e') \<Longrightarrow> f' = write_at f off xs"
  by (auto simp: os_write_def Let_def split: prod.splits if_splits)

lemma walWriteToLog_ok:
  assumes "walWriteToLog sp xs (length pre) f e = (SQLITE_OK, f', e')" "prefix pre f"
  shows "prefix (pre @ xs) f'"
proof (cases "length pre < sp \<and> length pre + length xs \<ge> sp")
  case False
  then have "os_write f (length pre) xs e = (SQLITE_OK, f', e')" using assms(1) unfolding walWriteToLog_def by (simp only: if_False)
  then show ?thesis using os_write_ok write_at_prefix [OF assms(2)] by blast
next
  case True
  let ?k = "sp - length pre"
  obtain rc f1 e1 where w1: "os_write f (length pre) (take ?k xs) e = (rc, f1, e1)" by (metis prod.exhaust)
  obtain rc2 e2 where i: "io_op e1 = (rc2, e2)" by fastforce
  have rc: "rc = SQLITE_OK" using assms(1) True w1 by (auto simp: walWriteToLog_def Let_def split: if_splits)
  have p1: "prefix (pre @ take ?k xs) f1" using os_write_ok [of f "length pre"] w1 rc write_at_prefix [OF assms(2)] by blast
  have l: "length pre + ?k = length (pre @ take ?k xs)" using True by auto
  show ?thesis
  proof (cases "drop ?k xs = []")
    case e: True
    then have "f' = f1" using assms(1) True w1 i rc by (auto simp: walWriteToLog_def)
    moreover have "take ?k xs = xs" using e by simp
    ultimately show ?thesis using p1 by simp
  next
    case False
    then have w2: "os_write f1 (length (pre @ take ?k xs)) (drop ?k xs) e2 = (SQLITE_OK, f', e')"
      using assms(1) True w1 i rc unfolding l [symmetric] by (auto simp: walWriteToLog_def split: if_splits)
    have "prefix ((pre @ take ?k xs) @ drop ?k xs) f'" using os_write_ok [OF w2] write_at_prefix [OF p1] by blast
    then show ?thesis by simp
  qed
qed

lemma length_header: "length salt = 8 \<Longrightarrow> walHeader sz nCk salt = (h, c) \<Longrightarrow> length h = 32"
  using header_fields(1) by blast

lemma walWriteOneFrame_ok:
  assumes "log_written sz nCk salt fr f w" "wf_frame sz x" "off = log_size sz (length fr)"
    "walWriteOneFrame sp w (fst x, snd (snd x)) (fst (snd x)) off f e = (SQLITE_OK, w', f', e')"
  shows "log_written sz nCk salt (fr @ [x]) f' w' \<and> cksum_moved w w'"
proof -
  obtain h c where h: "walHeader sz nCk salt = (h, c)" by (metis surj_pair)
  let ?pre = "h @ log_bytes salt c fr" and ?c = "log_cksum salt c fr"
  let ?b = "frame_bytes salt ?c x"
  have a: "prefix ?pre f" "conn_at sz salt ?c w" "\<forall>x\<in>set fr. wf_frame sz x" "length salt = 8"
    using assms(1) by (simp_all add: log_written_def h conn_at_def)
  have off: "off = length ?pre" using assms(3) length_header [OF a(4) h] length_log_bytes [OF a(4,3)] by simp
  have d: "length (snd (snd x)) = sz" using assms(2) by (simp add: wf_frame_def)
  have enc: "walEncodeFrame w (fst x) (fst (snd x)) (snd (snd x)) = (take 24 ?b, set_cksum (frame_cksum salt ?c x) w)"
    using encode_frame [OF a(2) d] by simp
  have b: "take 24 ?b @ snd (snd x) = ?b" "length (take 24 ?b) = 24" using a(4) by (simp_all add: frame_bytes_def)
  obtain rc f1 e1 where w1: "walWriteToLog sp (take 24 ?b) off f e = (rc, f1, e1)" by (metis prod.exhaust)
  have rc: "rc = SQLITE_OK" using assms(4) w1 by (auto simp: walWriteOneFrame_def enc split: if_splits)
  have p1: "prefix (?pre @ take 24 ?b) f1" using walWriteToLog_ok [OF _ a(1)] w1 rc off by blast
  have off2: "off + 24 = length (?pre @ take 24 ?b)" using off b(2) by simp
  obtain w2: "walWriteToLog sp (snd (snd x)) (off + 24) f1 e1 = (SQLITE_OK, f', e')" and w': "w' = set_cksum (frame_cksum salt ?c x) w"
    using assms(4) w1 rc by (auto simp: walWriteOneFrame_def enc Let_def split: prod.splits)
  have "prefix ((?pre @ take 24 ?b) @ snd (snd x)) f'" using walWriteToLog_ok [OF _ p1] w2 off2 by metis
  then have "prefix (h @ log_bytes salt c (fr @ [x])) f'" using b(1) by (simp add: log_bytes_append)
  then show ?thesis using a w' assms(2) by (auto simp: log_written_def h conn_at_def)
qed

lemma frames_loop_ok:
  "log_written sz nCk salt fr f w \<Longrightarrow> \<forall>p\<in>set ps. wf_page sz p \<Longrightarrow> t < 2 ^ 32 \<Longrightarrow> off = log_size sz (length fr) \<Longrightarrow>
   frames_loop ps t sz w off f e = (SQLITE_OK, w', off', f', e') \<Longrightarrow>
   log_written sz nCk salt (fr @ tx_frames t ps) f' w' \<and> off' = log_size sz (length fr + length ps) \<and> cksum_moved w w'"
proof (induction ps arbitrary: fr w off f e)
  case Nil
  then show ?case by simp
next
  case (Cons p ps)
  let ?x = "(fst p, if ps = [] then t else 0, snd p)"
  obtain rc w1 f1 e1 where o: "walWriteOneFrame 0 w p (if ps = [] then t else 0) off f e = (rc, w1, f1, e1)" by (metis prod.exhaust)
  have rc: "rc = SQLITE_OK" using Cons.prems(5) o by (auto split: if_splits)
  have x: "wf_frame sz ?x" using Cons.prems(2,3) by (simp add: wf_frame_def wf_page_def)
  from walWriteOneFrame_ok [OF Cons.prems(1) x Cons.prems(4), of 0 e w1 f1 e1] o rc
  have g: "log_written sz nCk salt (fr @ [?x]) f1 w1" "cksum_moved w w1" by simp_all
  have l: "frames_loop ps t sz w1 (off + (sz + 24)) f1 e1 = (SQLITE_OK, w', off', f', e')" using Cons.prems(5) o rc by simp
  from Cons.IH [OF g(1) _ Cons.prems(3) _ l] Cons.prems(2,4) show ?case using cksum_moved_trans [OF g(2)] by auto
qed

lemma pad_loop_ok:
  "log_written sz nCk salt fr f w \<Longrightarrow> wf_page sz pLast \<Longrightarrow> t < 2 ^ 32 \<Longrightarrow> off = log_size sz (length fr) \<Longrightarrow>
   pad_loop pLast t sz sp w off f e n = (SQLITE_OK, w', f', e', n') \<Longrightarrow>
   \<exists>k. n' = n + k \<and> log_written sz nCk salt (fr @ replicate k (fst pLast, t, snd pLast)) f' w' \<and> cksum_moved w w'"
proof (induction pLast t sz sp w off f e n arbitrary: fr rule: pad_loop.induct)
  case (1 pLast t sz sp w off f e n)
  let ?x = "(fst pLast, t, snd pLast)"
  note loop = pad_loop.simps [of pLast t sz sp w off f e n]
  show ?case
  proof (cases "off < sp")
    case False
    then have "pad_loop pLast t sz sp w off f e n = (SQLITE_OK, w, f, e, n)" by (simp add: loop)
    then have e: "w' = w" "f' = f" "n' = n" using "1.prems"(5) by auto
    then show ?thesis using "1.prems"(1) e by (intro exI [of _ 0]) simp
  next
    case True
    obtain rc w1 f1 e1 where o: "walWriteOneFrame sp w pLast t off f e = (rc, w1, f1, e1)" by (metis prod.exhaust)
    have rc: "rc = SQLITE_OK" using "1.prems"(5) o True by (auto simp: loop split: if_splits)
    have x: "wf_frame sz ?x" using "1.prems"(2,3) by (simp add: wf_frame_def wf_page_def)
    from walWriteOneFrame_ok [OF "1.prems"(1) x "1.prems"(4), of sp e w1 f1 e1] o rc
    have g: "log_written sz nCk salt (fr @ [?x]) f1 w1" "cksum_moved w w1" by simp_all
    have l: "pad_loop pLast t sz sp w1 (off + (sz + 24)) f1 e1 (n + 1) = (SQLITE_OK, w', f', e', n')" using "1.prems"(5) o rc True by (simp add: loop)
    have off: "off + (sz + 24) = log_size sz (length (fr @ [?x]))" using "1.prems"(4) by simp
    obtain k where k: "n' = n + 1 + k" "log_written sz nCk salt ((fr @ [?x]) @ replicate k ?x) f' w'" "cksum_moved w1 w'"
      using "1.IH" [OF True o [symmetric] refl refl refl _ g(1) "1.prems"(2,3) off l] rc by auto
    then have "log_written sz nCk salt (fr @ replicate (Suc k) ?x) f' w'" by simp
    then show ?thesis using k(1) cksum_moved_trans [OF g(2) k(3)] by (intro exI [of _ "Suc k"]) simp
  qed
qed

lemma start_log_ok:
  assumes "mxFrame w = 0" "length (h_aSalt (w_hdr w)) = 8" "length rnd = 8" "start_log sz sync rnd w F e = (SQLITE_OK, w', F', e')"
  shows "log_written sz (nCkpt w) (if nCkpt w = 0 then rnd else h_aSalt (w_hdr w)) [] (wf_bytes F') w' \<and> mxFrame w' = 0 \<and> map_ok w' = map_ok w"
proof -
  let ?salt = "if nCkpt w = 0 then rnd else h_aSalt (w_hdr w)"
  obtain h c where h: "walHeader sz (nCkpt w) ?salt = (h, c)" by (metis surj_pair)
  let ?w = "w\<lparr>szPage := sz, w_hdr := (w_hdr w)\<lparr>h_aSalt := ?salt, h_bigEndCksum := SQLITE_BIGENDIAN, h_aFrameCksum := c\<rparr>\<rparr>"
  obtain rc f e1 where o: "os_write (wf_bytes F) 0 h e = (rc, f, e1)" by (metis prod.exhaust)
  have r: "w' = ?w" "wf_bytes F' = f" "rc = SQLITE_OK"
    using assms(1,4) h o by (auto simp: start_log_def Let_def split: if_splits prod.splits)
  have "f = write_at (wf_bytes F) 0 h" using os_write_ok o r(3) by blast
  then have "prefix h f" using write_at_prefix [of "[]" "wf_bytes F" h] by simp
  moreover have "length ?salt = 8" using assms(2,3) by simp
  ultimately have "log_written sz (nCkpt w) ?salt [] (wf_bytes F') w'"
    unfolding log_written_def h prod.case using r(1,2) by (simp add: conn_at_def)
  then show ?thesis using r(1) assms(1) by (simp add: map_ok_def)
qed

lemma end_transaction_ok:
  assumes "log_written sz nCk salt fr (wf_bytes F) w" "wf_page sz pLast" "t < 2 ^ 32" "off = log_size sz (length fr)"
    "end_transaction sz pLast t sync w off F e = (SQLITE_OK, w', F', e', n)"
  shows "log_written sz nCk salt (fr @ replicate n (fst pLast, t, snd pLast)) (wf_bytes F') w' \<and> cksum_moved w w'"
proof (cases "t \<noteq> 0 \<and> sync \<and> padToSectorBoundary F")
  case True
  let ?sp = "((off + sectorSize F - 1) div sectorSize F) * sectorSize F"
  obtain rc w1 f1 e1 n1 where l: "pad_loop pLast t sz ?sp w off (wf_bytes F) e 0 = (rc, w1, f1, e1, n1)" by (metis prod.exhaust)
  then have "rc = SQLITE_OK" "w' = w1" "wf_bytes F' = f1" "n = n1"
    using assms(5) True by (auto simp: end_transaction_def Let_def)
  then have "pad_loop pLast t sz ?sp w off (wf_bytes F) e 0 = (SQLITE_OK, w', wf_bytes F', e1, n)" using l by simp
  from pad_loop_ok [OF assms(1-4) this] show ?thesis by auto
next
  case False
  then have "w' = w" "F' = F" "n = 0"
    using assms(5) by (auto simp: end_transaction_def Let_def split: if_splits prod.splits)
  then show ?thesis using assms(1) by simp
qed

lemma length_log_written:
  "log_written sz nCk salt fr f w \<Longrightarrow> walHeader sz nCk salt = (h, c) \<Longrightarrow> length (h @ log_bytes salt c fr) = log_size sz (length fr)"
proof -
  assume a: "log_written sz nCk salt fr f w" "walHeader sz nCk salt = (h, c)"
  then have s: "length salt = 8" "\<forall>x\<in>set fr. wf_frame sz x" by (simp_all add: log_written_def conn_at_def)
  show ?thesis using length_header [OF s(1) a(2)] length_log_bytes [OF s] by simp
qed

lemma limit_log_ok:
  assumes "log_written sz nCk salt fr (wf_bytes F) w" "limit_log sz t (length fr + 1) F e = (F', e')"
  shows "log_written sz nCk salt fr (wf_bytes F') w"
proof -
  obtain h c where h: "walHeader sz nCk salt = (h, c)" by (metis surj_pair)
  have l: "length (h @ log_bytes salt c fr) = walFrameOffset (length fr + 1) sz"
    using length_log_written [OF assms(1) h] by (simp add: walFrameOffset_def)
  define m where "m = (if int (walFrameOffset (length fr + 1) sz) > mxWalSize F then walFrameOffset (length fr + 1) sz else nat (mxWalSize F))"
  have "walFrameOffset (length fr + 1) sz \<le> m" by (auto simp: m_def)
  moreover have "wf_bytes F' = wf_bytes F \<or> wf_bytes F' = take m (wf_bytes F)"
    using assms(2) unfolding limit_log_def m_def [symmetric] by (auto simp: walLimitSize_def Let_def split: prod.splits if_splits)
  moreover have "prefix (h @ log_bytes salt c fr) (wf_bytes F)" using assms(1) by (simp add: log_written_def h)
  ultimately have "prefix (h @ log_bytes salt c fr) (wf_bytes F')" using l by (auto simp: prefix_def)
  then show ?thesis using assms(1) by (simp add: log_written_def h)
qed

lemma IndexAppend_szPage:
  "walIndexAppend wi w i p = (rc, wi', w') \<Longrightarrow> szPage w' = szPage w \<and> (map_ok w \<longrightarrow> map_ok w')"
  by (auto simp: walIndexAppend_def walHashGet_def walIndexPage_def map_ok_def Let_def split: prod.splits if_splits option.splits list.splits)

lemma append_loop_ok:
  "wal_rep wi frames \<Longrightarrow> n \<le> length frames \<Longrightarrow> n < length frames \<longrightarrow> mxFrame w = n \<Longrightarrow> 0 \<notin> set ps \<Longrightarrow>
   append_loop ps n wi w = (SQLITE_OK, n', wi', w') \<Longrightarrow>
   n' = n + length ps \<and> wal_rep wi' (if ps = [] then frames else take n frames @ ps) \<and> w_hdr w' = w_hdr w \<and> szPage w' = szPage w \<and>
   (map_ok w \<longrightarrow> map_ok w')"
proof (induction ps arbitrary: frames n wi w)
  case (Cons p ps)
  obtain rc wi1 w1 where a: "walIndexAppend wi w (n + 1) p = (rc, wi1, w1)" by (metis prod.exhaust)
  have rc: "rc = SQLITE_OK" using Cons.prems(5) a by (auto split: if_splits)
  have p: "p \<noteq> 0" using Cons.prems(4) by auto
  note i = IndexAppend_cases [OF Cons.prems(1-3) p a [unfolded Suc_eq_plus1 [symmetric]]]
  have l: "append_loop ps (n + 1) wi1 w1 = (SQLITE_OK, n', wi', w')" using Cons.prems(5) a rc by simp
  have r: "wal_rep wi1 (take n frames @ [p])" using i(1) rc by simp
  have len: "length (take n frames @ [p]) = n + 1" using Cons.prems(2) by simp
  from Cons.IH [OF r _ _ _ l] Cons.prems(4) len
  have IH: "n' = n + 1 + length ps" "wal_rep wi' (if ps = [] then take n frames @ [p] else take (n + 1) (take n frames @ [p]) @ ps)"
    "w_hdr w' = w_hdr w1" "szPage w' = szPage w1" "map_ok w1 \<longrightarrow> map_ok w'" by simp_all
  have "take (n + 1) (take n frames @ [p]) = take n frames @ [p]" using len by simp
  then have "wal_rep wi' (take n frames @ p # ps)" using IH(2) by (cases ps) simp_all
  then show ?case using IH i(3) IndexAppend_szPage [OF a] by simp
qed simp

text \<open>The frames that \<open>sqlite3WalFrames\<close> adds: the pages, the last of them with the commit mark and repeated by the padding.\<close>

abbreviation added :: "nat \<Rightarrow> (nat \<times> u8 list) list \<Rightarrow> nat \<Rightarrow> frame list" where
  "added t ps n \<equiv> tx_frames t ps @ replicate n (fst (last ps), t, snd (last ps))"

text \<open>The state of a writer: its log is in the file, or it is about to begin a log, and the index covers the frames up to its position.\<close>

definition writer_at :: "nat \<Rightarrow> nat \<Rightarrow> u8 list \<Rightarrow> u8 list \<Rightarrow> frame list \<Rightarrow> WalIndex \<Rightarrow> Wal \<Rightarrow> u8 list \<Rightarrow> bool" where
  "writer_at sz nCk salt rnd fr wi w f \<longleftrightarrow>
     mxFrame w = length fr \<and>
     (if fr = [] then nCk = nCkpt w \<and> salt = (if nCkpt w = 0 then rnd else h_aSalt (w_hdr w)) \<and> length (h_aSalt (w_hdr w)) = 8 \<and> length rnd = 8
      else log_written sz nCk salt fr f w) \<and>
     (\<exists>frames. wal_rep wi frames \<and> length fr \<le> length frames \<and> take (length fr) frames = map fst fr)"

lemma sqlite3WalFrames_ok:
  assumes "writer_at sz nCk salt rnd fr wi w (wf_bytes F)" "pList \<noteq> []" "\<forall>p\<in>set pList. wf_page sz p" "t < 2 ^ 32"
    "sqlite3WalFrames sz pList t sync_flags sync_tx rnd wi w F e = (SQLITE_OK, wi', w', F', e')"
  shows "\<exists>n. log_written sz nCk salt (fr @ added t pList n) (wf_bytes F') w' \<and> wal_rep wi' (map fst (fr @ added t pList n)) \<and>
    mxFrame w' = length (fr @ added t pList n) \<and> (map_ok w \<longrightarrow> map_ok w') \<and> (t \<noteq> 0 \<longrightarrow> wi_hdr wi' = w_hdr w')"
proof -
  obtain frames where fr: "wal_rep wi frames" "length fr \<le> length frames" "take (length fr) frames = map fst fr"
    and mx: "mxFrame w = length fr" using assms(1) by (auto simp: writer_at_def)
  obtain rc0 w0 F0 e0 where s: "start_log sz sync_flags rnd w F e = (rc0, w0, F0, e0)" by (metis prod.exhaust)
  obtain rc1 w1 off f1 e1 where l: "frames_loop pList t sz w0 (walFrameOffset (mxFrame w0 + 1) sz) (wf_bytes F0) e0 = (rc1, w1, off, f1, e1)" by (metis prod.exhaust)
  let ?F1 = "F0\<lparr>wf_bytes := f1\<rparr>"
  obtain rc2 w2 F2 e2 n where t: "end_transaction sz (last pList) t sync_tx w1 off ?F1 e1 = (rc2, w2, F2, e2, n)" by (metis prod.exhaust)
  obtain F3 e3 where m: "limit_log sz t (mxFrame w2 + length pList + n + 1) F2 e2 = (F3, e3)" by (metis surj_pair)
  let ?ps = "map fst pList @ replicate n (fst (last pList))"
  obtain rc4 iFrame wi4 w4 where a: "append_loop ?ps (mxFrame w2) wi w2 = (rc4, iFrame, wi4, w4)" by (metis prod.exhaust)
  obtain wi5 w5 where d': "frames_done wi4 w4 iFrame sz t = (wi5, w5)" by (metis surj_pair)
  note U = assms(5) [unfolded sqlite3WalFrames_def Let_def s prod.case l t m a d']
  have rc: "rc0 = SQLITE_OK" "rc1 = SQLITE_OK" "rc2 = SQLITE_OK" "rc4 = SQLITE_OK"
    using U by (auto split: if_splits)
  have d: "frames_done wi4 w4 iFrame sz t = (wi', w')" and F': "F' = F3" using U rc d' by auto
  have 0: "log_written sz nCk salt fr (wf_bytes F0) w0" "mxFrame w0 = length fr" "map_ok w0 = map_ok w"
  proof (atomize (full), cases "fr = []")
    case True
    then show "log_written sz nCk salt fr (wf_bytes F0) w0 \<and> mxFrame w0 = length fr \<and> map_ok w0 = map_ok w"
      using start_log_ok [of w rnd sz sync_flags F e w0 F0 e0] s rc(1) mx assms(1) by (simp add: writer_at_def)
  next
    case False
    then show "log_written sz nCk salt fr (wf_bytes F0) w0 \<and> mxFrame w0 = length fr \<and> map_ok w0 = map_ok w"
      using s mx assms(1) by (auto simp: writer_at_def start_log_def)
  qed
  have "frames_loop pList t sz w0 (log_size sz (length fr)) (wf_bytes F0) e0 = (SQLITE_OK, w1, off, f1, e1)"
    using l rc(2) 0(2) by (simp add: walFrameOffset_def)
  note 1 = frames_loop_ok [OF 0(1) assms(3,4) refl this]
  have last: "wf_page sz (last pList)" using assms(2,3) by simp
  have off: "off = log_size sz (length (fr @ tx_frames t pList))" using 1 by simp
  have "log_written sz nCk salt (fr @ tx_frames t pList) (wf_bytes ?F1) w1" using 1 by simp
  from end_transaction_ok [OF this last assms(4) off] t rc(3)
  have 2: "log_written sz nCk salt (fr @ added t pList n) (wf_bytes F2) w2" "cksum_moved w1 w2" by auto
  have mv: "cksum_moved w0 w2" using 1 2(2) cksum_moved_trans by blast
  note mvf = cksum_moved_fields [OF mv]
  have 3: "log_written sz nCk salt (fr @ added t pList n) (wf_bytes F3) w2"
    using limit_log_ok [OF 2(1), of t e2 F3 e3] m mvf(1) 0(2) by (simp add: add.assoc)
  have "0 \<notin> set ?ps" using assms(2,3) last by (auto simp: wf_page_def)
  from append_loop_ok [OF fr(1,2) _ this, of w2 iFrame wi4 w4] a rc(4) mvf(1) 0(2)
  have 4: "iFrame = length (fr @ added t pList n)" "wal_rep wi4 (map fst (fr @ added t pList n))" "w_hdr w4 = w_hdr w2" "szPage w4 = szPage w2"
    "map_ok w2 \<longrightarrow> map_ok w4" using assms(2) fr(3) by (simp_all add: map_replicate_const)
  have pg: "wi_page wi' = wi_page wi4" "mxFrame w' = iFrame" "conn_at sz salt (h_aFrameCksum (w_hdr w2)) w2 \<Longrightarrow> conn_at sz salt (h_aFrameCksum (w_hdr w2)) w'"
    "map_ok w' = map_ok w4" "t \<noteq> 0 \<longrightarrow> wi_hdr wi' = w_hdr w'"
    using d 4(3,4) by (auto simp: frames_done_def walIndexWriteHdr_def Let_def conn_at_def map_ok_def split: if_splits)
  have "log_written sz nCk salt (fr @ added t pList n) (wf_bytes F') w'"
    using 3 pg(3) unfolding log_written_def F' by (auto simp: conn_at_def split: prod.splits)
  then show ?thesis using 4(1,2,5) pg 0(3) mvf(3) wal_rep_same_pages [OF pg(1)] by auto
qed

section \<open>Lemmas: writing without failures\<close>

lemma undisturbed_os_write [simp]: "undisturbed e \<Longrightarrow> os_write f off xs e = (SQLITE_OK, write_at f off xs, e)"
  by (simp add: os_write_def)

lemma undisturbed_WriteToLog: "undisturbed e \<Longrightarrow> \<exists>f'. walWriteToLog sp xs off f e = (SQLITE_OK, f', e)"
  by (simp add: walWriteToLog_def Let_def)

lemma undisturbed_OneFrame: "undisturbed e \<Longrightarrow> \<exists>w' f'. walWriteOneFrame sp w p t off f e = (SQLITE_OK, w', f', e)"
proof -
  assume e: "undisturbed e"
  obtain a w1 where a: "walEncodeFrame w (fst p) t (snd p) = (a, w1)" by fastforce
  obtain f1 where f1: "walWriteToLog sp a off f e = (SQLITE_OK, f1, e)" using undisturbed_WriteToLog [OF e] by blast
  obtain f2 where f2: "walWriteToLog sp (snd p) (off + 24) f1 e = (SQLITE_OK, f2, e)" using undisturbed_WriteToLog [OF e] by blast
  show ?thesis by (simp add: walWriteOneFrame_def a f1 f2)
qed

lemma undisturbed_frames_loop: "undisturbed e \<Longrightarrow> \<exists>w' off' f'. frames_loop ps t sz w off f e = (SQLITE_OK, w', off', f', e)"
proof (induction ps arbitrary: w off f)
  case (Cons p ps)
  obtain w1 f1 where o: "walWriteOneFrame 0 w p (if ps = [] then t else 0) off f e = (SQLITE_OK, w1, f1, e)"
    using undisturbed_OneFrame [OF Cons.prems] by blast
  then show ?case using Cons.IH [OF Cons.prems, of w1 "off + (sz + 24)" f1] by simp
qed simp

lemma undisturbed_pad_loop: "undisturbed e \<Longrightarrow> \<exists>w' f' n'. pad_loop p t sz sp w off f e n = (SQLITE_OK, w', f', e, n')"
proof (induction p t sz sp w off f e n rule: pad_loop.induct)
  case (1 p t sz sp w off f e n)
  show ?case
  proof (cases "off < sp")
    case True
    obtain w1 f1 where o: "walWriteOneFrame sp w p t off f e = (SQLITE_OK, w1, f1, e)" using undisturbed_OneFrame [OF "1.prems"] by blast
    have "\<exists>w' f' n'. pad_loop p t sz sp w1 (off + (sz + 24)) f1 e (n + 1) = (SQLITE_OK, w', f', e, n')"
      using "1.IH" [OF True o [symmetric] refl refl refl _ "1.prems"] by simp
    then show ?thesis using True o by (simp add: pad_loop.simps [of p t sz sp w off])
  qed (simp add: pad_loop.simps [of p t sz sp w off])
qed

lemma undisturbed_start: "undisturbed e \<Longrightarrow> \<exists>w' F'. start_log sz sync rnd w F e = (SQLITE_OK, w', F', e) \<and> map_ok w' = map_ok w \<and> mxFrame w' = mxFrame w"
  by (auto simp: start_log_def Let_def map_ok_def split: prod.splits)

lemma undisturbed_end: "undisturbed e \<Longrightarrow> \<exists>w' F' n. end_transaction sz p t sync w off F e = (SQLITE_OK, w', F', e, n)"
proof -
  assume e: "undisturbed e"
  obtain w1 f1 n1 where l: "pad_loop p t sz (((off + sectorSize F - 1) div sectorSize F) * sectorSize F) w off (wf_bytes F) e 0 = (SQLITE_OK, w1, f1, e, n1)"
    using undisturbed_pad_loop [OF e] by blast
  show ?thesis using e l by (simp add: end_transaction_def)
qed

lemma undisturbed_append:
  "wal_rep wi frames \<Longrightarrow> n \<le> length frames \<Longrightarrow> n < length frames \<longrightarrow> mxFrame w = n \<Longrightarrow> 0 \<notin> set ps \<Longrightarrow> map_ok w \<Longrightarrow>
   \<exists>n' wi' w'. append_loop ps n wi w = (SQLITE_OK, n', wi', w')"
proof (induction ps arbitrary: frames n wi w)
  case (Cons p ps)
  have p: "p \<noteq> 0" using Cons.prems(4) by auto
  obtain w1 where h: "walHashGet w (walFramePage (Suc n)) = (SQLITE_OK, iZero (walFramePage (Suc n)), w1)" "same_conn w w1"
    using walHashGet_ok [OF Cons.prems(5)] by blast
  from IndexAppend_mapped [OF Cons.prems(1-3) p h(1)] obtain wi1 where
    a: "walIndexAppend wi w (Suc n) p = (SQLITE_OK, wi1, w1)" "wal_rep wi1 (take n frames @ [p])" by blast
  have "map_ok w1" using h(2) by (simp add: same_conn_def)
  then show ?case using Cons.IH [OF a(2), of "n + 1" w1] Cons.prems(2,4) a(1) by simp
qed simp

lemma undisturbed_Frames:
  assumes "undisturbed e" "map_ok w" "wal_rep wi frames" "mxFrame w \<le> length frames" "pList \<noteq> []" "\<forall>p\<in>set pList. wf_page sz p"
    "t < 2 ^ 32" "writer_at sz nCk salt rnd fr wi w (wf_bytes F)"
  shows "\<exists>wi' w' F' e'. sqlite3WalFrames sz pList t sync_flags sync_tx rnd wi w F e = (SQLITE_OK, wi', w', F', e')"
proof -
  obtain w0 F0 where s: "start_log sz sync_flags rnd w F e = (SQLITE_OK, w0, F0, e)" "map_ok w0 = map_ok w" "mxFrame w0 = mxFrame w"
    using undisturbed_start [OF assms(1)] by blast
  obtain w1 off f1 where l: "frames_loop pList t sz w0 (walFrameOffset (mxFrame w0 + 1) sz) (wf_bytes F0) e = (SQLITE_OK, w1, off, f1, e)"
    using undisturbed_frames_loop [OF assms(1)] by blast
  let ?F1 = "F0\<lparr>wf_bytes := f1\<rparr>"
  obtain w2 F2 n where t: "end_transaction sz (last pList) t sync_tx w1 off ?F1 e = (SQLITE_OK, w2, F2, e, n)"
    using undisturbed_end [OF assms(1)] by blast
  obtain F3 e3 where m: "limit_log sz t (mxFrame w2 + length pList + n + 1) F2 e = (F3, e3)" by (metis surj_pair)
  have "log_written sz nCk salt fr (wf_bytes F0) w0" "mxFrame w0 = length fr"
    using assms(8) s start_log_ok [of w rnd sz sync_flags F e w0 F0 e] by (auto simp: writer_at_def start_log_def split: if_splits)
  moreover from this have "frames_loop pList t sz w0 (log_size sz (length fr)) (wf_bytes F0) e = (SQLITE_OK, w1, off, f1, e)"
    using l by (simp add: walFrameOffset_def)
  ultimately have 1: "log_written sz nCk salt (fr @ tx_frames t pList) f1 w1 \<and> off = log_size sz (length fr + length pList) \<and> cksum_moved w0 w1"
    using frames_loop_ok [OF _ assms(6,7) refl] by blast
  have last: "wf_page sz (last pList)" using assms(5,6) by simp
  have off: "off = log_size sz (length (fr @ tx_frames t pList))" using 1 by simp
  have "log_written sz nCk salt (fr @ tx_frames t pList) (wf_bytes ?F1) w1" using 1 by simp
  from end_transaction_ok [OF this last assms(7) off t] have "cksum_moved w0 w2" using 1 cksum_moved_trans by blast
  note mv = cksum_moved_fields [OF this]
  have z: "0 \<notin> set (map fst pList @ replicate n (fst (last pList)))" using assms(6) last by (auto simp: wf_page_def)
  have "mxFrame w2 \<le> length frames" "mxFrame w2 < length frames \<longrightarrow> mxFrame w2 = mxFrame w2" "map_ok w2"
    using assms(2,4) s(2,3) mv by simp_all
  from undisturbed_append [OF assms(3) this(1,2) z this(3)] obtain n' wi4 w4 where
    a: "append_loop (map fst pList @ replicate n (fst (last pList))) (mxFrame w2) wi w2 = (SQLITE_OK, n', wi4, w4)" by blast
  show ?thesis unfolding sqlite3WalFrames_def Let_def s(1) prod.case l t m a by (auto split: prod.splits)
qed

section \<open>Properties of writing and recovery\<close>

lemma last_commit_last: "fr \<noteq> [] \<Longrightarrow> fst (snd (last fr)) \<noteq> 0 \<Longrightarrow> last_commit fr = length fr"
  by (cases fr rule: rev_cases) auto

lemma added_last: "ps \<noteq> [] \<Longrightarrow> fst (snd (last (fr @ added t ps n))) = t"
proof -
  assume ps: "ps \<noteq> []"
  then have "tx_frames t ps \<noteq> []" by (cases ps) simp_all
  then show ?thesis using last_tx_frames [OF ps, of t] by (cases n) (simp_all add: last_append)
qed

text \<open>C38: A successful \<open>sqlite3WalFrames\<close> extends the log. Whatever synchronisation, padding and truncation are configured and whether or not the log is new, the file
  begins afterwards with the encoding of the old frames, the pages written and the repetitions of the last one; the index covers exactly these frames and the
  connection can continue the log from its checksum.\<close>

theorem frames_extend_log:
  assumes "writer_at sz nCk salt rnd fr wi w (wf_bytes F)" "pList \<noteq> []" "\<forall>p\<in>set pList. wf_page sz p" "nTruncate < 2 ^ 32"
    "sqlite3WalFrames sz pList nTruncate sync_flags sync_tx rnd wi w F e = (SQLITE_OK, wi', w', F', e')"
  shows "\<exists>n. writer_at sz nCk salt rnd (fr @ added nTruncate pList n) wi' w' (wf_bytes F')"
proof -
  obtain n where n: "log_written sz nCk salt (fr @ added nTruncate pList n) (wf_bytes F') w'" "wal_rep wi' (map fst (fr @ added nTruncate pList n))"
    "mxFrame w' = length (fr @ added nTruncate pList n)" using sqlite3WalFrames_ok [OF assms] by blast
  have "fr @ added nTruncate pList n \<noteq> []" using assms(2) by (cases pList) auto
  then have "writer_at sz nCk salt rnd (fr @ added nTruncate pList n) wi' w' (wf_bytes F')"
    unfolding writer_at_def using n by (auto intro!: exI [of _ "map fst (fr @ added nTruncate pList n)"])
  then show ?thesis ..
qed

text \<open>C7: A commit survives a crash. Once \<open>sqlite3WalFrames\<close> has returned from a commit and its frames are in the file, a recovery by any
  connection, from whatever index was left and whatever incomplete or outdated frames follow, lets readers find for every page the very frame they
  found before the crash.\<close>

theorem commit_survives_crash:
  assumes "valid_page_size sz" "writer_at sz nCk salt rnd fr wi w (wf_bytes F)" "pList \<noteq> []" "\<forall>p\<in>set pList. wf_page sz p"
    "0 < nTruncate" "nTruncate < 2 ^ 32"
    "sqlite3WalFrames sz pList nTruncate sync_flags sync_tx rnd wi w F e = (SQLITE_OK, wi', w', F', e')"
    "take (log_size sz (mxFrame w')) f = take (log_size sz (mxFrame w')) (wf_bytes F')" "log_ends sz salt (drop (log_size sz (mxFrame w')) f)"
    "undisturbed e2" "map_ok w2" "walIndexRecover ckptLock True f wi2 w2 e2 = (rc, wi3, w3, e3)"
    "w_hdr r = wi_hdr wi'" "wal_usable r" "w_hdr r' = wi_hdr wi3" "wal_usable r'"
  shows "wal_lookup wi3 r' p = wal_lookup wi' r p"
proof -
  obtain n where n: "log_written sz nCk salt (fr @ added nTruncate pList n) (wf_bytes F') w'" "wal_rep wi' (map fst (fr @ added nTruncate pList n))"
    "mxFrame w' = length (fr @ added nTruncate pList n)" "wi_hdr wi' = w_hdr w'" using sqlite3WalFrames_ok [OF assms(2-4,6,7)] assms(5) by blast
  let ?fr = "fr @ added nTruncate pList n"
  obtain h c where h: "walHeader sz nCk salt = (h, c)" by (metis surj_pair)
  have lw: "prefix (h @ log_bytes salt c ?fr) (wf_bytes F')" "\<forall>x\<in>set ?fr. wf_frame sz x" "length salt = 8"
    using n(1) by (auto simp: log_written_def h conn_at_def)
  have "take (log_size sz (mxFrame w')) (wf_bytes F') = h @ log_bytes salt c ?fr"
    using lw(1) length_log_written [OF n(1) h] n(3) by (auto simp: prefix_def)
  then have f: "f = h @ log_bytes salt c ?fr @ drop (log_size sz (mxFrame w')) f"
    using assms(8) append_take_drop_id [of "log_size sz (mxFrame w')" f] by simp
  have "?fr \<noteq> []" using assms(3) by (cases pList) auto
  then have "last_commit ?fr = length ?fr" using added_last [OF assms(3), of fr nTruncate n] assms(5) by (intro last_commit_last) simp_all
  moreover from walIndexRecover_ok [OF assms(1) lw(3,2) h assms(9-11), of ckptLock wi2, folded f] assms(12)
  have "recovered ?fr wi3 w3" "wi_hdr wi3 = w_hdr w3" by auto
  ultimately show ?thesis
    using walk.lookup_latest [of wi3 "map fst ?fr" r' p] walk.lookup_latest [OF n(2), of r p] assms(13-16) n(3,4) by (simp add: recovered_def)
qed

section \<open>Witnesses\<close>

definition sample_salt :: "u8 list" where "sample_salt = replicate 8 1"

definition sample_pages :: "(nat \<times> u8 list) list" where "sample_pages = [(7, replicate 512 5), (3, replicate 512 6)]"

definition sample_file :: wal_file where
  "sample_file = \<lparr>wf_bytes = [], mxWalSize = 0, truncateOnCommit = False, syncHeader = True, padToSectorBoundary = True, sectorSize = 4096\<rparr>"

lemma sample_simps [simp]:
  "length sample_salt = 8" "sample_pages \<noteq> []" "\<forall>p\<in>set sample_pages. wf_page 512 p" "map_ok (sample_wal n)" "wal_usable (sample_wal n)" "valid_page_size 512"
proof -
  show "valid_page_size 512" unfolding valid_page_size_def by (rule exI [of _ 9]) simp
qed (simp_all add: sample_salt_def sample_pages_def wf_page_def map_ok_def sample_wal_def wal_usable_def)

lemma sample_frames: "\<forall>x\<in>set (tx_frames 7 sample_pages @ [(9, 0, replicate 512 1)]). wf_frame 512 x"
  "last_commit (tx_frames 7 sample_pages @ [(9, 0, replicate 512 1)]) = 2"
  by (simp_all add: sample_pages_def wf_frame_def last_commit_def)

lemma sample_writer: "writer_at 512 0 sample_salt sample_salt [] sample_index (sample_wal 0) []"
  by (auto simp: writer_at_def sample_wal_def sample_hdr_def intro: exI [of _ "[]"])

theorem frame_roundtrip_witness:
  "\<exists>a w'. walEncodeFrame (sample_wal 0) 7 1 (replicate 8 5) = (a, w') \<and> walDecodeFrame (sample_wal 0) (replicate 8 5) a = (Some (7, 1), w')"
proof -
  obtain a w' where a: "walEncodeFrame (sample_wal 0) 7 1 (replicate 8 5) = (a, w')" by fastforce
  from frame_roundtrip [OF a] a show ?thesis by (simp add: sample_wal_def sample_hdr_def)
qed

theorem recover_committed_witness:
  "\<exists>h c rc wi' w' e'. walHeader 512 0 sample_salt = (h, c) \<and>
     walIndexRecover False True (h @ log_bytes sample_salt c (tx_frames 7 sample_pages @ [(9, 0, replicate 512 1)]) @ [1, 2, 3]) sample_index (sample_wal 0)
       (sample_env SQLITE_OK) = (rc, wi', w', e') \<and>
     (\<forall>r. w_hdr r = wi_hdr wi' \<longrightarrow> wal_usable r \<longrightarrow> wal_lookup wi' r 3 = 2 \<and> wal_lookup wi' r 9 = 0)"
proof -
  let ?fr = "tx_frames 7 sample_pages @ [(9, 0, replicate 512 1)]"
  obtain h c where h: "walHeader 512 0 sample_salt = (h, c)" by (metis surj_pair)
  obtain rc wi' w' e' where r: "walIndexRecover False True (h @ log_bytes sample_salt c ?fr @ [1, 2, 3]) sample_index (sample_wal 0) (sample_env SQLITE_OK) =
      (rc, wi', w', e')" by (metis prod.exhaust)
  have "log_ends 512 sample_salt [1, 2, 3]" by (simp add: log_ends_def)
  then have "wal_lookup wi' r p = latest (map fst ?fr) 2 p" if "w_hdr r = wi_hdr wi'" "wal_usable r" for r p
    using recover_committed [OF _ _ sample_frames(1) h _ sample_env_simps(1) _ r that] sample_frames(2) by simp
  then show ?thesis using h r by (auto simp: sample_pages_def numeral_2_eq_2)
qed

theorem recover_publishes_witness:
  "\<exists>h c wi' w' e'. walHeader 512 0 sample_salt = (h, c) \<and>
     walIndexRecover False True (h @ log_bytes sample_salt c (tx_frames 7 sample_pages @ [(9, 0, replicate 512 1)]) @ [1, 2, 3]) sample_index (sample_wal 0)
       (sample_env SQLITE_OK) = (SQLITE_OK, wi', w', e') \<and> h_mxFrame (wi_hdr wi') = 2"
proof -
  let ?fr = "tx_frames 7 sample_pages @ [(9, 0, replicate 512 1)]"
  obtain h c where h: "walHeader 512 0 sample_salt = (h, c)" by (metis surj_pair)
  obtain rc wi' w' e' where r: "walIndexRecover False True (h @ log_bytes sample_salt c ?fr @ [1, 2, 3]) sample_index (sample_wal 0) (sample_env SQLITE_OK) =
      (rc, wi', w', e')" by (metis prod.exhaust)
  have "log_ends 512 sample_salt [1, 2, 3]" by (simp add: log_ends_def)
  then show ?thesis using recover_publishes [OF _ _ sample_frames(1) h _ sample_env_simps(1) _ r] sample_frames(2) h r by auto
qed

lemma sample_commit:
  "\<exists>wi' w' F' e'. sqlite3WalFrames 512 sample_pages 7 True True sample_salt sample_index (sample_wal 0) sample_file (sample_env SQLITE_OK) = (SQLITE_OK, wi', w', F', e')"
proof -
  have m: "mxFrame (sample_wal 0) \<le> length ([] :: nat list)" by (simp add: sample_wal_def sample_hdr_def)
  have w: "writer_at 512 0 sample_salt sample_salt [] sample_index (sample_wal 0) (wf_bytes sample_file)" using sample_writer by (simp add: sample_file_def)
  show ?thesis by (rule undisturbed_Frames [OF sample_env_simps(1) _ _ m _ _ _ w]) simp_all
qed

theorem frames_extend_log_witness:
  "\<exists>wi' w' F' e' n. sqlite3WalFrames 512 sample_pages 7 True True sample_salt sample_index (sample_wal 0) sample_file (sample_env SQLITE_OK) = (SQLITE_OK, wi', w', F', e') \<and>
     writer_at 512 0 sample_salt sample_salt (added 7 sample_pages n) wi' w' (wf_bytes F')"
proof -
  obtain wi' w' F' e' where s: "sqlite3WalFrames 512 sample_pages 7 True True sample_salt sample_index (sample_wal 0) sample_file (sample_env SQLITE_OK) =
      (SQLITE_OK, wi', w', F', e')" using sample_commit by blast
  have "writer_at 512 0 sample_salt sample_salt [] sample_index (sample_wal 0) (wf_bytes sample_file)" using sample_writer by (simp add: sample_file_def)
  from frames_extend_log [OF this _ _ _ s] s show ?thesis by auto
qed

theorem commit_survives_crash_witness:
  "\<exists>wi' w' F' e' rc wi3 w3 e3.
     sqlite3WalFrames 512 sample_pages 7 True True sample_salt sample_index (sample_wal 0) sample_file (sample_env SQLITE_OK) = (SQLITE_OK, wi', w', F', e') \<and>
     walIndexRecover False True (take (log_size 512 (mxFrame w')) (wf_bytes F')) sample_index (sample_wal 0) (sample_env SQLITE_OK) = (rc, wi3, w3, e3) \<and>
     wal_lookup wi3 ((sample_wal 0)\<lparr>w_hdr := wi_hdr wi3\<rparr>) 7 = wal_lookup wi' ((sample_wal 0)\<lparr>w_hdr := wi_hdr wi'\<rparr>) 7"
proof -
  obtain wi' w' F' e' where s: "sqlite3WalFrames 512 sample_pages 7 True True sample_salt sample_index (sample_wal 0) sample_file (sample_env SQLITE_OK) =
      (SQLITE_OK, wi', w', F', e')" using sample_commit by blast
  let ?f = "take (log_size 512 (mxFrame w')) (wf_bytes F')"
  obtain rc wi3 w3 e3 where r: "walIndexRecover False True ?f sample_index (sample_wal 0) (sample_env SQLITE_OK) = (rc, wi3, w3, e3)" by (metis prod.exhaust)
  have w: "writer_at 512 0 sample_salt sample_salt [] sample_index (sample_wal 0) (wf_bytes sample_file)" using sample_writer by (simp add: sample_file_def)
  have u: "wal_usable ((sample_wal 0)\<lparr>w_hdr := x\<rparr>)" for x by (simp add: wal_usable_def map_ok_def sample_wal_def)
  have l: "log_ends 512 sample_salt (drop (log_size 512 (mxFrame w')) ?f)" by (simp add: log_ends_def)
  have "wal_lookup wi3 ((sample_wal 0)\<lparr>w_hdr := wi_hdr wi3\<rparr>) 7 = wal_lookup wi' ((sample_wal 0)\<lparr>w_hdr := wi_hdr wi'\<rparr>) 7"
    by (rule commit_survives_crash [OF _ w _ _ _ _ s _ l sample_env_simps(1) _ r _ u _ u]) simp_all
  then show ?thesis using s r by blast
qed

end
