(* ===== verification/Wal_Read.thy ===== *)
theory Wal_Read
  imports Wal_File
begin

text \<open>
  Transactions on the write-ahead log (wal.c): reading the header of the index, the choice of a read mark, the beginning of read and write
  transactions, the restart of a log, the entry point of a checkpoint and the reading of a frame.

  Other connections run at the same time. The environment \<open>read_env\<close> holds what they do: before observation number \<open>t\<close> of the shared index they
  change it by the function \<open>re_other t\<close>, which is arbitrary. The functions observe the index wherever the code reads shared memory after a call that lets
  others run. The two copies of the header are two observations; the checksum against a torn copy is not modelled.
\<close>

section \<open>The environment\<close>

record read_env =
  re_env :: wal_env
  re_shared :: "nat \<Rightarrow> nat \<Rightarrow> int"
  re_tries :: nat
  re_other :: "nat \<Rightarrow> WalIndex \<Rightarrow> WalIndex"
  re_now :: nat
  re_page0 :: bool
  re_rdonly :: bool

abbreviation (input) SQLITE_PROTOCOL :: int where "SQLITE_PROTOCOL \<equiv> 15"
abbreviation (input) SQLITE_BUSY_RECOVERY :: int where "SQLITE_BUSY_RECOVERY \<equiv> 261"
abbreviation (input) SQLITE_BUSY_SNAPSHOT :: int where "SQLITE_BUSY_SNAPSHOT \<equiv> 517"
abbreviation (input) SQLITE_READONLY_RECOVERY :: int where "SQLITE_READONLY_RECOVERY \<equiv> 264"
abbreviation (input) SQLITE_READONLY_CANTLOCK :: int where "SQLITE_READONLY_CANTLOCK \<equiv> 520"
abbreviation (input) WAL_RETRY :: int where "WAL_RETRY \<equiv> -1"
abbreviation (input) WAL_WRITE_LOCK :: nat where "WAL_WRITE_LOCK \<equiv> 0"
abbreviation (input) WAL_CKPT_LOCK :: nat where "WAL_CKPT_LOCK \<equiv> 1"
abbreviation (input) WAL_RECOVER_LOCK :: nat where "WAL_RECOVER_LOCK \<equiv> 2"

definition observe :: "WalIndex \<Rightarrow> read_env \<Rightarrow> WalIndex \<times> read_env" where
  "observe wi e = (re_other e (re_now e) wi, e\<lparr>re_now := re_now e + 1\<rparr>)"

definition walLockShared :: "read_env \<Rightarrow> nat \<Rightarrow> int \<times> read_env" where
  "walLockShared e lockIdx =
     (if we_exclusive (re_env e) then (SQLITE_OK, e) else (re_shared e (re_tries e) lockIdx, e\<lparr>re_tries := re_tries e + 1\<rparr>))"

definition lock_exclusive :: "read_env \<Rightarrow> nat \<Rightarrow> nat \<Rightarrow> int \<times> read_env" where
  "lock_exclusive e lockIdx n = (let (rc, e1) = walLockExclusive (re_env e) lockIdx n in (rc, e\<lparr>re_env := e1\<rparr>))"

section \<open>The header of the index\<close>

text \<open>The first component is true when the header could not be read, the second when the copy of the connection has changed.\<close>

definition walIndexTryHdr :: "WalIndex \<Rightarrow> Wal \<Rightarrow> read_env \<Rightarrow> bool \<times> bool \<times> WalIndex \<times> Wal \<times> read_env" where
  "walIndexTryHdr wi w e =
     (let (wi, e) = observe wi e; h1 = wi_hdr wi; (wi, e) = observe wi e; h2 = wi_hdr wi in
      if h1 \<noteq> h2 then (True, False, wi, w, e)
      else if h_isInit h1 = 0 then (True, False, wi, w, e)
      else if w_hdr w \<noteq> h1 then
        (False, True, wi, w\<lparr>w_hdr := h1, szPage := (h_szPage h1 AND 0xfe00) + push_bit 16 (h_szPage h1 AND 1)\<rparr>, e)
      else (False, False, wi, w, e))"

text \<open>\<open>f\<close> is the file of the log and \<open>m\<close> the outcome of the allocation in the recovery.\<close>

definition walIndexReadHdr :: "u8 list \<Rightarrow> bool \<Rightarrow> WalIndex \<Rightarrow> Wal \<Rightarrow> read_env \<Rightarrow> int \<times> bool \<times> WalIndex \<times> Wal \<times> read_env" where
  "walIndexReadHdr f m wi w e =
     (let (rc, w) = walIndexPage w 0 in
      if rc \<noteq> SQLITE_OK then (rc, False, wi, w, e)
      else
        (let (badHdr, chg, wi, w, e) = (if re_page0 e then walIndexTryHdr wi w e else (True, False, wi, w, e));
             (rc, badHdr, chg, wi, w, e) =
               (if \<not> badHdr then (rc, badHdr, chg, wi, w, e)
                else if re_rdonly e then
                  (let (rc, e) = walLockShared e WAL_WRITE_LOCK in
                   (if rc = SQLITE_OK then SQLITE_READONLY_RECOVERY else rc, badHdr, chg, wi, w, e))
                else
                  (let (rc, e) = lock_exclusive e WAL_WRITE_LOCK 1 in
                   if rc \<noteq> SQLITE_OK then (rc, badHdr, chg, wi, w, e)
                   else
                     (let (rc, w) = walIndexPage w 0 in
                      if rc \<noteq> SQLITE_OK then (rc, badHdr, chg, wi, w, e)
                      else
                        (let (badHdr, chg', wi, w, e) = walIndexTryHdr wi w e in
                         if badHdr then
                           (let (rc, wi, w, e1) = walIndexRecover False m f wi w (re_env e) in (rc, badHdr, True, wi, w, e\<lparr>re_env := e1\<rparr>))
                         else (rc, badHdr, chg \<or> chg', wi, w, e)))))
         in if \<not> badHdr \<and> h_iVersion (w_hdr w) \<noteq> 3007000 then (SQLITE_CANTOPEN, chg, wi, w, e) else (rc, chg, wi, w, e)))"

section \<open>Read transactions\<close>

text \<open>The largest mark that does not exceed the snapshot, with its slot.\<close>

fun mark_loop :: "WalIndex \<Rightarrow> nat \<Rightarrow> nat list \<Rightarrow> nat \<Rightarrow> nat \<Rightarrow> nat \<times> nat" where
  "mark_loop wi mx [] mxReadMark mxI = (mxReadMark, mxI)"
| "mark_loop wi mx (i # is) mxReadMark mxI =
     (let thisMark = aReadMark wi ! i in
      if mxReadMark \<le> thisMark \<and> thisMark \<le> mx then mark_loop wi mx is thisMark i else mark_loop wi mx is mxReadMark mxI)"

text \<open>Setting the mark of a slot that nobody uses. The first component is true when the function is left with an error.\<close>

fun slot_loop :: "nat \<Rightarrow> nat list \<Rightarrow> int \<Rightarrow> nat \<Rightarrow> nat \<Rightarrow> WalIndex \<Rightarrow> read_env \<Rightarrow> bool \<times> int \<times> nat \<times> nat \<times> WalIndex \<times> read_env" where
  "slot_loop mx [] rc mxReadMark mxI wi e = (False, rc, mxReadMark, mxI, wi, e)"
| "slot_loop mx (i # is) rc mxReadMark mxI wi e =
     (let (rc, e) = lock_exclusive e (WAL_READ_LOCK i) 1; (wi, e) = observe wi e in
      if rc = SQLITE_OK then (False, rc, mx, i, wi\<lparr>aReadMark := (aReadMark wi)[i := mx]\<rparr>, e)
      else if rc \<noteq> SQLITE_BUSY then (True, rc, mxReadMark, mxI, wi, e)
      else slot_loop mx is rc mxReadMark mxI wi e)"

text \<open>The part of \<open>walTryBeginRead\<close> that chooses a mark and locks its slot.\<close>

definition take_mark :: "int \<Rightarrow> WalIndex \<Rightarrow> Wal \<Rightarrow> read_env \<Rightarrow> int \<times> WalIndex \<times> Wal \<times> read_env" where
  "take_mark rc wi w e =
     (let (mxReadMark, mxI) = mark_loop wi (mxFrame w) [1..<WAL_NREADER] 0 0;
          (out, rc, mxReadMark, mxI, wi, e) =
            (if \<not> re_rdonly e \<and> (mxReadMark < mxFrame w \<or> mxI = 0) then slot_loop (mxFrame w) [1..<WAL_NREADER] rc mxReadMark mxI wi e
             else (False, rc, mxReadMark, mxI, wi, e))
      in if out then (rc, wi, w, e)
         else if mxI = 0 then (if rc = SQLITE_BUSY then WAL_RETRY else SQLITE_READONLY_CANTLOCK, wi, w, e)
         else
           (let (rc, e) = walLockShared e (WAL_READ_LOCK mxI) in
            if rc \<noteq> SQLITE_OK then (if rc = SQLITE_BUSY then WAL_RETRY else rc, wi, w, e)
            else
              (let (wi, e) = observe wi e in
               if aReadMark wi ! mxI \<noteq> mxReadMark \<or> wi_hdr wi \<noteq> w_hdr w then (WAL_RETRY, wi, w, e)
               else (rc, wi, w\<lparr>readLock := int mxI\<rparr>, e))))"

definition walTryBeginRead :: "u8 list \<Rightarrow> bool \<Rightarrow> bool \<Rightarrow> nat \<Rightarrow> WalIndex \<Rightarrow> Wal \<Rightarrow> read_env \<Rightarrow> int \<times> bool \<times> WalIndex \<times> Wal \<times> read_env" where
  "walTryBeginRead f m useWal cnt wi w e =
     (if cnt > 100 then (SQLITE_PROTOCOL, False, wi, w, e)
      else
        (let (rc, chg, wi, w, e) =
               (if useWal then (SQLITE_OK, False, wi, w, e)
                else
                  (let (rc, chg, wi, w, e) = walIndexReadHdr f m wi w e in
                   if rc \<noteq> SQLITE_BUSY then (rc, chg, wi, w, e)
                   else if 0 \<notin> set (apWiData w) then (WAL_RETRY, chg, wi, w, e)
                   else
                     (let (rc, e) = walLockShared e WAL_RECOVER_LOCK in
                      (if rc = SQLITE_OK then WAL_RETRY else if rc = SQLITE_BUSY then SQLITE_BUSY_RECOVERY else rc, chg, wi, w, e))))
         in if rc \<noteq> SQLITE_OK then (rc, chg, wi, w, e)
            else
              (let (wi, e) = observe wi e in
               if \<not> useWal \<and> nBackfill wi = mxFrame w then
                 (let (rc, e) = walLockShared e (WAL_READ_LOCK 0); (wi, e) = observe wi e in
                  if rc = SQLITE_OK then
                    (if wi_hdr wi \<noteq> w_hdr w then (WAL_RETRY, chg, wi, w, e) else (SQLITE_OK, chg, wi, w\<lparr>readLock := 0\<rparr>, e))
                  else if rc \<noteq> SQLITE_BUSY then (rc, chg, wi, w, e)
                  else let (rc, wi, w, e) = take_mark rc wi w e in (rc, chg, wi, w, e))
               else let (rc, wi, w, e) = take_mark rc wi w e in (rc, chg, wi, w, e))))"

text \<open>The hundred and first attempt at the latest does not ask for a retry.\<close>

lemma walTryBeginRead_gives_up: "walTryBeginRead f m useWal cnt wi w e = (WAL_RETRY, r) \<Longrightarrow> cnt \<le> 100"
  by (auto simp: walTryBeginRead_def split: if_splits)

text \<open>The number of attempts comes with the result.\<close>

function begin_loop :: "u8 list \<Rightarrow> bool \<Rightarrow> bool \<Rightarrow> nat \<Rightarrow> WalIndex \<Rightarrow> Wal \<Rightarrow> read_env \<Rightarrow> nat \<times> int \<times> bool \<times> WalIndex \<times> Wal \<times> read_env" where
  "begin_loop f m useWal cnt wi w e =
     (let (rc, chg, wi, w, e) = walTryBeginRead f m useWal (cnt + 1) wi w e in
      if rc = WAL_RETRY then (let (k, rc, chg', wi, w, e) = begin_loop f m useWal (cnt + 1) wi w e in (k, rc, chg \<or> chg', wi, w, e))
      else (cnt + 1, rc, chg, wi, w, e))"
  by pat_completeness auto
termination
proof (relation "measure (\<lambda>(f, m, u, cnt, wi, w, e). 101 - cnt)", goal_cases)
  case (2 f m useWal cnt wi w e x rc x1 chg x2 wi' x3 w' e')
  then have "walTryBeginRead f m useWal (cnt + 1) wi w e = (WAL_RETRY, chg, wi', w', e')" by simp
  from walTryBeginRead_gives_up [OF this] show ?case by simp
qed simp

declare begin_loop.simps [simp del]

definition sqlite3WalBeginReadTransaction :: "u8 list \<Rightarrow> bool \<Rightarrow> WalIndex \<Rightarrow> Wal \<Rightarrow> read_env \<Rightarrow> int \<times> bool \<times> WalIndex \<times> Wal \<times> read_env" where
  "sqlite3WalBeginReadTransaction f m wi w e = snd (begin_loop f m False 0 wi w e)"

definition sqlite3WalEndReadTransaction :: "Wal \<Rightarrow> Wal" where
  "sqlite3WalEndReadTransaction w = (if readLock w \<ge> 0 then w\<lparr>readLock := -1\<rparr> else w)"

section \<open>Write transactions\<close>

text \<open>\<open>readOnly\<close> is the field of the connection; the second component of the result is its \<open>writeLock\<close>.\<close>

definition sqlite3WalBeginWriteTransaction :: "bool \<Rightarrow> WalIndex \<Rightarrow> Wal \<Rightarrow> read_env \<Rightarrow> int \<times> bool \<times> WalIndex \<times> read_env" where
  "sqlite3WalBeginWriteTransaction readOnly wi w e =
     (if readOnly then (SQLITE_READONLY, False, wi, e)
      else
        (let (rc, e) = lock_exclusive e WAL_WRITE_LOCK 1 in
         if rc \<noteq> SQLITE_OK then (rc, False, wi, e)
         else
           (let (wi, e) = observe wi e in
            if w_hdr w \<noteq> wi_hdr wi then (SQLITE_BUSY_SNAPSHOT, False, wi, e) else (SQLITE_OK, True, wi, e))))"

text \<open>A writer that reads from the database only starts the log again if no other connection reads from it, and takes a read mark then.\<close>

definition walRestartLog :: "u8 list \<Rightarrow> bool \<Rightarrow> u8 list \<Rightarrow> WalIndex \<Rightarrow> Wal \<Rightarrow> read_env \<Rightarrow> int \<times> WalIndex \<times> Wal \<times> read_env" where
  "walRestartLog f m salt1 wi w e =
     (if readLock w \<noteq> 0 then (SQLITE_OK, wi, w, e)
      else
        (let (rc, wi, w, e) =
               (if nBackfill wi > 0 then
                  (let (rc, e) = lock_exclusive e (WAL_READ_LOCK 1) (WAL_NREADER - 1) in
                   if rc = SQLITE_OK then let (wi, w) = restart_log wi w salt1 in (rc, wi, w, e) else (rc, wi, w, e))
                else (SQLITE_OK, wi, w, e))
         in if rc \<noteq> SQLITE_OK \<and> rc \<noteq> SQLITE_BUSY then (rc, wi, w, e)
            else
              (let (k, rc, chg, wi, w, e) = begin_loop f m True 0 wi (w\<lparr>readLock := -1\<rparr>) e in (rc, wi, w, e))))"

section \<open>Checkpoints and frames\<close>

definition walPagesize :: "Wal \<Rightarrow> nat" where
  "walPagesize w = (h_szPage (w_hdr w) AND 0xfe00) + push_bit 16 (h_szPage (w_hdr w) AND 1)"

text \<open>\<open>sqlite3WalCheckpoint\<close> takes the size of the buffer and returns the numbers of frames in the log and of those copied, when it sets them.\<close>

definition sqlite3WalCheckpoint :: "u8 list \<Rightarrow> bool \<Rightarrow> bool \<Rightarrow> (nat \<Rightarrow> u8 list) \<Rightarrow> nat \<Rightarrow> bool \<Rightarrow> bool \<Rightarrow> nat \<Rightarrow> bool \<times> bool \<Rightarrow>
    WalIndex \<Rightarrow> Wal \<Rightarrow> db_file \<Rightarrow> read_env \<Rightarrow> int \<times> (nat \<times> nat) option \<times> WalIndex \<times> Wal \<times> db_file \<times> read_env" where
  "sqlite3WalCheckpoint f m readOnly fdata eMode xBusy sync_flags nBuf a wi w db e =
     (if readOnly then (SQLITE_READONLY, None, wi, w, db, e)
      else
        (let (rc, e) = lock_exclusive e WAL_CKPT_LOCK 1 in
         if rc \<noteq> SQLITE_OK then (rc, None, wi, w, db, e)
         else
           (let (rc, eMode2, e) =
                  (if eMode \<noteq> SQLITE_CHECKPOINT_PASSIVE then
                     (let (rc, e1) = walBusyLock (re_env e) xBusy WAL_WRITE_LOCK 1; e = e\<lparr>re_env := e1\<rparr> in
                      if rc = SQLITE_BUSY then (SQLITE_OK, SQLITE_CHECKPOINT_PASSIVE, e) else (rc, eMode, e))
                   else (rc, eMode, e));
                (rc, chg, wi, w, e) = (if rc = SQLITE_OK then walIndexReadHdr f m wi w e else (rc, False, wi, w, e));
                (rc, res, wi, w, db, e) =
                  (if rc = SQLITE_OK then
                     (let (rc, wi, w, db, e) =
                            (if mxFrame w \<noteq> 0 \<and> walPagesize w \<noteq> nBuf then (SQLITE_CORRUPT, wi, w, db, e)
                             else
                               (let (rc, wi, w, db, e1) = walCheckpoint fdata eMode2 xBusy sync_flags a wi w db (re_env e) in
                                (rc, wi, w, db, e\<lparr>re_env := e1\<rparr>)))
                      in (rc, if rc = SQLITE_OK \<or> rc = SQLITE_BUSY then Some (mxFrame w, nBackfill wi) else None, wi, w, db, e))
                   else (rc, None, wi, w, db, e));
                w = (if chg then w\<lparr>w_hdr := zero_hdr\<rparr> else w)
            in (if rc = SQLITE_OK \<and> eMode \<noteq> eMode2 then SQLITE_BUSY else rc, res, wi, w, db, e))))"

definition sqlite3WalReadFrame :: "Wal \<Rightarrow> nat \<Rightarrow> nat \<Rightarrow> u8 list \<Rightarrow> wal_env \<Rightarrow> int \<times> u8 list \<times> wal_env" where
  "sqlite3WalReadFrame w iRead nOut f e =
     (let sz = walPagesize w; iOffset = walFrameOffset iRead sz + 24; (rc, e) = io_op e in
      (rc, take (if nOut > sz then sz else nOut) (drop iOffset f), e))"

definition sqlite3WalDbsize :: "Wal \<Rightarrow> nat" where
  "sqlite3WalDbsize w = (if readLock w \<ge> 0 then h_nPage (w_hdr w) else 0)"

section \<open>Lemmas\<close>

lemma mark_loop_ok:
  "mark_loop wi mx is m k = (m', k') \<Longrightarrow> m \<le> mx \<Longrightarrow> \<forall>i\<in>set is. i < WAL_NREADER \<Longrightarrow> k < WAL_NREADER \<Longrightarrow> m' \<le> mx \<and> k' < WAL_NREADER"
  by (induction wi mx "is" m k rule: mark_loop.induct) (auto simp: Let_def split: if_splits)

lemma slot_loop_ok:
  "slot_loop mx is rc m k wi e = (out, rc', m', k', wi', e') \<Longrightarrow> m \<le> mx \<Longrightarrow> \<forall>i\<in>set is. i < WAL_NREADER \<Longrightarrow> k < WAL_NREADER \<Longrightarrow>
   m' \<le> mx \<and> k' < WAL_NREADER \<and> (out \<longrightarrow> rc' \<noteq> SQLITE_OK)"
  by (induction mx "is" rc m k wi e rule: slot_loop.induct) (auto simp: Let_def split: if_splits prod.splits)

text \<open>What holds when a read transaction has begun: the header is the current one, and the mark of the slot does not exceed the snapshot.\<close>

definition snapshot_taken :: "WalIndex \<Rightarrow> Wal \<Rightarrow> bool" where
  "snapshot_taken wi w \<longleftrightarrow> w_hdr w = wi_hdr wi \<and> 0 \<le> readLock w \<and> readLock w < int WAL_NREADER \<and>
     (0 < readLock w \<longrightarrow> aReadMark wi ! nat (readLock w) \<le> mxFrame w)"

lemma take_mark_ok:
  assumes "take_mark rc wi w e = (SQLITE_OK, wi', w', e')"
  shows "snapshot_taken wi' w' \<and> 0 < readLock w'"
proof -
  obtain m k where m: "mark_loop wi (mxFrame w) [1..<WAL_NREADER] 0 0 = (m, k)" by fastforce
  have m1: "m \<le> mxFrame w \<and> k < WAL_NREADER" using mark_loop_ok [OF m] by simp
  obtain out rc1 m1 k1 wi1 e1 where s: "(if \<not> re_rdonly e \<and> (m < mxFrame w \<or> k = 0) then slot_loop (mxFrame w) [1..<WAL_NREADER] rc m k wi e
      else (False, rc, m, k, wi, e)) = (out, rc1, m1, k1, wi1, e1)" by (metis prod.exhaust)
  have s1: "m1 \<le> mxFrame w \<and> k1 < WAL_NREADER \<and> (out \<longrightarrow> rc1 \<noteq> SQLITE_OK)"
    using s m1 slot_loop_ok [of "mxFrame w" "[1..<WAL_NREADER]" rc m k wi e out rc1 m1 k1 wi1 e1] by (auto split: if_splits)
  obtain rc2 e2 where l: "walLockShared e1 (WAL_READ_LOCK k1) = (rc2, e2)" by fastforce
  obtain wi2 e3 where o: "observe wi1 e2 = (wi2, e3)" by fastforce
  note U = assms [unfolded take_mark_def Let_def m prod.case s l o]
  have "\<not> out" "k1 \<noteq> 0" "aReadMark wi2 ! k1 = m1" "wi_hdr wi2 = w_hdr w" "wi' = wi2" "w' = w\<lparr>readLock := int k1\<rparr>"
    using U s1 by (auto split: if_splits)
  then show ?thesis using s1 by (simp add: snapshot_taken_def)
qed

lemma snapshot_taken_slot_0: "wi_hdr wi = w_hdr w \<Longrightarrow> snapshot_taken wi (w\<lparr>readLock := 0\<rparr>)"
  by (simp add: snapshot_taken_def)

lemma walTryBeginRead_ok:
  assumes "walTryBeginRead f m useWal cnt wi w e = (SQLITE_OK, chg, wi', w', e')"
  shows "snapshot_taken wi' w' \<and> (useWal \<longrightarrow> 0 < readLock w')"
  using assms
  by (auto simp: walTryBeginRead_def Let_def dest!: take_mark_ok intro!: snapshot_taken_slot_0 split: if_splits prod.splits)

lemma begin_loop_ok:
  "begin_loop f m useWal cnt wi w e = (k, rc, chg, wi', w', e') \<Longrightarrow> cnt \<le> 100 \<Longrightarrow>
   rc \<noteq> WAL_RETRY \<and> k \<le> 101 \<and> (rc = SQLITE_OK \<longrightarrow> snapshot_taken wi' w' \<and> (useWal \<longrightarrow> 0 < readLock w'))"
proof (induction f m useWal cnt wi w e arbitrary: k rc chg rule: begin_loop.induct)
  case (1 f m useWal cnt wi w e)
  obtain rc1 chg1 wi1 w1 e1 where t: "walTryBeginRead f m useWal (cnt + 1) wi w e = (rc1, chg1, wi1, w1, e1)" by (metis prod.exhaust)
  note loop = begin_loop.simps [of f m useWal cnt wi w e]
  show ?case
  proof (cases "rc1 = WAL_RETRY")
    case True
    obtain k2 rc2 chg2 wi2 w2 e2 where l: "begin_loop f m useWal (cnt + 1) wi1 w1 e1 = (k2, rc2, chg2, wi2, w2, e2)" by (metis prod.exhaust)
    have "cnt + 1 \<le> 100" using walTryBeginRead_gives_up t True by blast
    moreover have eq: "(k2, rc2, wi2, w2, e2) = (k, rc, wi', w', e')" using "1.prems"(1) t True l by (simp add: loop)
    ultimately show ?thesis using "1.IH" [OF t [symmetric] refl refl refl refl True, of k2 rc2 chg2] l by simp
  next
    case False
    then have "k = cnt + 1" "rc = rc1" "wi' = wi1" "w' = w1" "e' = e1" "chg = chg1" using "1.prems"(1) t by (simp_all add: loop)
    then show ?thesis using False "1.prems"(2) walTryBeginRead_ok [of f m useWal "cnt + 1" wi w e chg wi' w' e'] t by auto
  qed
qed

section \<open>Properties\<close>

text \<open>C39: A read transaction takes a consistent snapshot. Whatever other connections do to the index while \<open>sqlite3WalBeginReadTransaction\<close> runs, when it returns
  successfully the header copied is the one in the index, and the mark of the slot whose lock is held does not exceed the snapshot.\<close>

theorem begin_read_snapshot:
  assumes "sqlite3WalBeginReadTransaction f m wi w e = (SQLITE_OK, chg, wi', w', e')"
  shows "w_hdr w' = wi_hdr wi' \<and> 0 \<le> readLock w' \<and> readLock w' < 5 \<and> (0 < readLock w' \<longrightarrow> aReadMark wi' ! nat (readLock w') \<le> mxFrame w')"
proof -
  obtain k where "begin_loop f m False 0 wi w e = (k, SQLITE_OK, chg, wi', w', e')"
    using assms by (cases "begin_loop f m False 0 wi w e") (simp add: sqlite3WalBeginReadTransaction_def)
  from begin_loop_ok [OF this] have "snapshot_taken wi' w'" by simp
  then show ?thesis unfolding snapshot_taken_def by auto
qed

text \<open>Beginning a read transaction ends after at most 101 attempts, whatever other connections do, and never returns the code that asks for a retry.\<close>

theorem begin_read_ends:
  "fst (begin_loop f m False 0 wi w e) \<le> 101 \<and> fst (sqlite3WalBeginReadTransaction f m wi w e) \<noteq> WAL_RETRY"
proof -
  obtain k rc chg wi' w' e' where l: "begin_loop f m False 0 wi w e = (k, rc, chg, wi', w', e')" by (metis prod.exhaust)
  from begin_loop_ok [OF l] show ?thesis by (simp add: sqlite3WalBeginReadTransaction_def l)
qed

lemma safe_loop_out: "safe_loop is rc wi e mx xb = (True, rc', r) \<Longrightarrow> rc' \<noteq> SQLITE_OK"
  by (induction "is" rc wi e mx xb rule: safe_loop.induct) (auto simp: Let_def split: if_splits prod.splits)

lemma walCheckpoint_hdr:
  assumes "walCheckpoint fdata eMode xBusy sync a wi w db e = (rc, wi', w', db', e')"
  shows "w_hdr w' = w_hdr w \<and> (rc = SQLITE_OK \<longrightarrow> eMode \<noteq> SQLITE_CHECKPOINT_PASSIVE \<longrightarrow> mxFrame w \<le> nBackfill wi')"
proof (cases "mxFrame w \<le> nBackfill wi")
  case True
  then show ?thesis using assms by (simp add: walCheckpoint_def)
next
  case False
  then have mx: "0 < mxFrame w" by simp
  obtain rc1 p w1 where i: "walIteratorInit wi w a = (rc1, p, w1)" by (metis prod.exhaust)
  have h: "w_hdr w1 = w_hdr w" using walIteratorInit_ok(1) [OF mx i] .
  then have "w_hdr w' = w_hdr w" using assms False i
    by (auto simp: walCheckpoint_def Let_def split: if_splits prod.splits)
  moreover have "mxFrame w1 \<le> nBackfill wi'" if "rc = SQLITE_OK" "eMode \<noteq> SQLITE_CHECKPOINT_PASSIVE"
    using assms False i that
    by (auto simp: walCheckpoint_def Let_def dest: safe_loop_out split: if_splits prod.splits)
  ultimately show ?thesis using h by simp
qed

text \<open>A checkpoint in mode FULL or RESTART that returns \<open>SQLITE_OK\<close> has copied the whole log: the number of copied frames it reports is not less than
  the number of frames.\<close>

theorem checkpoint_full:
  assumes "sqlite3WalCheckpoint f m readOnly fdata eMode xBusy sync_flags nBuf a wi w db e = (SQLITE_OK, Some (nLog, nDone), wi', w', db', e')"
    "eMode \<noteq> SQLITE_CHECKPOINT_PASSIVE"
  shows "nLog \<le> nDone"
proof -
  obtain rc1 e1 where l: "lock_exclusive e WAL_CKPT_LOCK 1 = (rc1, e1)" by fastforce
  obtain rc2 b2 where b: "walBusyLock (re_env e1) xBusy WAL_WRITE_LOCK 1 = (rc2, b2)" by fastforce
  let ?e2 = "e1\<lparr>re_env := b2\<rparr>"
  obtain rc3 chg wi3 w3 e3 where r: "walIndexReadHdr f m wi w ?e2 = (rc3, chg, wi3, w3, e3)" by (metis prod.exhaust)
  obtain rc4 wi4 w4 db4 e4 where c: "walCheckpoint fdata eMode xBusy sync_flags a wi3 w3 db (re_env e3) = (rc4, wi4, w4, db4, e4)" by (metis prod.exhaust)
  have "nLog = mxFrame w4 \<and> nDone = nBackfill wi4 \<and> rc4 = SQLITE_OK"
    using assms l b r c by (auto simp: sqlite3WalCheckpoint_def Let_def split: if_splits prod.splits)
  then show ?thesis using walCheckpoint_hdr [OF c] assms(2) by simp
qed

section \<open>Other connections\<close>

text \<open>
  What the reader \<open>r\<close> shares with the other connections: the system of the index, the contents of the frames and the
  database file. While it holds the lock of its slot they may do the following, in any order.
  \<^item> Steps on the log: those of \<open>wal_step\<close>, other readers, a writer that appends, commits, rolls back, fails or stops, and, for a reader
    that uses the database only, also the restart of the log. A writer does not write into frames that are committed.
  \<^item> Changing the read marks of other slots.
  \<^item> Checkpoints, from the committed log of any time: they may know more or fewer frames than the reader. Two headers
    with the same last frame are of the same commit.
\<close>

record wal_world =
  ww_sys :: wal_sys
  ww_data :: "nat \<Rightarrow> u8 list"
  ww_db :: db_file

abbreviation ww_index :: "wal_world \<Rightarrow> WalIndex" where "ww_index x \<equiv> sy_index (ww_sys x)"

inductive others_step :: "Wal \<Rightarrow> nat list \<Rightarrow> wal_world \<Rightarrow> wal_world \<Rightarrow> bool" for r :: Wal and snap :: "nat list" where
  log_step:
    "wal_step (ww_sys x) s' \<Longrightarrow> (0 < readLock r \<longrightarrow> (r, snap) \<in> set (sy_readers s')) \<Longrightarrow>
     \<forall>p\<in>set (sy_frames s'). p < 0xffffffff \<Longrightarrow> \<forall>k \<le> committed (ww_sys x). fdata k = ww_data x k \<Longrightarrow>
     others_step r snap x (x\<lparr>ww_sys := s', ww_data := fdata\<rparr>)"
| mark_step:
    "(0 < readLock r \<longrightarrow> ms ! nat (readLock r) = aReadMark (ww_index x) ! nat (readLock r)) \<Longrightarrow>
     others_step r snap x (x\<lparr>ww_sys := (ww_sys x)\<lparr>sy_index := (ww_index x)\<lparr>aReadMark := ms\<rparr>\<rparr>\<rparr>)"
| checkpoint_step:
    "mxFrame w \<le> committed (ww_sys x) \<Longrightarrow> (mxFrame w = mxFrame r \<longrightarrow> h_nPage (w_hdr w) = h_nPage (w_hdr r)) \<Longrightarrow>
     holds_slot e (nat (readLock r)) \<Longrightarrow>
     walCheckpoint (ww_data x) eMode xBusy sync a (ww_index x) w (ww_db x) e = (rc, wi', w', db', e') \<Longrightarrow>
     others_step r snap x (x\<lparr>ww_sys := (ww_sys x)\<lparr>sy_index := wi'\<rparr>, ww_db := db'\<rparr>)"

text \<open>What the reader sees of a page.\<close>

definition ww_seen :: "wal_world \<Rightarrow> Wal \<Rightarrow> nat \<Rightarrow> u8 list" where
  "ww_seen x r p = seen (wal_lookup (ww_index x) r) (ww_data x) (ww_db x) p"

text \<open>What the other connections keep of the slot of the reader.\<close>

definition slot_kept :: "Wal \<Rightarrow> nat list \<Rightarrow> wal_world \<Rightarrow> bool" where
  "slot_kept r snap x \<longleftrightarrow> wal_inv (ww_sys x) \<and> (\<forall>p\<in>set (sy_frames (ww_sys x)). p < 0xffffffff) \<and>
     (0 < readLock r \<longrightarrow> (r, snap) \<in> set (sy_readers (ww_sys x)) \<and> aReadMark (ww_index x) ! nat (readLock r) \<le> mxFrame r)"

lemma wal_step_marks:
  "wal_step s s' \<Longrightarrow> wal_inv s \<Longrightarrow> sy_readers s \<noteq> [] \<Longrightarrow> aReadMark (sy_index s') = aReadMark (sy_index s)"
proof (induction rule: wal_step.induct)
  case (append s w iFrame p wi w')
  have i: "wal_rep (sy_index s) (sy_frames s)" "iFrame \<le> length (sy_frames s)" "iFrame < length (sy_frames s) \<longrightarrow> mxFrame w = iFrame"
    using append.prems append.hyps(1) by (auto simp: wal_inv_def)
  show ?case
    using IndexAppend_cases(2) [OF i append.hyps(2) append.hyps(3) [unfolded Suc_eq_plus1 [symmetric]]] by (simp add: same_shared_def)
next
  case (append_fails s w iFrame p rc wi w')
  have i: "wal_rep (sy_index s) (sy_frames s)" "iFrame \<le> length (sy_frames s)" "iFrame < length (sy_frames s) \<longrightarrow> mxFrame w = iFrame"
    using append_fails.prems append_fails.hyps(1) by (auto simp: wal_inv_def)
  show ?case
    using IndexAppend_cases(2) [OF i append_fails.hyps(2) append_fails.hyps(3) [unfolded Suc_eq_plus1 [symmetric]]] by (simp add: same_shared_def)
next
  case (frames_written s w iFrame sz nTruncate wi w')
  then show ?case by (auto simp: frames_done_def walIndexWriteHdr_def Let_def split: if_splits)
next
  case (undo s w rcs rc pages wi w')
  then have "wi = sy_index s \<or> wi = walCleanupHash (sy_index s) w'"
    by (auto simp: sqlite3WalUndo_def Let_def split: prod.splits if_splits)
  then show ?case using same_shared_simps(3) [of "sy_index s" w'] by (auto simp: same_shared_def)
next
  case (savepoint_undo s w sp wi w' sp')
  then have "wi = sy_index s \<or> wi = walCleanupHash (sy_index s) w'"
    by (auto simp: sqlite3WalSavepointUndo_def Let_def split: prod.splits if_splits)
  then show ?case using same_shared_simps(3) [of "sy_index s" w'] by (auto simp: same_shared_def)
qed auto

lemma safe_loop_marks:
  "safe_loop is rc wi e mx xb = (out, rc', wi', e', mx', xb') \<Longrightarrow> holds_slot e k \<Longrightarrow>
   aReadMark wi' ! k = aReadMark wi ! k"
proof (induction "is" rc wi e mx xb rule: safe_loop.induct)
  case (2 i "is" rc wi e mx xb)
  obtain rc1 e1 where l: "walBusyLock e xb (WAL_READ_LOCK i) 1 = (rc1, e1)" by fastforce
  have h: "holds_slot e1 k" using 2(5) same_locks_holds [OF walBusyLock_ok(1) [OF l]] by simp
  have "rc1 = SQLITE_OK \<Longrightarrow> i \<noteq> k" using walBusyLock_ok(2) [OF l, of k] 2(5) by auto
  then show ?case
    using 2(1) [OF refl _ l [symmetric] refl] 2(2) [OF refl _ l [symmetric] refl] 2(3) [OF refl] 2(4) l h 2(5)
    by (auto simp: Let_def split: if_splits)
qed simp

lemma walCheckpoint_marks:
  assumes "walCheckpoint fdata eMode xb sync m wi w db e = (rc, wi', w', db', e')" "holds_slot e k"
  shows "aReadMark wi' ! k = aReadMark wi ! k"
proof -
  obtain rc1 p w1 where i: "walIteratorInit wi w m = (rc1, p, w1)" by (metis prod.exhaust)
  obtain out rc2 wi2 e2 mxS xb2 where s: "safe_loop [1..<WAL_NREADER] rc1 wi e (mxFrame w1)
      (eMode \<noteq> SQLITE_CHECKPOINT_PASSIVE \<and> xb) = (out, rc2, wi2, e2, mxS, xb2)" by (metis prod.exhaust)
  have "aReadMark (fst (snd (backfill fdata sync q mx mp v c d en))) = aReadMark v" for q mx mp v c d en
    by (auto simp: backfill_def Let_def split: prod.split)
  then have b: "aReadMark v' = aReadMark v" if "backfill fdata sync q mx mp v c d en = (rc', v', d', e')" for q mx mp v c d en rc' v' d' e'
    using that by (metis fst_conv snd_conv)
  have "aReadMark wi' = aReadMark wi2 \<or> aReadMark wi' = aReadMark wi"
    using assms(1) i s by (auto simp: walCheckpoint_def Let_def split: if_splits prod.splits dest!: b)
  then show ?thesis using safe_loop_marks [OF s assms(2)] by auto
qed

lemma reader_lookup:
  assumes "wal_inv s" "(r, snap) \<in> set (sy_readers s)" "map_ok r"
  shows "wal_lookup (sy_index s) r p = latest snap (length snap) p" "length snap \<le> committed s" "mxFrame r = length snap"
proof -
  have i: "wal_rep (sy_index s) (sy_frames s)" "0 < readLock r" "mxFrame r = length snap" "length snap \<le> length (sy_frames s)"
    "snap = take (length snap) (sy_frames s)" "length snap \<le> committed s"
    using assms by (auto simp: wal_inv_def)
  then show "length snap \<le> committed s" "mxFrame r = length snap" by auto
  have "latest (sy_frames s) (length snap) p = latest snap (length snap) p"
    using latest_take [of "length snap" "length snap" "sy_frames s" p] i(4,5) by simp
  then show "wal_lookup (sy_index s) r p = latest snap (length snap) p"
    using walk.lookup_latest [OF i(1), of r p] i(2-4) assms(3) by (simp add: wal_usable_def)
qed

lemma wal_inv_index:
  assumes "wal_inv s" "wi_page wi = wi_page (sy_index s)" "wi_hdr wi = wi_hdr (sy_index s)"
  shows "wal_inv (s\<lparr>sy_index := wi\<rparr>)"
  using assms wal_rep_same_pages [OF assms(2)] by (simp add: wal_inv_def)

lemma others_step_keeps:
  assumes "others_step r snap x y" "slot_kept r snap x" "map_ok r" "0 \<le> readLock r" "readLock r < 5" "p \<le> h_nPage (w_hdr r)"
  shows "slot_kept r snap y \<and> ww_seen y r p = ww_seen x r p"
  using assms
proof (induction rule: others_step.induct)
  case (log_step x s' fdata)
  have i: "wal_inv (ww_sys x)" "wal_inv s'" using log_step wal_step_inv by (auto simp: slot_kept_def)
  show ?case
  proof (cases "readLock r = 0")
    case True
    then show ?thesis using i(2) log_step by (simp add: slot_kept_def ww_seen_def seen_def lookup_slot_0)
  next
    case False
    then have r: "0 < readLock r" "(r, snap) \<in> set (sy_readers (ww_sys x))" "(r, snap) \<in> set (sy_readers s')"
      using log_step by (auto simp: slot_kept_def)
    have "sy_readers (ww_sys x) \<noteq> []" using r(2) by (cases "sy_readers (ww_sys x)") auto
    then have "aReadMark (sy_index s') = aReadMark (ww_index x)" by (rule wal_step_marks [OF log_step.hyps(1) i(1)])
    moreover have "latest snap (length snap) p \<le> committed (ww_sys x)"
      using latest_le [of snap "length snap" p] reader_lookup(2) [OF i(1) r(2) assms(3)] by linarith
    ultimately show ?thesis
      using i(2) r log_step reader_lookup(1) [OF i(1) r(2) assms(3)] reader_lookup(1) [OF i(2) r(3) assms(3)]
      by (simp add: slot_kept_def ww_seen_def seen_def)
  qed
next
  case (mark_step ms x)
  let ?s = "(ww_sys x)\<lparr>sy_index := (ww_index x)\<lparr>aReadMark := ms\<rparr>\<rparr>"
  have i: "wal_inv (ww_sys x)" using mark_step by (simp add: slot_kept_def)
  then have i2: "wal_inv ?s" by (intro wal_inv_index) auto
  show ?case
  proof (cases "readLock r = 0")
    case True
    then show ?thesis using i2 mark_step by (simp add: slot_kept_def ww_seen_def seen_def lookup_slot_0)
  next
    case False
    then have r: "0 < readLock r" "(r, snap) \<in> set (sy_readers (ww_sys x))" "(r, snap) \<in> set (sy_readers ?s)"
      using mark_step by (auto simp: slot_kept_def)
    then show ?thesis
      using i2 mark_step reader_lookup(1) [OF i r(2) assms(3)] reader_lookup(1) [OF i2 r(3) assms(3)]
      by (simp add: slot_kept_def ww_seen_def seen_def)
  qed
next
  case (checkpoint_step w x e eMode xBusy sync a rc wi' w' db' e')
  have i: "wal_inv (ww_sys x)" "\<forall>p\<in>set (sy_frames (ww_sys x)). p < 0xffffffff" using checkpoint_step by (simp_all add: slot_kept_def)
  then have rep: "wal_rep (ww_index x) (sy_frames (ww_sys x))" "committed (ww_sys x) \<le> length (sy_frames (ww_sys x))"
    by (simp_all add: wal_inv_def)
  have reads: "seg_reads (ww_index x) (sy_frames (ww_sys x)) (mxFrame w)"
    using checkpoint_step.hyps(1) rep i(2) by (intro seg_reads_rep) auto
  note eff = walCheckpoint_effect [OF reads checkpoint_step.hyps(4)]
  note marks = walCheckpoint_marks [OF checkpoint_step.hyps(4,3)]
  have i2: "wal_inv ((ww_sys x)\<lparr>sy_index := wi'\<rparr>)" using eff i(1) by (intro wal_inv_index) auto
  have kept: "slot_kept r snap (x\<lparr>ww_sys := (ww_sys x)\<lparr>sy_index := wi'\<rparr>, ww_db := db'\<rparr>)"
    using i2 marks checkpoint_step.prems(1) by (simp add: slot_kept_def)
  show ?case
  proof (cases "readLock r = 0")
    case True
    have "\<not> checkpointed (sy_frames (ww_sys x)) (ww_data x) (ww_index x) w (ww_db x) e mxSafe wi' db'" for mxSafe
      using checkpoint_step.hyps(3) True unfolding checkpointed_def by force
    then have "db' = ww_db x" using eff by blast
    then show ?thesis using kept True by (simp add: ww_seen_def seen_def lookup_slot_0)
  next
    case False
    then have r: "(r, snap) \<in> set (sy_readers (ww_sys x))" "0 < readLock r \<Longrightarrow> aReadMark (ww_index x) ! nat (readLock r) \<le> mxFrame r"
      using checkpoint_step.prems by (auto simp: slot_kept_def)
    have m: "mxFrame r \<le> committed (ww_sys x)" using reader_lookup(2,3) [OF i(1) r(1) assms(3)] by simp
    have "p \<le> h_nPage (w_hdr w) \<or> mxFrame r \<noteq> mxFrame w" using checkpoint_step.hyps(2) assms(6) by auto
    then show ?thesis
      using checkpoint_keeps_seen [OF rep(1) i(2) checkpoint_step.hyps(1) rep(2) assms(3) m checkpoint_step.hyps(3) assms(4,5) r(2) _
          checkpoint_step.hyps(4)] kept by (simp add: ww_seen_def)
  qed
qed

lemma others_steps_keep:
  assumes "(others_step r snap)\<^sup>*\<^sup>* x y" "slot_kept r snap x" "map_ok r" "0 \<le> readLock r" "readLock r < 5" "p \<le> h_nPage (w_hdr r)"
  shows "slot_kept r snap y \<and> ww_seen y r p = ww_seen x r p"
  using assms(1,2)
proof (induction rule: rtranclp_induct)
  case (step y z)
  then show ?case using others_step_keeps [OF step.hyps(2) _ assms(3-6)] by simp
qed simp

text \<open>C10: A reader keeps its pages whatever other connections do. From the moment \<open>sqlite3WalBeginReadTransaction\<close> returns, every page
  of the snapshot reads the same after any sequence of steps of others on the log, on the marks of other slots and of
  checkpoints (older, of the same age or newer than the reader, complete, failed or cut off), as long as the reader holds the lock
  of its slot. The log is one that its operations keep well formed, with page numbers below 2^32-1, and the memory of the index is mapped.\<close>

theorem reader_isolated:
  assumes "sqlite3WalBeginReadTransaction f m wi0 w0 e0 = (SQLITE_OK, chg, ww_index x, r, e1)"
    and "wal_inv (ww_sys x)" "\<forall>p\<in>set (sy_frames (ww_sys x)). p < 0xffffffff" "map_ok r"
    and "snap = take (committed (ww_sys x)) (sy_frames (ww_sys x))"
    and "(others_step r snap)\<^sup>*\<^sup>* (x\<lparr>ww_sys := (ww_sys x)\<lparr>sy_readers := (if 0 < readLock r then [(r, snap)] else []) @ sy_readers (ww_sys x)\<rparr>\<rparr>) y"
    and "p \<le> h_nPage (w_hdr r)"
  shows "ww_seen y r p = ww_seen x r p"
proof -
  obtain k where "begin_loop f m False 0 wi0 w0 e0 = (k, SQLITE_OK, chg, ww_index x, r, e1)"
    using assms(1) by (cases "begin_loop f m False 0 wi0 w0 e0") (simp add: sqlite3WalBeginReadTransaction_def)
  from begin_loop_ok [OF this] have "snapshot_taken (ww_index x) r" by simp
  then have t: "w_hdr r = wi_hdr (ww_index x)" "0 \<le> readLock r" "readLock r < 5"
    "0 < readLock r \<Longrightarrow> aReadMark (ww_index x) ! nat (readLock r) \<le> mxFrame r"
    unfolding snapshot_taken_def by auto
  let ?x = "x\<lparr>ww_sys := (ww_sys x)\<lparr>sy_readers := (if 0 < readLock r then [(r, snap)] else []) @ sy_readers (ww_sys x)\<rparr>\<rparr>"
  have "committed (ww_sys x) \<le> length (sy_frames (ww_sys x))" "mxFrame r = committed (ww_sys x)"
    using assms(2) t(1) by (simp_all add: wal_inv_def)
  then have "slot_kept r snap ?x"
    using assms(2,3,5) t(4) by (auto simp: slot_kept_def wal_inv_def min_def)
  from others_steps_keep [OF assms(6) this assms(4) t(2,3) assms(7)] show ?thesis by (simp add: ww_seen_def)
qed

definition sz_field :: "nat \<Rightarrow> nat" where
  "sz_field sz = (sz AND 0xff00) OR drop_bit 16 sz"

lemma page_size_field:
  assumes "valid_page_size sz"
  shows "(sz_field sz AND 0xfe00) + push_bit 16 (sz_field sz AND 1) = sz"
  using valid_page_size_cases [OF assms] by (auto simp: sz_field_def)

lemma drop_log_bytes:
  assumes "length salt = 8" "\<forall>x\<in>set fr. wf_frame sz x" "k < length fr"
  shows "\<exists>c'. drop (k * (sz + 24)) (log_bytes salt c fr) = frame_bytes salt c' (fr ! k) @ log_bytes salt (frame_cksum salt c' (fr ! k)) (drop (Suc k) fr)"
proof -
  have "fr = take k fr @ fr ! k # drop (Suc k) fr" using assms(3) by (simp add: id_take_nth_drop)
  then have "log_bytes salt c fr = log_bytes salt c (take k fr) @ log_bytes salt (log_cksum salt c (take k fr)) (fr ! k # drop (Suc k) fr)"
    by (metis log_bytes_append)
  moreover have "\<forall>x\<in>set (take k fr). wf_frame sz x" using assms(2) by (meson in_set_takeD)
  then have "length (log_bytes salt c (take k fr)) = k * (sz + 24)" using length_log_bytes [OF assms(1), of "take k fr" sz c] assms(3) by simp
  ultimately show ?thesis by (intro exI [of _ "log_cksum salt c (take k fr)"]) simp
qed

text \<open>C40: From a file that begins with a log, \<open>sqlite3WalReadFrame\<close> returns the content with which a frame was written, for every page size
  and a buffer of one page.\<close>

theorem read_frame_content:
  assumes "valid_page_size sz" "log_written sz nCk salt fr f w" "h_szPage (w_hdr w) = sz_field sz" "0 < k" "k \<le> length fr" "undisturbed e"
  shows "sqlite3WalReadFrame w k sz f e = (SQLITE_OK, snd (snd (fr ! (k - 1))), e)"
proof -
  obtain h c where h: "walHeader sz nCk salt = (h, c)" by (metis surj_pair)
  have l: "prefix (h @ log_bytes salt c fr) f" "\<forall>x\<in>set fr. wf_frame sz x" "length salt = 8"
    using assms(2) by (simp_all add: log_written_def h conn_at_def)
  have lh: "length h = 32" using length_header [OF l(3) h] .
  obtain rest where f: "f = h @ log_bytes salt c fr @ rest" using l(1) by (auto simp: prefix_def)
  have k: "k - 1 < length fr" using assms(4,5) by simp
  obtain c' where d: "drop ((k - 1) * (sz + 24)) (log_bytes salt c fr) =
      frame_bytes salt c' (fr ! (k - 1)) @ log_bytes salt (frame_cksum salt c' (fr ! (k - 1))) (drop (Suc (k - 1)) fr)"
    using drop_log_bytes [OF l(3,2) k] by blast
  have x: "wf_frame sz (fr ! (k - 1))" using l(2) k by simp
  have "length (log_bytes salt c fr) = length fr * (sz + 24)" using length_log_bytes [OF l(3,2)] .
  then have le: "(k - 1) * (sz + 24) \<le> length (log_bytes salt c fr)" using k by (simp add: mult_le_mono1)
  have "drop (32 + (k - 1) * (sz + 24)) f = drop ((k - 1) * (sz + 24)) (log_bytes salt c fr @ rest)"
    unfolding f using lh by simp
  also have "\<dots> = frame_bytes salt c' (fr ! (k - 1)) @ log_bytes salt (frame_cksum salt c' (fr ! (k - 1))) (drop (Suc (k - 1)) fr) @ rest"
    using le d by simp
  finally have "drop (32 + (k - 1) * (sz + 24) + 24) f =
      drop 24 (frame_bytes salt c' (fr ! (k - 1)) @ log_bytes salt (frame_cksum salt c' (fr ! (k - 1))) (drop (Suc (k - 1)) fr) @ rest)"
    by (metis add.commute drop_drop)
  then have "take sz (drop (walFrameOffset k sz + 24) f) = snd (snd (fr ! (k - 1)))"
    using x l(3) by (simp add: walFrameOffset_def frame_bytes_def wf_frame_def)
  moreover have "walPagesize w = sz" using page_size_field [OF assms(1)] assms(3) by (simp add: walPagesize_def)
  ultimately show ?thesis using assms(6) by (simp add: sqlite3WalReadFrame_def Let_def)
qed

section \<open>Witnesses\<close>

definition sample_read_env :: read_env where
  "sample_read_env = \<lparr>re_env = sample_env SQLITE_OK, re_shared = (\<lambda>_ _. SQLITE_OK), re_tries = 0, re_other = (\<lambda>_ wi. wi), re_now = 0,
     re_page0 = True, re_rdonly = False\<rparr>"

definition sample_shared :: "WalIndex \<Rightarrow> WalIndex" where
  "sample_shared wi = wi\<lparr>wi_hdr := w_hdr sample_conn, nBackfill := 0, aReadMark := [0, 1, 0xffffffff, 0xffffffff, 0xffffffff]\<rparr>"

text \<open>With nothing to disturb it the first attempt takes slot 1.\<close>

lemma sample_begin:
  "\<exists>e'. sqlite3WalBeginReadTransaction [] True (sample_shared wi) sample_conn sample_read_env =
     (SQLITE_OK, False, sample_shared wi, sample_conn\<lparr>apWiData := [0]\<rparr>, e')"
proof -
  let ?w = "sample_conn\<lparr>apWiData := [0]\<rparr>" and ?wi = "sample_shared wi"
  have i: "h_isInit (w_hdr sample_conn) = 1" "h_iVersion (w_hdr sample_conn) = 3007000" "mxFrame sample_conn = 1" "apWiData sample_conn = []" "map_rcs sample_conn = []"
    by (simp_all add: sample_conn_def sample_hdr_def sample_wal_def)
  have s: "wi_hdr ?wi = w_hdr sample_conn" "nBackfill ?wi = 0" "aReadMark ?wi = [0, 1, 0xffffffff, 0xffffffff, 0xffffffff]"
    by (simp_all add: sample_shared_def)
  have p: "walIndexPage sample_conn 0 = (SQLITE_OK, ?w)" using i(4,5) by (simp add: walIndexPage_def)
  have o: "observe ?wi e = (?wi, e\<lparr>re_now := re_now e + 1\<rparr>)" if "re_other e = (\<lambda>_ wi. wi)" for e
    using that by (simp add: observe_def)
  have tryhdr: "walIndexTryHdr ?wi ?w sample_read_env = (False, False, ?wi, ?w, sample_read_env\<lparr>re_now := 2\<rparr>)"
    using i s by (simp add: walIndexTryHdr_def o Let_def) (simp add: sample_read_env_def o)
  have hdr: "walIndexReadHdr [] True ?wi sample_conn sample_read_env = (SQLITE_OK, False, ?wi, ?w, sample_read_env\<lparr>re_now := 2\<rparr>)"
    using i(2) tryhdr by (simp add: walIndexReadHdr_def p) (simp add: sample_read_env_def)
  have "[1..<5] = [1, 2, 3, 4 :: nat]" by (simp add: upt_rec)
  then have marks: "mark_loop ?wi 1 [1..<WAL_NREADER] 0 0 = (1, 1)" by (simp add: s)
  have rl: "sample_conn\<lparr>apWiData := [0], readLock := 1\<rparr> = ?w" by (simp add: sample_conn_def sample_wal_def)
  define e3 where "e3 = sample_read_env\<lparr>re_now := 3\<rparr>"
  define e4 where "e4 = sample_read_env\<lparr>re_now := 3, re_tries := 1\<rparr>"
  have l: "walLockShared e3 (WAL_READ_LOCK 1) = (SQLITE_OK, e4)"
    by (simp add: walLockShared_def e3_def e4_def sample_read_env_def sample_env_def)
  have o3: "observe ?wi (sample_read_env\<lparr>re_now := 2\<rparr>) = (?wi, e3)" by (simp add: o sample_read_env_def e3_def)
  have o4: "observe ?wi e4 = (?wi, e4\<lparr>re_now := 4\<rparr>)" by (simp add: o sample_read_env_def e4_def)
  have rd: "re_rdonly e3 = False" by (simp add: e3_def sample_read_env_def)
  have mx: "mxFrame ?w = 1" using i(3) by simp
  have tk: "take_mark SQLITE_OK ?wi ?w e3 = (SQLITE_OK, ?wi, ?w, e4\<lparr>re_now := 4\<rparr>)"
    unfolding take_mark_def mx marks Let_def prod.case rd using l o4 s rl by simp
  have "walTryBeginRead [] True False (0 + 1) ?wi sample_conn sample_read_env = (SQLITE_OK, False, ?wi, ?w, e4\<lparr>re_now := 4\<rparr>)"
    unfolding walTryBeginRead_def hdr Let_def prod.case using o3 s(2) mx tk by simp
  then have "begin_loop [] True False 0 ?wi sample_conn sample_read_env = (1, SQLITE_OK, False, ?wi, ?w, e4\<lparr>re_now := 4\<rparr>)"
    by (simp add: begin_loop.simps [of "[]" True False 0])
  then show ?thesis by (simp add: sqlite3WalBeginReadTransaction_def)
qed

theorem begin_read_snapshot_witness:
  "\<exists>wi r e'. sqlite3WalBeginReadTransaction [] True wi sample_conn sample_read_env = (SQLITE_OK, False, wi, r, e') \<and> w_hdr r = wi_hdr wi \<and> readLock r < 5"
proof -
  obtain e' where b: "sqlite3WalBeginReadTransaction [] True (sample_shared sample_index) sample_conn sample_read_env =
     (SQLITE_OK, False, sample_shared sample_index, sample_conn\<lparr>apWiData := [0]\<rparr>, e')" using sample_begin by blast
  from begin_read_snapshot [OF b] b show ?thesis by blast
qed

text \<open>A reader of a log of one frame, while a checkpoint tries to copy it.\<close>

theorem reader_isolated_witness:
  "\<exists>x r e1 y. sqlite3WalBeginReadTransaction [] True (ww_index x) sample_conn sample_read_env = (SQLITE_OK, False, ww_index x, r, e1) \<and>
     others_step r [7] (x\<lparr>ww_sys := (ww_sys x)\<lparr>sy_readers := [(r, [7])]\<rparr>\<rparr>) y \<and> ww_seen y r 7 = ww_seen x r 7 \<and> ww_seen y r 7 = [5]"
proof -
  obtain wi0 where "wal_rep wi0 [7]" using sample_rep by blast
  then have rep: "wal_rep (sample_shared wi0) [7]" by (simp add: sample_shared_def wal_rep_def)
  let ?wi = "sample_shared wi0" and ?r = "sample_conn\<lparr>apWiData := [0]\<rparr>"
  define x where "x = \<lparr>ww_sys = \<lparr>sy_index = ?wi, sy_frames = [7], sy_writer = None, sy_readers = []\<rparr>, ww_data = (\<lambda>_. [5]), ww_db = (\<lambda>_. [])\<rparr>"
  define x1 where "x1 = x\<lparr>ww_sys := (ww_sys x)\<lparr>sy_readers := [(?r, [7])]\<rparr>\<rparr>"
  obtain e1 where b: "sqlite3WalBeginReadTransaction [] True (ww_index x) sample_conn sample_read_env = (SQLITE_OK, False, ww_index x, ?r, e1)"
    using sample_begin by (auto simp: x_def)
  obtain rc wi' w' db' e' where c: "walCheckpoint (ww_data x1) SQLITE_CHECKPOINT_PASSIVE False True (True, True) (ww_index x1) sample_conn (ww_db x1) (sample_env SQLITE_BUSY) =
      (rc, wi', w', db', e')" by (metis prod.exhaust)
  have h: "h_mxFrame (wi_hdr ?wi) = 1" by (simp add: sample_shared_def)
  have st: "others_step ?r [7] x1 (x1\<lparr>ww_sys := (ww_sys x1)\<lparr>sy_index := wi'\<rparr>, ww_db := db'\<rparr>)" (is "others_step _ _ _ ?y")
    by (rule others_step.checkpoint_step [OF _ _ _ c]) (simp_all add: x1_def x_def h sample_env_simps)
  have m: "map_ok ?r" using sample_conn_simps(3) by (simp add: map_ok_def)
  have inv: "wal_inv (ww_sys x)" "[7] = take (committed (ww_sys x)) (sy_frames (ww_sys x))" "\<forall>p\<in>set (sy_frames (ww_sys x)). p < 0xffffffff"
    using rep h by (simp_all add: x_def wal_inv_def)
  have "x\<lparr>ww_sys := (ww_sys x)\<lparr>sy_readers := (if 0 < readLock ?r then [(?r, [7])] else []) @ sy_readers (ww_sys x)\<rparr>\<rparr> = x1"
    by (simp add: x1_def x_def)
  then have "(others_step ?r [7])\<^sup>*\<^sup>* (x\<lparr>ww_sys := (ww_sys x)\<lparr>sy_readers := (if 0 < readLock ?r then [(?r, [7])] else []) @ sy_readers (ww_sys x)\<rparr>\<rparr>) ?y"
    using st by simp
  then have "ww_seen ?y ?r 7 = ww_seen x ?r 7"
    by (rule reader_isolated [OF b inv(1,3) m inv(2)]) simp
  moreover have "ww_seen x ?r 7 = [5]"
    using walk.lookup_latest [OF rep, of ?r 7] m by (simp add: ww_seen_def seen_def x_def wal_usable_def)
  ultimately have "sqlite3WalBeginReadTransaction [] True (ww_index x) sample_conn sample_read_env = (SQLITE_OK, False, ww_index x, ?r, e1) \<and>
      others_step ?r [7] (x\<lparr>ww_sys := (ww_sys x)\<lparr>sy_readers := [(?r, [7])]\<rparr>\<rparr>) ?y \<and> ww_seen ?y ?r 7 = ww_seen x ?r 7 \<and>
      ww_seen ?y ?r 7 = [5]"
    using b st by (simp add: x1_def)
  then show ?thesis by blast
qed

theorem read_frame_content_witness:
  "\<exists>f w. log_written 512 0 sample_salt [(7, 1, replicate 512 5)] f w \<and> sqlite3WalReadFrame w 1 512 f (sample_env SQLITE_OK) = (SQLITE_OK, replicate 512 5, sample_env SQLITE_OK)"
proof -
  let ?fr = "[(7, 1, replicate 512 5)] :: frame list"
  obtain h c where h: "walHeader 512 0 sample_salt = (h, c)" by (metis surj_pair)
  let ?w = "(sample_wal 0)\<lparr>szPage := 512, w_hdr := sample_hdr\<lparr>h_szPage := 512, h_aSalt := sample_salt, h_aFrameCksum := log_cksum sample_salt c ?fr\<rparr>\<rparr>"
  have "log_written 512 0 sample_salt ?fr (h @ log_bytes sample_salt c ?fr) ?w"
    by (simp add: log_written_def h conn_at_def wf_frame_def sample_hdr_def)
  moreover from read_frame_content [OF _ this, of 1 "sample_env SQLITE_OK"]
  have "sqlite3WalReadFrame ?w 1 512 (h @ log_bytes sample_salt c ?fr) (sample_env SQLITE_OK) = (SQLITE_OK, replicate 512 5, sample_env SQLITE_OK)"
    by (simp add: sample_env_simps sz_field_def)
  ultimately show ?thesis by blast
qed


end
