(* ===== verification/Fp.thy ===== *)
theory Fp
  imports Complex_Main Prelude
begin

text \<open>
  The C types \<open>float\<close> and \<open>double\<close> as the code uses them: IEEE binary32 and binary64
  with rounding to nearest, ties to even. A finite value is a sign, a non-negative significand
  and a binary exponent, \<open>Fin s m e\<close> (with \<open>0 \<le> m\<close>) for \<open>(-1)^s * m * 2^e\<close>; zero keeps its sign.
  Every arithmetic operation computes the exact result on significands and exponents and
  rounds once. The comparisons are C's: false whenever an operand is not a number.
\<close>

section \<open>Values\<close>

datatype fp = NaN | Inf bool | Fin bool int int

function bitlen :: "int \<Rightarrow> int" where
  "bitlen n = (if n \<le> 0 then 0 else 1 + bitlen (n div 2))"
  by pat_completeness auto
termination
  by (relation "measure nat") auto

declare bitlen.simps [simp del]

definition signed :: "bool \<Rightarrow> int \<Rightarrow> int" where
  "signed s m = (if s then - m else m)"

section \<open>Rounding\<close>

text \<open>\<open>rne m k\<close> is \<open>m / 2^k\<close> rounded to the nearest integer, ties to even.\<close>

definition rne :: "int \<Rightarrow> nat \<Rightarrow> int" where
  "rne m k =
     (if k = 0 then m
      else let q = m div 2 ^ k; r = m mod 2 ^ k; h = 2 ^ (k - 1)
           in if h < r \<or> (r = h \<and> odd q) then q + 1 else q)"

text \<open>Rounding to \<open>p\<close> bits, least exponent \<open>emin\<close>, overflow at \<open>2^emax\<close>.\<close>

definition fround :: "int \<Rightarrow> int \<Rightarrow> int \<Rightarrow> bool \<Rightarrow> int \<Rightarrow> int \<Rightarrow> fp" where
  "fround p emin emax s m e =
     (let sh = max (bitlen m - p) (emin - e);
          (q, e') = (if sh \<le> 0 then (m, e) else (rne m (nat sh), e + sh))
      in if bitlen q + e' > emax then Inf s else Fin s q e')"

definition round64 :: "bool \<Rightarrow> int \<Rightarrow> int \<Rightarrow> fp" where
  "round64 = fround 53 (-1074) 1024"

definition round32 :: "bool \<Rightarrow> int \<Rightarrow> int \<Rightarrow> fp" where
  "round32 = fround 24 (-149) 128"

section \<open>Double arithmetic\<close>

fun fneg :: "fp \<Rightarrow> fp" where
  "fneg NaN = NaN"
| "fneg (Inf s) = Inf (\<not> s)"
| "fneg (Fin s m e) = Fin (\<not> s) m e"

fun fadd :: "fp \<Rightarrow> fp \<Rightarrow> fp" where
  "fadd NaN _ = NaN"
| "fadd _ NaN = NaN"
| "fadd (Inf s) (Inf t) = (if s = t then Inf s else NaN)"
| "fadd (Inf s) (Fin _ _ _) = Inf s"
| "fadd (Fin _ _ _) (Inf t) = Inf t"
| "fadd (Fin s m e) (Fin t n f) =
     (let k = min e f;
          z = signed s m * 2 ^ nat (e - k) + signed t n * 2 ^ nat (f - k)
      in if z = 0 then Fin (s \<and> t) 0 0 else round64 (z < 0) \<bar>z\<bar> k)"

definition fsub :: "fp \<Rightarrow> fp \<Rightarrow> fp" where
  "fsub a b = fadd a (fneg b)"

fun fmul :: "fp \<Rightarrow> fp \<Rightarrow> fp" where
  "fmul NaN _ = NaN"
| "fmul _ NaN = NaN"
| "fmul (Inf s) (Inf t) = Inf (s \<noteq> t)"
| "fmul (Inf s) (Fin t n _) = (if n = 0 then NaN else Inf (s \<noteq> t))"
| "fmul (Fin s m _) (Inf t) = (if m = 0 then NaN else Inf (s \<noteq> t))"
| "fmul (Fin s m e) (Fin t n f) = round64 (s \<noteq> t) (m * n) (e + f)"

text \<open>Division keeps two extra bits of the quotient and a sticky bit for the remainder.\<close>

fun fdiv :: "fp \<Rightarrow> fp \<Rightarrow> fp" where
  "fdiv NaN _ = NaN"
| "fdiv _ NaN = NaN"
| "fdiv (Inf _) (Inf _) = NaN"
| "fdiv (Inf s) (Fin t _ _) = Inf (s \<noteq> t)"
| "fdiv (Fin s _ _) (Inf t) = Fin (s \<noteq> t) 0 0"
| "fdiv (Fin s m e) (Fin t n f) =
     (if n = 0 then (if m = 0 then NaN else Inf (s \<noteq> t))
      else let k = nat (55 + bitlen n - bitlen m);
               q = (m * 2 ^ k) div n; r = (m * 2 ^ k) mod n
           in round64 (s \<noteq> t) (2 * q + (if r = 0 then 0 else 1)) (e - f - int k - 1))"

section \<open>Comparison\<close>

fun flt :: "fp \<Rightarrow> fp \<Rightarrow> bool" where
  "flt NaN _ = False"
| "flt _ NaN = False"
| "flt (Inf s) (Inf t) = (s \<and> \<not> t)"
| "flt (Inf s) (Fin _ _ _) = s"
| "flt (Fin _ _ _) (Inf t) = (\<not> t)"
| "flt (Fin s m e) (Fin t n f) =
     (let k = min e f in signed s m * 2 ^ nat (e - k) < signed t n * 2 ^ nat (f - k))"

fun feq :: "fp \<Rightarrow> fp \<Rightarrow> bool" where
  "feq NaN _ = False"
| "feq _ NaN = False"
| "feq (Inf s) (Inf t) = (s = t)"
| "feq (Inf s) (Fin _ _ _) = False"
| "feq (Fin _ _ _) (Inf t) = False"
| "feq (Fin s m e) (Fin t n f) =
     (let k = min e f in signed s m * 2 ^ nat (e - k) = signed t n * 2 ^ nat (f - k))"

definition fle :: "fp \<Rightarrow> fp \<Rightarrow> bool" where
  "fle a b \<longleftrightarrow> flt a b \<or> feq a b"

section \<open>Conversions\<close>

definition fp_zero :: fp where "fp_zero = Fin False 0 0"

definition fp_of_int :: "int \<Rightarrow> fp" where
  "fp_of_int i = Fin (i < 0) \<bar>i\<bar> 0"

text \<open>The cast \<open>(float)d\<close>; a \<open>float\<close> used as a \<open>double\<close> keeps its value.\<close>

fun to_float :: "fp \<Rightarrow> fp" where
  "to_float NaN = NaN"
| "to_float (Inf s) = Inf s"
| "to_float (Fin s m e) = round32 s m e"

text \<open>The bits of a \<open>float\<close>, as a union with an unsigned integer shows them.\<close>

definition decode32 :: "u32 \<Rightarrow> fp" where
  "decode32 w =
     (let s = bit w 31; ex = uint (drop_bit 23 w AND 0xff); fr = uint (w AND 0x7fffff)
      in if ex = 255 then (if fr = 0 then Inf s else NaN)
         else if ex = 0 then Fin s fr (-149)
         else Fin s (fr + 2 ^ 23) (ex - 150))"

fun encode32 :: "fp \<Rightarrow> u32" where
  "encode32 NaN = 0x7fc00000"
| "encode32 (Inf s) = (if s then 0xff800000 else 0x7f800000)"
| "encode32 (Fin s m e) =
     (let top = (if s then 0x80000000 else 0); bl = bitlen m; e' = e + bl - 24
      in if m = 0 then top
         else if e' < -149 then top + of_int (m * 2 ^ nat (e + 149))
         else top + of_int (e' + 150) * 2 ^ 23
            + of_int ((if bl \<le> 24 then m * 2 ^ nat (24 - bl) else m div 2 ^ nat (bl - 24)) - 2 ^ 23))"

section \<open>Lemmas: the order of the values\<close>

text \<open>
  The value of a finite number as a real, and the position of an infinity before or after
  all of them. The comparisons are the lexicographic order of these two.
\<close>

fun fval :: "fp \<Rightarrow> real" where
  "fval (Fin s m e) = real_of_int (signed s m) * 2 powi e"
| "fval _ = 0"

fun frank :: "fp \<Rightarrow> int" where
  "frank (Inf s) = (if s then -1 else 1)"
| "frank _ = 0"

lemma powi_split: "k \<le> e \<Longrightarrow> (2::real) powi e = 2 ^ nat (e - k) * 2 powi k"
proof -
  assume "k \<le> e"
  then have "(2::real) powi e = 2 powi (int (nat (e - k)) + k)" by simp
  also have "\<dots> = 2 ^ nat (e - k) * 2 powi k" by (subst power_int_add) (auto simp: power_int_def)
  finally show ?thesis .
qed

lemma fval_align:
  "k \<le> e \<Longrightarrow> fval (Fin s m e) = real_of_int (signed s m * 2 ^ nat (e - k)) * 2 powi k"
  by (simp add: powi_split [of k e])

lemma flt_Fin: "flt (Fin s m e) (Fin t n f) \<longleftrightarrow> fval (Fin s m e) < fval (Fin t n f)"
proof -
  let ?k = "min e f"
  have "fval (Fin s m e) < fval (Fin t n f) \<longleftrightarrow>
    real_of_int (signed s m * 2 ^ nat (e - ?k)) < real_of_int (signed t n * 2 ^ nat (f - ?k))"
    by (subst (1 2) fval_align [of ?k]) (auto intro: mult_less_cancel_right_pos [THEN iffD1])
  then show ?thesis by (simp only: of_int_less_iff flt.simps Let_def)
qed

lemma feq_Fin: "feq (Fin s m e) (Fin t n f) \<longleftrightarrow> fval (Fin s m e) = fval (Fin t n f)"
proof -
  let ?k = "min e f"
  have "fval (Fin s m e) = fval (Fin t n f) \<longleftrightarrow>
    real_of_int (signed s m * 2 ^ nat (e - ?k)) = real_of_int (signed t n * 2 ^ nat (f - ?k))"
    by (subst (1 2) fval_align [of ?k]) auto
  then show ?thesis by (simp only: of_int_eq_iff feq.simps Let_def)
qed

lemma flt_iff:
  "flt a b \<longleftrightarrow> a \<noteq> NaN \<and> b \<noteq> NaN \<and>
     (frank a < frank b \<or> frank a = frank b \<and> fval a < fval b)"
  by (cases a; cases b) (auto simp: flt_Fin simp del: flt.simps(7))

lemma feq_iff:
  "feq a b \<longleftrightarrow> a \<noteq> NaN \<and> b \<noteq> NaN \<and> frank a = frank b \<and> fval a = fval b"
  by (cases a; cases b) (auto simp: feq_Fin simp del: feq.simps(7))

lemma fle_iff:
  "fle a b \<longleftrightarrow> a \<noteq> NaN \<and> b \<noteq> NaN \<and>
     (frank a < frank b \<or> frank a = frank b \<and> fval a \<le> fval b)"
  by (auto simp: fle_def flt_iff feq_iff)

lemma fle_refl [simp]: "fle a a \<longleftrightarrow> a \<noteq> NaN"
  by (simp add: fle_iff)

lemma fle_trans: "fle a b \<Longrightarrow> fle b c \<Longrightarrow> fle a c"
  by (auto simp: fle_iff)

lemma flt_fle_trans: "flt a b \<Longrightarrow> fle b c \<Longrightarrow> flt a c"
  by (auto simp: fle_iff flt_iff)

lemma fle_flt_trans: "fle a b \<Longrightarrow> flt b c \<Longrightarrow> flt a c"
  by (auto simp: fle_iff flt_iff)

lemma not_flt_iff: "a \<noteq> NaN \<Longrightarrow> b \<noteq> NaN \<Longrightarrow> \<not> flt a b \<longleftrightarrow> fle b a"
  by (auto simp: fle_iff flt_iff)

lemma flt_imp_fle: "flt a b \<Longrightarrow> fle a b"
  by (simp add: fle_def)

lemma flt_irrefl [simp]: "\<not> flt a a"
  by (simp add: flt_iff)

lemma flt_not_NaN: "flt a b \<Longrightarrow> a \<noteq> NaN \<and> b \<noteq> NaN"
  by (simp add: flt_iff)

lemma fle_not_NaN: "fle a b \<Longrightarrow> a \<noteq> NaN \<and> b \<noteq> NaN"
  by (simp add: fle_iff)

lemma fval_fp_of_int [simp]: "fval (fp_of_int i) = real_of_int i"
  by (simp add: fp_of_int_def signed_def)

lemma frank_fp_of_int [simp]: "frank (fp_of_int i) = 0"
  by (simp add: fp_of_int_def)

lemma fp_of_int_not_NaN [simp]: "fp_of_int i \<noteq> NaN"
  by (simp add: fp_of_int_def)

lemma fle_fp_of_int [simp]: "fle (fp_of_int i) (fp_of_int j) \<longleftrightarrow> i \<le> j"
  by (simp add: fle_iff)

lemma flt_fp_of_int [simp]: "flt (fp_of_int i) (fp_of_int j) \<longleftrightarrow> i < j"
  by (simp add: flt_iff)

end
