(* ===== verification/Record_Format.thy ===== *)
theory Record_Format
  imports Varint Fp
begin

text \<open>
  The record format of tables and indices (vdbeaux.c and the opcode \<open>OP_MakeRecord\<close> of vdbe.c): the storage
  class and width of a value, its serialisation, the layout of a record, and the comparison of a serialised
  record with an unpacked one, in its general and its two specialised versions.

  A value cell is the record \<open>Mem\<close>; the union of an integer, a double and the number of zeros behind a blob is its
  64 bits, read as each member. Serial types and offsets are natural numbers, with the wrap-around of 32 bits where a sum can
  reach it. A string or blob that points into a buffer is the list of the bytes from there on, with its length
  beside it. The result of \<open>memcmp\<close> is \<open>-1\<close>, \<open>0\<close> or \<open>1\<close>; the standard fixes its sign only, and the theorems speak
  of signs. The cell into which a field is decoded for a comparison is zeroed where the code leaves it
  uninitialised; only the reserved serial types 10 and 11 read it. The application's collating functions are fields of \<open>KeyInfo\<close> and take the two strings; the
  conversion of strings for a collating function of another encoding is not modelled.
\<close>

section \<open>Values\<close>

record Mem =
  mem_u :: u64
  mem_flags :: u16
  mem_n :: nat
  mem_z :: "u8 list"

abbreviation (input) MEM_Null :: u16 where "MEM_Null \<equiv> 0x0001"
abbreviation (input) MEM_Str :: u16 where "MEM_Str \<equiv> 0x0002"
abbreviation (input) MEM_Int :: u16 where "MEM_Int \<equiv> 0x0004"
abbreviation (input) MEM_Real :: u16 where "MEM_Real \<equiv> 0x0008"
abbreviation (input) MEM_Blob :: u16 where "MEM_Blob \<equiv> 0x0010"
abbreviation (input) MEM_Term :: u16 where "MEM_Term \<equiv> 0x0200"
abbreviation (input) MEM_Ephem :: u16 where "MEM_Ephem \<equiv> 0x1000"
abbreviation (input) MEM_Zero :: u16 where "MEM_Zero \<equiv> 0x4000"

abbreviation (input) SQLITE_TOOBIG :: int where "SQLITE_TOOBIG \<equiv> 18"

definition has :: "Mem \<Rightarrow> u16 \<Rightarrow> bool" where
  "has m f \<longleftrightarrow> mem_flags m AND f \<noteq> 0"

text \<open>The members of the union.\<close>

definition u_i :: "Mem \<Rightarrow> int" where "u_i m = sint (mem_u m)"

definition u_nZero :: "Mem \<Rightarrow> int" where "u_nZero m = sint (ucast (mem_u m) :: u32)"

text \<open>The double with the given bits.\<close>

definition decode64 :: "u64 \<Rightarrow> fp" where
  "decode64 w =
     (let s = bit w 63; ex = uint (drop_bit 52 w AND 0x7ff); fr = uint (w AND 0xfffffffffffff)
      in if ex = 2047 then (if fr = 0 then Inf s else NaN)
         else if ex = 0 then Fin s fr (-1074)
         else Fin s (fr + 2 ^ 52) (ex - 1075))"

definition u_r :: "Mem \<Rightarrow> fp" where "u_r m = decode64 (mem_u m)"

definition sqlite3IsNaN :: "fp \<Rightarrow> bool" where
  "sqlite3IsNaN x \<longleftrightarrow> \<not> feq x x"

text \<open>The cast \<open>(double)i\<close>.\<close>

definition double_of :: "int \<Rightarrow> fp" where
  "double_of i = round64 (i < 0) \<bar>i\<bar> 0"

section \<open>Serial types\<close>

abbreviation (input) MAX_6BYTE :: int where "MAX_6BYTE \<equiv> 2 ^ 47 - 1"

definition sqlite3VdbeSerialType :: "Mem \<Rightarrow> int \<Rightarrow> nat" where
  "sqlite3VdbeSerialType pMem file_format =
     (if has pMem MEM_Null then 0
      else if has pMem MEM_Int then
        (let i = u_i pMem in
         if i < 0 \<and> i < - MAX_6BYTE then 6
         else let u = (if i < 0 then - i else i) in
           if u \<le> 127 then (if i AND 1 = i \<and> file_format \<ge> 4 then 8 + nat u else 1)
           else if u \<le> 32767 then 2
           else if u \<le> 8388607 then 3
           else if u \<le> 2147483647 then 4
           else if u \<le> MAX_6BYTE then 5
           else 6)
      else if has pMem MEM_Real then 7
      else
        (let n = int (mem_n pMem); n = (if has pMem MEM_Zero then n + u_nZero pMem else n) in
         nat ((n * 2 + 12 + (if has pMem MEM_Str then 1 else 0)) mod 2 ^ 32)))"

definition sqlite3VdbeSerialTypeLen :: "nat \<Rightarrow> nat" where
  "sqlite3VdbeSerialTypeLen serial_type =
     (if serial_type \<ge> 12 then (serial_type - 12) div 2
      else [0, 1, 2, 3, 4, 6, 8, 8, 0, 0, 0, 0] ! serial_type)"

text \<open>The bytes that \<open>sqlite3VdbeSerialPut\<close> writes.\<close>

fun put_loop :: "nat \<Rightarrow> u64 \<Rightarrow> u8 list \<Rightarrow> u8 list" where
  "put_loop 0 v buf = buf"
| "put_loop (Suc i) v buf = put_loop i (drop_bit 8 v) (ucast (v AND 0xff) # buf)"

definition sqlite3VdbeSerialPut :: "Mem \<Rightarrow> nat \<Rightarrow> u8 list" where
  "sqlite3VdbeSerialPut pMem serial_type =
     (if serial_type \<le> 7 \<and> serial_type > 0 then put_loop (sqlite3VdbeSerialTypeLen serial_type) (mem_u pMem) []
      else if serial_type \<ge> 12 then take (mem_n pMem) (mem_z pMem)
      else [])"

section \<open>Reading a value\<close>

definition ONE_BYTE_INT :: "u8 list \<Rightarrow> int" where
  "ONE_BYTE_INT x = sint (x ! 0)"

definition TWO_BYTE_INT :: "u8 list \<Rightarrow> int" where
  "TWO_BYTE_INT x = 256 * sint (x ! 0) OR uint (x ! 1)"

definition THREE_BYTE_INT :: "u8 list \<Rightarrow> int" where
  "THREE_BYTE_INT x = 65536 * sint (x ! 0) OR push_bit 8 (uint (x ! 1)) OR uint (x ! 2)"

definition FOUR_BYTE_UINT :: "u8 list \<Rightarrow> u32" where
  "FOUR_BYTE_UINT x =
     push_bit 24 (ucast (x ! 0)) OR push_bit 16 (ucast (x ! 1)) OR push_bit 8 (ucast (x ! 2)) OR ucast (x ! 3)"

definition FOUR_BYTE_INT :: "u8 list \<Rightarrow> int" where
  "FOUR_BYTE_INT x =
     16777216 * sint (x ! 0) OR push_bit 16 (uint (x ! 1)) OR push_bit 8 (uint (x ! 2)) OR uint (x ! 3)"

definition set_int :: "Mem \<Rightarrow> int \<Rightarrow> Mem" where
  "set_int pMem i = pMem\<lparr>mem_u := of_int i, mem_flags := MEM_Int\<rparr>"

definition serialGet :: "u8 list \<Rightarrow> nat \<Rightarrow> Mem \<Rightarrow> nat \<times> Mem" where
  "serialGet buf serial_type pMem =
     (let x = (ucast (FOUR_BYTE_UINT buf) :: u64); y = FOUR_BYTE_UINT (drop 4 buf); x = push_bit 32 x + ucast y in
      (8, if serial_type = 6 then pMem\<lparr>mem_u := x, mem_flags := MEM_Int\<rparr>
          else pMem\<lparr>mem_u := x, mem_flags := (if sqlite3IsNaN (decode64 x) then MEM_Null else MEM_Real)\<rparr>))"

definition sqlite3VdbeSerialGet :: "u8 list \<Rightarrow> nat \<Rightarrow> Mem \<Rightarrow> nat \<times> Mem" where
  "sqlite3VdbeSerialGet buf serial_type pMem =
     (if serial_type = 10 \<or> serial_type = 11 \<or> serial_type = 0 then (0, pMem\<lparr>mem_flags := MEM_Null\<rparr>)
      else if serial_type = 1 then (1, set_int pMem (ONE_BYTE_INT buf))
      else if serial_type = 2 then (2, set_int pMem (TWO_BYTE_INT buf))
      else if serial_type = 3 then (3, set_int pMem (THREE_BYTE_INT buf))
      else if serial_type = 4 then (4, set_int pMem (FOUR_BYTE_INT buf))
      else if serial_type = 5 then
        (6, set_int pMem (uint (FOUR_BYTE_UINT (drop 2 buf)) + 2 ^ 32 * TWO_BYTE_INT buf))
      else if serial_type = 6 \<or> serial_type = 7 then serialGet buf serial_type pMem
      else if serial_type = 8 \<or> serial_type = 9 then (0, set_int pMem (int serial_type - 8))
      else
        (let n = (serial_type - 12) div 2 in
         (n, pMem\<lparr>mem_z := buf, mem_n := n,
               mem_flags := (if odd serial_type then MEM_Str OR MEM_Ephem else MEM_Blob OR MEM_Ephem)\<rparr>)))"

definition vdbeRecordDecodeInt :: "nat \<Rightarrow> u8 list \<Rightarrow> int" where
  "vdbeRecordDecodeInt serial_type aKey =
     (if serial_type = 0 \<or> serial_type = 1 then ONE_BYTE_INT aKey
      else if serial_type = 2 then TWO_BYTE_INT aKey
      else if serial_type = 3 then THREE_BYTE_INT aKey
      else if serial_type = 4 then sint (FOUR_BYTE_UINT aKey)
      else if serial_type = 5 then uint (FOUR_BYTE_UINT (drop 2 aKey)) + 2 ^ 32 * TWO_BYTE_INT aKey
      else if serial_type = 6 then
        sint (push_bit 32 (ucast (FOUR_BYTE_UINT aKey)) OR ucast (FOUR_BYTE_UINT (drop 4 aKey)) :: u64)
      else (int serial_type - 8) mod 2 ^ 32)"

section \<open>Making a record\<close>

text \<open>
  \<open>OP_MakeRecord\<close> behind the conversion of the registers to the affinity of their columns. The outcomes of the
  allocations to be made are a list; an exhausted list means success. A blob with a tail of zeros is expanded when content
  follows it; a failed expansion leaves NULL.
\<close>

definition mem_malloc :: "bool list \<Rightarrow> bool \<times> bool list" where
  "mem_malloc mem = (case mem of [] \<Rightarrow> (True, []) | ok # rest \<Rightarrow> (ok, rest))"

definition sqlite3VdbeMemExpandBlob :: "bool list \<Rightarrow> Mem \<Rightarrow> int \<times> Mem \<times> bool list" where
  "sqlite3VdbeMemExpandBlob mem pMem =
     (if has pMem MEM_Zero then
        (let (ok, mem) = mem_malloc mem in
         if \<not> ok then (SQLITE_NOMEM, pMem\<lparr>mem_flags := MEM_Null, mem_z := []\<rparr>, mem)
         else
           (SQLITE_OK,
            pMem\<lparr>mem_z := take (mem_n pMem) (mem_z pMem) @ replicate (nat (u_nZero pMem)) 0,
              mem_n := nat (int (mem_n pMem) + u_nZero pMem),
              mem_flags := mem_flags pMem AND NOT (MEM_Zero OR MEM_Term)\<rparr>, mem))
      else (SQLITE_OK, pMem, mem))"

definition putVarint32 :: "nat \<Rightarrow> u8 list" where
  "putVarint32 b = (if b < 0x80 then [of_nat b] else sqlite3PutVarint (of_nat b))"

text \<open>The loop over the registers from the last to the first: sizes, serial types and expanded blobs.\<close>

record mk_state =
  mk_mem :: "bool list"
  mk_nData :: int
  mk_nHdr :: nat
  mk_nZero :: int

definition size_step :: "int \<Rightarrow> Mem \<Rightarrow> mk_state \<Rightarrow> (Mem \<times> nat) \<times> mk_state" where
  "size_step file_format pRec s =
     (let serial_type = sqlite3VdbeSerialType pRec file_format;
          len = int (sqlite3VdbeSerialTypeLen serial_type);
          (pRec', len, nZero, mem) =
            (if has pRec MEM_Zero then
               if mk_nData s \<noteq> 0 then
                 (let (_, r, mem) = sqlite3VdbeMemExpandBlob (mk_mem s) pRec in (r, len, mk_nZero s, mem))
               else (pRec, len - u_nZero pRec, mk_nZero s + u_nZero pRec, mk_mem s)
             else (pRec, len, mk_nZero s, mk_mem s))
      in ((pRec', serial_type),
          \<lparr>mk_mem = mem, mk_nData = mk_nData s + len,
           mk_nHdr = mk_nHdr s + (if serial_type \<le> 127 then 1 else sqlite3VarintLen (of_nat serial_type)),
           mk_nZero = nZero\<rparr>))"

fun size_loop :: "int \<Rightarrow> Mem list \<Rightarrow> (Mem \<times> nat) list \<Rightarrow> mk_state \<Rightarrow> (Mem \<times> nat) list \<times> mk_state" where
  "size_loop file_format [] acc s = (acc, s)"
| "size_loop file_format (pRec # rs) acc s =
     (let (r, s) = size_step file_format pRec s in size_loop file_format rs (r # acc) s)"

definition header_size :: "nat \<Rightarrow> nat" where
  "header_size nHdr =
     (if nHdr \<le> 126 then nHdr + 1
      else let nVarint = sqlite3VarintLen (of_nat nHdr); nHdr = nHdr + nVarint in
        if nVarint < sqlite3VarintLen (of_nat nHdr) then nHdr + 1 else nHdr)"

definition put_at :: "nat \<Rightarrow> u8 list \<Rightarrow> u8 list \<Rightarrow> u8 list" where
  "put_at k bs z = take k z @ bs @ drop (k + length bs) z"

fun write_loop :: "(Mem \<times> nat) list \<Rightarrow> nat \<Rightarrow> nat \<Rightarrow> u8 list \<Rightarrow> u8 list" where
  "write_loop [] i j z = z"
| "write_loop ((pRec, serial_type) # rs) i j z =
     (let h = putVarint32 serial_type; d = sqlite3VdbeSerialPut pRec serial_type in
      write_loop rs (i + length h) (j + length d) (put_at j d (put_at i h z)))"

text \<open>\<open>raw\<close> is the content of the buffer of the output register before the record is written.\<close>

definition OP_MakeRecord :: "int \<Rightarrow> int \<Rightarrow> bool list \<Rightarrow> (nat \<Rightarrow> u8) \<Rightarrow> Mem \<Rightarrow> Mem list \<Rightarrow> int + Mem" where
  "OP_MakeRecord limit file_format mem raw pOut regs =
     (let (recs, s) = size_loop file_format (rev regs) [] \<lparr>mk_mem = mem, mk_nData = 0, mk_nHdr = 0, mk_nZero = 0\<rparr>;
          nHdr = header_size (mk_nHdr s);
          nByte = int nHdr + mk_nData s
      in if nByte > limit then Inl SQLITE_TOOBIG
         else if \<not> fst (mem_malloc (mk_mem s)) then Inl SQLITE_NOMEM
         else
           (let h = putVarint32 nHdr;
                z = write_loop recs (length h) nHdr (put_at 0 h (map raw [0..<nat nByte]))
            in Inr (pOut\<lparr>mem_u := (if mk_nZero s \<noteq> 0 then of_int (mk_nZero s) else mem_u pOut),
                     mem_flags := (if mk_nZero s \<noteq> 0 then MEM_Blob OR MEM_Zero else MEM_Blob),
                     mem_n := nat nByte, mem_z := z\<rparr>)))"
section \<open>Unpacking a record\<close>

record KeyInfo =
  ki_nField :: nat
  ki_nXField :: nat
  aSortOrder :: "bool list"
  aColl :: "(u8 list \<Rightarrow> u8 list \<Rightarrow> int) option list"

record UnpackedRecord =
  pKeyInfo :: KeyInfo
  ur_nField :: nat
  default_rc :: int
  errCode :: int
  aMem :: "Mem list"
  ur_r1 :: int
  ur_r2 :: int

text \<open>
  The offset \<open>d\<close> of the content is a signed integer, to which an unsigned length is added; \<open>None\<close> when it has
  become negative and the code would read in front of the buffer.
\<close>

definition add_int32 :: "int \<Rightarrow> nat \<Rightarrow> int" where
  "add_int32 d n = sint (of_int d + of_nat n :: u32)"

function unpack_loop :: "u8 list \<Rightarrow> int \<Rightarrow> nat \<Rightarrow> nat \<Rightarrow> nat \<Rightarrow> int \<Rightarrow> nat \<Rightarrow> Mem list \<Rightarrow> (nat \<times> Mem list) option" where
  "unpack_loop aKey nKey szHdr nField idx d u mems =
     (if idx < szHdr \<and> d \<le> nKey then
        (if d < 0 then None
         else
           (let (serial_type, k) = getVarint32 (drop idx aKey);
                idx = (idx + k) mod 2 ^ 32;
                (len, m) = sqlite3VdbeSerialGet (drop (nat d) aKey) (unat serial_type) (mems ! u);
                mems = mems[u := m];
                d = add_int32 d len
            in if u + 1 \<ge> nField then Some (u + 1, mems)
               else unpack_loop aKey nKey szHdr nField idx d (u + 1) mems))
      else Some (u, mems))"
  by pat_completeness auto
termination
  by (relation "measure (\<lambda>(aKey, nKey, szHdr, nField, idx, d, u, mems). nField - u)") auto

declare unpack_loop.simps [simp del]

definition sqlite3VdbeRecordUnpack :: "int \<Rightarrow> u8 list \<Rightarrow> UnpackedRecord \<Rightarrow> UnpackedRecord option" where
  "sqlite3VdbeRecordUnpack nKey aKey p =
     (let (szHdr, idx) = getVarint32 aKey in
      case unpack_loop aKey nKey (unat szHdr) (ur_nField p) idx (sint szHdr) 0 (aMem p) of
        None \<Rightarrow> None
      | Some (u, mems) \<Rightarrow> Some (p\<lparr>default_rc := 0, aMem := mems, ur_nField := u\<rparr>))"

section \<open>The rowid of an index entry\<close>

text \<open>
  The entry is read from the b-tree, whose result code and bytes are arguments. The size of the header is compared as a
  signed integer; \<open>None\<close> when the last byte of the header would be read outside of the entry.
\<close>

definition sqlite3VdbeIdxRowid :: "int \<Rightarrow> u8 list \<Rightarrow> (int + int) option" where
  "sqlite3VdbeIdxRowid rc z =
     (if rc \<noteq> 0 then Some (Inl rc)
      else
        (let szHdr = fst (getVarint32 z); n = length z in
         if szHdr < 3 \<or> sint szHdr > int n then Some (Inl SQLITE_CORRUPT)
         else if unat szHdr > n then None
         else
           (let typeRowid = unat (fst (getVarint32 (drop (unat szHdr - 1) z))) in
            if typeRowid < 1 \<or> typeRowid > 9 \<or> typeRowid = 7 then Some (Inl SQLITE_CORRUPT)
            else
              (let lenRowid = sqlite3VdbeSerialTypeLen typeRowid in
               if n < (unat szHdr + lenRowid) mod 2 ^ 32 then Some (Inl SQLITE_CORRUPT)
               else
                 Some (Inr (u_i (snd (sqlite3VdbeSerialGet (drop (n - lenRowid) z) typeRowid
                   \<lparr>mem_u = 0, mem_flags = 0, mem_n = 0, mem_z = []\<rparr>))))))))"

section \<open>Lemmas: integers of one to eight bytes\<close>

definition be_int :: "u8 list \<Rightarrow> int" where
  "be_int bs = sint (hd bs) * 256 ^ (length bs - 1) + int (be_nat (tl bs))"

lemma be_bytes_snoc: "be_bytes (Suc n) v = be_bytes n (v div 256) @ [of_nat v]"
proof (induction n)
  case (Suc n)
  have e: "v div 256 div 256 ^ n = v div 256 ^ Suc n" by (simp add: div_mult2_eq)
  have "be_bytes (Suc (Suc n)) v = of_nat (v div 256 ^ Suc n) # be_bytes (Suc n) v" by simp
  also have "\<dots> = of_nat (v div 256 div 256 ^ n) # be_bytes n (v div 256) @ [of_nat v]" unfolding e Suc ..
  finally show ?case by simp
qed simp

lemma put_loop_eq: "put_loop n v buf = be_bytes n (unat v) @ buf"
proof (induction n arbitrary: v buf)
  case (Suc n)
  have "(ucast (v AND 0xff) :: u8) = of_nat (unat v)"
    using byte_of_word [of 0 v] and_0xff_ucast [of v] by simp
  moreover have "unat (drop_bit 8 v) = unat v div 256"
    by (simp only: unat_drop_bit_eq) (simp add: drop_bit_eq_div)
  ultimately show ?case by (simp only: put_loop.simps Suc be_bytes_snoc) simp
qed simp

lemma or_eq_add: "0 \<le> b \<Longrightarrow> b < 2 ^ k \<Longrightarrow> (a * 2 ^ k OR b) = a * 2 ^ k + (b :: int)"
proof -
  assume b: "0 \<le> b" "b < 2 ^ k"
  have "a * 2 ^ k AND b = 0"
  proof (rule bit_eqI)
    fix n
    from b have "take_bit k b = b" by (simp add: take_bit_int_eq_self)
    then have "bit b n \<Longrightarrow> n < k" by (metis bit_take_bit_iff)
    then show "bit (a * 2 ^ k AND b) n \<longleftrightarrow> bit (0 :: int) n"
      by (auto simp: bit_simps simp flip: push_bit_eq_mult)
  qed
  then show ?thesis by (simp add: disjunctive_add_eq_or)
qed

lemma uint_byte: "0 \<le> uint (b :: u8)" "uint (b :: u8) < 256"
  using uint_bounded [of b] by simp_all

lemma or_add_256: "0 \<le> b \<Longrightarrow> b < 256 \<Longrightarrow> (a * 256 OR b) = a * 256 + (b :: int)"
  using or_eq_add [of b 8 a] by simp

lemma or_add_65536: "0 \<le> b \<Longrightarrow> b < 65536 \<Longrightarrow> (a * 65536 OR b) = a * 65536 + (b :: int)"
  using or_eq_add [of b 16 a] by simp

lemma or_add_16777216: "0 \<le> b \<Longrightarrow> b < 16777216 \<Longrightarrow> (a * 16777216 OR b) = a * 16777216 + (b :: int)"
  using or_eq_add [of b 24 a] by simp

lemma or_three_bytes: "(a * 65536 OR uint (b :: u8) * 256 OR uint (c :: u8)) = a * 65536 + uint b * 256 + uint c"
  using uint_byte [of b] uint_byte [of c] by (simp add: or_add_256 or_add_65536)

lemma or_four_bytes:
  "(a * 16777216 OR uint (b :: u8) * 65536 OR uint (c :: u8) * 256 OR uint (d :: u8))
     = a * 16777216 + uint b * 65536 + uint c * 256 + uint d"
  using uint_byte [of b] uint_byte [of c] uint_byte [of d]
  by (simp add: or_add_256 or_add_65536 or_add_16777216)

lemma list_ge_1: "Suc 0 \<le> length p \<longleftrightarrow> (\<exists>a q. p = a # q)" by (cases p) auto
lemma list_ge_2': "2 \<le> length p \<longleftrightarrow> (\<exists>a b q. p = a # b # q)"
  by (simp add: numeral_2_eq_2 Suc_le_length_iff) blast
lemma list_ge_3': "3 \<le> length p \<longleftrightarrow> (\<exists>a b c q. p = a # b # c # q)"
  by (simp add: numeral_3_eq_3 Suc_le_length_iff) blast
lemma list_ge_4': "4 \<le> length p \<longleftrightarrow> (\<exists>a b c d q. p = a # b # c # d # q)"
  by (simp add: eval_nat_numeral Suc_le_length_iff) blast

lemma FOUR_BYTE_UINT_eq:
  assumes "4 \<le> length x"
  shows "uint (FOUR_BYTE_UINT x) = int (be_nat (take 4 x))"
proof -
  from assms obtain a b c d q where x: "x = a # b # c # d # q" by (auto simp: list_ge_4')
  have p: "uint (push_bit k (ucast z :: u32)) = uint z * 2 ^ k" if "k \<le> 24" for k and z :: u8
  proof -
    have "uint z * 2 ^ k < 256 * 2 ^ k" using uint_byte [of z] by simp
    also have "\<dots> \<le> 256 * 2 ^ 24" using that by (intro mult_left_mono power_increasing) auto
    finally have "uint z * 2 ^ k < 2 ^ 32" by simp
    moreover have "uint (ucast z :: u32) = uint z"
      using uint_byte [of z] by (simp add: unsigned_ucast_eq take_bit_int_eq_self)
    ultimately show ?thesis
      using uint_byte [of z] unfolding unsigned_push_bit_eq by (simp add: push_bit_eq_mult take_bit_int_eq_self)
  qed
  have "uint (FOUR_BYTE_UINT x) = (uint a * 16777216 OR uint b * 65536 OR uint c * 256 OR uint d)"
    unfolding FOUR_BYTE_UINT_def x using p [of 24 a] p [of 16 b] p [of 8 c] p [of 0 d]
    by (simp add: unsigned_or_eq)
  also have "\<dots> = int (be_nat (take 4 x))" unfolding or_four_bytes x by simp
  finally show ?thesis .
qed

lemma be_int_Cons: "be_int (b # bs) = sint b * 256 ^ length bs + int (be_nat bs)"
  by (simp add: be_int_def)

lemma byte_ints:
  "1 \<le> length x \<Longrightarrow> ONE_BYTE_INT x = be_int (take 1 x)"
  "2 \<le> length x \<Longrightarrow> TWO_BYTE_INT x = be_int (take 2 x)"
  "3 \<le> length x \<Longrightarrow> THREE_BYTE_INT x = be_int (take 3 x)"
  "4 \<le> length x \<Longrightarrow> FOUR_BYTE_INT x = be_int (take 4 x)"
proof -
  show "1 \<le> length x \<Longrightarrow> ONE_BYTE_INT x = be_int (take 1 x)"
    by (auto simp: list_ge_1 ONE_BYTE_INT_def be_int_Cons)
  show "2 \<le> length x \<Longrightarrow> TWO_BYTE_INT x = be_int (take 2 x)"
    using or_add_256 [OF uint_byte, of "sint (x ! 0)" "x ! 1"]
    by (auto simp: list_ge_2' TWO_BYTE_INT_def be_int_Cons mult.commute)
  show "3 \<le> length x \<Longrightarrow> THREE_BYTE_INT x = be_int (take 3 x)"
    using or_three_bytes [of "sint (x ! 0)" "x ! 1" "x ! 2"]
    by (auto simp: list_ge_3' THREE_BYTE_INT_def be_int_Cons push_bit_eq_mult mult.commute)
  show "4 \<le> length x \<Longrightarrow> FOUR_BYTE_INT x = be_int (take 4 x)"
    using or_four_bytes [of "sint (x ! 0)" "x ! 1" "x ! 2" "x ! 3"]
    by (auto simp: list_ge_4' FOUR_BYTE_INT_def be_int_Cons push_bit_eq_mult mult.commute)
qed

lemma be_int_append:
  assumes "bs \<noteq> []"
  shows "be_int (bs @ cs) = be_int bs * 256 ^ length cs + int (be_nat cs)"
proof -
  have *: "be_nat (ds @ cs) = be_nat ds * 256 ^ length cs + be_nat cs" for ds
    by (induction ds) (simp_all add: algebra_simps power_add)
  from assms obtain b ds where "bs = b # ds" by (cases bs) auto
  then show ?thesis by (simp add: be_int_Cons * algebra_simps power_add)
qed

lemma signed_take_bit_split:
  "signed_take_bit (m + n) (a :: int) = signed_take_bit m (drop_bit n a) * 2 ^ n + take_bit n a"
proof -
  have e: "signed_take_bit m (drop_bit n a) * 2 ^ n + take_bit n a = (push_bit n (signed_take_bit m (drop_bit n a)) OR take_bit n a)"
    by (subst disjunctive_add_eq_or [symmetric])
      (auto simp: bit_eq_iff bit_simps push_bit_eq_mult simp flip: push_bit_eq_mult)
  show ?thesis unfolding e by (rule bit_eqI) (auto simp: bit_simps min_def add.commute)
qed

lemma be_int_be_bytes:
  assumes "k < 8" "- (2 ^ (7 + 8 * k)) \<le> sint v" "sint v < 2 ^ (7 + 8 * k)"
  shows "be_int (be_bytes (Suc k) (unat (v :: u64))) = sint v"
proof -
  have s8: "sint (of_nat q :: u8) = signed_take_bit 7 (int q)" for q
    by (simp add: signed_of_nat)
  have p: "(256 :: int) ^ k = 2 ^ (8 * k)" "(256 :: nat) ^ k = 2 ^ (8 * k)" by (simp_all add: power_mult)
  have "be_int (be_bytes (Suc k) (unat v)) = signed_take_bit 7 (uint v div 2 ^ (8 * k)) * 2 ^ (8 * k) + uint v mod 2 ^ (8 * k)"
    by (simp add: be_int_Cons s8 be_nat_be_bytes p zdiv_int zmod_int)
  also have "\<dots> = signed_take_bit (7 + 8 * k) (uint v)"
    unfolding signed_take_bit_split by (simp add: drop_bit_eq_div take_bit_eq_mod)
  also have "\<dots> = signed_take_bit (7 + 8 * k) (sint v)"
  proof (rule bit_eqI)
    fix n
    have "k = 7" if "7 \<le> k" using that assms(1) by simp
    then show "bit (signed_take_bit (7 + 8 * k) (uint v)) n \<longleftrightarrow> bit (signed_take_bit (7 + 8 * k) (sint v)) n"
      by (auto simp: bit_simps min_def)
  qed
  also have "\<dots> = sint v" using assms(2,3) by (simp add: signed_take_bit_int_eq_self)
  finally show ?thesis .
qed

section \<open>Lemmas: variable-length integers of 32 bits\<close>

lemma VarintLen_le_iff:
  assumes "k < 8" "v < 2 ^ 32"
  shows "sqlite3VarintLen (of_nat v) \<le> Suc k \<longleftrightarrow> v < 128 ^ Suc k"
proof -
  have u: "unat (of_nat v :: u64) = v" using assms(2) by (simp add: unat_of_nat take_bit_nat_eq_self)
  have e: "sqlite3VarintLen (of_nat v) = min 9 (length (varint_buf (of_nat v)))"
    by (simp add: sqlite3VarintLen_def varintLen_loop_eq)
  show ?thesis
  proof
    assume "sqlite3VarintLen (of_nat v) \<le> Suc k"
    with e assms(1) have l: "length (varint_buf (of_nat v)) \<le> Suc k" by auto
    have "v < 128 ^ length (varint_buf (of_nat v))" using varint_buf_bound [of "of_nat v"] u by simp
    also have "\<dots> \<le> 128 ^ Suc k" using l by (intro power_increasing) auto
    finally show "v < 128 ^ Suc k" .
  next
    assume "v < 128 ^ Suc k"
    then show "sqlite3VarintLen (of_nat v) \<le> Suc k" using length_varint_buf [of "of_nat v" k] e u by simp
  qed
qed

lemma VarintLen_cases:
  assumes "v < 2 ^ 32"
  shows "sqlite3VarintLen (of_nat v) =
    (if v < 128 then 1 else if v < 16384 then 2 else if v < 2097152 then 3 else if v < 268435456 then 4 else 5)"
  using VarintLen_le_iff [of 0 v] VarintLen_le_iff [of 1 v] VarintLen_le_iff [of 2 v] VarintLen_le_iff [of 3 v]
    VarintLen_le_iff [of 4 v] varint_len [of "of_nat v"] assms
  by (simp split: if_splits) linarith

lemma putVarint32_eq:
  assumes "v < 2 ^ 32"
  shows "putVarint32 v = sqlite3PutVarint (of_nat v)"
proof (cases "v < 128")
  case True
  have u: "unat (of_nat v :: u64) = v" using assms by (simp add: unat_of_nat take_bit_nat_eq_self)
  have "(of_nat v :: u64) \<le> 0x7f" using True u by (simp add: word_le_nat_alt)
  moreover have "(0x7f :: u64) = mask 7" by (simp add: mask_eq_exp_minus_1)
  moreover have "(of_nat v :: u64) AND mask 7 = of_nat v"
    using True u by (simp add: word_unat_eq_iff take_bit_nat_eq_self unsigned_take_bit_eq flip: take_bit_eq_mask)
  moreover have "(ucast (of_nat v :: u64) :: u8) = of_nat v"
    using byte_of_word [of 0 "of_nat v :: u64"] u by simp
  ultimately show ?thesis using True by (simp add: putVarint32_def sqlite3PutVarint_def)
qed (simp add: putVarint32_def)

lemma length_putVarint32: "v < 2 ^ 32 \<Longrightarrow> length (putVarint32 v) = sqlite3VarintLen (of_nat v)"
  by (simp add: putVarint32_eq length_sqlite3PutVarint)

lemma getVarint32_put:
  assumes "v < 2 ^ 32"
  shows "getVarint32 (putVarint32 v @ rest) = (of_nat v, length (putVarint32 v))"
proof -
  have u: "unat (of_nat v :: u64) = v" using assms by (simp add: unat_of_nat take_bit_nat_eq_self)
  have "(of_nat v :: u64) \<le> 0xffffffff" using assms u by (simp add: word_le_nat_alt)
  moreover have "(ucast (of_nat v :: u64) :: u32) = of_nat v"
    using u assms by (simp add: word_unat_eq_iff unsigned_ucast_eq unat_of_nat take_bit_nat_eq_self)
  moreover have "sqlite3GetVarint (sqlite3PutVarint (of_nat v) @ rest) = (of_nat v, length (sqlite3PutVarint (of_nat v)))"
    using sqlite3GetVarint_ref [OF varint_complete_put] varint_ref_put by simp
  ultimately show ?thesis using assms by (simp add: getVarint32_eq putVarint32_eq)
qed

text \<open>The header size counts its own length.\<close>

lemma header_size_eq:
  assumes "n < 2 ^ 31"
  shows "header_size n = n + length (putVarint32 (header_size n)) \<and> header_size n \<le> n + 6"
proof -
  have "header_size n < 2 ^ 32 \<and> header_size n = n + sqlite3VarintLen (of_nat (header_size n)) \<and> header_size n \<le> n + 6"
    using assms VarintLen_cases [of n] VarintLen_cases [of "n + sqlite3VarintLen (of_nat n)"]
      VarintLen_cases [of "header_size n"]
    by (simp add: header_size_def Let_def split: if_splits)
  then show ?thesis by (simp add: length_putVarint32)
qed

section \<open>Values and their serialisation\<close>

text \<open>The value a cell stands for, and the cells the code makes.\<close>

datatype sql_value = VNull | VInt int | VReal u64 | VText "u8 list" | VBlob "u8 list"

definition mem_bytes :: "Mem \<Rightarrow> u8 list" where
  "mem_bytes m = take (mem_n m) (mem_z m) @ (if has m MEM_Zero then replicate (nat (u_nZero m)) 0 else [])"

definition mem_value :: "Mem \<Rightarrow> sql_value" where
  "mem_value m =
     (if has m MEM_Null then VNull
      else if has m MEM_Int then VInt (u_i m)
      else if has m MEM_Real then VReal (mem_u m)
      else if has m MEM_Str then VText (mem_bytes m)
      else VBlob (mem_bytes m))"

definition valid_mem :: "Mem \<Rightarrow> bool" where
  "valid_mem m \<longleftrightarrow>
     (has m MEM_Real \<longrightarrow> has m MEM_Int \<or> decode64 (mem_u m) \<noteq> NaN) \<and>
     (has m MEM_Zero \<longrightarrow> \<not> has m MEM_Null \<and> \<not> has m MEM_Int \<and> \<not> has m MEM_Real \<and> \<not> has m MEM_Str \<and> 0 \<le> u_nZero m) \<and>
     mem_n m \<le> length (mem_z m) \<and> length (mem_bytes m) < 2 ^ 31 - 6"

text \<open>The value at the start of a buffer under a serial type.\<close>

definition serial_value :: "nat \<Rightarrow> u8 list \<Rightarrow> sql_value" where
  "serial_value st buf = mem_value (snd (sqlite3VdbeSerialGet buf st \<lparr>mem_u = 0, mem_flags = 0, mem_n = 0, mem_z = []\<rparr>))"

lemma has_flags [simp]: "has (m\<lparr>mem_flags := f\<rparr>) g \<longleftrightarrow> f AND g \<noteq> 0"
  by (simp add: has_def)

lemma flags_disjoint [simp]:
  "MEM_Null AND MEM_Int = 0" "MEM_Null AND MEM_Real = 0" "MEM_Null AND MEM_Str = 0"
  by simp_all

lemma serial_value_mem: "mem_value (snd (sqlite3VdbeSerialGet buf st pMem)) = serial_value st buf"
  by (simp add: serial_value_def sqlite3VdbeSerialGet_def serialGet_def set_int_def mem_value_def mem_bytes_def has_def u_i_def Let_def)

lemma SerialGet_len: "fst (sqlite3VdbeSerialGet buf st pMem) = sqlite3VdbeSerialTypeLen st"
proof (cases "st < 12")
  case True
  then have "st = 0 \<or> st = 1 \<or> st = 2 \<or> st = 3 \<or> st = 4 \<or> st = 5 \<or> st = 6 \<or> st = 7 \<or> st = 8 \<or> st = 9 \<or> st = 10 \<or> st = 11"
    by presburger
  then show ?thesis by (elim disjE) (simp_all add: sqlite3VdbeSerialGet_def sqlite3VdbeSerialTypeLen_def serialGet_def Let_def)
qed (simp add: sqlite3VdbeSerialGet_def sqlite3VdbeSerialTypeLen_def Let_def)

lemma sqlite3IsNaN_iff [simp]: "sqlite3IsNaN x \<longleftrightarrow> x = NaN"
  by (simp add: sqlite3IsNaN_def feq_iff)

text \<open>The type of each value by its class.\<close>

lemma serial_value_text: "serial_value (13 + 2 * n) buf = VText (take n buf)"
  by (simp add: serial_value_def sqlite3VdbeSerialGet_def mem_value_def mem_bytes_def has_def Let_def)

lemma serial_value_blob: "serial_value (12 + 2 * n) buf = VBlob (take n buf)"
  by (simp add: serial_value_def sqlite3VdbeSerialGet_def mem_value_def mem_bytes_def has_def Let_def)

lemma be_nat_append: "be_nat (ds @ cs) = be_nat ds * 256 ^ length cs + be_nat cs"
  by (induction ds) (simp_all add: algebra_simps power_add)

lemma serialGet_eq:
  assumes "8 \<le> length buf"
  shows "serialGet buf st pMem = (8, let x = of_nat (be_nat (take 8 buf)) in
    if st = 6 then pMem\<lparr>mem_u := x, mem_flags := MEM_Int\<rparr>
    else pMem\<lparr>mem_u := x, mem_flags := (if sqlite3IsNaN (decode64 x) then MEM_Null else MEM_Real)\<rparr>)"
proof -
  let ?x = "push_bit 32 (ucast (FOUR_BYTE_UINT buf) :: u64) + ucast (FOUR_BYTE_UINT (drop 4 buf))"
  have s: "take 8 buf = take 4 buf @ take 4 (drop 4 buf)" using take_add [of 4 4 buf] by simp
  have f: "(ucast (FOUR_BYTE_UINT z) :: u64) = of_nat (be_nat (take 4 z))" if "4 \<le> length z" for z
  proof -
    have "(ucast (FOUR_BYTE_UINT z) :: u64) = of_int (uint (FOUR_BYTE_UINT z))" by simp
    then show ?thesis by (simp add: FOUR_BYTE_UINT_eq [OF that])
  qed
  have "?x = of_nat (be_nat (take 8 buf))"
    using assms f [of buf] f [of "drop 4 buf"] by (simp add: s be_nat_append push_bit_eq_mult)
  then show ?thesis unfolding serialGet_def Let_def by (simp only: )
qed

lemma serial_value_eight:
  assumes "8 \<le> length buf"
  shows "serial_value 6 buf = VInt (sint (of_nat (be_nat (take 8 buf)) :: u64))"
    "serial_value 7 buf = (let w = of_nat (be_nat (take 8 buf)) in if decode64 w = NaN then VNull else VReal w)"
  by (simp_all add: serial_value_def sqlite3VdbeSerialGet_def serialGet_eq [OF assms] Let_def mem_value_def has_def u_i_def)

lemma sint_of_int: "- (2 ^ 63) \<le> i \<Longrightarrow> i < 2 ^ 63 \<Longrightarrow> sint (of_int i :: u64) = i"
  by (simp add: signed_of_int signed_take_bit_int_eq_self)

lemma be_int_bounds:
  assumes "bs \<noteq> []" "length bs \<le> 8"
  shows "- (2 ^ 63) \<le> be_int bs \<and> be_int bs < 2 ^ 63"
proof -
  from assms(1) obtain b cs where bs: "bs = b # cs" by (cases bs) auto
  have s: "- 128 \<le> sint b" "sint b \<le> 127" using sint_greater_eq [of b] sint_less [of b] by simp_all
  have "int (be_nat cs) < int (256 ^ length cs)" using be_nat_less [of cs] by (simp only: of_nat_less_iff)
  then have p1: "int (be_nat cs) < 256 ^ length cs" by simp
  have "(256 :: int) ^ length cs \<le> 256 ^ 7" using assms(2) bs by (intro power_increasing) auto
  then have p2: "(256 :: int) ^ length cs \<le> 72057594037927936" by simp
  have "sint b * 256 ^ length cs \<le> 127 * 256 ^ length cs" "- 128 * 256 ^ length cs \<le> sint b * 256 ^ length cs"
    using s by (simp_all only: mult_right_mono zero_le_power zero_le_numeral)
  then have "- 9223372036854775808 \<le> be_int bs \<and> be_int bs < 9223372036854775808"
    unfolding bs be_int_Cons using p1 p2 by linarith
  then show ?thesis by simp
qed

lemma six_byte_int:
  assumes "6 \<le> length buf"
  shows "uint (FOUR_BYTE_UINT (drop 2 buf)) + 2 ^ 32 * TWO_BYTE_INT buf = be_int (take 6 buf)"
proof -
  have "take 6 buf = take 2 buf @ take 4 (drop 2 buf)" using take_add [of 2 4 buf] by simp
  moreover have "take 2 buf \<noteq> []" using assms by auto
  ultimately show ?thesis using assms by (simp add: be_int_append FOUR_BYTE_UINT_eq byte_ints)
qed

lemma serial_value_int:
  "1 \<le> length buf \<Longrightarrow> serial_value 1 buf = VInt (be_int (take 1 buf))"
  "2 \<le> length buf \<Longrightarrow> serial_value 2 buf = VInt (be_int (take 2 buf))"
  "3 \<le> length buf \<Longrightarrow> serial_value 3 buf = VInt (be_int (take 3 buf))"
  "4 \<le> length buf \<Longrightarrow> serial_value 4 buf = VInt (be_int (take 4 buf))"
  "6 \<le> length buf \<Longrightarrow> serial_value 5 buf = VInt (be_int (take 6 buf))"
  "8 \<le> length buf \<Longrightarrow> serial_value 6 buf = VInt (be_int (take 8 buf))"
proof -
  have set_value: "mem_value (set_int m (be_int bs)) = VInt (be_int bs)" if "bs \<noteq> []" "length bs \<le> 8" for m bs
    using be_int_bounds [OF that] by (simp add: mem_value_def set_int_def has_def u_i_def sint_of_int)
  show "1 \<le> length buf \<Longrightarrow> serial_value 1 buf = VInt (be_int (take 1 buf))"
    by (subst set_value [of "take 1 buf", symmetric]) (auto simp: serial_value_def sqlite3VdbeSerialGet_def byte_ints)
  show "2 \<le> length buf \<Longrightarrow> serial_value 2 buf = VInt (be_int (take 2 buf))"
    by (subst set_value [of "take 2 buf", symmetric]) (auto simp: serial_value_def sqlite3VdbeSerialGet_def byte_ints)
  show "3 \<le> length buf \<Longrightarrow> serial_value 3 buf = VInt (be_int (take 3 buf))"
    by (subst set_value [of "take 3 buf", symmetric]) (auto simp: serial_value_def sqlite3VdbeSerialGet_def byte_ints)
  show "4 \<le> length buf \<Longrightarrow> serial_value 4 buf = VInt (be_int (take 4 buf))"
    by (subst set_value [of "take 4 buf", symmetric]) (auto simp: serial_value_def sqlite3VdbeSerialGet_def byte_ints)
  show "6 \<le> length buf \<Longrightarrow> serial_value 5 buf = VInt (be_int (take 6 buf))"
    by (subst set_value [of "take 6 buf", symmetric])
      (auto simp: serial_value_def sqlite3VdbeSerialGet_def six_byte_int [simplified])
  show "serial_value 6 buf = VInt (be_int (take 8 buf))" if "8 \<le> length buf"
  proof -
    let ?w = "of_nat (be_nat (take 8 buf)) :: u64"
    have l: "length (take 8 buf) = 8" using that by simp
    have "be_nat (take 8 buf) < 2 ^ 64" using be_nat_less [of "take 8 buf"] l by simp
    then have u: "unat ?w = be_nat (take 8 buf)" by (simp add: unat_of_nat take_bit_nat_eq_self)
    have "be_bytes 8 (unat ?w) = take 8 buf" using be_bytes_be_nat [of "take 8 buf"] l unfolding u by simp
    moreover have "be_int (be_bytes (Suc 7) (unat ?w)) = sint ?w"
      using sint_greater_eq [of ?w] sint_less [of ?w] by (intro be_int_be_bytes) simp_all
    ultimately show ?thesis using serial_value_eight(1) [OF that] by simp
  qed
qed

text \<open>What \<open>sqlite3VdbeSerialPut\<close> writes is read back as the value.\<close>

abbreviation content :: "int \<Rightarrow> Mem \<Rightarrow> u8 list" where
  "content ff m \<equiv> sqlite3VdbeSerialPut m (sqlite3VdbeSerialType m ff) @
     (if has m MEM_Zero then replicate (nat (u_nZero m)) 0 else [])"

lemma SerialType_int:
  assumes "\<not> has m MEM_Null" "has m MEM_Int"
  shows "\<exists>st k. sqlite3VdbeSerialType m ff = st \<and>
    ((st, k) \<in> {(1, 0), (2, 1), (3, 2), (4, 3), (5, 5), (6, 7)} \<and> - (2 ^ (7 + 8 * k)) \<le> u_i m \<and> u_i m < 2 ^ (7 + 8 * k)
     \<or> st = 8 \<and> u_i m = 0 \<or> st = 9 \<and> u_i m = 1)"
proof -
  let ?i = "u_i m"
  have r: "- (2 ^ 63) \<le> ?i" "?i < 2 ^ 63" using sint_greater_eq [of "mem_u m"] sint_less [of "mem_u m"] by (simp_all add: u_i_def)
  have b: "?i = 0 \<or> ?i = 1" if "?i AND 1 = ?i"
  proof -
    have "?i AND 1 = ?i mod 2" by (simp add: and_one_eq)
    with that show ?thesis by presburger
  qed
  show ?thesis using r b assms
    by (simp add: sqlite3VdbeSerialType_def Let_def) auto
qed

lemma get_put_int:
  assumes "\<not> has m MEM_Null" "has m MEM_Int" and st_def: "st = sqlite3VdbeSerialType m ff"
  shows "st < 10 \<and> st \<noteq> 0 \<and> st \<noteq> 7 \<and> length (sqlite3VdbeSerialPut m st) = sqlite3VdbeSerialTypeLen st \<and>
    serial_value st (sqlite3VdbeSerialPut m st @ rest) = VInt (u_i m)"
proof -
  from SerialType_int [OF assms(1,2), of ff] obtain k where k:
    "(st, k) \<in> {(1, 0), (2, 1), (3, 2), (4, 3), (5, 5), (6, 7)} \<and> - (2 ^ (7 + 8 * k)) \<le> u_i m \<and> u_i m < 2 ^ (7 + 8 * k)
     \<or> st = 8 \<and> u_i m = 0 \<or> st = 9 \<and> u_i m = 1" unfolding st_def by blast
  from k show ?thesis
  proof (elim disjE conjE)
    assume a: "(st, k) \<in> {(1, 0), (2, 1), (3, 2), (4, 3), (5, 5), (6, 7)}" "- (2 ^ (7 + 8 * k)) \<le> u_i m" "u_i m < 2 ^ (7 + 8 * k)"
    from a(1) have s: "st < 10" "st \<noteq> 0" "st \<noteq> 7" "st \<le> 7" "0 < st" "k < 8" "sqlite3VdbeSerialTypeLen st = Suc k"
      by (auto simp: sqlite3VdbeSerialTypeLen_def)
    have put: "sqlite3VdbeSerialPut m st = be_bytes (Suc k) (unat (mem_u m))"
      using s by (simp only: sqlite3VdbeSerialPut_def put_loop_eq) simp
    have "serial_value st (be_bytes (Suc k) (unat (mem_u m)) @ rest) = VInt (be_int (be_bytes (Suc k) (unat (mem_u m))))"
      using a(1) by (auto simp: serial_value_int serial_value_int(1) [simplified] simp del: be_bytes.simps be_bytes_numeral)
    also have "\<dots> = VInt (u_i m)" using be_int_be_bytes [of k "mem_u m"] s a(2,3) unfolding u_i_def by simp
    finally show ?thesis using s unfolding put by simp
  qed (simp_all add: sqlite3VdbeSerialPut_def sqlite3VdbeSerialTypeLen_def serial_value_def sqlite3VdbeSerialGet_def
      set_int_def mem_value_def has_def u_i_def)
qed

lemma get_put:
  assumes "valid_mem m" and st_def: "st = sqlite3VdbeSerialType m ff"
  shows "st < 2 ^ 32 \<and> st \<noteq> 10 \<and> st \<noteq> 11 \<and> length (content ff m) = sqlite3VdbeSerialTypeLen st \<and>
    serial_value st (content ff m @ rest) = mem_value m"
proof -
  consider (Null) "has m MEM_Null" | (Int) "\<not> has m MEM_Null" "has m MEM_Int"
    | (Real) "\<not> has m MEM_Null" "\<not> has m MEM_Int" "has m MEM_Real"
    | (Bytes) "\<not> has m MEM_Null" "\<not> has m MEM_Int" "\<not> has m MEM_Real" by blast
  then show ?thesis
  proof cases
    case Null
    with assms(1) show ?thesis
      by (auto simp: st_def valid_mem_def sqlite3VdbeSerialType_def sqlite3VdbeSerialPut_def sqlite3VdbeSerialTypeLen_def
          serial_value_def sqlite3VdbeSerialGet_def mem_value_def has_def)
  next
    case Int
    have "\<not> has m MEM_Zero" using assms(1) Int by (auto simp: valid_mem_def)
    with get_put_int [OF Int st_def, of rest] Int show ?thesis by (simp add: st_def mem_value_def)
  next
    case Real
    have z: "\<not> has m MEM_Zero" "decode64 (mem_u m) \<noteq> NaN" using assms(1) Real by (auto simp: valid_mem_def)
    have st: "st = 7" using Real by (simp add: st_def sqlite3VdbeSerialType_def)
    have put: "content ff m = be_bytes 8 (unat (mem_u m))"
      using z st unfolding st_def [symmetric]
      by (simp add: sqlite3VdbeSerialPut_def sqlite3VdbeSerialTypeLen_def put_loop_eq del: be_bytes_numeral)
    have "(of_nat (be_nat (take 8 (be_bytes 8 (unat (mem_u m)) @ rest))) :: u64) = mem_u m"
      using unat_less_exp [of "mem_u m"] by (simp add: be_nat_be_bytes del: be_bytes_numeral)
    then show ?thesis using z Real st serial_value_eight(2) [of "be_bytes 8 (unat (mem_u m)) @ rest"] unfolding put
      by (simp add: mem_value_def sqlite3VdbeSerialTypeLen_def del: be_bytes_numeral)
  next
    case Bytes
    let ?n = "length (mem_bytes m)"
    have n: "?n < 2 ^ 31 - 6" "mem_n m \<le> length (mem_z m)" using assms(1) by (auto simp: valid_mem_def)
    have len: "int ?n = int (mem_n m) + (if has m MEM_Zero then u_nZero m else 0)"
      using assms(1) by (auto simp: mem_bytes_def valid_mem_def)
    have st: "st = 12 + 2 * ?n + (if has m MEM_Str then 1 else 0)"
    proof -
      have "st = nat ((int ?n * 2 + 12 + (if has m MEM_Str then 1 else 0)) mod 2 ^ 32)"
        unfolding len using Bytes by (simp add: st_def sqlite3VdbeSerialType_def Let_def)
      moreover have "(int ?n * 2 + 12 + (if has m MEM_Str then 1 else 0)) mod 2 ^ 32 = int ?n * 2 + 12 + (if has m MEM_Str then 1 else 0)"
        by (rule mod_pos_pos_trivial) (use n in auto)
      ultimately show ?thesis by (simp split: if_splits)
    qed
    have put: "content ff m = mem_bytes m"
      using st unfolding st_def [symmetric] by (simp add: sqlite3VdbeSerialPut_def mem_bytes_def)
    have v: "serial_value st (mem_bytes m @ rest) = (if has m MEM_Str then VText (mem_bytes m) else VBlob (mem_bytes m))"
      using serial_value_text [of ?n "mem_bytes m @ rest"] serial_value_blob [of ?n "mem_bytes m @ rest"] st by simp
    show ?thesis using Bytes st n(1) unfolding put v by (auto simp: mem_value_def sqlite3VdbeSerialTypeLen_def)
  qed
qed

section \<open>Lemmas: the layout of a record\<close>

text \<open>A record as the list of its fields, each a serial type with its content.\<close>

type_synonym field = "nat \<times> u8 list"

definition header_of :: "field list \<Rightarrow> u8 list" where
  "header_of fs = concat (map (\<lambda>f. putVarint32 (fst f)) fs)"

definition body_of :: "field list \<Rightarrow> u8 list" where
  "body_of fs = concat (map snd fs)"

definition record_of :: "field list \<Rightarrow> u8 list" where
  "record_of fs = putVarint32 (header_size (length (header_of fs))) @ header_of fs @ body_of fs"

definition field_of :: "int \<Rightarrow> Mem \<Rightarrow> field" where
  "field_of ff m = (sqlite3VdbeSerialType m ff, content ff m)"

definition wf_field :: "field \<Rightarrow> bool" where
  "wf_field f \<longleftrightarrow> fst f < 2 ^ 32 \<and> fst f \<noteq> 10 \<and> fst f \<noteq> 11 \<and> length (snd f) = sqlite3VdbeSerialTypeLen (fst f) \<and>
     (fst f = 7 \<longrightarrow> serial_value 7 (snd f) \<noteq> VNull)"

abbreviation field_value :: "field \<Rightarrow> sql_value" where
  "field_value f \<equiv> serial_value (fst f) (snd f)"

lemma layout_simps [simp]:
  "header_of [] = []" "header_of (f # fs) = putVarint32 (fst f) @ header_of fs"
  "body_of [] = []" "body_of (f # fs) = snd f @ body_of fs"
  "header_of (fs @ gs) = header_of fs @ header_of gs" "body_of (fs @ gs) = body_of fs @ body_of gs"
  by (simp_all add: header_of_def body_of_def)

lemma serial_type_cases:
  fixes st :: nat
  obtains "st = 0 \<or> st = 10 \<or> st = 11" | "st = 1" | "st = 2" | "st = 3" | "st = 4" | "st = 5" | "st = 6" | "st = 7" | "st = 8 \<or> st = 9"
    | n where "st = 12 + 2 * n" | n where "st = 13 + 2 * n"
proof (cases "st < 12")
  case False
  then obtain k where "st = 12 + k" using le_Suc_ex [of 12 st] by auto
  then show ?thesis using that by (cases "even k") (auto elim!: evenE oddE)
next
  case True
  then have "st = 0 \<or> st = 10 \<or> st = 11 \<or> st = 1 \<or> st = 2 \<or> st = 3 \<or> st = 4 \<or> st = 5 \<or> st = 6 \<or> st = 7 \<or> st = 8 \<or> st = 9"
    by presburger
  then show ?thesis using that(1-9) by blast
qed

lemma serial_value_append:
  assumes "length c = sqlite3VdbeSerialTypeLen st"
  shows "serial_value st (c @ rest) = serial_value st c"
proof (cases st rule: serial_type_cases)
  case 1
  then show ?thesis by (auto simp: serial_value_def sqlite3VdbeSerialGet_def)
next
  case 8
  with assms show ?thesis by (simp add: serial_value_eight sqlite3VdbeSerialTypeLen_def)
next
  case 9
  then show ?thesis by (auto simp: serial_value_def sqlite3VdbeSerialGet_def)
qed (use assms in \<open>simp_all add: serial_value_int serial_value_int(1) [simplified] serial_value_text serial_value_blob sqlite3VdbeSerialTypeLen_def\<close>)

lemma wf_field_of: "valid_mem m \<Longrightarrow> wf_field (field_of ff m) \<and> field_value (field_of ff m) = mem_value m"
proof -
  assume v: "valid_mem m"
  note g = get_put [OF v refl, of ff "[]", unfolded append_Nil2]
  moreover have "mem_value m \<noteq> VNull" if "sqlite3VdbeSerialType m ff = 7"
  proof -
    have "\<not> has m MEM_Null" using that by (auto simp: sqlite3VdbeSerialType_def)
    then show ?thesis by (simp add: mem_value_def)
  qed
  ultimately show ?thesis by (auto simp: wf_field_def field_of_def)
qed

subsection \<open>Writing\<close>

abbreviation puts :: "(Mem \<times> nat) list \<Rightarrow> u8 list" where
  "puts recs \<equiv> concat (map (\<lambda>(m, st). sqlite3VdbeSerialPut m st) recs)"

abbreviation types :: "(Mem \<times> nat) list \<Rightarrow> u8 list" where
  "types recs \<equiv> concat (map (\<lambda>(m, st). putVarint32 st) recs)"

lemma put_at_append: "length a = k \<Longrightarrow> length x = length bs \<Longrightarrow> put_at k bs (a @ x @ c) = a @ bs @ c"
  by (simp add: put_at_def)

lemma write_loop_eq:
  assumes "length a = i" "length x = length (types recs)" "length (a @ x @ b) = j" "length y = length (puts recs)"
  shows "write_loop recs i j (a @ x @ b @ y) = a @ types recs @ b @ puts recs"
  using assms
proof (induction recs arbitrary: a x b y i j)
  case (Cons r recs)
  obtain m st where r: "r = (m, st)" by (cases r)
  let ?h = "putVarint32 st" and ?d = "sqlite3VdbeSerialPut m st"
  obtain x1 x2 where x: "x = x1 @ x2" "length x1 = length ?h" "length x2 = length (types recs)"
    using Cons.prems(2) r that [of "take (length ?h) x" "drop (length ?h) x"] by auto
  obtain y1 y2 where y: "y = y1 @ y2" "length y1 = length ?d" "length y2 = length (puts recs)"
    using Cons.prems(4) r that [of "take (length ?d) y" "drop (length ?d) y"] by auto
  have 1: "put_at i ?h (a @ x @ b @ y) = a @ ?h @ x2 @ b @ y"
    using put_at_append [of a i x1 ?h "x2 @ b @ y"] Cons.prems(1) x by simp
  have 2: "put_at j ?d (a @ ?h @ x2 @ b @ y) = (a @ ?h) @ x2 @ (b @ ?d) @ y2"
    using put_at_append [of "a @ ?h @ x2 @ b" j y1 ?d y2] Cons.prems(3) x y by simp
  have "write_loop recs (i + length ?h) (j + length ?d) ((a @ ?h) @ x2 @ (b @ ?d) @ y2)
      = (a @ ?h) @ types recs @ (b @ ?d) @ puts recs"
    using Cons.prems x y by (intro Cons.IH) auto
  then show ?case by (simp add: r Let_def 1 2)
qed simp

text \<open>The invariant of the first loop: the fields seen so far are the bytes to be written and the zeros behind them.\<close>

definition sized :: "int \<Rightarrow> Mem list \<Rightarrow> (Mem \<times> nat) list \<Rightarrow> mk_state \<Rightarrow> bool" where
  "sized ff ms recs s \<longleftrightarrow>
     types recs = header_of (map (field_of ff) ms) \<and> mk_nHdr s = length (types recs) \<and>
     body_of (map (field_of ff) ms) = puts recs @ replicate (nat (mk_nZero s)) 0 \<and> 0 \<le> mk_nZero s \<and>
     mk_nData s = int (length (puts recs)) \<and> False \<notin> set (mk_mem s)"

lemma mem_malloc_ok: "False \<notin> set mem \<Longrightarrow> mem_malloc mem = (True, tl mem)"
  by (cases mem) (auto simp: mem_malloc_def)

lemma size_step_ok:
  assumes "sized ff ms recs s" "valid_mem m" "size_step ff m s = (r, s')"
  shows "sized ff (m # ms) (r # recs) s'"
proof -
  let ?st = "sqlite3VdbeSerialType m ff"
  note g = get_put [OF assms(2) refl, of ff "[]", unfolded append_Nil2]
  have h: "(if ?st \<le> 127 then 1 else sqlite3VarintLen (of_nat ?st)) = length (putVarint32 ?st)"
    using g VarintLen_cases [of ?st] by (simp add: length_putVarint32)
  have mem: "False \<notin> set (mk_mem s)" "False \<notin> set (tl (mk_mem s))"
    using assms(1) by (cases "mk_mem s"; auto simp: sized_def)+
  note s = assms(1) [unfolded sized_def] and z = assms(2) [unfolded valid_mem_def]
  consider (plain) "\<not> has m MEM_Zero" | (expand) "has m MEM_Zero" "mk_nData s \<noteq> 0" | (tail) "has m MEM_Zero" "mk_nData s = 0"
    by blast
  then show ?thesis
  proof cases
    case plain
    then have "r = (m, ?st)" "s' = s\<lparr>mk_nData := mk_nData s + int (sqlite3VdbeSerialTypeLen ?st), mk_nHdr := mk_nHdr s + length (putVarint32 ?st)\<rparr>"
      using assms(3) by (auto simp: size_step_def Let_def h)
    with s g plain show ?thesis by (simp add: sized_def field_of_def)
  next
    case expand
    let ?m = "m\<lparr>mem_z := take (mem_n m) (mem_z m) @ replicate (nat (u_nZero m)) 0, mem_n := nat (int (mem_n m) + u_nZero m),
      mem_flags := mem_flags m AND NOT (MEM_Zero OR MEM_Term)\<rparr>"
    have r: "r = (?m, ?st)" "s' = s\<lparr>mk_mem := tl (mk_mem s), mk_nData := mk_nData s + int (sqlite3VdbeSerialTypeLen ?st), mk_nHdr := mk_nHdr s + length (putVarint32 ?st)\<rparr>"
      using assms(3) expand mem_malloc_ok [OF mem(1)] by (auto simp: size_step_def Let_def h sqlite3VdbeMemExpandBlob_def)
    have st: "12 \<le> ?st"
    proof -
      have "\<not> has m MEM_Null" "\<not> has m MEM_Int" "\<not> has m MEM_Real" using z expand by auto
      then have "field_value (field_of ff m) = VBlob (mem_bytes m)" using wf_field_of [OF assms(2), of ff] z expand by (simp add: mem_value_def)
      then show ?thesis unfolding field_of_def
        by (cases ?st rule: serial_type_cases)
          (auto simp: serial_value_def sqlite3VdbeSerialGet_def serialGet_def set_int_def mem_value_def has_def Let_def split: if_splits)
    qed
    have "sqlite3VdbeSerialPut ?m ?st = content ff m"
      using st z expand by (simp add: sqlite3VdbeSerialPut_def nat_add_distrib)
    with s g mem r show ?thesis by (simp add: sized_def field_of_def)
  next
    case tail
    have r: "r = (m, ?st)" "s' = s\<lparr>mk_nData := mk_nData s + int (sqlite3VdbeSerialTypeLen ?st) - u_nZero m,
        mk_nHdr := mk_nHdr s + length (putVarint32 ?st), mk_nZero := mk_nZero s + u_nZero m\<rparr>"
      using assms(3) tail by (auto simp: size_step_def Let_def h)
    have p: "puts recs = []" using s tail by simp
    have q: "replicate (nat (mk_nZero s + u_nZero m)) (0 :: u8) = replicate (nat (u_nZero m)) 0 @ replicate (nat (mk_nZero s)) 0"
      using s z tail by (simp add: nat_add_distrib add.commute [of "mk_nZero s"] replicate_add)
    have "int (sqlite3VdbeSerialTypeLen ?st) - u_nZero m = int (length (sqlite3VdbeSerialPut m ?st))"
      using g z tail by (auto simp: algebra_simps)
    moreover have "body_of (map (field_of ff) ms) = replicate (nat (mk_nZero s)) 0" using s unfolding p by simp
    moreover have "puts (r # recs) = sqlite3VdbeSerialPut m ?st" unfolding r(1) using p by simp
    ultimately show ?thesis using s z tail unfolding sized_def r(2) by (simp add: p q field_of_def r(1))
  qed
qed

lemma size_loop_ok:
  "sized ff ms recs s \<Longrightarrow> \<forall>m\<in>set rs. valid_mem m \<Longrightarrow> size_loop ff rs recs s = (recs', s') \<Longrightarrow>
    sized ff (rev rs @ ms) recs' s'"
proof (induction rs arbitrary: ms recs s)
  case (Cons m rs)
  obtain r t where r: "size_step ff m s = (r, t)" by fastforce
  from size_step_ok [OF Cons.prems(1) _ r] Cons.prems(2) have "sized ff (m # ms) (r # recs) t" by simp
  from Cons.IH [OF this] Cons.prems(2,3) r show ?case by simp
qed simp

abbreviation row_bytes :: "int \<Rightarrow> Mem list \<Rightarrow> u8 list" where
  "row_bytes ff ms \<equiv> record_of (map (field_of ff) ms)"

lemma u_nZero_of_int: "0 \<le> k \<Longrightarrow> k < 2 ^ 31 \<Longrightarrow> sint (ucast (of_int k :: u64) :: u32) = k"
proof -
  assume k: "0 \<le> k" "k < 2 ^ 31"
  have "(ucast (of_int k :: u64) :: u32) = of_int k"
    using k by (simp add: word_uint_eq_iff unsigned_ucast_eq uint_word_of_int_eq take_bit_int_eq_self)
  then show ?thesis using k by (simp add: signed_of_int signed_take_bit_int_eq_self)
qed

lemma MakeRecord_ok:
  assumes "\<forall>m\<in>set ms. valid_mem m" "False \<notin> set mem" "int (length (row_bytes ff ms)) \<le> limit" "limit < 2 ^ 31"
  shows "\<exists>out. OP_MakeRecord limit ff mem raw pOut ms = Inr out \<and> mem_bytes out = row_bytes ff ms"
proof -
  let ?s = "\<lparr>mk_mem = mem, mk_nData = 0, mk_nHdr = 0, mk_nZero = 0\<rparr>"
  obtain recs s where l: "size_loop ff (rev ms) [] ?s = (recs, s)" by fastforce
  have "sized ff [] [] ?s" using assms(2) by (simp add: sized_def)
  from size_loop_ok [OF this _ l] assms(1) have s: "sized ff ms recs s" by simp
  let ?n = "header_size (mk_nHdr s)" and ?h = "types recs" and ?p = "puts recs" and ?z = "nat (mk_nZero s)"
  have row: "row_bytes ff ms = putVarint32 ?n @ ?h @ ?p @ replicate ?z 0" using s by (simp add: record_of_def sized_def)
  have small: "mk_nHdr s < 2 ^ 31" using assms(3,4) s unfolding row by (simp add: sized_def)
  note n = header_size_eq [OF small]
  have b: "int ?n + mk_nData s = int (length (putVarint32 ?n @ ?h @ ?p))" using n s by (simp add: sized_def)
  define buf where "buf = map raw [0..<nat (int ?n + mk_nData s)]"
  have buf: "length buf = length (putVarint32 ?n @ ?h @ ?p)" unfolding buf_def b by simp
  let ?k = "length (putVarint32 ?n)"
  have 1: "put_at 0 (putVarint32 ?n) buf = putVarint32 ?n @ take (length ?h) (drop ?k buf) @ [] @ drop (?k + length ?h) buf"
    using append_take_drop_id [of "length ?h" "drop ?k buf"] by (simp add: put_at_def add.commute)
  have w: "write_loop recs ?k ?n (put_at 0 (putVarint32 ?n) buf) = putVarint32 ?n @ ?h @ [] @ ?p"
    unfolding 1 using buf n s by (intro write_loop_eq) (simp_all add: sized_def)
  have lim: "\<not> int ?n + mk_nData s > limit" using assms(3) s unfolding b row by (simp add: sized_def)
  have ok: "fst (mem_malloc (mk_mem s))" using s by (simp add: sized_def mem_malloc_ok)
  let ?out = "pOut\<lparr>mem_u := (if mk_nZero s \<noteq> 0 then of_int (mk_nZero s) else mem_u pOut),
    mem_flags := (if mk_nZero s \<noteq> 0 then MEM_Blob OR MEM_Zero else MEM_Blob),
    mem_n := nat (int ?n + mk_nData s), mem_z := putVarint32 ?n @ ?h @ ?p\<rparr>"
  have "OP_MakeRecord limit ff mem raw pOut ms = Inr ?out"
    using lim ok w by (simp add: OP_MakeRecord_def l Let_def buf_def)
  moreover have "mem_bytes ?out = row_bytes ff ms"
  proof -
    have "u_nZero ?out = mk_nZero s" if "mk_nZero s \<noteq> 0"
      using that s assms(3,4) u_nZero_of_int [of "mk_nZero s"] unfolding row by (simp add: u_nZero_def sized_def)
    then show ?thesis using s unfolding row b by (auto simp: mem_bytes_def has_def sized_def)
  qed
  ultimately show ?thesis by blast
qed

subsection \<open>Unpacking\<close>

lemma add_int32_eq: "0 \<le> d \<Longrightarrow> d + int n < 2 ^ 31 \<Longrightarrow> add_int32 d n = d + int n"
proof -
  assume a: "0 \<le> d" "d + int n < 2 ^ 31"
  have "(of_int d + of_nat n :: u32) = of_int (d + int n)" by simp
  then show ?thesis unfolding add_int32_def using a by (simp only: signed_of_int) (simp add: signed_take_bit_int_eq_self)
qed

lemma getVarint32_at:
  assumes "drop k z = putVarint32 st @ rest" "st < 2 ^ 32"
  shows "unat (fst (getVarint32 (drop k z))) = st" "snd (getVarint32 (drop k z)) = length (putVarint32 st)"
  using getVarint32_put [OF assms(2), of rest] assms by (simp_all add: unat_of_nat take_bit_nat_eq_self)

lemma drop_step: "drop k z = x @ y \<Longrightarrow> drop (k + length x) z = y"
  by (metis add.commute append_eq_conv_conj drop_drop)

lemma unpack_loop_eq:
  assumes "drop idx aKey = header_of fs @ rest" "drop (nat d) aKey = body_of fs" "szHdr = idx + length (header_of fs)"
    "0 \<le> d" "d + int (length (body_of fs)) \<le> nKey" "nKey < 2 ^ 31" "szHdr < 2 ^ 31" "\<forall>f\<in>set fs. wf_field f"
    "u + length fs \<le> nField" "nField \<le> length mems"
  shows "\<exists>mems'. unpack_loop aKey nKey szHdr nField idx d u mems = Some (u + length fs, mems') \<and>
     length mems' = length mems \<and> take u mems' = take u mems \<and>
     map mem_value (take (length fs) (drop u mems')) = map field_value fs"
  using assms
proof (induction fs arbitrary: idx d u mems)
  case Nil
  then show ?case by (simp add: unpack_loop.simps)
next
  case (Cons f fs)
  obtain st c where f: "f = (st, c)" by (cases f)
  have w: "st < 2 ^ 32" "length c = sqlite3VdbeSerialTypeLen st" using Cons.prems(8) f by (auto simp: wf_field_def)
  have hd: "drop idx aKey = putVarint32 st @ header_of fs @ rest" and bd: "drop (nat d) aKey = c @ body_of fs"
    using Cons.prems(1,2) f by simp_all
  obtain s k where g: "getVarint32 (drop idx aKey) = (s, k)" by fastforce
  note gv = getVarint32_at [OF hd w(1), unfolded g, simplified]
  obtain m where m: "sqlite3VdbeSerialGet (drop (nat d) aKey) st (mems ! u) = (length c, m)"
    using SerialGet_len [of "drop (nat d) aKey" st "mems ! u"] w(2) by (metis prod.collapse)
  have val: "mem_value m = field_value f"
    using serial_value_mem [of "drop (nat d) aKey" st "mems ! u"] serial_value_append [OF w(2), of "body_of fs"] m bd f by simp
  have ul: "u < length mems" using Cons.prems(9,10) by simp
  have pos: "0 < length (putVarint32 st)" using varint_len [of "of_nat st"] w(1) by (simp add: length_putVarint32)
  then have en: "idx < szHdr" "d \<le> nKey" "\<not> d < 0" using Cons.prems(3,4,5) f by simp_all
  have ix: "(idx + k) mod 2 ^ 32 = idx + k" using gv(2) Cons.prems(3,7) f by simp
  have dx: "add_int32 d (length c) = d + int (length c)" using Cons.prems(4-6) f by (intro add_int32_eq) simp_all
  have step: "unpack_loop aKey nKey szHdr nField idx d u mems =
     (if u + 1 \<ge> nField then Some (u + 1, mems[u := m])
      else unpack_loop aKey nKey szHdr nField (idx + k) (d + int (length c)) (u + 1) (mems[u := m]))"
    using en g gv(1) m ix dx by (subst unpack_loop.simps) simp
  have split: "take (Suc n) (drop u xs) = xs ! u # take n (drop (Suc u) xs)" if "u < length xs" for n and xs :: "Mem list"
    using that by (simp add: Cons_nth_drop_Suc [symmetric])
  show ?case
  proof (cases "u + 1 \<ge> nField")
    case True
    then have "fs = []" using Cons.prems(9) by (cases fs) auto
    then show ?thesis using True step ul val by (auto simp: split)
  next
    case False
    have "drop (idx + k) aKey = header_of fs @ rest" using drop_step [OF hd] gv(2) by simp
    moreover have "drop (nat (d + int (length c))) aKey = body_of fs"
      using drop_step [OF bd] Cons.prems(4) by (simp add: nat_add_distrib)
    ultimately obtain mems' where i:
      "unpack_loop aKey nKey szHdr nField (idx + k) (d + int (length c)) (u + 1) (mems[u := m]) = Some (u + 1 + length fs, mems')"
      "length mems' = length (mems[u := m])" "take (u + 1) mems' = take (u + 1) (mems[u := m])"
      "map mem_value (take (length fs) (drop (u + 1) mems')) = map field_value fs"
      using Cons.IH [of "idx + k" "d + int (length c)" "u + 1" "mems[u := m]"] Cons.prems gv(2) f by auto
    have u': "mems' ! u = m" "take u mems' = take u mems"
      using arg_cong [OF i(3), of "\<lambda>xs. xs ! u"] arg_cong [OF i(3), of "take u"] ul i(2) by (simp_all add: min_def)
    then show ?thesis using False step i ul val by (auto simp: split)
  qed
qed

lemma RecordUnpack_ok:
  assumes "\<forall>f\<in>set fs. wf_field f" "length (record_of fs) < 2 ^ 31" "length fs \<le> ur_nField p" "ur_nField p \<le> length (aMem p)"
  shows "\<exists>p'. sqlite3VdbeRecordUnpack (int (length (record_of fs))) (record_of fs) p = Some p' \<and>
     ur_nField p' = length fs \<and> map mem_value (take (length fs) (aMem p')) = map field_value fs"
proof -
  let ?n = "header_size (length (header_of fs))" and ?r = "record_of fs"
  have l: "length (header_of fs) < 2 ^ 31" using assms(2) by (simp add: record_of_def)
  note n = header_size_eq [OF l]
  have nb: "?n < 2 ^ 31" using n assms(2) by (simp add: record_of_def)
  have g: "getVarint32 ?r = (of_nat ?n, length (putVarint32 ?n))" using nb getVarint32_put [of ?n] by (simp add: record_of_def)
  have u: "unat (of_nat ?n :: u32) = ?n" using nb by (simp add: unat_of_nat take_bit_nat_eq_self)
  have "sint (of_nat ?n :: u32) = int ?n" using nb by (simp add: signed_of_nat signed_take_bit_int_eq_self)
  moreover have d1: "drop (length (putVarint32 ?n)) ?r = header_of fs @ body_of fs" by (simp add: record_of_def)
  have "?r = (putVarint32 ?n @ header_of fs) @ body_of fs" "length (putVarint32 ?n @ header_of fs) = ?n"
    using n by (simp_all add: record_of_def)
  then have "drop ?n ?r = body_of fs" by (metis append_eq_conv_conj)
  with d1 have "\<exists>mems'. unpack_loop ?r (int (length ?r)) ?n (ur_nField p) (length (putVarint32 ?n)) (int ?n) 0 (aMem p) = Some (0 + length fs, mems') \<and>
     length mems' = length (aMem p) \<and> take 0 mems' = take 0 (aMem p) \<and>
     map mem_value (take (length fs) (drop 0 mems')) = map field_value fs"
    using n nb assms by (intro unpack_loop_eq [where rest = "body_of fs"]) (auto simp: record_of_def)
  ultimately show ?thesis by (auto simp: sqlite3VdbeRecordUnpack_def g u)
qed

lemma IdxRowid_ok:
  assumes "\<forall>m\<in>set (ks @ [m]). valid_mem m" "ks \<noteq> []" "\<not> has m MEM_Null" "has m MEM_Int" "length (row_bytes ff (ks @ [m])) < 2 ^ 31"
  shows "sqlite3VdbeIdxRowid SQLITE_OK (row_bytes ff (ks @ [m])) = Some (Inr (u_i m))"
proof -
  let ?fs = "map (field_of ff) (ks @ [m])" and ?z = "row_bytes ff (ks @ [m])" and ?st = "sqlite3VdbeSerialType m ff"
  let ?n = "header_size (length (header_of ?fs))" and ?c = "content ff m"
  have z: "\<not> has m MEM_Zero" using assms(1,4) by (auto simp: valid_mem_def)
  note g = get_put_int [OF assms(3,4) refl, of ff "[]", unfolded append_Nil2]
  have c: "?c = sqlite3VdbeSerialPut m ?st" using z by simp
  have wf: "\<forall>f\<in>set ?fs. wf_field f" using assms(1) wf_field_of by auto
  have l: "length (header_of ?fs) < 2 ^ 31" using assms(5) by (simp add: record_of_def)
  note n = header_size_eq [OF l]
  let ?h = "putVarint32 ?n @ header_of (map (field_of ff) ks)" and ?b = "body_of (map (field_of ff) ks)"
  have one: "putVarint32 ?st = [of_nat ?st]" using g by (simp add: putVarint32_def)
  have zz: "?z = ?h @ [of_nat ?st] @ ?b @ ?c" using one by (simp add: record_of_def field_of_def)
  have ln: "?n = length ?h + 1" using n one by (simp add: field_of_def)
  have nb: "?n \<le> length ?z" "?n + length ?c \<le> length ?z" unfolding zz using ln by simp_all
  have gh: "getVarint32 ?z = (of_nat ?n, length (putVarint32 ?n))"
    using nb assms(5) getVarint32_put [of ?n "header_of (map (field_of ff) ks) @ [of_nat ?st] @ ?b @ ?c"] unfolding zz by simp
  have u: "unat (of_nat ?n :: u32) = ?n" "sint (of_nat ?n :: u32) = int ?n"
    using nb assms(5) by (simp_all add: unat_of_nat take_bit_nat_eq_self signed_of_nat signed_take_bit_int_eq_self)
  have h3: "3 \<le> ?n"
  proof -
    obtain k ks' where ks: "ks = k # ks'" using assms(2) by (cases ks) auto
    have pos: "0 < length (putVarint32 v)" if "v < 2 ^ 32" for v using varint_len [of "of_nat v"] that by (simp add: length_putVarint32)
    have "0 < length (putVarint32 (fst (field_of ff k)))" using pos wf ks by (auto simp: wf_field_def)
    then have "0 < length (header_of (map (field_of ff) ks))" using ks by simp
    moreover have "0 < length (putVarint32 ?n)" using nb assms(5) by (intro pos) simp
    moreover have "?n = length (putVarint32 ?n) + length (header_of (map (field_of ff) ks)) + 1" using ln by (simp only: length_append)
    ultimately show ?thesis by linarith
  qed
  have hl: "?n - 1 = length ?h" using ln by linarith
  have "drop (?n - 1) ?z = [of_nat ?st] @ ?b @ ?c" unfolding hl by (subst zz) simp
  then have gt: "unat (fst (getVarint32 (drop (?n - 1) ?z))) = ?st" using getVarint32_at [of "?n - 1" ?z ?st "?b @ ?c"] one g by simp
  have len: "length ?c = sqlite3VdbeSerialTypeLen ?st" using g c by simp
  have dr: "drop (length ?z - sqlite3VdbeSerialTypeLen ?st) ?z = ?c" unfolding zz using len by simp
  have val: "u_i (snd (sqlite3VdbeSerialGet ?c ?st x)) = u_i m" for x
  proof -
    have "VInt (u_i (snd (sqlite3VdbeSerialGet ?c ?st x))) = mem_value (snd (sqlite3VdbeSerialGet ?c ?st x))"
      using g by (cases ?st rule: serial_type_cases)
        (auto simp: sqlite3VdbeSerialGet_def serialGet_def set_int_def mem_value_def has_def Let_def)
    also have "\<dots> = VInt (u_i m)" unfolding serial_value_mem c using g by simp
    finally show ?thesis by simp
  qed
  have "\<not> (of_nat ?n :: u32) < 3" using h3 u(1) by (simp add: word_less_nat_alt)
  moreover have "(?n + sqlite3VdbeSerialTypeLen ?st) mod 2 ^ 32 = ?n + length ?c" using nb assms(5) len by simp
  ultimately show ?thesis using nb g gh gt u dr val by (simp add: sqlite3VdbeIdxRowid_def Let_def)
qed

section \<open>Properties\<close>

text \<open>C32: A record made from registers and unpacked again gives their values: integers in every width, doubles bit for bit, texts and
  blobs, also those with a tail of zeros that the record itself leaves out.\<close>

theorem record_roundtrip:
  assumes "\<forall>m\<in>set ms. valid_mem m" "False \<notin> set mem" "int (length (row_bytes ff ms)) \<le> limit" "limit < 2 ^ 31"
    "length ms \<le> ur_nField p" "ur_nField p \<le> length (aMem p)"
  shows "\<exists>out p'. OP_MakeRecord limit ff mem raw pOut ms = Inr out \<and>
     sqlite3VdbeRecordUnpack (int (length (mem_bytes out))) (mem_bytes out) p = Some p' \<and>
     ur_nField p' = length ms \<and> map mem_value (take (length ms) (aMem p')) = map mem_value ms"
proof -
  let ?fs = "map (field_of ff) ms"
  from MakeRecord_ok [OF assms(1-4)] obtain out where o: "OP_MakeRecord limit ff mem raw pOut ms = Inr out" "mem_bytes out = record_of ?fs"
    by blast
  have "\<forall>f\<in>set ?fs. wf_field f" using assms(1) wf_field_of by auto
  from RecordUnpack_ok [OF this] assms(3-6) obtain p' where p:
    "sqlite3VdbeRecordUnpack (int (length (record_of ?fs))) (record_of ?fs) p = Some p'"
    "ur_nField p' = length ms" "map mem_value (take (length ms) (aMem p')) = map field_value ?fs" by auto
  have "map field_value ?fs = map mem_value ms" using assms(1) wf_field_of by auto
  with o p show ?thesis by auto
qed

abbreviation (input) sample_int :: "int \<Rightarrow> Mem" where
  "sample_int i \<equiv> \<lparr>mem_u = of_int i, mem_flags = MEM_Int, mem_n = 0, mem_z = []\<rparr>"

abbreviation (input) sample_text :: "u8 list \<Rightarrow> Mem" where
  "sample_text bs \<equiv> \<lparr>mem_u = 0, mem_flags = MEM_Str, mem_n = length bs, mem_z = bs\<rparr>"

abbreviation (input) sample_zeroblob :: "nat \<Rightarrow> Mem" where
  "sample_zeroblob n \<equiv> \<lparr>mem_u = of_nat n, mem_flags = MEM_Blob OR MEM_Zero, mem_n = 0, mem_z = []\<rparr>"

definition sample_row :: "Mem list" where
  "sample_row = [sample_int (-300), sample_text [104, 105], sample_int 1, sample_zeroblob 3]"

definition sample_unpacked :: UnpackedRecord where
  "sample_unpacked =
     \<lparr>pKeyInfo = \<lparr>ki_nField = 4, ki_nXField = 0, aSortOrder = replicate 5 False, aColl = replicate 5 None\<rparr>,
      ur_nField = 5, default_rc = 0, errCode = 0, aMem = replicate 5 (sample_int 0), ur_r1 = 0, ur_r2 = 0\<rparr>"

lemma sample_row_valid: "\<forall>m\<in>set sample_row. valid_mem m"
  by (simp add: sample_row_def valid_mem_def has_def mem_bytes_def u_nZero_def)

theorem record_roundtrip_witness:
  "\<exists>out p'. OP_MakeRecord 1000000000 4 [] (\<lambda>_. 0) (sample_int 0) sample_row = Inr out \<and>
     sqlite3VdbeRecordUnpack (int (length (mem_bytes out))) (mem_bytes out) sample_unpacked = Some p' \<and>
     map mem_value (take 4 (aMem p')) = [VInt (-300), VText [104, 105], VInt 1, VBlob [0, 0, 0]]"
proof -
  have l: "int (length (row_bytes 4 sample_row)) \<le> 1000000000" by code_simp
  have v: "map mem_value sample_row = [VInt (-300), VText [104, 105], VInt 1, VBlob [0, 0, 0]]" by code_simp
  have n: "length sample_row = 4" by (simp add: sample_row_def)
  have p: "length sample_row \<le> ur_nField sample_unpacked" "ur_nField sample_unpacked \<le> length (aMem sample_unpacked)"
    by (simp_all add: n sample_unpacked_def)
  from record_roundtrip [OF sample_row_valid _ l _ p, of "[]" "\<lambda>_. 0" "sample_int 0"] show ?thesis unfolding v n by auto
qed

text \<open>The limit on the size of a row does not count the zeros at its end: three blobs of a thousand million zeros are accepted under
  a limit of a thousand million bytes, and the number of zeros in the cell of the record has become negative.\<close>

theorem record_limit_ignores_zeros:
  "map_sum id u_nZero (OP_MakeRecord 1000000000 4 [] raw pOut (replicate 3 (sample_zeroblob 1000000000))) = Inr (-1294967296)"
proof -
  let ?m = "sample_zeroblob 1000000000"
  let ?s = "\<lambda>k. \<lparr>mk_mem = [], mk_nData = 0, mk_nHdr = 5 * k, mk_nZero = 1000000000 * int k\<rparr>"
  have a: "has ?m MEM_Zero" "u_nZero ?m = 1000000000" "sqlite3VdbeSerialTypeLen 2000000012 = 1000000000"
    by (simp_all add: has_def u_nZero_def sqlite3VdbeSerialTypeLen_def)
  then have st: "sqlite3VdbeSerialType ?m 4 = 2000000012" by (simp add: sqlite3VdbeSerialType_def has_def Let_def)
  have l: "sqlite3VarintLen 2000000012 = 5" using VarintLen_cases [of 2000000012] by simp
  have step: "size_step 4 ?m (?s k) = ((?m, 2000000012), ?s (Suc k))" for k
    using a l st by (simp add: size_step_def Let_def)
  have "size_loop 4 (rev (replicate 3 ?m)) [] (?s 0) = (replicate 3 (?m, 2000000012), ?s 3)"
    using step [of 0] step [of 1] step [of 2] by (simp add: numeral_3_eq_3 numeral_2_eq_2)
  moreover have "header_size 15 = 16" "sint (ucast (3000000000 :: u64) :: u32) = -1294967296"
    by (simp_all add: header_size_def)
  ultimately show ?thesis by (simp add: OP_MakeRecord_def Let_def mem_malloc_def u_nZero_def)
qed

text \<open>The rowid at the end of an index entry is read back from the entry without unpacking it.\<close>

theorem idx_rowid_correct:
  assumes "\<forall>m\<in>set (ks @ [m]). valid_mem m" "ks \<noteq> []" "\<not> has m MEM_Null" "has m MEM_Int" "length (row_bytes ff (ks @ [m])) < 2 ^ 31"
  shows "sqlite3VdbeIdxRowid SQLITE_OK (row_bytes ff (ks @ [m])) = Some (Inr (u_i m))"
  using assms by (rule IdxRowid_ok)

theorem idx_rowid_correct_witness:
  "sqlite3VdbeIdxRowid SQLITE_OK (row_bytes 4 ([sample_text [104, 105]] @ [sample_int 70000])) = Some (Inr 70000)"
proof -
  have v: "\<forall>m\<in>set ([sample_text [104, 105]] @ [sample_int 70000]). valid_mem m"
    by (simp add: valid_mem_def has_def mem_bytes_def)
  have "length (row_bytes 4 ([sample_text [104, 105]] @ [sample_int 70000])) < 10" by code_simp
  then have l: "length (row_bytes 4 ([sample_text [104, 105]] @ [sample_int 70000])) < 2 ^ 31" by (rule less_trans) simp
  from idx_rowid_correct [OF v _ _ _ l] show ?thesis by (simp add: has_def u_i_def)
qed

text \<open>The header size is compared as a signed integer, so that sizes from \<open>2\<^sup>3\<^sup>1\<close> on pass the test for corruption.\<close>

lemma idx_rowid_outside_entry: "sqlite3VdbeIdxRowid SQLITE_OK [0x8f, 0xff, 0xff, 0xff, 0x7f, 1, 1] = None"
proof -
  have "getVarint32 [0x8f, 0xff, 0xff, 0xff, 0x7f, 1, 1] = (0xffffffff, 5)" by code_simp
  then show ?thesis by (simp add: sqlite3VdbeIdxRowid_def Let_def)
qed


text \<open>The offset of the content is a signed integer that the length of a field of a corrupt record makes negative; the loop then goes
  on and reads in front of the buffer.\<close>

theorem unpack_reads_before_buffer:
  assumes "2 \<le> ur_nField p"
  shows "sqlite3VdbeRecordUnpack 7 [7, 0x8f, 0xff, 0xff, 0xff, 0x7f, 1] p = None"
proof -
  let ?z = "[7, 0x8f, 0xff, 0xff, 0xff, 0x7f, 1] :: u8 list"
  have g: "getVarint32 ?z = (7, 1)" "getVarint32 (tl ?z) = (0xffffffff, 5)" by code_simp+
  have u: "unat (0xffffffff :: u32) = 4294967295" by simp
  obtain m where s: "sqlite3VdbeSerialGet [] 4294967295 (aMem p ! 0) = (2147483641, m)"
    by (simp add: sqlite3VdbeSerialGet_def Let_def)
  have a: "add_int32 7 2147483641 = -2147483648" by (simp add: add_int32_def)
  have "unpack_loop ?z 7 7 (ur_nField p) 1 7 0 (aMem p) = unpack_loop ?z 7 7 (ur_nField p) 6 (-2147483648) 1 ((aMem p)[0 := m])"
    using assms g(2) u s a by (subst unpack_loop.simps) simp
  also have "\<dots> = None" by (subst unpack_loop.simps) simp
  finally show ?thesis using g(1) by (simp add: sqlite3VdbeRecordUnpack_def)
qed

theorem unpack_reads_before_buffer_witness:
  "sqlite3VdbeRecordUnpack 7 [7, 0x8f, 0xff, 0xff, 0xff, 0x7f, 1] sample_unpacked = None"
  using unpack_reads_before_buffer [of sample_unpacked] by (simp add: sample_unpacked_def)

end
