(* ===== verification/Utf.thy ===== *)
theory Utf
  imports Ctype Record_Format "HOL-Library.Monad_Syntax"
begin

text \<open>
  The encodings of text (utf.c): reading and writing a character in UTF-8 and in both byte orders of UTF-16,
  the translation of a string cell from one encoding to another, the byte order mark, and the two functions
  that count characters and bytes.

  A pointer is the list of the bytes from there to the end of the readable buffer, and reading at the end of the list
  is the value \<open>None\<close>: a routine that runs over its buffer has no result. The two macros that write through \<open>zOut\<close> give the
  list of the bytes they write. Characters are 32-bit words; the \<open>int\<close> variables of \<open>READ_UTF16LE\<close>
  and \<open>READ_UTF16BE\<close> never leave the range of 21 bits. Strings are shorter than the limit of \<open>10\<^sup>9\<close> bytes, so
  that the size of the output buffer does not overflow.
\<close>

section \<open>UTF-8\<close>

definition sqlite3Utf8Trans1 :: "u32 list" where
  "sqlite3Utf8Trans1 = [
  0x00, 0x01, 0x02, 0x03, 0x04, 0x05, 0x06, 0x07,
  0x08, 0x09, 0x0a, 0x0b, 0x0c, 0x0d, 0x0e, 0x0f,
  0x10, 0x11, 0x12, 0x13, 0x14, 0x15, 0x16, 0x17,
  0x18, 0x19, 0x1a, 0x1b, 0x1c, 0x1d, 0x1e, 0x1f,
  0x00, 0x01, 0x02, 0x03, 0x04, 0x05, 0x06, 0x07,
  0x08, 0x09, 0x0a, 0x0b, 0x0c, 0x0d, 0x0e, 0x0f,
  0x00, 0x01, 0x02, 0x03, 0x04, 0x05, 0x06, 0x07,
  0x00, 0x01, 0x02, 0x03, 0x00, 0x01, 0x00, 0x00]"

definition WRITE_UTF8 :: "u32 \<Rightarrow> u8 list" where
  "WRITE_UTF8 c =
     (if c < 0x80 then [ucast (c AND 0xFF)]
      else if c < 0x800 then
        [0xC0 + ucast (drop_bit 6 c AND 0x1F), 0x80 + ucast (c AND 0x3F)]
      else if c < 0x10000 then
        [0xE0 + ucast (drop_bit 12 c AND 0x0F), 0x80 + ucast (drop_bit 6 c AND 0x3F), 0x80 + ucast (c AND 0x3F)]
      else
        [0xF0 + ucast (drop_bit 18 c AND 0x07), 0x80 + ucast (drop_bit 12 c AND 0x3F),
         0x80 + ucast (drop_bit 6 c AND 0x3F), 0x80 + ucast (c AND 0x3F)])"

text \<open>The test \<open>(*zIn & 0xc0)==0x80\<close> for a byte inside a character, and the body of the loop over such bytes.\<close>

definition is_trail :: "u8 \<Rightarrow> bool" where
  "is_trail b \<longleftrightarrow> b AND 0xc0 = 0x80"

definition add_trail :: "u32 \<Rightarrow> u8 \<Rightarrow> u32" where
  "add_trail c b = push_bit 6 c + (0x3f AND ucast b)"

text \<open>The replacement of values that no multi-byte character may have.\<close>

definition utf8_checked :: "u32 \<Rightarrow> u32" where
  "utf8_checked c =
     (if c < 0x80 \<or> c AND 0xFFFFF800 = 0xD800 \<or> c AND 0xFFFFFFFE = 0xFFFE then 0xFFFD else c)"

text \<open>\<open>READ_UTF8\<close>: the list ends at \<open>zTerm\<close>.\<close>

fun trail_upto :: "u32 \<Rightarrow> u8 list \<Rightarrow> u32 \<times> u8 list" where
  "trail_upto c [] = (c, [])"
| "trail_upto c (b # zIn) = (if is_trail b then trail_upto (add_trail c b) zIn else (c, b # zIn))"

fun READ_UTF8 :: "u8 list \<Rightarrow> (u32 \<times> u8 list) option" where
  "READ_UTF8 [] = None"
| "READ_UTF8 (b # zIn) =
     (if b \<ge> 0xc0
      then let (c, z) = trail_upto (sqlite3Utf8Trans1 ! (unat b - 0xc0)) zIn in Some (utf8_checked c, z)
      else Some (ucast b, zIn))"

text \<open>\<open>sqlite3Utf8Read\<close>: the string is terminated by a zero byte, and the loop looks at every byte it stops at.\<close>

fun trail_z :: "u32 \<Rightarrow> u8 list \<Rightarrow> (u32 \<times> u8 list) option" where
  "trail_z c [] = None"
| "trail_z c (b # pz) = (if is_trail b then trail_z (add_trail c b) pz else Some (c, b # pz))"

fun sqlite3Utf8Read :: "u8 list \<Rightarrow> (u32 \<times> u8 list) option" where
  "sqlite3Utf8Read [] = None"
| "sqlite3Utf8Read (b # pz) =
     (if b \<ge> 0xc0
      then do { (c, z) \<leftarrow> trail_z (sqlite3Utf8Trans1 ! (unat b - 0xc0)) pz; Some (utf8_checked c, z) }
      else Some (ucast b, pz))"

fun skip_trail :: "u8 list \<Rightarrow> u8 list option" where
  "skip_trail [] = None"
| "skip_trail (b # zIn) = (if is_trail b then skip_trail zIn else Some (b # zIn))"

fun SQLITE_SKIP_UTF8 :: "u8 list \<Rightarrow> u8 list option" where
  "SQLITE_SKIP_UTF8 [] = None"
| "SQLITE_SKIP_UTF8 (b # zIn) = (if b \<ge> 0xc0 then skip_trail zIn else Some zIn)"

section \<open>UTF-16\<close>

definition WRITE_UTF16LE :: "u32 \<Rightarrow> u8 list" where
  "WRITE_UTF16LE c =
     (if c \<le> 0xFFFF then [ucast (c AND 0x00FF), ucast (drop_bit 8 c AND 0x00FF)]
      else [ucast ((drop_bit 10 c AND 0x003F) + (drop_bit 10 (c - 0x10000) AND 0x00C0)),
            ucast (0x00D8 + (drop_bit 18 (c - 0x10000) AND 0x03)),
            ucast (c AND 0x00FF),
            ucast (0x00DC + (drop_bit 8 c AND 0x03))])"

definition WRITE_UTF16BE :: "u32 \<Rightarrow> u8 list" where
  "WRITE_UTF16BE c =
     (if c \<le> 0xFFFF then [ucast (drop_bit 8 c AND 0x00FF), ucast (c AND 0x00FF)]
      else [ucast (0x00D8 + (drop_bit 18 (c - 0x10000) AND 0x03)),
            ucast ((drop_bit 10 c AND 0x003F) + (drop_bit 10 (c - 0x10000) AND 0x00C0)),
            ucast (0x00DC + (drop_bit 8 c AND 0x03)),
            ucast (c AND 0x00FF)])"

definition surrogate_pair :: "u32 \<Rightarrow> u32 \<Rightarrow> u32" where
  "surrogate_pair c c2 =
     (c2 AND 0x03FF) + push_bit 10 (c AND 0x003F) + push_bit 10 ((c AND 0x03C0) + 0x0040)"

definition unit_le :: "u8 \<Rightarrow> u8 \<Rightarrow> u32" where
  "unit_le b0 b1 = ucast b0 + push_bit 8 (ucast b1)"

definition unit_be :: "u8 \<Rightarrow> u8 \<Rightarrow> u32" where
  "unit_be b0 b1 = push_bit 8 (ucast b0) + ucast b1"

text \<open>The argument \<open>TERM\<close>, here \<open>trm\<close>, of the macros is an expression in the pointer after the first unit.\<close>

fun READ_UTF16LE :: "u8 list \<Rightarrow> (u8 list \<Rightarrow> bool) \<Rightarrow> (u32 \<times> u8 list) option" where
  "READ_UTF16LE (b0 # b1 # zIn) trm =
     (let c = unit_le b0 b1
      in if c \<ge> 0xD800 \<and> c < 0xE000 \<and> trm zIn
         then (case zIn of b2 # b3 # z \<Rightarrow> Some (surrogate_pair c (unit_le b2 b3), z) | _ \<Rightarrow> None)
         else Some (c, zIn))"
| "READ_UTF16LE _ _ = None"

fun READ_UTF16BE :: "u8 list \<Rightarrow> (u8 list \<Rightarrow> bool) \<Rightarrow> (u32 \<times> u8 list) option" where
  "READ_UTF16BE (b0 # b1 # zIn) trm =
     (let c = unit_be b0 b1
      in if c \<ge> 0xD800 \<and> c < 0xE000 \<and> trm zIn
         then (case zIn of b2 # b3 # z \<Rightarrow> Some (surrogate_pair c (unit_be b2 b3), z) | _ \<Rightarrow> None)
         else Some (c, zIn))"
| "READ_UTF16BE _ _ = None"

section \<open>Translating a string cell\<close>

text \<open>A cell with its encoding; \<open>mem_own\<close> says that \<open>szMalloc>0\<close> and \<open>z==zMalloc\<close>, so that the text may be written.\<close>

record TextMem = Mem +
  mem_enc :: nat
  mem_own :: bool

abbreviation (input) SQLITE_UTF8 :: nat where "SQLITE_UTF8 \<equiv> 1"
abbreviation (input) SQLITE_UTF16LE :: nat where "SQLITE_UTF16LE \<equiv> 2"
abbreviation (input) SQLITE_UTF16BE :: nat where "SQLITE_UTF16BE \<equiv> 3"
abbreviation (input) MEM_Dyn :: u16 where "MEM_Dyn \<equiv> 0x0400"
abbreviation (input) MEM_Static :: u16 where "MEM_Static \<equiv> 0x0800"
abbreviation (input) MEM_AffMask :: u16 where "MEM_AffMask \<equiv> 0x001f"

text \<open>
  \<open>sqlite3VdbeMemMakeWriteable\<close> on a string cell, which has no zero-filled tail to expand: \<open>alloc\<close> is the outcome of
  \<open>sqlite3VdbeMemGrow\<close>, which copies the \<open>n\<close> bytes, or makes the cell NULL and fails.
\<close>

definition sqlite3VdbeMemMakeWriteable :: "bool \<Rightarrow> TextMem \<Rightarrow> int \<times> TextMem" where
  "sqlite3VdbeMemMakeWriteable alloc m =
     (if mem_flags m AND (MEM_Str OR MEM_Blob) \<noteq> 0 \<and> \<not> mem_own m then
        (if \<not> alloc then (SQLITE_NOMEM, m\<lparr>mem_flags := MEM_Null, mem_z := [], mem_own := False\<rparr>)
         else (SQLITE_OK,
           m\<lparr>mem_z := take (mem_n m) (mem_z m) @ [0, 0], mem_own := True,
             mem_flags := (mem_flags m AND NOT (MEM_Dyn OR MEM_Ephem OR MEM_Static)) OR MEM_Term\<rparr>))
      else (SQLITE_OK, m))"

fun swap_bytes :: "u8 list \<Rightarrow> u8 list" where
  "swap_bytes (a # b # zIn) = b # a # swap_bytes zIn"
| "swap_bytes zIn = zIn"

text \<open>
  A loop of the translation: while bytes are left below \<open>zTerm\<close>, read a character and write it. The output buffer has
  \<open>len\<close> bytes, and writing beyond it has no result.
\<close>

function translate_loop ::
  "(u8 list \<Rightarrow> (u32 \<times> u8 list) option) \<Rightarrow> (u32 \<Rightarrow> u8 list) \<Rightarrow> nat \<Rightarrow> u8 list \<Rightarrow> u8 list \<Rightarrow> u8 list option" where
  "translate_loop rd wr len zIn zOut =
     (if zIn = [] then Some zOut
      else case rd zIn of None \<Rightarrow> None
        | Some (c, z) \<Rightarrow>
            if length z < length zIn \<and> length (zOut @ wr c) \<le> len then translate_loop rd wr len z (zOut @ wr c) else None)"
  by pat_completeness auto
termination by (relation "measure (\<lambda>(rd, wr, len, zIn, zOut). length zIn)") auto

declare translate_loop.simps [simp del]

definition more_units :: "u8 list \<Rightarrow> bool" where
  "more_units zIn \<longleftrightarrow> zIn \<noteq> []"

definition transcode :: "nat \<Rightarrow> nat \<Rightarrow> nat \<Rightarrow> u8 list \<Rightarrow> u8 list option" where
  "transcode enc desiredEnc len zIn =
     (if enc = SQLITE_UTF8 then
        (if desiredEnc = SQLITE_UTF16LE then translate_loop READ_UTF8 WRITE_UTF16LE len zIn []
         else translate_loop READ_UTF8 WRITE_UTF16BE len zIn [])
      else
        (if enc = SQLITE_UTF16LE then translate_loop (\<lambda>z. READ_UTF16LE z more_units) WRITE_UTF8 len zIn []
         else translate_loop (\<lambda>z. READ_UTF16BE z more_units) WRITE_UTF8 len zIn []))"

definition sqlite3VdbeMemTranslate :: "bool \<Rightarrow> TextMem \<Rightarrow> nat \<Rightarrow> (int \<times> TextMem) option" where
  "sqlite3VdbeMemTranslate alloc m desiredEnc =
     (if mem_enc m \<noteq> SQLITE_UTF8 \<and> desiredEnc \<noteq> SQLITE_UTF8 then
        (let (rc, m) = sqlite3VdbeMemMakeWriteable alloc m
         in if rc \<noteq> SQLITE_OK then Some (SQLITE_NOMEM, m)
            else let k = 2 * (mem_n m div 2)
                 in if k > length (mem_z m) then None
                    else Some (SQLITE_OK, m\<lparr>mem_z := swap_bytes (take k (mem_z m)) @ drop k (mem_z m), mem_enc := desiredEnc\<rparr>))
      else
        (let n = (if desiredEnc = SQLITE_UTF8 then 2 * (mem_n m div 2) else mem_n m);
             m = m\<lparr>mem_n := n\<rparr>;
             len = (if desiredEnc = SQLITE_UTF8 then n * 2 + 1 else n * 2 + 2);
             zIn = take n (mem_z m)
         in if \<not> alloc then Some (SQLITE_NOMEM, m)
            else if n > length (mem_z m) then None
            else
              do { zOut \<leftarrow> transcode (mem_enc m) desiredEnc len zIn;
                   let z = zOut @ (if mem_enc m = SQLITE_UTF8 then [0, 0] else [0]);
                   if length z > len then None
                   else Some (SQLITE_OK,
                     m\<lparr>mem_n := length zOut, mem_z := z, mem_enc := desiredEnc, mem_own := True,
                       mem_flags := MEM_Str OR MEM_Term OR (mem_flags m AND MEM_AffMask)\<rparr>) }))"

definition sqlite3VdbeChangeEncoding :: "bool \<Rightarrow> TextMem \<Rightarrow> nat \<Rightarrow> (int \<times> TextMem) option" where
  "sqlite3VdbeChangeEncoding alloc m desiredEnc =
     (if mem_flags m AND MEM_Str = 0 \<or> mem_enc m = desiredEnc then Some (SQLITE_OK, m)
      else sqlite3VdbeMemTranslate alloc m desiredEnc)"

definition sqlite3VdbeMemHandleBom :: "bool \<Rightarrow> TextMem \<Rightarrow> (int \<times> TextMem) option" where
  "sqlite3VdbeMemHandleBom alloc m =
     (if mem_n m > length (mem_z m) then None
      else
        let b1 = mem_z m ! 0; b2 = mem_z m ! 1;
            bom = (if mem_n m > 1 then
                     if b1 = 0xFE \<and> b2 = 0xFF then SQLITE_UTF16BE
                     else if b1 = 0xFF \<and> b2 = 0xFE then SQLITE_UTF16LE else 0
                   else 0)
        in if bom = 0 then Some (SQLITE_OK, m)
           else let (rc, m) = sqlite3VdbeMemMakeWriteable alloc m
                in if rc \<noteq> SQLITE_OK then Some (rc, m)
                   else let n = mem_n m - 2
                        in Some (rc, m\<lparr>mem_n := n, mem_z := take n (drop 2 (mem_z m)) @ [0, 0] @ drop (n + 2) (mem_z m),
                                       mem_flags := mem_flags m OR MEM_Term, mem_enc := bom\<rparr>))"

section \<open>Counting\<close>

text \<open>The number of bytes up to \<open>zTerm\<close> is \<open>None\<close> for a negative \<open>nByte\<close>.\<close>

function charlen_loop :: "u8 list \<Rightarrow> int option \<Rightarrow> nat \<Rightarrow> nat option" where
  "charlen_loop z left r =
     (case z of [] \<Rightarrow> None
      | b # _ \<Rightarrow>
          if b \<noteq> 0 \<and> (case left of None \<Rightarrow> True | Some k \<Rightarrow> 0 < k) then
            (case SQLITE_SKIP_UTF8 z of None \<Rightarrow> None
             | Some z' \<Rightarrow>
                 if length z' < length z
                 then charlen_loop z' (map_option (\<lambda>k. k - int (length z - length z')) left) (r + 1) else None)
          else Some r)"
  by pat_completeness auto
termination by (relation "measure (\<lambda>(z, left, r). length z)") auto

declare charlen_loop.simps [simp del]

definition sqlite3Utf8CharLen :: "u8 list \<Rightarrow> int \<Rightarrow> nat option" where
  "sqlite3Utf8CharLen zIn nByte = charlen_loop zIn (if nByte \<ge> 0 then Some nByte else None) 0"

text \<open>The native byte order is little-endian.\<close>

fun utf16_skip :: "nat \<Rightarrow> u8 list \<Rightarrow> u8 list option" where
  "utf16_skip 0 z = Some z"
| "utf16_skip (Suc n) z = do { (c, z) \<leftarrow> READ_UTF16LE z (\<lambda>_. True); utf16_skip n z }"

definition sqlite3Utf16ByteLen :: "u8 list \<Rightarrow> nat \<Rightarrow> nat option" where
  "sqlite3Utf16ByteLen zIn nChar = map_option (\<lambda>z. length zIn - length z) (utf16_skip nChar zIn)"


section \<open>Lemmas: bytes and units as numbers\<close>

lemma is_trail_iff: "is_trail b \<longleftrightarrow> 0x80 \<le> b \<and> b < 0xc0"
  unfolding is_trail_def by (rule byte_cases) code_simp

lemma Trans1_nth: "sqlite3Utf8Trans1 ! k = (if k < 32 then word_of_nat k else if k < 48 then word_of_nat (k - 32)
    else if k < 56 then word_of_nat (k - 48) else sqlite3Utf8Trans1 ! k)"
proof -
  have "\<forall>k\<in>set [0..<56]. sqlite3Utf8Trans1 ! k = (if k < 32 then word_of_nat k else if k < 48 then word_of_nat (k - 32)
      else word_of_nat (k - 48))" by code_simp
  then show ?thesis by auto
qed

lemma word_and_masks:
  fixes x :: u32
  shows "x AND 0x3F = take_bit 6 x" "x AND 0x1F = take_bit 5 x" "x AND 0xF = take_bit 4 x" "x AND 7 = take_bit 3 x"
    "x AND 3 = take_bit 2 x" "x AND 0xFF = take_bit 8 x" "x AND 0x3FF = take_bit 10 x"
  by (simp_all add: take_bit_eq_mask mask_eq_exp_minus_1)

lemma trail_byte:
  assumes "k < 64"
  shows "is_trail (0x80 + word_of_nat k)" "add_trail c (0x80 + word_of_nat k) = 64 * c + word_of_nat k"
proof -
  have e: "\<forall>k\<in>set [0..<64]. is_trail (0x80 + word_of_nat k) \<and> (0x3f AND ucast (0x80 + word_of_nat k :: u8) :: u32) = word_of_nat k"
    by code_simp
  have "is_trail (0x80 + word_of_nat k) \<and> (0x3f AND ucast (0x80 + word_of_nat k :: u8) :: u32) = word_of_nat k"
    by (rule bspec [OF e]) (simp add: assms)
  then show "is_trail (0x80 + word_of_nat k)" "add_trail c (0x80 + word_of_nat k) = 64 * c + word_of_nat k"
    by (simp_all add: add_trail_def push_bit_eq_mult)
qed

lemma unat_bits:
  fixes c :: u32
  shows "unat (take_bit n c) = unat c mod 2 ^ n" "unat (drop_bit k c) = unat c div 2 ^ k"
  by (metis take_bit_eq_mod unsigned_take_bit_eq, metis drop_bit_eq_div unat_drop_bit_eq)

lemma ucast_word_of_nat: "ucast (x :: u32) = (word_of_nat (unat x) :: u8)"
  by simp

lemma ucast_bits:
  fixes c :: u32
  shows "ucast (take_bit n (drop_bit k c)) = (word_of_nat (unat c div 2 ^ k mod 2 ^ n) :: u8)"
    "ucast (take_bit n c) = (word_of_nat (unat c mod 2 ^ n) :: u8)"
  by (simp_all only: ucast_word_of_nat unat_bits)

text \<open>The bytes of a character in terms of its number.\<close>

lemma WRITE_UTF8_nat:
  fixes c :: u32
  assumes "unat c < 0x110000"
  shows "WRITE_UTF8 c =
     (let n = unat c in
      if n < 0x80 then [word_of_nat n]
      else if n < 0x800 then [0xC0 + word_of_nat (n div 64), 0x80 + word_of_nat (n mod 64)]
      else if n < 0x10000 then [0xE0 + word_of_nat (n div 4096), 0x80 + word_of_nat (n div 64 mod 64), 0x80 + word_of_nat (n mod 64)]
      else [0xF0 + word_of_nat (n div 262144), 0x80 + word_of_nat (n div 4096 mod 64),
            0x80 + word_of_nat (n div 64 mod 64), 0x80 + word_of_nat (n mod 64)])"
proof -
  have d: "n div 64 mod 32 = n div 64" if "n < 0x800" for n :: nat
    using that by (intro mod_less) (simp add: less_mult_imp_div_less)
  have e: "n div 4096 mod 16 = n div 4096" if "n < 0x10000" for n :: nat
    using that by (intro mod_less) (simp add: less_mult_imp_div_less)
  have f: "n div 262144 mod 8 = n div 262144" if "n < 0x110000" for n :: nat
    using that by (intro mod_less) (simp add: less_mult_imp_div_less)
  show ?thesis
    using assms unfolding WRITE_UTF8_def word_and_masks ucast_bits
    by (simp add: word_less_nat_alt Let_def d e f unat_bits del: unsigned_take_bit_eq)
qed

lemma lead_byte:
  "k < 32 \<Longrightarrow> (0xc0 :: u8) \<le> 0xC0 + word_of_nat k \<and> sqlite3Utf8Trans1 ! (unat (0xC0 + word_of_nat k :: u8) - 0xc0) = word_of_nat k"
  "k < 16 \<Longrightarrow> (0xc0 :: u8) \<le> 0xE0 + word_of_nat k \<and> sqlite3Utf8Trans1 ! (unat (0xE0 + word_of_nat k :: u8) - 0xc0) = word_of_nat k"
  "k < 8 \<Longrightarrow> (0xc0 :: u8) \<le> 0xF0 + word_of_nat k \<and> sqlite3Utf8Trans1 ! (unat (0xF0 + word_of_nat k :: u8) - 0xc0) = word_of_nat k"
proof -
  have e: "\<forall>k\<in>set [0..<32]. (0xc0 :: u8) \<le> 0xC0 + word_of_nat k \<and> sqlite3Utf8Trans1 ! (unat (0xC0 + word_of_nat k :: u8) - 0xc0) = word_of_nat k"
    "\<forall>k\<in>set [0..<16]. (0xc0 :: u8) \<le> 0xE0 + word_of_nat k \<and> sqlite3Utf8Trans1 ! (unat (0xE0 + word_of_nat k :: u8) - 0xc0) = word_of_nat k"
    "\<forall>k\<in>set [0..<8]. (0xc0 :: u8) \<le> 0xF0 + word_of_nat k \<and> sqlite3Utf8Trans1 ! (unat (0xF0 + word_of_nat k :: u8) - 0xc0) = word_of_nat k"
    by code_simp+
  show "k < 32 \<Longrightarrow> (0xc0 :: u8) \<le> 0xC0 + word_of_nat k \<and> sqlite3Utf8Trans1 ! (unat (0xC0 + word_of_nat k :: u8) - 0xc0) = word_of_nat k"
    by (rule bspec [OF e(1)]) simp
  show "k < 16 \<Longrightarrow> (0xc0 :: u8) \<le> 0xE0 + word_of_nat k \<and> sqlite3Utf8Trans1 ! (unat (0xE0 + word_of_nat k :: u8) - 0xc0) = word_of_nat k"
    by (rule bspec [OF e(2)]) simp
  show "k < 8 \<Longrightarrow> (0xc0 :: u8) \<le> 0xF0 + word_of_nat k \<and> sqlite3Utf8Trans1 ! (unat (0xF0 + word_of_nat k :: u8) - 0xc0) = word_of_nat k"
    by (rule bspec [OF e(3)]) simp
qed

lemma word_div_mod: "64 * word_of_nat (n div 64) + word_of_nat (n mod 64) = (word_of_nat n :: u32)"
proof -
  have "64 * word_of_nat (n div 64) + word_of_nat (n mod 64) = (word_of_nat (64 * (n div 64) + n mod 64) :: u32)"
    by (simp only: of_nat_add of_nat_mult of_nat_numeral)
  then show ?thesis by (simp only: mult_div_mod_eq)
qed

section \<open>Lemmas: reading a written character\<close>

text \<open>A character comes back as itself, or as the replacement character if it may not be written in several bytes.\<close>

definition utf8_value :: "u32 \<Rightarrow> u32" where
  "utf8_value c = (if c < 0x80 then c else utf8_checked c)"

definition at_boundary :: "u8 list \<Rightarrow> bool" where
  "at_boundary z \<longleftrightarrow> z = [] \<or> \<not> is_trail (hd z)"

lemma at_boundary_simps [simp]: "at_boundary []" "at_boundary (b # z) \<longleftrightarrow> \<not> is_trail b"
  by (simp_all add: at_boundary_def)

lemma trail_upto_boundary: "at_boundary z \<Longrightarrow> trail_upto c z = (c, z)"
  by (cases z) simp_all

lemma READ_WRITE_UTF8:
  assumes c: "unat c < 0x110000" and z: "at_boundary z"
  shows "READ_UTF8 (WRITE_UTF8 c @ z) = Some (utf8_value c, z)"
proof -
  let ?n = "unat c"
  have n: "word_of_nat ?n = c" by simp
  have s6: "64 * word_of_nat (?n div 4096) + word_of_nat (?n div 64 mod 64) = (word_of_nat (?n div 64) :: u32)"
    "64 * word_of_nat (?n div 262144) + word_of_nat (?n div 4096 mod 64) = (word_of_nat (?n div 4096) :: u32)"
    using word_div_mod [of "?n div 64"] word_div_mod [of "?n div 4096"] by (simp_all add: div_mult2_eq [symmetric])
  consider "?n < 0x80" | "0x80 \<le> ?n" "?n < 0x800" | "0x800 \<le> ?n" "?n < 0x10000" | "0x10000 \<le> ?n" by linarith
  then show ?thesis
  proof cases
    case 1
    then have u: "unat (word_of_nat ?n :: u8) = ?n" by (simp only: unat_of_nat) simp
    have "(ucast (word_of_nat ?n :: u8) :: u32) = word_of_nat (unat (word_of_nat ?n :: u8))" by simp
    with u n have "\<not> (word_of_nat ?n :: u8) \<ge> 0xc0" "(ucast (word_of_nat ?n :: u8) :: u32) = c"
      using 1 by (simp_all only: word_le_nat_alt) simp
    with 1 show ?thesis by (simp add: WRITE_UTF8_nat [OF c] Let_def utf8_value_def word_less_nat_alt)
  next
    case 2
    have k: "?n div 64 < 32" using 2 by (simp add: less_mult_imp_div_less)
    with 2 show ?thesis
      by (simp add: WRITE_UTF8_nat [OF c] Let_def utf8_value_def word_less_nat_alt lead_byte(1) trail_byte
          trail_upto_boundary [OF z] word_div_mod)
  next
    case 3
    have k: "?n div 4096 < 16" using 3 by (simp add: less_mult_imp_div_less)
    with 3 show ?thesis
      by (simp add: WRITE_UTF8_nat [OF c] Let_def utf8_value_def word_less_nat_alt lead_byte(2) trail_byte
          trail_upto_boundary [OF z] word_div_mod s6)
  next
    case 4
    have k: "?n div 262144 < 8" using c by (simp add: less_mult_imp_div_less)
    with 4 show ?thesis
      by (simp add: WRITE_UTF8_nat [OF c] Let_def utf8_value_def word_less_nat_alt lead_byte(3) trail_byte
          trail_upto_boundary [OF z] word_div_mod s6)
  qed
qed

section \<open>Lemmas: UTF-16\<close>

lemma bits_nat:
  fixes c :: u32
  shows "take_bit n (drop_bit k c) = word_of_nat (unat c div 2 ^ k mod 2 ^ n)" "take_bit n c = word_of_nat (unat c mod 2 ^ n)"
proof -
  have "w = word_of_nat (unat w)" for w :: u32 by simp
  then show "take_bit n (drop_bit k c) = word_of_nat (unat c div 2 ^ k mod 2 ^ n)" "take_bit n c = word_of_nat (unat c mod 2 ^ n)"
    by (metis unat_bits)+
qed

lemma middle_bits:
  fixes x :: u32
  shows "x AND 0xC0 = 64 * take_bit 2 (drop_bit 6 x)" "x AND 0x3C0 = 64 * take_bit 4 (drop_bit 6 x)"
proof -
  have m: "(0xC0 :: u32) = push_bit 6 (mask 2)" "(0x3C0 :: u32) = push_bit 6 (mask 4)" by (simp_all add: mask_eq_exp_minus_1 push_bit_eq_mult)
  have p: "64 * y = push_bit 6 y" for y :: u32 by (simp add: push_bit_eq_mult)
  show "x AND 0xC0 = 64 * take_bit 2 (drop_bit 6 x)" "x AND 0x3C0 = 64 * take_bit 4 (drop_bit 6 x)"
    unfolding m p by (rule bit_eqI; auto simp: bit_simps)+
qed

lemma ucast_of_nat: "ucast (word_of_nat k :: u32) = (word_of_nat k :: u8)"
  by (simp add: unsigned_of_nat word_of_nat_eq_iff)

lemma of_nat_and:
  "(word_of_nat k :: u32) AND 0x3FF = word_of_nat (k mod 1024)" "(word_of_nat k :: u32) AND 0x3F = word_of_nat (k mod 64)"
  "(word_of_nat k :: u32) AND 0x3C0 = 64 * word_of_nat (k div 64 mod 16)" if "k < 2 ^ 32"
proof -
  have u: "unat (word_of_nat k :: u32) = k" using that by (simp add: unat_of_nat)
  show "(word_of_nat k :: u32) AND 0x3FF = word_of_nat (k mod 1024)" "(word_of_nat k :: u32) AND 0x3F = word_of_nat (k mod 64)"
    "(word_of_nat k :: u32) AND 0x3C0 = 64 * word_of_nat (k div 64 mod 16)"
    unfolding word_and_masks middle_bits bits_nat u by (simp_all add: unat_bits u del: unsigned_take_bit_eq)
qed

lemma unit_of_bytes:
  assumes "x < 65536"
  shows "unit_le (word_of_nat (x mod 256)) (word_of_nat (x div 256)) = word_of_nat x"
    "unit_be (word_of_nat (x div 256)) (word_of_nat (x mod 256)) = word_of_nat x"
proof -
  have d: "x div 256 < 256" using assms by (simp add: less_mult_imp_div_less)
  have u: "ucast (word_of_nat k :: u8) = (word_of_nat k :: u32)" if "k < 256" for k
    using that by (simp add: unsigned_of_nat take_bit_eq_mod)
  have "(word_of_nat (x mod 256) + 256 * word_of_nat (x div 256) :: u32) = word_of_nat (x mod 256 + 256 * (x div 256))"
    by (simp only: of_nat_add of_nat_mult of_nat_numeral)
  then have "(word_of_nat (x mod 256) + 256 * word_of_nat (x div 256) :: u32) = word_of_nat x" by simp
  then show "unit_le (word_of_nat (x mod 256)) (word_of_nat (x div 256)) = word_of_nat x"
    "unit_be (word_of_nat (x div 256)) (word_of_nat (x mod 256)) = word_of_nat x"
    using d by (simp_all add: unit_le_def unit_be_def u push_bit_eq_mult ac_simps)
qed

lemma surrogate_pair_nat:
  assumes "a < 1024" "b < 1024"
  shows "surrogate_pair (word_of_nat (0xD800 + a)) (word_of_nat (0xDC00 + b)) = word_of_nat (0x10000 + 1024 * a + b)"
proof -
  have "(b + 55 * 1024) mod 1024 = b mod 1024" "(a + 864 * 64) mod 64 = a mod 64" by (rule mod_mult_self1)+
  moreover have "(a + 864 * 64) div 64 = a div 64 + 54 * 16" by simp
  moreover have "(a div 64 + 54 * 16) mod 16 = a div 64"
    using assms by (simp only: mod_mult_self1) (simp add: less_mult_imp_div_less)
  ultimately have m: "(0xDC00 + b) mod 1024 = b" "(0xD800 + a) mod 64 = a mod 64" "(0xD800 + a) div 64 mod 16 = a div 64"
    using assms by (simp_all add: add.commute)
  have "surrogate_pair (word_of_nat (0xD800 + a)) (word_of_nat (0xDC00 + b))
      = word_of_nat b + 1024 * word_of_nat (a mod 64) + 1024 * (64 * word_of_nat (a div 64) + 64)"
  proof -
    have k: "0xD800 + a < 2 ^ 32" "0xDC00 + b < 2 ^ 32" using assms by simp_all
    show ?thesis unfolding surrogate_pair_def of_nat_and [OF k(1)] of_nat_and [OF k(2)] m
      by (simp add: push_bit_eq_mult algebra_simps)
  qed
  also have "\<dots> = word_of_nat (b + 1024 * (a mod 64) + 1024 * (64 * (a div 64) + 64))"
    by (simp only: of_nat_add of_nat_mult of_nat_numeral)
  also have "b + 1024 * (a mod 64) + 1024 * (64 * (a div 64) + 64) = 0x10000 + 1024 * a + b"
  proof -
    have "1024 * a = 1024 * (a div 64 * 64 + a mod 64)" by (simp only: div_mult_mod_eq)
    then show ?thesis by (simp only: distrib_left)
  qed
  finally show ?thesis .
qed

text \<open>The one or two units of a character.\<close>

definition units :: "nat \<Rightarrow> nat list" where
  "units n = (if n < 0x10000 then [n] else [0xD800 + (n - 0x10000) div 1024, 0xDC00 + (n - 0x10000) mod 1024])"

lemma pair_bytes:
  fixes m :: nat
  assumes "m < 1048576"
  shows "(m + 65536) div 1024 mod 64 + 64 * (m div 1024 div 64 mod 4) = (0xD800 + m div 1024) mod 256"
    "0xD8 + m div 262144 mod 4 = (0xD800 + m div 1024) div 256"
    "(m + 65536) mod 256 = (0xDC00 + m mod 1024) mod 256"
    "0xDC + (m + 65536) div 256 mod 4 = (0xDC00 + m mod 1024) div 256"
proof -
  have d8: "0xD800 + x = x + 216 * 256" and dc: "0xDC00 + x = x + 220 * 256" for x :: nat by simp_all
  have n: "(m + 65536) div 1024 = m div 1024 + 1 * 64" "m + 65536 = m + 256 * 256" "(m + 256 * 256) div 256 = m div 256 + 64 * 4" by simp_all
  have q: "m div 1024 mod 256 = m div 1024 mod 64 + 64 * (m div 1024 div 64 mod 4)"
    using mod_mult2_eq [of "m div 1024" 64 4] by simp
  have r: "m mod 1024 = m mod 256 + 256 * (m div 256 mod 4)" using mod_mult2_eq [of m 256 4] by simp
  show "(m + 65536) div 1024 mod 64 + 64 * (m div 1024 div 64 mod 4) = (0xD800 + m div 1024) mod 256"
    unfolding d8 n(1) mod_mult_self1 by (rule q [symmetric])
  have "m div 262144 mod 4 = m div 262144" using assms by (simp add: less_mult_imp_div_less)
  moreover have "(m div 1024 + 216 * 256) div 256 = m div 262144 + 216" by (simp add: div_mult2_eq [symmetric])
  ultimately show "0xD8 + m div 262144 mod 4 = (0xD800 + m div 1024) div 256" unfolding d8 by linarith
  show "(m + 65536) mod 256 = (0xDC00 + m mod 1024) mod 256"
    unfolding dc n(2) mod_mult_self1 r by (simp add: mod_add_eq [symmetric])
  have "(m mod 1024 + 220 * 256) div 256 = m div 256 mod 4 + 220" unfolding r by simp
  then show "0xDC + (m + 65536) div 256 mod 4 = (0xDC00 + m mod 1024) div 256" unfolding dc n(2,3) mod_mult_self1 by linarith
qed

lemma WRITE_UTF16_nat:
  assumes "unat c < 0x110000"
  shows "WRITE_UTF16LE c = concat (map (\<lambda>x. [word_of_nat (x mod 256), word_of_nat (x div 256)]) (units (unat c)))"
    "WRITE_UTF16BE c = concat (map (\<lambda>x. [word_of_nat (x div 256), word_of_nat (x mod 256)]) (units (unat c)))"
proof -
  let ?n = "unat c" and ?m = "unat c - 0x10000"
  have lo: "ucast (c AND 0xFF) = (word_of_nat (?n mod 256) :: u8)" by (simp only: word_and_masks ucast_bits) simp
  have "WRITE_UTF16LE c = concat (map (\<lambda>x. [word_of_nat (x mod 256), word_of_nat (x div 256)]) (units (unat c))) \<and>
    WRITE_UTF16BE c = concat (map (\<lambda>x. [word_of_nat (x div 256), word_of_nat (x mod 256)]) (units (unat c)))"
  proof (cases "?n < 0x10000")
    case True
    then have "?n div 256 mod 256 = ?n div 256" by (intro mod_less) (simp add: less_mult_imp_div_less)
    with True show ?thesis
      unfolding WRITE_UTF16LE_def WRITE_UTF16BE_def lo word_and_masks ucast_bits
      by (simp add: units_def word_le_nat_alt unat_bits del: unsigned_take_bit_eq)
  next
    case False
    then have s: "unat (c - 0x10000) = ?m" by (subst unat_sub) (simp_all add: word_le_nat_alt)
    have nm: "?n = ?m + 65536" "?m < 1048576" using False assms by simp_all
    note eqs = pair_bytes [OF nm(2), folded nm(1)]
    have w: "(drop_bit 10 c AND 0x3F) + (drop_bit 10 (c - 0x10000) AND 0xC0) = word_of_nat ((0xD800 + ?m div 1024) mod 256)"
      "0xD8 + (drop_bit 18 (c - 0x10000) AND 0x03) = word_of_nat ((0xD800 + ?m div 1024) div 256)"
      "0xDC + (drop_bit 8 c AND 0x03) = word_of_nat ((0xDC00 + ?m mod 1024) div 256)"
      unfolding eqs [symmetric] word_and_masks middle_bits drop_bit_drop_bit bits_nat by (simp_all add: unat_bits s div_mult2_eq [symmetric] del: unsigned_take_bit_eq)
    show ?thesis
      using False unfolding WRITE_UTF16LE_def WRITE_UTF16BE_def lo w ucast_of_nat eqs(3)
      by (simp add: units_def word_le_nat_alt)
  qed
  then show "WRITE_UTF16LE c = concat (map (\<lambda>x. [word_of_nat (x mod 256), word_of_nat (x div 256)]) (units (unat c)))"
    "WRITE_UTF16BE c = concat (map (\<lambda>x. [word_of_nat (x div 256), word_of_nat (x mod 256)]) (units (unat c)))" by blast+
qed

lemma READ_WRITE_UTF16LE:
  assumes c: "unat c < 0x110000" "\<not> (0xD800 \<le> unat c \<and> unat c < 0xE000)" and mm: "\<And>a b. m (a # b # z)"
  shows "READ_UTF16LE (WRITE_UTF16LE c @ z) m = Some (c, z)"
    "READ_UTF16BE (WRITE_UTF16BE c @ z) m = Some (c, z)"
proof -
  let ?n = "unat c" and ?m = "unat c - 0x10000"
  let ?h = "0xD800 + ?m div 1024" and ?l = "0xDC00 + ?m mod 1024"
  have n: "word_of_nat ?n = c" by simp
  have "READ_UTF16LE (WRITE_UTF16LE c @ z) m = Some (c, z) \<and> READ_UTF16BE (WRITE_UTF16BE c @ z) m = Some (c, z)"
  proof (cases "?n < 0x10000")
    case True
    then have u: "unit_le (word_of_nat (?n mod 256)) (word_of_nat (?n div 256)) = c"
      "unit_be (word_of_nat (?n div 256)) (word_of_nat (?n mod 256)) = c" using unit_of_bytes [of ?n] n by simp_all
    have nc: "\<not> (0xD800 \<le> c \<and> c < 0xE000)" using c by (simp add: word_le_nat_alt word_less_nat_alt)
    from True nc show ?thesis unfolding WRITE_UTF16_nat [OF c(1)] by (auto simp: units_def u Let_def simp del: of_nat_unat)
  next
    case False
    then have k: "?m div 1024 < 1024" "?m mod 1024 < 1024" using c by (simp_all add: less_mult_imp_div_less)
    then have u: "unit_le (word_of_nat (?h mod 256)) (word_of_nat (?h div 256)) = word_of_nat ?h"
      "unit_be (word_of_nat (?h div 256)) (word_of_nat (?h mod 256)) = word_of_nat ?h"
      "unit_le (word_of_nat (?l mod 256)) (word_of_nat (?l div 256)) = word_of_nat ?l"
      "unit_be (word_of_nat (?l div 256)) (word_of_nat (?l mod 256)) = word_of_nat ?l"
      by (intro unit_of_bytes; linarith)+
    have h: "0xD800 \<le> (word_of_nat ?h :: u32)" "(word_of_nat ?h :: u32) < 0xE000"
    proof -
      have "unat (word_of_nat ?h :: u32) = ?h" using k by (simp only: unat_of_nat) simp
      then show "0xD800 \<le> (word_of_nat ?h :: u32)" "(word_of_nat ?h :: u32) < 0xE000"
        using k by (simp_all only: word_le_nat_alt word_less_nat_alt) simp_all
    qed
    have "0x10000 + 1024 * (?m div 1024) + ?m mod 1024 = ?n" using False div_mult_mod_eq [of ?m 1024] by linarith
    then have p: "surrogate_pair (word_of_nat ?h) (word_of_nat ?l) = c" using surrogate_pair_nat [OF k] n by simp
    show ?thesis unfolding WRITE_UTF16_nat [OF c(1)] using False h
      by (simp only: units_def if_False list.map concat.simps append_Cons append_Nil READ_UTF16LE.simps READ_UTF16BE.simps u p Let_def mm simp_thms if_True list.case)
  qed
  then show "READ_UTF16LE (WRITE_UTF16LE c @ z) m = Some (c, z)" "READ_UTF16BE (WRITE_UTF16BE c @ z) m = Some (c, z)" by blast+
qed

section \<open>Lemmas: texts\<close>

text \<open>The characters that every encoding can hold: no surrogates, and not the two values that \<open>READ_UTF8\<close> replaces.\<close>

definition scalar :: "u32 \<Rightarrow> bool" where
  "scalar c \<longleftrightarrow> unat c < 0x110000 \<and> \<not> (0xD800 \<le> unat c \<and> unat c < 0xE000) \<and> c \<noteq> 0xFFFE \<and> c \<noteq> 0xFFFF"

definition write_char :: "nat \<Rightarrow> u32 \<Rightarrow> u8 list" where
  "write_char enc = (if enc = SQLITE_UTF8 then WRITE_UTF8 else if enc = SQLITE_UTF16LE then WRITE_UTF16LE else WRITE_UTF16BE)"

definition encode_text :: "nat \<Rightarrow> u32 list \<Rightarrow> u8 list" where
  "encode_text enc cs = concat (map (write_char enc) cs)"

lemma high_bits:
  fixes c :: u32
  shows "c AND 0xFFFFF800 = 0xD800 \<longleftrightarrow> 0xD800 \<le> unat c \<and> unat c < 0xE000" "c AND 0xFFFFFFFE = 0xFFFE \<longleftrightarrow> c = 0xFFFE \<or> c = 0xFFFF"
proof -
  have p: "c AND NOT (mask n) = push_bit n (drop_bit n c)" "drop_bit n (c AND NOT (mask n)) = drop_bit n c" for n
    by (rule bit_eqI; auto simp: bit_simps dest: bit_imp_le_length)+
  have m: "(0xFFFFF800 :: u32) = NOT (mask 11)" "(0xFFFFFFFE :: u32) = NOT (mask 1)" by code_simp+
  have d: "c AND NOT (mask n) = push_bit n d \<longleftrightarrow> unat c div 2 ^ n = unat d" if "drop_bit n (push_bit n d) = d" for n d
    by (metis p that drop_bit_eq_div unat_drop_bit_eq word_unat_eq_iff)
  have "c AND 0xFFFFF800 = push_bit 11 27 \<longleftrightarrow> unat c div 2 ^ 11 = unat (27 :: u32)" unfolding m by (rule d) code_simp
  moreover have "unat c div 2048 = 27 \<longleftrightarrow> 0xD800 \<le> unat c \<and> unat c < 0xE000" by (auto simp: div_nat_eqI)
  ultimately show "c AND 0xFFFFF800 = 0xD800 \<longleftrightarrow> 0xD800 \<le> unat c \<and> unat c < 0xE000" by (simp add: push_bit_eq_mult)
  have "c AND 0xFFFFFFFE = push_bit 1 0x7FFF \<longleftrightarrow> unat c div 2 ^ 1 = unat (0x7FFF :: u32)" unfolding m by (rule d) code_simp
  moreover have "unat c div 2 = 0x7FFF \<longleftrightarrow> unat c = 0xFFFE \<or> unat c = 0xFFFF" by auto
  moreover have "(c = 0xFFFE \<or> c = 0xFFFF) = (unat c = 0xFFFE \<or> unat c = 0xFFFF)" by (simp add: word_unat_eq_iff)
  ultimately show "c AND 0xFFFFFFFE = 0xFFFE \<longleftrightarrow> c = 0xFFFE \<or> c = 0xFFFF" by (simp add: push_bit_eq_mult)
qed

lemma utf8_value_eq:
  "utf8_value c = (if 0xD800 \<le> unat c \<and> unat c < 0xE000 \<or> c = 0xFFFE \<or> c = 0xFFFF then 0xFFFD else c)"
  by (auto simp: utf8_value_def utf8_checked_def high_bits word_less_nat_alt)

lemma scalar_value [simp]: "scalar c \<Longrightarrow> utf8_value c = c"
  by (auto simp: scalar_def utf8_value_eq)

lemma WRITE_UTF8_bytes:
  assumes "unat c < 0x110000"
  obtains (one) "unat c < 0x80" "WRITE_UTF8 c = [word_of_nat (unat c)]"
  | (many) b ts where "0x80 \<le> unat c" "WRITE_UTF8 c = b # ts" "0xc0 \<le> b" "\<forall>t\<in>set ts. is_trail t"
proof (cases "unat c < 0x80")
  case True
  with one show thesis by (simp add: WRITE_UTF8_nat [OF assms] Let_def)
next
  case False
  have k: "unat c div 64 < 32" if "unat c < 0x800" using that by (simp add: less_mult_imp_div_less)
  have k2: "unat c div 4096 < 16" if "unat c < 0x10000" using that by (simp add: less_mult_imp_div_less)
  have k3: "unat c div 262144 < 8" using assms by (simp add: less_mult_imp_div_less)
  from False have "0xc0 \<le> hd (WRITE_UTF8 c) \<and> (\<forall>t\<in>set (tl (WRITE_UTF8 c)). is_trail t)"
    using lead_byte(1) [OF k] lead_byte(2) [OF k2] lead_byte(3) [OF k3]
    by (simp add: WRITE_UTF8_nat [OF assms] Let_def trail_byte(1))
  moreover have "WRITE_UTF8 c \<noteq> []" by (simp add: WRITE_UTF8_def)
  ultimately show thesis using many False by (metis list.collapse not_less)
qed

lemma low_byte: "k < 128 \<Longrightarrow> \<not> is_trail (word_of_nat k) \<and> (k \<noteq> 0 \<longrightarrow> word_of_nat k \<noteq> (0 :: u8))"
proof -
  have e: "\<forall>k\<in>set [0..<128]. \<not> is_trail (word_of_nat k) \<and> (k \<noteq> 0 \<longrightarrow> word_of_nat k \<noteq> (0 :: u8))" by code_simp
  show "k < 128 \<Longrightarrow> \<not> is_trail (word_of_nat k) \<and> (k \<noteq> 0 \<longrightarrow> word_of_nat k \<noteq> (0 :: u8))" by (rule bspec [OF e]) simp
qed

lemma write_not_trail:
  assumes "unat c < 0x110000"
  shows "WRITE_UTF8 c \<noteq> [] \<and> \<not> is_trail (hd (WRITE_UTF8 c))"
  using assms
proof (rule WRITE_UTF8_bytes)
  assume "unat c < 0x80" "WRITE_UTF8 c = [word_of_nat (unat c)]"
  then show ?thesis using low_byte [of "unat c"] by simp
qed (auto simp: is_trail_iff linorder_not_less)

lemma scalar_boundary: "\<forall>c\<in>set cs. scalar c \<Longrightarrow> at_boundary (encode_text SQLITE_UTF8 cs)"
  by (cases cs) (use write_not_trail in \<open>auto simp: encode_text_def write_char_def at_boundary_def scalar_def\<close>)

section \<open>The interface of the translation loops\<close>

text \<open>
  A routine that reads the characters another has written, at every position where the text goes on with such characters.
\<close>

locale text_codec =
  fixes rd :: "u8 list \<Rightarrow> (u32 \<times> u8 list) option" and wr :: "u32 \<Rightarrow> u8 list"
  assumes read_written: "scalar c \<Longrightarrow> \<forall>d\<in>set cs. scalar d \<Longrightarrow> rd (wr c @ concat (map wr cs)) = Some (c, concat (map wr cs))"
    and written: "scalar c \<Longrightarrow> wr c \<noteq> []"
begin

lemma translates_text:
  "\<forall>c\<in>set cs. scalar c \<Longrightarrow> length (out @ concat (map wr' cs)) \<le> len \<Longrightarrow>
   translate_loop rd wr' len (concat (map wr cs)) out = Some (out @ concat (map wr' cs))"
proof (induction cs arbitrary: out)
  case Nil
  then show ?case by (simp add: translate_loop.simps)
next
  case (Cons c cs)
  then have "rd (wr c @ concat (map wr cs)) = Some (c, concat (map wr cs))" "wr c \<noteq> []" by (simp_all add: read_written written)
  with Cons show ?case by (subst translate_loop.simps) auto
qed

end

text \<open>
  A pair of a reading and a writing routine such that every character read lies in the buffer, the rest of the buffer is
  as well formed as the buffer, and the character is written in at most twice the bytes it was read from.
\<close>

locale bounded_codec =
  fixes rd :: "u8 list \<Rightarrow> (u32 \<times> u8 list) option" and wr :: "u32 \<Rightarrow> u8 list" and whole :: "u8 list \<Rightarrow> bool"
  assumes reads: "z \<noteq> [] \<Longrightarrow> whole z \<Longrightarrow>
    \<exists>c r. rd z = Some (c, r) \<and> whole r \<and> length r < length z \<and> length (wr c) \<le> 2 * (length z - length r)"
begin

lemma stays_in_buffers:
  "whole z \<Longrightarrow> length out + 2 * length z \<le> len \<Longrightarrow>
   \<exists>out'. translate_loop rd wr len z out = Some out' \<and> length out' \<le> length out + 2 * length z"
proof (induction "length z" arbitrary: z out rule: less_induct)
  case less
  show ?case
  proof (cases "z = []")
    case True
    then show ?thesis by (simp add: translate_loop.simps)
  next
    case False
    with reads less.prems obtain c r where r: "rd z = Some (c, r)" "whole r" "length r < length z" "length (wr c) \<le> 2 * (length z - length r)" by metis
    from r(3,4) less.prems(2) have "length (out @ wr c) + 2 * length r \<le> len" unfolding length_append by linarith
    with less.hyps [OF r(3,2)] obtain out' where
      "translate_loop rd wr len r (out @ wr c) = Some out'" "length out' \<le> length (out @ wr c) + 2 * length r" by blast
    with r less.prems False show ?thesis by (subst translate_loop.simps) auto
  qed
qed

end

interpretation utf8_codec: text_codec READ_UTF8 WRITE_UTF8
proof unfold_locales
  fix c cs assume "scalar c" "\<forall>d\<in>set cs. scalar d"
  then show "READ_UTF8 (WRITE_UTF8 c @ concat (map WRITE_UTF8 cs)) = Some (c, concat (map WRITE_UTF8 cs))"
    using READ_WRITE_UTF8 [of c "concat (map WRITE_UTF8 cs)"] scalar_boundary [of cs]
    by (simp add: encode_text_def write_char_def scalar_def [of c])
next
  fix c assume "scalar c"
  then show "WRITE_UTF8 c \<noteq> []" by (simp add: scalar_def write_not_trail)
qed

interpretation utf16le_codec: text_codec "\<lambda>z. READ_UTF16LE z more_units" WRITE_UTF16LE
  by unfold_locales ((rule READ_WRITE_UTF16LE; simp add: scalar_def more_units_def), simp add: WRITE_UTF16LE_def)

interpretation utf16be_codec: text_codec "\<lambda>z. READ_UTF16BE z more_units" WRITE_UTF16BE
  by unfold_locales ((rule READ_WRITE_UTF16LE; simp add: scalar_def more_units_def), simp add: WRITE_UTF16BE_def)

lemma trail_upto_eq: "trail_upto c z = (foldl add_trail c (takeWhile is_trail z), dropWhile is_trail z)"
  by (induction c z rule: trail_upto.induct) simp_all

lemma READ_UTF8_shorter: "READ_UTF8 z = Some (c, r) \<Longrightarrow> length r < length z"
  by (cases z) (auto simp: trail_upto_eq Let_def length_dropWhile_le le_imp_less_Suc split: if_splits)

lemma Trans1_small: "k < 64 \<Longrightarrow> sqlite3Utf8Trans1 ! k < 32"
proof -
  have e: "\<forall>k\<in>set [0..<64]. sqlite3Utf8Trans1 ! k < 32" by code_simp
  show "k < 64 \<Longrightarrow> sqlite3Utf8Trans1 ! k < 32" by (rule bspec [OF e]) simp
qed

lemma READ_UTF8_wide:
  assumes "READ_UTF8 z = Some (c, r)" "0xFFFF < c"
  shows "length r + 2 \<le> length z"
proof (cases z)
  case (Cons b y)
  have "unat b < 256" using unsigned_less [where ?'a = nat and w = b] by simp
  then have t: "sqlite3Utf8Trans1 ! (unat b - 0xc0) < 32" by (intro Trans1_small) simp
  have b: "b \<ge> 0xc0"
  proof (rule ccontr)
    assume "\<not> b \<ge> 0xc0"
    with assms Cons have "c = ucast b" by simp
    moreover have "(ucast b :: u32) < 0x100" by (rule byte_cases [of "\<lambda>b. (ucast b :: u32) < 0x100"]) code_simp
    ultimately show False using assms(2) by (simp add: word_less_nat_alt)
  qed
  have "takeWhile is_trail y \<noteq> []"
  proof
    assume "takeWhile is_trail y = []"
    with assms Cons b have "c = utf8_checked (sqlite3Utf8Trans1 ! (unat b - 0xc0))" by (simp add: trail_upto_eq)
    with t have "c = 0xFFFD" by (auto simp: utf8_checked_def word_less_nat_alt)
    with assms(2) show False by (simp add: word_less_nat_alt)
  qed
  then have "length (dropWhile is_trail y) < length y"
    by (metis length_append length_greater_0_conv less_add_same_cancel2 takeWhile_dropWhile_id)
  with assms Cons b show ?thesis by (auto simp: trail_upto_eq)
qed (use assms in simp)

lemma WRITE_UTF16_length:
  "length (WRITE_UTF16LE c) = (if c \<le> 0xFFFF then 2 else 4)" "length (WRITE_UTF16BE c) = (if c \<le> 0xFFFF then 2 else 4)"
  by (simp_all add: WRITE_UTF16LE_def WRITE_UTF16BE_def)

lemma WRITE_UTF8_length: "length (WRITE_UTF8 c) \<le> 4" "c \<le> 0xFFFF \<Longrightarrow> length (WRITE_UTF8 c) \<le> 3"
  by (auto simp: WRITE_UTF8_def word_le_nat_alt word_less_nat_alt)

lemma READ_UTF8_bounded:
  assumes "z \<noteq> []" "\<And>c. length (wr c) = (if c \<le> 0xFFFF then 2 else 4)"
  shows "\<exists>c r. READ_UTF8 z = Some (c, r) \<and> True \<and> length r < length z \<and> length (wr c) \<le> 2 * (length z - length r)"
proof -
  have "READ_UTF8 z \<noteq> None" using assms(1) by (cases z) (auto simp: Let_def split: prod.splits)
  then obtain c r where r: "READ_UTF8 z = Some (c, r)" by auto
  then have "length r < length z" by (rule READ_UTF8_shorter)
  with r READ_UTF8_wide [OF r] assms(2) show ?thesis by (auto simp: not_le intro!: exI [of _ c] exI [of _ r])
qed

interpretation utf8_to_16le: bounded_codec READ_UTF8 WRITE_UTF16LE "\<lambda>_. True"
  by unfold_locales (rule READ_UTF8_bounded, simp, simp add: WRITE_UTF16_length)

interpretation utf8_to_16be: bounded_codec READ_UTF8 WRITE_UTF16BE "\<lambda>_. True"
  by unfold_locales (rule READ_UTF8_bounded, simp, simp add: WRITE_UTF16_length)

lemma unit_small: "unit_le a b \<le> 0xFFFF" "unit_be a b \<le> 0xFFFF"
proof -
  have u: "unat a < 256" "unat b < 256"  using unsigned_less [where ?'a = nat and w = a] unsigned_less [where ?'a = nat and w = b] by simp_all
  have "unit_le a b = word_of_nat (unat a + 256 * unat b)" "unit_be a b = word_of_nat (unat b + 256 * unat a)"
    by (simp_all add: unit_le_def unit_be_def push_bit_eq_mult)
  then have "unat (unit_le a b) = unat a + 256 * unat b" "unat (unit_be a b) = unat b + 256 * unat a"
    using u by (simp_all only: unat_of_nat) simp_all
  with u show "unit_le a b \<le> 0xFFFF" "unit_be a b \<le> 0xFFFF" by (simp_all add: word_le_nat_alt)
qed

lemma READ_UTF16_bounded:
  assumes "z \<noteq> []" "even (length z)"
  shows "\<exists>c r. READ_UTF16LE z more_units = Some (c, r) \<and> even (length r) \<and> length r < length z \<and> length (WRITE_UTF8 c) \<le> 2 * (length z - length r)"
    "\<exists>c r. READ_UTF16BE z more_units = Some (c, r) \<and> even (length r) \<and> length r < length z \<and> length (WRITE_UTF8 c) \<le> 2 * (length z - length r)"
proof -
  obtain a b y where z: "z = a # b # y" "even (length y)"
    using assms by (cases z; cases "tl z") auto
  have w: "length (WRITE_UTF8 (unit_le a b)) \<le> 4" "length (WRITE_UTF8 (unit_be a b)) \<le> 4" "length (WRITE_UTF8 c) \<le> 8" for c
    using WRITE_UTF8_length(1) by (auto intro: order_trans [OF WRITE_UTF8_length(1)])
  have y: "y = [] \<or> (\<exists>d e x. y = d # e # x \<and> even (length x))" using z(2) by (cases y; cases "tl y") auto
  show "\<exists>c r. READ_UTF16LE z more_units = Some (c, r) \<and> even (length r) \<and> length r < length z \<and> length (WRITE_UTF8 c) \<le> 2 * (length z - length r)"
    using z w y by (auto simp: Let_def more_units_def Suc_diff_le)
  show "\<exists>c r. READ_UTF16BE z more_units = Some (c, r) \<and> even (length r) \<and> length r < length z \<and> length (WRITE_UTF8 c) \<le> 2 * (length z - length r)"
    using z w y by (auto simp: Let_def more_units_def Suc_diff_le)
qed

interpretation utf16le_to_8: bounded_codec "\<lambda>z. READ_UTF16LE z more_units" WRITE_UTF8 "\<lambda>z. even (length z)"
  by unfold_locales (rule READ_UTF16_bounded)

interpretation utf16be_to_8: bounded_codec "\<lambda>z. READ_UTF16BE z more_units" WRITE_UTF8 "\<lambda>z. even (length z)"
  by unfold_locales (rule READ_UTF16_bounded)

section \<open>Lemmas: the characters of a string\<close>

text \<open>The characters of a string of bytes, whether well formed or not.\<close>

function chars :: "u8 list \<Rightarrow> u32 list" where
  "chars z = (case READ_UTF8 z of None \<Rightarrow> [] | Some (c, r) \<Rightarrow> c # chars r)"
  by pat_completeness auto
termination by (relation "measure length") (auto dest: READ_UTF8_shorter)

declare chars.simps [simp del]

lemma chars_Nil [simp]: "chars [] = []"
  by (simp add: chars.simps)

lemma chars_Cons:
  "chars (b # z) = (if b \<ge> 0xc0 then utf8_checked (foldl add_trail (sqlite3Utf8Trans1 ! (unat b - 0xc0)) (takeWhile is_trail z)) # chars (dropWhile is_trail z)
     else ucast b # chars z)"
  by (subst chars.simps) (simp add: trail_upto_eq)

lemma chars_encode: "\<forall>c\<in>set cs. scalar c \<Longrightarrow> chars (encode_text SQLITE_UTF8 cs) = cs"
proof (induction cs)
  case Nil
  then show ?case by (simp add: encode_text_def)
next
  case (Cons c cs)
  then show ?case
    using utf8_codec.read_written [of c cs] by (subst chars.simps) (simp add: encode_text_def write_char_def)
qed

lemma trail_z_upto: "\<not> is_trail b \<Longrightarrow> trail_z c (s @ b # r) = (let (d, z) = trail_upto c s in Some (d, z @ b # r))"
  by (induction c s rule: trail_upto.induct) (auto simp: Let_def split: prod.splits)

lemma zero_not_trail [simp]: "\<not> is_trail 0"
  by (simp add: is_trail_def)

lemma Utf8Read_eq:
  "s \<noteq> [] \<Longrightarrow> \<not> is_trail b \<Longrightarrow> sqlite3Utf8Read (s @ b # r) = map_option (\<lambda>(c, z). (c, z @ b # r)) (READ_UTF8 s)"
  by (cases s) (auto simp: trail_z_upto Let_def split: prod.splits)

lemma Utf8Read_end [simp]: "sqlite3Utf8Read (0 # r) = Some (0, r)"
  by simp

lemma skip_trail_eq: "\<not> is_trail b \<Longrightarrow> skip_trail (s @ b # r) = Some (dropWhile is_trail s @ b # r)"
  by (induction s) auto

lemma SKIP_eq: "s \<noteq> [] \<Longrightarrow> \<not> is_trail b \<Longrightarrow> SQLITE_SKIP_UTF8 (s @ b # r) = map_option (\<lambda>(c, z). z @ b # r) (READ_UTF8 s)"
  by (cases s) (auto simp: skip_trail_eq trail_upto_eq)

lemma READ_UTF8_suffix: "READ_UTF8 s = Some (c, z) \<Longrightarrow> set z \<subseteq> set s"
  by (cases s) (auto simp: trail_upto_eq dest: set_dropWhileD split: if_splits)

lemma charlen_loop_eq:
  "0 \<notin> set s \<Longrightarrow> \<not> is_trail b \<Longrightarrow> left = Some (int (length s)) \<or> left = None \<and> b = 0 \<Longrightarrow>
   charlen_loop (s @ b # r) left n = Some (n + length (chars s))"
proof (induction s arbitrary: n left rule: chars.induct)
  case (1 s)
  show ?case
  proof (cases s)
    case Nil
    with 1(4) show ?thesis by (auto simp: charlen_loop.simps)
  next
    case (Cons a y)
    have "READ_UTF8 s \<noteq> None" using Cons by (auto simp: Let_def split: prod.splits)
    then obtain c z where z: "READ_UTF8 s = Some (c, z)" by auto
    note l = READ_UTF8_shorter [OF z]
    let ?left = "map_option (\<lambda>k. k - int (length s - length z)) left"
    have "0 \<notin> set z" using READ_UTF8_suffix [OF z] 1(2) by blast
    moreover have "?left = Some (int (length z)) \<or> ?left = None \<and> b = 0" using 1(4) l by auto
    ultimately have ih: "charlen_loop (z @ b # r) ?left (Suc n) = Some (Suc n + length (chars z))"
      using "1.IH" [OF z refl] 1(3) by simp
    have "a \<noteq> 0" "s @ b # r = a # (y @ b # r)" "case left of None \<Rightarrow> True | Some k \<Rightarrow> 0 < k" using 1(2,4) Cons by auto
    then show ?thesis
      using SKIP_eq [of s b r] z ih Cons l 1(3)
      by (subst charlen_loop.simps, subst chars.simps) (simp del: SQLITE_SKIP_UTF8.simps)
  qed
qed

lemma utf16_skip_text:
  "\<forall>c\<in>set cs. scalar c \<Longrightarrow> utf16_skip (length cs) (encode_text SQLITE_UTF16LE cs @ z) = Some z"
  by (induction cs) (simp_all add: encode_text_def write_char_def READ_WRITE_UTF16LE scalar_def)

lemma WRITE_UTF8_no_zero:
  assumes "unat c < 0x110000" "c \<noteq> 0"
  shows "0 \<notin> set (WRITE_UTF8 c)"
  using assms(1)
proof (rule WRITE_UTF8_bytes)
  assume "unat c < 0x80" "WRITE_UTF8 c = [word_of_nat (unat c)]"
  then show ?thesis using low_byte [of "unat c"] assms(2) by (auto simp: unat_eq_0 simp del: of_nat_unat)
qed (auto dest: bspec [of _ is_trail 0])

lemma encode_no_zero: "0 \<notin> set cs \<Longrightarrow> \<forall>c\<in>set cs. scalar c \<Longrightarrow> 0 \<notin> set (encode_text SQLITE_UTF8 cs)"
  by (induction cs) (auto simp: encode_text_def write_char_def scalar_def dest: WRITE_UTF8_no_zero)

section \<open>Theorems\<close>

text \<open>The self test of the encodings. Every character below \<open>0x110000\<close> is written in one to four bytes, and reading
them gives it back and stops behind them; surrogates and the values \<open>0xFFFE\<close> and \<open>0xFFFF\<close> are read as \<open>0xFFFD\<close> from UTF-8. In both byte orders of
UTF-16 every character except a surrogate comes back, whatever follows.\<close>

theorem utf_self_test:
  assumes "unat c < 0x110000"
  shows "length (WRITE_UTF8 c) \<in> {1..4} \<and>
    sqlite3Utf8Read (WRITE_UTF8 c @ 0 # z) =
       Some (if 0xD800 \<le> unat c \<and> unat c < 0xE000 \<or> c = 0xFFFE \<or> c = 0xFFFF then 0xFFFD else c, 0 # z) \<and>
    (\<not> (0xD800 \<le> unat c \<and> unat c < 0xE000) \<longrightarrow>
       READ_UTF16LE (WRITE_UTF16LE c @ z) (\<lambda>_. True) = Some (c, z) \<and> READ_UTF16BE (WRITE_UTF16BE c @ z) (\<lambda>_. True) = Some (c, z))"
proof -
  have "length (WRITE_UTF8 c) \<in> {1..4}" by (simp add: WRITE_UTF8_def)
  moreover have "sqlite3Utf8Read (WRITE_UTF8 c @ 0 # z) =
       Some (if 0xD800 \<le> unat c \<and> unat c < 0xE000 \<or> c = 0xFFFE \<or> c = 0xFFFF then 0xFFFD else c, 0 # z)"
    using Utf8Read_eq [of "WRITE_UTF8 c" 0 z] READ_WRITE_UTF8 [OF assms, of "[]"] write_not_trail [OF assms]
    by (simp add: utf8_value_eq)
  moreover have "\<not> (0xD800 \<le> unat c \<and> unat c < 0xE000) \<longrightarrow>
       READ_UTF16LE (WRITE_UTF16LE c @ z) (\<lambda>_. True) = Some (c, z) \<and> READ_UTF16BE (WRITE_UTF16BE c @ z) (\<lambda>_. True) = Some (c, z)"
    using READ_WRITE_UTF16LE [OF assms, of "\<lambda>_. True" z] by simp
  ultimately show ?thesis by blast
qed

lemma utf_self_test_witness:
  "sqlite3Utf8Read (WRITE_UTF8 0x1F600 @ [0]) = Some (0x1F600, [0]) \<and>
   READ_UTF16LE (WRITE_UTF16LE 0x1F600) (\<lambda>_. True) = Some (0x1F600, [])"
  using utf_self_test [where c = "0x1F600" and z = "[]"] by simp

lemma swap_encoded:
  "\<forall>c\<in>set cs. scalar c \<Longrightarrow> swap_bytes (encode_text SQLITE_UTF16LE cs) = encode_text SQLITE_UTF16BE cs"
  "\<forall>c\<in>set cs. scalar c \<Longrightarrow> swap_bytes (encode_text SQLITE_UTF16BE cs) = encode_text SQLITE_UTF16LE cs"
proof -
  have "swap_bytes (WRITE_UTF16LE c @ z) = WRITE_UTF16BE c @ swap_bytes z \<and> swap_bytes (WRITE_UTF16BE c @ z) = WRITE_UTF16LE c @ swap_bytes z"
    for c z by (simp add: WRITE_UTF16LE_def WRITE_UTF16BE_def)
  then show "\<forall>c\<in>set cs. scalar c \<Longrightarrow> swap_bytes (encode_text SQLITE_UTF16LE cs) = encode_text SQLITE_UTF16BE cs"
    "\<forall>c\<in>set cs. scalar c \<Longrightarrow> swap_bytes (encode_text SQLITE_UTF16BE cs) = encode_text SQLITE_UTF16LE cs"
    by (induction cs) (simp_all add: encode_text_def write_char_def)
qed

lemma even_UTF16: "enc \<noteq> SQLITE_UTF8 \<Longrightarrow> even (length (encode_text enc cs))"
  by (induction cs) (auto simp: encode_text_def write_char_def WRITE_UTF16_length)

lemma length_swap_bytes [simp]: "length (swap_bytes z) = length z"
  by (induction z rule: swap_bytes.induct) simp_all

text \<open>The three encodings of a text, and what a cell with such a text holds.\<close>

definition holds_text :: "TextMem \<Rightarrow> nat \<Rightarrow> u32 list \<Rightarrow> bool" where
  "holds_text m enc cs \<longleftrightarrow> mem_enc m = enc \<and> mem_flags m AND MEM_Str \<noteq> 0 \<and> mem_n m \<le> length (mem_z m) \<and>
     take (mem_n m) (mem_z m) = encode_text enc cs"

lemma encoded_fits:
  assumes "\<forall>c\<in>set cs. scalar c"
  shows "enc \<noteq> SQLITE_UTF8 \<Longrightarrow> length (encode_text enc cs) \<le> 2 * length (encode_text SQLITE_UTF8 cs)"
    "enc \<noteq> SQLITE_UTF8 \<Longrightarrow> length (encode_text SQLITE_UTF8 cs) \<le> 2 * length (encode_text enc cs)"
proof -
  have "length (WRITE_UTF16LE c) \<le> 2 * length (WRITE_UTF8 c) \<and> length (WRITE_UTF16BE c) \<le> 2 * length (WRITE_UTF8 c) \<and>
    length (WRITE_UTF8 c) \<le> 2 * length (WRITE_UTF16LE c) \<and> length (WRITE_UTF8 c) \<le> 2 * length (WRITE_UTF16BE c)" for c
    by (auto simp: WRITE_UTF16_length WRITE_UTF8_def word_le_nat_alt word_less_nat_alt)
  then show "enc \<noteq> SQLITE_UTF8 \<Longrightarrow> length (encode_text enc cs) \<le> 2 * length (encode_text SQLITE_UTF8 cs)"
    "enc \<noteq> SQLITE_UTF8 \<Longrightarrow> length (encode_text SQLITE_UTF8 cs) \<le> 2 * length (encode_text enc cs)"
    by (induction cs) (auto simp: encode_text_def write_char_def distrib_left intro: add_mono)
qed

lemma Str_bit: "f AND MEM_Str \<noteq> 0 \<longleftrightarrow> bit f 1" for f :: u16
  using bit_iff_and_push_bit_not_eq_0 [of f 1] by (simp add: push_bit_eq_mult)

lemma make_writeable:
  assumes "mem_flags m AND MEM_Str \<noteq> 0" "mem_n m \<le> length (mem_z m)"
  shows "\<exists>m1. sqlite3VdbeMemMakeWriteable True m = (SQLITE_OK, m1) \<and> mem_n m1 = mem_n m \<and> mem_n m \<le> length (mem_z m1) \<and>
    take (mem_n m) (mem_z m1) = take (mem_n m) (mem_z m) \<and> mem_flags m1 AND MEM_Str \<noteq> 0"
  using assms unfolding sqlite3VdbeMemMakeWriteable_def Str_bit by (auto simp: bit_simps)

definition out_size :: "nat \<Rightarrow> nat \<Rightarrow> nat" where
  "out_size enc' n = n * 2 + (if enc' = SQLITE_UTF8 then 1 else 2)"

lemma translate_via_UTF8:
  assumes "mem_enc m = SQLITE_UTF8 \<or> enc' = SQLITE_UTF8" "mem_enc m \<noteq> enc'" "mem_n m \<le> length (mem_z m)"
    and "n = (if enc' = SQLITE_UTF8 then 2 * (mem_n m div 2) else mem_n m)"
    and "transcode (mem_enc m) enc' (out_size enc' n) (take n (mem_z m)) = Some zOut" "length zOut \<le> 2 * n"
  shows "sqlite3VdbeMemTranslate True m enc' =
    Some (SQLITE_OK, m\<lparr>mem_n := length zOut, mem_z := zOut @ (if enc' = SQLITE_UTF8 then [0] else [0, 0]), mem_enc := enc', mem_own := True,
            mem_flags := MEM_Str OR MEM_Term OR (mem_flags m AND MEM_AffMask)\<rparr>)"
proof -
  have "n \<le> mem_n m" using assms(4) by (auto simp: times_div_less_eq_dividend)
  then have "\<not> n > length (mem_z m)" using assms(3) by simp
  with assms show ?thesis
    by (cases "enc' = SQLITE_UTF8") (simp_all add: sqlite3VdbeMemTranslate_def out_size_def Let_def)
qed

lemma transcode_text:
  assumes "\<forall>c\<in>set cs. scalar c" "length (encode_text enc' cs) \<le> len"
    and "enc \<in> {SQLITE_UTF8, SQLITE_UTF16LE, SQLITE_UTF16BE}" "enc' \<in> {SQLITE_UTF8, SQLITE_UTF16LE, SQLITE_UTF16BE}"
    and "enc = SQLITE_UTF8 \<or> enc' = SQLITE_UTF8" "enc \<noteq> enc'"
  shows "transcode enc enc' len (encode_text enc cs) = Some (encode_text enc' cs)"
  using assms(2-) utf8_codec.translates_text [OF assms(1), of "[]" "write_char enc'" len]
    utf16le_codec.translates_text [OF assms(1), of "[]" WRITE_UTF8 len] utf16be_codec.translates_text [OF assms(1), of "[]" WRITE_UTF8 len]
  by (auto simp: encode_text_def write_char_def transcode_def)

lemma transcode_bounded:
  assumes "enc \<noteq> SQLITE_UTF8 \<Longrightarrow> even (length z)" "2 * length z \<le> len"
  shows "\<exists>out. transcode enc enc' len z = Some out \<and> length out \<le> 2 * length z"
  using assms utf8_to_16le.stays_in_buffers [where z = z and out = "[]" and len = len] utf8_to_16be.stays_in_buffers [where z = z and out = "[]" and len = len]
    utf16le_to_8.stays_in_buffers [where z = z and out = "[]" and len = len] utf16be_to_8.stays_in_buffers [where z = z and out = "[]" and len = len]
  by (simp add: transcode_def)

lemma change_encoding_text:
  assumes m: "holds_text m enc cs" and cs: "\<forall>c\<in>set cs. scalar c"
    and e: "enc \<in> {SQLITE_UTF8, SQLITE_UTF16LE, SQLITE_UTF16BE}" "enc' \<in> {SQLITE_UTF8, SQLITE_UTF16LE, SQLITE_UTF16BE}"
  shows "\<exists>m'. sqlite3VdbeChangeEncoding True m enc' = Some (SQLITE_OK, m') \<and> holds_text m' enc' cs"
proof (cases "enc = enc'")
  case True
  with m show ?thesis by (simp add: sqlite3VdbeChangeEncoding_def holds_text_def)
next
  case ne: False
  note h = m [unfolded holds_text_def]
  let ?t = "encode_text enc cs"
  have n: "length ?t = mem_n m" using h by (metis length_take min.absorb2)
  have ce: "sqlite3VdbeChangeEncoding True m enc' = sqlite3VdbeMemTranslate True m enc'"
    using h ne by (simp add: sqlite3VdbeChangeEncoding_def)
  show ?thesis
  proof (cases "enc \<noteq> SQLITE_UTF8 \<and> enc' \<noteq> SQLITE_UTF8")
    case True
    then have k: "2 * (mem_n m div 2) = mem_n m" using even_UTF16 [of enc cs] n by simp
    from make_writeable [of m] h obtain m1 where m1: "sqlite3VdbeMemMakeWriteable True m = (SQLITE_OK, m1)" "mem_n m1 = mem_n m"
      "mem_n m \<le> length (mem_z m1)" "take (mem_n m) (mem_z m1) = ?t" "mem_flags m1 AND MEM_Str \<noteq> 0" by auto
    have "swap_bytes ?t = encode_text enc' cs" using True ne e swap_encoded [OF cs] by auto
    moreover from this n have "length (encode_text enc' cs) = mem_n m" by (metis length_swap_bytes)
    ultimately show ?thesis using m1 k True h n unfolding ce by (auto simp: sqlite3VdbeMemTranslate_def holds_text_def Let_def)
  next
    case False
    then have u: "mem_enc m = SQLITE_UTF8 \<or> enc' = SQLITE_UTF8" using h by auto
    have f: "length (encode_text enc' cs) \<le> 2 * mem_n m"
      using encoded_fits [OF cs] u ne h n by (metis nat_mult_le_cancel_disj)
    have ev: "enc' = SQLITE_UTF8 \<longrightarrow> even (mem_n m)" using even_UTF16 [of enc cs] n ne by auto
    have "sqlite3VdbeMemTranslate True m enc' = Some (SQLITE_OK, m\<lparr>mem_n := length (encode_text enc' cs),
        mem_z := encode_text enc' cs @ (if enc' = SQLITE_UTF8 then [0] else [0, 0]),
        mem_enc := enc', mem_own := True, mem_flags := MEM_Str OR MEM_Term OR (mem_flags m AND MEM_AffMask)\<rparr>)"
    proof (rule translate_via_UTF8 [where n = "mem_n m"])
      show "transcode (mem_enc m) enc' (out_size enc' (mem_n m)) (take (mem_n m) (mem_z m)) = Some (encode_text enc' cs)"
        using h u ne e f by (auto intro!: transcode_text cs simp: out_size_def)
    qed (use u h ne f ev in auto)
    then show ?thesis unfolding ce holds_text_def Str_bit by (simp add: bit_simps)
  qed
qed

text \<open>A failed allocation, where one is needed.\<close>

lemma change_encoding_alloc:
  "sqlite3VdbeChangeEncoding alloc m enc' = sqlite3VdbeChangeEncoding True m enc' \<or>
   \<not> alloc \<and> (\<exists>m'. sqlite3VdbeChangeEncoding alloc m enc' = Some (SQLITE_NOMEM, m'))"
  by (cases alloc; cases "mem_enc m \<noteq> SQLITE_UTF8 \<and> enc' \<noteq> SQLITE_UTF8")
    (auto simp: sqlite3VdbeChangeEncoding_def sqlite3VdbeMemTranslate_def sqlite3VdbeMemMakeWriteable_def Let_def)

text \<open>The encoding forms of the Unicode standard, as numbers, and what it means that a cell holds a text.\<close>

definition unicode_bytes :: "nat \<Rightarrow> nat \<Rightarrow> nat list" where
  "unicode_bytes enc n =
     (if enc = SQLITE_UTF8 then
        (if n < 0x80 then [n]
         else if n < 0x800 then [0xC0 + n div 64, 0x80 + n mod 64]
         else if n < 0x10000 then [0xE0 + n div 4096, 0x80 + n div 64 mod 64, 0x80 + n mod 64]
         else [0xF0 + n div 262144, 0x80 + n div 4096 mod 64, 0x80 + n div 64 mod 64, 0x80 + n mod 64])
      else concat (map (\<lambda>u. if enc = SQLITE_UTF16LE then [u mod 256, u div 256] else [u div 256, u mod 256]) (units n)))"

definition stores_text :: "TextMem \<Rightarrow> nat \<Rightarrow> u32 list \<Rightarrow> bool" where
  "stores_text m enc cs \<longleftrightarrow> mem_enc m = enc \<and> mem_flags m AND MEM_Str \<noteq> 0 \<and> mem_n m \<le> length (mem_z m) \<and>
     map unat (take (mem_n m) (mem_z m)) = concat (map (unicode_bytes enc \<circ> unat) cs)"

lemma unat_small_sum: "a + b < 256 \<Longrightarrow> unat (word_of_nat a + word_of_nat b :: u8) = a + b"
  using unat_of_nat_byte [of "a + b"] by simp

lemma write_char_unicode:
  assumes "unat c < 0x110000"
  shows "map unat (write_char enc c) = unicode_bytes enc (unat c)"
proof -
  let ?n = "unat c"
  have s: "unat (0x80 + word_of_nat (k mod 64) :: u8) = 0x80 + k mod 64" for k
    using unat_small_sum [of "0x80" "k mod 64"] by simp
  have l: "?n < 0x800 \<Longrightarrow> unat (0xC0 + word_of_nat (?n div 64) :: u8) = 0xC0 + ?n div 64"
    "?n < 0x10000 \<Longrightarrow> unat (0xE0 + word_of_nat (?n div 4096) :: u8) = 0xE0 + ?n div 4096"
    "unat (0xF0 + word_of_nat (?n div 262144) :: u8) = 0xF0 + ?n div 262144"
    using assms unat_small_sum [of "0xC0" "?n div 64"] unat_small_sum [of "0xE0" "?n div 4096"] unat_small_sum [of "0xF0" "?n div 262144"]
    by (simp_all add: less_mult_imp_div_less)
  have u: "u div 256 < 256" if "u \<in> set (units ?n)" for u
  proof -
    have "(?n - 0x10000) div 1024 < 1024" using assms by (simp add: less_mult_imp_div_less)
    then have "u < 65536" using that by (auto simp: units_def split: if_splits)
    then show ?thesis by (simp add: less_mult_imp_div_less)
  qed
  have f: "map unat (concat (map (\<lambda>x. [word_of_nat (x mod 256), word_of_nat (x div 256) :: u8]) xs)) = concat (map (\<lambda>x. [x mod 256, x div 256]) xs)"
    "map unat (concat (map (\<lambda>x. [word_of_nat (x div 256), word_of_nat (x mod 256) :: u8]) xs)) = concat (map (\<lambda>x. [x div 256, x mod 256]) xs)"
    if "\<forall>x\<in>set xs. x div 256 < 256" for xs using that by (induction xs) (simp_all add: unat_of_nat_byte)
  have "\<forall>x\<in>set (units ?n). x div 256 < 256" using u by blast
  note f = f [OF this]
  show ?thesis
  proof (cases "enc = SQLITE_UTF8")
    case True
    show ?thesis
      unfolding write_char_def unicode_bytes_def WRITE_UTF8_nat [OF assms] Let_def if_P [OF True]
      by (simp add: s l unat_of_nat_byte del: of_nat_unat)
  next
    case False
    then show ?thesis unfolding write_char_def unicode_bytes_def if_not_P [OF False] WRITE_UTF16_nat [OF assms]
      using f WRITE_UTF16_nat [OF assms] by simp
  qed
qed

lemma stores_text_iff: "\<forall>c\<in>set cs. scalar c \<Longrightarrow> stores_text m enc cs \<longleftrightarrow> holds_text m enc cs"
proof -
  assume "\<forall>c\<in>set cs. scalar c"
  then have "concat (map (unicode_bytes enc \<circ> unat) cs) = map unat (encode_text enc cs)"
    by (induction cs) (simp_all add: encode_text_def write_char_unicode scalar_def)
  moreover have "map unat z = map unat z' \<longleftrightarrow> z = z'" for z z' :: "u8 list"
    by (rule inj_map_eq_map) (auto intro!: injI simp: word_unat_eq_iff)
  ultimately show ?thesis by (simp add: stores_text_def holds_text_def)
qed

text \<open>C24: A change of the encoding of a string cell does not change its text. If the cell stores the characters \<open>cs\<close> in the form the Unicode
standard prescribes for its encoding (UTF-8 or UTF-16 in either byte order, with surrogate pairs), it stores the same characters in the form of the
desired encoding afterwards; the only error is a failed allocation. The characters are those all encodings hold: no surrogates, and not \<open>0xFFFE\<close> and
\<open>0xFFFF\<close>, which the reader of UTF-8 replaces.\<close>

theorem change_encoding_keeps_text:
  assumes "stores_text m enc cs" "\<forall>c\<in>set cs. scalar c"
    and "enc \<in> {SQLITE_UTF8, SQLITE_UTF16LE, SQLITE_UTF16BE}" "enc' \<in> {SQLITE_UTF8, SQLITE_UTF16LE, SQLITE_UTF16BE}"
  shows "\<exists>rc m'. sqlite3VdbeChangeEncoding alloc m enc' = Some (rc, m') \<and>
    (rc = SQLITE_OK \<and> stores_text m' enc' cs \<or> rc = SQLITE_NOMEM \<and> \<not> alloc)"
proof -
  have "holds_text m enc cs" using assms(1,2) by (simp add: stores_text_iff)
  from change_encoding_text [OF this assms(2-4)] obtain m' where
    "sqlite3VdbeChangeEncoding True m enc' = Some (SQLITE_OK, m')" "stores_text m' enc' cs" using assms(2) by (auto simp: stores_text_iff)
  with change_encoding_alloc [of alloc m enc'] show ?thesis by auto
qed

text \<open>The text of the letters \<open>a\<close>, U+00E9 and the character U+1F600.\<close>

lemma change_encoding_keeps_text_witness:
  "\<exists>m'. sqlite3VdbeChangeEncoding True \<lparr>mem_u = 0, mem_flags = MEM_Str, mem_n = 7, mem_z = [0x61, 0xC3, 0xA9, 0xF0, 0x9F, 0x98, 0x80],
       mem_enc = SQLITE_UTF8, mem_own = False\<rparr> SQLITE_UTF16LE = Some (SQLITE_OK, m') \<and>
     stores_text m' SQLITE_UTF16LE [0x61, 0xE9, 0x1F600]"
proof -
  let ?m = "\<lparr>mem_u = 0, mem_flags = MEM_Str, mem_n = 7, mem_z = [0x61, 0xC3, 0xA9, 0xF0, 0x9F, 0x98, 0x80], mem_enc = SQLITE_UTF8, mem_own = False\<rparr>"
  have "stores_text ?m SQLITE_UTF8 [0x61, 0xE9, 0x1F600]" by (simp add: stores_text_def unicode_bytes_def)
  from change_encoding_keeps_text [OF this, of SQLITE_UTF16LE True] show ?thesis by (simp add: scalar_def)
qed

text \<open>The translation of a cell never reads outside the text nor writes outside the buffer of the size computed for it, whatever bytes
the cell holds: it returns, fails only when memory cannot be allocated, and otherwise leaves a text in the desired encoding of at most twice the size,
terminated by one zero byte for UTF-8 and two for UTF-16 (the exchange of the byte order keeps the terminator of the cell).\<close>

theorem translate_stays_in_buffers:
  assumes "mem_n m \<le> length (mem_z m)" "mem_flags m AND MEM_Str \<noteq> 0" "mem_enc m \<noteq> enc'"
    and "mem_enc m \<in> {SQLITE_UTF8, SQLITE_UTF16LE, SQLITE_UTF16BE}" "enc' \<in> {SQLITE_UTF8, SQLITE_UTF16LE, SQLITE_UTF16BE}"
  shows "\<exists>rc m'. sqlite3VdbeMemTranslate alloc m enc' = Some (rc, m') \<and>
    (if rc = SQLITE_OK
     then mem_enc m' = enc' \<and> mem_n m' \<le> 2 * mem_n m \<and> mem_n m' \<le> length (mem_z m') \<and>
       (mem_enc m = SQLITE_UTF8 \<longrightarrow> drop (mem_n m') (mem_z m') = [0, 0]) \<and> (enc' = SQLITE_UTF8 \<longrightarrow> drop (mem_n m') (mem_z m') = [0])
     else rc = SQLITE_NOMEM \<and> \<not> alloc)"
proof (cases "mem_enc m \<noteq> SQLITE_UTF8 \<and> enc' \<noteq> SQLITE_UTF8")
  case True
  show ?thesis
  proof (cases "sqlite3VdbeMemMakeWriteable alloc m")
    case (Pair rc m1)
    then have "rc = SQLITE_OK \<and> mem_n m1 = mem_n m \<and> mem_n m \<le> length (mem_z m1) \<or> rc = SQLITE_NOMEM \<and> \<not> alloc"
      using assms(1) by (auto simp: sqlite3VdbeMemMakeWriteable_def split: if_splits)
    with True Pair show ?thesis by (auto simp: sqlite3VdbeMemTranslate_def Let_def)
  qed
next
  case False
  let ?n = "if enc' = SQLITE_UTF8 then 2 * (mem_n m div 2) else mem_n m"
  have n: "?n \<le> mem_n m" by (auto simp: times_div_less_eq_dividend)
  then have l: "length (take ?n (mem_z m)) = ?n" using assms(1) by simp
  obtain out where out: "transcode (mem_enc m) enc' (out_size enc' ?n) (take ?n (mem_z m)) = Some out" "length out \<le> 2 * ?n"
    using transcode_bounded [of "mem_enc m" "take ?n (mem_z m)" "out_size enc' ?n" enc'] False unfolding l by (auto simp: out_size_def)
  show ?thesis
  proof (cases alloc)
    case True
    have "sqlite3VdbeMemTranslate True m enc' = Some (SQLITE_OK, m\<lparr>mem_n := length out,
        mem_z := out @ (if enc' = SQLITE_UTF8 then [0] else [0, 0]), mem_enc := enc', mem_own := True,
        mem_flags := MEM_Str OR MEM_Term OR (mem_flags m AND MEM_AffMask)\<rparr>)"
      using False assms(1,3) by (intro translate_via_UTF8 [OF _ _ _ refl out]) auto
    with True out(2) n assms(3) show ?thesis by auto
  next
    case nf: False
    with False show ?thesis by (auto simp: sqlite3VdbeMemTranslate_def Let_def)
  qed
qed

lemma translate_stays_in_buffers_witness:
  "\<exists>rc m'. sqlite3VdbeMemTranslate True \<lparr>mem_u = 0, mem_flags = MEM_Str, mem_n = 3, mem_z = [0xD8, 0x00, 0x41],
       mem_enc = SQLITE_UTF16BE, mem_own = False\<rparr> SQLITE_UTF8 = Some (rc, m') \<and> mem_n m' \<le> 6"
proof -
  let ?m = "\<lparr>mem_u = 0, mem_flags = MEM_Str, mem_n = 3, mem_z = [0xD8, 0x00, 0x41], mem_enc = SQLITE_UTF16BE, mem_own = False\<rparr>"
  have "mem_n ?m \<le> length (mem_z ?m)" "mem_flags ?m AND MEM_Str \<noteq> 0" by simp_all
  from translate_stays_in_buffers [OF this, of SQLITE_UTF8 True] show ?thesis by (auto split: if_splits)
qed

text \<open>The positions in the two encodings of a statement correspond: counting the characters of a prefix of the UTF-8 text and then
the bytes of as many characters of the UTF-16 text leads to the end of the same prefix (the tail reported by \<open>sqlite3Prepare16\<close>).\<close>

theorem prefix_lengths_agree:
  assumes "\<forall>c\<in>set cs. scalar c" "0 \<notin> set cs" "\<not> is_trail b"
  shows "\<exists>n. sqlite3Utf8CharLen (encode_text SQLITE_UTF8 cs @ b # r) (int (length (encode_text SQLITE_UTF8 cs))) = Some n \<and>
    sqlite3Utf16ByteLen (encode_text SQLITE_UTF16LE cs @ z) n = Some (length (encode_text SQLITE_UTF16LE cs))"
  using charlen_loop_eq [OF encode_no_zero [OF assms(2,1)] assms(3)] utf16_skip_text [OF assms(1)] chars_encode [OF assms(1)]
  by (simp add: sqlite3Utf8CharLen_def sqlite3Utf16ByteLen_def)

text \<open>A byte order mark is removed and selects the encoding in which the text behind it is read.\<close>

theorem bom_selects_encoding:
  assumes "enc \<in> {SQLITE_UTF16LE, SQLITE_UTF16BE}" "mem_flags m AND MEM_Str \<noteq> 0" "mem_n m \<le> length (mem_z m)"
    and "take (mem_n m) (mem_z m) = (if enc = SQLITE_UTF16LE then [0xFF, 0xFE] else [0xFE, 0xFF]) @ encode_text enc cs"
  shows "\<exists>m'. sqlite3VdbeMemHandleBom True m = Some (SQLITE_OK, m') \<and> holds_text m' enc cs \<and>
    take 2 (drop (mem_n m') (mem_z m')) = [0, 0]"
proof -
  let ?n = "mem_n m" and ?b = "(if enc = SQLITE_UTF16LE then [0xFF, 0xFE] else [0xFE, 0xFF]) :: u8 list"
  have n: "?n = 2 + length (encode_text enc cs)" using arg_cong [OF assms(4), of length] assms(3) by auto
  have "mem_z m ! 0 = take ?n (mem_z m) ! 0" "mem_z m ! 1 = take ?n (mem_z m) ! 1" using n by simp_all
  then have b: "mem_z m ! 0 = ?b ! 0" "mem_z m ! 1 = ?b ! 1" unfolding assms(4) by (simp_all add: nth_append)
  from make_writeable [OF assms(2,3)] obtain m1 where m1: "sqlite3VdbeMemMakeWriteable True m = (SQLITE_OK, m1)" "mem_n m1 = ?n"
    "?n \<le> length (mem_z m1)" "take ?n (mem_z m1) = ?b @ encode_text enc cs" "mem_flags m1 AND MEM_Str \<noteq> 0"
    unfolding assms(4) by blast
  have t: "take (?n - 2) (drop 2 (mem_z m1)) = encode_text enc cs"
    using arg_cong [OF m1(4), of "drop 2"] by (simp add: drop_take split: if_splits)
  have l: "length (encode_text enc cs) = ?n - 2" using n by simp
  have e: "(if ?n > 1 then if ?b ! 0 = 0xFE \<and> ?b ! 1 = 0xFF then SQLITE_UTF16BE
      else if ?b ! 0 = 0xFF \<and> ?b ! 1 = 0xFE then SQLITE_UTF16LE else 0 else 0) = enc" "enc \<noteq> 0"
    using assms(1) n by auto
  show ?thesis
    unfolding sqlite3VdbeMemHandleBom_def b Let_def e(1) m1(1) prod.case holds_text_def Str_bit
    using assms(3) e(2) m1(1-4) m1(5) [unfolded Str_bit] t l by (auto simp: bit_simps not_less)
qed

text \<open>A surrogate without its partner takes the unit behind it with it: the letter \<open>A\<close> behind the unit \<open>0xD800\<close> is lost.\<close>

theorem lone_surrogate_swallows: "READ_UTF16LE [0x00, 0xD8, 0x41, 0x00] more_units = Some (0x10041, [])"
  by (simp add: unit_le_def surrogate_pair_def more_units_def push_bit_eq_mult)

text \<open>A value beyond the range of Unicode is not replaced, but written in UTF-16 as another character.\<close>

theorem out_of_range_aliases:
  "READ_UTF8 [0xF4, 0x90, 0x80, 0x80] = Some (0x110000, []) \<and> WRITE_UTF16LE 0x110000 = WRITE_UTF16LE 0x10000"
  by code_simp

text \<open>With a length given, the byte behind the text is read before the end of the text is tested.\<close>

theorem charlen_reads_behind_text: "sqlite3Utf8CharLen [0x61] 1 = None"
  by (simp add: sqlite3Utf8CharLen_def charlen_loop.simps)

end
