(* ===== verification/Like.thy ===== *)
theory Like
  imports Utf
begin

text \<open>
  The operators LIKE and GLOB (func.c): the comparison of a string with a pattern, and the SQL function that
  applies it. Both strings are terminated by a zero byte; a pointer into one of them is the list of the bytes from there
  on, and reading behind the end of the list has the result \<open>None\<close>.
\<close>

section \<open>Definitions\<close>

record compareInfo =
  matchAll :: u8
  matchOne :: u8
  matchSet :: u8
  noCase :: bool

definition globInfo :: compareInfo where
  "globInfo = \<lparr>matchAll = 0x2a, matchOne = 0x3f, matchSet = 0x5b, noCase = False\<rparr>"

definition likeInfoNorm :: compareInfo where
  "likeInfoNorm = \<lparr>matchAll = 0x25, matchOne = 0x5f, matchSet = 0, noCase = True\<rparr>"

definition likeInfoAlt :: compareInfo where
  "likeInfoAlt = \<lparr>matchAll = 0x25, matchOne = 0x5f, matchSet = 0, noCase = False\<rparr>"

text \<open>The macros \<open>sqlite3Tolower\<close> and \<open>sqlite3Toupper\<close> on a character, which is at most 0x80 where the code applies them.\<close>

definition lower :: "u32 \<Rightarrow> u32" where
  "lower c = ucast (UpperToLower (ucast c))"

definition upper :: "u32 \<Rightarrow> u32" where
  "upper c = ucast (sqlite3Toupper (ucast c))"

fun peek :: "u8 list \<Rightarrow> u8 option" where
  "peek [] = None"
| "peek (b # _) = Some b"

definition matchOther :: "compareInfo \<Rightarrow> u32 \<Rightarrow> u32" where
  "matchOther pInfo esc = (if esc \<noteq> 0 then esc else ucast (matchSet pInfo))"

text \<open>The pointer \<open>&p[-1]\<close> for a pointer \<open>p\<close> behind \<open>start\<close> in the same string.\<close>

definition back1 :: "u8 list \<Rightarrow> u8 list \<Rightarrow> u8 list" where
  "back1 start p = drop (length start - (length p + 1)) start"

text \<open>
  The loop behind a \<open>*\<close>: the character that ends it, with the pointers into the pattern and the string behind it, or \<open>Inl\<close> when
  the string is too short for the \<open>?\<close> among the wildcards.
\<close>

function skip_wild :: "compareInfo \<Rightarrow> u8 list \<Rightarrow> u8 list \<Rightarrow> (unit + u32 \<times> u8 list \<times> u8 list) option" where
  "skip_wild pInfo zPattern zString =
     (case sqlite3Utf8Read zPattern of None \<Rightarrow> None
      | Some (c, zP) \<Rightarrow>
          if c = ucast (matchAll pInfo) \<or> c = ucast (matchOne pInfo) then
            (if c = ucast (matchOne pInfo)
             then (case sqlite3Utf8Read zString of None \<Rightarrow> None
                   | Some (c2, zS) \<Rightarrow> if c2 = 0 then Some (Inl ()) else skip_wild pInfo zP zS)
             else skip_wild pInfo zP zString)
          else Some (Inr (c, zP, zString)))"
  by pat_completeness auto

lemma skip_trail_upto: "trail_z c z = Some (d, r) \<Longrightarrow> length r \<le> length z"
  by (induction c z rule: trail_z.induct) (auto split: if_splits)

lemma Utf8Read_shorter: "sqlite3Utf8Read z = Some (c, r) \<Longrightarrow> length r < length z"
  by (cases z) (auto simp: bind_eq_Some_conv split: if_splits dest!: skip_trail_upto)

termination skip_wild
  by (relation "measure (\<lambda>(pInfo, p, s). length p)") (auto dest: Utf8Read_shorter)

declare skip_wild.simps [simp del]

text \<open>
  The loop over the members of a set \<open>[...]\<close>: \<open>c\<close> is the character of the string, \<open>c2\<close> the one read last. The result has the
  character that ended the loop and whether \<open>c\<close> was seen.
\<close>

function class_loop :: "u32 \<Rightarrow> u32 \<Rightarrow> u32 \<Rightarrow> bool \<Rightarrow> u8 list \<Rightarrow> (u32 \<times> bool \<times> u8 list) option" where
  "class_loop c c2 prior_c seen zPattern =
     (if c2 \<noteq> 0 \<and> c2 \<noteq> 0x5d then
        (case (if c2 = 0x2d then do { b \<leftarrow> peek zPattern; Some (b \<noteq> 0x5d \<and> b \<noteq> 0 \<and> prior_c > 0) } else Some False) of
           None \<Rightarrow> None
         | Some rng \<Rightarrow>
             (case (if rng then sqlite3Utf8Read zPattern else Some (c2, zPattern)) of None \<Rightarrow> None
              | Some (c2, zP) \<Rightarrow>
                  let seen' = (if rng then seen \<or> c \<ge> prior_c \<and> c \<le> c2 else seen \<or> c = c2);
                      prior' = (if rng then 0 else c2)
                  in (case sqlite3Utf8Read zP of None \<Rightarrow> None
                      | Some (c2, zP') \<Rightarrow> class_loop c c2 prior' seen' zP')))
      else Some (c2, seen, zPattern))"
  by pat_completeness auto
termination
  by (relation "measure (\<lambda>(c, c2, prior, seen, p). length p)")
    (auto split: if_splits dest!: Utf8Read_shorter)

declare class_loop.simps [simp del]

text \<open>The whole set: whether the character read from the string is accepted, and the pointers behind it and the set.\<close>

definition match_set :: "u8 list \<Rightarrow> u8 list \<Rightarrow> (bool \<times> u8 list \<times> u8 list) option" where
  "match_set zPattern zString =
     do { (c, zString) \<leftarrow> sqlite3Utf8Read zString;
          if c = 0 then Some (False, zPattern, zString)
          else do {
            (c2, zPattern) \<leftarrow> sqlite3Utf8Read zPattern;
            (invert, c2, zPattern) \<leftarrow>
              (if c2 = 0x5e then do { (c2, zPattern) \<leftarrow> sqlite3Utf8Read zPattern; Some (True, c2, zPattern) }
               else Some (False, c2, zPattern));
            (seen, c2, zPattern) \<leftarrow>
              (if c2 = 0x5d then do { (c2, zPattern) \<leftarrow> sqlite3Utf8Read zPattern; Some (c = 0x5d, c2, zPattern) }
               else Some (False, c2, zPattern));
            (c2, seen, zPattern) \<leftarrow> class_loop c c2 0 seen zPattern;
            Some (\<not> (c2 = 0 \<or> seen = invert), zPattern, zString) } }"

text \<open>The three searches behind a \<open>*\<close>; \<open>rest\<close> is the recursive call on the rest of the pattern.\<close>

function search_set :: "(u8 list \<Rightarrow> bool option) \<Rightarrow> u8 list \<Rightarrow> bool option" where
  "search_set rest zString =
     (case peek zString of None \<Rightarrow> None
      | Some b \<Rightarrow>
          if b = 0 then Some False
          else (case rest zString of None \<Rightarrow> None
                | Some True \<Rightarrow> Some True
                | Some False \<Rightarrow>
                    (case SQLITE_SKIP_UTF8 zString of None \<Rightarrow> None
                     | Some zS \<Rightarrow> if length zS < length zString then search_set rest zS else None)))"
  by pat_completeness auto
termination by (relation "measure (\<lambda>(rest, s). length s)") auto

declare search_set.simps [simp del]

fun search_byte :: "(u8 list \<Rightarrow> bool option) \<Rightarrow> u32 \<Rightarrow> u32 \<Rightarrow> u8 list \<Rightarrow> bool option" where
  "search_byte rest c cx [] = None"
| "search_byte rest c cx (b # zString) =
     (let c2 = ucast b
      in if c2 = 0 then Some False
         else if c2 \<noteq> c \<and> c2 \<noteq> cx then search_byte rest c cx zString
         else (case rest zString of None \<Rightarrow> None
               | Some True \<Rightarrow> Some True
               | Some False \<Rightarrow> search_byte rest c cx zString))"

function search_char :: "(u8 list \<Rightarrow> bool option) \<Rightarrow> u32 \<Rightarrow> u8 list \<Rightarrow> bool option" where
  "search_char rest c zString =
     (case sqlite3Utf8Read zString of None \<Rightarrow> None
      | Some (c2, zS) \<Rightarrow>
          if c2 = 0 then Some False
          else if c2 \<noteq> c then search_char rest c zS
          else (case rest zS of None \<Rightarrow> None
                | Some True \<Rightarrow> Some True
                | Some False \<Rightarrow> search_char rest c zS))"
  by pat_completeness auto
termination by (relation "measure (\<lambda>(rest, c, s). length s)") (auto dest: Utf8Read_shorter)

declare search_char.simps [simp del]

text \<open>
  The main loop of \<open>patternCompare\<close>; \<open>zEscaped\<close> is the pointer behind the last escaped character. Every turn and every recursive
  call works on a shorter pattern.
\<close>

function pattern_loop :: "compareInfo \<Rightarrow> u32 \<Rightarrow> u8 list option \<Rightarrow> u8 list \<Rightarrow> u8 list \<Rightarrow> bool option" where
  "pattern_loop pInfo esc zEscaped zPattern zString =
     (case sqlite3Utf8Read zPattern of None \<Rightarrow> None
      | Some (c, zP) \<Rightarrow>
          if c = 0 then do { b \<leftarrow> peek zString; Some (b = 0) }
          else if c = ucast (matchAll pInfo) then
            (case skip_wild pInfo zP zString of None \<Rightarrow> None
             | Some (Inl _) \<Rightarrow> Some False
             | Some (Inr (c, zP', zS)) \<Rightarrow>
                 if length zP' < length zP then
                   (if c = 0 then Some True
                    else if c = matchOther pInfo esc \<and> esc = 0 then
                      search_set (\<lambda>s. pattern_loop pInfo esc None (back1 zP zP') s) zS
                    else
                      (case (if c = matchOther pInfo esc then sqlite3Utf8Read zP' else Some (c, zP')) of None \<Rightarrow> None
                       | Some (c, zP'') \<Rightarrow>
                           if c = 0 then Some False
                           else if c \<le> 0x80 then
                             search_byte (\<lambda>s. pattern_loop pInfo esc None zP'' s)
                               (if noCase pInfo then lower c else c) (if noCase pInfo then upper c else c) zS
                           else search_char (\<lambda>s. pattern_loop pInfo esc None zP'' s) c zS))
                 else None)
          else if c = matchOther pInfo esc \<and> esc = 0 then
            (case match_set zP zString of None \<Rightarrow> None
             | Some (ok, zP', zS) \<Rightarrow>
                 if \<not> ok then Some False
                 else if length zP' < length zP then pattern_loop pInfo esc zEscaped zP' zS else None)
          else
            (case (if c = matchOther pInfo esc then do { (c, z) \<leftarrow> sqlite3Utf8Read zP; Some (c, z, Some z) }
                   else Some (c, zP, zEscaped)) of None \<Rightarrow> None
             | Some (c, zP', zE) \<Rightarrow>
                 if c = 0 then Some False
                 else
                   (case sqlite3Utf8Read zString of None \<Rightarrow> None
                    | Some (c2, zS) \<Rightarrow>
                        if c = c2 \<or> noCase pInfo \<and> c < 0x80 \<and> c2 < 0x80 \<and> lower c = lower c2 \<or>
                           c = ucast (matchOne pInfo) \<and> Some zP' \<noteq> zE \<and> c2 \<noteq> 0
                        then pattern_loop pInfo esc zE zP' zS
                        else Some False)))"
  by pat_completeness auto
termination
  by (relation "measure (\<lambda>(pInfo, esc, e, p, s). length p)")
    (auto simp: back1_def bind_eq_Some_conv split: if_splits dest!: Utf8Read_shorter)

declare pattern_loop.simps [simp del]

definition patternCompare :: "u8 list \<Rightarrow> u8 list \<Rightarrow> compareInfo \<Rightarrow> u32 \<Rightarrow> bool option" where
  "patternCompare zPattern zString pInfo esc = pattern_loop pInfo esc None zPattern zString"

datatype func_result = NoResult | ResultError string | ResultInt int

text \<open>
  The SQL function: an argument is the text of the value, to which \<open>sqlite3_value_text\<close> adds a zero byte, or \<open>None\<close> for NULL;
  \<open>limit\<close> is \<open>db->aLimit[SQLITE_LIMIT_LIKE_PATTERN_LENGTH]\<close>.
\<close>

definition likeFunc :: "compareInfo \<Rightarrow> nat \<Rightarrow> u8 list option list \<Rightarrow> func_result option" where
  "likeFunc pInfo limit argv =
     (let zB = argv ! 0; zA = argv ! 1;
          nPat = (case zB of None \<Rightarrow> 0 | Some z \<Rightarrow> length z);
          result = (\<lambda>escape. case (zA, zB) of
              (Some a, Some b) \<Rightarrow> map_option (\<lambda>r. ResultInt (of_bool r)) (patternCompare (b @ [0]) (a @ [0]) pInfo escape)
            | _ \<Rightarrow> Some NoResult)
      in if nPat > limit then Some (ResultError ''LIKE or GLOB pattern too complex'')
         else if length argv = 3 then
           (case argv ! 2 of None \<Rightarrow> Some NoResult
            | Some zEsc \<Rightarrow>
                do { n \<leftarrow> sqlite3Utf8CharLen (zEsc @ [0]) (- 1);
                     if n \<noteq> 1 then Some (ResultError ''ESCAPE expression must be a single character'')
                     else do { (escape, zEsc) \<leftarrow> sqlite3Utf8Read (zEsc @ [0]); result escape } })
         else result 0)"

definition sqlite3_strglob :: "u8 list \<Rightarrow> u8 list \<Rightarrow> int option" where
  "sqlite3_strglob zGlobPattern zString =
     map_option (\<lambda>r. of_bool (\<not> r)) (patternCompare (zGlobPattern @ [0]) (zString @ [0]) globInfo 0)"

section \<open>What a pattern means\<close>

text \<open>A pattern is a sequence of elements; a string of characters matches it if the elements match consecutive parts.\<close>

datatype pat = PAny | POne | PLit u32 | PSet bool "(u32 \<times> u32) list"

fun pat_match :: "(u32 \<Rightarrow> u32 \<Rightarrow> bool) \<Rightarrow> pat list \<Rightarrow> u32 list \<Rightarrow> bool" where
  "pat_match same [] s \<longleftrightarrow> s = []"
| "pat_match same (PAny # ps) s \<longleftrightarrow> (\<exists>k\<in>{0..length s}. pat_match same ps (drop k s))"
| "pat_match same (POne # ps) s \<longleftrightarrow> s \<noteq> [] \<and> pat_match same ps (tl s)"
| "pat_match same (PLit c # ps) s \<longleftrightarrow> s \<noteq> [] \<and> same c (hd s) \<and> pat_match same ps (tl s)"
| "pat_match same (PSet invert items # ps) s \<longleftrightarrow>
     s \<noteq> [] \<and> (\<exists>(lo, hi)\<in>set items. lo \<le> hd s \<and> hd s \<le> hi) \<noteq> invert \<and> pat_match same ps (tl s)"

text \<open>The members of a set up to \<open>]\<close>: a hyphen between two characters makes a range.\<close>

definition add_item :: "u32 \<times> u32 \<Rightarrow> ((u32 \<times> u32) list \<times> u32 list) option \<Rightarrow> ((u32 \<times> u32) list \<times> u32 list) option" where
  "add_item i res = (case res of None \<Rightarrow> None | Some (items, r) \<Rightarrow> Some (i # items, r))"

fun set_items :: "u32 \<Rightarrow> u32 list \<Rightarrow> ((u32 \<times> u32) list \<times> u32 list) option" where
  "set_items prior [] = None"
| "set_items prior [c] = (if c = 0x5d then Some ([], []) else None)"
| "set_items prior (c # d # ds) =
     (if c = 0x5d then Some ([], d # ds)
      else if c = 0x2d \<and> d \<noteq> 0x5d \<and> prior \<noteq> 0 then add_item (prior, d) (set_items 0 ds)
      else add_item (c, c) (set_items c (d # ds)))"

fun closing_first :: "u32 list \<Rightarrow> ((u32 \<times> u32) list \<times> u32 list) option" where
  "closing_first (c # cs) = (if c = 0x5d then add_item (c, c) (set_items 0 cs) else set_items 0 (c # cs))"
| "closing_first [] = None"

fun parse_set :: "u32 list \<Rightarrow> (pat \<times> u32 list) option" where
  "parse_set (c # cs) =
     (if c = 0x5e then map_option (\<lambda>(items, r). (PSet True items, r)) (closing_first cs)
      else map_option (\<lambda>(items, r). (PSet False items, r)) (closing_first (c # cs)))"
| "parse_set [] = None"

lemma add_item_Some: "add_item i res = Some (items, r) \<longleftrightarrow> (\<exists>is. res = Some (is, r) \<and> items = i # is)"
  by (auto simp: add_item_def split: option.splits)

lemma set_items_shorter: "set_items prior cs = Some (items, r) \<Longrightarrow> length r < length cs"
proof (induction prior cs arbitrary: items rule: set_items.induct)
  case (3 prior c d ds)
  then show ?case by (auto simp: add_item_Some split: if_splits)
qed (auto split: if_splits)

lemma closing_first_shorter: "closing_first cs = Some (items, r) \<Longrightarrow> length r < length cs"
  by (cases cs) (auto simp: add_item_Some simp del: set_items.simps split: if_splits dest: set_items_shorter less_SucI)

lemma parse_set_shorter: "parse_set cs = Some (p, r) \<Longrightarrow> length r < length cs"
  by (cases cs) (auto simp del: closing_first.simps split: if_splits dest: closing_first_shorter less_SucI)

lemma set_items_suffix: "set_items prior cs = Some (items, r) \<Longrightarrow> set r \<subseteq> set cs"
proof (induction prior cs arbitrary: items rule: set_items.induct)
  case (3 prior c d ds)
  then show ?case by (auto simp: add_item_Some split: if_splits)
qed (auto split: if_splits)

lemma closing_first_suffix: "closing_first cs = Some (items, r) \<Longrightarrow> set r \<subseteq> set cs"
  using set_items_suffix [of 0 cs items r] set_items_suffix [of 0 "tl cs" _ r]
  by (cases cs) (auto simp: add_item_Some simp del: set_items.simps split: if_splits)

lemma parse_set_suffix: "parse_set cs = Some (pt, r) \<Longrightarrow> set r \<subseteq> set cs"
  using closing_first_suffix [of cs _ r] closing_first_suffix [of "tl cs" _ r]
  by (cases cs) (fastforce simp del: closing_first.simps split: if_splits)+

text \<open>The elements of a pattern; an escape character at the end and a set that is not closed make the pattern match nothing.\<close>

function parse :: "compareInfo \<Rightarrow> u32 \<Rightarrow> u32 list \<Rightarrow> pat list option" where
  "parse pInfo esc [] = Some []"
| "parse pInfo esc (c # cs) =
     (if c = ucast (matchAll pInfo) then map_option (Cons PAny) (parse pInfo esc cs)
      else if c = ucast (matchOne pInfo) then map_option (Cons POne) (parse pInfo esc cs)
      else if esc \<noteq> 0 \<and> c = esc then
        (case cs of [] \<Rightarrow> None | d # ds \<Rightarrow> map_option (Cons (PLit d)) (parse pInfo esc ds))
      else if esc = 0 \<and> c = ucast (matchSet pInfo) then
        (case parse_set cs of None \<Rightarrow> None | Some (p, r) \<Rightarrow> map_option (Cons p) (parse pInfo esc r))
      else map_option (Cons (PLit c)) (parse pInfo esc cs))"
  by pat_completeness auto
termination
  by (relation "measure (\<lambda>(pInfo, esc, cs). length cs)") (auto dest!: parse_set_shorter)

definition same_char :: "compareInfo \<Rightarrow> u32 \<Rightarrow> u32 \<Rightarrow> bool" where
  "same_char pInfo c d \<longleftrightarrow> c = d \<or> noCase pInfo \<and> c < 0x80 \<and> d < 0x80 \<and> lower c = lower d"

definition matches :: "compareInfo \<Rightarrow> u32 \<Rightarrow> u32 list \<Rightarrow> u32 list \<Rightarrow> bool" where
  "matches pInfo esc cs ss = (case parse pInfo esc cs of None \<Rightarrow> False | Some ps \<Rightarrow> pat_match (same_char pInfo) ps ss)"

definition matches_some :: "compareInfo \<Rightarrow> u32 \<Rightarrow> u32 list \<Rightarrow> u32 list \<Rightarrow> bool" where
  "matches_some pInfo esc cs ss \<longleftrightarrow> (\<exists>k\<in>{0..length ss}. matches pInfo esc cs (drop k ss))"

section \<open>Lemmas: the meaning of a pattern\<close>

text \<open>The wildcards are different characters below 128, and the escape character is none of them.\<close>

definition good_info :: "compareInfo \<Rightarrow> u32 \<Rightarrow> bool" where
  "good_info pInfo esc \<longleftrightarrow> matchAll pInfo \<noteq> 0 \<and> matchOne pInfo \<noteq> 0 \<and> matchAll pInfo \<noteq> matchOne pInfo \<and>
     matchSet pInfo \<noteq> matchAll pInfo \<and> matchSet pInfo \<noteq> matchOne pInfo \<and> matchSet pInfo < 0x80 \<and>
     esc \<noteq> ucast (matchAll pInfo) \<and> esc \<noteq> ucast (matchOne pInfo)"

lemma matches_Nil [simp]: "matches pInfo esc [] ss \<longleftrightarrow> ss = []"
  by (simp add: matches_def)

lemma matches_All: "matches pInfo esc (ucast (matchAll pInfo) # cs) ss \<longleftrightarrow> matches_some pInfo esc cs ss"
  by (auto simp: matches_def matches_some_def split: option.splits)

lemma unat_u8: "unat (ucast x :: u32) = unat x" for x :: u8
  using unsigned_less [where ?'a = nat and w = x] by (simp only: unsigned_ucast_eq) (simp add: take_bit_nat_eq_self)

lemma ucast_u8_eq: "(ucast a :: u32) = ucast b \<longleftrightarrow> a = b" for a b :: u8
proof
  assume "(ucast a :: u32) = ucast b"
  then show "a = b" by (simp only: unat_u8 word_unat_eq_iff)
qed simp

lemma matches_One:
  "good_info pInfo esc \<Longrightarrow> matches pInfo esc (ucast (matchOne pInfo) # cs) ss \<longleftrightarrow> ss \<noteq> [] \<and> matches pInfo esc cs (tl ss)"
  by (auto simp: matches_def good_info_def ucast_u8_eq split: option.splits)

lemma matches_some_Nil [simp]: "matches_some pInfo esc [] ss"
  by (auto simp: matches_some_def intro!: bexI [of _ "length ss"])

lemma matches_some_All: "matches_some pInfo esc (ucast (matchAll pInfo) # cs) ss \<longleftrightarrow> matches_some pInfo esc cs ss"
proof
  assume "matches_some pInfo esc (ucast (matchAll pInfo) # cs) ss"
  then obtain k j where "k \<le> length ss" "j \<le> length (drop k ss)" "matches pInfo esc cs (drop j (drop k ss))"
    by (auto simp: matches_some_def matches_All)
  then show "matches_some pInfo esc cs ss" by (auto simp: matches_some_def intro!: bexI [of _ "j + k"])
next
  assume "matches_some pInfo esc cs ss"
  then show "matches_some pInfo esc (ucast (matchAll pInfo) # cs) ss"
    by (subst matches_some_def) (auto simp: matches_All intro!: bexI [of _ 0])
qed

lemma matches_some_step:
  "matches_some pInfo esc cs ss \<longleftrightarrow> matches pInfo esc cs ss \<or> ss \<noteq> [] \<and> matches_some pInfo esc cs (tl ss)"
proof (cases ss)
  case (Cons s ss')
  have "(\<exists>k\<in>{0..Suc n}. Q k) \<longleftrightarrow> Q 0 \<or> (\<exists>k\<in>{0..n}. Q (Suc k))" for n and Q :: "nat \<Rightarrow> bool"
    by (metis atLeastAtMost_iff le0 not0_implies_Suc Suc_le_mono)
  from this [of "length ss'" "\<lambda>k. matches pInfo esc cs (drop k (s # ss'))"] show ?thesis by (simp add: matches_some_def Cons)
qed (simp add: matches_some_def)

lemma matches_some_One:
  assumes "good_info pInfo esc"
  shows "matches_some pInfo esc (ucast (matchOne pInfo) # cs) ss \<longleftrightarrow> ss \<noteq> [] \<and> matches_some pInfo esc cs (tl ss)"
proof (induction ss)
  case Nil
  then show ?case by (simp add: matches_some_def matches_One [OF assms])
next
  case (Cons s ss)
  then show ?case
    using matches_some_step [of pInfo esc "ucast (matchOne pInfo) # cs" "s # ss"] matches_some_step [of pInfo esc cs ss]
    by (auto simp: matches_One [OF assms])
qed

lemma matches_Lit:
  assumes "c \<noteq> ucast (matchAll pInfo)" "c \<noteq> ucast (matchOne pInfo)" "c \<noteq> matchOther pInfo esc"
  shows "matches pInfo esc (c # cs) ss \<longleftrightarrow> ss \<noteq> [] \<and> same_char pInfo c (hd ss) \<and> matches pInfo esc cs (tl ss)"
  using assms by (auto simp: matches_def matchOther_def split: option.splits if_splits)

lemma matches_Esc:
  assumes "good_info pInfo esc" "esc \<noteq> 0"
  shows "matches pInfo esc (esc # cs) ss \<longleftrightarrow>
    (case cs of [] \<Rightarrow> False | d # ds \<Rightarrow> ss \<noteq> [] \<and> same_char pInfo d (hd ss) \<and> matches pInfo esc ds (tl ss))"
  using assms by (auto simp: matches_def good_info_def split: option.splits list.splits)

lemma matches_Set:
  assumes "good_info pInfo 0"
  shows "matches pInfo 0 (ucast (matchSet pInfo) # cs) ss \<longleftrightarrow>
    (case parse_set cs of None \<Rightarrow> False | Some (p, r) \<Rightarrow> pat_match (same_char pInfo) [p] (take 1 ss) \<and> matches pInfo 0 r (tl ss))"
proof -
  have "pat_match same (p # ps) ss \<longleftrightarrow> pat_match same [p] (take 1 ss) \<and> pat_match same ps (tl ss)" if pr: "parse_set cs = Some (p, r)" for same p r ps
  proof -
    obtain inv items where "p = PSet inv items" using pr by (cases cs) (auto split: if_splits)
    then show ?thesis by (cases ss) auto
  qed
  then show ?thesis
    using assms by (auto simp: matches_def good_info_def ucast_u8_eq split: option.splits)
qed

section \<open>Lemmas: reading terminated strings\<close>

declare sqlite3Utf8Read.simps [simp del] SQLITE_SKIP_UTF8.simps [simp del] READ_UTF8.simps [simp del]

lemma read_end [simp]: "sqlite3Utf8Read (0 # t) = Some (0, t)"
  by (rule Utf8Read_end)

text \<open>The step from one character to the next.\<close>

definition steps :: "u8 list \<Rightarrow> u32 \<Rightarrow> u8 list \<Rightarrow> bool" where
  "steps S c S' \<longleftrightarrow> (\<forall>t. sqlite3Utf8Read (S @ 0 # t) = Some (c, S' @ 0 # t) \<and> SQLITE_SKIP_UTF8 (S @ 0 # t) = Some (S' @ 0 # t)) \<and>
     0 \<notin> set S' \<and> chars S = c # chars S' \<and> c \<noteq> 0 \<and> length S' < length S \<and>
     (\<exists>b X. S = b # X @ S' \<and> b \<noteq> 0 \<and> (if c < 0x80 then b = ucast c \<and> X = [] else b \<ge> 0x80 \<and> (\<forall>x\<in>set X. x \<ge> 0x80)))"

lemma checked_high: "\<not> utf8_checked c < 0x80" "utf8_checked c \<noteq> 0"
  by (auto simp: utf8_checked_def)

lemma u8_view:
  fixes b :: u8
  shows "(ucast b :: u32) < 0x80 \<longleftrightarrow> b < 0x80" "(ucast (ucast b :: u32) :: u8) = b" "(ucast b :: u32) = 0 \<longleftrightarrow> b = 0"
proof -
  show "(ucast b :: u32) < 0x80 \<longleftrightarrow> b < 0x80" by (simp only: word_less_nat_alt unat_u8) simp
  have "unat (ucast (ucast b :: u32) :: u8) = unat b"
    using unsigned_less [where ?'a = nat and w = b] by (simp only: unsigned_ucast_eq [of "ucast b"] unat_u8) (simp add: take_bit_nat_eq_self)
  then show "(ucast (ucast b :: u32) :: u8) = b" by (simp only: word_unat_eq_iff)
  show "(ucast b :: u32) = 0 \<longleftrightarrow> b = 0" using ucast_u8_eq [of b 0] by simp
qed

lemma u32_view:
  fixes d :: u32
  assumes "d < 0x100"
  shows "unat (ucast d :: u8) = unat d" "(ucast (ucast d :: u8) :: u32) = d"
proof -
  have "unat d < 2 ^ 8" using assms by (simp add: word_less_nat_alt)
  then show u: "unat (ucast d :: u8) = unat d" by (simp only: unsigned_ucast_eq) (simp add: take_bit_nat_eq_self)
  show "(ucast (ucast d :: u8) :: u32) = d" by (simp only: word_unat_eq_iff unat_u8 u)
qed

lemma steps_exist:
  assumes "S \<noteq> []" "0 \<notin> set S"
  shows "\<exists>c S'. steps S c S'"
proof -
  obtain b y where S: "S = b # y" using assms(1) by (cases S) auto
  have "READ_UTF8 S \<noteq> None" by (auto simp: S READ_UTF8.simps Let_def split: prod.splits)
  then obtain c z where z: "READ_UTF8 S = Some (c, z)" by auto
  have 1: "\<forall>t. sqlite3Utf8Read (S @ 0 # t) = Some (c, z @ 0 # t) \<and> SQLITE_SKIP_UTF8 (S @ 0 # t) = Some (z @ 0 # t)"
    using Utf8Read_eq [OF assms(1), of 0] SKIP_eq [OF assms(1), of 0] z by simp
  have 2: "0 \<notin> set z" "length z < length S" "chars S = c # chars z"
    using READ_UTF8_suffix [OF z] READ_UTF8_shorter [OF z] assms(2) by (auto simp: chars.simps [of S] z)
  have b: "b \<noteq> 0" using assms(2) S by auto
  have "c \<noteq> 0 \<and> (\<exists>b X. S = b # X @ z \<and> b \<noteq> 0 \<and> (if c < 0x80 then b = ucast c \<and> X = [] else b \<ge> 0x80 \<and> (\<forall>x\<in>set X. x \<ge> 0x80)))"
  proof (cases "b \<ge> 0xc0")
    case True
    have "\<forall>x\<in>set (takeWhile is_trail y). x \<ge> 0x80" by (auto simp: is_trail_iff dest: set_takeWhileD)
    moreover have "b \<ge> 0x80" using True by (rule order_trans [rotated]) simp
    moreover have "z = dropWhile is_trail y" "c = utf8_checked (foldl add_trail (sqlite3Utf8Trans1 ! (unat b - 0xc0)) (takeWhile is_trail y))"
      using z True by (auto simp: S READ_UTF8.simps trail_upto_eq)
    ultimately show ?thesis
      using b by (auto simp: S checked_high intro!: exI [of _ "takeWhile is_trail y"])
  next
    case False
    then have "z = y" "c = ucast b" using z by (auto simp: S READ_UTF8.simps)
    then show ?thesis using b by (auto simp: S u8_view not_less)
  qed
  with 1 2 show ?thesis unfolding steps_def by blast
qed

lemma steps_read: "steps S c S' \<Longrightarrow> sqlite3Utf8Read (S @ 0 # t) = Some (c, S' @ 0 # t)"
  and steps_skip: "steps S c S' \<Longrightarrow> SQLITE_SKIP_UTF8 (S @ 0 # t) = Some (S' @ 0 # t)"
  and steps_chars: "steps S c S' \<Longrightarrow> chars S = c # chars S'"
  and steps_char: "steps S c S' \<Longrightarrow> c \<noteq> 0"
  and steps_rest: "steps S c S' \<Longrightarrow> 0 \<notin> set S'"
  and steps_length: "steps S c S' \<Longrightarrow> length S' < length S"
  and steps_low: "steps S c S' \<Longrightarrow> c < 0x80 \<Longrightarrow> S = ucast c # S'"
  by (auto simp: steps_def)

lemmas steps_facts = steps_read steps_skip steps_chars steps_char steps_rest steps_length

lemma steps_nonempty: "steps S c S' \<Longrightarrow> S \<noteq> []"
  by (auto simp: steps_def)

lemma steps_peek: "steps S c S' \<Longrightarrow> \<exists>b. peek (S @ 0 # t) = Some b \<and> b \<noteq> 0 \<and> (d < 0x80 \<longrightarrow> (b = ucast d) = (c = d))"
  for d :: u32
proof -
  assume "steps S c S'"
  then obtain b X where b: "S = b # X @ S'" "b \<noteq> 0" "if c < 0x80 then b = ucast c \<and> X = [] else b \<ge> 0x80" by (auto simp: steps_def split: if_splits)
  have "(b = ucast d) = (c = d)" if d: "d < 0x80"
  proof (cases "c < 0x80")
    case True
    then have "c < 0x100" "d < 0x100" using d by (simp_all add: word_less_nat_alt)
    then show ?thesis using b(3) True by (metis u32_view(2))
  next
    case False
    then have "b \<ge> 0x80" using b(3) by simp
    moreover have "unat (ucast d :: u8) < 0x80" using d u32_view(1) [of d] by (simp add: word_less_nat_alt)
    ultimately show ?thesis using d False by (auto simp: word_le_nat_alt)
  qed
  with b show ?thesis by auto
qed

lemma peek_end [simp]: "peek (0 # t) = Some 0"
  by simp

lemma chars_eq_Nil: "chars S = [] \<longleftrightarrow> S = []"
  by (cases S) (simp_all add: chars_Cons)

lemma chars_low: "b < 0xc0 \<Longrightarrow> chars (b # S) = ucast b # chars S"
  by (simp add: chars_Cons not_le [symmetric])

section \<open>Lemmas: sets\<close>

definition in_items :: "u32 \<Rightarrow> (u32 \<times> u32) list \<Rightarrow> bool" where
  "in_items c items \<longleftrightarrow> (\<exists>(lo, hi)\<in>set items. lo \<le> c \<and> c \<le> hi)"

lemma in_items_simps [simp]: "\<not> in_items c []" "in_items c ((lo, hi) # items) \<longleftrightarrow> lo \<le> c \<and> c \<le> hi \<or> in_items c items"
  by (auto simp: in_items_def)

text \<open>The result of the loop over a set agrees with the members parsed from the characters ahead.\<close>

definition set_result :: "u32 \<Rightarrow> bool \<Rightarrow> u8 list \<Rightarrow> nat \<Rightarrow> ((u32 \<times> u32) list \<times> u32 list) option \<Rightarrow> (u32 \<times> bool \<times> u8 list) option \<Rightarrow> bool" where
  "set_result c seen p n res out \<longleftrightarrow>
     (case res of None \<Rightarrow> \<exists>x. out = Some (0, x)
      | Some (items, r) \<Rightarrow> \<exists>P'. out = Some (0x5d, seen \<or> in_items c items, P' @ 0 # p) \<and> 0 \<notin> set P' \<and> chars P' = r \<and> length P' \<le> n)"

lemma set_result_item:
  "set_result c (seen \<or> lo \<le> c \<and> c \<le> hi) p k res out \<Longrightarrow> k \<le> n \<Longrightarrow> set_result c seen p n (add_item (lo, hi) res) out"
  by (auto simp: set_result_def add_item_def disj_assoc intro: le_trans split: option.splits)

lemma class_loop_correct:
  "0 \<notin> set P \<Longrightarrow> c2 \<noteq> 0 \<Longrightarrow>
   set_result c seen p (length P) (set_items prior (c2 # chars P)) (class_loop c c2 prior seen (P @ 0 # p))"
proof (induction "length P" arbitrary: P c2 seen prior rule: less_induct)
  case less
  have ended: "class_loop c 0 prior' seen' z = Some (0, seen', z)" for prior' seen' z by (simp add: class_loop.simps)
  have "next": "\<exists>c3 z. sqlite3Utf8Read (P1 @ 0 # p) = Some (c3, z) \<and> set_result c seen' p (length P1) (set_items prior' (chars P1)) (class_loop c c3 prior' seen' z)"
    if pr: "0 \<notin> set P1" "length P1 \<le> length P" for P1 prior' seen'
  proof (cases "P1 = []")
    case True
    then show ?thesis by (simp add: ended set_result_def)
  next
    case False
    then obtain e P2 where e: "steps P1 e P2" using steps_exist pr(1) by metis
    have "length P2 < length P" using steps_length [OF e] pr(2) by simp
    from less.hyps [OF this steps_rest [OF e] steps_char [OF e], of seen' prior'] show ?thesis
      using steps_length [OF e] unfolding steps_chars [OF e] steps_read [OF e] set_result_def
      by (fastforce split: option.splits)
  qed
  show ?case
  proof (cases "c2 = 0x5d")
    case True
    then have "set_items prior (c2 # chars P) = Some ([], chars P)" by (cases "chars P") simp_all
    with True less.prems show ?thesis by (simp add: class_loop.simps set_result_def)
  next
    case c2: False
    show ?thesis
    proof (cases "P = []")
      case True
      with c2 less.prems show ?thesis by (subst class_loop.simps) (simp add: ended set_result_def)
    next
      case False
      then obtain d P1 where d: "steps P d P1" using steps_exist less.prems(1) by metis
      obtain b where b: "peek (P @ 0 # p) = Some b" "b \<noteq> 0" "(b = 0x5d) = (d = 0x5d)" using steps_peek [OF d, of p "0x5d"] by auto
      show ?thesis
      proof (cases "c2 = 0x2d \<and> d \<noteq> 0x5d \<and> prior \<noteq> 0")
        case True
        obtain c3 z where z: "sqlite3Utf8Read (P1 @ 0 # p) = Some (c3, z)"
          "set_result c (seen \<or> prior \<le> c \<and> c \<le> d) p (length P1) (set_items 0 (chars P1)) (class_loop c c3 0 (seen \<or> prior \<le> c \<and> c \<le> d) z)"
          using "next" [OF steps_rest [OF d], of "seen \<or> prior \<le> c \<and> c \<le> d" 0] steps_length [OF d] by auto
        have "class_loop c c2 prior seen (P @ 0 # p) = class_loop c c3 0 (seen \<or> prior \<le> c \<and> c \<le> d) z"
          using True b by (subst class_loop.simps) (simp add: steps_read [OF d] z(1) word_neq_0_conv)
        moreover have "set_items prior (c2 # chars P) = add_item (prior, d) (set_items 0 (chars P1))"
          using True by (simp add: steps_chars [OF d])
        ultimately show ?thesis using set_result_item [OF z(2)] steps_length [OF d] by simp
      next
        case nr: False
        obtain c3 z where z: "sqlite3Utf8Read (P @ 0 # p) = Some (c3, z)"
          "set_result c (seen \<or> c = c2) p (length P) (set_items c2 (chars P)) (class_loop c c3 c2 (seen \<or> c = c2) z)"
          using "next" [OF less.prems(1) order_refl, of "seen \<or> c = c2" c2] by auto
        have "class_loop c c2 prior seen (P @ 0 # p) = class_loop c c3 c2 (seen \<or> c = c2) z"
          using nr b c2 less.prems(2) z(1) by (subst class_loop.simps) (auto simp: word_neq_0_conv)
        moreover have "set_items prior (c2 # chars P) = add_item (c2, c2) (set_items c2 (chars P))"
          using nr c2 by (auto simp: steps_chars [OF d])
        moreover have "(seen \<or> c = c2) = (seen \<or> c2 \<le> c \<and> c \<le> c2)" by auto
        ultimately show ?thesis using set_result_item [of c seen c2 c2] z(2) by simp
      qed
    qed
  qed
qed

text \<open>The members behind an optional \<open>^\<close>, of which the first may be \<open>]\<close>.\<close>

definition class_members :: "u32 \<Rightarrow> u32 \<Rightarrow> u8 list \<Rightarrow> (u32 \<times> bool \<times> u8 list) option" where
  "class_members c c2 z =
     do { (seen, c2, z) \<leftarrow> (if c2 = 0x5d then do { (c2, z) \<leftarrow> sqlite3Utf8Read z; Some (c = 0x5d, c2, z) } else Some (False, c2, z));
          class_loop c c2 0 seen z }"

lemma class_loop_end [simp]: "class_loop c 0 prior seen z = Some (0, seen, z)"
  by (simp add: class_loop.simps)

lemma class_members_end: "class_members c 0 z = Some (0, False, z)"
  by (simp add: class_members_def)

lemma class_members_correct:
  assumes "0 \<notin> set P" "c2 \<noteq> 0"
  shows "set_result c False p (length P) (closing_first (c2 # chars P)) (class_members c c2 (P @ 0 # p))"
proof (cases "c2 = 0x5d")
  case cl: True
  show ?thesis
  proof (cases "P = []")
    case True
    with cl show ?thesis by (simp add: class_members_def set_result_def add_item_def)
  next
    case False
    then obtain d P1 where d: "steps P d P1" using steps_exist assms(1) by metis
    have "class_members c c2 (P @ 0 # p) = class_loop c d 0 (c = 0x5d) (P1 @ 0 # p)" using cl by (simp add: class_members_def steps_read [OF d])
    moreover have "(c = 0x5d) = (False \<or> 0x5d \<le> c \<and> c \<le> 0x5d)" by auto
    ultimately show ?thesis
      using set_result_item [of c False "0x5d" "0x5d" p "length P1"] class_loop_correct [OF steps_rest [OF d] steps_char [OF d], of c "c = 0x5d" p 0]
        steps_length [OF d] cl by (simp add: steps_chars [OF d])
  qed
next
  case False
  with class_loop_correct [OF assms, of c False p 0] show ?thesis by (simp add: class_members_def)
qed

definition set_accepts :: "pat \<Rightarrow> u32 \<Rightarrow> bool" where
  "set_accepts pt c \<longleftrightarrow> (case pt of PSet invert items \<Rightarrow> in_items c items \<noteq> invert | _ \<Rightarrow> False)"

lemma match_set_end: "match_set zP (0 # s) = Some (False, zP, s)"
  by (simp add: match_set_def)

lemma match_set_correct:
  assumes P: "0 \<notin> set P" and S: "steps S c S'"
  shows "case parse_set (chars P) of
      None \<Rightarrow> \<exists>x. match_set (P @ 0 # p) (S @ 0 # s) = Some (False, x)
    | Some (pt, r) \<Rightarrow> \<exists>P'. match_set (P @ 0 # p) (S @ 0 # s) = Some (set_accepts pt c, P' @ 0 # p, S' @ 0 # s) \<and>
        0 \<notin> set P' \<and> chars P' = r \<and> length P' < length P"
proof -
  have ms: "match_set (P @ 0 # p) (S @ 0 # s) =
    do { (c2, z) \<leftarrow> sqlite3Utf8Read (P @ 0 # p);
         (invert, c2, z) \<leftarrow> (if c2 = 0x5e then do { (c2, z) \<leftarrow> sqlite3Utf8Read z; Some (True, c2, z) } else Some (False, c2, z));
         (c2, seen, z) \<leftarrow> class_members c c2 z;
         Some (\<not> (c2 = 0 \<or> seen = invert), z, S' @ 0 # s) }"
    unfolding match_set_def class_members_def by (simp add: steps_read [OF S] steps_char [OF S] bind_assoc split_def cong del: if_weak_cong)
  show ?thesis
  proof (cases "P = []")
    case True
    with class_members_end [of c p] ms show ?thesis by simp
  next
    case False
    then obtain d P1 where d: "steps P d P1" using steps_exist P by metis
    show ?thesis
    proof (cases "d = 0x5e")
      case inv: True
      show ?thesis
      proof (cases "P1 = []")
        case True
        with inv class_members_end [of c p] show ?thesis by (auto simp: ms steps_read [OF d] steps_chars [OF d])
      next
        case False
        then obtain e P2 where e: "steps P1 e P2" using steps_exist steps_rest [OF d] by metis
        have "length P2 < length P" using steps_length [OF d] steps_length [OF e] by simp
        then show ?thesis
          using class_members_correct [OF steps_rest [OF e] steps_char [OF e], of c p] inv
          by (auto simp: ms steps_read [OF d] steps_read [OF e] steps_chars [OF d] steps_chars [OF e] set_result_def set_accepts_def
              simp del: closing_first.simps split: option.splits)
      qed
    next
      case False
      with class_members_correct [OF steps_rest [OF d] steps_char [OF d], of c p] steps_length [OF d] show ?thesis
        by (auto simp: ms steps_read [OF d] steps_chars [OF d] set_result_def set_accepts_def
            simp del: closing_first.simps split: option.splits)
    qed
  qed
qed

section \<open>Lemmas: wildcards and searches\<close>

definition wild :: "compareInfo \<Rightarrow> u32 \<Rightarrow> bool" where
  "wild pInfo c \<longleftrightarrow> c = ucast (matchAll pInfo) \<or> c = ucast (matchOne pInfo)"

lemma good_wild:
  assumes "good_info pInfo esc"
  shows "\<not> wild pInfo 0" "(ucast (matchAll pInfo) :: u32) \<noteq> ucast (matchOne pInfo)"
    "c = matchOther pInfo esc \<Longrightarrow> \<not> wild pInfo c"
  using assms by (auto simp: good_info_def wild_def matchOther_def ucast_u8_eq u8_view split: if_splits)

text \<open>
  Where the loop over wildcards ends: at the end of the pattern, in the string, or at an ordinary character \<open>c\<close> between \<open>Q\<close> and \<open>P'\<close>.
\<close>

definition at_ordinary ::
  "compareInfo \<Rightarrow> u32 \<Rightarrow> u8 list \<Rightarrow> u8 list \<Rightarrow> u8 list \<Rightarrow> u8 list \<Rightarrow> (unit + u32 \<times> u8 list \<times> u8 list) option \<Rightarrow> bool" where
  "at_ordinary pInfo esc p s P S out \<longleftrightarrow>
     (\<exists>c X Q P' S'. out = Some (Inr (c, P' @ 0 # p, S' @ 0 # s)) \<and> P = X @ Q \<and> 0 \<notin> set S' \<and> steps Q c P' \<and> \<not> wild pInfo c \<and>
        set (chars Q) \<subseteq> set (chars P) \<and> (matches_some pInfo esc (chars P) (chars S) \<longleftrightarrow> matches_some pInfo esc (chars Q) (chars S')))"

lemma at_ordinary_prepend:
  assumes "at_ordinary pInfo esc p s P1 S1 out" "P = Y @ P1" "set (chars P1) \<subseteq> set (chars P)"
    and "matches_some pInfo esc (chars P) (chars S) \<longleftrightarrow> matches_some pInfo esc (chars P1) (chars S1)"
  shows "at_ordinary pInfo esc p s P S out"
proof -
  from assms(1) obtain c X Q P' S' where "out = Some (Inr (c, P' @ 0 # p, S' @ 0 # s))" "P1 = X @ Q" "0 \<notin> set S'" "steps Q c P'" "\<not> wild pInfo c"
    "set (chars Q) \<subseteq> set (chars P1)" "matches_some pInfo esc (chars P1) (chars S1) \<longleftrightarrow> matches_some pInfo esc (chars Q) (chars S')"
    by (auto simp: at_ordinary_def)
  with assms(2-) show ?thesis
    unfolding at_ordinary_def by (intro exI [of _ c] exI [of _ "Y @ X"] exI [of _ Q] exI [of _ P'] exI [of _ S']) auto
qed

lemma skip_wild_correct:
  assumes g: "good_info pInfo esc"
  shows "0 \<notin> set P \<Longrightarrow> 0 \<notin> set S \<Longrightarrow>
    skip_wild pInfo (P @ 0 # p) (S @ 0 # s) = Some (Inl ()) \<and> \<not> matches_some pInfo esc (chars P) (chars S) \<or>
    (\<exists>z. skip_wild pInfo (P @ 0 # p) (S @ 0 # s) = Some (Inr (0, p, z)) \<and> matches_some pInfo esc (chars P) (chars S)) \<or>
    at_ordinary pInfo esc p s P S (skip_wild pInfo (P @ 0 # p) (S @ 0 # s))"
    (is "_ \<Longrightarrow> _ \<Longrightarrow> ?goal P S")
proof (induction "length P" arbitrary: P S rule: less_induct)
  case less
  show ?case
  proof (cases "P = []")
    case True
    with good_wild(1) [OF g] show ?thesis by (subst (1 2 3) skip_wild.simps) (simp add: wild_def)
  next
    case False
    then obtain c P1 where c: "steps P c P1" using steps_exist less.prems(1) by metis
    show ?thesis
    proof (cases "wild pInfo c")
      case nw: False
      then have "skip_wild pInfo (P @ 0 # p) (S @ 0 # s) = Some (Inr (c, P1 @ 0 # p, S @ 0 # s))"
        by (subst skip_wild.simps) (simp add: steps_read [OF c] wild_def)
      with nw c less.prems(2) have "at_ordinary pInfo esc p s P S (skip_wild pInfo (P @ 0 # p) (S @ 0 # s))"
        unfolding at_ordinary_def by (intro exI [of _ c] exI [of _ "[]"] exI [of _ P] exI [of _ P1] exI [of _ S]) simp
      then show ?thesis by blast
    next
      case w: True
      have lift: "?goal P S" if eq: "skip_wild pInfo (P @ 0 # p) (S @ 0 # s) = skip_wild pInfo (P1 @ 0 # p) (S2 @ 0 # s)"
        and m: "matches_some pInfo esc (chars P) (chars S) \<longleftrightarrow> matches_some pInfo esc (chars P1) (chars S2)" and z: "0 \<notin> set S2" for S2
      proof -
        obtain Y where Y: "P = Y @ P1" using c unfolding steps_def by (metis append_Cons append_assoc)
        have sub: "set (chars P1) \<subseteq> set (chars P)" using steps_chars [OF c] by auto
        show ?thesis
          using less.hyps [OF steps_length [OF c] steps_rest [OF c] z] at_ordinary_prepend [OF _ Y sub m] unfolding eq m by blast
      qed
      show ?thesis
      proof (cases "c = ucast (matchOne pInfo)")
        case one: True
        show ?thesis
        proof (cases "S = []")
          case True
          then have "skip_wild pInfo (P @ 0 # p) (S @ 0 # s) = Some (Inl ())"
            using one by (subst skip_wild.simps) (simp add: steps_read [OF c])
          with True show ?thesis by (simp add: steps_chars [OF c] one matches_some_One [OF g])
        next
          case False
          then obtain d S1 where d: "steps S d S1" using steps_exist less.prems(2) by metis
          have "skip_wild pInfo (P @ 0 # p) (S @ 0 # s) = skip_wild pInfo (P1 @ 0 # p) (S1 @ 0 # s)"
            using one by (subst skip_wild.simps) (simp add: steps_read [OF c] steps_read [OF d] steps_char [OF d])
          then show ?thesis
            by (rule lift) (simp_all add: steps_chars [OF c] steps_chars [OF d] one matches_some_One [OF g] steps_rest [OF d])
        qed
      next
        case False
        then have a: "c = ucast (matchAll pInfo)" using w by (simp add: wild_def)
        have "skip_wild pInfo (P @ 0 # p) (S @ 0 # s) = skip_wild pInfo (P1 @ 0 # p) (S @ 0 # s)"
          using a False by (subst skip_wild.simps) (simp add: steps_read [OF c])
        then show ?thesis by (rule lift) (simp_all add: steps_chars [OF c] a matches_some_All less.prems(2))
      qed
    qed
  qed
qed

text \<open>
  The searches, for a recursive call that rest_answers as \<open>f\<close> on the characters that are left.
\<close>

definition rest_answers :: "(u8 list \<Rightarrow> bool option) \<Rightarrow> u8 list \<Rightarrow> (u32 list \<Rightarrow> bool) \<Rightarrow> bool" where
  "rest_answers rest s f \<longleftrightarrow> (\<forall>S. 0 \<notin> set S \<longrightarrow> rest (S @ 0 # s) = Some (f (chars S)))"

definition some_tail :: "(u32 list \<Rightarrow> bool) \<Rightarrow> u32 list \<Rightarrow> bool" where
  "some_tail f ss \<longleftrightarrow> (\<exists>k\<in>{0..length ss}. f (drop k ss))"

lemma some_tail_Nil [simp]: "some_tail f [] = f []"
  by (simp add: some_tail_def)

lemma some_tail_Cons: "some_tail f (c # ss) \<longleftrightarrow> f (c # ss) \<or> some_tail f ss"
proof -
  have "(\<exists>k\<in>{0..Suc n}. Q k) \<longleftrightarrow> Q 0 \<or> (\<exists>k\<in>{0..n}. Q (Suc k))" for n and Q :: "nat \<Rightarrow> bool"
    by (metis atLeastAtMost_iff le0 not0_implies_Suc Suc_le_mono)
  from this [of "length ss" "\<lambda>k. f (drop k (c # ss))"] show ?thesis by (simp add: some_tail_def)
qed

lemma search_set_correct:
  "rest_answers rest s f \<Longrightarrow> \<not> f [] \<Longrightarrow> 0 \<notin> set S \<Longrightarrow> search_set rest (S @ 0 # s) = Some (some_tail f (chars S))"
proof (induction "length S" arbitrary: S rule: less_induct)
  case less
  show ?case
  proof (cases "S = []")
    case True
    with less.prems(2) show ?thesis by (subst search_set.simps) simp
  next
    case False
    then obtain c S' where c: "steps S c S'" using steps_exist less.prems(3) by metis
    obtain b where b: "peek (S @ 0 # s) = Some b" "b \<noteq> 0" using steps_peek [OF c] by blast
    have r: "rest (S @ 0 # s) = Some (f (chars S))" using less.prems(1,3) by (simp add: rest_answers_def)
    show ?thesis
      using less.hyps [OF steps_length [OF c] less.prems(1,2) steps_rest [OF c]] b steps_length [OF c]
      by (subst search_set.simps) (auto simp: r steps_skip [OF c] steps_chars [OF c] some_tail_Cons split: bool.splits)
  qed
qed

lemma search_char_correct:
  "rest_answers rest s f \<Longrightarrow> 0 \<notin> set S \<Longrightarrow>
   search_char rest c (S @ 0 # s) = Some (some_tail (\<lambda>ss. ss \<noteq> [] \<and> hd ss = c \<and> f (tl ss)) (chars S))"
proof (induction "length S" arbitrary: S rule: less_induct)
  case less
  show ?case
  proof (cases "S = []")
    case True
    then show ?thesis by (subst search_char.simps) simp
  next
    case False
    then obtain d S' where d: "steps S d S'" using steps_exist less.prems(2) by metis
    have r: "rest (S' @ 0 # s) = Some (f (chars S'))" using less.prems(1) steps_rest [OF d] by (simp add: rest_answers_def)
    show ?thesis
      using less.hyps [OF steps_length [OF d] less.prems(1) steps_rest [OF d]]
      by (subst search_char.simps) (auto simp: r steps_read [OF d] steps_char [OF d] steps_chars [OF d] some_tail_Cons split: bool.splits)
  qed
qed

lemma search_byte_skip:
  "\<forall>x\<in>set X. x \<ge> 0x80 \<Longrightarrow> c < 0x80 \<Longrightarrow> cx < 0x80 \<Longrightarrow> search_byte rest c cx (X @ z) = search_byte rest c cx z"
proof (induction X)
  case (Cons x X)
  then have "\<not> (ucast x :: u32) < 0x80" by (simp add: u8_view not_less)
  with Cons show ?case by (auto simp: Let_def)
qed simp

lemma search_byte_correct:
  "c < 0x80 \<Longrightarrow> cx < 0x80 \<Longrightarrow> rest_answers rest s f \<Longrightarrow> 0 \<notin> set S \<Longrightarrow>
   search_byte rest c cx (S @ 0 # s) = Some (some_tail (\<lambda>ss. ss \<noteq> [] \<and> (hd ss = c \<or> hd ss = cx) \<and> f (tl ss)) (chars S))"
proof (induction "length S" arbitrary: S rule: less_induct)
  case less
  show ?case
  proof (cases "S = []")
    case True
    then show ?thesis by simp
  next
    case False
    then obtain d S' where d: "steps S d S'" using steps_exist less.prems(4) by metis
    have r: "rest (S' @ 0 # s) = Some (f (chars S'))" using less.prems(3) steps_rest [OF d] by (simp add: rest_answers_def)
    note ih = less.hyps [OF steps_length [OF d] less.prems(1-3) steps_rest [OF d]]
    from d obtain b X where b: "S = b # X @ S'" "b \<noteq> 0" "if d < 0x80 then b = ucast d \<and> X = [] else b \<ge> 0x80 \<and> (\<forall>x\<in>set X. x \<ge> 0x80)"
      by (auto simp: steps_def)
    show ?thesis
    proof (cases "d < 0x80")
      case True
      then have "d < 0x100" by (simp add: word_less_nat_alt)
      with True b have S: "S = ucast d # S'" "(ucast (ucast d :: u8) :: u32) = d" by (simp_all add: u32_view)
      show ?thesis
        using ih steps_char [OF d] unfolding steps_chars [OF d]
        by (auto simp: S r Let_def some_tail_Cons split: bool.splits)
    next
      case False
      then have "\<forall>x\<in>set (b # X). x \<ge> 0x80" "S = (b # X) @ S'" using b by auto
      then have "search_byte rest c cx (S @ 0 # s) = search_byte rest c cx (S' @ 0 # s)"
        using search_byte_skip [of "b # X" c cx rest "S' @ 0 # s"] less.prems(1,2) by simp
      with ih False less.prems(1,2) show ?thesis unfolding steps_chars [OF d] by (auto simp: some_tail_Cons)
    qed
  qed
qed

text \<open>A character below 128 and its other case.\<close>

lemma lower_nat: "unat a < 128 \<Longrightarrow> unat (UpperToLower a) = (if 65 \<le> unat a \<and> unat a \<le> 90 then unat a + 32 else unat a)"
  and upper_nat: "unat a < 128 \<Longrightarrow> unat (sqlite3Toupper a) = (if 97 \<le> unat a \<and> unat a \<le> 122 then unat a - 32 else unat a)"
  for a :: u8
  by (simp_all add: UpperToLower_eq class_ranges word_le_nat_alt unat_word_ariths unat_sub)

lemma case_pair:
  fixes c d :: u32
  assumes "c < 0x80"
  shows "lower c < 0x80" "upper c < 0x80" "d = lower c \<or> d = upper c \<longleftrightarrow> c = d \<or> d < 0x80 \<and> lower c = lower d"
proof -
  let ?a = "ucast c :: u8"
  have c: "unat ?a = unat c" "unat c < 128" using assms u32_view(1) [of c] by (simp_all add: word_less_nat_alt)
  have lu: "unat (lower x) = unat (UpperToLower (ucast x))" "unat (upper x) = unat (sqlite3Toupper (ucast x))" for x
    by (simp_all only: lower_def upper_def unat_u8)
  show low: "lower c < 0x80" "upper c < 0x80" using c lower_nat [of ?a] upper_nat [of ?a] by (auto simp: word_less_nat_alt lu)
  show "d = lower c \<or> d = upper c \<longleftrightarrow> c = d \<or> d < 0x80 \<and> lower c = lower d"
  proof (cases "d < 0x80")
    case True
    then have d: "unat (ucast d :: u8) = unat d" "unat d < 128" using u32_view(1) [of d] by (simp_all add: word_less_nat_alt)
    show ?thesis
      using True lower_nat [of ?a] upper_nat [of ?a] lower_nat [of "ucast d"] c d by (auto simp: word_unat_eq_iff lu split: if_splits)
  next
    case False
    then show ?thesis using low assms by auto
  qed
qed

lemma lower_zero: "x < 0x80 \<Longrightarrow> lower x = lower 0 \<Longrightarrow> x = 0" for x :: u32
  using case_pair(3) [of 0 x] by (auto simp: lower_def upper_def class_ranges)

lemma same_char_cases:
  fixes c d :: u32
  shows "c < 0x80 \<Longrightarrow> d = (if noCase pInfo then lower c else c) \<or> d = (if noCase pInfo then upper c else c) \<longleftrightarrow> same_char pInfo c d"
    "\<not> c < 0x80 \<Longrightarrow> d = c \<longleftrightarrow> same_char pInfo c d"
  using case_pair(3) [of c d] by (auto simp: same_char_def)

lemma search_correct:
  assumes "rest_answers rest s f" "0 \<notin> set S" "c \<noteq> 0x80"
  shows "(if c \<le> 0x80 then search_byte rest (if noCase pInfo then lower c else c) (if noCase pInfo then upper c else c) (S @ 0 # s)
      else search_char rest c (S @ 0 # s)) =
    Some (some_tail (\<lambda>ss. ss \<noteq> [] \<and> same_char pInfo c (hd ss) \<and> f (tl ss)) (chars S))"
proof (cases "c < 0x80")
  case True
  then have "c \<le> 0x80" by simp
  then show ?thesis
    using search_byte_correct [OF _ _ assms(1,2), of "if noCase pInfo then lower c else c" "if noCase pInfo then upper c else c"]
      case_pair(1,2) [OF True] True by (simp add: same_char_cases(1) [OF True] del: if_split)
next
  case False
  then have "\<not> c \<le> 0x80" using assms(3) by (simp add: order.order_iff_strict)
  then show ?thesis using search_char_correct [OF assms(1,2), of c] by (simp add: same_char_cases(2) [OF False, symmetric])
qed

lemma matches_some_tail: "matches_some pInfo esc cs = some_tail (matches pInfo esc cs)"
  by (rule ext) (simp add: matches_some_def some_tail_def)

section \<open>Lemmas: the main loop\<close>

lemma rest_answersI: "(\<And>S. 0 \<notin> set S \<Longrightarrow> rest (S @ 0 # s) = Some (f (chars S))) \<Longrightarrow> rest_answers rest s f"
  by (simp add: rest_answers_def)

lemma parse_set_PSet: "parse_set cs = Some (pt, r) \<Longrightarrow> \<exists>inv items. pt = PSet inv items"
  by (cases cs) (auto simp del: closing_first.simps split: if_splits)

lemma matches_Set_Nil: "good_info pInfo 0 \<Longrightarrow> \<not> matches pInfo 0 (ucast (matchSet pInfo) # cs) []"
  by (auto simp: matches_Set dest!: parse_set_PSet split: option.splits)

lemma matches_Set_Cons:
  "good_info pInfo 0 \<Longrightarrow> matches pInfo 0 (ucast (matchSet pInfo) # cs) (d # ss) \<longleftrightarrow>
    (case parse_set cs of None \<Rightarrow> False | Some (pt, r) \<Rightarrow> set_accepts pt d \<and> matches pInfo 0 r ss)"
  by (auto simp: matches_Set set_accepts_def in_items_def dest!: parse_set_PSet split: option.splits)

text \<open>The search behind the wildcards, with the recursive calls on the rest of the pattern already known to be correct.\<close>

lemma star_correct:
  assumes g: "good_info pInfo esc" and z: "0 \<notin> set P1" "0 \<notin> set S" and n80: "0x80 \<notin> set (chars P1)"
    and ih: "\<And>Q S. length Q \<le> length P1 \<Longrightarrow> 0 \<notin> set Q \<Longrightarrow> 0 \<notin> set S \<Longrightarrow> 0x80 \<notin> set (chars Q) \<Longrightarrow>
      pattern_loop pInfo esc None (Q @ 0 # p) (S @ 0 # s) = Some (matches pInfo esc (chars Q) (chars S))"
    and c: "sqlite3Utf8Read zPattern = Some (c, P1 @ 0 # p)" "c \<noteq> 0" "c = ucast (matchAll pInfo)"
  shows "pattern_loop pInfo esc e zPattern (S @ 0 # s) = Some (matches_some pInfo esc (chars P1) (chars S))"
  using skip_wild_correct [OF g z, of p s]
proof (elim disjE exE conjE)
  assume "skip_wild pInfo (P1 @ 0 # p) (S @ 0 # s) = Some (Inl ())" "\<not> matches_some pInfo esc (chars P1) (chars S)"
  then show ?thesis by (subst pattern_loop.simps) (use c in simp)
next
  fix y assume "skip_wild pInfo (P1 @ 0 # p) (S @ 0 # s) = Some (Inr (0, p, y))" "matches_some pInfo esc (chars P1) (chars S)"
  then show ?thesis by (subst pattern_loop.simps) (use c in simp)
next
  assume "at_ordinary pInfo esc p s P1 S (skip_wild pInfo (P1 @ 0 # p) (S @ 0 # s))"
  then obtain d X Q P' S' where sk: "skip_wild pInfo (P1 @ 0 # p) (S @ 0 # s) = Some (Inr (d, P' @ 0 # p, S' @ 0 # s))"
    and Q: "P1 = X @ Q" "steps Q d P'" "\<not> wild pInfo d" "set (chars Q) \<subseteq> set (chars P1)" and S': "0 \<notin> set S'"
    and m: "matches_some pInfo esc (chars P1) (chars S) \<longleftrightarrow> matches_some pInfo esc (chars Q) (chars S')"
    by (auto simp: at_ordinary_def)
  have len: "length P' < length Q" "length Q \<le> length P1" using steps_length [OF Q(2)] Q(1) by simp_all
  have q: "0 \<notin> set Q" "0x80 \<notin> set (chars Q)" "0x80 \<notin> set (chars P')" "d \<noteq> 0" "d \<noteq> 0x80"
    using z(1) n80 Q steps_chars [OF Q(2)] steps_char [OF Q(2)] by auto
  have cl: "pattern_loop pInfo esc e zPattern (S @ 0 # s) =
      (if d = matchOther pInfo esc \<and> esc = 0 then search_set (\<lambda>s. pattern_loop pInfo esc None (back1 (P1 @ 0 # p) (P' @ 0 # p)) s) (S' @ 0 # s)
       else (case (if d = matchOther pInfo esc then sqlite3Utf8Read (P' @ 0 # p) else Some (d, P' @ 0 # p)) of None \<Rightarrow> None
             | Some (c, zP'') \<Rightarrow>
                 if c = 0 then Some False
                 else if c \<le> 0x80 then
                   search_byte (\<lambda>s. pattern_loop pInfo esc None zP'' s)
                     (if noCase pInfo then lower c else c) (if noCase pInfo then upper c else c) (S' @ 0 # s)
                 else search_char (\<lambda>s. pattern_loop pInfo esc None zP'' s) c (S' @ 0 # s)))"
    using c sk len q(4) by (subst pattern_loop.simps) simp
  have lit: "(if c \<le> 0x80 then
               search_byte (\<lambda>s. pattern_loop pInfo esc None (R @ 0 # p) s)
                 (if noCase pInfo then lower c else c) (if noCase pInfo then upper c else c) (S' @ 0 # s)
             else search_char (\<lambda>s. pattern_loop pInfo esc None (R @ 0 # p) s) c (S' @ 0 # s)) =
      Some (some_tail (\<lambda>ss. ss \<noteq> [] \<and> same_char pInfo c (hd ss) \<and> matches pInfo esc (chars R) (tl ss)) (chars S'))"
    if "length R \<le> length P1" "0 \<notin> set R" "0x80 \<notin> set (chars R)" "c \<noteq> 0x80" for R c
    using that ih by (intro search_correct S' rest_answersI) auto
  consider (set) "d = matchOther pInfo esc" "esc = 0" | (escaped) "d = matchOther pInfo esc" "esc \<noteq> 0" | (literal) "d \<noteq> matchOther pInfo esc" by blast
  then show ?thesis
  proof cases
    case set
    then have d: "d = ucast (matchSet pInfo)" "d < 0x80" using g by (simp_all add: matchOther_def good_info_def u8_view)
    have b: "back1 (P1 @ 0 # p) (P' @ 0 # p) = Q @ 0 # p" using steps_low [OF Q(2) d(2)] by (simp add: back1_def Q(1))
    have "rest_answers (\<lambda>s. pattern_loop pInfo esc None (Q @ 0 # p) s) s (matches pInfo esc (chars Q))"
      using ih len(2) q by (intro rest_answersI) auto
    moreover have "\<not> matches pInfo esc (chars Q) []" using matches_Set_Nil g set(2) by (simp add: steps_chars [OF Q(2)] d(1))
    ultimately show ?thesis
      unfolding cl b m unfolding matches_some_tail using set search_set_correct S' by simp
  next
    case escaped
    then have d: "d = esc" by (simp add: matchOther_def)
    show ?thesis
    proof (cases "P' = []")
      case True
      have "\<not> some_tail (matches pInfo esc [esc]) ss" for ss
        using matches_Esc [OF g escaped(2), of "[]"] by (simp add: some_tail_def)
      with True escaped show ?thesis unfolding cl m unfolding matches_some_tail by (simp add: steps_chars [OF Q(2)] d)
    next
      case False
      then obtain x R where x: "steps P' x R" using steps_exist steps_rest [OF Q(2)] by metis
      have r: "length R \<le> length P1" "0 \<notin> set R" "0x80 \<notin> set (chars R)" "x \<noteq> 0x80" "x \<noteq> 0"
        using steps_length [OF x] len steps_rest [OF x] q(3) steps_chars [OF x] steps_char [OF x] by auto
      have "matches pInfo esc (chars Q) = (\<lambda>ss. ss \<noteq> [] \<and> same_char pInfo x (hd ss) \<and> matches pInfo esc (chars R) (tl ss))"
        using matches_Esc [OF g escaped(2)] by (intro ext) (simp add: steps_chars [OF Q(2)] steps_chars [OF x] d)
      with lit [OF r(1-4)] r(5) escaped show ?thesis
        unfolding cl m unfolding matches_some_tail by (simp add: steps_read [OF x])
    qed
  next
    case literal
    have "matches pInfo esc (chars Q) = (\<lambda>ss. ss \<noteq> [] \<and> same_char pInfo d (hd ss) \<and> matches pInfo esc (chars P') (tl ss))"
      using matches_Lit [of d pInfo esc] literal Q(3) by (intro ext) (simp add: steps_chars [OF Q(2)] wild_def)
    moreover have "length P' \<le> length P1" using len by simp
    ultimately show ?thesis
      unfolding cl m unfolding matches_some_tail using lit [OF _ steps_rest [OF Q(2)] q(3,5)] literal q(4) by simp
  qed
qed

lemma pattern_loop_correct:
  assumes g: "good_info pInfo esc"
  shows "0 \<notin> set P \<Longrightarrow> 0 \<notin> set S \<Longrightarrow> 0x80 \<notin> set (chars P) \<Longrightarrow> (case e of None \<Rightarrow> True | Some z \<Rightarrow> length (P @ 0 # p) \<le> length z) \<Longrightarrow>
    pattern_loop pInfo esc e (P @ 0 # p) (S @ 0 # s) = Some (matches pInfo esc (chars P) (chars S))"
proof (induction "length P" arbitrary: P S e rule: less_induct)
  case less
  show ?case
  proof (cases "P = []")
    case True
    obtain b where "peek (S @ 0 # s) = Some b" "b = 0 \<longleftrightarrow> S = []" using less.prems(2) by (cases S) auto
    with True show ?thesis by (subst pattern_loop.simps) (simp add: chars_eq_Nil)
  next
    case False
    then obtain c P1 where c: "steps P c P1" using steps_exist less.prems(1) by metis
    note P1 = steps_length [OF c] steps_rest [OF c]
    have n80: "0x80 \<notin> set (chars P1)" "c \<noteq> 0x80" using less.prems(3) by (auto simp: steps_chars [OF c])
    show ?thesis
    proof (cases "c = ucast (matchAll pInfo)")
      case True
      have "pattern_loop pInfo esc e (P @ 0 # p) (S @ 0 # s) = Some (matches_some pInfo esc (chars P1) (chars S))"
        using star_correct [OF g P1(2) less.prems(2) n80(1) _ steps_read [OF c] steps_char [OF c] True] less.hyps P1(1) by simp
      then show ?thesis by (simp add: steps_chars [OF c] matches_All True)
    next
      case na: False
      show ?thesis
      proof (cases "c = matchOther pInfo esc \<and> esc = 0")
        case set: True
        then have cs: "c = ucast (matchSet pInfo)" by (simp add: matchOther_def)
        show ?thesis
        proof (cases "S = []")
          case True
          have "\<not> matches pInfo esc (c # chars P1) []" by (metis matches_Set_Nil set g cs)
          with True set na show ?thesis using steps_char [OF c]
            by (subst pattern_loop.simps) (simp add: steps_read [OF c] steps_chars [OF c] match_set_end)
        next
          case False
          then obtain d S1 where d: "steps S d S1" using steps_exist less.prems(2) by metis
          show ?thesis
          proof (cases "parse_set (chars P1)")
            case None
            with match_set_correct [OF P1(2) d, of p s] obtain x where "match_set (P1 @ 0 # p) (S @ 0 # s) = Some (False, x)" by auto
            with None set na show ?thesis using matches_Set_Cons [of pInfo "chars P1"] g steps_char [OF c]
              by (subst pattern_loop.simps) (cases x, simp add: steps_read [OF c] steps_chars [OF c] steps_chars [OF d] cs)
          next
            case (Some a)
            then obtain pt r where pr: "parse_set (chars P1) = Some (pt, r)" by (cases a) auto
            with match_set_correct [OF P1(2) d, of p s] obtain P' where ms: "match_set (P1 @ 0 # p) (S @ 0 # s) = Some (set_accepts pt d, P' @ 0 # p, S1 @ 0 # s)"
              and P': "0 \<notin> set P'" "chars P' = r" "length P' < length P1" by auto
            have sub: "0x80 \<notin> set (chars P')" using n80(1) parse_set_suffix [OF pr] P'(2) by auto
            have ih: "pattern_loop pInfo esc e (P' @ 0 # p) (S1 @ 0 # s) = Some (matches pInfo esc (chars P') (chars S1))"
              using less.hyps [of P' S1 e] P' P1 sub steps_rest [OF d] less.prems(4) by (auto split: option.splits)
            show ?thesis using ms ih pr P' set na matches_Set_Cons [of pInfo "chars P1"] g steps_char [OF c]
              by (subst pattern_loop.simps) (simp add: steps_read [OF c] steps_chars [OF c] steps_chars [OF d] cs)
          qed
        qed
      next
        case ns: False
        have turn: "(case sqlite3Utf8Read (S @ 0 # s) of None \<Rightarrow> None
             | Some (c2, zS) \<Rightarrow>
                 if x = c2 \<or> noCase pInfo \<and> x < 0x80 \<and> c2 < 0x80 \<and> lower x = lower c2 \<or>
                    x = ucast (matchOne pInfo) \<and> Some (R @ 0 # p) \<noteq> zE \<and> c2 \<noteq> 0
                 then pattern_loop pInfo esc zE (R @ 0 # p) zS else Some False) =
            Some (chars S \<noteq> [] \<and> (same_char pInfo x (hd (chars S)) \<or> x = ucast (matchOne pInfo) \<and> Some (R @ 0 # p) \<noteq> zE) \<and>
              matches pInfo esc (chars R) (tl (chars S)))"
          if x: "x \<noteq> 0" and R: "length R < length P" "0 \<notin> set R" "0x80 \<notin> set (chars R)"
            and zE: "case zE of None \<Rightarrow> True | Some z \<Rightarrow> length (R @ 0 # p) \<le> length z" for x R zE
        proof (cases "S = []")
          case True
          have "lower x \<noteq> lower 0" if "x < 0x80" using lower_zero [OF that] x by auto
          then have "\<not> (x < 0x80 \<and> lower x = lower 0)" by blast
          with True x show ?thesis by auto
        next
          case False
          then obtain d S1 where d: "steps S d S1" using steps_exist less.prems(2) by metis
          show ?thesis using less.hyps [OF R(1,2) steps_rest [OF d] R(3) zE] steps_char [OF d]
            by (auto simp: steps_read [OF d] steps_chars [OF d] same_char_def)
        qed
        show ?thesis
        proof (cases "c = matchOther pInfo esc")
          case True
          with ns have e: "c = esc" "esc \<noteq> 0" by (auto simp: matchOther_def)
          show ?thesis
          proof (cases "P1 = []")
            case True
            then show ?thesis using ns na e matches_Esc [OF g e(2), of "[]"]
              by (subst pattern_loop.simps) (simp add: steps_read [OF c] steps_chars [OF c] matchOther_def)
          next
            case False
            then obtain x R where x: "steps P1 x R" using steps_exist P1(2) by metis
            have R: "length R < length P" "0x80 \<notin> set (chars R)" using steps_length [OF x] P1(1) n80(1) steps_chars [OF x] by auto
            show ?thesis using ns na e steps_char [OF x] turn [OF steps_char [OF x] R(1) steps_rest [OF x] R(2), of "Some (R @ 0 # p)"]
              by (subst pattern_loop.simps)
                (simp add: steps_read [OF c] steps_read [OF x] matchOther_def steps_chars [OF c] steps_chars [OF x] matches_Esc [OF g e(2)])
          qed
        next
          case False
          have "Some (P1 @ 0 # p) \<noteq> e" "case e of None \<Rightarrow> True | Some z \<Rightarrow> length (P1 @ 0 # p) \<le> length z"
            using less.prems(4) P1(1) by (auto split: option.splits)
          then have "pattern_loop pInfo esc e (P @ 0 # p) (S @ 0 # s) =
              Some (chars S \<noteq> [] \<and> (same_char pInfo c (hd (chars S)) \<or> c = ucast (matchOne pInfo)) \<and> matches pInfo esc (chars P1) (tl (chars S)))"
            using ns na False steps_char [OF c] turn [OF steps_char [OF c] P1 n80(1), of e]
            by (subst pattern_loop.simps) (simp add: steps_read [OF c])
          then show ?thesis
            using False na matches_One [OF g] matches_Lit [of c pInfo esc] by (auto simp: steps_chars [OF c])
        qed
      qed
    qed
  qed
qed

section \<open>Lemmas: the SQL function\<close>

text \<open>The text of a value as far as C sees it, and its characters.\<close>

definition c_chars :: "u8 list \<Rightarrow> u32 list" where
  "c_chars z = chars (takeWhile (\<lambda>b. b \<noteq> 0) z)"

lemma c_string: "\<exists>t. z @ [0] = takeWhile (\<lambda>b. b \<noteq> 0) z @ 0 # t" for z :: "u8 list"
proof (cases "0 \<in> set z")
  case True
  then have "dropWhile (\<lambda>b. b \<noteq> 0) z \<noteq> []" by (simp add: dropWhile_eq_Nil_conv)
  then have "dropWhile (\<lambda>b. b \<noteq> 0) z = 0 # tl (dropWhile (\<lambda>b. b \<noteq> 0) z)"
    using hd_dropWhile [of "\<lambda>b. b \<noteq> 0" z] by (cases "dropWhile (\<lambda>b. b \<noteq> 0) z") auto
  then have "z @ [0] = takeWhile (\<lambda>b. b \<noteq> 0) z @ 0 # tl (dropWhile (\<lambda>b. b \<noteq> 0) z) @ [0]"
    by (metis append_Cons append_assoc takeWhile_dropWhile_id)
  then show ?thesis by blast
next
  case False
  then have z: "takeWhile (\<lambda>b. b \<noteq> 0) z = z" by (auto simp: takeWhile_eq_all_conv)
  show ?thesis unfolding z by blast
qed

lemma no_zero_before: "0 \<notin> set (takeWhile (\<lambda>b. b \<noteq> 0) z)" for z :: "u8 list"
  by (auto dest: set_takeWhileD)

lemma patternCompare_correct:
  assumes "good_info pInfo esc" "0x80 \<notin> set (c_chars P)"
  shows "patternCompare (P @ [0]) (S @ [0]) pInfo esc = Some (matches pInfo esc (c_chars P) (c_chars S))"
proof -
  obtain p s where "P @ [0] = takeWhile (\<lambda>b. b \<noteq> 0) P @ 0 # p" "S @ [0] = takeWhile (\<lambda>b. b \<noteq> 0) S @ 0 # s"
    using c_string by metis
  with assms show ?thesis
    by (simp add: patternCompare_def c_chars_def pattern_loop_correct no_zero_before)
qed

lemma CharLen_terminated: "sqlite3Utf8CharLen (z @ [0]) (- 1) = Some (length (c_chars z))"
proof -
  obtain t where "z @ [0] = takeWhile (\<lambda>b. b \<noteq> 0) z @ 0 # t" using c_string by metis
  then show ?thesis
    by (simp add: sqlite3Utf8CharLen_def c_chars_def charlen_loop_eq no_zero_before)
qed

lemma read_first: "length (c_chars z) = 1 \<Longrightarrow> \<exists>r. sqlite3Utf8Read (z @ [0]) = Some (hd (c_chars z), r)"
proof -
  assume l: "length (c_chars z) = 1"
  obtain t where t: "z @ [0] = takeWhile (\<lambda>b. b \<noteq> 0) z @ 0 # t" using c_string by metis
  have "takeWhile (\<lambda>b. b \<noteq> 0) z \<noteq> []" using l by (auto simp: c_chars_def)
  then obtain c S' where "steps (takeWhile (\<lambda>b. b \<noteq> 0) z) c S'" using steps_exist no_zero_before by metis
  then show ?thesis unfolding t c_chars_def by (simp add: steps_read steps_chars)
qed

lemma good_infos:
  assumes "pInfo \<in> {globInfo, likeInfoNorm, likeInfoAlt}" "esc \<notin> {ucast (matchAll pInfo), ucast (matchOne pInfo)}"
  shows "good_info pInfo esc"
  using assms by (auto simp: good_info_def globInfo_def likeInfoNorm_def likeInfoAlt_def)

lemma strglob_correct:
  "0x80 \<notin> set (c_chars P) \<Longrightarrow> sqlite3_strglob P S = Some (of_bool (\<not> matches globInfo 0 (c_chars P) (c_chars S)))"
  by (simp add: sqlite3_strglob_def patternCompare_correct good_infos globInfo_def)

text \<open>C23: LIKE and GLOB decide exactly whether the string matches the pattern: \<open>likeFunc\<close>, which compares bytes with pointers, lookahead, a
search for the first literal behind a wildcard and recursion, returns for every pattern \<open>P\<close> and string \<open>S\<close> whether the characters of
\<open>S\<close> can be divided among the elements of \<open>P\<close> (any sequence, one character, a set, a literal up to the case of ASCII letters for LIKE); it
refuses patterns above the limit and escape texts that are not one character, and never reads behind a text. The pattern does not have the
character U+0080 and the escape character is not a wildcard, where the code deviates.\<close>

theorem likeFunc_decides_match:
  assumes "pInfo \<in> {globInfo, likeInfoNorm, likeInfoAlt}" "0x80 \<notin> set (c_chars P)"
    and "\<And>e. esc = Some e \<Longrightarrow> c_chars e \<notin> {[ucast (matchAll pInfo)], [ucast (matchOne pInfo)]}"
  shows "likeFunc pInfo limit ([Some P, Some S] @ (case esc of None \<Rightarrow> [] | Some e \<Rightarrow> [Some e])) = Some
    (if length P > limit then ResultError ''LIKE or GLOB pattern too complex''
     else case esc of
       None \<Rightarrow> ResultInt (of_bool (matches pInfo 0 (c_chars P) (c_chars S)))
     | Some e \<Rightarrow>
         if length (c_chars e) = 1 then ResultInt (of_bool (matches pInfo (hd (c_chars e)) (c_chars P) (c_chars S)))
         else ResultError ''ESCAPE expression must be a single character'')"
proof (cases esc)
  case None
  have "good_info pInfo 0" using assms(1) by (auto intro!: good_infos simp: globInfo_def likeInfoNorm_def likeInfoAlt_def)
  with None assms(2) show ?thesis by (simp add: likeFunc_def Let_def patternCompare_correct)
next
  case (Some e)
  show ?thesis
  proof (cases "length (c_chars e) = 1")
    case True
    then have "c_chars e = [hd (c_chars e)]" by (cases "c_chars e") auto
    then have "good_info pInfo (hd (c_chars e))" using assms(1) assms(3) [OF Some] by (intro good_infos) auto
    with Some assms(2) read_first [OF True] True show ?thesis
      by (auto simp: likeFunc_def Let_def patternCompare_correct CharLen_terminated)
  next
    case False
    with Some show ?thesis by (simp add: likeFunc_def Let_def CharLen_terminated)
  qed
qed

text \<open>\<open>'a_Bc' LIKE 'A!_%C' ESCAPE '!'\<close>: the escaped wildcard is a literal and letters match without case.\<close>

lemma likeFunc_decides_match_witness:
  "likeFunc likeInfoNorm 50000 [Some [0x41, 0x21, 0x5f, 0x25, 0x43], Some [0x61, 0x5f, 0x42, 0x63], Some [0x21]] = Some (ResultInt 1)"
proof -
  have "c_chars [0x41, 0x21, 0x5f, 0x25, 0x43] = [0x41, 0x21, 0x5f, 0x25, 0x43]" "c_chars [0x61, 0x5f, 0x42, 0x63] = [0x61, 0x5f, 0x42, 0x63]"
    "c_chars [0x21] = [0x21]" by (simp_all add: c_chars_def chars_Cons)
  moreover have "matches likeInfoNorm 0x21 [0x41, 0x21, 0x5f, 0x25, 0x43] [0x61, 0x5f, 0x42, 0x63]" by code_simp
  ultimately show ?thesis
    using likeFunc_decides_match [where pInfo = likeInfoNorm and limit = 50000 and P = "[0x41, 0x21, 0x5f, 0x25, 0x43]"
        and S = "[0x61, 0x5f, 0x42, 0x63]" and esc = "Some [0x21]"]
    by (simp add: likeInfoNorm_def)
qed

text \<open>Behind a \<open>%\<close> the character U+0080 is searched as a byte, which occurs inside other characters: the letter U+00C0 matches.\<close>

lemma search_for_u0080:
  "likeFunc likeInfoNorm 50000 [Some [0x25, 0xC2, 0x80], Some [0xC3, 0x80]] = Some (ResultInt 1) \<and>
   \<not> matches likeInfoNorm 0 (c_chars [0x25, 0xC2, 0x80]) (c_chars [0xC3, 0x80])"
proof -
  have read: "sqlite3Utf8Read [0x25, 0xC2, 0x80, 0] = Some (0x25, [0xC2, 0x80, 0])" "sqlite3Utf8Read [0xC2, 0x80, 0] = Some (0x80, [0])"
    by (simp_all add: sqlite3Utf8Read.simps is_trail_iff add_trail_def utf8_checked_def sqlite3Utf8Trans1_def push_bit_eq_mult)
  have case_80: "lower 0x80 = 0x80" "upper 0x80 = 0x80" by (simp_all add: lower_def upper_def UpperToLower_eq class_ranges)
  have "pattern_loop likeInfoNorm 0 None [0] [0] = Some True" by (subst pattern_loop.simps) simp
  moreover have "skip_wild likeInfoNorm [0xC2, 0x80, 0] [0xC3, 0x80, 0] = Some (Inr (0x80, [0], [0xC3, 0x80, 0]))"
    by (subst skip_wild.simps) (simp only: read, simp add: likeInfoNorm_def)
  ultimately have "pattern_loop likeInfoNorm 0 None [0x25, 0xC2, 0x80, 0] [0xC3, 0x80, 0] = Some True"
    by (subst pattern_loop.simps) (simp only: read, simp add: likeInfoNorm_def matchOther_def case_80 del: sqlite3Utf8Read.simps)
  then have "likeFunc likeInfoNorm 50000 [Some [0x25, 0xC2, 0x80], Some [0xC3, 0x80]] = Some (ResultInt 1)"
    by (simp add: likeFunc_def patternCompare_def)
  moreover have "c_chars [0x25, 0xC2, 0x80] = [0x25, 0x80]" "c_chars [0xC3, 0x80] = [0xC0]"
    by (simp_all add: c_chars_def chars_Cons is_trail_iff add_trail_def utf8_checked_def sqlite3Utf8Trans1_def push_bit_eq_mult)
  moreover have "\<not> matches likeInfoNorm 0 [0x25, 0x80] [0xC0]"
    by (auto simp: matches_def likeInfoNorm_def same_char_def not_less_eq_eq [symmetric] drop_Cons split: nat.splits)
  ultimately show ?thesis by simp
qed

text \<open>A wildcard given as the escape character still acts as a wildcard.\<close>

lemma wildcard_escape:
  "likeFunc likeInfoNorm 50000 [Some [0x25, 0x25], Some [0x61], Some [0x25]] = Some (ResultInt 1)"
proof -
  have wild: "ucast (matchAll likeInfoNorm) = (0x25 :: u32)" "ucast (matchOne likeInfoNorm) = (0x5f :: u32)"
    by (simp_all add: likeInfoNorm_def)
  have at_end: "skip_wild likeInfoNorm [0] [0x61, 0] = Some (Inr (0, [], [0x61, 0]))"
    by (subst skip_wild.simps) (simp add: wild)
  have "skip_wild likeInfoNorm [0x25, 0] [0x61, 0] = Some (Inr (0, [], [0x61, 0]))"
    by (subst skip_wild.simps) (simp add: wild at_end sqlite3Utf8Read.simps)
  then have "pattern_loop likeInfoNorm 0x25 None [0x25, 0x25, 0] [0x61, 0] = Some True"
    by (simp add: pattern_loop.simps [of likeInfoNorm "0x25" None "[0x25, 0x25, 0]"] wild sqlite3Utf8Read.simps)
  then show ?thesis
    by (simp add: likeFunc_def patternCompare_def CharLen_terminated [of "[0x25]", simplified] c_chars_def chars_Cons sqlite3Utf8Read.simps)
qed

end
