(* ===== verification/Record_Compare.thy ===== *)
theory Record_Compare
  imports Record_Format
begin

text \<open>
  The comparison of index keys (vdbeaux.c): \<open>sqlite3MemCompare\<close> for two cells, the comparison of a serialised record
  with an unpacked one without decoding it first, and the two specialised versions that \<open>sqlite3VdbeFindCompare\<close>
  selects for keys whose first column is an integer or a text in binary order. All of them are shown to implement
  one order on rows of values: NULL before numbers before texts before blobs.
\<close>

section \<open>Comparing values\<close>

fun memcmp :: "u8 list \<Rightarrow> u8 list \<Rightarrow> nat \<Rightarrow> int" where
  "memcmp (a # as) (b # bs) (Suc n) = (if a = b then memcmp as bs n else if a < b then -1 else 1)"
| "memcmp _ _ _ = 0"

definition vdbeCompareMemString :: "Mem \<Rightarrow> Mem \<Rightarrow> (u8 list \<Rightarrow> u8 list \<Rightarrow> int) \<Rightarrow> int" where
  "vdbeCompareMemString pMem1 pMem2 xCmp = xCmp (take (mem_n pMem1) (mem_z pMem1)) (take (mem_n pMem2) (mem_z pMem2))"

definition sqlite3BlobCompare :: "Mem \<Rightarrow> Mem \<Rightarrow> int" where
  "sqlite3BlobCompare pB1 pB2 =
     (let c = memcmp (mem_z pB1) (mem_z pB2) (if mem_n pB1 > mem_n pB2 then mem_n pB2 else mem_n pB1) in
      if c \<noteq> 0 then c else int (mem_n pB1) - int (mem_n pB2))"

definition cmp3 :: "fp \<Rightarrow> fp \<Rightarrow> int" where
  "cmp3 r1 r2 = (if flt r1 r2 then -1 else if flt r2 r1 then 1 else 0)"

definition cmp3_int :: "int \<Rightarrow> int \<Rightarrow> int" where
  "cmp3_int i j = (if i < j then -1 else if i > j then 1 else 0)"

definition sqlite3MemCompare :: "Mem \<Rightarrow> Mem \<Rightarrow> (u8 list \<Rightarrow> u8 list \<Rightarrow> int) option \<Rightarrow> int" where
  "sqlite3MemCompare pMem1 pMem2 pColl =
     (if has pMem1 MEM_Null \<or> has pMem2 MEM_Null then
        (if has pMem2 MEM_Null then 1 else 0) - (if has pMem1 MEM_Null then 1 else 0)
      else if has pMem1 (MEM_Int OR MEM_Real) \<or> has pMem2 (MEM_Int OR MEM_Real) then
        (if has pMem1 MEM_Int \<and> has pMem2 MEM_Int then cmp3_int (u_i pMem1) (u_i pMem2)
         else if \<not> has pMem1 MEM_Real \<and> \<not> has pMem1 MEM_Int then 1
         else if \<not> has pMem2 MEM_Real \<and> \<not> has pMem2 MEM_Int then -1
         else
           (let r1 = (if has pMem1 MEM_Real then u_r pMem1 else double_of (u_i pMem1));
                r2 = (if has pMem2 MEM_Real then u_r pMem2 else double_of (u_i pMem2))
            in cmp3 r1 r2))
      else if has pMem1 MEM_Str \<or> has pMem2 MEM_Str then
        (if \<not> has pMem1 MEM_Str then 1
         else if \<not> has pMem2 MEM_Str then -1
         else case pColl of
           Some xCmp \<Rightarrow> vdbeCompareMemString pMem1 pMem2 xCmp
         | None \<Rightarrow> sqlite3BlobCompare pMem1 pMem2)
      else sqlite3BlobCompare pMem1 pMem2)"

section \<open>Comparing records\<close>

text \<open>
  The comparison of one field of a serialised record with a cell: \<open>None\<close> when the record is corrupt, else the result and the serial type of the
  field as the code has read it.
\<close>

definition compare_field :: "nat \<Rightarrow> u8 list \<Rightarrow> nat \<Rightarrow> nat \<Rightarrow> Mem \<Rightarrow> (u8 list \<Rightarrow> u8 list \<Rightarrow> int) option \<Rightarrow> (int \<times> nat) option" where
  "compare_field nKey1 aKey1 idx1 d1 pRhs pColl =
     (let mem1 = \<lparr>mem_u = 0, mem_flags = 0, mem_n = 0, mem_z = []\<rparr> in
      if has pRhs MEM_Int then
        (let serial_type = unat (aKey1 ! idx1) in
         if serial_type \<ge> 12 then Some (1, serial_type)
         else if serial_type = 0 then Some (-1, serial_type)
         else if serial_type = 7 then
           Some (cmp3 (u_r (snd (sqlite3VdbeSerialGet (drop d1 aKey1) serial_type mem1))) (double_of (u_i pRhs)), serial_type)
         else Some (cmp3_int (vdbeRecordDecodeInt serial_type (drop d1 aKey1)) (u_i pRhs), serial_type))
      else if has pRhs MEM_Real then
        (let serial_type = unat (aKey1 ! idx1) in
         if serial_type \<ge> 12 then Some (1, serial_type)
         else if serial_type = 0 then Some (-1, serial_type)
         else
           (let m = snd (sqlite3VdbeSerialGet (drop d1 aKey1) serial_type mem1);
                lhs = (if serial_type = 7 then u_r m else double_of (u_i m))
            in Some (cmp3 lhs (u_r pRhs), serial_type)))
      else if has pRhs MEM_Str then
        (let serial_type = unat (fst (getVarint32 (drop idx1 aKey1))) in
         if serial_type < 12 then Some (-1, serial_type)
         else if even serial_type then Some (1, serial_type)
         else
           (let n = (serial_type - 12) div 2 in
            if (d1 + n) mod 2 ^ 32 > nKey1 then None
            else case pColl of
              Some xCmp \<Rightarrow>
                Some (vdbeCompareMemString (mem1\<lparr>mem_flags := MEM_Str, mem_n := n, mem_z := drop d1 aKey1\<rparr>) pRhs xCmp, serial_type)
            | None \<Rightarrow>
                (let rc = memcmp (drop d1 aKey1) (mem_z pRhs) (min n (mem_n pRhs)) in
                 Some (if rc = 0 then int n - int (mem_n pRhs) else rc, serial_type))))
      else if has pRhs MEM_Blob then
        (let serial_type = unat (fst (getVarint32 (drop idx1 aKey1))) in
         if serial_type < 12 \<or> odd serial_type then Some (-1, serial_type)
         else
           (let n = (serial_type - 12) div 2 in
            if (d1 + n) mod 2 ^ 32 > nKey1 then None
            else
              (let rc = memcmp (drop d1 aKey1) (mem_z pRhs) (min n (mem_n pRhs)) in
               Some (if rc = 0 then int n - int (mem_n pRhs) else rc, serial_type))))
      else
        (let serial_type = unat (aKey1 ! idx1) in Some (if serial_type \<noteq> 0 then 1 else 0, serial_type)))"

function fields_loop :: "nat \<Rightarrow> u8 list \<Rightarrow> UnpackedRecord \<Rightarrow> nat \<Rightarrow> nat \<Rightarrow> nat \<Rightarrow> nat \<Rightarrow> int \<times> UnpackedRecord" where
  "fields_loop nKey1 aKey1 pPKey2 szHdr1 i idx1 d1 =
     (case compare_field nKey1 aKey1 idx1 d1 (aMem pPKey2 ! i) (aColl (pKeyInfo pPKey2) ! i) of
        None \<Rightarrow> (0, pPKey2\<lparr>errCode := SQLITE_CORRUPT\<rparr>)
      | Some (rc, serial_type) \<Rightarrow>
          if rc \<noteq> 0 then (if aSortOrder (pKeyInfo pPKey2) ! i then - rc else rc, pPKey2)
          else
            (let i = i + 1;
                 d1 = (d1 + sqlite3VdbeSerialTypeLen serial_type) mod 2 ^ 32;
                 idx1 = (idx1 + sqlite3VarintLen (of_nat serial_type)) mod 2 ^ 32
             in if idx1 < szHdr1 \<and> i < ur_nField pPKey2 \<and> d1 \<le> nKey1
                then fields_loop nKey1 aKey1 pPKey2 szHdr1 i idx1 d1
                else (default_rc pPKey2, pPKey2)))"
  by pat_completeness auto
termination
  by (relation "measure (\<lambda>(nKey1, aKey1, pPKey2, szHdr1, i, idx1, d1). ur_nField pPKey2 - i)") auto

declare fields_loop.simps [simp del]

definition vdbeRecordCompareWithSkip :: "nat \<Rightarrow> u8 list \<Rightarrow> UnpackedRecord \<Rightarrow> bool \<Rightarrow> int \<times> UnpackedRecord" where
  "vdbeRecordCompareWithSkip nKey1 aKey1 pPKey2 bSkip =
     (if bSkip then
        (let (s1, k) = getVarint32 (drop 1 aKey1);
             szHdr1 = unat (aKey1 ! 0)
         in fields_loop nKey1 aKey1 pPKey2 szHdr1 1 (1 + k) (szHdr1 + sqlite3VdbeSerialTypeLen (unat s1)))
      else
        (let (szHdr1, idx1) = getVarint32 aKey1 in
         if unat szHdr1 > nKey1 then (0, pPKey2\<lparr>errCode := SQLITE_CORRUPT\<rparr>)
         else fields_loop nKey1 aKey1 pPKey2 (unat szHdr1) 0 idx1 (unat szHdr1)))"

definition sqlite3VdbeRecordCompare :: "nat \<Rightarrow> u8 list \<Rightarrow> UnpackedRecord \<Rightarrow> int \<times> UnpackedRecord" where
  "sqlite3VdbeRecordCompare nKey1 pKey1 pPKey2 = vdbeRecordCompareWithSkip nKey1 pKey1 pPKey2 False"

definition vdbeRecordCompareInt :: "nat \<Rightarrow> u8 list \<Rightarrow> UnpackedRecord \<Rightarrow> int \<times> UnpackedRecord" where
  "vdbeRecordCompareInt nKey1 pKey1 pPKey2 =
     (let aKey = drop (unat (pKey1 ! 0 AND 0x3f)) pKey1;
          serial_type = unat (pKey1 ! 1);
          v = u_i (aMem pPKey2 ! 0);
          lhs =
            (if serial_type = 1 then Some (ONE_BYTE_INT aKey)
             else if serial_type = 2 then Some (TWO_BYTE_INT aKey)
             else if serial_type = 3 then Some (THREE_BYTE_INT aKey)
             else if serial_type = 4 then Some (sint (FOUR_BYTE_UINT aKey))
             else if serial_type = 5 then Some (uint (FOUR_BYTE_UINT (drop 2 aKey)) + 2 ^ 32 * TWO_BYTE_INT aKey)
             else if serial_type = 6 then
               Some (sint (push_bit 32 (ucast (FOUR_BYTE_UINT aKey)) OR ucast (FOUR_BYTE_UINT (drop 4 aKey)) :: u64))
             else if serial_type = 8 then Some 0
             else if serial_type = 9 then Some 1
             else None)
      in case lhs of
           None \<Rightarrow> sqlite3VdbeRecordCompare nKey1 pKey1 pPKey2
         | Some lhs \<Rightarrow>
             if v > lhs then (ur_r1 pPKey2, pPKey2)
             else if v < lhs then (ur_r2 pPKey2, pPKey2)
             else if ur_nField pPKey2 > 1 then vdbeRecordCompareWithSkip nKey1 pKey1 pPKey2 True
             else (default_rc pPKey2, pPKey2))"

definition vdbeRecordCompareString :: "nat \<Rightarrow> u8 list \<Rightarrow> UnpackedRecord \<Rightarrow> int \<times> UnpackedRecord" where
  "vdbeRecordCompareString nKey1 aKey1 pPKey2 =
     (let serial_type = sint (fst (getVarint32 (drop 1 aKey1))) in
      if serial_type < 12 then (ur_r1 pPKey2, pPKey2)
      else if even serial_type then (ur_r2 pPKey2, pPKey2)
      else
        (let szHdr = unat (aKey1 ! 0); nStr = nat ((serial_type - 12) div 2); m = aMem pPKey2 ! 0 in
         if szHdr + nStr > nKey1 then (0, pPKey2\<lparr>errCode := SQLITE_CORRUPT\<rparr>)
         else
           (let res = memcmp (drop szHdr aKey1) (mem_z m) (min (mem_n m) nStr) in
            if res = 0 then
              (let res = int nStr - int (mem_n m) in
               if res = 0 then
                 (if ur_nField pPKey2 > 1 then vdbeRecordCompareWithSkip nKey1 aKey1 pPKey2 True
                  else (default_rc pPKey2, pPKey2))
               else if res > 0 then (ur_r2 pPKey2, pPKey2)
               else (ur_r1 pPKey2, pPKey2))
            else if res > 0 then (ur_r2 pPKey2, pPKey2)
            else (ur_r1 pPKey2, pPKey2))))"

text \<open>The choice of a comparison function, and the call of the function chosen.\<close>

datatype RecordCompare = CompareInt | CompareString | CompareAny

definition sqlite3VdbeFindCompare :: "UnpackedRecord \<Rightarrow> RecordCompare \<times> UnpackedRecord" where
  "sqlite3VdbeFindCompare p =
     (if ki_nField (pKeyInfo p) + ki_nXField (pKeyInfo p) \<le> 13 then
        (let m = aMem p ! 0;
             p = (if aSortOrder (pKeyInfo p) ! 0 then p\<lparr>ur_r1 := 1, ur_r2 := -1\<rparr> else p\<lparr>ur_r1 := -1, ur_r2 := 1\<rparr>)
         in if has m MEM_Int then (CompareInt, p)
            else if \<not> has m (MEM_Real OR MEM_Null OR MEM_Blob) \<and> aColl (pKeyInfo p) ! 0 = None then (CompareString, p)
            else (CompareAny, p))
      else (CompareAny, p))"

fun record_compare :: "RecordCompare \<Rightarrow> nat \<Rightarrow> u8 list \<Rightarrow> UnpackedRecord \<Rightarrow> int \<times> UnpackedRecord" where
  "record_compare CompareInt n k p = vdbeRecordCompareInt n k p"
| "record_compare CompareString n k p = vdbeRecordCompareString n k p"
| "record_compare CompareAny n k p = sqlite3VdbeRecordCompare n k p"

text \<open>The comparison of an index entry, read from the b-tree, with a key.\<close>

definition sqlite3VdbeIdxKeyCompare :: "int \<Rightarrow> int \<Rightarrow> u8 list \<Rightarrow> UnpackedRecord \<Rightarrow> int \<times> int option \<times> UnpackedRecord" where
  "sqlite3VdbeIdxKeyCompare nCellKey rc z pUnpacked =
     (if nCellKey \<le> 0 \<or> nCellKey > 0x7fffffff then (SQLITE_CORRUPT, Some 0, pUnpacked)
      else if rc \<noteq> 0 then (rc, None, pUnpacked)
      else let (res, p) = sqlite3VdbeRecordCompare (length z) z pUnpacked in (SQLITE_OK, Some res, p))"

section \<open>The order of values and rows\<close>

fun bytes_cmp :: "u8 list \<Rightarrow> u8 list \<Rightarrow> int" where
  "bytes_cmp [] [] = 0"
| "bytes_cmp [] (b # bs) = -1"
| "bytes_cmp (a # as) [] = 1"
| "bytes_cmp (a # as) (b # bs) = (if a < b then -1 else if b < a then 1 else bytes_cmp as bs)"

fun value_compare :: "(u8 list \<Rightarrow> u8 list \<Rightarrow> int) option \<Rightarrow> sql_value \<Rightarrow> sql_value \<Rightarrow> int" where
  "value_compare coll VNull VNull = 0"
| "value_compare coll VNull _ = -1"
| "value_compare coll _ VNull = 1"
| "value_compare coll (VInt i) (VInt j) = cmp3_int i j"
| "value_compare coll (VInt i) (VReal s) = cmp3 (double_of i) (decode64 s)"
| "value_compare coll (VReal r) (VInt j) = cmp3 (decode64 r) (double_of j)"
| "value_compare coll (VReal r) (VReal s) = cmp3 (decode64 r) (decode64 s)"
| "value_compare coll (VInt _) _ = -1"
| "value_compare coll (VReal _) _ = -1"
| "value_compare coll _ (VInt _) = 1"
| "value_compare coll _ (VReal _) = 1"
| "value_compare coll (VText a) (VText b) = (case coll of Some xCmp \<Rightarrow> xCmp a b | None \<Rightarrow> bytes_cmp a b)"
| "value_compare coll (VText _) (VBlob _) = -1"
| "value_compare coll (VBlob _) (VText _) = 1"
| "value_compare coll (VBlob a) (VBlob b) = bytes_cmp a b"

text \<open>Rows are compared column by column, with the order and the collating function of each column; when all columns present in both
  are equal, the result is the one the caller asks for.\<close>

fun row_compare :: "(bool \<times> (u8 list \<Rightarrow> u8 list \<Rightarrow> int) option) list \<Rightarrow> sql_value list \<Rightarrow> sql_value list \<Rightarrow> int \<Rightarrow> int" where
  "row_compare ((desc, coll) # ks) (v # vs) (w # ws) rc =
     (let c = value_compare coll v w in if c \<noteq> 0 then (if desc then - c else c) else row_compare ks vs ws rc)"
| "row_compare _ _ _ rc = rc"

section \<open>Lemmas: cells\<close>

text \<open>The cells of an unpacked record: one storage class, NULL alone, and no tail of zeros.\<close>

definition key_cell :: "Mem \<Rightarrow> bool" where
  "key_cell m \<longleftrightarrow>
     (if has m MEM_Null then \<not> has m (MEM_Int OR MEM_Real OR MEM_Str OR MEM_Blob)
      else has m (MEM_Int OR MEM_Real OR MEM_Str OR MEM_Blob)) \<and>
     \<not> (has m MEM_Int \<and> has m MEM_Real) \<and> \<not> has m MEM_Zero \<and> mem_n m \<le> length (mem_z m)"

lemma has_or: "has m (f OR g) \<longleftrightarrow> has m f \<or> has m g"
proof -
  have "mem_flags m AND (f OR g) = (mem_flags m AND f) OR (mem_flags m AND g)"
    by (rule bit_word_eqI) (auto simp: bit_simps)
  then show ?thesis by (simp add: has_def or_eq_0_iff)
qed

lemma has_number: "has m 12 \<longleftrightarrow> has m MEM_Int \<or> has m MEM_Real"
  using has_or [of m MEM_Int MEM_Real] by simp

lemmas key_cell_iff = key_cell_def [unfolded has_or]

lemma memcmp_take: "memcmp a b n = memcmp (take n a) (take n b) n"
  by (induction a b n rule: memcmp.induct) auto

lemma memcmp_bytes:
  "sgn (let c = memcmp a b (min (length a) (length b)) in if c = 0 then int (length a) - int (length b) else c) = bytes_cmp a b"
proof (induction a b rule: bytes_cmp.induct)
  case (4 a as b bs)
  then show ?case by (auto simp: Let_def)
qed (simp_all add: Let_def)

lemma memcmp_cells:
  assumes "n \<le> length a" "k \<le> length b"
  shows "sgn (let c = memcmp a b (min n k) in if c = 0 then int n - int k else c) = bytes_cmp (take n a) (take k b)"
proof -
  have "memcmp a b (min n k) = memcmp (take n a) (take k b) (min n k)"
    unfolding memcmp_take [of a b "min n k"] memcmp_take [of "take n a" "take k b" "min n k"] by (simp add: min.commute min.left_commute)
  moreover have l: "length (take n a) = n" "length (take k b) = k" using assms by simp_all
  ultimately show ?thesis using memcmp_bytes [of "take n a" "take k b", unfolded l] by simp
qed

lemma BlobCompare_eq:
  assumes "mem_n m \<le> length (mem_z m)" "mem_n k \<le> length (mem_z k)"
  shows "sgn (sqlite3BlobCompare m k) = bytes_cmp (take (mem_n m) (mem_z m)) (take (mem_n k) (mem_z k))"
proof -
  have "(if mem_n m > mem_n k then mem_n k else mem_n m) = min (mem_n m) (mem_n k)" by simp
  then show ?thesis using memcmp_cells [OF assms] by (simp add: sqlite3BlobCompare_def Let_def) argo
qed

lemma sgn_bytes_cmp: "sgn (bytes_cmp a b) = bytes_cmp a b"
  by (induction a b rule: bytes_cmp.induct) auto

lemma key_cell_cases:
  assumes "key_cell m"
  obtains (Null) "has m MEM_Null" "\<not> has m MEM_Int" "\<not> has m MEM_Real" "\<not> has m MEM_Str" "\<not> has m MEM_Blob" "mem_value m = VNull"
  | (Int) "\<not> has m MEM_Null" "has m MEM_Int" "\<not> has m MEM_Real" "mem_value m = VInt (u_i m)"
  | (Real) "\<not> has m MEM_Null" "\<not> has m MEM_Int" "has m MEM_Real" "mem_value m = VReal (mem_u m)"
  | (Str) "\<not> has m MEM_Null" "\<not> has m MEM_Int" "\<not> has m MEM_Real" "has m MEM_Str" "mem_value m = VText (take (mem_n m) (mem_z m))"
  | (Blob) "\<not> has m MEM_Null" "\<not> has m MEM_Int" "\<not> has m MEM_Real" "\<not> has m MEM_Str" "has m MEM_Blob"
      "mem_value m = VBlob (take (mem_n m) (mem_z m))"
proof -
  have b: "mem_bytes m = take (mem_n m) (mem_z m)" using assms by (simp add: mem_bytes_def key_cell_def)
  consider "has m MEM_Null" | "\<not> has m MEM_Null" "has m MEM_Int" | "\<not> has m MEM_Null" "\<not> has m MEM_Int" "has m MEM_Real"
    | "\<not> has m MEM_Null" "\<not> has m MEM_Int" "\<not> has m MEM_Real" "has m MEM_Str"
    | "\<not> has m MEM_Null" "\<not> has m MEM_Int" "\<not> has m MEM_Real" "\<not> has m MEM_Str" by blast
  then show ?thesis
  proof cases
    case 1 then show ?thesis using assms by (intro Null) (auto simp: key_cell_iff mem_value_def)
  next
    case 2 then show ?thesis using assms by (intro Int) (auto simp: key_cell_iff mem_value_def)
  next
    case 3 then show ?thesis by (intro Real) (auto simp: mem_value_def)
  next
    case 4 then show ?thesis by (intro Str) (auto simp: mem_value_def b)
  next
    case 5 then show ?thesis using assms by (intro Blob) (auto simp: key_cell_iff mem_value_def b)
  qed
qed

lemma MemCompare_value:
  assumes "key_cell m" "key_cell k"
  shows "sgn (sqlite3MemCompare m k coll) = sgn (value_compare coll (mem_value m) (mem_value k))"
proof -
  have l: "mem_n m \<le> length (mem_z m)" "mem_n k \<le> length (mem_z k)" using assms by (simp_all add: key_cell_def)
  note bl = BlobCompare_eq [OF l] sgn_bytes_cmp
  note d = sqlite3MemCompare_def has_number u_r_def vdbeCompareMemString_def
  from assms(1) show ?thesis
  proof (cases rule: key_cell_cases)
    case Null
    with assms(2) show ?thesis by (cases rule: key_cell_cases) (simp_all add: d)
  next
    case Int
    with assms(2) show ?thesis by (cases rule: key_cell_cases) (simp_all add: d)
  next
    case Real
    with assms(2) show ?thesis by (cases rule: key_cell_cases) (simp_all add: d)
  next
    case Str
    with assms(2) show ?thesis by (cases rule: key_cell_cases) (simp_all add: d bl split: option.split)
  next
    case Blob
    with assms(2) show ?thesis by (cases rule: key_cell_cases) (simp_all add: d bl)
  qed
qed

section \<open>Lemmas: serialised fields\<close>

text \<open>The first byte of a serial type is the type itself when it is below 128.\<close>

lemma first_byte:
  assumes "st < 2 ^ 32"
  shows "if st < 128 then unat (putVarint32 st ! 0) = st else 128 \<le> unat (putVarint32 st ! 0)"
proof (cases "putVarint32 st ! 0 < 0x80")
  case True
  have "(ucast (putVarint32 st ! 0) :: u32) = of_nat st"
    using getVarint32_put [OF assms, of "[]"] True by (simp add: getVarint32_def)
  then have "unat (ucast (putVarint32 st ! 0) :: u32) = st" using assms by (simp add: unat_of_nat take_bit_nat_eq_self)
  then have "unat (putVarint32 st ! 0) = st" by (simp add: unat_ucast_up)
  with True show ?thesis by (simp add: word_less_nat_alt)
next
  case False
  then have "128 \<le> unat (putVarint32 st ! 0)" by (simp add: word_less_nat_alt)
  moreover have "\<not> st < 128"
  proof
    assume "st < 128"
    then have "putVarint32 st ! 0 = of_nat st" by (simp add: putVarint32_def)
    with False \<open>st < 128\<close> show False by (simp add: word_less_nat_alt unat_of_nat_byte)
  qed
  ultimately show ?thesis by simp
qed

lemma putVarint32_ne: "st < 2 ^ 32 \<Longrightarrow> putVarint32 st \<noteq> []"
  using varint_len [of "of_nat st"] by (auto simp: length_putVarint32 simp flip: length_greater_0_conv)

lemma FOUR_BYTE_UINT_signed: "4 \<le> length x \<Longrightarrow> sint (FOUR_BYTE_UINT x) = be_int (take 4 x)"
proof -
  assume l: "4 \<le> length x"
  then obtain a b c d q where x: "x = a # b # c # d # q" by (auto simp: list_ge_4')
  let ?w = "FOUR_BYTE_UINT x" and ?t = "[b, c, d]"
  have u: "uint ?w = uint a * 2 ^ 24 + int (be_nat ?t)" using FOUR_BYTE_UINT_eq [OF l] unfolding x by simp
  have "be_nat ?t < 2 ^ 24" using be_nat_less [of ?t] by (simp del: be_nat.simps)
  then have "int (be_nat ?t) < int (2 ^ 24)" by (simp only: of_nat_less_iff)
  then have t: "int (be_nat ?t) < 2 ^ 24" by (simp del: be_nat.simps)
  have "sint ?w = signed_take_bit (7 + 24) (uint ?w)" by (simp add: sint_uint)
  also have "\<dots> = signed_take_bit 7 (uint a) * 2 ^ 24 + int (be_nat ?t)"
    unfolding signed_take_bit_split u using t
    by (simp only: drop_bit_eq_div take_bit_eq_mod) (simp del: be_nat.simps)
  also have "\<dots> = be_int (take 4 x)" unfolding x by (simp add: be_int_Cons sint_uint)
  finally show ?thesis .
qed

lemma u64_join: "(push_bit 32 (ucast (a :: u32)) OR ucast (b :: u32) :: u64) = push_bit 32 (ucast a) + ucast b"
  by (rule disjunctive_add_eq_or [symmetric]) (auto simp: bit_eq_iff bit_simps dest: bit_imp_le_length)

lemma wf_field_cases:
  assumes "wf_field (st, c)"
  obtains (Null) "st = 0" "serial_value st c = VNull" "c = []"
  | (Int) i where "st \<in> {1, 2, 3, 4, 5, 6, 8, 9}" "serial_value st c = VInt i"
      "\<And>rest. vdbeRecordDecodeInt st (c @ rest) = i"
      "\<And>rest m. u_i (snd (sqlite3VdbeSerialGet (c @ rest) st m)) = i"
  | (Real) r where "st = 7" "serial_value st c = VReal r" "\<And>rest m. mem_u (snd (sqlite3VdbeSerialGet (c @ rest) st m)) = r"
  | (Text) "12 \<le> st" "odd st" "serial_value st c = VText c" "(st - 12) div 2 = length c"
  | (Blob) "12 \<le> st" "even st" "serial_value st c = VBlob c" "(st - 12) div 2 = length c"
proof -
  have l: "length c = sqlite3VdbeSerialTypeLen st" using assms by (simp add: wf_field_def)
  consider "st = 0" | "st \<in> {1, 2, 3, 4, 5, 6, 8, 9}" | "st = 7" | "12 \<le> st" "odd st" | "12 \<le> st" "even st"
    using assms by (cases st rule: serial_type_cases) (auto simp: wf_field_def)
  then show ?thesis
  proof cases
    case 1
    then show ?thesis using l by (intro Null) (auto simp: serial_value_def sqlite3VdbeSerialGet_def mem_value_def has_def sqlite3VdbeSerialTypeLen_def)
  next
    case 2
    note t = sqlite3VdbeSerialTypeLen_def vdbeRecordDecodeInt_def
    have dec: "serial_value st (c @ rest) = VInt (vdbeRecordDecodeInt st (c @ rest))" for rest
    proof -
      consider "st = 1" | "st = 2" | "st = 3" | "st = 4" | "st = 5" | "st = 6" | "st = 8 \<or> st = 9" using 2 by blast
      then show ?thesis
      proof cases
        case 1 then show ?thesis using l serial_value_int(1) [of "c @ rest"] byte_ints(1) [of "c @ rest"] by (simp add: t)
      next
        case 2 then show ?thesis using l serial_value_int(2) [of "c @ rest"] byte_ints(2) [of "c @ rest"] by (simp add: t)
      next
        case 3 then show ?thesis using l serial_value_int(3) [of "c @ rest"] byte_ints(3) [of "c @ rest"] by (simp add: t)
      next
        case 4 then show ?thesis using l serial_value_int(4) [of "c @ rest"] FOUR_BYTE_UINT_signed [of "c @ rest"] by (simp add: t)
      next
        case 5 then show ?thesis using l serial_value_int(5) [of "c @ rest"] six_byte_int [of "c @ rest"] by (simp add: t)
      next
        case 6
        then show ?thesis
          by (simp add: vdbeRecordDecodeInt_def serial_value_def sqlite3VdbeSerialGet_def serialGet_def u64_join mem_value_def has_def u_i_def Let_def)
      next
        case 7 then show ?thesis
          by (auto simp: t serial_value_def sqlite3VdbeSerialGet_def set_int_def mem_value_def has_def u_i_def)
      qed
    qed
    have get: "serial_value st (c @ rest) = VInt (u_i (snd (sqlite3VdbeSerialGet (c @ rest) st m)))" for rest m
      unfolding serial_value_mem [of _ _ m, symmetric] using 2
      by (auto simp: sqlite3VdbeSerialGet_def serialGet_def set_int_def mem_value_def has_def Let_def)
    have same: "serial_value st (c @ rest) = VInt (vdbeRecordDecodeInt st c)" for rest
      using serial_value_append [OF l, of rest] dec [of "[]"] by simp
    show ?thesis
      by (rule Int [of "vdbeRecordDecodeInt st c"]) (use 2 same dec get same [of "[]"] in simp_all)
  next
    case 3
    let ?r = "of_nat (be_nat c) :: u64"
    have l8: "length c = 8" using l 3 by (simp add: sqlite3VdbeSerialTypeLen_def)
    have "serial_value st c = VReal ?r"
      using assms 3 serial_value_eight(2) [of c] l8 by (auto simp: wf_field_def Let_def split: if_splits)
    moreover have "mem_u (snd (sqlite3VdbeSerialGet (c @ rest) st m)) = ?r" for rest m
      using l8 3 serialGet_eq [of "c @ rest" 7 m] by (simp add: sqlite3VdbeSerialGet_def Let_def)
    ultimately show ?thesis using 3 by (intro Real) auto
  next
    case 4
    then obtain n where "st = 13 + 2 * n" by (cases st rule: serial_type_cases) auto
    then show ?thesis using 4 l by (intro Text) (simp_all add: serial_value_text sqlite3VdbeSerialTypeLen_def)
  next
    case 5
    then obtain n where "st = 12 + 2 * n" by (cases st rule: serial_type_cases) auto
    then show ?thesis using 5 l by (intro Blob) (simp_all add: serial_value_blob sqlite3VdbeSerialTypeLen_def)
  qed
qed

lemma compare_field_value:
  assumes "wf_field (st, c)" "key_cell m" "drop idx1 aKey1 = putVarint32 st @ hs" "drop d1 aKey1 = c @ rest"
    "d1 + length c \<le> nKey1" "nKey1 < 2 ^ 31"
  shows "\<exists>rc st'. compare_field nKey1 aKey1 idx1 d1 m coll = Some (rc, st') \<and>
     sgn rc = sgn (value_compare coll (serial_value st c) (mem_value m)) \<and> (rc = 0 \<longrightarrow> st' = st)"
proof -
  have st: "st < 2 ^ 32" using assms(1) by (simp add: wf_field_def)
  have "idx1 < length aKey1" using assms(3) putVarint32_ne [OF st] by (metis append_is_Nil_conv drop_eq_Nil not_le)
  then have "aKey1 ! idx1 = putVarint32 st ! 0"
    using assms(3) putVarint32_ne [OF st] by (metis Cons_nth_drop_Suc append_Cons list.exhaust nth_Cons_0)
  with first_byte [OF st] have b: "st < 128 \<Longrightarrow> unat (aKey1 ! idx1) = st" "\<not> st < 128 \<Longrightarrow> 128 \<le> unat (aKey1 ! idx1)"
    by (simp_all split: if_splits)
  have g: "unat (fst (getVarint32 (drop idx1 aKey1))) = st" using getVarint32_at [OF assms(3) st] by simp
  have big: "12 \<le> unat (aKey1 ! idx1)" if "12 \<le> st" using b that by (cases "st < 128") auto
  have l: "mem_n m \<le> length (mem_z m)" using assms(2) by (simp add: key_cell_def)
  have mod: "(d1 + length c) mod 4294967296 = d1 + length c" using assms(5,6) by simp
  have cmp: "sgn (if memcmp (c @ rest) (mem_z m) (min (length c) (mem_n m)) = 0 then int (length c) - int (mem_n m)
      else memcmp (c @ rest) (mem_z m) (min (length c) (mem_n m))) = bytes_cmp c (take (mem_n m) (mem_z m))"
    using memcmp_cells [of "length c" "c @ rest" "mem_n m" "mem_z m"] l by (simp add: Let_def)
  note d = compare_field_def Let_def assms(4) vdbeCompareMemString_def u_r_def
  from assms(1) show ?thesis
  proof (cases rule: wf_field_cases)
    case Null
    with assms(2) show ?thesis by (cases rule: key_cell_cases) (simp_all add: d b g)
  next
    case (Int i)
    then have "st < 12" "st \<noteq> 0" "st \<noteq> 7" by auto
    with assms(2) Int(2-) show ?thesis by (cases rule: key_cell_cases) (simp_all add: d b g)
  next
    case (Real r)
    with assms(2) show ?thesis by (cases rule: key_cell_cases) (simp_all add: d b g)
  next
    case Text
    with assms(2) show ?thesis
      by (cases rule: key_cell_cases) (use big assms(5) in \<open>auto simp: d g mod cmp sgn_bytes_cmp split: option.split\<close>)
  next
    case Blob
    with assms(2) show ?thesis
      by (cases rule: key_cell_cases) (use big assms(5) in \<open>auto simp: d g mod cmp sgn_bytes_cmp\<close>)
  qed
qed

section \<open>Lemmas: records\<close>

abbreviation key_columns :: "UnpackedRecord \<Rightarrow> (bool \<times> (u8 list \<Rightarrow> u8 list \<Rightarrow> int) option) list" where
  "key_columns p \<equiv> zip (aSortOrder (pKeyInfo p)) (aColl (pKeyInfo p))"

abbreviation key_cells :: "UnpackedRecord \<Rightarrow> Mem list" where
  "key_cells p \<equiv> take (ur_nField p) (aMem p)"

definition wf_key :: "UnpackedRecord \<Rightarrow> bool" where
  "wf_key p \<longleftrightarrow> 0 < ur_nField p \<and> ur_nField p \<le> length (aMem p) \<and> ur_nField p \<le> length (key_columns p) \<and>
     (\<forall>m\<in>set (key_cells p). key_cell m)"

text \<open>The result the comparison of a row with a key must have, up to its magnitude.\<close>

abbreviation key_order :: "field list \<Rightarrow> UnpackedRecord \<Rightarrow> int" where
  "key_order fs p \<equiv> row_compare (key_columns p) (map field_value fs) (map mem_value (key_cells p)) (default_rc p)"

lemma key_columns_drop:
  assumes "wf_key p" "i < ur_nField p"
  shows "drop i (key_columns p) = (aSortOrder (pKeyInfo p) ! i, aColl (pKeyInfo p) ! i) # drop (Suc i) (key_columns p)"
    "drop i (key_cells p) = aMem p ! i # drop (Suc i) (key_cells p)" "key_cell (aMem p ! i)"
proof -
  have l: "i < length (key_columns p)" "i < length (key_cells p)" using assms by (auto simp: wf_key_def)
  show "drop i (key_columns p) = (aSortOrder (pKeyInfo p) ! i, aColl (pKeyInfo p) ! i) # drop (Suc i) (key_columns p)"
    using l(1) by (subst Cons_nth_drop_Suc [symmetric]) simp_all
  show "drop i (key_cells p) = aMem p ! i # drop (Suc i) (key_cells p)"
    using l(2) by (subst Cons_nth_drop_Suc [symmetric]) simp_all
  have "aMem p ! i \<in> set (key_cells p)" using nth_mem [OF l(2)] assms by simp
  then show "key_cell (aMem p ! i)" using assms(1) by (simp add: wf_key_def)
qed

lemma sgn_if_minus: "sgn (a :: int) = sgn b \<Longrightarrow> sgn (if d then - a else a) = sgn (if d then - b else b)"
  by simp

lemma fields_loop_eq:
  assumes "wf_key p" "nKey1 < 2 ^ 31" "szHdr1 \<le> nKey1"
    "fs \<noteq> []" "drop idx1 aKey1 = header_of fs @ rest" "drop d1 aKey1 = body_of fs" "szHdr1 = idx1 + length (header_of fs)"
    "d1 + length (body_of fs) \<le> nKey1" "\<forall>f\<in>set fs. wf_field f" "i < ur_nField p"
  shows "snd (fields_loop nKey1 aKey1 p szHdr1 i idx1 d1) = p \<and>
     sgn (fst (fields_loop nKey1 aKey1 p szHdr1 i idx1 d1)) =
     sgn (row_compare (drop i (key_columns p)) (map field_value fs) (map mem_value (drop i (key_cells p))) (default_rc p))"
  using assms(4-)
proof (induction fs arbitrary: i idx1 d1)
  case (Cons f fs)
  obtain st c where f: "f = (st, c)" by (cases f)
  note k = key_columns_drop [OF assms(1) Cons.prems(7)]
  have w: "wf_field (st, c)" and st: "st < 2 ^ 32" "length c = sqlite3VdbeSerialTypeLen st"
    using Cons.prems(6) f by (auto simp: wf_field_def)
  have hd: "drop idx1 aKey1 = putVarint32 st @ header_of fs @ rest" and bd: "drop d1 aKey1 = c @ body_of fs"
    using Cons.prems(2,3) f by simp_all
  have dl: "d1 + length c \<le> nKey1" using Cons.prems(5) f by simp
  let ?m = "aMem p ! i" and ?coll = "aColl (pKeyInfo p) ! i" and ?desc = "aSortOrder (pKeyInfo p) ! i"
  let ?c = "value_compare ?coll (field_value f) (mem_value ?m)"
  from compare_field_value [OF w k(3) hd bd dl assms(2), of ?coll] obtain rc st' where cf:
    "compare_field nKey1 aKey1 idx1 d1 ?m ?coll = Some (rc, st')" "sgn rc = sgn ?c" "rc = 0 \<longrightarrow> st' = st" using f by auto
  have row: "row_compare (drop i (key_columns p)) (map field_value (f # fs)) (map mem_value (drop i (key_cells p))) (default_rc p) =
    (if ?c \<noteq> 0 then (if ?desc then - ?c else ?c)
     else row_compare (drop (Suc i) (key_columns p)) (map field_value fs) (map mem_value (drop (Suc i) (key_cells p))) (default_rc p))"
    unfolding k(1,2) by (simp add: Let_def)
  show ?case
  proof (cases "rc = 0")
    case False
    then have "?c \<noteq> 0" using cf(2) by (auto simp: sgn_0_0)
    moreover have "fields_loop nKey1 aKey1 p szHdr1 i idx1 d1 = (if ?desc then - rc else rc, p)"
      using cf(1) False by (subst fields_loop.simps) simp
    ultimately show ?thesis unfolding row using sgn_if_minus [OF cf(2)] by simp
  next
    case True
    then have c0: "?c = 0" using cf(2) by (simp add: sgn_0_0)
    let ?i = "idx1 + length (putVarint32 st)" and ?d = "d1 + length c"
    have "(d1 + sqlite3VdbeSerialTypeLen st) mod 2 ^ 32 = ?d" "(idx1 + sqlite3VarintLen (of_nat st)) mod 2 ^ 32 = ?i"
      using dl assms(2,3) Cons.prems(4) f st by (simp_all add: length_putVarint32)
    then have step: "fields_loop nKey1 aKey1 p szHdr1 i idx1 d1 =
      (if ?i < szHdr1 \<and> i + 1 < ur_nField p \<and> ?d \<le> nKey1 then fields_loop nKey1 aKey1 p szHdr1 (i + 1) ?i ?d else (default_rc p, p))"
      using cf(1,3) True by (subst fields_loop.simps) (simp add: Let_def)
    have more: "?i < szHdr1 \<longleftrightarrow> fs \<noteq> []"
      using Cons.prems(4,6) f putVarint32_ne by (cases fs) (auto simp: wf_field_def)
    show ?thesis
    proof (cases "fs \<noteq> [] \<and> i + 1 < ur_nField p")
      case True
      have "drop ?i aKey1 = header_of fs @ rest" "drop ?d aKey1 = body_of fs" using drop_step [OF hd] drop_step [OF bd] by simp_all
      from Cons.IH [OF _ this, of "i + 1"] True Cons.prems(4-6) f
      show ?thesis unfolding row step using c0 more dl by simp
    next
      case False
      then have "row_compare (drop (Suc i) (key_columns p)) (map field_value fs) (map mem_value (drop (Suc i) (key_cells p))) (default_rc p) = default_rc p"
        by (cases fs) auto
      with False show ?thesis unfolding row step using c0 more by auto
    qed
  qed
qed simp

lemma record_layout:
  assumes "length (record_of fs) < 2 ^ 31"
  defines "n \<equiv> header_size (length (header_of fs))"
  shows "n = length (putVarint32 n) + length (header_of fs)" "n \<le> length (record_of fs)" "length (record_of fs) = n + length (body_of fs)"
    "getVarint32 (record_of fs) = (of_nat n, length (putVarint32 n))" "unat (of_nat n :: u32) = n"
    "drop (length (putVarint32 n)) (record_of fs) = header_of fs @ body_of fs" "drop n (record_of fs) = body_of fs"
proof -
  have l: "length (header_of fs) < 2 ^ 31" using assms(1) by (simp add: record_of_def)
  note h = header_size_eq [OF l, folded n_def]
  show n: "n = length (putVarint32 n) + length (header_of fs)" using h by simp
  have r: "record_of fs = (putVarint32 n @ header_of fs) @ body_of fs" by (simp add: record_of_def n_def)
  show len: "length (record_of fs) = n + length (body_of fs)" unfolding r using n by simp
  then show "n \<le> length (record_of fs)" by simp
  have nb: "n < 2 ^ 32" using assms(1) len by simp
  show "getVarint32 (record_of fs) = (of_nat n, length (putVarint32 n))" unfolding r using getVarint32_put [OF nb] by simp
  show "unat (of_nat n :: u32) = n" using nb by (simp add: unat_of_nat take_bit_nat_eq_self)
  show "drop (length (putVarint32 n)) (record_of fs) = header_of fs @ body_of fs" unfolding r by simp
  show "drop n (record_of fs) = body_of fs" unfolding r using n by (metis append_eq_conv_conj length_append)
qed

lemma RecordCompare_eq:
  assumes "wf_key p" "\<forall>f\<in>set fs. wf_field f" "fs \<noteq> []" "length (record_of fs) < 2 ^ 31"
  shows "snd (sqlite3VdbeRecordCompare (length (record_of fs)) (record_of fs) p) = p \<and>
     sgn (fst (sqlite3VdbeRecordCompare (length (record_of fs)) (record_of fs) p)) = sgn (key_order fs p)"
proof -
  note r = record_layout [OF assms(4)]
  let ?n = "header_size (length (header_of fs))" and ?r = "record_of fs"
  have "sqlite3VdbeRecordCompare (length ?r) ?r p = fields_loop (length ?r) ?r p ?n 0 (length (putVarint32 ?n)) ?n"
    using r(2,4,5) by (simp add: sqlite3VdbeRecordCompare_def vdbeRecordCompareWithSkip_def)
  moreover have "0 < ur_nField p" using assms(1) by (simp add: wf_key_def)
  ultimately show ?thesis
    using fields_loop_eq [OF assms(1,4) r(2) assms(3) r(6,7) r(1) eq_refl [OF r(3) [symmetric]] assms(2), of 0] by simp
qed

text \<open>The comparison that starts at the second field.\<close>

lemma RecordCompare_skip_eq:
  assumes "wf_key p" "\<forall>f\<in>set (f # fs). wf_field f" "fs \<noteq> []" "length (record_of (f # fs)) < 2 ^ 31"
    "header_size (length (header_of (f # fs))) < 128" "1 < ur_nField p"
    "value_compare (aColl (pKeyInfo p) ! 0) (field_value f) (mem_value (aMem p ! 0)) = 0"
  shows "snd (vdbeRecordCompareWithSkip (length (record_of (f # fs))) (record_of (f # fs)) p True) = p \<and>
     sgn (fst (vdbeRecordCompareWithSkip (length (record_of (f # fs))) (record_of (f # fs)) p True)) = sgn (key_order (f # fs) p)"
proof -
  note r = record_layout [OF assms(4)]
  obtain st c where f: "f = (st, c)" by (cases f)
  let ?n = "header_size (length (header_of (f # fs)))" and ?r = "record_of (f # fs)"
  have w: "st < 2 ^ 32" "length c = sqlite3VdbeSerialTypeLen st" using assms(2) f by (auto simp: wf_field_def)
  have one: "putVarint32 ?n = [of_nat ?n]" using assms(5) by (simp add: putVarint32_def)
  have h0: "unat (?r ! 0) = ?n" using assms(5) one by (simp add: record_of_def unat_of_nat_byte)
  have hd: "drop 1 ?r = putVarint32 st @ header_of fs @ c @ body_of fs" and bd: "drop ?n ?r = c @ body_of fs"
    using r(6,7) f unfolding one by simp_all
  have g: "unat (fst (getVarint32 (drop 1 ?r))) = st" "snd (getVarint32 (drop 1 ?r)) = length (putVarint32 st)"
    using getVarint32_at [OF hd w(1)] by simp_all
  have e: "vdbeRecordCompareWithSkip (length ?r) ?r p True =
     fields_loop (length ?r) ?r p ?n 1 (1 + length (putVarint32 st)) (?n + length c)"
    using g h0 w(2) by (simp add: vdbeRecordCompareWithSkip_def split_beta Let_def)
  have "drop (1 + length (putVarint32 st)) ?r = header_of fs @ (c @ body_of fs)" "drop (?n + length c) ?r = body_of fs"
    using drop_step [OF hd] drop_step [OF bd] by simp_all
  moreover have "?n = 1 + length (putVarint32 st) + length (header_of fs)" using r(1) one f by simp
  moreover have "?n + length c + length (body_of fs) \<le> length ?r" using r(3) f by simp
  moreover have "\<forall>f\<in>set fs. wf_field f" using assms(2) by simp
  ultimately have i: "snd (fields_loop (length ?r) ?r p ?n 1 (1 + length (putVarint32 st)) (?n + length c)) = p \<and>
     sgn (fst (fields_loop (length ?r) ?r p ?n 1 (1 + length (putVarint32 st)) (?n + length c))) =
     sgn (row_compare (drop 1 (key_columns p)) (map field_value fs) (map mem_value (drop 1 (key_cells p))) (default_rc p))"
    using fields_loop_eq [OF assms(1,4) r(2) assms(3), of "1 + length (putVarint32 st)" ?r "c @ body_of fs" "?n + length c" 1] assms(6) by blast
  have z: "0 < ur_nField p" using assms(6) by simp
  have "key_order (f # fs) p =
      row_compare (drop 0 (key_columns p)) (map field_value (f # fs)) (map mem_value (drop 0 (key_cells p))) (default_rc p)" by simp
  also have "\<dots> = row_compare (drop 1 (key_columns p)) (map field_value fs) (map mem_value (drop 1 (key_cells p))) (default_rc p)"
    unfolding key_columns_drop(1,2) [OF assms(1) z] using assms(7) by (simp add: Let_def)
  finally show ?thesis using i e by simp
qed

text \<open>The first fields decide, unless they are equal.\<close>

lemma key_order_Cons:
  assumes "wf_key p"
  shows "key_order (f # fs) p =
    (let c = value_compare (aColl (pKeyInfo p) ! 0) (field_value f) (mem_value (aMem p ! 0)) in
     if c \<noteq> 0 then (if aSortOrder (pKeyInfo p) ! 0 then - c else c)
     else row_compare (drop 1 (key_columns p)) (map field_value fs) (map mem_value (drop 1 (key_cells p))) (default_rc p))"
proof -
  have z: "0 < ur_nField p" using assms by (simp add: wf_key_def)
  have "key_order (f # fs) p =
      row_compare (drop 0 (key_columns p)) (map field_value (f # fs)) (map mem_value (drop 0 (key_cells p))) (default_rc p)" by simp
  also have "\<dots> = (let c = value_compare (aColl (pKeyInfo p) ! 0) (field_value f) (mem_value (aMem p ! 0)) in
     if c \<noteq> 0 then (if aSortOrder (pKeyInfo p) ! 0 then - c else c)
     else row_compare (drop 1 (key_columns p)) (map field_value fs) (map mem_value (drop 1 (key_cells p))) (default_rc p))"
    unfolding key_columns_drop(1,2) [OF assms z] by (simp add: Let_def)
  finally show ?thesis .
qed

text \<open>The header of a record with at most thirteen fields.\<close>

lemma header_of_bound: "\<forall>f\<in>set fs. wf_field f \<Longrightarrow> length (header_of fs) \<le> 5 * length fs"
proof (induction fs)
  case (Cons f fs)
  then have "length (putVarint32 (fst f)) \<le> 5" using VarintLen_cases [of "fst f"] by (simp add: wf_field_def length_putVarint32)
  with Cons show ?case by simp
qed simp

text \<open>What the specialised versions do once they know the order of the first fields.\<close>

lemma first_field_decides:
  assumes "wf_key p" "\<forall>f\<in>set (f # fs). wf_field f" "length (record_of (f # fs)) < 2 ^ 31"
    "header_size (length (header_of (f # fs))) < 128" "ur_nField p \<le> length (f # fs)"
    "ur_r1 p = (if aSortOrder (pKeyInfo p) ! 0 then 1 else -1)" "ur_r2 p = (if aSortOrder (pKeyInfo p) ! 0 then -1 else 1)"
    "sgn c = sgn (value_compare (aColl (pKeyInfo p) ! 0) (field_value f) (mem_value (aMem p ! 0)))"
    "res = (if c < 0 then (ur_r1 p, p) else if c > 0 then (ur_r2 p, p)
       else if ur_nField p > 1 then vdbeRecordCompareWithSkip (length (record_of (f # fs))) (record_of (f # fs)) p True
       else (default_rc p, p))"
  shows "snd res = p \<and> sgn (fst res) = sgn (key_order (f # fs) p)"
proof -
  let ?v = "value_compare (aColl (pKeyInfo p) ! 0) (field_value f) (mem_value (aMem p ! 0))"
  have v: "c < 0 \<longleftrightarrow> ?v < 0" "c > 0 \<longleftrightarrow> ?v > 0" "c = 0 \<longleftrightarrow> ?v = 0"
    using assms(8) by (simp_all add: sgn_if split: if_splits)
  consider "c < 0" | "c > 0" | "c = 0" by linarith
  then show ?thesis
  proof cases
    case 1
    then show ?thesis using v assms(6,9) unfolding key_order_Cons [OF assms(1)] by (simp add: Let_def)
  next
    case 2
    then show ?thesis using v assms(7,9) unfolding key_order_Cons [OF assms(1)] by (simp add: Let_def)
  next
    case 3
    show ?thesis
    proof (cases "ur_nField p > 1")
      case True
      then have "fs \<noteq> []" using assms(5) by auto
      then show ?thesis using RecordCompare_skip_eq [OF assms(1,2) _ assms(3,4) True] v 3 assms(9) True by simp
    next
      case False
      then have "drop 1 (key_cells p) = []" by simp
      then have "row_compare (drop 1 (key_columns p)) (map field_value fs) (map mem_value (drop 1 (key_cells p))) (default_rc p) = default_rc p"
        by (cases "drop 1 (key_columns p)") (auto split: list.splits elim: row_compare.elims)
      then show ?thesis using v 3 False assms(9) unfolding key_order_Cons [OF assms(1)] by (simp add: Let_def)
    qed
  qed
qed

lemma and_0x3f: "unat (b :: u8) \<le> 63 \<Longrightarrow> b AND 0x3f = b"
proof -
  assume a: "unat b \<le> 63"
  have m: "(0x3f :: u8) = mask 6" by (simp add: mask_eq_exp_minus_1)
  show ?thesis using a unfolding m take_bit_eq_mask [symmetric]
    by (simp add: word_unat_eq_iff take_bit_nat_eq_self unsigned_take_bit_eq)
qed

lemma RecordCompareInt_eq:
  assumes "wf_key p" "\<forall>f\<in>set (f # fs). wf_field f" "length (record_of (f # fs)) < 2 ^ 31"
    "length (f # fs) \<le> 13" "ur_nField p \<le> length (f # fs)" "has (aMem p ! 0) MEM_Int"
    "ur_r1 p = (if aSortOrder (pKeyInfo p) ! 0 then 1 else -1)" "ur_r2 p = (if aSortOrder (pKeyInfo p) ! 0 then -1 else 1)"
  defines "r \<equiv> record_of (f # fs)"
  shows "snd (vdbeRecordCompareInt (length r) r p) = p \<and> sgn (fst (vdbeRecordCompareInt (length r) r p)) = sgn (key_order (f # fs) p)"
proof -
  note l = record_layout [OF assms(3), folded r_def]
  let ?n = "header_size (length (header_of (f # fs)))"
  obtain st c where f: "f = (st, c)" by (cases f)
  have w: "wf_field (st, c)" "st < 2 ^ 32" using assms(2) f by (auto simp: wf_field_def)
  have "length (header_of (f # fs)) \<le> 65" using header_of_bound [OF assms(2)] assms(4) by simp
  then have n128: "?n < 128" by (simp add: header_size_def)
  then have one: "putVarint32 ?n = [of_nat ?n]" by (simp add: putVarint32_def)
  have r: "r = of_nat ?n # putVarint32 st @ header_of fs @ body_of (f # fs)" using one f by (simp add: r_def record_of_def)
  have byte: "r ! 1 = putVarint32 st ! 0" unfolding r using putVarint32_ne [OF w(2)] by (simp add: nth_append)
  have cell: "key_cell (aMem p ! 0)" using key_columns_drop(3) [OF assms(1), of 0] assms(1) by (simp add: wf_key_def)
  have m: "mem_value (aMem p ! 0) = VInt (u_i (aMem p ! 0))" using cell assms(6) by (cases rule: key_cell_cases) simp_all
  show ?thesis
  proof (cases "st \<in> {1, 2, 3, 4, 5, 6, 8, 9}")
    case False
    have "unat (r ! 1) \<notin> {1, 2, 3, 4, 5, 6, 8, 9}" using first_byte [OF w(2)] False unfolding byte by (auto split: if_splits)
    then have "vdbeRecordCompareInt (length r) r p = sqlite3VdbeRecordCompare (length r) r p"
      by (simp add: vdbeRecordCompareInt_def Let_def)
    then show ?thesis using RecordCompare_eq [OF assms(1,2) _ assms(3)] r_def by simp
  next
    case True
    have s: "unat (r ! 1) = st" using first_byte [OF w(2)] True unfolding byte by auto
    have "length (putVarint32 st) = 1" using VarintLen_cases [OF w(2)] True by (auto simp: length_putVarint32)
    moreover have "length (header_of fs) \<le> 60" using header_of_bound [of fs] assms(2,4) by simp
    ultimately have "length (header_of (f # fs)) \<le> 61" using f by simp
    then have "?n \<le> 62" by (simp add: header_size_def)
    moreover have "unat (r ! 0) = ?n" using n128 unfolding r by (simp add: unat_of_nat_byte)
    ultimately have key: "drop (unat (r ! 0 AND 0x3f)) r = c @ body_of fs" using and_0x3f [of "r ! 0"] l(7) f by simp
    from w(1) obtain i where i: "serial_value st c = VInt i" "\<And>rest. vdbeRecordDecodeInt st (c @ rest) = i"
      using True by (cases rule: wf_field_cases) auto
    let ?v = "u_i (aMem p ! 0)"
    have "vdbeRecordCompareInt (length r) r p =
      (if ?v > vdbeRecordDecodeInt st (c @ body_of fs) then (ur_r1 p, p)
       else if ?v < vdbeRecordDecodeInt st (c @ body_of fs) then (ur_r2 p, p)
       else if ur_nField p > 1 then vdbeRecordCompareWithSkip (length r) r p True else (default_rc p, p))"
      unfolding vdbeRecordCompareInt_def key s Let_def using True by (auto simp: vdbeRecordDecodeInt_def)
    then have "vdbeRecordCompareInt (length r) r p =
      (if cmp3_int i ?v < 0 then (ur_r1 p, p) else if cmp3_int i ?v > 0 then (ur_r2 p, p)
       else if ur_nField p > 1 then vdbeRecordCompareWithSkip (length r) r p True else (default_rc p, p))"
      unfolding i(2) by (simp add: cmp3_int_def)
    then show ?thesis unfolding r_def using m i(1) f
      by (intro first_field_decides [OF assms(1-3) n128 assms(5,7,8), where c = "cmp3_int i ?v"]) simp_all
  qed
qed

lemma RecordCompareString_eq:
  assumes "wf_key p" "\<forall>f\<in>set (f # fs). wf_field f" "length (record_of (f # fs)) \<le> 1000000000"
    "length (f # fs) \<le> 13" "ur_nField p \<le> length (f # fs)" "has (aMem p ! 0) MEM_Str" "\<not> has (aMem p ! 0) MEM_Int"
    "\<not> has (aMem p ! 0) MEM_Real" "aColl (pKeyInfo p) ! 0 = None"
    "ur_r1 p = (if aSortOrder (pKeyInfo p) ! 0 then 1 else -1)" "ur_r2 p = (if aSortOrder (pKeyInfo p) ! 0 then -1 else 1)"
  defines "r \<equiv> record_of (f # fs)"
  shows "snd (vdbeRecordCompareString (length r) r p) = p \<and> sgn (fst (vdbeRecordCompareString (length r) r p)) = sgn (key_order (f # fs) p)"
proof -
  have small: "length (record_of (f # fs)) < 2 ^ 31" using assms(3) by simp
  note l = record_layout [OF small, folded r_def]
  let ?n = "header_size (length (header_of (f # fs)))" and ?m = "aMem p ! 0"
  obtain st c where f: "f = (st, c)" by (cases f)
  have w: "wf_field (st, c)" "st < 2 ^ 32" "length c = sqlite3VdbeSerialTypeLen st" using assms(2) f by (auto simp: wf_field_def)
  have "length (header_of (f # fs)) \<le> 65" using header_of_bound [OF assms(2)] assms(4) by simp
  then have n128: "?n < 128" by (simp add: header_size_def)
  then have one: "putVarint32 ?n = [of_nat ?n]" by (simp add: putVarint32_def)
  have hd: "drop 1 r = putVarint32 st @ header_of fs @ body_of (f # fs)" using one f by (simp add: r_def record_of_def)
  have h0: "unat (r ! 0) = ?n" using n128 one by (simp add: r_def record_of_def unat_of_nat_byte)
  have cell: "key_cell ?m" using key_columns_drop(3) [OF assms(1), of 0] assms(1) by (simp add: wf_key_def)
  have m: "mem_value ?m = VText (take (mem_n ?m) (mem_z ?m))" using cell assms(6-8) by (cases rule: key_cell_cases) simp_all
  have lm: "mem_n ?m \<le> length (mem_z ?m)" using cell by (simp add: key_cell_def)
  have len: "?n + length c \<le> length r" using l(3) f by simp
  have st31: "int st < 2 ^ 31" using len assms(3) w(3) unfolding r_def by (simp add: sqlite3VdbeSerialTypeLen_def split: if_splits)
  have "fst (getVarint32 (drop 1 r)) = of_nat st" using getVarint32_put [OF w(2)] unfolding hd by simp
  then have ser: "sint (fst (getVarint32 (drop 1 r))) = int st"
    using st31 by (simp add: signed_of_nat signed_take_bit_int_eq_self)
  have body: "drop ?n r = c @ body_of fs" using l(7) f by simp
  let ?c = "if st < 12 then -1 else if even st then 1 else
    let rc = memcmp (c @ body_of fs) (mem_z ?m) (min (length c) (mem_n ?m)) in if rc = 0 then int (length c) - int (mem_n ?m) else rc"
  have "sgn ?c = sgn (value_compare None (serial_value st c) (mem_value ?m))"
    using w(1)
  proof (cases rule: wf_field_cases)
    case Text
    then show ?thesis using memcmp_cells [of "length c" "c @ body_of fs" "mem_n ?m" "mem_z ?m"] lm
      unfolding m by (simp add: sgn_bytes_cmp)
  qed (unfold m, auto)
  moreover have "vdbeRecordCompareString (length r) r p =
      (if ?c < 0 then (ur_r1 p, p) else if ?c > 0 then (ur_r2 p, p)
       else if ur_nField p > 1 then vdbeRecordCompareWithSkip (length r) r p True else (default_rc p, p))"
  proof -
    have n: "nat ((int st - 12) div 2) = length c" if "12 \<le> st"
      using that w(3) by (simp add: sqlite3VdbeSerialTypeLen_def nat_div_distrib nat_diff_distrib)
    obtain N where N: "unat (r ! 0) = N" "drop N r = c @ body_of fs" "N + length c \<le> length r" using h0 body len by blast
    show ?thesis
      unfolding vdbeRecordCompareString_def ser N(1) using n N(2,3) by (simp add: Let_def min.commute)
  qed
  ultimately show ?thesis unfolding r_def using assms(9) f
    by (intro first_field_decides [OF assms(1,2) small n128 assms(5,10,11), where c = ?c]) simp_all
qed

section \<open>Properties\<close>

text \<open>C34: Two cells compare as their values do: NULL before numbers before texts before blobs, integers exactly, an integer with a
  double as doubles, texts by the collating function and blobs byte by byte with the shorter first.\<close>

theorem MemCompare_orders_values:
  assumes "key_cell m" "key_cell k"
  shows "sgn (sqlite3MemCompare m k coll) = sgn (value_compare coll (mem_value m) (mem_value k))"
  using assms by (rule MemCompare_value)

theorem MemCompare_orders_values_witness:
  "sgn (sqlite3MemCompare (sample_text [97, 98]) (sample_text [97]) None) = 1 \<and>
   sgn (sqlite3MemCompare (sample_int 5) (sample_text []) None) = -1"
proof -
  have c: "key_cell (sample_text [97, 98])" "key_cell (sample_text [97])" "key_cell (sample_int 5)" "key_cell (sample_text [])" by code_simp+
  have v: "value_compare None (mem_value (sample_text [97, 98])) (mem_value (sample_text [97])) = 1"
    "value_compare None (mem_value (sample_int 5)) (mem_value (sample_text [])) = -1" by code_simp+
  show ?thesis using MemCompare_orders_values [OF c(1,2), of None] MemCompare_orders_values [OF c(3,4), of None] unfolding v by simp
qed

text \<open>C33: Comparing a row in its serialised form with an unpacked key gives the order of the rows of values, column by column with the
  sort order and collating function of each, whichever of the three functions is selected for the key. The record is made
  from cells, has the columns of the index and at least those of the key, and respects the limit on the length of a row.\<close>

theorem record_compare_correct:
  assumes "\<forall>m\<in>set ms. valid_mem m" "wf_key p" "length (row_bytes ff ms) \<le> 1000000000"
    "length ms = ki_nField (pKeyInfo p) + ki_nXField (pKeyInfo p)" "ur_nField p \<le> length ms"
  shows "let (fn, p') = sqlite3VdbeFindCompare p; r = record_compare fn (length (row_bytes ff ms)) (row_bytes ff ms) p' in
     snd r = p' \<and>
     sgn (fst r) = sgn (row_compare (key_columns p) (map mem_value ms) (map mem_value (key_cells p)) (default_rc p)) \<and>
     sgn (fst (sqlite3VdbeRecordCompare (length (row_bytes ff ms)) (row_bytes ff ms) p)) = sgn (fst r)"
proof -
  let ?fs = "map (field_of ff) ms" and ?r = "row_bytes ff ms"
  have fs: "\<forall>f\<in>set ?fs. wf_field f" "map field_value ?fs = map mem_value ms" using assms(1) wf_field_of by auto
  have "ms \<noteq> []" using assms(2,5) by (auto simp: wf_key_def)
  then obtain f gs where c: "?fs = f # gs" by (cases ms) auto
  have small: "length ?r < 2 ^ 31" using assms(3) by simp
  obtain fn p' where fp: "sqlite3VdbeFindCompare p = (fn, p')" by fastforce
  let ?d = "aSortOrder (pKeyInfo p) ! 0"
  have p': "pKeyInfo p' = pKeyInfo p" "ur_nField p' = ur_nField p" "aMem p' = aMem p" "default_rc p' = default_rc p"
    "fn \<noteq> CompareAny \<Longrightarrow> ur_r1 p' = (if ?d then 1 else -1) \<and> ur_r2 p' = (if ?d then -1 else 1) \<and> length ?fs \<le> 13"
    "fn = CompareInt \<Longrightarrow> has (aMem p ! 0) MEM_Int"
    "fn = CompareString \<Longrightarrow> \<not> has (aMem p ! 0) MEM_Int \<and> \<not> has (aMem p ! 0) (MEM_Real OR MEM_Null OR MEM_Blob) \<and> aColl (pKeyInfo p) ! 0 = None"
    using fp assms(4) by (auto simp: sqlite3VdbeFindCompare_def Let_def split: if_splits)
  have wf: "wf_key p'" using assms(2) p' by (simp add: wf_key_def)
  have n: "ur_nField p' \<le> length (f # gs)" using assms(5) p'(2) arg_cong [OF c, of length] by simp
  have wfs: "\<forall>f\<in>set (f # gs). wf_field f" using fs(1) unfolding c .
  have cell: "key_cell (aMem p ! 0)" using key_columns_drop(3) [OF assms(2), of 0] assms(2) by (simp add: wf_key_def)
  have any: "snd (sqlite3VdbeRecordCompare (length ?r) ?r q) = q \<and> sgn (fst (sqlite3VdbeRecordCompare (length ?r) ?r q)) = sgn (key_order ?fs q)"
    if "wf_key q" for q using RecordCompare_eq [OF that fs(1) _ small] c by simp
  have "snd (record_compare fn (length ?r) ?r p') = p' \<and> sgn (fst (record_compare fn (length ?r) ?r p')) = sgn (key_order ?fs p')"
  proof (cases fn)
    case CompareInt
    have "length (f # gs) \<le> 13" "ur_r1 p' = (if aSortOrder (pKeyInfo p') ! 0 then 1 else -1)"
      "ur_r2 p' = (if aSortOrder (pKeyInfo p') ! 0 then -1 else 1)" "has (aMem p' ! 0) MEM_Int"
      using CompareInt p'(5,6) unfolding c p'(1,3) by simp_all
    from RecordCompareInt_eq [OF wf wfs _ this(1) n this(4,2,3)] small show ?thesis unfolding c CompareInt by simp
  next
    case CompareString
    have no: "\<not> has (aMem p ! 0) MEM_Int" "\<not> has (aMem p ! 0) MEM_Real" "\<not> has (aMem p ! 0) MEM_Null" "\<not> has (aMem p ! 0) MEM_Blob"
      using p'(7) [OF CompareString] unfolding has_or by blast+
    have "has (aMem p ! 0) MEM_Str" using cell by (cases rule: key_cell_cases) (use no in simp_all)
    with no have m: "has (aMem p' ! 0) MEM_Str" "\<not> has (aMem p' ! 0) MEM_Int" "\<not> has (aMem p' ! 0) MEM_Real" "aColl (pKeyInfo p') ! 0 = None"
      using p'(7) [OF CompareString] unfolding p'(1,3) by simp_all
    have "length (f # gs) \<le> 13" "ur_r1 p' = (if aSortOrder (pKeyInfo p') ! 0 then 1 else -1)"
      "ur_r2 p' = (if aSortOrder (pKeyInfo p') ! 0 then -1 else 1)"
      using CompareString p'(5) unfolding c p'(1) by simp_all
    from RecordCompareString_eq [OF wf wfs _ this(1) n m this(2,3)] assms(3) show ?thesis unfolding c CompareString by simp
  next
    case CompareAny
    then show ?thesis using any [OF wf] by simp
  qed
  moreover have "key_order ?fs p' = row_compare (key_columns p) (map mem_value ms) (map mem_value (key_cells p)) (default_rc p)"
    unfolding fs(2) using p' by simp
  moreover have "key_order ?fs p = key_order ?fs p'" using p' by simp
  ultimately show ?thesis using fp any [OF assms(2)] by simp
qed

definition sample_key :: UnpackedRecord where
  "sample_key =
     \<lparr>pKeyInfo = \<lparr>ki_nField = 2, ki_nXField = 0, aSortOrder = [False, True, False], aColl = [None, None, None]\<rparr>,
      ur_nField = 2, default_rc = 0, errCode = 0, aMem = [sample_int 5, sample_text [98]], ur_r1 = 0, ur_r2 = 0\<rparr>"

theorem record_compare_correct_witness:
  "let (fn, p') = sqlite3VdbeFindCompare sample_key; r = record_compare fn 5 (row_bytes 4 [sample_int 5, sample_text [97]]) p' in
     fn = CompareInt \<and> snd r = p' \<and> sgn (fst r) = 1"
proof -
  let ?ms = "[sample_int 5, sample_text [97]]"
  have v: "\<forall>m\<in>set ?ms. valid_mem m" by (simp add: valid_mem_def has_def mem_bytes_def)
  have l: "length (row_bytes 4 ?ms) = 5" by code_simp
  then have s: "length (row_bytes 4 ?ms) \<le> 1000000000" by simp
  have k: "key_cell (sample_int 5)" "key_cell (sample_text [98])" by code_simp+
  then have w: "wf_key sample_key" by (simp add: wf_key_def sample_key_def)
  have o: "row_compare (key_columns sample_key) (map mem_value ?ms) (map mem_value (key_cells sample_key)) (default_rc sample_key) = 1" by code_simp
  have i: "fst (sqlite3VdbeFindCompare sample_key) = CompareInt" by code_simp
  have "length ?ms = ki_nField (pKeyInfo sample_key) + ki_nXField (pKeyInfo sample_key)" "ur_nField sample_key \<le> length ?ms"
    by (simp_all add: sample_key_def)
  from record_compare_correct [OF v w s this] i show ?thesis unfolding l o by (auto simp: Let_def split: prod.splits)
qed

text \<open>The order of numbers is not transitive: an integer and a double are compared as doubles, so that the double \<open>2\<^sup>5\<^sup>3\<close>
  equals both the integer \<open>2\<^sup>5\<^sup>3\<close> and its successor, which differ.\<close>

theorem MemCompare_not_transitive:
  "let a = sample_int 9007199254740992; b = sample_int 9007199254740993;
       r = \<lparr>mem_u = 0x4340000000000000, mem_flags = MEM_Real, mem_n = 0, mem_z = []\<rparr>
   in sqlite3MemCompare b r None = 0 \<and> sqlite3MemCompare r a None = 0 \<and> sqlite3MemCompare b a None = 1"
  by code_simp

end
