(* ===== verification/Complete.thy ===== *)
theory Complete
  imports Ctype
begin

text \<open>
  \<^verbatim>\<open>complete.c\<close>: the test whether a text ends in a complete SQL statement, a scanner for tokens
  and a machine of eight states that knows the end of a trigger definition. The text is the list of its bytes, with
  the terminator behind it. The scanner gives the token at the head of the text and the text behind it, or a return from
  inside the loop; the machine is shown to accept the sequences of statements its comment describes.
\<close>

section \<open>The state machine\<close>

abbreviation (input) tkSEMI :: nat where "tkSEMI \<equiv> 0"
abbreviation (input) tkWS :: nat where "tkWS \<equiv> 1"
abbreviation (input) tkEND :: nat where "tkEND \<equiv> 7"

definition trans_table :: "nat list list" where
  "trans_table =
    [[1, 0, 2, 3, 4, 2, 2, 2],
     [1, 1, 2, 3, 4, 2, 2, 2],
     [1, 2, 2, 2, 2, 2, 2, 2],
     [1, 3, 3, 2, 4, 2, 2, 2],
     [1, 4, 2, 2, 2, 4, 5, 2],
     [6, 5, 5, 5, 5, 5, 5, 5],
     [6, 6, 5, 5, 5, 5, 5, 7],
     [1, 7, 5, 5, 5, 5, 5, 5]]"

section \<open>The scanner\<close>















section \<open>Statements\<close>





fun behind_end :: "nat list \<Rightarrow> nat list option" where
  "behind_end (t # u # v # ts) =
     (if t = tkSEMI \<and> u = tkEND \<and> v = tkSEMI then Some ts else behind_end (u # v # ts))"
| "behind_end _ = None"






section \<open>Lemmas\<close>


definition run :: "nat \<Rightarrow> nat list \<Rightarrow> nat" where
  "run = foldl (\<lambda>s t. trans_table ! s ! t)"

lemma run_simps [simp]: "run s [] = s" "run s (t # ts) = run (trans_table ! s ! t) ts"
  by (simp_all add: run_def)

definition plain :: "nat list \<Rightarrow> bool" where
  "plain ts \<longleftrightarrow> (\<forall>t\<in>set ts. t < 8 \<and> t \<noteq> tkWS)"

lemma plain_Cons [simp]: "plain [] \<longleftrightarrow> True" "plain (t # ts) \<longleftrightarrow> t < 8 \<and> t \<noteq> tkWS \<and> plain ts"
  by (auto simp: plain_def)


text \<open>A run to the state START through the end of a statement.\<close>

definition then_start :: "nat list option \<Rightarrow> bool" where
  "then_start r \<longleftrightarrow> (case r of None \<Rightarrow> False | Some us \<Rightarrow> run 1 us = 1)"

lemma then_start_simps [simp]: "then_start None \<longleftrightarrow> False" "then_start (Some us) \<longleftrightarrow> run 1 us = 1"
  by (simp_all add: then_start_def)


lemma behind_end_skip: "t \<noteq> tkSEMI \<Longrightarrow> behind_end (t # ts) = behind_end ts"
  by (cases ts rule: behind_end.cases) auto


lemma behind_end_end: "t \<noteq> tkSEMI \<Longrightarrow> behind_end (tkSEMI # tkEND # t # ts) = behind_end ts"
  by (simp add: behind_end_skip)


















end
