(* ===== verification/Rtree_Node.thy ===== *)
theory Rtree_Node
  imports Fp "HOL-Library.AList"
begin

text \<open>
  The data model of \<^verbatim>\<open>rtree.c\<close> and the operations on the byte image of one node. The
  record \<open>Rtree\<close> is \<open>struct Rtree\<close>; beside the fields of the C structure it holds what
  the code reaches through pointers and statements: the in-memory \<open>RtreeNode\<close> objects at
  their addresses, the three shadow tables (rows keyed by their INTEGER PRIMARY KEY), the
  result codes the SQL statements still to be executed return and the outcomes of the calls
  of \<open>sqlite3_malloc\<close> still to be made (an exhausted list means success). A node
  image is the byte list \<open>zData\<close>; the operations below are the C functions on it, and the
  lemmas relate it to the list of its cells.
\<close>

section \<open>Constants and structures\<close>

abbreviation (input) RTREE_MAX_DIMENSIONS :: nat where "RTREE_MAX_DIMENSIONS \<equiv> 5"
abbreviation (input) HASHSIZE :: nat where "HASHSIZE \<equiv> 97"
abbreviation (input) RTREE_MAX_DEPTH :: int where "RTREE_MAX_DEPTH \<equiv> 40"
abbreviation (input) RTREE_MAXCELLS :: int where "RTREE_MAXCELLS \<equiv> 51"
abbreviation (input) RTREE_CACHE_SZ :: nat where "RTREE_CACHE_SZ \<equiv> 5"

datatype coord_type = RTREE_COORD_REAL32 | RTREE_COORD_INT32

type_synonym nptr = "nat option"

record RtreeNode =
  pParent :: nptr
  iNode :: i64
  nRef :: int
  isDirty :: bool
  zData :: "u8 list"
  pNext :: nptr

record RtreeCell =
  iRowid :: i64
  aCoord :: "u32 list"

record Rtree =
  iNodeSize :: int
  nDim :: nat
  eCoordType :: coord_type
  nBytesPerCell :: nat
  iDepth :: int
  nBusy :: int
  nRowEst :: int
  pDeleted :: nptr
  iReinsertHeight :: int
  aHash :: "nptr list"
  heap :: "nat \<rightharpoonup> RtreeNode"
  nextAddr :: nat
  nodeTab :: "(i64 \<times> u8 list) list"
  rowidTab :: "(i64 \<times> i64) list"
  parentTab :: "(i64 \<times> i64) list"
  lastInsert :: i64
  sqlRc :: "int list"
  mallocFails :: "bool list"

section \<open>Serialisation\<close>

definition readInt16 :: "u8 list \<Rightarrow> int" where
  "readInt16 p = push_bit 8 (uint (p ! 0)) + uint (p ! 1)"

definition readCoord :: "u8 list \<Rightarrow> u32" where
  "readCoord p =
     push_bit 24 (ucast (p ! 0)) + push_bit 16 (ucast (p ! 1)) +
     push_bit 8 (ucast (p ! 2)) + ucast (p ! 3)"

definition readInt64 :: "u8 list \<Rightarrow> i64" where
  "readInt64 p =
     push_bit 56 (ucast (p ! 0)) + push_bit 48 (ucast (p ! 1)) +
     push_bit 40 (ucast (p ! 2)) + push_bit 32 (ucast (p ! 3)) +
     push_bit 24 (ucast (p ! 4)) + push_bit 16 (ucast (p ! 5)) +
     push_bit 8 (ucast (p ! 6)) + ucast (p ! 7)"

definition writeInt16 :: "u8 list \<Rightarrow> int \<Rightarrow> u8 list" where
  "writeInt16 p i = p[0 := of_int (drop_bit 8 i AND 0xff), 1 := of_int (i AND 0xff)]"

definition writeCoord :: "u8 list \<Rightarrow> u32 \<Rightarrow> u8 list" where
  "writeCoord p i =
     p[0 := ucast (drop_bit 24 i AND 0xff), 1 := ucast (drop_bit 16 i AND 0xff),
       2 := ucast (drop_bit 8 i AND 0xff), 3 := ucast (i AND 0xff)]"

definition writeInt64 :: "u8 list \<Rightarrow> i64 \<Rightarrow> u8 list" where
  "writeInt64 p i =
     p[0 := ucast (drop_bit 56 i AND 0xff), 1 := ucast (drop_bit 48 i AND 0xff),
       2 := ucast (drop_bit 40 i AND 0xff), 3 := ucast (drop_bit 32 i AND 0xff),
       4 := ucast (drop_bit 24 i AND 0xff), 5 := ucast (drop_bit 16 i AND 0xff),
       6 := ucast (drop_bit 8 i AND 0xff), 7 := ucast (i AND 0xff)]"

section \<open>Cells of a node\<close>

definition NCELL :: "RtreeNode \<Rightarrow> int" where
  "NCELL n = readInt16 (drop 2 (zData n))"

definition RTREE_MINCELLS :: "Rtree \<Rightarrow> int" where
  "RTREE_MINCELLS t = ((iNodeSize t - 4) sdiv int (nBytesPerCell t)) sdiv 3"

definition nodeZero :: "Rtree \<Rightarrow> RtreeNode \<Rightarrow> RtreeNode" where
  "nodeZero t n =
     n\<lparr>zData := at_off 2 (\<lambda>p. memset p 0 (nat (iNodeSize t - 2))) (zData n), isDirty := True\<rparr>"

fun writeCoords :: "u8 list \<Rightarrow> u32 list \<Rightarrow> u8 list" where
  "writeCoords p [] = p"
| "writeCoords p (c # cs) =
     (let p' = writeCoord p c in take 4 p' @ writeCoords (drop 4 p') cs)"

definition nodeOverwriteCell :: "Rtree \<Rightarrow> RtreeNode \<Rightarrow> RtreeCell \<Rightarrow> nat \<Rightarrow> RtreeNode" where
  "nodeOverwriteCell t n c iCell =
     n\<lparr>zData := at_off (4 + nBytesPerCell t * iCell)
          (\<lambda>p. let p' = writeInt64 p (iRowid c)
               in take 8 p' @ writeCoords (drop 8 p') (take (nDim t * 2) (aCoord c)))
          (zData n),
       isDirty := True\<rparr>"

definition nodeDeleteCell :: "Rtree \<Rightarrow> RtreeNode \<Rightarrow> nat \<Rightarrow> RtreeNode" where
  "nodeDeleteCell t n iCell =
     (let nb = nBytesPerCell t;
          nByte = nat ((NCELL n - int iCell - 1) * int nb);
          z = at_off (4 + nb * iCell) (\<lambda>pDst. memcpy pDst (drop nb pDst) nByte) (zData n)
      in n\<lparr>zData := at_off 2 (\<lambda>p. writeInt16 p (NCELL n - 1)) z, isDirty := True\<rparr>)"

definition nMaxCell :: "Rtree \<Rightarrow> int" where
  "nMaxCell t = (iNodeSize t - 4) sdiv int (nBytesPerCell t)"

definition nodeInsertCell :: "Rtree \<Rightarrow> RtreeNode \<Rightarrow> RtreeCell \<Rightarrow> bool \<times> RtreeNode" where
  "nodeInsertCell t n c =
     (let nCell = NCELL n
      in (nCell = nMaxCell t,
          if nCell < nMaxCell t then
            (let n' = nodeOverwriteCell t n c (nat nCell)
             in n'\<lparr>zData := at_off 2 (\<lambda>p. writeInt16 p (nCell + 1)) (zData n'), isDirty := True\<rparr>)
          else n))"

definition nodeGetRowid :: "Rtree \<Rightarrow> RtreeNode \<Rightarrow> nat \<Rightarrow> i64" where
  "nodeGetRowid t n iCell = readInt64 (drop (4 + nBytesPerCell t * iCell) (zData n))"

definition nodeGetCoord :: "Rtree \<Rightarrow> RtreeNode \<Rightarrow> nat \<Rightarrow> nat \<Rightarrow> u32" where
  "nodeGetCoord t n iCell iCoord =
     readCoord (drop (12 + nBytesPerCell t * iCell + 4 * iCoord) (zData n))"

text \<open>The loop of \<open>nodeGetCell\<close>: \<open>k\<close> coordinates from \<open>pData\<close> on.\<close>

fun readCoords :: "u8 list \<Rightarrow> nat \<Rightarrow> u32 list" where
  "readCoords p 0 = []"
| "readCoords p (Suc k) = readCoord p # readCoords (drop 4 p) k"

definition nodeGetCell :: "Rtree \<Rightarrow> RtreeNode \<Rightarrow> nat \<Rightarrow> RtreeCell" where
  "nodeGetCell t n iCell =
     \<lparr>iRowid = nodeGetRowid t n iCell,
      aCoord = readCoords (drop (12 + nBytesPerCell t * iCell) (zData n)) (nDim t * 2)\<rparr>"

text \<open>Search for a cell by its 64-bit integer; the error is the corruption code.\<close>

fun nodeRowidIndex_loop :: "Rtree \<Rightarrow> RtreeNode \<Rightarrow> i64 \<Rightarrow> nat \<Rightarrow> nat \<Rightarrow> int + nat" where
  "nodeRowidIndex_loop t n rid ii 0 = Inl SQLITE_CORRUPT_VTAB"
| "nodeRowidIndex_loop t n rid ii (Suc k) =
     (if nodeGetRowid t n ii = rid then Inr ii else nodeRowidIndex_loop t n rid (Suc ii) k)"

definition nodeRowidIndex :: "Rtree \<Rightarrow> RtreeNode \<Rightarrow> i64 \<Rightarrow> int + nat" where
  "nodeRowidIndex t n rid = nodeRowidIndex_loop t n rid 0 (nat (NCELL n))"

section \<open>Well-formed nodes\<close>

text \<open>
  The geometry of a table as \<open>rtreeInit\<close> sets it up: one to five dimensions, a cell of an
  eight-byte integer and two coordinates per dimension, and a node that holds a header of
  four bytes. The cell count is a 16-bit field.
\<close>

definition wf_rtree :: "Rtree \<Rightarrow> bool" where
  "wf_rtree t \<longleftrightarrow> 1 \<le> nDim t \<and> nDim t \<le> RTREE_MAX_DIMENSIONS \<and>
     nBytesPerCell t = 8 + nDim t * 4 * 2 \<and> 4 \<le> iNodeSize t \<and> nMaxCell t < 65536"

definition wf_node :: "Rtree \<Rightarrow> RtreeNode \<Rightarrow> bool" where
  "wf_node t n \<longleftrightarrow> int (length (zData n)) = iNodeSize t \<and> NCELL n \<le> nMaxCell t"

definition wf_cell :: "Rtree \<Rightarrow> RtreeCell \<Rightarrow> bool" where
  "wf_cell t c \<longleftrightarrow> length (aCoord c) = nDim t * 2"

text \<open>The abstract value of a node: the list of its cells.\<close>

definition node_cells :: "Rtree \<Rightarrow> RtreeNode \<Rightarrow> RtreeCell list" where
  "node_cells t n = map (nodeGetCell t n) [0..<nat (NCELL n)]"

section \<open>Lemmas: serialisation\<close>

lemma list_ge_2: "2 \<le> length p \<longleftrightarrow> (\<exists>a b r. p = a # b # r)"
  by (auto simp: numeral_eq_Suc Suc_le_length_iff)
lemma list_ge_4: "4 \<le> length p \<longleftrightarrow> (\<exists>a b c d r. p = a # b # c # d # r)"
  by (auto simp: numeral_eq_Suc Suc_le_length_iff)
lemma list_ge_8: "8 \<le> length p \<longleftrightarrow> (\<exists>a b c d e f g h r. p = a # b # c # d # e # f # g # h # r)"
  by (auto simp: numeral_eq_Suc Suc_le_length_iff)

lemma length_writeInt16 [simp]: "length (writeInt16 p i) = length p"
  by (simp add: writeInt16_def)
lemma length_writeCoord [simp]: "length (writeCoord p i) = length p"
  by (simp add: writeCoord_def)
lemma length_writeInt64 [simp]: "length (writeInt64 p i) = length p"
  by (simp add: writeInt64_def)

lemma uint_of_int_byte: "uint (of_int i :: u8) = i mod 256"
  by (simp add: uint_word_of_int)

lemma readInt16_writeInt16 [bytes_simps]:
  "2 \<le> length p \<Longrightarrow> readInt16 (writeInt16 p i) = i mod 65536"
proof -
  have m: "x AND 0xff = x mod 256" for x :: int
    using take_bit_eq_mask [of 8 x] by (simp add: take_bit_eq_mod mask_eq_exp_minus_1)
  have "i mod 65536 = 256 * (i div 256 mod 256) + i mod 256"
    using zmod_zmult2_eq [of 256 i 256] by simp
  then show "2 \<le> length p \<Longrightarrow> ?thesis"
    by (auto simp: list_ge_2 readInt16_def writeInt16_def m uint_of_int_byte push_bit_eq_mult drop_bit_eq_div)
qed

lemma writeInt16_tail [bytes_simps]: "drop 2 (writeInt16 p i) = drop 2 p"
  by (simp add: writeInt16_def)

lemma readInt16_bounds: "0 \<le> readInt16 p \<and> readInt16 p < 65536"
proof -
  have "uint (p ! 0) < 256" "uint (p ! 1) < 256" 
    using uint_bounded [of "p ! 0"] uint_bounded [of "p ! 1"] by simp_all
  then show ?thesis by (simp add: readInt16_def push_bit_eq_mult)
qed

lemma writeCoord_eq: "4 \<le> length p \<Longrightarrow> writeCoord p c = be_bytes 4 (unat c) @ drop 4 p"
  by (auto simp: list_ge_4 writeCoord_def and_0xff_ucast byte_of_word)

lemma readCoord_eq: "4 \<le> length p \<Longrightarrow> readCoord p = of_nat (be_nat (take 4 p))"
  by (auto simp: list_ge_4 readCoord_def push_bit_byte)

lemma writeInt64_eq: "8 \<le> length p \<Longrightarrow> writeInt64 p c = be_bytes 8 (unat c) @ drop 8 p"
  by (auto simp: list_ge_8 writeInt64_def and_0xff_ucast byte_of_word)

lemma readInt64_eq: "8 \<le> length p \<Longrightarrow> readInt64 p = of_nat (be_nat (take 8 p))"
  by (auto simp: list_ge_8 readInt64_def push_bit_byte)

lemma readCoord_writeCoord [bytes_simps]: "4 \<le> length p \<Longrightarrow> readCoord (writeCoord p c) = c"
  using unat_less_exp [of c]
  by (simp add: readCoord_eq writeCoord_eq be_nat_be_bytes del: be_bytes_numeral)

lemma readInt64_writeInt64 [bytes_simps]: "8 \<le> length p \<Longrightarrow> readInt64 (writeInt64 p c) = c"
  using unat_less_exp [of c]
  by (simp add: readInt64_eq writeInt64_eq be_nat_be_bytes del: be_bytes_numeral)

lemma readInt64_take: "8 \<le> n \<Longrightarrow> readInt64 (take n p) = readInt64 p"
  by (simp add: readInt64_def)

lemma readCoord_take: "4 \<le> n \<Longrightarrow> readCoord (take n p) = readCoord p"
  by (simp add: readCoord_def)

lemma readCoords_take: "4 * k \<le> n \<Longrightarrow> readCoords (take n p) k = readCoords p k"
  by (induction k arbitrary: n p) (auto simp: readCoord_take drop_take)

lemma length_readCoords [simp]: "length (readCoords p k) = k"
  by (induction k arbitrary: p) auto

lemma nth_readCoords: "i < k \<Longrightarrow> readCoords p k ! i = readCoord (drop (4 * i) p)"
  by (induction k arbitrary: i p) (auto simp: nth_Cons add.commute split: nat.split)

definition coords_bytes :: "u32 list \<Rightarrow> u8 list" where
  "coords_bytes cs = concat (map (\<lambda>c. be_bytes 4 (unat c)) cs)"

lemma length_coords_bytes [simp]: "length (coords_bytes cs) = 4 * length cs"
  by (induction cs) (auto simp: coords_bytes_def)

lemma writeCoords_eq:
  "4 * length cs \<le> length p \<Longrightarrow> writeCoords p cs = coords_bytes cs @ drop (4 * length cs) p"
  by (induction cs arbitrary: p)
    (auto simp: coords_bytes_def writeCoord_eq Let_def add.commute simp del: be_bytes_numeral)

lemma readCoords_coords_bytes: "readCoords (coords_bytes cs @ r) (length cs) = cs"
proof (induction cs)
  case (Cons c cs)
  have "readCoord (be_bytes 4 (unat c) @ coords_bytes cs @ r) = c"
    using readCoord_writeCoord [of "be_bytes 4 (unat c) @ coords_bytes cs @ r" c]
    by (simp add: writeCoord_eq del: be_bytes_numeral)
  with Cons show ?case by (simp add: coords_bytes_def del: be_bytes_numeral)
qed (simp add: coords_bytes_def)

text \<open>One cell as bytes, and back.\<close>

definition cell_bytes :: "RtreeCell \<Rightarrow> u8 list" where
  "cell_bytes c = be_bytes 8 (unat (iRowid c)) @ coords_bytes (aCoord c)"

definition cell_of_bytes :: "nat \<Rightarrow> u8 list \<Rightarrow> RtreeCell" where
  "cell_of_bytes nd p = \<lparr>iRowid = readInt64 p, aCoord = readCoords (drop 8 p) (nd * 2)\<rparr>"

lemma length_cell_bytes: "wf_rtree t \<Longrightarrow> wf_cell t c \<Longrightarrow> length (cell_bytes c) = nBytesPerCell t"
  by (simp add: cell_bytes_def wf_rtree_def wf_cell_def del: be_bytes_numeral)

lemma cell_of_bytes_cell_bytes:
  "wf_cell t c \<Longrightarrow> cell_of_bytes (nDim t) (cell_bytes c @ r) = c"
  using readInt64_writeInt64 [of "cell_bytes c @ r" "iRowid c"] readCoords_coords_bytes [of "aCoord c" r]
  by (simp add: cell_of_bytes_def cell_bytes_def wf_cell_def writeInt64_eq del: be_bytes_numeral)

lemma cell_of_bytes_take:
  "wf_rtree t \<Longrightarrow> cell_of_bytes (nDim t) (take (nBytesPerCell t) p) = cell_of_bytes (nDim t) p"
  by (simp add: cell_of_bytes_def wf_rtree_def readInt64_take drop_take readCoords_take)

section \<open>Lemmas: the slots of a node image\<close>

definition slot :: "Rtree \<Rightarrow> u8 list \<Rightarrow> nat \<Rightarrow> u8 list" where
  "slot t z i = take (nBytesPerCell t) (drop (4 + nBytesPerCell t * i) z)"

lemma nodeGetCell_slot:
  "wf_rtree t \<Longrightarrow> nodeGetCell t n i = cell_of_bytes (nDim t) (slot t (zData n) i)"
  by (simp add: slot_def cell_of_bytes_take)
    (simp add: nodeGetCell_def nodeGetRowid_def cell_of_bytes_def add.commute add.left_commute)

lemma wf_nodeGetCell [simp, wf_intros]: "wf_cell t (nodeGetCell t n i)"
  by (simp add: wf_cell_def nodeGetCell_def)

lemma slot_blit:
  assumes "length e = nBytesPerCell t" "4 + nBytesPerCell t * i + nBytesPerCell t \<le> length z"
  shows "slot t (at_off (4 + nBytesPerCell t * i) (\<lambda>p. e @ drop (length e) p) z) j
       = (if j = i then e else slot t z j)"
proof -
  consider "j < i" | "j = i" | "i < j" by linarith
  then show ?thesis
  proof cases
    case 1
    then have "nBytesPerCell t * j + nBytesPerCell t \<le> nBytesPerCell t * i"
      by (metis Suc_leI add.commute mult_Suc_right mult_le_mono2)
    with 1 assms show ?thesis by (auto simp: slot_def at_off_def drop_take min_def)
  next
    case 2
    with assms show ?thesis by (simp add: slot_def at_off_def)
  next
    case 3
    then have "nBytesPerCell t * i + nBytesPerCell t \<le> nBytesPerCell t * j"
      by (metis Suc_leI add.commute mult_Suc_right mult_le_mono2)
    with 3 assms show ?thesis by (simp add: slot_def at_off_def add.commute)
  qed
qed

lemma slot_header: "slot t (at_off 2 (\<lambda>p. writeInt16 p i) z) j = slot t z j" if "4 \<le> length z"
proof -
  have "drop 4 (at_off 2 (\<lambda>p. writeInt16 p i) z) = drop 4 z"
    using that writeInt16_tail [of "drop 2 z" i] by (simp add: at_off_def min_def)
  then have "drop (4 + k) (at_off 2 (\<lambda>p. writeInt16 p i) z) = drop (4 + k) z" for k
    by (metis drop_drop add.commute)
  then show ?thesis unfolding slot_def by metis
qed

lemma slot_memmove:
  fixes t z i k
  defines "nb \<equiv> nBytesPerCell t"
  assumes k: "4 + nb * i + nb + nb * k \<le> length z" and j: "j < i + k"
  shows "slot t (at_off (4 + nb * i) (\<lambda>p. memcpy p (drop nb p) (nb * k)) z) j
       = slot t z (if j < i then j else Suc j)"
proof (cases "j < i")
  case True
  then have "nb * j + nb \<le> nb * i"
    by (metis Suc_leI add.commute mult_Suc_right mult_le_mono2)
  with True k show ?thesis
    unfolding slot_def nb_def [symmetric] by (auto simp: at_off_def drop_take min_def)
next
  case False
  then obtain d where d: "j = i + d" by (metis le_add_diff_inverse linorder_not_less)
  with j have "d < k" by simp
  then have dk: "nb * d + nb \<le> nb * k"
    by (metis Suc_leI add.commute mult_Suc_right mult_le_mono2)
  with k have "take nb (drop (4 + nb * j) (at_off (4 + nb * i) (\<lambda>p. memcpy p (drop nb p) (nb * k)) z))
      = take nb (drop (nb * d) (take (nb * k) (drop nb (drop (4 + nb * i) z))))"
    by (auto simp: at_off_def memcpy_def d distrib_left)
  also have "\<dots> = take nb (drop (4 + nb * Suc j) z)"
    using dk by (auto simp: d drop_take min_def distrib_left add_ac)
  finally show ?thesis using False by (simp add: slot_def nb_def)
qed

section \<open>Lemmas: the operations on the list of cells\<close>

lemma NCELL_bounds: "0 \<le> NCELL n \<and> NCELL n < 65536"
  unfolding NCELL_def by (rule readInt16_bounds)

lemma length_node_cells [simp]: "length (node_cells t n) = nat (NCELL n)"
  by (simp add: node_cells_def)

lemma node_cells_nth: "i < nat (NCELL n) \<Longrightarrow> node_cells t n ! i = nodeGetCell t n i"
  by (simp add: node_cells_def)

lemma nMaxCell_eq: "wf_rtree t \<Longrightarrow> nMaxCell t = (iNodeSize t - 4) div int (nBytesPerCell t)"
  unfolding nMaxCell_def wf_rtree_def by (simp add: sdiv_nonneg)

lemma nMaxCell_fits:
  assumes "wf_rtree t"
  shows "0 \<le> nMaxCell t" "4 + int (nBytesPerCell t) * nMaxCell t \<le> iNodeSize t"
proof -
  let ?b = "int (nBytesPerCell t)" and ?x = "iNodeSize t - 4"
  have b: "0 < ?b" "0 \<le> ?x" using assms by (auto simp: wf_rtree_def)
  then show "0 \<le> nMaxCell t" using nMaxCell_eq [OF assms] by (simp add: pos_imp_zdiv_nonneg_iff)
  have "0 \<le> ?x mod ?b" using b(1) by (rule pos_mod_sign)
  moreover have "?b * (?x div ?b) + ?x mod ?b = ?x" by simp
  ultimately show "4 + ?b * nMaxCell t \<le> iNodeSize t" unfolding nMaxCell_eq [OF assms] by linarith
qed

lemma slot_fits:
  assumes "wf_rtree t" "wf_node t n" "int i < nMaxCell t"
  shows "4 + nBytesPerCell t * i + nBytesPerCell t \<le> length (zData n)"
proof -
  have "int (nBytesPerCell t) * (int i + 1) \<le> int (nBytesPerCell t) * nMaxCell t"
    using assms(3) by (intro mult_left_mono) auto
  then have "int (4 + nBytesPerCell t * i + nBytesPerCell t) \<le> iNodeSize t"
    using nMaxCell_fits [OF assms(1)] by (simp add: distrib_left)
  then show ?thesis using assms(2) unfolding wf_node_def by linarith
qed

lemma nodeOverwriteCell_zData:
  assumes "wf_rtree t" "wf_node t n" "wf_cell t c" "int i < nMaxCell t"
  shows "zData (nodeOverwriteCell t n c i) =
    at_off (4 + nBytesPerCell t * i) (\<lambda>p. cell_bytes c @ drop (length (cell_bytes c)) p) (zData n)"
proof -
  have l: "nBytesPerCell t \<le> length (drop (4 + nBytesPerCell t * i) (zData n))"
    using slot_fits [OF assms(1,2,4)] by simp
  moreover have "nBytesPerCell t = 8 + 4 * length (aCoord c)" "length (aCoord c) = nDim t * 2"
    using assms(1,3) by (auto simp: wf_rtree_def wf_cell_def)
  ultimately show ?thesis
    by (simp add: nodeOverwriteCell_def at_off_def Let_def writeInt64_eq writeCoords_eq cell_bytes_def
        add.commute add.left_commute del: be_bytes_numeral)
qed

lemma slot_nodeOverwriteCell:
  assumes "wf_rtree t" "wf_node t n" "wf_cell t c" "int i < nMaxCell t"
  shows "slot t (zData (nodeOverwriteCell t n c i)) j = (if j = i then cell_bytes c else slot t (zData n) j)"
  using slot_blit [of "cell_bytes c" t i "zData n" j] slot_fits [OF assms(1,2,4)]
    length_cell_bytes [OF assms(1,3)] nodeOverwriteCell_zData [OF assms]
  by simp

lemma length_nodeOverwriteCell:
  assumes "wf_rtree t" "wf_node t n" "wf_cell t c" "int i < nMaxCell t"
  shows "length (zData (nodeOverwriteCell t n c i)) = length (zData n)"
  using slot_fits [OF assms(1,2,4)] length_cell_bytes [OF assms(1,3)]
  unfolding nodeOverwriteCell_zData [OF assms] by (simp add: at_off_def)

lemma take4_nodeOverwriteCell:
  assumes "wf_rtree t" "wf_node t n" "wf_cell t c" "int i < nMaxCell t"
  shows "take 4 (zData (nodeOverwriteCell t n c i)) = take 4 (zData n)"
  using slot_fits [OF assms(1,2,4)]
  unfolding nodeOverwriteCell_zData [OF assms] by (simp add: take_at_off)

lemma NCELL_take4:
  assumes "take 4 (zData n) = take 4 (zData m)" "4 \<le> length (zData n)" "4 \<le> length (zData m)"
  shows "NCELL n = NCELL m"
proof -
  have "take 4 (zData n) ! k = take 4 (zData m) ! k" for k using assms(1) by simp
  from this [of 2] this [of 3] assms(2,3) show ?thesis by (simp add: NCELL_def readInt16_def)
qed

lemma NCELL_header:
  "4 \<le> length z \<Longrightarrow> 0 \<le> i \<Longrightarrow> i < 65536 \<Longrightarrow>
   NCELL (n\<lparr>zData := at_off 2 (\<lambda>p. writeInt16 p i) z, isDirty := d\<rparr>) = i"
  by (simp add: NCELL_def drop_at_off readInt16_writeInt16)

lemma wf_node_size: "wf_rtree t \<Longrightarrow> wf_node t n \<Longrightarrow> 4 \<le> length (zData n)"
  unfolding wf_rtree_def wf_node_def by linarith

lemma cell_of_bytes_cell: "wf_cell t c \<Longrightarrow> cell_of_bytes (nDim t) (cell_bytes c) = c"
  using cell_of_bytes_cell_bytes [of t c "[]"] by simp

lemma NCELL_nodeOverwriteCell:
  assumes "wf_rtree t" "wf_node t n" "wf_cell t c" "int i < nMaxCell t"
  shows "NCELL (nodeOverwriteCell t n c i) = NCELL n"
  using wf_node_size [OF assms(1,2)] take4_nodeOverwriteCell [OF assms] length_nodeOverwriteCell [OF assms]
  by (intro NCELL_take4) auto

lemma nodeOverwriteCell_cells:
  assumes "wf_rtree t" "wf_node t n" "wf_cell t c" "int i < NCELL n"
  shows "wf_node t (nodeOverwriteCell t n c i)"
    and "node_cells t (nodeOverwriteCell t n c i) = (node_cells t n)[i := c]"
proof -
  have i: "int i < nMaxCell t" using assms(2,4) by (simp add: wf_node_def)
  note a = assms(1-3) i
  show "wf_node t (nodeOverwriteCell t n c i)"
    using assms(2) by (simp add: wf_node_def length_nodeOverwriteCell [OF a] NCELL_nodeOverwriteCell [OF a])
  show "node_cells t (nodeOverwriteCell t n c i) = (node_cells t n)[i := c]"
    by (rule nth_equalityI)
      (auto simp: NCELL_nodeOverwriteCell [OF a] node_cells_nth nodeGetCell_slot [OF assms(1)]
        slot_nodeOverwriteCell [OF a] nth_list_update cell_of_bytes_cell [OF assms(3)])
qed

lemma nodeInsertCell_full:
  "nodeInsertCell t n c = (True, n)" if "NCELL n = nMaxCell t"
  using that by (simp add: nodeInsertCell_def)

lemma nodeInsertCell_room:
  assumes "wf_rtree t" "wf_node t n" "wf_cell t c" "NCELL n < nMaxCell t"
  obtains n' where "nodeInsertCell t n c = (False, n')" "wf_node t n'"
    "node_cells t n' = node_cells t n @ [c]" "iNode n' = iNode n" "pParent n' = pParent n"
    "nRef n' = nRef n" "pNext n' = pNext n" "isDirty n'" "take 2 (zData n') = take 2 (zData n)"
proof -
  let ?i = "nat (NCELL n)"
  have N: "0 \<le> NCELL n" "NCELL n < 65535"
    using NCELL_bounds [of n] assms(1,4) by (auto simp: wf_rtree_def)
  have i: "int ?i < nMaxCell t" using assms(4) N by simp
  note a = assms(1-3) i
  let ?m = "nodeOverwriteCell t n c ?i"
  let ?n' = "?m\<lparr>zData := at_off 2 (\<lambda>p. writeInt16 p (NCELL n + 1)) (zData ?m), isDirty := True\<rparr>"
  have l: "length (zData ?m) = length (zData n)" by (rule length_nodeOverwriteCell [OF a])
  have l4: "4 \<le> length (zData ?m)" using wf_node_size [OF assms(1,2)] l by simp
  have NC: "NCELL ?n' = NCELL n + 1" using l4 N by (intro NCELL_header) auto
  have sl: "slot t (at_off 2 (\<lambda>p. writeInt16 p (NCELL n + 1)) (zData ?m)) j = (if j = ?i then cell_bytes c else slot t (zData n) j)" for j
    using slot_header [OF l4] slot_nodeOverwriteCell [OF a] by simp
  show ?thesis
  proof
    show "nodeInsertCell t n c = (False, ?n')"
      using assms(4) by (simp add: nodeInsertCell_def Let_def)
    show "wf_node t ?n'" using assms(2,4) NC l by (simp add: wf_node_def)
    show "node_cells t ?n' = node_cells t n @ [c]"
      by (rule nth_equalityI)
        (use N in \<open>auto simp: NC node_cells_nth nodeGetCell_slot [OF assms(1)] sl nth_append nat_add_distrib
          cell_of_bytes_cell [OF assms(3)]\<close>)
    show "take 2 (zData ?n') = take 2 (zData n)"
      using l4 l arg_cong [OF take4_nodeOverwriteCell [OF a], of "take 2"] by (simp add: at_off_def)
  qed (simp_all add: nodeOverwriteCell_def)
qed

lemma nodeDeleteCell_cells:
  assumes "wf_rtree t" "wf_node t n" "int i < NCELL n"
  shows "wf_node t (nodeDeleteCell t n i)"
    and "node_cells t (nodeDeleteCell t n i) = take i (node_cells t n) @ drop (Suc i) (node_cells t n)"
proof -
  let ?nb = "nBytesPerCell t" and ?k = "nat (NCELL n) - i - 1"
  let ?z = "at_off (4 + ?nb * i) (\<lambda>p. memcpy p (drop ?nb p) (?nb * ?k)) (zData n)"
  have k: "nat ((NCELL n - int i - 1) * int ?nb) = ?nb * ?k"
    using assms(3) by (simp add: nat_mult_distrib nat_diff_distrib mult.commute)
  have NC0: "0 < NCELL n" "NCELL n < 65536" using assms(3) NCELL_bounds [of n] by auto
  have "int (nat (NCELL n) - 1) < nMaxCell t" using assms NC0 by (simp add: wf_node_def)
  from slot_fits [OF assms(1,2) this]
  have "4 + ?nb * (nat (NCELL n) - 1) + ?nb \<le> length (zData n)" .
  moreover have "?nb * i + ?nb * ?k = ?nb * (nat (NCELL n) - 1)"
    using assms(3) by (simp flip: distrib_left)
  ultimately have fit: "4 + ?nb * i + ?nb + ?nb * ?k \<le> length (zData n)" by linarith
  then have l: "length ?z = length (zData n)" by (simp add: at_off_def memcpy_def)
  then have l4: "4 \<le> length ?z" using wf_node_size [OF assms(1,2)] by simp
  have e: "nodeDeleteCell t n i =
      n\<lparr>zData := at_off 2 (\<lambda>p. writeInt16 p (NCELL n - 1)) ?z, isDirty := True\<rparr>"
    by (simp add: nodeDeleteCell_def Let_def k)
  have NC: "NCELL (nodeDeleteCell t n i) = NCELL n - 1"
    unfolding e using l4 NC0 by (intro NCELL_header) auto
  have sl: "slot t (zData (nodeDeleteCell t n i)) j = slot t (zData n) (if j < i then j else Suc j)"
    if "j < i + ?k" for j
    using slot_header [OF l4] slot_memmove [OF fit that] unfolding e by simp
  show "wf_node t (nodeDeleteCell t n i)"
    using assms(2) NC l unfolding e wf_node_def by simp
  show "node_cells t (nodeDeleteCell t n i) = take i (node_cells t n) @ drop (Suc i) (node_cells t n)"
    by (rule nth_equalityI)
      (use assms(3) in \<open>auto simp: NC node_cells_nth nodeGetCell_slot [OF assms(1)] sl nth_append\<close>)
qed

lemma nodeZero_cells:
  assumes "wf_rtree t" "int (length (zData n)) = iNodeSize t"
  shows "wf_node t (nodeZero t n)" "node_cells t (nodeZero t n) = []" "NCELL (nodeZero t n) = 0"
    "take 2 (zData (nodeZero t n)) = take 2 (zData n)"
proof -
  have l: "4 \<le> length (zData n)" using assms unfolding wf_rtree_def by linarith
  have s: "nat (iNodeSize t - 2) = length (zData n) - 2" using assms by (simp add: nat_diff_distrib')
  have z: "zData (nodeZero t n) = take 2 (zData n) @ replicate (length (zData n) - 2) 0"
    using l by (simp add: nodeZero_def at_off_def memset_def s)
  show N: "NCELL (nodeZero t n) = 0"
    using l by (simp add: NCELL_def readInt16_def z nth_append)
  show "wf_node t (nodeZero t n)"
    using assms nMaxCell_fits(1) [OF assms(1)] N l by (simp add: wf_node_def z)
  show "node_cells t (nodeZero t n) = []" by (simp add: node_cells_def N)
  show "take 2 (zData (nodeZero t n)) = take 2 (zData n)" using l by (simp add: z)
qed

lemma nodeRowidIndex_loop_Inr:
  "nodeRowidIndex_loop t n r ii k = Inr j \<Longrightarrow>
     ii \<le> j \<and> j < ii + k \<and> nodeGetRowid t n j = r \<and> (\<forall>l. ii \<le> l \<and> l < j \<longrightarrow> nodeGetRowid t n l \<noteq> r)"
proof (induction k arbitrary: ii)
  case (Suc k)
  show ?case
  proof (cases "nodeGetRowid t n ii = r")
    case False
    then have IH: "Suc ii \<le> j \<and> j < Suc ii + k \<and> nodeGetRowid t n j = r \<and>
        (\<forall>l. Suc ii \<le> l \<and> l < j \<longrightarrow> nodeGetRowid t n l \<noteq> r)"
      using Suc.IH [of "Suc ii"] Suc.prems by simp
    have "ii \<le> l \<and> l < j \<longrightarrow> nodeGetRowid t n l \<noteq> r" for l
      using IH False by (cases "l = ii") auto
    with IH show ?thesis by auto
  qed (use Suc.prems in auto)
qed simp

lemma nodeRowidIndex_loop_Inl:
  "nodeRowidIndex_loop t n r ii k = Inl e \<Longrightarrow>
     e = SQLITE_CORRUPT_VTAB \<and> (\<forall>l. ii \<le> l \<and> l < ii + k \<longrightarrow> nodeGetRowid t n l \<noteq> r)"
proof (induction k arbitrary: ii)
  case (Suc k)
  then have "nodeGetRowid t n ii \<noteq> r" and
    IH: "e = SQLITE_CORRUPT_VTAB \<and> (\<forall>l. Suc ii \<le> l \<and> l < Suc ii + k \<longrightarrow> nodeGetRowid t n l \<noteq> r)"
    by (auto split: if_splits)
  then show ?case by (metis Suc_leI add_Suc add_Suc_right le_neq_implies_less)
qed auto

lemma nodeGetRowid_cell: "nodeGetRowid t n i = iRowid (nodeGetCell t n i)"
  by (simp add: nodeGetCell_def)

lemma nodeRowidIndex_Inr:
  assumes "nodeRowidIndex t n r = Inr j"
  shows "j < length (node_cells t n)" "iRowid (node_cells t n ! j) = r"
    "\<And>l. l < j \<Longrightarrow> iRowid (node_cells t n ! l) \<noteq> r"
  using nodeRowidIndex_loop_Inr [OF assms [unfolded nodeRowidIndex_def]]
  by (auto simp: node_cells_nth nodeGetRowid_cell [symmetric])

lemma nodeRowidIndex_Inl:
  assumes "nodeRowidIndex t n r = Inl e"
  shows "e = SQLITE_CORRUPT_VTAB" "r \<notin> iRowid ` set (node_cells t n)"
  using nodeRowidIndex_loop_Inl [OF assms [unfolded nodeRowidIndex_def]]
  by (auto simp: node_cells_def nodeGetRowid_cell [symmetric])

section \<open>Properties\<close>

text \<open>C5: The byte image of a node behaves as a list of cells. Inserting into a node with room
  appends the cell; into a full node it changes nothing and reports it. Overwriting replaces
  one cell, deleting removes one and closes the gap. Each keeps the node well formed, and
  the integers and coordinates read back are those written.\<close>

theorem node_image_refines_cell_list:
  assumes "wf_rtree t" "wf_node t n" "wf_cell t c" "int i < NCELL n"
  shows "(let (full, n') = nodeInsertCell t n c in wf_node t n' \<and> (full \<longleftrightarrow> NCELL n = nMaxCell t) \<and>
            node_cells t n' = (if full then node_cells t n else node_cells t n @ [c])) \<and>
     wf_node t (nodeOverwriteCell t n c i) \<and>
     node_cells t (nodeOverwriteCell t n c i) = (node_cells t n)[i := c] \<and>
     wf_node t (nodeDeleteCell t n i) \<and>
     node_cells t (nodeDeleteCell t n i) = take i (node_cells t n) @ drop (Suc i) (node_cells t n)"
proof -
  have "let (full, n') = nodeInsertCell t n c in wf_node t n' \<and> (full \<longleftrightarrow> NCELL n = nMaxCell t) \<and>
      node_cells t n' = (if full then node_cells t n else node_cells t n @ [c])"
  proof (cases "NCELL n = nMaxCell t")
    case True
    then show ?thesis using assms(2) by (simp add: nodeInsertCell_full)
  next
    case False
    then have "NCELL n < nMaxCell t" using assms(2) by (simp add: wf_node_def)
    from nodeInsertCell_room [OF assms(1-3) this] obtain n' where
      "nodeInsertCell t n c = (False, n')" "wf_node t n'" "node_cells t n' = node_cells t n @ [c]" .
    with False show ?thesis by simp
  qed
  then show ?thesis
    using nodeOverwriteCell_cells [OF assms] nodeDeleteCell_cells [OF assms(1,2,4)] by blast
qed

text \<open>A one-dimensional table of three-cell nodes, for the witnesses.\<close>

definition sample_rtree :: "coord_type \<Rightarrow> Rtree" where
  "sample_rtree et =
     \<lparr>iNodeSize = 52, nDim = 1, eCoordType = et, nBytesPerCell = 16, iDepth = -1, nBusy = 1,
      nRowEst = 0, pDeleted = None, iReinsertHeight = -1, aHash = replicate HASHSIZE None,
      heap = Map.empty, nextAddr = 0, nodeTab = [(1, replicate 52 0)], rowidTab = [], parentTab = [],
      lastInsert = 0, sqlRc = [], mallocFails = []\<rparr>"

definition sample_node :: RtreeNode where
  "sample_node = \<lparr>pParent = None, iNode = 1, nRef = 1, isDirty = False,
     zData = [0, 0, 0, 1] @ replicate 48 7, pNext = None\<rparr>"

lemma wf_sample_rtree: "wf_rtree (sample_rtree et)"
  by (simp add: wf_rtree_def sample_rtree_def nMaxCell_def sdiv_nonneg)

lemma wf_sample_node: "wf_node (sample_rtree et) sample_node" "NCELL sample_node = 1"
  by (simp_all add: wf_node_def sample_rtree_def sample_node_def nMaxCell_def sdiv_nonneg
      NCELL_def readInt16_def)

theorem node_image_refines_cell_list_witness:
  "node_cells (sample_rtree RTREE_COORD_INT32)
     (snd (nodeInsertCell (sample_rtree RTREE_COORD_INT32) sample_node \<lparr>iRowid = 5, aCoord = [1, 2]\<rparr>))
   = node_cells (sample_rtree RTREE_COORD_INT32) sample_node @ [\<lparr>iRowid = 5, aCoord = [1, 2]\<rparr>]"
proof -
  let ?t = "sample_rtree RTREE_COORD_INT32" and ?c = "\<lparr>iRowid = 5, aCoord = [1, 2]\<rparr> :: RtreeCell"
  have c: "wf_cell ?t ?c" by (simp add: wf_cell_def sample_rtree_def)
  have "NCELL sample_node \<noteq> nMaxCell ?t"
    by (simp add: wf_sample_node sample_rtree_def nMaxCell_def sdiv_nonneg)
  then show ?thesis
    using node_image_refines_cell_list [OF wf_sample_rtree wf_sample_node(1) c, of 0] wf_sample_node(2)
    by (simp add: case_prod_beta Let_def)
qed

end
