(* ===== verification/Rtree_Geom.thy ===== *)
theory Rtree_Geom
  imports Rtree_Node
begin

text \<open>
  The geometry of \<^verbatim>\<open>rtree.c\<close>: coordinates, the area, margin, overlap, union and
  containment of bounding boxes, the two merge sorts on index arrays, and the R*-tree
  distribution of the cells of an overfull node. The interface of bounding boxes
  (containment is a preorder, the union is the least box that contains both) is a locale;
  its client lemmas on unions over many cells are proved once and used by the split, by the
  bounding-box maintenance and by the search.
\<close>

section \<open>Coordinates and boxes\<close>

text \<open>The union \<open>RtreeCoord\<close> is its 32 bits; \<open>DCOORD\<close> reads it as a double.\<close>

definition DCOORD :: "Rtree \<Rightarrow> u32 \<Rightarrow> fp" where
  "DCOORD t c =
     (if eCoordType t = RTREE_COORD_REAL32 then decode32 c else fp_of_int (sint c))"

fun area_loop :: "Rtree \<Rightarrow> u32 list \<Rightarrow> fp \<Rightarrow> fp" where
  "area_loop t (a # b # cs) area = area_loop t cs (fmul area (fsub (DCOORD t b) (DCOORD t a)))"
| "area_loop t _ area = area"

definition cellArea :: "Rtree \<Rightarrow> RtreeCell \<Rightarrow> fp" where
  "cellArea t p = area_loop t (take (nDim t * 2) (aCoord p)) (fp_of_int 1)"

fun margin_loop :: "Rtree \<Rightarrow> u32 list \<Rightarrow> fp \<Rightarrow> fp" where
  "margin_loop t (a # b # cs) m = margin_loop t cs (fadd m (fsub (DCOORD t b) (DCOORD t a)))"
| "margin_loop t _ m = m"

definition cellMargin :: "Rtree \<Rightarrow> RtreeCell \<Rightarrow> fp" where
  "cellMargin t p = margin_loop t (take (nDim t * 2) (aCoord p)) (fp_of_int 0)"

text \<open>
  \<open>MIN(x,y)\<close> is \<open>((x) > (y) ? (y) : (x))\<close> and \<open>MAX(x,y)\<close> is \<open>((x) < (y) ? (y) : (x))\<close>,
  on the \<open>f\<close> or the \<open>i\<close> member of the union.
\<close>

definition coord_less :: "coord_type \<Rightarrow> u32 \<Rightarrow> u32 \<Rightarrow> bool" where
  "coord_less et a b =
     (if et = RTREE_COORD_REAL32 then flt (decode32 a) (decode32 b) else sint a < sint b)"

definition coord_MIN :: "coord_type \<Rightarrow> u32 \<Rightarrow> u32 \<Rightarrow> u32" where
  "coord_MIN et x y = (if coord_less et y x then y else x)"

definition coord_MAX :: "coord_type \<Rightarrow> u32 \<Rightarrow> u32 \<Rightarrow> u32" where
  "coord_MAX et x y = (if coord_less et x y then y else x)"

fun union_loop :: "coord_type \<Rightarrow> u32 list \<Rightarrow> u32 list \<Rightarrow> u32 list" where
  "union_loop et (a1 # b1 # r1) (a2 # b2 # r2) =
     coord_MIN et a1 a2 # coord_MAX et b1 b2 # union_loop et r1 r2"
| "union_loop et xs ys = xs"

definition cellUnion :: "Rtree \<Rightarrow> RtreeCell \<Rightarrow> RtreeCell \<Rightarrow> RtreeCell" where
  "cellUnion t p1 p2 = p1\<lparr>aCoord :=
     union_loop (eCoordType t) (take (nDim t * 2) (aCoord p1)) (take (nDim t * 2) (aCoord p2))\<rparr>"

fun contains_loop :: "coord_type \<Rightarrow> u32 list \<Rightarrow> u32 list \<Rightarrow> bool" where
  "contains_loop et (a1 # b1 # r1) (a2 # b2 # r2) =
     (if coord_less et a2 a1 \<or> coord_less et b1 b2 then False else contains_loop et r1 r2)"
| "contains_loop et xs ys = True"

definition cellContains :: "Rtree \<Rightarrow> RtreeCell \<Rightarrow> RtreeCell \<Rightarrow> bool" where
  "cellContains t p1 p2 =
     contains_loop (eCoordType t) (take (nDim t * 2) (aCoord p1)) (take (nDim t * 2) (aCoord p2))"

definition cellGrowth :: "Rtree \<Rightarrow> RtreeCell \<Rightarrow> RtreeCell \<Rightarrow> fp" where
  "cellGrowth t p pCell =
     (let area = cellArea t p; cell = cellUnion t p pCell in fsub (cellArea t cell) area)"

text \<open>\<open>MAX\<close> and \<open>MIN\<close> on doubles, and the overlap of a box with an array of boxes.\<close>

definition dMAX :: "fp \<Rightarrow> fp \<Rightarrow> fp" where "dMAX x y = (if flt x y then y else x)"
definition dMIN :: "fp \<Rightarrow> fp \<Rightarrow> fp" where "dMIN x y = (if flt y x then y else x)"

fun overlap_loop :: "Rtree \<Rightarrow> u32 list \<Rightarrow> u32 list \<Rightarrow> fp \<Rightarrow> fp" where
  "overlap_loop t (a1 # b1 # r1) (a2 # b2 # r2) o' =
     (let x1 = dMAX (DCOORD t a1) (DCOORD t a2); x2 = dMIN (DCOORD t b1) (DCOORD t b2)
      in if flt x2 x1 then fp_of_int 0 else overlap_loop t r1 r2 (fmul o' (fsub x2 x1)))"
| "overlap_loop t _ _ o' = o'"

fun cellOverlap :: "Rtree \<Rightarrow> RtreeCell \<Rightarrow> RtreeCell list \<Rightarrow> fp" where
  "cellOverlap t p aCell =
     fold (\<lambda>c overlap. fadd overlap
       (overlap_loop t (take (nDim t * 2) (aCoord p)) (take (nDim t * 2) (aCoord c)) (fp_of_int 1)))
       aCell fp_zero"

section \<open>The merge sorts\<close>

text \<open>
  Both sorts run the same loop over one array: the left half has been copied to
  \<open>aSpare\<close>, the right half is read in place at \<open>aIdx[nLeft+iRight]\<close> while the merged
  prefix is written at \<open>aIdx[iLeft+iRight]\<close>. \<open>lt\<close> is the test that takes the left
  element when both halves have one. The cursors never pass the ends of the halves, so the
  code's tests \<open>iLeft==nLeft\<close> and \<open>iRight==nRight\<close> are written with \<open>\<ge>\<close>.
\<close>

function merge_loop ::
  "(nat \<Rightarrow> nat \<Rightarrow> bool) \<Rightarrow> nat list \<Rightarrow> nat \<Rightarrow> nat \<Rightarrow> nat \<Rightarrow> nat \<Rightarrow> nat list \<Rightarrow> nat list" where
  "merge_loop lt aSpare nLeft nRight iLeft iRight aIdx =
     (if iLeft < nLeft \<or> iRight < nRight then
        if iLeft \<ge> nLeft then
          merge_loop lt aSpare nLeft nRight iLeft (iRight + 1)
            (aIdx[iLeft + iRight := aIdx ! (nLeft + iRight)])
        else if iRight \<ge> nRight then
          merge_loop lt aSpare nLeft nRight (iLeft + 1) iRight
            (aIdx[iLeft + iRight := aSpare ! iLeft])
        else if lt (aSpare ! iLeft) (aIdx ! (nLeft + iRight)) then
          merge_loop lt aSpare nLeft nRight (iLeft + 1) iRight
            (aIdx[iLeft + iRight := aSpare ! iLeft])
        else
          merge_loop lt aSpare nLeft nRight iLeft (iRight + 1)
            (aIdx[iLeft + iRight := aIdx ! (nLeft + iRight)])
      else aIdx)"
  by pat_completeness auto
termination
  by (relation "measure (\<lambda>(lt, s, nLeft, nRight, iLeft, iRight, a).
        (nLeft - iLeft) + (nRight - iRight))") auto

declare merge_loop.simps [simp del]

function SortByDistance :: "fp list \<Rightarrow> nat list \<Rightarrow> nat \<Rightarrow> nat list" where
  "SortByDistance aDistance aIdx nIdx =
     (if 1 < nIdx then
        let nLeft = nIdx div 2; nRight = nIdx - nLeft;
            a1 = SortByDistance aDistance aIdx nLeft;
            a2 = at_off nLeft (\<lambda>aRight. SortByDistance aDistance aRight nRight) a1
        in merge_loop (\<lambda>l r. flt (aDistance ! l) (aDistance ! r)) (take nLeft a2) nLeft nRight 0 0 a2
      else aIdx)"
  by pat_completeness auto
termination
  by (relation "measure (\<lambda>(d, a, n). n)") auto

definition dim_less :: "Rtree \<Rightarrow> nat \<Rightarrow> RtreeCell list \<Rightarrow> nat \<Rightarrow> nat \<Rightarrow> bool" where
  "dim_less t iDim aCell l r =
     (let xleft1 = DCOORD t (aCoord (aCell ! l) ! (iDim * 2));
          xleft2 = DCOORD t (aCoord (aCell ! l) ! (iDim * 2 + 1));
          xright1 = DCOORD t (aCoord (aCell ! r) ! (iDim * 2));
          xright2 = DCOORD t (aCoord (aCell ! r) ! (iDim * 2 + 1))
      in flt xleft1 xright1 \<or> (feq xleft1 xright1 \<and> flt xleft2 xright2))"

function SortByDimension :: "Rtree \<Rightarrow> nat \<Rightarrow> RtreeCell list \<Rightarrow> nat list \<Rightarrow> nat \<Rightarrow> nat list" where
  "SortByDimension t iDim aCell aIdx nIdx =
     (if 1 < nIdx then
        let nLeft = nIdx div 2; nRight = nIdx - nLeft;
            a1 = SortByDimension t iDim aCell aIdx nLeft;
            a2 = at_off nLeft (\<lambda>aRight. SortByDimension t iDim aCell aRight nRight) a1
        in merge_loop (dim_less t iDim aCell) (take nLeft a2) nLeft nRight 0 0 a2
      else aIdx)"
  by pat_completeness auto
termination
  by (relation "measure (\<lambda>(t, d, c, a, n). n)") auto

declare SortByDistance.simps [simp del] SortByDimension.simps [simp del]

section \<open>The R*-tree split\<close>

text \<open>
  One attempt of \<open>splitNodeStartree\<close>: the boxes of the first \<open>nLeft\<close> and of the other
  cells in the order \<open>aSorted\<close>, both seeded with the outermost cells.
\<close>

definition split_boxes ::
  "Rtree \<Rightarrow> RtreeCell list \<Rightarrow> nat list \<Rightarrow> nat \<Rightarrow> int \<Rightarrow> RtreeCell \<times> RtreeCell" where
  "split_boxes t aCell aSorted nCell nLeft =
     fold (\<lambda>kk (left, right).
         if int kk < nLeft then (cellUnion t left (aCell ! (aSorted ! kk)), right)
         else (left, cellUnion t right (aCell ! (aSorted ! kk))))
       [1..<nCell - 1] (aCell ! (aSorted ! 0), aCell ! (aSorted ! (nCell - 1)))"

text \<open>The loop over \<open>nLeft\<close>: the summed margin, the best size, its overlap and its area.\<close>

definition split_sizes ::
  "Rtree \<Rightarrow> RtreeCell list \<Rightarrow> nat list \<Rightarrow> nat \<Rightarrow> fp \<times> int \<times> fp \<times> fp" where
  "split_sizes t aCell aSorted nCell =
     fold (\<lambda>nLeft (margin, iBestLeft, fBestOverlap, fBestArea).
         let (left, right) = split_boxes t aCell aSorted nCell nLeft;
             margin = fadd margin (cellMargin t left);
             margin = fadd margin (cellMargin t right);
             overlap = cellOverlap t left [right];
             area = fadd (cellArea t left) (cellArea t right)
         in if nLeft = RTREE_MINCELLS t \<or> flt overlap fBestOverlap
               \<or> (feq overlap fBestOverlap \<and> flt area fBestArea)
            then (margin, nLeft, overlap, area)
            else (margin, iBestLeft, fBestOverlap, fBestArea))
       [RTREE_MINCELLS t .. int nCell - RTREE_MINCELLS t] (fp_zero, 0, fp_zero, fp_zero)"

text \<open>The loop over the dimensions: the best dimension, its margin and its split.\<close>

definition split_dims ::
  "Rtree \<Rightarrow> RtreeCell list \<Rightarrow> nat list list \<Rightarrow> nat \<Rightarrow> nat \<times> fp \<times> int" where
  "split_dims t aCell aaSorted nCell =
     fold (\<lambda>ii (iBestDim, fBestMargin, iBestSplit).
         let (margin, iBestLeft, _, _) = split_sizes t aCell (aaSorted ! ii) nCell
         in if ii = 0 \<or> flt margin fBestMargin then (ii, margin, iBestLeft)
            else (iBestDim, fBestMargin, iBestSplit))
       [0..<nDim t] (0, fp_zero, 0)"

text \<open>The last loop: every cell goes to its node and into its box.\<close>

definition split_distribute ::
  "Rtree \<Rightarrow> RtreeCell list \<Rightarrow> nat list \<Rightarrow> int \<Rightarrow> nat list \<Rightarrow>
   RtreeNode \<times> RtreeNode \<times> RtreeCell \<times> RtreeCell \<Rightarrow> RtreeNode \<times> RtreeNode \<times> RtreeCell \<times> RtreeCell" where
  "split_distribute t aCell aSorted iBestSplit =
     fold (\<lambda>ii (pLeft, pRight, bboxLeft, bboxRight).
         let pCell = aCell ! (aSorted ! ii)
         in if int ii < iBestSplit
            then (snd (nodeInsertCell t pLeft pCell), pRight, cellUnion t bboxLeft pCell, bboxRight)
            else (pLeft, snd (nodeInsertCell t pRight pCell), bboxLeft, cellUnion t bboxRight pCell))"

definition sqlite3_malloc :: "Rtree \<Rightarrow> bool \<times> Rtree" where
  "sqlite3_malloc t =
     (case mallocFails t of [] \<Rightarrow> (True, t) | f # fs \<Rightarrow> (\<not> f, t\<lparr>mallocFails := fs\<rparr>))"

definition splitNodeStartree ::
  "Rtree \<Rightarrow> RtreeCell list \<Rightarrow> nat \<Rightarrow> RtreeNode \<Rightarrow> RtreeNode \<Rightarrow>
   Rtree \<times> (int + RtreeNode \<times> RtreeNode \<times> RtreeCell \<times> RtreeCell)" where
  "splitNodeStartree t aCell nCell pLeft pRight =
     (let (ok, t) = sqlite3_malloc t
      in if \<not> ok then (t, Inl SQLITE_NOMEM)
         else
           let aaSorted = map (\<lambda>ii. SortByDimension t ii aCell [0..<nCell] nCell) [0..<nDim t];
               (iBestDim, _, iBestSplit) = split_dims t aCell aaSorted nCell;
               aSorted = aaSorted ! iBestDim
           in (t, Inr (split_distribute t aCell aSorted iBestSplit [0..<nCell]
                (pLeft, pRight, aCell ! (aSorted ! 0), aCell ! (aSorted ! nat iBestSplit)))))"

section \<open>The interface of bounding boxes\<close>

locale bounding_box =
  fixes valid :: "'c \<Rightarrow> bool"
    and contains :: "'c \<Rightarrow> 'c \<Rightarrow> bool"
    and union :: "'c \<Rightarrow> 'c \<Rightarrow> 'c"
  assumes contains_refl: "valid a \<Longrightarrow> contains a a"
    and contains_trans: "valid a \<Longrightarrow> valid b \<Longrightarrow> valid c \<Longrightarrow> contains a b \<Longrightarrow> contains b c \<Longrightarrow> contains a c"
    and valid_union: "valid a \<Longrightarrow> valid b \<Longrightarrow> valid (union a b)"
    and union_left: "valid a \<Longrightarrow> valid b \<Longrightarrow> contains (union a b) a"
    and union_right: "valid a \<Longrightarrow> valid b \<Longrightarrow> contains (union a b) b"
    and union_least: "valid a \<Longrightarrow> valid b \<Longrightarrow> valid c \<Longrightarrow> contains c a \<Longrightarrow> contains c b \<Longrightarrow> contains c (union a b)"
begin

definition unions :: "'c list \<Rightarrow> 'c \<Rightarrow> 'c" where
  "unions cs b = fold (\<lambda>c b. union b c) cs b"

lemma unions_Nil [simp]: "unions [] b = b"
  and unions_Cons [simp]: "unions (c # cs) b = unions cs (union b c)"
  by (simp_all add: unions_def)

lemma valid_unions: "valid b \<Longrightarrow> list_all valid cs \<Longrightarrow> valid (unions cs b)"
  by (induction cs arbitrary: b) (auto intro: valid_union)

lemma unions_seed: "valid b \<Longrightarrow> list_all valid cs \<Longrightarrow> contains (unions cs b) b"
proof (induction cs arbitrary: b)
  case (Cons c cs)
  then have "contains (unions cs (union b c)) (union b c)" and "contains (union b c) b"
    by (auto intro: valid_union union_left)
  with Cons.prems show ?case
    by (auto intro!: contains_trans [of _ "union b c" b] valid_unions valid_union)
qed (auto intro: contains_refl)

lemma unions_member:
  "valid b \<Longrightarrow> list_all valid cs \<Longrightarrow> c \<in> set cs \<Longrightarrow> contains (unions cs b) c"
proof (induction cs arbitrary: b)
  case (Cons d cs)
  show ?case
  proof (cases "c = d")
    case True
    have "contains (unions cs (union b d)) (union b d)" and "contains (union b d) d"
      using Cons.prems by (auto intro: unions_seed valid_union union_right)
    with Cons.prems True show ?thesis
      by (auto intro!: contains_trans [of _ "union b d" d] valid_unions valid_union)
  qed (use Cons in \<open>auto intro: valid_union\<close>)
qed simp

lemma unions_least:
  "valid b \<Longrightarrow> list_all valid cs \<Longrightarrow> valid d \<Longrightarrow> contains d b \<Longrightarrow> (\<And>c. c \<in> set cs \<Longrightarrow> contains d c) \<Longrightarrow>
   contains d (unions cs b)"
  by (induction cs arbitrary: b) (auto intro: valid_union union_least)

end

text \<open>
  Cells without a NaN coordinate satisfy it. The coordinates that come from SQL values are
  such, since SQLite has no NaN value.
\<close>

definition coord_num :: "coord_type \<Rightarrow> u32 \<Rightarrow> bool" where
  "coord_num et x \<longleftrightarrow> et = RTREE_COORD_INT32 \<or> decode32 x \<noteq> NaN"

definition num_cell :: "Rtree \<Rightarrow> RtreeCell \<Rightarrow> bool" where
  "num_cell t c \<longleftrightarrow> wf_cell t c \<and> list_all (coord_num (eCoordType t)) (aCoord c)"

lemma coord_less_irrefl [simp]: "\<not> coord_less et a a"
  by (simp add: coord_less_def)

lemma coord_less_iff:
  "coord_num et a \<Longrightarrow> coord_num et b \<Longrightarrow> \<not> coord_less et a b \<longleftrightarrow>
     (if et = RTREE_COORD_REAL32 then fle (decode32 b) (decode32 a) else sint b \<le> sint a)"
  by (cases et) (auto simp: coord_less_def coord_num_def not_flt_iff)

lemma coord_le_trans:
  "coord_num et a \<Longrightarrow> coord_num et b \<Longrightarrow> coord_num et c \<Longrightarrow>
   \<not> coord_less et b a \<Longrightarrow> \<not> coord_less et c b \<Longrightarrow> \<not> coord_less et c a"
  by (auto simp: coord_less_iff split: if_splits intro: fle_trans)

lemma coord_less_asym: "coord_less et a b \<Longrightarrow> \<not> coord_less et b a"
  by (auto simp: coord_less_def flt_iff split: if_splits)

lemma coord_MIN_MAX [simp]:
  "\<not> coord_less et a (coord_MIN et a b)" "\<not> coord_less et b (coord_MIN et a b)"
  "\<not> coord_less et (coord_MAX et a b) a" "\<not> coord_less et (coord_MAX et a b) b"
  by (auto simp: coord_MIN_def coord_MAX_def dest: coord_less_asym)

lemma coord_num_MIN_MAX [simp]:
  "coord_num et a \<Longrightarrow> coord_num et b \<Longrightarrow> coord_num et (coord_MIN et a b)"
  "coord_num et a \<Longrightarrow> coord_num et b \<Longrightarrow> coord_num et (coord_MAX et a b)"
  by (auto simp: coord_MIN_def coord_MAX_def)

lemma contains_loop_refl [simp]: "contains_loop et xs xs"
  by (induction xs rule: induct_list012) auto

lemma contains_loop_short: "length xs < 2 \<Longrightarrow> contains_loop et xs ys"
  by (induction et xs ys rule: contains_loop.induct) auto

lemma contains_loop_trans:
  "contains_loop et xs ys \<Longrightarrow> contains_loop et ys zs \<Longrightarrow> length xs = length ys \<Longrightarrow> length ys = length zs \<Longrightarrow>
   list_all (coord_num et) xs \<Longrightarrow> list_all (coord_num et) ys \<Longrightarrow> list_all (coord_num et) zs \<Longrightarrow>
   contains_loop et xs zs"
proof (induction et xs ys arbitrary: zs rule: contains_loop.induct)
  case (1 et a1 b1 r1 a2 b2 r2)
  have "length zs = Suc (Suc (length r2))" using "1.prems"(4) by simp
  then obtain a3 b3 r3 where zs: "zs = a3 # b3 # r3" by (auto simp: length_Suc_conv)
  have h: "\<not> coord_less et a2 a1" "\<not> coord_less et b1 b2" "contains_loop et r1 r2"
    "\<not> coord_less et a3 a2" "\<not> coord_less et b2 b3" "contains_loop et r2 r3"
    using "1.prems"(1,2) zs by (auto split: if_splits)
  have n: "coord_num et a1" "coord_num et a2" "coord_num et a3" "coord_num et b1" "coord_num et b2" "coord_num et b3"
    using "1.prems" zs by auto
  have "contains_loop et r1 r3" using "1.IH" h "1.prems" zs by simp
  moreover have "\<not> coord_less et a3 a1" by (rule coord_le_trans [OF n(1-3) h(1,4)])
  moreover have "\<not> coord_less et b1 b3" by (rule coord_le_trans [OF n(6,5,4) h(5,2)])
  ultimately show ?case by (simp add: zs)
qed (auto intro: contains_loop_short)

lemma length_union_loop [simp]: "length (union_loop et xs ys) = length xs"
  by (induction et xs ys rule: union_loop.induct) auto

lemma num_union_loop:
  "list_all (coord_num et) xs \<Longrightarrow> list_all (coord_num et) ys \<Longrightarrow> list_all (coord_num et) (union_loop et xs ys)"
  by (induction et xs ys rule: union_loop.induct) auto

lemma union_loop_contains:
  "contains_loop et (union_loop et xs ys) xs" "contains_loop et (union_loop et xs ys) ys"
  by (induction et xs ys rule: union_loop.induct) auto

lemma union_loop_least:
  "contains_loop et zs xs \<Longrightarrow> contains_loop et zs ys \<Longrightarrow> length zs = length xs \<Longrightarrow> length xs = length ys \<Longrightarrow>
   contains_loop et zs (union_loop et xs ys)"
proof (induction et xs ys arbitrary: zs rule: union_loop.induct)
  case (1 et a1 b1 r1 a2 b2 r2)
  have "length zs = Suc (Suc (length r1))" using "1.prems"(3) by simp
  then obtain a b r where "zs = a # b # r" by (auto simp: length_Suc_conv)
  with 1 show ?case by (auto simp: coord_MIN_def coord_MAX_def split: if_splits)
qed auto

lemmas num_cell_simps = num_cell_def wf_cell_def cellUnion_def cellContains_def

interpretation rt: bounding_box "num_cell t" "cellContains t" "cellUnion t" for t
proof
  fix a b c :: RtreeCell
  assume "num_cell t a"
  then show "cellContains t a a" by (simp add: num_cell_simps)
  assume b: "num_cell t b"
  with \<open>num_cell t a\<close> show "num_cell t (cellUnion t a b)" "cellContains t (cellUnion t a b) a"
    "cellContains t (cellUnion t a b) b"
    by (auto simp: num_cell_simps num_union_loop union_loop_contains)
  assume c: "num_cell t c"
  with b \<open>num_cell t a\<close> show "cellContains t a b \<Longrightarrow> cellContains t b c \<Longrightarrow> cellContains t a c"
    by (auto simp: num_cell_simps intro: contains_loop_trans)
  show "cellContains t c a \<Longrightarrow> cellContains t c b \<Longrightarrow> cellContains t c (cellUnion t a b)"
    using b c \<open>num_cell t a\<close> by (auto simp: num_cell_simps intro: union_loop_least)
qed

section \<open>The sorts against a functional merge sort\<close>

fun merge :: "('a \<Rightarrow> 'a \<Rightarrow> bool) \<Rightarrow> 'a list \<Rightarrow> 'a list \<Rightarrow> 'a list" where
  "merge lt [] ys = ys"
| "merge lt xs [] = xs"
| "merge lt (x # xs) (y # ys) =
     (if lt x y then x # merge lt xs (y # ys) else y # merge lt (x # xs) ys)"

function msort :: "('a \<Rightarrow> 'a \<Rightarrow> bool) \<Rightarrow> 'a list \<Rightarrow> 'a list" where
  "msort lt xs =
     (if length xs \<le> 1 then xs
      else merge lt (msort lt (take (length xs div 2) xs)) (msort lt (drop (length xs div 2) xs)))"
  by pat_completeness auto
termination
  by (relation "measure (\<lambda>(lt, xs). length xs)") auto

declare msort.simps [simp del]

lemma merge_Nil2 [simp]: "merge lt xs [] = xs"
  by (cases xs) auto

lemma mset_merge [simp]: "mset (merge lt xs ys) = mset xs + mset ys"
  by (induction lt xs ys rule: merge.induct) auto

lemma length_merge [simp]: "length (merge lt xs ys) = length xs + length ys"
  by (metis mset_merge size_mset size_union)

lemma set_merge [simp]: "set (merge lt xs ys) = set xs \<union> set ys"
  by (metis mset_merge set_mset_mset set_mset_union)

lemma mset_msort [simp]: "mset (msort lt xs) = mset xs"
proof (induction lt xs rule: msort.induct)
  case (1 lt xs)
  let ?k = "length xs div 2"
  have "mset (take ?k xs) + mset (drop ?k xs) = mset xs"
    by (simp only: mset_append [symmetric] append_take_drop_id)
  with 1 show ?case by (simp add: msort.simps [of lt xs])
qed

lemma length_msort [simp]: "length (msort lt xs) = length xs"
  by (metis mset_msort size_mset)

lemma set_msort [simp]: "set (msort lt xs) = set xs"
  by (metis mset_msort set_mset_mset)

lemma merge_take_left:
  "i < length sp \<Longrightarrow> (ys = [] \<or> lt (sp ! i) (hd ys)) \<Longrightarrow>
   merge lt (drop i sp) ys = sp ! i # merge lt (drop (Suc i) sp) ys"
  by (cases ys) (auto simp flip: Cons_nth_drop_Suc)

lemma merge_take_right:
  "ys \<noteq> [] \<Longrightarrow> (xs = [] \<or> \<not> lt (hd xs) (hd ys)) \<Longrightarrow> merge lt xs ys = hd ys # merge lt xs (tl ys)"
  by (cases xs; cases ys) auto

text \<open>What the loop still produces from a state of its cursors; every iteration keeps it.\<close>

definition merged ::
  "(nat \<Rightarrow> nat \<Rightarrow> bool) \<Rightarrow> nat list \<Rightarrow> nat \<Rightarrow> nat \<Rightarrow> nat \<Rightarrow> nat \<Rightarrow> nat list \<Rightarrow> nat list" where
  "merged lt sp nLeft nRight i j a =
     take (i + j) a @ merge lt (drop i sp) (take (nRight - j) (drop (nLeft + j) a)) @ drop (nLeft + nRight) a"

lemma merged_left:
  assumes "nLeft + nRight \<le> length a" "length sp = nLeft" "i < nLeft" "j \<le> nRight"
    and h: "j = nRight \<or> lt (sp ! i) (a ! (nLeft + j))"
  shows "merged lt sp nLeft nRight (i + 1) j (a[i + j := sp ! i]) = merged lt sp nLeft nRight i j a"
proof -
  let ?ys = "take (nRight - j) (drop (nLeft + j) a)"
  have "?ys = [] \<or> lt (sp ! i) (hd ?ys)"
    using h assms by (cases "j = nRight") (auto simp: hd_drop_conv_nth)
  then have "merge lt (drop i sp) ?ys = sp ! i # merge lt (drop (Suc i) sp) ?ys"
    using assms by (intro merge_take_left) auto
  moreover have "take (Suc (i + j)) (a[i + j := sp ! i]) = take (i + j) a @ [sp ! i]"
    using assms by (simp add: take_Suc_conv_app_nth)
  ultimately show ?thesis using assms by (simp add: merged_def)
qed

lemma merged_right:
  assumes "nLeft + nRight \<le> length a" "length sp = nLeft" "i \<le> nLeft" "j < nRight"
    and h: "i = nLeft \<or> \<not> lt (sp ! i) (a ! (nLeft + j))"
  shows "merged lt sp nLeft nRight i (j + 1) (a[i + j := a ! (nLeft + j)]) = merged lt sp nLeft nRight i j a"
proof -
  let ?ys = "take (nRight - j) (drop (nLeft + j) a)"
  have ys: "?ys = a ! (nLeft + j) # take (nRight - Suc j) (drop (Suc (nLeft + j)) a)"
    using assms Suc_diff_Suc [OF assms(4), symmetric] by (simp add: Cons_nth_drop_Suc [symmetric])
  have "merge lt (drop i sp) ?ys = hd ?ys # merge lt (drop i sp) (tl ?ys)"
    using h assms ys by (intro merge_take_right) (auto simp: hd_drop_conv_nth)
  moreover have "take (Suc (i + j)) (a[i + j := a ! (nLeft + j)]) = take (i + j) a @ [a ! (nLeft + j)]"
    using assms by (simp add: take_Suc_conv_app_nth)
  ultimately show ?thesis using assms ys by (simp add: merged_def)
qed

lemma merge_loop_merged:
  "nLeft + nRight \<le> length a \<Longrightarrow> length sp = nLeft \<Longrightarrow> i \<le> nLeft \<Longrightarrow> j \<le> nRight \<Longrightarrow>
   merge_loop lt sp nLeft nRight i j a = merged lt sp nLeft nRight i j a"
proof (induction lt sp nLeft nRight i j a rule: merge_loop.induct)
  case (1 lt sp nLeft nRight i j a)
  note step = merge_loop.simps [of lt sp nLeft nRight i j a]
  note left = merged_left [OF "1.prems"(1,2) _ "1.prems"(4)]
  note right = merged_right [OF "1.prems"(1,2,3)]
  consider "i = nLeft" "j = nRight" | "i = nLeft" "j < nRight" | "i < nLeft" "j = nRight"
    | "i < nLeft" "j < nRight" "lt (sp ! i) (a ! (nLeft + j))"
    | "i < nLeft" "j < nRight" "\<not> lt (sp ! i) (a ! (nLeft + j))"
    using "1.prems" by linarith
  then show ?case
  proof cases
    case 1
    then show ?thesis
      using "1.prems" by (simp add: merge_loop.simps [of lt sp nLeft nRight nLeft nRight a] merged_def)
  next
    case 2
    with "1.IH"(1) "1.prems" right [of j lt] show ?thesis by (subst step) simp
  next
    case 3
    with "1.IH"(2) "1.prems" left [of i lt] show ?thesis by (subst step) simp
  next
    case 4
    with "1.IH"(3) "1.prems" left [of i lt] show ?thesis by (subst step) simp
  next
    case 5
    with "1.IH"(4) "1.prems" right [of j lt] show ?thesis by (subst step) simp
  qed
qed

text \<open>
  The interface of the two sorts: the recursion they share, for any test. A sort is then the
  functional merge sort on the first \<open>nIdx\<close> entries and leaves the others in place; with a
  test that decides a total preorder the result is in that order.
\<close>

locale index_merge_sort =
  fixes lt :: "nat \<Rightarrow> nat \<Rightarrow> bool" and sort_idx :: "nat list \<Rightarrow> nat \<Rightarrow> nat list"
  assumes sort_idx_eq: "sort_idx aIdx nIdx =
     (if 1 < nIdx then
        let nLeft = nIdx div 2; nRight = nIdx - nLeft;
            a1 = sort_idx aIdx nLeft;
            a2 = at_off nLeft (\<lambda>aRight. sort_idx aRight nRight) a1
        in merge_loop lt (take nLeft a2) nLeft nRight 0 0 a2
      else aIdx)"
begin

lemma sort_idx_msort: "n \<le> length a \<Longrightarrow> sort_idx a n = msort lt (take n a) @ drop n a"
proof (induction n arbitrary: a rule: less_induct)
  case (less n)
  show ?case
  proof (cases "1 < n")
    case True
    let ?l = "n div 2" and ?r = "n - n div 2"
    let ?xs = "msort lt (take ?l a)" and ?ys = "msort lt (take ?r (drop ?l a))"
    have a1: "sort_idx a ?l = ?xs @ drop ?l a" using less True by simp
    have "sort_idx (drop ?l a) ?r = ?ys @ drop ?r (drop ?l a)" using less True by simp
    then have a2: "at_off ?l (\<lambda>b. sort_idx b ?r) (sort_idx a ?l) = ?xs @ ?ys @ drop n a"
      using less.prems True by (simp add: a1 at_off_def)
    have "sort_idx a n = merge_loop lt ?xs ?l ?r 0 0 (?xs @ ?ys @ drop n a)"
      using True less.prems by (simp add: sort_idx_eq [of a n] a2 Let_def)
    also have "\<dots> = merge lt ?xs ?ys @ drop n a"
      using less.prems by (subst merge_loop_merged) (auto simp: merged_def)
    also have "merge lt ?xs ?ys = msort lt (take n a)"
      using less.prems True by (simp add: msort.simps [of lt "take n a"] min_def drop_take)
    finally show ?thesis .
  qed (use less in \<open>auto simp: sort_idx_eq [of a n] msort.simps [of lt "take n a"]\<close>)
qed

lemma sort_idx_mset: "mset (sort_idx a (length a)) = mset a"
  by (simp add: sort_idx_msort)

end

locale ordered_merge_sort = index_merge_sort +
  fixes ok :: "nat \<Rightarrow> bool" and le :: "nat \<Rightarrow> nat \<Rightarrow> bool"
  assumes lt_le: "lt x y \<Longrightarrow> le x y"
    and not_lt_le: "ok x \<Longrightarrow> ok y \<Longrightarrow> \<not> lt x y \<Longrightarrow> le y x"
    and le_trans: "le x y \<Longrightarrow> le y z \<Longrightarrow> le x z"
begin

lemma sorted_merge:
  "sorted_wrt le xs \<Longrightarrow> sorted_wrt le ys \<Longrightarrow> list_all ok xs \<Longrightarrow> list_all ok ys \<Longrightarrow>
   sorted_wrt le (merge lt xs ys)"
proof (induction l \<equiv> lt xs ys rule: merge.induct)
  case (3 x xs y ys)
  then show ?case
    using lt_le [of x y] not_lt_le [of x y] by (auto intro: le_trans)
qed auto

lemma sorted_msort: "list_all ok xs \<Longrightarrow> sorted_wrt le (msort lt xs)"
proof (induction "length xs" arbitrary: xs rule: less_induct)
  case less
  show ?case
  proof (cases "length xs \<le> 1")
    case True
    then show ?thesis by (cases xs) (auto simp: msort.simps)
  next
    case False
    have "list_all ok (take k xs)" "list_all ok (drop k xs)" for k
      using less.prems by (auto simp: list_all_iff dest: in_set_takeD in_set_dropD)
    with less.hyps False show ?thesis
      by (simp add: msort.simps [of lt xs] sorted_merge list.pred_set)
  qed
qed

lemma sort_idx_sorted: "list_all ok a \<Longrightarrow> sorted_wrt le (sort_idx a (length a))"
  by (simp add: sort_idx_msort sorted_msort)

end

definition dim_le :: "Rtree \<Rightarrow> nat \<Rightarrow> RtreeCell list \<Rightarrow> nat \<Rightarrow> nat \<Rightarrow> bool" where
  "dim_le t iDim aCell l r =
     (let x = (\<lambda>k j. DCOORD t (aCoord (aCell ! k) ! j))
      in flt (x l (iDim * 2)) (x r (iDim * 2)) \<or>
         feq (x l (iDim * 2)) (x r (iDim * 2)) \<and> fle (x l (iDim * 2 + 1)) (x r (iDim * 2 + 1)))"

definition dim_ok :: "Rtree \<Rightarrow> nat \<Rightarrow> RtreeCell list \<Rightarrow> nat \<Rightarrow> bool" where
  "dim_ok t iDim aCell k \<longleftrightarrow>
     DCOORD t (aCoord (aCell ! k) ! (iDim * 2)) \<noteq> NaN \<and> DCOORD t (aCoord (aCell ! k) ! (iDim * 2 + 1)) \<noteq> NaN"

interpretation sdist: ordered_merge_sort "\<lambda>l r. flt (aDistance ! l) (aDistance ! r)" "SortByDistance aDistance"
  "\<lambda>i. aDistance ! i \<noteq> NaN" "\<lambda>l r. fle (aDistance ! l) (aDistance ! r)" for aDistance
proof
  fix aIdx nIdx
  show "SortByDistance aDistance aIdx nIdx =
     (if 1 < nIdx then
        let nLeft = nIdx div 2; nRight = nIdx - nLeft;
            a1 = SortByDistance aDistance aIdx nLeft;
            a2 = at_off nLeft (\<lambda>aRight. SortByDistance aDistance aRight nRight) a1
        in merge_loop (\<lambda>l r. flt (aDistance ! l) (aDistance ! r)) (take nLeft a2) nLeft nRight 0 0 a2
      else aIdx)"
    by (rule SortByDistance.simps)
qed (auto simp: not_flt_iff intro: flt_imp_fle fle_trans)

interpretation sdim: ordered_merge_sort "dim_less t iDim aCell" "SortByDimension t iDim aCell"
  "dim_ok t iDim aCell" "dim_le t iDim aCell" for t iDim aCell
proof
  fix aIdx nIdx
  show "SortByDimension t iDim aCell aIdx nIdx =
     (if 1 < nIdx then
        let nLeft = nIdx div 2; nRight = nIdx - nLeft;
            a1 = SortByDimension t iDim aCell aIdx nLeft;
            a2 = at_off nLeft (\<lambda>aRight. SortByDimension t iDim aCell aRight nRight) a1
        in merge_loop (dim_less t iDim aCell) (take nLeft a2) nLeft nRight 0 0 a2
      else aIdx)"
    by (rule SortByDimension.simps)
next
  fix x y z
  show "dim_less t iDim aCell x y \<Longrightarrow> dim_le t iDim aCell x y"
    by (auto simp: dim_less_def dim_le_def Let_def intro: flt_imp_fle)
  show "dim_ok t iDim aCell x \<Longrightarrow> dim_ok t iDim aCell y \<Longrightarrow> \<not> dim_less t iDim aCell x y \<Longrightarrow> dim_le t iDim aCell y x"
    by (auto simp: dim_less_def dim_le_def dim_ok_def Let_def flt_iff feq_iff fle_iff)
  show "dim_le t iDim aCell x y \<Longrightarrow> dim_le t iDim aCell y z \<Longrightarrow> dim_le t iDim aCell x z"
    by (auto simp: dim_le_def Let_def flt_iff feq_iff fle_iff)
qed

section \<open>The split keeps every cell\<close>

lemma nodeInsertCell_append:
  assumes "wf_rtree t" "wf_node t n" "wf_cell t c" "NCELL n < nMaxCell t"
  shows "wf_node t (snd (nodeInsertCell t n c)) \<and>
    node_cells t (snd (nodeInsertCell t n c)) = node_cells t n @ [c]"
proof -
  from nodeInsertCell_room [OF assms] obtain n' where
    "nodeInsertCell t n c = (False, n')" "wf_node t n'" "node_cells t n' = node_cells t n @ [c]" .
  then show ?thesis by simp
qed

lemma NCELL_length: "NCELL n = int (length (node_cells t n))"
  using NCELL_bounds [of n] by (simp add: node_cells_def)

lemma nodeInsertCell_all:
  assumes "wf_rtree t"
  shows "wf_node t n \<Longrightarrow> list_all (wf_cell t) cs \<Longrightarrow> NCELL n + int (length cs) \<le> nMaxCell t \<Longrightarrow>
    wf_node t (fold (\<lambda>c n. snd (nodeInsertCell t n c)) cs n) \<and>
    node_cells t (fold (\<lambda>c n. snd (nodeInsertCell t n c)) cs n) = node_cells t n @ cs"
proof (induction cs arbitrary: n)
  case (Cons c cs)
  have "wf_node t (snd (nodeInsertCell t n c)) \<and>
    node_cells t (snd (nodeInsertCell t n c)) = node_cells t n @ [c]"
    using Cons.prems by (intro nodeInsertCell_append assms) auto
  moreover from this have "NCELL (snd (nodeInsertCell t n c)) = NCELL n + 1"
    using NCELL_length [of n t] NCELL_length [of "snd (nodeInsertCell t n c)" t] by (simp only: length_append) simp
  ultimately show ?case using Cons.IH [of "snd (nodeInsertCell t n c)"] Cons.prems by simp
qed simp

text \<open>The distribution loop, one half at a time.\<close>

lemma split_distribute_left:
  "(\<And>i. i \<in> set is \<Longrightarrow> int i < k) \<Longrightarrow>
   split_distribute t aCell s k is (l, r, bl, br) =
     (let cs = map (\<lambda>i. aCell ! (s ! i)) is
      in (fold (\<lambda>c n. snd (nodeInsertCell t n c)) cs l, r, rt.unions t cs bl, br))"
  by (induction "is" arbitrary: l bl) (auto simp: split_distribute_def Let_def)

lemma split_distribute_right:
  "(\<And>i. i \<in> set is \<Longrightarrow> \<not> int i < k) \<Longrightarrow>
   split_distribute t aCell s k is (l, r, bl, br) =
     (let cs = map (\<lambda>i. aCell ! (s ! i)) is
      in (l, fold (\<lambda>c n. snd (nodeInsertCell t n c)) cs r, bl, rt.unions t cs br))"
  by (induction "is" arbitrary: r br) (auto simp: split_distribute_def Let_def)

lemma split_distribute_append:
  "split_distribute t aCell s k (is @ js) x = split_distribute t aCell s k js (split_distribute t aCell s k is x)"
  by (simp add: split_distribute_def)

lemma split_distribute_eq:
  assumes "k \<le> nCell" "length s = nCell"
  shows "split_distribute t aCell s (int k) [0..<nCell] (l, r, bl, br) =
     (let cs = map ((!) aCell) (take k s); ds = map ((!) aCell) (drop k s)
      in (fold (\<lambda>c n. snd (nodeInsertCell t n c)) cs l, fold (\<lambda>c n. snd (nodeInsertCell t n c)) ds r,
          rt.unions t cs bl, rt.unions t ds br))"
proof -
  have u: "[0..<nCell] = [0..<k] @ [k..<nCell]"
    using assms(1) upt_add_eq_append [of 0 k "nCell - k"] by simp
  have c: "map (\<lambda>i. aCell ! (s ! i)) [0..<k] = map ((!) aCell) (take k s)"
    "map (\<lambda>i. aCell ! (s ! i)) [k..<nCell] = map ((!) aCell) (drop k s)"
    using assms by (auto intro: nth_equalityI)
  show ?thesis
    unfolding u split_distribute_append
    by (subst split_distribute_left, simp, subst Let_def, subst split_distribute_right, simp)
      (simp add: Let_def c)
qed

text \<open>
  The chosen size lies between the least fill of a node and what it leaves to the other node,
  and the chosen dimension is one of the table.
\<close>

lemma fold_best_range:
  assumes "list_all P xs" "\<And>x s. x \<in> set xs \<Longrightarrow> sel (f x s) = x \<or> sel (f x s) = sel s" "P (sel s)"
  shows "P (sel (fold f xs s))"
  using assms
proof (induction xs arbitrary: s)
  case (Cons x xs)
  have "P (sel (f x s))" using Cons.prems(1,3) Cons.prems(2) [of x s] by auto
  then show ?case using Cons by simp
qed simp

lemma split_sizes_range:
  assumes "2 * RTREE_MINCELLS t \<le> int nCell"
  shows "RTREE_MINCELLS t \<le> fst (snd (split_sizes t aCell s nCell)) \<and>
    fst (snd (split_sizes t aCell s nCell)) \<le> int nCell - RTREE_MINCELLS t"
proof -
  let ?m = "RTREE_MINCELLS t"
  have u: "[?m .. int nCell - ?m] = ?m # [?m + 1 .. int nCell - ?m]"
    using assms by (simp add: upto_rec1)
  show ?thesis
    unfolding split_sizes_def u fold_simps(2)
    by (rule fold_best_range [where sel = "\<lambda>x. fst (snd x)"])
      (use assms in \<open>auto simp: list_all_iff Let_def split: prod.splits\<close>)
qed

lemma split_dims_range:
  assumes "2 * RTREE_MINCELLS t \<le> int nCell" "0 < nDim t"
  obtains iBestDim m iBestSplit where "split_dims t aCell aa nCell = (iBestDim, m, iBestSplit)"
    "iBestDim < nDim t" "RTREE_MINCELLS t \<le> iBestSplit" "iBestSplit \<le> int nCell - RTREE_MINCELLS t"
proof -
  define ok where "ok = (\<lambda>(d :: nat, m :: fp, k :: int). d < nDim t \<and> RTREE_MINCELLS t \<le> k \<and> k \<le> int nCell - RTREE_MINCELLS t)"
  define f where "f = (\<lambda>ii (iBestDim :: nat, fBestMargin, iBestSplit).
         let (margin, iBestLeft, _, _) = split_sizes t aCell (aa ! ii) nCell
         in if ii = 0 \<or> flt margin fBestMargin then (ii, margin, iBestLeft)
            else (iBestDim, fBestMargin, iBestSplit))"
  have step: "ii < nDim t \<Longrightarrow> ii = 0 \<or> ok x \<Longrightarrow> ok (f ii x)" for ii x
    using split_sizes_range [OF assms(1), of aCell "aa ! ii"]
    by (auto simp: ok_def f_def Let_def split: prod.splits)
  have rest: "ok (fold f is x)" if "ok x" "set is \<subseteq> {..<nDim t}" for "is" x
    using that
  proof (induction "is" arbitrary: x)
    case (Cons i "is")
    then have "ok (f i x)" by (intro step) auto
    with Cons.IH Cons.prems show ?case by simp
  qed simp
  have u: "[0..<nDim t] = 0 # [1..<nDim t]" using assms(2) by (simp add: upt_conv_Cons)
  have "ok (fold f [0..<nDim t] (0, fp_zero, 0))"
    unfolding u fold_simps(2) by (intro rest step) (use assms(2) in auto)
  moreover have "split_dims t aCell aa nCell = fold f [0..<nDim t] (0, fp_zero, 0)"
    by (simp add: split_dims_def f_def)
  ultimately show ?thesis using that by (cases "split_dims t aCell aa nCell") (auto simp: ok_def)
qed

lemma MINCELLS_bounds:
  "wf_rtree t \<Longrightarrow> 0 \<le> RTREE_MINCELLS t \<and> 3 * RTREE_MINCELLS t \<le> nMaxCell t"
proof -
  assume "wf_rtree t"
  then have "0 \<le> nMaxCell t" by (rule nMaxCell_fits(1))
  then have "RTREE_MINCELLS t = nMaxCell t div 3"
    by (simp add: RTREE_MINCELLS_def nMaxCell_def sdiv_nonneg)
  then show ?thesis using \<open>0 \<le> nMaxCell t\<close> by linarith
qed

lemma sqlite3_malloc_fields [simp]:
  "nDim (snd (sqlite3_malloc t)) = nDim t" "eCoordType (snd (sqlite3_malloc t)) = eCoordType t"
  "nBytesPerCell (snd (sqlite3_malloc t)) = nBytesPerCell t" "iNodeSize (snd (sqlite3_malloc t)) = iNodeSize t"
  by (auto simp: sqlite3_malloc_def split: list.splits)

text \<open>Definitions that read only the geometry of a table agree on tables that share it.\<close>

lemma same_geometry:
  assumes "nDim u = nDim t" "eCoordType u = eCoordType t" "nBytesPerCell u = nBytesPerCell t" "iNodeSize u = iNodeSize t"
  shows "wf_rtree u = wf_rtree t" "wf_node u = wf_node t" "wf_cell u = wf_cell t" "num_cell u = num_cell t"
    "node_cells u = node_cells t" "nMaxCell u = nMaxCell t" "RTREE_MINCELLS u = RTREE_MINCELLS t"
    "cellContains u = cellContains t"
  using assms
  by (auto simp: fun_eq_iff wf_rtree_def wf_node_def wf_cell_def num_cell_def nMaxCell_def
      RTREE_MINCELLS_def cellContains_def node_cells_def nodeGetCell_def nodeGetRowid_def)

lemma mset_map_nth_perm:
  "mset s = mset [0..<n] \<Longrightarrow> length cs = n \<Longrightarrow> mset (map ((!) cs) s) = mset cs"
  by (metis map_nth mset_map)

lemma split_half:
  assumes "wf_rtree t" "list_all (num_cell t) cs" "cs \<noteq> []" "wf_node t n" "node_cells t n = []"
    "int (length cs) \<le> nMaxCell t" "b = hd cs"
  shows "wf_node t (fold (\<lambda>c n. snd (nodeInsertCell t n c)) cs n)"
    "node_cells t (fold (\<lambda>c n. snd (nodeInsertCell t n c)) cs n) = cs"
    "num_cell t (rt.unions t cs b)" "list_all (cellContains t (rt.unions t cs b)) cs"
proof -
  have "list_all (wf_cell t) cs" using assms(2) by (auto simp: list_all_iff num_cell_def)
  moreover have "NCELL n = 0" using assms(5) NCELL_length [of n t] by simp
  ultimately show "wf_node t (fold (\<lambda>c n. snd (nodeInsertCell t n c)) cs n)"
    "node_cells t (fold (\<lambda>c n. snd (nodeInsertCell t n c)) cs n) = cs"
    using nodeInsertCell_all [OF assms(1,4), of cs] assms(5,6) by auto
  have "num_cell t b" using assms(2,3,7) by (cases cs) auto
  with assms(2) show "num_cell t (rt.unions t cs b)" "list_all (cellContains t (rt.unions t cs b)) cs"
    by (auto simp: list_all_iff intro: rt.valid_unions rt.unions_member)
qed

text \<open>What a split promises of its two nodes and their boxes.\<close>

definition split_post ::
  "Rtree \<Rightarrow> RtreeCell list \<Rightarrow> RtreeNode \<times> RtreeNode \<times> RtreeCell \<times> RtreeCell \<Rightarrow> bool" where
  "split_post t aCell = (\<lambda>(l, r, bl, br).
     wf_node t l \<and> wf_node t r \<and> num_cell t bl \<and> num_cell t br \<and>
     mset (node_cells t l) + mset (node_cells t r) = mset aCell \<and>
     RTREE_MINCELLS t \<le> NCELL l \<and> RTREE_MINCELLS t \<le> NCELL r \<and> 0 < NCELL l \<and> 0 < NCELL r \<and>
     list_all (cellContains t bl) (node_cells t l) \<and> list_all (cellContains t br) (node_cells t r))"

lemma split_distribute_post:
  assumes t: "wf_rtree t" and cells: "list_all (num_cell t) aCell" "int (length aCell) = nMaxCell t + 1"
    and l: "wf_node t l" "node_cells t l = []" and r: "wf_node t r" "node_cells t r = []"
    and k: "RTREE_MINCELLS t \<le> int k" "int k \<le> nMaxCell t + 1 - RTREE_MINCELLS t" "1 \<le> RTREE_MINCELLS t"
    and s: "mset s = mset [0..<length aCell]"
  shows "split_post t aCell (split_distribute t aCell s (int k) [0..<length aCell]
     (l, r, aCell ! (s ! 0), aCell ! (s ! k)))"
proof -
  let ?cs = "map ((!) aCell) (take k s)" and ?ds = "map ((!) aCell) (drop k s)"
  have ls: "length s = length aCell" using s by (metis diff_zero length_upt size_mset)
  have k': "0 < k" "k < length aCell" using k cells(2) by linarith+
  have "set s = {0..<length aCell}" using s by (metis set_mset_mset set_upt)
  then have n: "list_all (num_cell t) ?cs" "list_all (num_cell t) ?ds"
    using cells(1) by (auto simp: list_all_iff dest!: in_set_takeD in_set_dropD)
  have ne: "?cs \<noteq> []" "?ds \<noteq> []" using k' ls by auto
  have len: "int (length ?cs) \<le> nMaxCell t" "int (length ?ds) \<le> nMaxCell t"
    using k k' ls cells(2) by auto
  have hd: "aCell ! (s ! 0) = hd ?cs" "aCell ! (s ! k) = hd ?ds"
    using k' ls ne by (auto simp: hd_map hd_drop_conv_nth hd_conv_nth)
  have perm: "mset ?cs + mset ?ds = mset aCell"
    using mset_map_nth_perm [OF s refl]
    by (metis append_take_drop_id map_append mset_append)
  note L = split_half [OF t n(1) ne(1) l len(1) hd(1)] and R = split_half [OF t n(2) ne(2) r len(2) hd(2)]
  show ?thesis
    using L R perm k k' ls cells(2)
    by (subst split_distribute_eq) (auto simp: split_post_def Let_def NCELL_length [of _ t] simp del: length_node_cells)
qed

section \<open>Properties\<close>

text \<open>C21: Both merge sorts permute the index array; where no key is NaN the result is in the
  order of the distances, or of the lower and then the upper bound in the given dimension.\<close>

theorem index_sorts_correct:
  "mset (SortByDistance aDistance aIdx (length aIdx)) = mset aIdx \<and>
   (list_all (\<lambda>i. aDistance ! i \<noteq> NaN) aIdx \<longrightarrow>
      sorted_wrt (\<lambda>l r. fle (aDistance ! l) (aDistance ! r)) (SortByDistance aDistance aIdx (length aIdx))) \<and>
   mset (SortByDimension t iDim aCell aIdx (length aIdx)) = mset aIdx \<and>
   (list_all (dim_ok t iDim aCell) aIdx \<longrightarrow>
      sorted_wrt (dim_le t iDim aCell) (SortByDimension t iDim aCell aIdx (length aIdx)))"
  using sdist.sort_idx_mset sdist.sort_idx_sorted sdim.sort_idx_mset sdim.sort_idx_sorted by auto

theorem index_sorts_correct_witness:
  "sorted_wrt (\<lambda>l r. fle ([fp_of_int 5, fp_of_int 2] ! l) ([fp_of_int 5, fp_of_int 2] ! r))
     (SortByDistance [fp_of_int 5, fp_of_int 2] [0, 1] 2)"
  using index_sorts_correct [of "[fp_of_int 5, fp_of_int 2]" "[0, 1]" undefined undefined undefined]
  by (simp add: numeral_2_eq_2)

text \<open>C22: Containment of bounding boxes is a preorder on the cells without NaN, and the union of
  two is the least box that contains both.\<close>

theorem cellUnion_least_upper_bound:
  assumes "num_cell t a" "num_cell t b" "num_cell t c"
  shows "num_cell t (cellUnion t a b) \<and>
    (cellContains t c (cellUnion t a b) \<longleftrightarrow> cellContains t c a \<and> cellContains t c b) \<and>
    cellContains t a a \<and> (cellContains t a b \<and> cellContains t b c \<longrightarrow> cellContains t a c)"
  using assms rt.contains_refl rt.valid_union rt.contains_trans rt.union_left rt.union_right rt.union_least
  by meson

theorem cellUnion_least_upper_bound_witness:
  "(let t = sample_rtree RTREE_COORD_INT32; c = (\<lambda>x y. \<lparr>iRowid = 1, aCoord = [x, y]\<rparr>)
    in num_cell t (c 0 3) \<and> num_cell t (c 2 9) \<and> num_cell t (c 0 9) \<and>
       cellContains t (c 0 9) (cellUnion t (c 0 3) (c 2 9)))"
proof -
  let ?t = "sample_rtree RTREE_COORD_INT32" and ?c = "\<lambda>x y. \<lparr>iRowid = 1, aCoord = [x, y]\<rparr> :: RtreeCell"
  have "num_cell ?t (?c x y)" for x y
    by (simp add: num_cell_def wf_cell_def coord_num_def sample_rtree_def)
  moreover have "cellContains ?t (?c 0 9) (?c 0 3)" "cellContains ?t (?c 0 9) (?c 2 9)"
    by (simp_all add: sample_rtree_def cellContains_def coord_less_def)
  ultimately show ?thesis
    using cellUnion_least_upper_bound [of ?t "?c 0 3" "?c 2 9" "?c 0 9"] by (simp add: Let_def)
qed

text \<open>C1: Splitting an overfull node loses and invents no cell: the two nodes hold exactly the
  given cells, each has at least \<open>RTREE_MINCELLS\<close> and fits its page, and each bounding box
  contains every cell of its node. The only error is a failed allocation.\<close>

theorem splitNodeStartree_correct:
  assumes t: "wf_rtree t" "3 \<le> nMaxCell t"
    and cells: "list_all (num_cell t) aCell" "int (length aCell) = nMaxCell t + 1"
    and l: "wf_node t l" "node_cells t l = []" and r: "wf_node t r" "node_cells t r = []"
  shows "case snd (splitNodeStartree t aCell (length aCell) l r) of
      Inl e \<Rightarrow> e = SQLITE_NOMEM \<and> \<not> fst (sqlite3_malloc t)
    | Inr res \<Rightarrow> split_post t aCell res"
proof (cases "fst (sqlite3_malloc t)")
  case True
  let ?u = "snd (sqlite3_malloc t)" and ?n = "length aCell"
  note g = same_geometry [of ?u t, simplified]
  let ?aa = "map (\<lambda>ii. SortByDimension ?u ii aCell [0..<?n] ?n) [0..<nDim ?u]"
  have m: "1 \<le> RTREE_MINCELLS t" "3 * RTREE_MINCELLS t \<le> nMaxCell t"
    using MINCELLS_bounds [OF t(1)] t(2) by (auto simp: RTREE_MINCELLS_def nMaxCell_def sdiv_nonneg)
  obtain d mg k where d: "split_dims ?u aCell ?aa ?n = (d, mg, k)" "d < nDim ?u"
      "RTREE_MINCELLS ?u \<le> k" "k \<le> int ?n - RTREE_MINCELLS ?u"
    using split_dims_range [of ?u ?n aCell ?aa] t(1) m cells(2) by (auto simp: g wf_rtree_def)
  have s: "mset (?aa ! d) = mset [0..<?n]"
    using d(2) sdim.sort_idx_mset [of ?u d aCell "[0..<?n]"] by simp
  have "split_post ?u aCell (split_distribute ?u aCell (?aa ! d) (int (nat k)) [0..<?n]
     (l, r, aCell ! (?aa ! d ! 0), aCell ! (?aa ! d ! nat k)))"
    by (rule split_distribute_post) (use assms m d s in \<open>simp_all add: g\<close>)
  then show ?thesis
    using True d m by (simp add: splitNodeStartree_def case_prod_beta Let_def g split_post_def)
qed (auto simp: splitNodeStartree_def case_prod_beta)

theorem splitNodeStartree_correct_witness:
  "(let t = sample_rtree RTREE_COORD_INT32; n = nodeZero t sample_node;
        cs = map (\<lambda>x. \<lparr>iRowid = 1, aCoord = [x, x + 1]\<rparr>) [7, 2, 5, 3]
    in \<exists>res. snd (splitNodeStartree t cs (length cs) n n) = Inr res \<and> split_post t cs res)"
proof -
  let ?t = "sample_rtree RTREE_COORD_INT32" and ?n = "nodeZero (sample_rtree RTREE_COORD_INT32) sample_node"
  let ?cs = "map (\<lambda>x. \<lparr>iRowid = 1, aCoord = [x, x + 1]\<rparr>) [7, 2, 5, 3] :: RtreeCell list"
  have m: "nMaxCell ?t = 3" by (simp add: nMaxCell_def sample_rtree_def sdiv_nonneg)
  have "int (length (zData sample_node)) = iNodeSize ?t"
    using wf_sample_node(1) [of RTREE_COORD_INT32] by (simp add: wf_node_def)
  note n = nodeZero_cells(1,2) [OF wf_sample_rtree this]
  have c: "list_all (num_cell ?t) ?cs"
    by (simp add: num_cell_def wf_cell_def coord_num_def sample_rtree_def)
  have "fst (sqlite3_malloc ?t)" by (simp add: sqlite3_malloc_def sample_rtree_def)
  then show ?thesis
    using splitNodeStartree_correct [OF wf_sample_rtree _ c _ n n] m by (auto simp: Let_def split: sum.splits)
qed

end
