(* ===== verification/Rtree_Query.thy ===== *)
theory Rtree_Query
  imports Rtree_Geom
begin

text \<open>
  The search constraints of \<^verbatim>\<open>rtree.c\<close>: decoding a coordinate from the bytes of a cell,
  the tests on leaf cells and on the boxes of internal nodes, the geometry callbacks, and the
  loop over the constraints that \<open>rtreeStepToLeaf\<close> runs on every cell. The callbacks
  are functions of the application: they are fields of the constraint, with their private memory
  threaded through. The theorems show that an internal box is never rejected while a cell
  inside it satisfies the constraint.
\<close>

section \<open>Constraints\<close>

abbreviation (input) NOT_WITHIN :: int where "NOT_WITHIN \<equiv> 0"
abbreviation (input) PARTLY_WITHIN :: int where "PARTLY_WITHIN \<equiv> 1"
abbreviation (input) FULLY_WITHIN :: int where "FULLY_WITHIN \<equiv> 2"

abbreviation (input) RTREE_EQ :: int where "RTREE_EQ \<equiv> 0x41"
abbreviation (input) RTREE_LE :: int where "RTREE_LE \<equiv> 0x42"
abbreviation (input) RTREE_LT :: int where "RTREE_LT \<equiv> 0x43"
abbreviation (input) RTREE_GE :: int where "RTREE_GE \<equiv> 0x44"
abbreviation (input) RTREE_GT :: int where "RTREE_GT \<equiv> 0x45"
abbreviation (input) RTREE_MATCH :: int where "RTREE_MATCH \<equiv> 0x46"
abbreviation (input) RTREE_QUERY :: int where "RTREE_QUERY \<equiv> 0x47"

text \<open>\<open>struct sqlite3_rtree_query_info\<close>; \<open>qi_pUser\<close> is the memory the callback owns.\<close>

record query_info =
  qi_aParam :: "fp list"
  qi_pUser :: "u8 list"
  qi_aCoord :: "fp list"
  qi_anQueue :: "u32 list"
  qi_nCoord :: nat
  qi_iLevel :: int
  qi_mxLevel :: int
  qi_iRowid :: i64
  qi_rParentScore :: fp
  qi_eParentWithin :: int
  qi_eWithin :: int
  qi_rScore :: fp

text \<open>
  \<open>xGeom\<close> returns its result code, what it leaves in \<open>*pRes\<close> and the callback
  information with its own memory updated; \<open>xQueryFunc\<close> the code and the information.
\<close>

record RtreeConstraint =
  iCoord :: nat
  cop :: int
  rValue :: fp
  xGeom :: "query_info \<Rightarrow> nat \<Rightarrow> fp list \<Rightarrow> int \<Rightarrow> int \<times> int \<times> query_info"
  xQueryFunc :: "query_info \<Rightarrow> int \<times> query_info"
  pInfo :: query_info

record RtreeSearchPoint =
  rScore :: fp
  sp_id :: i64
  iLevel :: u8
  eWithin :: int
  iCell :: u8

section \<open>Decoding\<close>

text \<open>\<open>memcpy(&c.u, a, 4)\<close> on a little-endian processor, and the byte swap that follows it.\<close>

definition load_le32 :: "u8 list \<Rightarrow> u32" where
  "load_le32 a = ucast (a ! 0) OR push_bit 8 (ucast (a ! 1)) OR push_bit 16 (ucast (a ! 2)) OR
     push_bit 24 (ucast (a ! 3))"

definition bswap32 :: "u32 \<Rightarrow> u32" where
  "bswap32 u = (drop_bit 24 u AND 0xff) OR (drop_bit 8 u AND 0xff00) OR
     push_bit 24 (u AND 0xff) OR push_bit 8 (u AND 0xff00)"

definition RTREE_DECODE_COORD :: "bool \<Rightarrow> u8 list \<Rightarrow> fp" where
  "RTREE_DECODE_COORD eInt a =
     (let u = bswap32 (load_le32 a) in if eInt then fp_of_int (sint u) else decode32 u)"

section \<open>The tests\<close>

fun decode_coords :: "bool \<Rightarrow> u8 list \<Rightarrow> nat \<Rightarrow> fp list" where
  "decode_coords eInt p 0 = []"
| "decode_coords eInt p (Suc k) = RTREE_DECODE_COORD eInt p # decode_coords eInt (drop 4 p) k"

definition rtreeCallbackConstraint ::
  "RtreeConstraint \<Rightarrow> bool \<Rightarrow> u8 list \<Rightarrow> RtreeSearchPoint \<Rightarrow> fp \<Rightarrow> int \<Rightarrow>
   int \<times> RtreeConstraint \<times> fp \<times> int" where
  "rtreeCallbackConstraint c eInt pCellData pSearch prScore peWithin =
     (let nCoord = qi_nCoord (pInfo c);
          info = (if cop c = RTREE_QUERY \<and> iLevel pSearch = 1
                  then (pInfo c)\<lparr>qi_iRowid := readInt64 pCellData\<rparr> else pInfo c);
          coords = decode_coords eInt (drop 8 pCellData) nCoord
      in if cop c = RTREE_MATCH then
           let (rc, i, info) = xGeom c info nCoord coords (int nCoord)
           in (rc, c\<lparr>pInfo := info\<rparr>, fp_zero, if i = 0 then NOT_WITHIN else peWithin)
         else
           let info = info\<lparr>qi_aCoord := coords, qi_iLevel := uint (iLevel pSearch) - 1,
                  qi_rScore := rScore pSearch, qi_rParentScore := rScore pSearch,
                  qi_eWithin := eWithin pSearch, qi_eParentWithin := eWithin pSearch\<rparr>;
               (rc, info) = xQueryFunc c info
           in (rc, c\<lparr>pInfo := info\<rparr>,
               if flt (qi_rScore info) prScore \<or> flt prScore fp_zero then qi_rScore info else prScore,
               if qi_eWithin info < peWithin then qi_eWithin info else peWithin))"

definition rtreeNonleafConstraint :: "RtreeConstraint \<Rightarrow> bool \<Rightarrow> u8 list \<Rightarrow> int \<Rightarrow> int" where
  "rtreeNonleafConstraint p eInt pCellData peWithin =
     (let pLower = drop (8 + 4 * (iCoord p AND 0xfe)) pCellData;
          pUpper = drop 4 pLower;
          upperTest = (if fle (rValue p) (RTREE_DECODE_COORD eInt pUpper) then peWithin else NOT_WITHIN)
      in if cop p = RTREE_LE \<or> cop p = RTREE_LT \<or> cop p = RTREE_EQ then
           if fle (RTREE_DECODE_COORD eInt pLower) (rValue p) then peWithin
           else if cop p \<noteq> RTREE_EQ then NOT_WITHIN
           else upperTest
         else upperTest)"

definition rtreeLeafConstraint :: "RtreeConstraint \<Rightarrow> bool \<Rightarrow> u8 list \<Rightarrow> int \<Rightarrow> int" where
  "rtreeLeafConstraint p eInt pCellData peWithin =
     (let xN = RTREE_DECODE_COORD eInt (drop (8 + iCoord p * 4) pCellData)
      in if cop p = RTREE_LE then (if fle xN (rValue p) then peWithin else NOT_WITHIN)
         else if cop p = RTREE_LT then (if flt xN (rValue p) then peWithin else NOT_WITHIN)
         else if cop p = RTREE_GE then (if fle (rValue p) xN then peWithin else NOT_WITHIN)
         else if cop p = RTREE_GT then (if flt (rValue p) xN then peWithin else NOT_WITHIN)
         else (if feq xN (rValue p) then peWithin else NOT_WITHIN))"

text \<open>
  The \<open>for\<close> loop of \<open>rtreeStepToLeaf\<close> over the constraints, on one cell. It stops at
  the first error or the first constraint that excludes the cell; the constraints behind it keep
  their callback information.
\<close>

fun constraint_loop ::
  "RtreeConstraint list \<Rightarrow> bool \<Rightarrow> u8 list \<Rightarrow> RtreeSearchPoint \<Rightarrow> fp \<Rightarrow> int \<Rightarrow>
   int \<times> RtreeConstraint list \<times> fp \<times> int" where
  "constraint_loop [] eInt pCellData p score w = (SQLITE_OK, [], score, w)"
| "constraint_loop (c # cs) eInt pCellData p score w =
     (let (rc, c, score, w) =
            (if RTREE_MATCH \<le> cop c then rtreeCallbackConstraint c eInt pCellData p score w
             else if iLevel p = 1 then (SQLITE_OK, c, score, rtreeLeafConstraint c eInt pCellData w)
             else (SQLITE_OK, c, score, rtreeNonleafConstraint c eInt pCellData w))
      in if rc \<noteq> SQLITE_OK \<or> w = NOT_WITHIN then (rc, c # cs, score, w)
         else let (rc, cs, score, w) = constraint_loop cs eInt pCellData p score w
              in (rc, c # cs, score, w))"

section \<open>Lemmas\<close>

lemma bit_shifted_byte:
  "bit (push_bit k (ucast (x :: u8)) :: u32) n \<longleftrightarrow> n < 32 \<and> k \<le> n \<and> n < k + 8 \<and> bit x (n - k)"
  using bit_imp_le_length [of x "n - k"] by (auto simp: bit_simps)

lemma bit_ucast_byte_high: "8 \<le> j \<Longrightarrow> \<not> bit (ucast (x :: u8) :: u32) j"
  using bit_imp_le_length [of x j] by (auto simp: bit_simps)

lemma shifted_bytes_disjoint:
  "k + 8 \<le> l \<Longrightarrow> push_bit l (ucast (x :: u8)) AND push_bit k (ucast (y :: u8)) = (0 :: u32)"
  by (rule bit_word_eqI) (auto simp: bit_and_iff bit_shifted_byte)

lemma readCoord_or:
  "readCoord p = push_bit 24 (ucast (p ! 0)) OR push_bit 16 (ucast (p ! 1)) OR
     push_bit 8 (ucast (p ! 2)) OR push_bit 0 (ucast (p ! 3))"
proof -
  let ?b = "\<lambda>k i. push_bit k (ucast (p ! i)) :: u32"
  have d: "?b 24 0 AND ?b 16 1 = 0" "(?b 24 0 OR ?b 16 1) AND ?b 8 2 = 0"
    "((?b 24 0 OR ?b 16 1) OR ?b 8 2) AND ?b 0 3 = 0"
    by (simp_all add: bit.conj_disj_distrib2 shifted_bytes_disjoint del: push_bit_0_id)
  have "readCoord p = ((?b 24 0 + ?b 16 1) + ?b 8 2) + ?b 0 3" by (simp add: readCoord_def)
  also have "\<dots> = ((?b 24 0 OR ?b 16 1) OR ?b 8 2) OR ?b 0 3"
    using d by (simp only: disjunctive_add_eq_or)
  finally show ?thesis by (simp only: or.assoc)
qed

lemma bswap32_load: "bswap32 (load_le32 a) = readCoord a"
proof (rule bit_word_eqI)
  fix n assume n: "n < LENGTH(32)"
  have m: "(0xff :: u32) = mask 8" "(0xff00 :: u32) = push_bit 8 (mask 8)"
    by (simp_all add: mask_eq_exp_minus_1 push_bit_eq_mult)
  have l: "load_le32 a = push_bit 0 (ucast (a ! 0)) OR push_bit 8 (ucast (a ! 1)) OR push_bit 16 (ucast (a ! 2)) OR
     push_bit 24 (ucast (a ! 3))" by (simp add: load_le32_def)
  obtain k where k: "k < 8" "n = k \<or> n = 8 + k \<or> n = 16 + k \<or> n = 24 + k"
  proof
    show "n mod 8 < 8" by simp
    have "n < 32" using n by simp
    then show "n = n mod 8 \<or> n = 8 + n mod 8 \<or> n = 16 + n mod 8 \<or> n = 24 + n mod 8" by presburger
  qed
  from k(2) show "bit (bswap32 (load_le32 a)) n = bit (readCoord a) n"
    unfolding bswap32_def m l readCoord_or
    by (elim disjE) (use k(1) in \<open>simp_all add: bit_or_iff bit_and_iff bit_drop_bit_eq bit_push_bit_iff
      bit_mask_iff bit_ucast_byte_high del: push_bit_0_id\<close>)
qed

text \<open>The optimised macro decodes what \<open>readCoord\<close> and \<open>DCOORD\<close> read.\<close>

lemma RTREE_DECODE_COORD_eq:
  "RTREE_DECODE_COORD (eCoordType t = RTREE_COORD_INT32) a = DCOORD t (readCoord a)"
  by (cases "eCoordType t") (auto simp: RTREE_DECODE_COORD_def bswap32_load DCOORD_def)

lemma cell_of_bytes_coord:
  "k < nd * 2 \<Longrightarrow> aCoord (cell_of_bytes nd p) ! k = readCoord (drop (8 + 4 * k) p)"
  by (simp add: cell_of_bytes_def nth_readCoords add.commute)

lemma contains_loop_nth:
  "contains_loop et xs ys \<Longrightarrow> 2 * i + 1 < length xs \<Longrightarrow> length ys = length xs \<Longrightarrow>
     \<not> coord_less et (ys ! (2 * i)) (xs ! (2 * i)) \<and> \<not> coord_less et (xs ! (2 * i + 1)) (ys ! (2 * i + 1))"
proof (induction et xs ys arbitrary: i rule: contains_loop.induct)
  case (1 et a1 b1 r1 a2 b2 r2)
  show ?case
  proof (cases i)
    case (Suc j)
    have c: "\<not> coord_less et a2 a1" "\<not> coord_less et b1 b2" "contains_loop et r1 r2"
      using "1.prems"(1) by (auto split: if_splits)
    with "1.IH" [of j] "1.prems" Suc show ?thesis by simp
  qed (use "1.prems"(1) in \<open>auto split: if_splits\<close>)
qed auto

lemma coord_le_DCOORD:
  "coord_num (eCoordType t) a \<Longrightarrow> coord_num (eCoordType t) b \<Longrightarrow>
   \<not> coord_less (eCoordType t) a b \<longleftrightarrow> fle (DCOORD t b) (DCOORD t a)"
  by (cases "eCoordType t") (auto simp: coord_less_iff DCOORD_def)

text \<open>The check of \<open>rtreeUpdate\<close> on the coordinates of a row: no lower bound exceeds its upper bound.\<close>

definition ordered_cell :: "Rtree \<Rightarrow> RtreeCell \<Rightarrow> bool" where
  "ordered_cell t c \<longleftrightarrow>
     list_all (\<lambda>i. fle (DCOORD t (aCoord c ! (2 * i))) (DCOORD t (aCoord c ! (2 * i + 1)))) [0..<nDim t]"

lemma box_bounds:
  assumes "num_cell t b" "num_cell t c" "cellContains t b c" "ordered_cell t c" "i < nDim t"
  shows "fle (DCOORD t (aCoord b ! (2 * i))) (DCOORD t (aCoord c ! (2 * i)))"
    "fle (DCOORD t (aCoord c ! (2 * i))) (DCOORD t (aCoord c ! (2 * i + 1)))"
    "fle (DCOORD t (aCoord c ! (2 * i + 1))) (DCOORD t (aCoord b ! (2 * i + 1)))"
proof -
  have l: "length (aCoord b) = nDim t * 2" "length (aCoord c) = nDim t * 2"
    using assms(1,2) by (auto simp: num_cell_def wf_cell_def)
  have n: "coord_num (eCoordType t) (aCoord b ! j)" "coord_num (eCoordType t) (aCoord c ! j)"
    if "j < nDim t * 2" for j
    using assms(1,2) l that by (auto simp: num_cell_def list_all_length)
  have "contains_loop (eCoordType t) (aCoord b) (aCoord c)"
    using assms(3) l by (simp add: cellContains_def)
  from contains_loop_nth [OF this, of i] assms(5) l n
  show "fle (DCOORD t (aCoord b ! (2 * i))) (DCOORD t (aCoord c ! (2 * i)))"
    "fle (DCOORD t (aCoord c ! (2 * i + 1))) (DCOORD t (aCoord b ! (2 * i + 1)))"
    by (auto simp: coord_le_DCOORD)
  show "fle (DCOORD t (aCoord c ! (2 * i))) (DCOORD t (aCoord c ! (2 * i + 1)))"
    using assms(4,5) by (auto simp: ordered_cell_def list_all_iff)
qed

lemma and_0xfe: "k < 10 \<Longrightarrow> k AND 0xfe = 2 * (k div 2 :: nat)"
proof -
  assume "k < 10"
  then have "k \<in> {0, 1, 2, 3, 4, 5, 6, 7, 8, 9}" by auto
  then show ?thesis by auto
qed

text \<open>What a constraint says of a row, on the values of its coordinates.\<close>

definition constraint_holds :: "Rtree \<Rightarrow> RtreeConstraint \<Rightarrow> RtreeCell \<Rightarrow> bool" where
  "constraint_holds t p c =
     (let xN = DCOORD t (aCoord c ! iCoord p); v = rValue p
      in if cop p = RTREE_LE then fle xN v else if cop p = RTREE_LT then flt xN v
         else if cop p = RTREE_GE then fle v xN else if cop p = RTREE_GT then flt v xN
         else feq xN v)"

definition plain_constraint :: "Rtree \<Rightarrow> RtreeConstraint \<Rightarrow> bool" where
  "plain_constraint t p \<longleftrightarrow> iCoord p < nDim t * 2 \<and> RTREE_EQ \<le> cop p \<and> cop p < RTREE_MATCH"

lemma rtreeLeafConstraint_eq:
  assumes "plain_constraint t p"
  shows "rtreeLeafConstraint p (eCoordType t = RTREE_COORD_INT32) d w =
    (if constraint_holds t p (cell_of_bytes (nDim t) d) then w else NOT_WITHIN)"
  using assms
  by (auto simp: plain_constraint_def rtreeLeafConstraint_def constraint_holds_def Let_def
      RTREE_DECODE_COORD_eq cell_of_bytes_coord mult.commute)

lemma rtreeNonleafConstraint_eq:
  assumes "wf_rtree t" "plain_constraint t p"
  shows "rtreeNonleafConstraint p (eCoordType t = RTREE_COORD_INT32) d w =
    (let b = aCoord (cell_of_bytes (nDim t) d); i = iCoord p div 2;
         lo = fle (DCOORD t (b ! (2 * i))) (rValue p); up = fle (rValue p) (DCOORD t (b ! (2 * i + 1)))
     in if (if cop p = RTREE_LE \<or> cop p = RTREE_LT then lo
            else if cop p = RTREE_EQ then lo \<or> up else up) then w else NOT_WITHIN)"
proof -
  have "iCoord p < nDim t * 2" "nDim t \<le> 5" using assms by (auto simp: plain_constraint_def wf_rtree_def)
  then have k: "iCoord p < 10" "2 * (iCoord p div 2) + 1 < nDim t * 2" by presburger+
  show ?thesis
    using k assms(2)
    by (auto simp: rtreeNonleafConstraint_def Let_def RTREE_DECODE_COORD_eq and_0xfe cell_of_bytes_coord
        add.commute add.left_commute)
qed

lemma nonleaf_sound:
  assumes t: "wf_rtree t" and p: "plain_constraint t p"
    and b: "num_cell t (cell_of_bytes (nDim t) d)" and c: "num_cell t c" "ordered_cell t c"
    and cont: "cellContains t (cell_of_bytes (nDim t) d) c" and h: "constraint_holds t p c"
  shows "rtreeNonleafConstraint p (eCoordType t = RTREE_COORD_INT32) d w = w"
proof -
  let ?b = "aCoord (cell_of_bytes (nDim t) d)" and ?i = "iCoord p div 2"
  have i: "?i < nDim t" using p by (auto simp: plain_constraint_def)
  note bb = box_bounds [OF b c(1) cont c(2) i]
  have "iCoord p = 2 * ?i \<or> iCoord p = 2 * ?i + 1" by presburger
  then have lo: "fle (DCOORD t (?b ! (2 * ?i))) (DCOORD t (aCoord c ! iCoord p))"
    and up: "fle (DCOORD t (aCoord c ! iCoord p)) (DCOORD t (?b ! (2 * ?i + 1)))"
    using bb by (auto intro: fle_trans elim!: disjE)
  show ?thesis
    unfolding rtreeNonleafConstraint_eq [OF t p]
    using h p lo up
    by (auto simp: Let_def constraint_holds_def plain_constraint_def fle_iff flt_iff feq_iff split: if_splits)
qed

text \<open>The loop on plain constraints, at the leaf level and above it.\<close>

lemma constraint_loop_leaf:
  assumes "list_all (plain_constraint t) cs" "iLevel p = 1" "w \<noteq> NOT_WITHIN"
  shows "fst (constraint_loop cs (eCoordType t = RTREE_COORD_INT32) d p score w) = SQLITE_OK \<and>
    snd (snd (snd (constraint_loop cs (eCoordType t = RTREE_COORD_INT32) d p score w))) =
      (if list_all (\<lambda>c. constraint_holds t c (cell_of_bytes (nDim t) d)) cs then w else NOT_WITHIN)"
  using assms(1)
proof (induction cs)
  case (Cons c cs)
  have "cop c < RTREE_MATCH" using Cons.prems by (simp add: plain_constraint_def)
  with Cons assms(2,3) show ?case by (simp add: rtreeLeafConstraint_eq case_prod_beta Let_def)
qed simp

lemma constraint_loop_nonleaf:
  assumes "wf_rtree t" "num_cell t (cell_of_bytes (nDim t) d)" "num_cell t c" "ordered_cell t c"
    "cellContains t (cell_of_bytes (nDim t) d) c" "iLevel p \<noteq> 1" "w \<noteq> NOT_WITHIN"
    and "list_all (plain_constraint t) cs" "list_all (\<lambda>p. constraint_holds t p c) cs"
  shows "constraint_loop cs (eCoordType t = RTREE_COORD_INT32) d p score w = (SQLITE_OK, cs, score, w)"
  using assms(8,9)
proof (induction cs)
  case (Cons k cs)
  have "cop k < RTREE_MATCH" using Cons.prems by (simp add: plain_constraint_def)
  moreover have "rtreeNonleafConstraint k (eCoordType t = RTREE_COORD_INT32) d w = w"
    using Cons.prems assms(1-5) by (intro nonleaf_sound) auto
  ultimately show ?case using Cons assms(6,7) by simp
qed simp

section \<open>Properties\<close>

text \<open>The byte-swapping macro of little-endian processors decodes the same number as the
  portable reader of the node format followed by \<open>DCOORD\<close>.\<close>

theorem decode_coord_equivalence:
  "RTREE_DECODE_COORD (eCoordType t = RTREE_COORD_INT32) a = DCOORD t (readCoord a)"
  by (rule RTREE_DECODE_COORD_eq)

text \<open>C2: The search never loses a row. If a stored row satisfies every comparison of the query,
  the loop over the constraints accepts the row's cell in its leaf, and accepts every box that
  contains the row at the levels above, so the descent is not cut off; conversely a cell accepted
  at the leaf level satisfies every comparison.\<close>

theorem search_prunes_no_match:
  assumes "wf_rtree t" "list_all (plain_constraint t) cs"
    and "num_cell t row" "ordered_cell t row" "row = cell_of_bytes (nDim t) pLeaf"
    and "num_cell t (cell_of_bytes (nDim t) pBox)" "cellContains t (cell_of_bytes (nDim t) pBox) row"
    and "iLevel leaf = 1" "iLevel inner \<noteq> 1"
  shows "(snd (snd (snd (constraint_loop cs (eCoordType t = RTREE_COORD_INT32) pLeaf leaf score FULLY_WITHIN)))
            = FULLY_WITHIN \<longleftrightarrow> list_all (\<lambda>p. constraint_holds t p row) cs) \<and>
    (list_all (\<lambda>p. constraint_holds t p row) cs \<longrightarrow>
       constraint_loop cs (eCoordType t = RTREE_COORD_INT32) pBox inner score FULLY_WITHIN
         = (SQLITE_OK, cs, score, FULLY_WITHIN))"
  using constraint_loop_leaf [OF assms(2,8), of FULLY_WITHIN pLeaf score]
    constraint_loop_nonleaf [OF assms(1,6,3,4,7,9) _ assms(2), of FULLY_WITHIN score] assms(5)
  by auto

definition sample_constraint :: "int \<Rightarrow> RtreeConstraint" where
  "sample_constraint k = \<lparr>iCoord = 0, cop = k, rValue = fp_of_int 5,
     xGeom = (\<lambda>i n xs r. (0, r, i)), xQueryFunc = (\<lambda>i. (0, i)),
     pInfo = \<lparr>qi_aParam = [], qi_pUser = [], qi_aCoord = [], qi_anQueue = [], qi_nCoord = 2, qi_iLevel = 0,
       qi_mxLevel = 0, qi_iRowid = 0, qi_rParentScore = fp_zero, qi_eParentWithin = 0, qi_eWithin = 0,
       qi_rScore = fp_zero\<rparr>\<rparr>"

definition sample_point :: "u8 \<Rightarrow> RtreeSearchPoint" where
  "sample_point l = \<lparr>rScore = fp_zero, sp_id = 1, iLevel = l, eWithin = PARTLY_WITHIN, iCell = 0\<rparr>"

definition sample_cell_bytes :: "u8 \<Rightarrow> u8 \<Rightarrow> u8 list" where
  "sample_cell_bytes a b = [0, 0, 0, 0, 0, 0, 0, 1, 0, 0, 0, a, 0, 0, 0, b]"

lemma sample_cell_coords:
  "aCoord (cell_of_bytes (Suc 0) (sample_cell_bytes a b)) = [ucast a, ucast b]"
  by (simp add: cell_of_bytes_def sample_cell_bytes_def readCoord_def numeral_2_eq_2)

theorem search_prunes_no_match_witness:
  "(let t = sample_rtree RTREE_COORD_INT32; cs = map sample_constraint [RTREE_EQ, RTREE_GE]
    in constraint_loop cs True (sample_cell_bytes 2 9) (sample_point 2) fp_zero FULLY_WITHIN
         = (SQLITE_OK, cs, fp_zero, FULLY_WITHIN))"
proof -
  let ?t = "sample_rtree RTREE_COORD_INT32" and ?cs = "map sample_constraint [RTREE_EQ, RTREE_GE]"
  let ?c = "\<lambda>a b. cell_of_bytes (nDim ?t) (sample_cell_bytes a b)"
  have f: "nDim ?t = 1" "eCoordType ?t = RTREE_COORD_INT32" by (simp_all add: sample_rtree_def)
  have n: "num_cell ?t (?c a b)" for a b
    by (simp add: num_cell_def wf_cell_def f sample_cell_coords coord_num_def)
  have o5: "ordered_cell ?t (?c 5 6)"
    by (simp add: ordered_cell_def f sample_cell_coords DCOORD_def)
  have i: "cellContains ?t (?c 2 9) (?c 5 6)"
    by (simp add: cellContains_def f sample_cell_coords coord_less_def)
  have p: "list_all (plain_constraint ?t) ?cs" by (simp add: plain_constraint_def sample_constraint_def f)
  have h: "list_all (\<lambda>p. constraint_holds ?t p (?c 5 6)) ?cs"
    by (simp add: constraint_holds_def sample_constraint_def f sample_cell_coords DCOORD_def feq_iff)
  show ?thesis
    using search_prunes_no_match [OF wf_sample_rtree p n o5 refl n i, of "sample_point 1" "sample_point 2" fp_zero] h f
    by (simp add: sample_point_def Let_def)
qed

text \<open>An equality constraint never prunes: on a box whose lower bound does not exceed its
  upper bound, \<open>rtreeNonleafConstraint\<close> accepts every value for \<open>RTREE_EQ\<close>, also a value
  outside the box, because the test of the upper bound is only reached when that of the lower
  bound fails.\<close>

theorem eq_constraint_never_prunes:
  assumes "wf_rtree t" "plain_constraint t p" "cop p = RTREE_EQ" "rValue p \<noteq> NaN"
    and "ordered_cell t (cell_of_bytes (nDim t) d)"
  shows "rtreeNonleafConstraint p (eCoordType t = RTREE_COORD_INT32) d w = w"
proof -
  have "iCoord p div 2 < nDim t" using assms(2) by (auto simp: plain_constraint_def)
  then have "fle (DCOORD t (aCoord (cell_of_bytes (nDim t) d) ! (2 * (iCoord p div 2))))
      (DCOORD t (aCoord (cell_of_bytes (nDim t) d) ! (2 * (iCoord p div 2) + 1)))"
    using assms(5) unfolding ordered_cell_def list_all_iff by simp
  then show ?thesis
    unfolding rtreeNonleafConstraint_eq [OF assms(1,2)] using assms(3,4)
    by (auto simp: Let_def fle_iff)
qed

theorem eq_constraint_never_prunes_witness:
  "rtreeNonleafConstraint (sample_constraint RTREE_EQ) True (sample_cell_bytes 7 9) FULLY_WITHIN = FULLY_WITHIN"
proof -
  let ?t = "sample_rtree RTREE_COORD_INT32"
  have f: "nDim ?t = 1" "eCoordType ?t = RTREE_COORD_INT32" by (simp_all add: sample_rtree_def)
  have "plain_constraint ?t (sample_constraint RTREE_EQ)"
    by (simp add: plain_constraint_def sample_constraint_def f)
  moreover have "ordered_cell ?t (cell_of_bytes (nDim ?t) (sample_cell_bytes 7 9))"
    by (simp add: ordered_cell_def f sample_cell_coords DCOORD_def)
  ultimately show ?thesis
    using eq_constraint_never_prunes [OF wf_sample_rtree, of RTREE_COORD_INT32 "sample_constraint RTREE_EQ"] f
    by (simp add: sample_constraint_def)
qed

end
