(* ===== verification/Rtree_Store.thy ===== *)
theory Rtree_Store
  imports Rtree_Geom
begin

text \<open>
  The node cache of \<^verbatim>\<open>rtree.c\<close> and its traffic with the shadow tables: reference
  counts, the hash table of in-memory nodes, loading a node on demand, and writing it back
  when its last reference goes. Pointers are addresses into \<open>heap\<close>; following a hash chain
  or a chain of parents takes fuel, and \<open>nextAddr\<close>, the number of addresses ever handed
  out, is enough for every chain without a repetition. A prepared statement takes its result code from
  \<open>sqlRc\<close>; an error leaves the tables unchanged. The invariant of the hash table says that
  every bucket is a finite chain of the nodes that hash to it, and lookup is then a map from
  node numbers to addresses.
\<close>

section \<open>Memory and statements\<close>

definition node_at :: "Rtree \<Rightarrow> nat \<Rightarrow> RtreeNode" where
  "node_at t a = the (heap t a)"

definition upd_node :: "(RtreeNode \<Rightarrow> RtreeNode) \<Rightarrow> nat \<Rightarrow> Rtree \<Rightarrow> Rtree" where
  "upd_node f a t = t\<lparr>heap := (heap t)(a \<mapsto> f (node_at t a))\<rparr>"

definition alloc_node :: "RtreeNode \<Rightarrow> Rtree \<Rightarrow> nat \<times> Rtree" where
  "alloc_node n t = (nextAddr t, t\<lparr>heap := (heap t)(nextAddr t \<mapsto> n), nextAddr := nextAddr t + 1\<rparr>)"

definition sqlite3_free :: "nptr \<Rightarrow> Rtree \<Rightarrow> Rtree" where
  "sqlite3_free p t = (case p of None \<Rightarrow> t | Some a \<Rightarrow> t\<lparr>heap := (heap t)(a := None)\<rparr>)"

text \<open>The result code of the next statement that is stepped and reset.\<close>

definition step_stmt :: "Rtree \<Rightarrow> int \<times> Rtree" where
  "step_stmt t = (case sqlRc t of [] \<Rightarrow> (SQLITE_OK, t) | r # rs \<Rightarrow> (r, t\<lparr>sqlRc := rs\<rparr>))"

text \<open>
  The key an INSERT of a NULL key gets: 1 in an empty table, otherwise one more than the
  greatest key in use (which is taken to be below the greatest 64-bit integer).
\<close>

definition auto_key :: "(i64 \<times> 'a) list \<Rightarrow> i64" where
  "auto_key tab =
     (case tab of [] \<Rightarrow> 1 | r # rs \<Rightarrow> of_int (fold (\<lambda>(k, _) m. max m (sint k)) rs (sint (fst r)) + 1))"

section \<open>References\<close>

definition nodeReference :: "nptr \<Rightarrow> Rtree \<Rightarrow> Rtree" where
  "nodeReference p t =
     (case p of None \<Rightarrow> t | Some a \<Rightarrow> upd_node (\<lambda>n. n\<lparr>nRef := nRef n + 1\<rparr>) a t)"

section \<open>The hash table\<close>

definition nodeHash :: "i64 \<Rightarrow> int" where
  "nodeHash i = sint i smod int HASHSIZE"

fun hash_chain :: "nat \<Rightarrow> Rtree \<Rightarrow> nptr \<Rightarrow> i64 \<Rightarrow> nptr" where
  "hash_chain 0 t p i = None"
| "hash_chain (Suc k) t None i = None"
| "hash_chain (Suc k) t (Some a) i =
     (if iNode (node_at t a) \<noteq> i then hash_chain k t (pNext (node_at t a)) i else Some a)"

definition nodeHashLookup :: "Rtree \<Rightarrow> i64 \<Rightarrow> nptr" where
  "nodeHashLookup t i = hash_chain (Suc (nextAddr t)) t (aHash t ! nat (nodeHash i)) i"

definition nodeHashInsert :: "nat \<Rightarrow> Rtree \<Rightarrow> Rtree" where
  "nodeHashInsert a t =
     (let iHash = nat (nodeHash (iNode (node_at t a)));
          t = upd_node (\<lambda>n. n\<lparr>pNext := aHash t ! iHash\<rparr>) a t
      in t\<lparr>aHash := (aHash t)[iHash := Some a]\<rparr>)"

text \<open>
  The walk of \<open>nodeHashDelete\<close> behind the bucket head: \<open>pp\<close> is the \<open>pNext\<close> field of the node
  at \<open>prev\<close>.
\<close>

fun unlink_chain :: "nat \<Rightarrow> nat \<Rightarrow> nat \<Rightarrow> Rtree \<Rightarrow> Rtree" where
  "unlink_chain 0 prev a t = t"
| "unlink_chain (Suc k) prev a t =
     (case pNext (node_at t prev) of
        None \<Rightarrow> t
      | Some b \<Rightarrow>
          if b \<noteq> a then unlink_chain k b a t
          else upd_node (\<lambda>n. n\<lparr>pNext := pNext (node_at t a)\<rparr>) prev t)"

definition nodeHashDelete :: "nat \<Rightarrow> Rtree \<Rightarrow> Rtree" where
  "nodeHashDelete a t =
     (let n = node_at t a
      in if iNode n \<noteq> 0 then
           let i = nat (nodeHash (iNode n));
               t = (case aHash t ! i of
                      None \<Rightarrow> t
                    | Some b \<Rightarrow>
                        if b \<noteq> a then unlink_chain (nextAddr t) b a t
                        else t\<lparr>aHash := (aHash t)[i := pNext n]\<rparr>)
           in upd_node (\<lambda>n. n\<lparr>pNext := None\<rparr>) a t
         else t)"

section \<open>Loading and storing nodes\<close>

definition nodeNew :: "nptr \<Rightarrow> Rtree \<Rightarrow> nptr \<times> Rtree" where
  "nodeNew par t =
     (let (ok, t) = sqlite3_malloc t
      in if \<not> ok then (None, t)
         else let (a, t) = alloc_node \<lparr>pParent = par, iNode = 0, nRef = 1, isDirty = True,
                             zData = replicate (nat (iNodeSize t)) 0, pNext = None\<rparr> t
              in (Some a, nodeReference par t))"

text \<open>The part of \<open>nodeAcquire\<close> that reads the row: \<open>rc\<close>, and the node if one was made.\<close>

definition read_node :: "i64 \<Rightarrow> nptr \<Rightarrow> Rtree \<Rightarrow> int \<times> nptr \<times> Rtree" where
  "read_node i par t =
     (let (rc, t) = step_stmt t
      in case map_of (nodeTab t) i of
           Some zBlob \<Rightarrow>
             if rc = SQLITE_OK \<and> iNodeSize t = int (length zBlob) then
               let (ok, t) = sqlite3_malloc t
               in if \<not> ok then (SQLITE_NOMEM, None, t)
                  else let (a, t) = alloc_node \<lparr>pParent = par, iNode = i, nRef = 1, isDirty = False,
                                      zData = zBlob, pNext = None\<rparr> t
                       in (SQLITE_OK, Some a, nodeReference par t)
             else (rc, None, t)
         | None \<Rightarrow> (rc, None, t))"

definition nodeAcquire :: "i64 \<Rightarrow> nptr \<Rightarrow> Rtree \<Rightarrow> int \<times> nptr \<times> Rtree" where
  "nodeAcquire i par t =
     (case nodeHashLookup t i of
        Some a \<Rightarrow>
          let t = (if par \<noteq> None \<and> pParent (node_at t a) = None
                   then upd_node (\<lambda>n. n\<lparr>pParent := par\<rparr>) a (nodeReference par t) else t)
          in (SQLITE_OK, Some a, upd_node (\<lambda>n. n\<lparr>nRef := nRef n + 1\<rparr>) a t)
      | None \<Rightarrow>
          let (rc, pNode, t) = read_node i par t;
              (rc, t) = (case pNode of
                  Some a \<Rightarrow>
                    if i = 1 then
                      let t = t\<lparr>iDepth := readInt16 (zData (node_at t a))\<rparr>
                      in (if iDepth t > RTREE_MAX_DEPTH then SQLITE_CORRUPT_VTAB else rc, t)
                    else (rc, t)
                | None \<Rightarrow> (rc, t));
              rc = (case pNode of
                  Some a \<Rightarrow>
                    if rc = SQLITE_OK \<and> NCELL (node_at t a) > nMaxCell t then SQLITE_CORRUPT_VTAB else rc
                | None \<Rightarrow> rc)
          in if rc = SQLITE_OK then
               (case pNode of
                  Some a \<Rightarrow> (SQLITE_OK, Some a, nodeHashInsert a t)
                | None \<Rightarrow> (SQLITE_CORRUPT_VTAB, None, t))
             else (rc, None, sqlite3_free pNode t))"

definition nodeWrite :: "nat \<Rightarrow> Rtree \<Rightarrow> int \<times> Rtree" where
  "nodeWrite a t =
     (let n = node_at t a
      in if isDirty n then
           let (rc, t) = step_stmt t;
               key = (if iNode n \<noteq> 0 then iNode n else auto_key (nodeTab t));
               t = (if rc = SQLITE_OK
                    then t\<lparr>nodeTab := AList.update key (zData n) (nodeTab t), lastInsert := key\<rparr> else t);
               t = upd_node (\<lambda>n. n\<lparr>isDirty := False\<rparr>) a t
           in if iNode n = 0 \<and> rc = SQLITE_OK
              then (rc, nodeHashInsert a (upd_node (\<lambda>n. n\<lparr>iNode := lastInsert t\<rparr>) a t))
              else (rc, t)
         else (SQLITE_OK, t))"

text \<open>\<open>nodeRelease\<close> recurses along the parents; the fuel bounds their number.\<close>

fun nodeRelease_rec :: "nat \<Rightarrow> nptr \<Rightarrow> Rtree \<Rightarrow> int \<times> Rtree" where
  "nodeRelease_rec k None t = (SQLITE_OK, t)"
| "nodeRelease_rec 0 (Some a) t = (SQLITE_OK, t)"
| "nodeRelease_rec (Suc k) (Some a) t =
     (let t = upd_node (\<lambda>n. n\<lparr>nRef := nRef n - 1\<rparr>) a t
      in if nRef (node_at t a) = 0 then
           let t = (if iNode (node_at t a) = 1 then t\<lparr>iDepth := -1\<rparr> else t);
               (rc, t) = (if pParent (node_at t a) \<noteq> None
                          then nodeRelease_rec k (pParent (node_at t a)) t else (SQLITE_OK, t));
               (rc, t) = (if rc = SQLITE_OK then nodeWrite a t else (rc, t))
           in (rc, sqlite3_free (Some a) (nodeHashDelete a t))
         else (SQLITE_OK, t))"

definition nodeRelease :: "nptr \<Rightarrow> Rtree \<Rightarrow> int \<times> Rtree" where
  "nodeRelease p t = nodeRelease_rec (nextAddr t) p t"

section \<open>The mapping tables\<close>

definition rowidWrite :: "i64 \<Rightarrow> i64 \<Rightarrow> Rtree \<Rightarrow> int \<times> Rtree" where
  "rowidWrite rid nod t =
     (let (rc, t) = step_stmt t
      in (rc, if rc = SQLITE_OK then t\<lparr>rowidTab := AList.update rid nod (rowidTab t), lastInsert := rid\<rparr> else t))"

definition parentWrite :: "i64 \<Rightarrow> i64 \<Rightarrow> Rtree \<Rightarrow> int \<times> Rtree" where
  "parentWrite nod par t =
     (let (rc, t) = step_stmt t
      in (rc, if rc = SQLITE_OK then t\<lparr>parentTab := AList.update nod par (parentTab t), lastInsert := nod\<rparr> else t))"

definition findLeafNode :: "i64 \<Rightarrow> Rtree \<Rightarrow> int \<times> nptr \<times> i64 option \<times> Rtree" where
  "findLeafNode rid t =
     (let (rc, t) = step_stmt t
      in case map_of (rowidTab t) rid of
           Some nod \<Rightarrow>
             if rc = SQLITE_OK then let (rc, leaf, t) = nodeAcquire nod None t in (rc, leaf, Some nod, t)
             else (rc, None, None, t)
         | None \<Rightarrow> (rc, None, None, t))"

definition nodeParentIndex :: "nat \<Rightarrow> Rtree \<Rightarrow> int + int" where
  "nodeParentIndex a t =
     (case pParent (node_at t a) of
        Some b \<Rightarrow> map_sum id int (nodeRowidIndex t (node_at t b) (iNode (node_at t a)))
      | None \<Rightarrow> Inr (-1))"

section \<open>The invariant of the hash table\<close>

text \<open>
  What the hash table depends on: the number and the successor of every node. A bucket is a
  chain when following the successors from its head visits the listed addresses and ends.
\<close>

definition links :: "Rtree \<Rightarrow> nat \<rightharpoonup> i64 \<times> nptr" where
  "links t a = map_option (\<lambda>n. (iNode n, pNext n)) (heap t a)"

fun chain :: "(nat \<rightharpoonup> i64 \<times> nptr) \<Rightarrow> nptr \<Rightarrow> nat list \<Rightarrow> bool" where
  "chain l p [] \<longleftrightarrow> p = None"
| "chain l p (a # as) \<longleftrightarrow> p = Some a \<and> (case l a of None \<Rightarrow> False | Some (i, q) \<Rightarrow> chain l q as)"

definition key :: "(nat \<rightharpoonup> i64 \<times> nptr) \<Rightarrow> nat \<Rightarrow> i64" where
  "key l a = fst (the (l a))"

definition wf_bucket :: "(nat \<rightharpoonup> i64 \<times> nptr) \<Rightarrow> nat \<Rightarrow> nptr \<Rightarrow> nat list \<Rightarrow> bool" where
  "wf_bucket l i p as \<longleftrightarrow> chain l p as \<and> distinct (map (key l) as) \<and>
     list_all (\<lambda>a. 0 < sint (key l a) \<and> nodeHash (key l a) = int i) as"

definition hash_inv :: "Rtree \<Rightarrow> bool" where
  "hash_inv t \<longleftrightarrow> length (aHash t) = HASHSIZE \<and> (\<forall>a. heap t a \<noteq> None \<longrightarrow> a < nextAddr t) \<and>
     (\<forall>i < HASHSIZE. \<exists>as. wf_bucket (links t) i (aHash t ! i) as)"

lemma chain_Cons [simp]: "chain l p (a # as) \<longleftrightarrow> p = Some a \<and> (\<exists>i q. l a = Some (i, q) \<and> chain l q as)"
  by (auto split: option.splits)

declare chain.simps(2) [simp del]

lemma chain_unique: "chain l p as \<Longrightarrow> chain l p bs \<Longrightarrow> as = bs"
proof (induction as arbitrary: p bs)
  case Nil
  then show ?case by (cases bs) auto
next
  case (Cons a as)
  then show ?case by (cases bs) auto
qed

lemma chain_suffix: "chain l p (us @ a # vs) \<Longrightarrow> chain l (Some a) (a # vs)"
  by (induction us arbitrary: p) auto

lemma chain_distinct: "chain l p as \<Longrightarrow> distinct as"
proof (induction as arbitrary: p)
  case (Cons a as)
  have "a \<notin> set as"
  proof
    assume "a \<in> set as"
    then obtain us vs where "as = us @ a # vs" by (auto simp: in_set_conv_decomp)
    with Cons.prems have "chain l (Some a) (a # as)" "chain l (Some a) (a # vs)"
      using chain_suffix [of l p "a # us" a vs] by auto
    then have "a # as = a # vs" by (rule chain_unique)
    with \<open>as = us @ a # vs\<close> show False by simp
  qed
  with Cons show ?case by auto
qed simp

lemma chain_dom: "chain l p as \<Longrightarrow> a \<in> set as \<Longrightarrow> l a \<noteq> None"
  by (induction as arbitrary: p) auto

lemma chain_cong: "(\<And>a. a \<in> set as \<Longrightarrow> l a = l' a) \<Longrightarrow> chain l p as = chain l' p as"
  by (induction as arbitrary: p) auto

lemma chain_upd [simp]: "a \<notin> set as \<Longrightarrow> chain (l(a := x)) p as = chain l p as"
  by (rule chain_cong) auto

lemma key_upd: "key (l(a \<mapsto> (i, q))) b = (if b = a then i else key l b)"
  by (simp add: key_def)

lemma hash_chain_find:
  "chain (links t) p as \<Longrightarrow> length as < k \<Longrightarrow> hash_chain k t p i = List.find (\<lambda>a. key (links t) a = i) as"
proof (induction as arbitrary: p k)
  case Nil
  then show ?case by (cases k) auto
next
  case (Cons a as)
  then obtain k' where k: "k = Suc k'" by (cases k) auto
  from Cons.prems(1) obtain n where n: "heap t a = Some n" "p = Some a" "chain (links t) (pNext n) as"
    by (cases "heap t a") (auto simp: links_def [of t a])
  then show ?case using Cons k by (auto simp: node_at_def key_def links_def)
qed

lemma bucket_length:
  assumes "hash_inv t" "chain (links t) p as"
  shows "length as \<le> nextAddr t"
proof -
  have "set as \<subseteq> {..<nextAddr t}"
    using assms chain_dom [OF assms(2)] by (auto simp: hash_inv_def links_def)
  then have "card (set as) \<le> nextAddr t" by (metis card_lessThan card_mono finite_lessThan)
  then show ?thesis by (simp add: distinct_card [OF chain_distinct [OF assms(2)]])
qed

lemma nodeHash_nonneg: "0 \<le> sint i \<Longrightarrow> nodeHash i = sint i mod 97"
  by (cases "sint i = 0")
    (auto simp: nodeHash_def signed_modulo_int_def sdiv_nonneg minus_div_mult_eq_mod)

lemma nodeHash_range: "0 < sint i \<Longrightarrow> 0 \<le> nodeHash i \<and> nodeHash i < int HASHSIZE"
  by (simp add: nodeHash_nonneg)

text \<open>Under the invariant a lookup finds the node of the bucket that has the number, if any.\<close>

lemma nodeHashLookup_bucket:
  assumes "hash_inv t" "wf_bucket (links t) (nat (nodeHash j)) (aHash t ! nat (nodeHash j)) as"
  shows "nodeHashLookup t j = List.find (\<lambda>a. key (links t) a = j) as"
proof -
  have c: "chain (links t) (aHash t ! nat (nodeHash j)) as" using assms(2) by (simp add: wf_bucket_def)
  then show ?thesis
    unfolding nodeHashLookup_def using bucket_length [OF assms(1) c] by (intro hash_chain_find) auto
qed

lemma find_Some_distinct:
  "distinct (map f xs) \<Longrightarrow> List.find (\<lambda>x. f x = y) xs = Some x \<longleftrightarrow> x \<in> set xs \<and> f x = y"
  by (induction xs) (auto simp: inj_on_def)

text \<open>The addresses in the hash table.\<close>

definition hashed :: "Rtree \<Rightarrow> nat \<Rightarrow> bool" where
  "hashed t a \<longleftrightarrow> (\<exists>i < HASHSIZE. \<exists>as. wf_bucket (links t) i (aHash t ! i) as \<and> a \<in> set as)"

lemma nodeHashLookup_Some:
  assumes "hash_inv t" "0 < sint j"
  shows "nodeHashLookup t j = Some a \<longleftrightarrow> hashed t a \<and> key (links t) a = j"
proof -
  let ?i = "nat (nodeHash j)"
  have i: "?i < HASHSIZE" using nodeHash_range [OF assms(2)] by linarith
  then obtain as where as: "wf_bucket (links t) ?i (aHash t ! ?i) as"
    using assms(1) by (auto simp: hash_inv_def)
  have "nodeHashLookup t j = Some a \<longleftrightarrow> a \<in> set as \<and> key (links t) a = j"
    unfolding nodeHashLookup_bucket [OF assms(1) as]
    using as by (intro find_Some_distinct) (simp add: wf_bucket_def)
  moreover have "a \<in> set bs \<and> key (links t) a = j \<Longrightarrow> a \<in> set as"
    if "wf_bucket (links t) k (aHash t ! k) bs" for k bs
  proof -
    assume a: "a \<in> set bs \<and> key (links t) a = j"
    with that have "nodeHash j = int k" by (auto simp: wf_bucket_def list_all_iff)
    then have "k = ?i" by simp
    with that as have "bs = as" by (auto simp: wf_bucket_def intro: chain_unique)
    with a show "a \<in> set as" by simp
  qed
  ultimately show ?thesis using as i by (auto simp: hashed_def)
qed

lemma links_upd_node:
  "heap t a \<noteq> None \<Longrightarrow> links (upd_node f a t) = (links t)(a \<mapsto> (iNode (f (node_at t a)), pNext (f (node_at t a))))"
  by (auto simp: links_def upd_node_def)

lemma upd_node_fields [simp]:
  "aHash (upd_node f a t) = aHash t" "nextAddr (upd_node f a t) = nextAddr t"
  by (simp_all add: upd_node_def)

lemma links_aHash [simp]: "links (t\<lparr>aHash := h\<rparr>) = links t"
  by (simp add: links_def fun_eq_iff)

lemma hash_invI:
  assumes "hash_inv t" "length (aHash u) = HASHSIZE" "nextAddr u = nextAddr t"
    and "\<And>a. links u a \<noteq> None \<Longrightarrow> links t a \<noteq> None"
    and "\<And>i. i < HASHSIZE \<Longrightarrow> \<exists>as. wf_bucket (links u) i (aHash u ! i) as"
  shows "hash_inv u"
proof -
  have "a < nextAddr u" if "heap u a \<noteq> None" for a
    using that assms(1,3) assms(4) [of a] by (auto simp: hash_inv_def links_def)
  then show ?thesis using assms(2,5) by (auto simp: hash_inv_def)
qed

lemma hashed_key:
  assumes "hashed t a"
  shows "heap t a \<noteq> None" "0 < sint (key (links t) a)"
proof -
  from assms obtain i as where "wf_bucket (links t) i (aHash t ! i) as" "a \<in> set as"
    by (auto simp: hashed_def)
  moreover from this have "links t a \<noteq> None" using chain_dom by (metis wf_bucket_def)
  ultimately show "heap t a \<noteq> None" "0 < sint (key (links t) a)"
    by (auto simp: wf_bucket_def list_all_iff links_def)
qed

subsection \<open>Insertion\<close>

lemma nodeHashInsert_fields:
  assumes "heap t a = Some n"
  shows "links (nodeHashInsert a t) = (links t)(a \<mapsto> (iNode n, aHash t ! nat (nodeHash (iNode n))))"
    "aHash (nodeHashInsert a t) = (aHash t)[nat (nodeHash (iNode n)) := Some a]"
    "nextAddr (nodeHashInsert a t) = nextAddr t"
  using assms by (simp_all add: nodeHashInsert_def Let_def links_upd_node node_at_def)

lemma not_hashed:
  "hash_inv t \<Longrightarrow> 0 < sint i \<Longrightarrow> nodeHashLookup t i = None \<Longrightarrow> key (links t) a = i \<Longrightarrow> \<not> hashed t a"
  using nodeHashLookup_Some by fastforce

lemma nodeHashInsert_bucket:
  assumes inv: "hash_inv t" and n: "heap t a = Some n" "0 < sint (iNode n)"
    and new: "nodeHashLookup t (iNode n) = None" and b: "wf_bucket (links t) k (aHash t ! k) as" "k < HASHSIZE"
  shows "wf_bucket (links (nodeHashInsert a t)) k (aHash (nodeHashInsert a t) ! k)
    (if nodeHash (iNode n) = int k then a # as else as)" and "a \<notin> set as"
proof -
  define l where "l = links (nodeHashInsert a t)"
  have l: "l = (links t)(a \<mapsto> (iNode n, aHash t ! nat (nodeHash (iNode n))))"
    by (simp add: l_def nodeHashInsert_fields [OF n(1)])
  have h: "hashed t c" if "c \<in> set as" for c using that b by (auto simp: hashed_def)
  have "key (links t) a = iNode n" using n by (simp add: key_def links_def)
  then show na: "a \<notin> set as" using h not_hashed [OF inv n(2) new] by blast
  have keys: "map (key l) as = map (key (links t)) as" using na by (simp add: l key_upd)
  have fresh: "iNode n \<notin> key (links t) ` set as"
    using h not_hashed [OF inv n(2) new] by (metis imageE)
  have r: "0 \<le> nodeHash (iNode n)" "length (aHash t) = HASHSIZE"
    using nodeHash_range [OF n(2)] inv by (auto simp: hash_inv_def)
  have all: "list_all (\<lambda>b. 0 < sint (key l b) \<and> nodeHash (key l b) = int k) as"
    using b na by (auto simp: wf_bucket_def list_all_iff l key_upd)
  have ch: "chain l (aHash t ! k) as" using b na by (simp add: wf_bucket_def l)
  have "distinct (map (key l) as)" using b by (simp only: keys wf_bucket_def)
  moreover have "key l a = iNode n" "key l a \<notin> key l ` set as"
    using fresh na by (auto simp: l key_upd)
  moreover have "l a = Some (iNode n, aHash t ! nat (nodeHash (iNode n)))" by (simp add: l)
  ultimately show "wf_bucket (links (nodeHashInsert a t)) k (aHash (nodeHashInsert a t) ! k)
    (if nodeHash (iNode n) = int k then a # as else as)"
    unfolding l_def [symmetric] nodeHashInsert_fields(2) [OF n(1)]
    using all ch n(2) r b(2) by (auto simp: wf_bucket_def nth_list_update)
qed

lemma nodeHashInsert_inv:
  assumes "hash_inv t" "heap t a = Some n" "0 < sint (iNode n)" "nodeHashLookup t (iNode n) = None"
  shows "hash_inv (nodeHashInsert a t)"
proof (rule hash_invI [OF assms(1)])
  show "\<exists>as. wf_bucket (links (nodeHashInsert a t)) i (aHash (nodeHashInsert a t) ! i) as" if "i < HASHSIZE" for i
    using nodeHashInsert_bucket [OF assms _ that] assms(1) that unfolding hash_inv_def by metis
qed (use assms in \<open>auto simp: nodeHashInsert_fields hash_inv_def links_def split: if_splits\<close>)

lemma nodeHashLookup_insert:
  assumes "hash_inv t" "heap t a = Some n" "0 < sint (iNode n)" "nodeHashLookup t (iNode n) = None" "0 < sint j"
  shows "nodeHashLookup (nodeHashInsert a t) j = (if j = iNode n then Some a else nodeHashLookup t j)"
proof -
  let ?k = "nat (nodeHash j)"
  have k: "?k < HASHSIZE" "int ?k = nodeHash j" using nodeHash_range [OF assms(5)] by auto
  then obtain as where b: "wf_bucket (links t) ?k (aHash t ! ?k) as"
    using assms(1) by (auto simp: hash_inv_def)
  have na: "a \<notin> set as" by (rule nodeHashInsert_bucket(2) [OF assms(1-4) b k(1)])
  have f: "List.find (\<lambda>c. key (links (nodeHashInsert a t)) c = j) as = List.find (\<lambda>c. key (links t) c = j) as"
    using na by (intro find_cong refl) (auto simp: nodeHashInsert_fields [OF assms(2)] key_def)
  have a: "key (links (nodeHashInsert a t)) a = iNode n"
    by (simp add: nodeHashInsert_fields [OF assms(2)] key_def)
  note new = nodeHashLookup_bucket [OF nodeHashInsert_inv [OF assms(1-4)]
      nodeHashInsert_bucket(1) [OF assms(1-4) b k(1)]]
  show ?thesis
    unfolding new nodeHashLookup_bucket [OF assms(1) b] using k(2) a f by auto
qed

subsection \<open>Deletion\<close>

lemma chain_remove:
  "chain l p (us @ a # vs) \<Longrightarrow> l a = Some (i, q) \<Longrightarrow> us \<noteq> [] \<Longrightarrow>
   chain (l(last us \<mapsto> (key l (last us), q))) p (us @ vs)"
proof (induction us arbitrary: p)
  case (Cons b us)
  have d: "distinct (b # us @ a # vs)" using chain_distinct [OF Cons.prems(1)] by simp
  show ?case
  proof (cases "us = []")
    case True
    then have "p = Some b" "chain l q vs" "b \<notin> set vs" "l b \<noteq> None" using Cons.prems d by auto
    moreover from this have "chain (l(b \<mapsto> (key l b, q))) q vs" by (subst chain_upd)
    ultimately show ?thesis by (simp only: True last.simps append.simps chain_Cons fun_upd_same) simp
  next
    case False
    with d have "b \<noteq> last us" by auto
    with Cons False show ?thesis by auto
  qed
qed simp

lemma unlink_chain_links:
  "chain (links t) (Some b) (b # us @ a # vs) \<Longrightarrow> length us < k \<Longrightarrow>
   unlink_chain k b a t = upd_node (\<lambda>n. n\<lparr>pNext := pNext (node_at t a)\<rparr>) (last (b # us)) t"
proof (induction us arbitrary: b k)
  case Nil
  then obtain k' n where "k = Suc k'" "heap t b = Some n" "pNext n = Some a"
    by (cases k) (auto simp: links_def)
  then show ?case by (simp add: node_at_def)
next
  case (Cons c us)
  then obtain k' n where k: "k = Suc k'" "heap t b = Some n" "pNext n = Some c"
    by (cases k) (auto simp: links_def)
  have "distinct (b # c # us @ a # vs)" using chain_distinct [OF Cons.prems(1)] by simp
  then have "c \<noteq> a" by auto
  moreover have "chain (links t) (Some c) (c # us @ a # vs)"
    using chain_suffix [of "links t" "Some b" "[b]" c "us @ a # vs"] Cons.prems(1) by simp
  ultimately show ?case using Cons.IH [of c k'] Cons.prems(2) k by (simp add: node_at_def)
qed

text \<open>The chain of the bucket after the deletion, and what else changes.\<close>

lemma nodeHashDelete_links:
  assumes inv: "hash_inv t" and b: "wf_bucket (links t) i (aHash t ! i) (us @ a # vs)" "i < HASHSIZE"
    and l: "links t a = Some (j, q)"
  shows "links (nodeHashDelete a t) =
      (if us = [] then links t else (links t)(last us \<mapsto> (key (links t) (last us), q)))(a \<mapsto> (j, None))"
    "aHash (nodeHashDelete a t) = (if us = [] then (aHash t)[i := q] else aHash t)"
    "nextAddr (nodeHashDelete a t) = nextAddr t"
proof -
  have c: "chain (links t) (aHash t ! i) (us @ a # vs)" using b by (simp add: wf_bucket_def)
  have d: "distinct (us @ a # vs)" by (rule chain_distinct [OF c])
  obtain n where n: "heap t a = Some n" "iNode n = j" "pNext n = q" using l by (auto simp: links_def)
  have kj: "key (links t) a = j" using l by (simp add: key_def)
  then have j: "nat (nodeHash j) = i" "j \<noteq> 0" using b by (auto simp: wf_bucket_def)
  have len: "length us < nextAddr t" using bucket_length [OF inv c] by simp
  have "links (nodeHashDelete a t) =
      (if us = [] then links t else (links t)(last us \<mapsto> (key (links t) (last us), q)))(a \<mapsto> (j, None)) \<and>
    aHash (nodeHashDelete a t) = (if us = [] then (aHash t)[i := q] else aHash t) \<and>
    nextAddr (nodeHashDelete a t) = nextAddr t"
  proof (cases us)
    case Nil
    then have "aHash t ! i = Some a" using c by simp
    with Nil n j show ?thesis
      by (simp add: nodeHashDelete_def Let_def node_at_def links_upd_node)
  next
    case (Cons e es)
    have h: "aHash t ! i = Some e" "e \<noteq> a" using c d Cons by auto
    have "chain (links t) (Some e) (e # es @ a # vs)" using c Cons by auto
    from unlink_chain_links [OF this, of "nextAddr t"] len Cons
    have u: "unlink_chain (nextAddr t) e a t = upd_node (\<lambda>n. n\<lparr>pNext := q\<rparr>) (last us) t"
      using n by (simp add: node_at_def)
    have la: "last us \<noteq> a" "last us \<in> set us" using d Cons by auto
    then have "links t (last us) \<noteq> None" using chain_dom [OF c] by auto
    then obtain m where m: "heap t (last us) = Some m" by (auto simp: links_def)
    define z where "z = last us"
    have "heap (upd_node (\<lambda>n. n\<lparr>pNext := q\<rparr>) z t) a = Some n" "us \<noteq> []" "key (links t) z = iNode m"
      using n la m Cons by (simp_all add: upd_node_def key_def links_def z_def)
    with h n j u [folded z_def] m [folded z_def] la(1) [folded z_def] show ?thesis
      unfolding z_def [symmetric] by (simp add: nodeHashDelete_def Let_def node_at_def links_upd_node)
  qed
  then show "links (nodeHashDelete a t) =
      (if us = [] then links t else (links t)(last us \<mapsto> (key (links t) (last us), q)))(a \<mapsto> (j, None))"
    "aHash (nodeHashDelete a t) = (if us = [] then (aHash t)[i := q] else aHash t)"
    "nextAddr (nodeHashDelete a t) = nextAddr t" by auto
qed

lemma nodeHashDelete_bucket:
  assumes inv: "hash_inv t" and a: "hashed t a" and b: "wf_bucket (links t) k (aHash t ! k) as" "k < HASHSIZE"
  shows "wf_bucket (links (nodeHashDelete a t)) k (aHash (nodeHashDelete a t) ! k) (filter (\<lambda>c. c \<noteq> a) as)"
    and "key (links (nodeHashDelete a t)) = key (links t)"
proof -
  from a obtain i us vs where i: "wf_bucket (links t) i (aHash t ! i) (us @ a # vs)" "i < HASHSIZE"
    by (auto simp: hashed_def in_set_conv_decomp)
  obtain j q where l: "links t a = Some (j, q)" using hashed_key(1) [OF a] by (auto simp: links_def)
  note D = nodeHashDelete_links [OF inv i l]
  have c: "chain (links t) (aHash t ! i) (us @ a # vs)" using i by (simp add: wf_bucket_def)
  have d: "distinct (us @ a # vs)" by (rule chain_distinct [OF c])
  show keys: "key (links (nodeHashDelete a t)) = key (links t)"
    using l unfolding D by (auto simp: fun_eq_iff key_def)
  have "chain (links (nodeHashDelete a t)) (aHash (nodeHashDelete a t) ! k) (filter (\<lambda>c. c \<noteq> a) as)"
  proof (cases "k = i")
    case True
    with i b have as: "as = us @ a # vs" by (auto simp: wf_bucket_def intro: chain_unique)
    have "filter (\<lambda>c. c \<noteq> a) us = us" "filter (\<lambda>c. c \<noteq> a) vs = vs" using d by (auto simp: filter_id_conv)
    with as have f: "filter (\<lambda>c. c \<noteq> a) as = us @ vs" by simp
    show ?thesis
    proof (cases "us = []")
      case True
      then show ?thesis using D c l d i(2) inv \<open>k = i\<close> unfolding f by (auto simp: hash_inv_def)
    next
      case False
      then show ?thesis using D chain_remove [OF c l False] d \<open>k = i\<close> unfolding f by simp
    qed
  next
    case False
    have "c \<notin> set as" if "c \<in> set (us @ a # vs)" for c
      using that i b False by (auto simp: wf_bucket_def list_all_iff)
    then have "a \<notin> set as" "us \<noteq> [] \<Longrightarrow> last us \<notin> set as" by auto
    moreover from this have "filter (\<lambda>c. c \<noteq> a) as = as" by (auto simp: filter_id_conv)
    ultimately show ?thesis using D b False by (auto simp: wf_bucket_def)
  qed
  moreover have "distinct (map (key (links t)) (filter P as))" for P
    using b by (simp add: wf_bucket_def distinct_map_filter)
  ultimately show "wf_bucket (links (nodeHashDelete a t)) k (aHash (nodeHashDelete a t) ! k) (filter (\<lambda>c. c \<noteq> a) as)"
    using b unfolding wf_bucket_def keys by (auto simp: list_all_iff)
qed

lemma nodeHashDelete_dom:
  assumes "hash_inv t" "hashed t a"
  shows "links (nodeHashDelete a t) b \<noteq> None \<Longrightarrow> links t b \<noteq> None"
    and "length (aHash (nodeHashDelete a t)) = length (aHash t)" "nextAddr (nodeHashDelete a t) = nextAddr t"
proof -
  from assms(2) obtain i us vs where i: "wf_bucket (links t) i (aHash t ! i) (us @ a # vs)" "i < HASHSIZE"
    by (auto simp: hashed_def in_set_conv_decomp)
  obtain j q where l: "links t a = Some (j, q)" using hashed_key(1) [OF assms(2)] by (auto simp: links_def)
  note D = nodeHashDelete_links [OF assms(1) i l]
  have "us \<noteq> [] \<Longrightarrow> links t (last us) \<noteq> None"
    using chain_dom [of "links t" "aHash t ! i" "us @ a # vs" "last us"] i by (simp add: wf_bucket_def)
  then show "links (nodeHashDelete a t) b \<noteq> None \<Longrightarrow> links t b \<noteq> None"
    using l unfolding D by (auto split: if_splits)
  show "length (aHash (nodeHashDelete a t)) = length (aHash t)" "nextAddr (nodeHashDelete a t) = nextAddr t"
    using D by auto
qed

lemma nodeHashDelete_inv:
  assumes "hash_inv t" "hashed t a"
  shows "hash_inv (nodeHashDelete a t)"
proof -
  have "\<exists>as. wf_bucket (links (nodeHashDelete a t)) k (aHash (nodeHashDelete a t) ! k) as"
    if "k < HASHSIZE" for k
    using nodeHashDelete_bucket(1) [OF assms _ that] assms(1) that unfolding hash_inv_def by metis
  then show ?thesis
    using assms(1) nodeHashDelete_dom [OF assms] by (intro hash_invI [OF assms(1)]) (auto simp: hash_inv_def)
qed

lemma nodeHashLookup_delete:
  assumes "hash_inv t" "hashed t a" "0 < sint j"
  shows "nodeHashLookup (nodeHashDelete a t) j = (if j = key (links t) a then None else nodeHashLookup t j)"
proof -
  let ?k = "nat (nodeHash j)"
  have k: "?k < HASHSIZE" using nodeHash_range [OF assms(3)] by linarith
  then obtain as where b: "wf_bucket (links t) ?k (aHash t ! ?k) as" using assms(1) by (auto simp: hash_inv_def)
  note B = nodeHashDelete_bucket [OF assms(1,2) b k]
  have find: "List.find P (filter (\<lambda>c. c \<noteq> a) as) = List.find P as" if "\<not> P a" for P
    using that by (induction as) auto
  have "c = a" if "c \<in> set as" "key (links t) c = key (links t) a" "j = key (links t) a" for c
  proof -
    have "nodeHashLookup t j = Some c" "nodeHashLookup t j = Some a"
      using that assms b k by (auto simp: nodeHashLookup_Some hashed_def)
    then show ?thesis by simp
  qed
  then have "j = key (links t) a \<Longrightarrow> List.find (\<lambda>c. key (links t) c = j) (filter (\<lambda>c. c \<noteq> a) as) = None"
    by (auto simp: find_None_iff)
  with find show ?thesis
    unfolding nodeHashLookup_bucket [OF nodeHashDelete_inv [OF assms(1,2)] B(1)] B(2)
      nodeHashLookup_bucket [OF assms(1) b] by auto
qed

subsection \<open>The interface\<close>

text \<open>
  A table of values under keys as its clients use it: a value that carries a key not yet in the
  table can be inserted, a value found under its key can be deleted.
\<close>

locale keyed_table =
  fixes inv :: "'s \<Rightarrow> bool" and ok :: "'k \<Rightarrow> bool" and carries :: "'s \<Rightarrow> 'v \<Rightarrow> 'k \<Rightarrow> bool"
    and lookup :: "'s \<Rightarrow> 'k \<Rightarrow> 'v option" and insert :: "'v \<Rightarrow> 's \<Rightarrow> 's" and delete :: "'v \<Rightarrow> 's \<Rightarrow> 's"
  assumes carries_ok: "carries s v k \<Longrightarrow> ok k"
    and insert_inv: "inv s \<Longrightarrow> carries s v k \<Longrightarrow> lookup s k = None \<Longrightarrow> inv (insert v s)"
    and lookup_insert: "inv s \<Longrightarrow> carries s v k \<Longrightarrow> lookup s k = None \<Longrightarrow> ok j \<Longrightarrow>
      lookup (insert v s) j = (if j = k then Some v else lookup s j)"
    and delete_inv: "inv s \<Longrightarrow> ok k \<Longrightarrow> lookup s k = Some v \<Longrightarrow> inv (delete v s)"
    and lookup_delete: "inv s \<Longrightarrow> ok k \<Longrightarrow> lookup s k = Some v \<Longrightarrow> ok j \<Longrightarrow>
      lookup (delete v s) j = (if j = k then None else lookup s j)"
begin

lemma delete_insert:
  assumes "inv s" "carries s v k" "lookup s k = None"
  shows "inv (delete v (insert v s))" and "ok j \<Longrightarrow> lookup (delete v (insert v s)) j = lookup s j"
  using assms carries_ok [OF assms(2)] insert_inv [OF assms] lookup_insert [OF assms]
  by (auto intro: delete_inv simp: lookup_delete [of "insert v s" k v])

end

definition carries_number :: "Rtree \<Rightarrow> nat \<Rightarrow> i64 \<Rightarrow> bool" where
  "carries_number t a i \<longleftrightarrow> 0 < sint i \<and> map_option iNode (heap t a) = Some i"

interpretation nh: keyed_table hash_inv "\<lambda>i. 0 < sint i" carries_number nodeHashLookup nodeHashInsert nodeHashDelete
proof
  fix s :: Rtree and v k j
  assume "carries_number s v k"
  then show "0 < sint k" by (simp add: carries_number_def)
  from \<open>carries_number s v k\<close> obtain n where "heap s v = Some n" "iNode n = k" "0 < sint k"
    by (auto simp: carries_number_def)
  then show "hash_inv s \<Longrightarrow> nodeHashLookup s k = None \<Longrightarrow> hash_inv (nodeHashInsert v s)"
    "hash_inv s \<Longrightarrow> nodeHashLookup s k = None \<Longrightarrow> 0 < sint j \<Longrightarrow>
      nodeHashLookup (nodeHashInsert v s) j = (if j = k then Some v else nodeHashLookup s j)"
    using nodeHashInsert_inv nodeHashLookup_insert by auto
next
  fix s :: Rtree and v k j
  assume a: "hash_inv s" "0 < sint k" "nodeHashLookup s k = Some v"
  then have "hashed s v" "key (links s) v = k" by (auto simp: nodeHashLookup_Some)
  with a show "hash_inv (nodeHashDelete v s)" "0 < sint j \<Longrightarrow>
      nodeHashLookup (nodeHashDelete v s) j = (if j = k then None else nodeHashLookup s j)"
    using nodeHashDelete_inv nodeHashLookup_delete by auto
qed

text \<open>Changes that touch no link of a node in the table.\<close>

lemma hash_frame:
  assumes inv: "hash_inv t" and h: "aHash u = aHash t" and l: "\<And>a. hashed t a \<Longrightarrow> links u a = links t a"
    and n: "\<And>a. heap u a \<noteq> None \<Longrightarrow> a < nextAddr u"
  shows "hash_inv u" and "0 < sint j \<Longrightarrow> nodeHashLookup u j = nodeHashLookup t j" and "hashed u = hashed t"
proof -
  have w: "wf_bucket (links u) i (aHash u ! i) as"
    if b: "wf_bucket (links t) i (aHash t ! i) as" and i: "i < HASHSIZE" for i as
  proof -
    have e: "links u a = links t a" if "a \<in> set as" for a using that b i by (intro l) (auto simp: hashed_def)
    then have k: "map (key (links u)) as = map (key (links t)) as" "list_all (\<lambda>a. key (links u) a = key (links t) a) as"
      by (auto simp: key_def list_all_iff)
    have "distinct (map (key (links u)) as)" unfolding k(1) using b by (simp only: wf_bucket_def)
    moreover have "chain (links u) (aHash u ! i) as"
      using b e chain_cong [of as "links u" "links t"] h by (simp add: wf_bucket_def)
    ultimately show ?thesis using b k(2) by (auto simp: wf_bucket_def list_all_iff)
  qed
  show iu: "hash_inv u" unfolding hash_inv_def
  proof (intro conjI allI impI)
    show "\<exists>as. wf_bucket (links u) i (aHash u ! i) as" if "i < HASHSIZE" for i
      using inv w that unfolding hash_inv_def by metis
  qed (use inv h n in \<open>auto simp: hash_inv_def\<close>)
  show e: "hashed u = hashed t"
  proof (intro ext iffI)
    fix a assume "hashed u a"
    then obtain i as where i: "i < HASHSIZE" "wf_bucket (links u) i (aHash u ! i) as" "a \<in> set as"
      by (auto simp: hashed_def)
    moreover obtain bs where bs: "wf_bucket (links t) i (aHash t ! i) bs" using inv i by (auto simp: hash_inv_def)
    ultimately have "as = bs" using w by (meson chain_unique wf_bucket_def)
    with i bs show "hashed t a" by (auto simp: hashed_def)
  qed (use w in \<open>auto simp: hashed_def\<close>)
  show "nodeHashLookup u j = nodeHashLookup t j" if j: "0 < sint j"
  proof -
    have "nodeHashLookup u j = Some a \<longleftrightarrow> nodeHashLookup t j = Some a" for a
      unfolding nodeHashLookup_Some [OF iu j] nodeHashLookup_Some [OF inv j] e using l by (auto simp: key_def)
    then show ?thesis by (metis option.exhaust)
  qed
qed

section \<open>Acquiring a node\<close>

definition same_table :: "Rtree \<Rightarrow> Rtree \<Rightarrow> bool" where
  "same_table t u \<longleftrightarrow> hash_inv u \<and> hashed u = hashed t \<and>
     (\<forall>j. 0 < sint j \<longrightarrow> nodeHashLookup u j = nodeHashLookup t j)"

lemma same_table_refl [simp]: "same_table t t \<longleftrightarrow> hash_inv t"
  by (simp add: same_table_def)

lemma same_table_trans: "same_table t u \<Longrightarrow> same_table u v \<Longrightarrow> same_table t v"
  by (simp add: same_table_def)

lemma same_table_inv: "same_table t u \<Longrightarrow> hash_inv u"
  by (simp add: same_table_def)

lemma same_tableI:
  assumes "hash_inv t" "aHash u = aHash t" "\<And>a. hashed t a \<Longrightarrow> links u a = links t a"
    "\<And>a. heap u a \<noteq> None \<Longrightarrow> a < nextAddr u"
  shows "same_table t u"
  using hash_frame [OF assms] by (auto simp: same_table_def)

lemma heap_bound: "hash_inv t \<Longrightarrow> heap t a \<noteq> None \<Longrightarrow> a < nextAddr t"
  by (simp add: hash_inv_def)

lemma same_table_fields:
  assumes "hash_inv t" "aHash u = aHash t" "heap u = heap t" "nextAddr u = nextAddr t"
  shows "same_table t u"
  using assms by (intro same_tableI) (auto simp: links_def dest: heap_bound)

lemma same_table_upd:
  assumes "hash_inv t" "heap t a \<noteq> None" "\<And>n. iNode (f n) = iNode n" "\<And>n. pNext (f n) = pNext n"
  shows "same_table t (upd_node f a t)"
proof (rule same_tableI [OF assms(1)])
  show "links (upd_node f a t) b = links t b" for b
    using assms by (auto simp: links_upd_node) (auto simp: links_def node_at_def)
  show "heap (upd_node f a t) b \<noteq> None \<Longrightarrow> b < nextAddr (upd_node f a t)" for b
    using assms heap_bound by (auto simp: upd_node_def split: if_splits)
qed simp

definition valid_ptr :: "Rtree \<Rightarrow> nptr \<Rightarrow> bool" where
  "valid_ptr t p \<longleftrightarrow> (case p of None \<Rightarrow> True | Some a \<Rightarrow> heap t a \<noteq> None)"

lemma same_table_nodeReference:
  "hash_inv t \<Longrightarrow> valid_ptr t p \<Longrightarrow> same_table t (nodeReference p t)"
  by (auto simp: nodeReference_def valid_ptr_def intro: same_table_upd split: option.splits)

lemma same_table_malloc: "hash_inv t \<Longrightarrow> same_table t (snd (sqlite3_malloc t))"
  by (intro same_table_fields) (auto simp: sqlite3_malloc_def split: list.splits)

lemma same_table_step: "hash_inv t \<Longrightarrow> same_table t (snd (step_stmt t))"
  by (intro same_table_fields) (auto simp: step_stmt_def split: list.splits)

lemma same_table_alloc: "hash_inv t \<Longrightarrow> same_table t (snd (alloc_node n t))"
proof (rule same_tableI)
  fix a assume t: "hash_inv t" "hashed t a"
  then have "a \<noteq> nextAddr t" using hashed_key(1) heap_bound by blast
  then show "links (snd (alloc_node n t)) a = links t a" by (simp add: alloc_node_def links_def)
qed (auto simp: alloc_node_def less_Suc_eq dest: heap_bound split: if_splits)

lemma not_hashed_alloc: "hash_inv t \<Longrightarrow> \<not> hashed (snd (alloc_node n t)) (nextAddr t)"
proof
  assume t: "hash_inv t" and "hashed (snd (alloc_node n t)) (nextAddr t)"
  then have "hashed t (nextAddr t)" using same_table_alloc [OF t] by (simp add: same_table_def)
  then show False using t hashed_key(1) heap_bound by blast
qed

lemma same_table_free:
  "hash_inv t \<Longrightarrow> (\<And>a. p = Some a \<Longrightarrow> \<not> hashed t a) \<Longrightarrow> same_table t (sqlite3_free p t)"
  by (rule same_tableI)
    (auto simp: sqlite3_free_def links_def dest: heap_bound split: option.splits if_splits)

lemma nodeReference_node:
  "heap t a = Some n \<Longrightarrow> p \<noteq> Some a \<Longrightarrow> heap (nodeReference p t) a = Some n"
  by (auto simp: nodeReference_def upd_node_def split: option.splits)

lemma nodeReference_fields [simp]:
  "nodeTab (nodeReference p t) = nodeTab t" "iNodeSize (nodeReference p t) = iNodeSize t"
  "nBytesPerCell (nodeReference p t) = nBytesPerCell t" "nextAddr (nodeReference p t) = nextAddr t"
  by (auto simp: nodeReference_def upd_node_def split: option.splits)

lemma step_stmt_fields [simp]:
  "nodeTab (snd (step_stmt t)) = nodeTab t" "iNodeSize (snd (step_stmt t)) = iNodeSize t"
  "nBytesPerCell (snd (step_stmt t)) = nBytesPerCell t" "heap (snd (step_stmt t)) = heap t"
  by (auto simp: step_stmt_def split: list.splits)

lemma malloc_fields [simp]:
  "nodeTab (snd (sqlite3_malloc t)) = nodeTab t" "heap (snd (sqlite3_malloc t)) = heap t"
  "nextAddr (snd (sqlite3_malloc t)) = nextAddr t"
  by (auto simp: sqlite3_malloc_def split: list.splits)

text \<open>What \<open>read_node\<close> leaves: the table as it was, and a fresh node with the row's image.\<close>

lemma read_node_post:
  assumes "hash_inv t" "valid_ptr t par" "read_node i par t = (rc, p, u)"
  shows "same_table t u" "nodeTab u = nodeTab t" "iNodeSize u = iNodeSize t" "nBytesPerCell u = nBytesPerCell t"
    "case p of None \<Rightarrow> True | Some a \<Rightarrow> \<not> hashed u a \<and> rc = SQLITE_OK \<and>
       (\<exists>z. map_of (nodeTab t) i = Some z \<and> int (length z) = iNodeSize t \<and> heap u a =
          Some \<lparr>pParent = par, iNode = i, nRef = 1, isDirty = False, zData = z, pNext = None\<rparr>)"
    "case p of None \<Rightarrow> rc = (if fst (step_stmt t) \<noteq> SQLITE_OK then fst (step_stmt t)
        else case map_of (nodeTab t) i of None \<Rightarrow> SQLITE_OK
        | Some z \<Rightarrow> if int (length z) = iNodeSize t then SQLITE_NOMEM else SQLITE_OK) \<and>
        (fst (step_stmt t) = SQLITE_OK \<and> (\<exists>z. map_of (nodeTab t) i = Some z \<and> int (length z) = iNodeSize t) \<longrightarrow>
          \<not> fst (sqlite3_malloc (snd (step_stmt t))))
      | Some a \<Rightarrow> fst (step_stmt t) = SQLITE_OK \<and> fst (sqlite3_malloc (snd (step_stmt t)))"
proof -
  let ?t1 = "snd (step_stmt t)" and ?t2 = "snd (sqlite3_malloc (snd (step_stmt t)))"
  have s1: "same_table t ?t1" by (rule same_table_step [OF assms(1)])
  then have i1: "hash_inv ?t1" by (simp add: same_table_def)
  have s2: "same_table ?t1 ?t2" by (rule same_table_malloc [OF i1])
  then have i2: "hash_inv ?t2" by (simp add: same_table_def)
  have "same_table t u \<and> nodeTab u = nodeTab t \<and> iNodeSize u = iNodeSize t \<and> nBytesPerCell u = nBytesPerCell t \<and>
    (case p of None \<Rightarrow> True | Some a \<Rightarrow> \<not> hashed u a \<and> rc = SQLITE_OK \<and>
       (\<exists>z. map_of (nodeTab t) i = Some z \<and> int (length z) = iNodeSize t \<and> heap u a =
          Some \<lparr>pParent = par, iNode = i, nRef = 1, isDirty = False, zData = z, pNext = None\<rparr>))"
  proof (cases p)
    case None
    then have "u = ?t1 \<or> u = ?t2"
      using assms(3) by (auto simp: read_node_def case_prod_beta Let_def split: option.splits if_splits)
    then show ?thesis using None s1 same_table_trans [OF s1 s2] by auto
  next
    case (Some a)
    then obtain z where z: "map_of (nodeTab t) i = Some z" "iNodeSize t = int (length z)" "rc = SQLITE_OK"
      and u: "a = nextAddr ?t2" "u = nodeReference par (snd (alloc_node
        \<lparr>pParent = par, iNode = i, nRef = 1, isDirty = False, zData = z, pNext = None\<rparr> ?t2))"
      using assms(3)
      by (auto simp: read_node_def case_prod_beta Let_def alloc_node_def split: option.splits if_splits)
    let ?n = "\<lparr>pParent = par, iNode = i, nRef = 1, isDirty = False, zData = z, pNext = None\<rparr> :: RtreeNode"
    let ?t3 = "snd (alloc_node ?n ?t2)"
    have s3: "same_table ?t2 ?t3" by (rule same_table_alloc [OF i2])
    then have i3: "hash_inv ?t3" by (simp add: same_table_def)
    have np: "par \<noteq> Some a" using assms(1,2) u(1) heap_bound [OF i2, of a] by (auto simp: valid_ptr_def)
    have "valid_ptr ?t3 par" using assms(2) by (auto simp: valid_ptr_def alloc_node_def split: option.splits)
    with i3 have s4: "same_table ?t3 u" unfolding u(2) by (rule same_table_nodeReference)
    have "heap u a = Some ?n" unfolding u(2) by (rule nodeReference_node) (use np u(1) in \<open>auto simp: alloc_node_def\<close>)
    moreover have "\<not> hashed u a" using not_hashed_alloc [OF i2, of ?n] s4 u(1) by (simp add: same_table_def)
    moreover have "same_table t u" using s1 s2 s3 s4 by (blast intro: same_table_trans)
    moreover have "nodeTab u = nodeTab t" "iNodeSize u = iNodeSize t" "nBytesPerCell u = nBytesPerCell t"
      unfolding u(2) by (simp_all add: alloc_node_def)
    ultimately show ?thesis using Some z by simp
  qed
  then show "same_table t u" "nodeTab u = nodeTab t" "iNodeSize u = iNodeSize t" "nBytesPerCell u = nBytesPerCell t"
    "case p of None \<Rightarrow> True | Some a \<Rightarrow> \<not> hashed u a \<and> rc = SQLITE_OK \<and>
       (\<exists>z. map_of (nodeTab t) i = Some z \<and> int (length z) = iNodeSize t \<and> heap u a =
          Some \<lparr>pParent = par, iNode = i, nRef = 1, isDirty = False, zData = z, pNext = None\<rparr>)" by auto
  show "case p of None \<Rightarrow> rc = (if fst (step_stmt t) \<noteq> SQLITE_OK then fst (step_stmt t)
        else case map_of (nodeTab t) i of None \<Rightarrow> SQLITE_OK
        | Some z \<Rightarrow> if int (length z) = iNodeSize t then SQLITE_NOMEM else SQLITE_OK) \<and>
        (fst (step_stmt t) = SQLITE_OK \<and> (\<exists>z. map_of (nodeTab t) i = Some z \<and> int (length z) = iNodeSize t) \<longrightarrow>
          \<not> fst (sqlite3_malloc (snd (step_stmt t))))
      | Some a \<Rightarrow> fst (step_stmt t) = SQLITE_OK \<and> fst (sqlite3_malloc (snd (step_stmt t)))"
    using assms(3) by (auto simp: read_node_def case_prod_beta Let_def alloc_node_def split: option.splits if_splits)
qed

text \<open>
  The result code of \<open>nodeAcquire\<close>: none of the errors for a cached node; otherwise the error of the
  statement, the corruption code for a missing row or one of the wrong size, the one for lack of
  memory, or the corruption code for a root of impossible depth or a cell count beyond the page.
\<close>

definition acquire_code :: "Rtree \<Rightarrow> i64 \<Rightarrow> int" where
  "acquire_code t i =
     (if nodeHashLookup t i \<noteq> None then SQLITE_OK
      else if fst (step_stmt t) \<noteq> SQLITE_OK then fst (step_stmt t)
      else case map_of (nodeTab t) i of
             None \<Rightarrow> SQLITE_CORRUPT_VTAB
           | Some z \<Rightarrow>
               if int (length z) \<noteq> iNodeSize t then SQLITE_CORRUPT_VTAB
               else if \<not> fst (sqlite3_malloc (snd (step_stmt t))) then SQLITE_NOMEM
               else if (i = 1 \<and> RTREE_MAX_DEPTH < readInt16 z) \<or> nMaxCell t < readInt16 (drop 2 z)
                 then SQLITE_CORRUPT_VTAB
               else SQLITE_OK)"

text \<open>The promise of \<open>nodeAcquire\<close>: a node of the given number, cached from then on.\<close>

definition acquired :: "Rtree \<Rightarrow> i64 \<Rightarrow> nptr \<Rightarrow> int \<Rightarrow> nptr \<Rightarrow> Rtree \<Rightarrow> bool" where
  "acquired t i par rc p u \<longleftrightarrow> hash_inv u \<and> nodeTab u = nodeTab t \<and> rc = acquire_code t i \<and>
     (p = None \<longleftrightarrow> rc \<noteq> SQLITE_OK) \<and>
     (case p of
        None \<Rightarrow> \<forall>j. 0 < sint j \<longrightarrow> nodeHashLookup u j = nodeHashLookup t j
      | Some a \<Rightarrow> carries_number u a i \<and>
          (\<forall>j. 0 < sint j \<longrightarrow> nodeHashLookup u j = (if j = i then Some a else nodeHashLookup t j)) \<and>
          (case nodeHashLookup t i of
             None \<Rightarrow> map_of (nodeTab t) i = Some (zData (node_at u a)) \<and> wf_node t (node_at u a) \<and>
               nRef (node_at u a) = 1 \<and> \<not> isDirty (node_at u a) \<and> pParent (node_at u a) = par
           | Some b \<Rightarrow> a = b \<and> zData (node_at u a) = zData (node_at t a) \<and>
               isDirty (node_at u a) = isDirty (node_at t a) \<and>
               nRef (node_at u a) = nRef (node_at t a) + 1 \<and>
               pParent (node_at u a) = (if pParent (node_at t a) = None then par else pParent (node_at t a))))"

lemma carries_number_hashed:
  "hash_inv t \<Longrightarrow> 0 < sint i \<Longrightarrow> nodeHashLookup t i = Some a \<Longrightarrow> carries_number t a i"
  using hashed_key(1) [of t a]
  by (auto simp: nodeHashLookup_Some carries_number_def key_def links_def)

lemma nodeAcquire_hit:
  assumes inv: "hash_inv t" "valid_ptr t par" "0 < sint i" and hit: "nodeHashLookup t i = Some a" "par \<noteq> Some a"
  shows "acquired t i par (fst (nodeAcquire i par t)) (fst (snd (nodeAcquire i par t))) (snd (snd (nodeAcquire i par t)))"
proof -
  let ?u = "if par \<noteq> None \<and> pParent (node_at t a) = None
    then upd_node (\<lambda>n. n\<lparr>pParent := par\<rparr>) a (nodeReference par t) else t"
  let ?v = "upd_node (\<lambda>n. n\<lparr>nRef := nRef n + 1\<rparr>) a ?u"
  have h: "hashed t a" using hit inv by (simp add: nodeHashLookup_Some)
  have ref: "same_table t (nodeReference par t)" by (rule same_table_nodeReference [OF inv(1,2)])
  then have "heap (nodeReference par t) a \<noteq> None" using h hashed_key(1) by (simp add: same_table_def)
  then have "same_table t (upd_node (\<lambda>n. n\<lparr>pParent := par\<rparr>) a (nodeReference par t))"
    by (intro same_table_trans [OF ref] same_table_upd same_table_inv [OF ref]) auto
  then have su: "same_table t ?u" using inv(1) by simp
  then have ia: "hash_inv ?u" "heap ?u a \<noteq> None" using h hashed_key(1) by (auto simp: same_table_def)
  then have sv: "same_table t ?v" by (intro same_table_trans [OF su] same_table_upd) auto
  obtain n where n: "heap t a = Some n" using hashed_key(1) [OF h] by auto
  have hr: "heap (nodeReference par t) a = Some n" using n hit(2) by (rule nodeReference_node)
  have k: "nRef (node_at ?v a) = nRef (node_at t a) + 1" "zData (node_at ?v a) = zData (node_at t a)"
    "isDirty (node_at ?v a) = isDirty (node_at t a)"
    "pParent (node_at ?v a) = (if pParent (node_at t a) = None then par else pParent (node_at t a))"
    using n hr by (auto simp: upd_node_def node_at_def)
  have tab: "nodeTab ?v = nodeTab t" by (simp add: upd_node_def)
  have c: "carries_number ?v a i"
    using sv hit inv by (intro carries_number_hashed) (auto simp: same_table_def)
  have "nodeAcquire i par t = (SQLITE_OK, Some a, ?v)" by (simp add: nodeAcquire_def hit Let_def)
  then show ?thesis using sv k tab c hit by (simp add: acquired_def acquire_code_def same_table_def)
qed

lemma nodeAcquire_miss:
  assumes inv: "hash_inv t" "valid_ptr t par" "0 < sint i" and miss: "nodeHashLookup t i = None"
  shows "acquired t i par (fst (nodeAcquire i par t)) (fst (snd (nodeAcquire i par t))) (snd (snd (nodeAcquire i par t)))"
proof -
  obtain rc p u where r: "read_node i par t = (rc, p, u)" by (cases "read_node i par t")
  note P = read_node_post [OF inv(1,2) r]
  show ?thesis
  proof (cases p)
    case None
    have "nodeAcquire i par t = (if rc = SQLITE_OK then SQLITE_CORRUPT_VTAB else rc, None, u)"
      using None by (simp add: nodeAcquire_def miss r sqlite3_free_def)
    moreover have "acquire_code t i = (if rc = SQLITE_OK then SQLITE_CORRUPT_VTAB else rc)"
      using P(6) None miss by (auto simp: acquire_code_def split: option.splits)
    ultimately show ?thesis using P(1,2) miss by (auto simp: acquired_def same_table_def)
  next
    case (Some a)
    define v where "v = (if i = 1 then u\<lparr>iDepth := readInt16 (zData (node_at u a))\<rparr> else u)"
    define bad where "bad = (i = 1 \<and> iDepth v > RTREE_MAX_DEPTH \<or> NCELL (node_at v a) > nMaxCell v)"
    have acq: "nodeAcquire i par t = (if bad then (SQLITE_CORRUPT_VTAB, None, sqlite3_free (Some a) v)
        else (SQLITE_OK, Some a, nodeHashInsert a v))"
      using P(5) Some by (auto simp: nodeAcquire_def miss r v_def bad_def Let_def)
    have hv: "heap v = heap u" "nodeTab v = nodeTab t" "iNodeSize v = iNodeSize t" "nBytesPerCell v = nBytesPerCell t"
      using P by (auto simp: v_def)
    have "same_table u v"
      using same_table_inv [OF P(1)] by (intro same_table_fields) (auto simp: v_def)
    with P(1) have sv: "same_table t v" "hashed v = hashed u"
      by (auto intro: same_table_trans simp: same_table_def)
    note iv = same_table_inv [OF sv(1)]
    obtain z where z: "map_of (nodeTab t) i = Some z" "int (length z) = iNodeSize t"
      "heap v a = Some \<lparr>pParent = par, iNode = i, nRef = 1, isDirty = False, zData = z, pNext = None\<rparr>" "\<not> hashed v a"
      using P(5) Some hv sv(2) by auto
    have free: "same_table t (sqlite3_free (Some a) v)"
      using z(4) by (intro same_table_trans [OF sv(1)] same_table_free iv) auto
    have c: "carries_number v a i" "nodeHashLookup v i = None"
      using z(3) inv(3) sv(1) miss by (auto simp: carries_number_def same_table_def)
    note ins = nh.insert_inv [OF iv c] nh.lookup_insert [OF iv c]
    define w where "w = nodeHashInsert a v"
    have w: "zData (node_at w a) = z" "nRef (node_at w a) = 1" "\<not> isDirty (node_at w a)" "pParent (node_at w a) = par"
      "map_option iNode (heap w a) = Some i" "nodeTab w = nodeTab t"
      using z(3) hv by (auto simp: w_def nodeHashInsert_def Let_def upd_node_def node_at_def)
    have "wf_node t (node_at w a)" if "\<not> bad"
      using that z(2,3) hv w(1) by (simp add: bad_def wf_node_def NCELL_def node_at_def nMaxCell_def)
    moreover have "nodeTab (sqlite3_free (Some a) v) = nodeTab t" by (simp add: sqlite3_free_def hv)
    moreover have "acquire_code t i = (if bad then SQLITE_CORRUPT_VTAB else SQLITE_OK)"
    proof -
      have "iDepth v = readInt16 z" if "i = 1"
        using that z(3) hv(1) by (simp add: v_def node_at_def)
      moreover have "NCELL (node_at v a) = readInt16 (drop 2 z)" "nMaxCell v = nMaxCell t"
        using z(3) hv by (simp_all add: NCELL_def node_at_def nMaxCell_def)
      ultimately show ?thesis using P(6) Some z(1,2) miss by (auto simp: acquire_code_def bad_def)
    qed
    ultimately show ?thesis
      using free ins w z(1) inv(3) sv(1) miss unfolding acq w_def [symmetric]
      by (auto simp: acquired_def same_table_def carries_number_def)
  qed
qed

section \<open>Releasing a node\<close>

text \<open>The chain of parents of a node, up to one without a parent; such a chain has no repetition.\<close>

fun ancestry :: "Rtree \<Rightarrow> nat \<Rightarrow> nat list \<Rightarrow> bool" where
  "ancestry t p [] \<longleftrightarrow> pParent (node_at t p) = None"
| "ancestry t p (q # qs) \<longleftrightarrow> pParent (node_at t p) = Some q \<and> ancestry t q qs"

lemma ancestry_cong:
  "(\<And>a. a \<in> set (p # ps) \<Longrightarrow> pParent (node_at u a) = pParent (node_at t a)) \<Longrightarrow> ancestry u p ps = ancestry t p ps"
  by (induction ps arbitrary: p) auto

lemma ancestry_unique: "ancestry t p ps \<Longrightarrow> ancestry t p qs \<Longrightarrow> ps = qs"
proof (induction ps arbitrary: p qs)
  case Nil
  then show ?case by (cases qs) auto
next
  case (Cons a ps)
  then show ?case by (cases qs) auto
qed

lemma ancestry_suffix: "ancestry t p (us @ a # vs) \<Longrightarrow> ancestry t a vs"
  by (induction us arbitrary: p) auto

lemma ancestry_distinct: "ancestry t p ps \<Longrightarrow> distinct (p # ps)"
proof (induction ps arbitrary: p)
  case (Cons q qs)
  have "p \<notin> set (q # qs)"
  proof
    assume "p \<in> set (q # qs)"
    then obtain us vs where s: "q # qs = us @ p # vs" by (meson split_list)
    with Cons.prems have "ancestry t p vs" by (metis ancestry_suffix)
    with Cons.prems have "q # qs = vs" by (metis ancestry_unique)
    with s have "length (us @ p # vs) = length vs" by simp
    then show False by simp
  qed
  with Cons show ?case by auto
qed simp

text \<open>The statements that write rows, one after the other, up to the first that fails.\<close>

fun save_rows :: "(i64 \<times> u8 list) list \<Rightarrow> int list \<Rightarrow> (i64 \<rightharpoonup> u8 list) \<Rightarrow> int \<times> int list \<times> (i64 \<rightharpoonup> u8 list)" where
  "save_rows [] rs m = (SQLITE_OK, rs, m)"
| "save_rows ((k, z) # rows) rs m =
     (let (r, rs) = (case rs of [] \<Rightarrow> (SQLITE_OK, []) | r # rs \<Rightarrow> (r, rs))
      in if r = SQLITE_OK then save_rows rows rs (m(k \<mapsto> z)) else (r, rs, m))"

lemma save_rows_append:
  "save_rows (xs @ ys) rs m =
     (let (r, rs, m) = save_rows xs rs m in if r = SQLITE_OK then save_rows ys rs m else (r, rs, m))"
  by (induction xs arbitrary: rs m) (auto simp: Let_def split: list.splits prod.splits)

text \<open>The rows of the dirty nodes among the given ones.\<close>

definition dirty_rows :: "Rtree \<Rightarrow> nat list \<Rightarrow> (i64 \<times> u8 list) list" where
  "dirty_rows t as =
     map (\<lambda>a. (iNode (node_at t a), zData (node_at t a))) (filter (\<lambda>a. isDirty (node_at t a)) as)"

lemma dirty_rows_cong:
  "(\<And>a. a \<in> set as \<Longrightarrow> node_at u a = node_at t a) \<Longrightarrow> dirty_rows u as = dirty_rows t as"
  by (induction as) (auto simp: dirty_rows_def)

text \<open>A release touches the cache, the table of nodes and the depth, nothing else.\<close>

definition only_cache :: "Rtree \<Rightarrow> Rtree \<Rightarrow> bool" where
  "only_cache t u \<longleftrightarrow> u = t\<lparr>iDepth := iDepth u, aHash := aHash u, heap := heap u, nodeTab := nodeTab u,
     lastInsert := lastInsert u, sqlRc := sqlRc u\<rparr>"

lemma only_cache_trans: "only_cache t u \<Longrightarrow> only_cache u v \<Longrightarrow> only_cache t v"
  by (cases t, cases u, cases v) (simp add: only_cache_def)

lemma only_cache_refl [simp]: "only_cache t t"
  by (simp add: only_cache_def)

lemma only_cache_upd [simp]: "only_cache t (upd_node f a t)"
  by (simp add: only_cache_def upd_node_def)

lemma only_cache_free [simp]: "only_cache t (sqlite3_free p t)"
  by (cases p) (simp_all add: only_cache_def sqlite3_free_def)

lemma only_cache_unlink: "only_cache t (unlink_chain k b a t)"
  by (induction k arbitrary: b) (auto split: option.splits)

lemma only_cache_delete: "only_cache t (nodeHashDelete a t)"
proof -
  have "only_cache t (t\<lparr>aHash := h\<rparr>)" for h by (simp add: only_cache_def)
  then show ?thesis
    by (auto simp: nodeHashDelete_def Let_def split: option.split
        intro!: only_cache_trans [OF _ only_cache_upd] only_cache_unlink)
qed

text \<open>A node apart from its link in the hash table, which a deletion of another one may change.\<close>

definition no_link :: "RtreeNode \<Rightarrow> RtreeNode" where
  "no_link n = n\<lparr>pNext := None\<rparr>"

lemma no_link_fields:
  assumes "no_link m = no_link n"
  shows "pParent m = pParent n" "iNode m = iNode n" "nRef m = nRef n" "isDirty m = isDirty n" "zData m = zData n"
  using assms by (cases m; cases n; simp add: no_link_def)+

lemma no_link_upd:
  "(\<And>n. no_link (f n) = no_link n) \<Longrightarrow> heap t b \<noteq> None \<Longrightarrow>
   map_option no_link (heap (upd_node f a t) b) = map_option no_link (heap t b)"
  by (auto simp: upd_node_def node_at_def)

lemma no_link_unlink:
  "heap t c \<noteq> None \<Longrightarrow> map_option no_link (heap (unlink_chain k b a t) c) = map_option no_link (heap t c)"
proof (induction k arbitrary: b)
  case (Suc k)
  then show ?case by (auto split: option.split simp: upd_node_def node_at_def no_link_def)
qed simp

lemma no_link_delete:
  assumes "hash_inv t" "hashed t a"
  shows "map_option no_link (heap (nodeHashDelete a t) b) = map_option no_link (heap t b)"
proof (cases "heap t b")
  case None
  then have "links t b = None" by (simp add: links_def)
  then have "links (nodeHashDelete a t) b = None" using nodeHashDelete_dom(1) [OF assms, of b] by blast
  with None show ?thesis by (simp add: links_def)
next
  case (Some n)
  let ?t = "case aHash t ! nat (nodeHash (iNode (node_at t a))) of None \<Rightarrow> t
    | Some c \<Rightarrow> if c \<noteq> a then unlink_chain (nextAddr t) c a t
        else t\<lparr>aHash := (aHash t)[nat (nodeHash (iNode (node_at t a))) := pNext (node_at t a)]\<rparr>"
  have t: "map_option no_link (heap ?t b) = map_option no_link (heap t b)"
    using Some no_link_unlink [of t b] by (auto split: option.split)
  then have "heap ?t b \<noteq> None" using Some by auto
  then have "map_option no_link (heap (upd_node (\<lambda>n. n\<lparr>pNext := None\<rparr>) a ?t) b) = map_option no_link (heap ?t b)"
    by (intro no_link_upd) (simp_all add: no_link_def)
  with t show ?thesis by (simp add: nodeHashDelete_def Let_def)
qed

lemma nodeWrite_numbered:
  assumes "hash_inv t" "heap t a = Some n" "iNode n \<noteq> 0" "nodeWrite a t = (rc, u)"
  shows "same_table t u" "heap u = (heap t)(a \<mapsto> n\<lparr>isDirty := False\<rparr>)" "iDepth u = iDepth t" "only_cache t u"
    "(rc, sqlRc u, map_of (nodeTab u)) =
      save_rows (if isDirty n then [(iNode n, zData n)] else []) (sqlRc t) (map_of (nodeTab t))"
proof -
  let ?s = "snd (step_stmt t)"
  define w where "w = (if fst (step_stmt t) = SQLITE_OK
    then ?s\<lparr>nodeTab := AList.update (iNode n) (zData n) (nodeTab ?s), lastInsert := iNode n\<rparr> else ?s)"
  have e: "(rc, u) = (if isDirty n then (fst (step_stmt t), upd_node (\<lambda>n. n\<lparr>isDirty := False\<rparr>) a w) else (SQLITE_OK, t))"
    using assms(2-4) by (auto simp: nodeWrite_def node_at_def w_def case_prod_beta Let_def)
  have ws: "heap w = heap t" "aHash w = aHash t" "nextAddr w = nextAddr t" "iDepth w = iDepth t" "only_cache t w"
    by (auto simp: w_def step_stmt_def only_cache_def split: list.splits)
  have sw: "same_table t w" using ws by (intro same_table_fields assms(1)) auto
  have "same_table t (upd_node (\<lambda>n. n\<lparr>isDirty := False\<rparr>) a w)"
    using ws assms(2) by (intro same_table_trans [OF sw] same_table_upd same_table_inv [OF sw]) auto
  then show "same_table t u" using e assms(1) by (auto split: if_splits)
  show "heap u = (heap t)(a \<mapsto> n\<lparr>isDirty := False\<rparr>)" "iDepth u = iDepth t"
    using e assms(2) ws by (cases n; auto simp: upd_node_def node_at_def split: if_splits)+
  show "only_cache t u" using e ws(5) only_cache_trans [OF ws(5) only_cache_upd] by (auto split: if_splits)
  show "(rc, sqlRc u, map_of (nodeTab u)) =
      save_rows (if isDirty n then [(iNode n, zData n)] else []) (sqlRc t) (map_of (nodeTab t))"
    using e by (auto simp: upd_node_def w_def step_stmt_def update_conv split: if_splits list.splits)
qed

lemma not_hashed_delete:
  assumes "hash_inv t" "hashed t a"
  shows "\<not> hashed (nodeHashDelete a t) a"
proof
  assume h: "hashed (nodeHashDelete a t) a"
  from assms(2) obtain i as where "wf_bucket (links t) i (aHash t ! i) as" "i < HASHSIZE"
    by (auto simp: hashed_def)
  note k = nodeHashDelete_bucket(2) [OF assms this]
  have p: "0 < sint (key (links t) a)" by (rule hashed_key(2) [OF assms(2)])
  have "nodeHashLookup (nodeHashDelete a t) (key (links t) a) = Some a"
    using h k nodeHashLookup_Some [OF nodeHashDelete_inv [OF assms] p] by simp
  then show False using nodeHashLookup_delete [OF assms p] by simp
qed

lemma unlink_chain_fields:
  "nodeTab (unlink_chain k b a t) = nodeTab t \<and> iDepth (unlink_chain k b a t) = iDepth t \<and>
   sqlRc (unlink_chain k b a t) = sqlRc t"
  by (induction k arbitrary: b) (auto simp: upd_node_def split: option.splits)

lemma nodeHashDelete_fields [simp]:
  "nodeTab (nodeHashDelete a t) = nodeTab t" "iDepth (nodeHashDelete a t) = iDepth t"
  "sqlRc (nodeHashDelete a t) = sqlRc t"
  using unlink_chain_fields by (auto simp: nodeHashDelete_def Let_def upd_node_def split: option.splits)

text \<open>
  What releasing the first node of a chain of parents does. The nodes that go are those whose last
  reference this is, up to the first that has another one, which loses one. They leave the cache, and
  their dirty pages are written, the topmost first.
\<close>

definition going :: "Rtree \<Rightarrow> nat list \<Rightarrow> nat list" where
  "going t path = takeWhile (\<lambda>a. nRef (node_at t a) = 1) path"

definition released :: "Rtree \<Rightarrow> nat list \<Rightarrow> int \<Rightarrow> Rtree \<Rightarrow> bool" where
  "released t path rc u \<longleftrightarrow>
     hash_inv u \<and> only_cache t u \<and>
     (\<forall>a. map_option no_link (heap u a) =
        (if a \<in> set (going t path) then None
         else if Some a = List.find (\<lambda>a. nRef (node_at t a) \<noteq> 1) path
           then map_option (\<lambda>n. no_link (n\<lparr>nRef := nRef n - 1\<rparr>)) (heap t a)
         else map_option no_link (heap t a))) \<and>
     (\<forall>j. 0 < sint j \<longrightarrow> nodeHashLookup u j =
        (if \<exists>a\<in>set (going t path). iNode (node_at t a) = j then None else nodeHashLookup t j)) \<and>
     (rc, sqlRc u, map_of (nodeTab u)) =
       save_rows (dirty_rows t (rev (going t path))) (sqlRc t) (map_of (nodeTab t)) \<and>
     iDepth u = (if \<exists>a\<in>set (going t path). iNode (node_at t a) = 1 then -1 else iDepth t)"

text \<open>A cached node: in memory, and found under its number.\<close>

definition cached :: "Rtree \<Rightarrow> nat \<Rightarrow> bool" where
  "cached t a \<longleftrightarrow> heap t a \<noteq> None \<and> 0 < sint (iNode (node_at t a)) \<and>
     nodeHashLookup t (iNode (node_at t a)) = Some a"

lemma cached_unique:
  "cached t a \<Longrightarrow> cached t b \<Longrightarrow> iNode (node_at t a) = iNode (node_at t b) \<Longrightarrow> a = b"
  by (simp add: cached_def)

lemma released_none: "hash_inv t \<Longrightarrow> released t [] SQLITE_OK t"
  by (simp add: released_def going_def dirty_rows_def)

text \<open>The node keeps another reference.\<close>

lemma released_kept:
  assumes "hash_inv t" "heap t a \<noteq> None" "nRef (node_at t a) \<noteq> 1"
  shows "released t (a # ps) SQLITE_OK (upd_node (\<lambda>n. n\<lparr>nRef := nRef n - 1\<rparr>) a t)"
proof -
  have "same_table t (upd_node (\<lambda>n. n\<lparr>nRef := nRef n - 1\<rparr>) a t)"
    by (intro same_table_upd assms(1,2)) auto
  with assms(2,3) show ?thesis
    by (auto simp: released_def going_def dirty_rows_def same_table_def) (simp_all add: upd_node_def node_at_def)
qed

text \<open>The node goes, after the nodes above it that go have gone.\<close>

lemma released_step:
  assumes inv: "hash_inv t" and path: "\<forall>b\<in>set (a # ps). cached t b" "distinct (a # ps)" "nRef (node_at t a) = 1"
  defines "t1 \<equiv> upd_node (\<lambda>n. n\<lparr>nRef := nRef n - 1\<rparr>) a t"
  defines "t2 \<equiv> (if iNode (node_at t a) = 1 then t1\<lparr>iDepth := -1\<rparr> else t1)"
  assumes above: "released t2 ps rc1 t3"
    and wr: "(rc, t4) = (if rc1 = SQLITE_OK then nodeWrite a t3 else (rc1, t3))"
  shows "released t (a # ps) rc (sqlite3_free (Some a) (nodeHashDelete a t4))" (is "released _ _ _ ?u")
proof -
  let ?n = "node_at t a"
  have ha: "heap t a = Some ?n" and pos: "0 < sint (iNode ?n)" and found: "nodeHashLookup t (iNode ?n) = Some a"
    using path(1) by (auto simp: cached_def node_at_def)
  have h2: "heap t2 = (heap t)(a \<mapsto> ?n\<lparr>nRef := 0\<rparr>)" using path(3) by (auto simp: t2_def t1_def upd_node_def)
  have e2: "nodeTab t2 = nodeTab t" "sqlRc t2 = sqlRc t" "iDepth t2 = (if iNode ?n = 1 then -1 else iDepth t)"
    by (auto simp: t2_def t1_def upd_node_def)
  have o2: "only_cache t t2" using h2 by (auto simp: only_cache_def t2_def t1_def upd_node_def)
  have n2: "node_at t2 b = node_at t b" if "b \<in> set ps" for b using that path(2) h2 by (auto simp: node_at_def)
  have g2: "going t2 ps = going t ps" unfolding going_def using n2 by (intro takeWhile_cong) auto
  have f2: "List.find (\<lambda>b. nRef (node_at t2 b) \<noteq> 1) ps = List.find (\<lambda>b. nRef (node_at t b) \<noteq> 1) ps"
    using n2 by (intro find_cong) auto
  have sub: "set (going t ps) \<subseteq> set ps" unfolding going_def by (meson set_takeWhileD subsetI)
  have g: "going t (a # ps) = a # going t ps" using path(3) by (simp add: going_def)
  have f: "List.find (\<lambda>b. nRef (node_at t b) \<noteq> 1) (a # ps) = List.find (\<lambda>b. nRef (node_at t b) \<noteq> 1) ps"
    using path(3) by simp
  have s1: "same_table t t1" unfolding t1_def using ha by (intro same_table_upd inv) auto
  then have s2: "same_table t t2"
    by (intro same_table_trans [OF s1] same_table_fields same_table_inv [OF s1]) (auto simp: t2_def)
  have nf: "Some a \<noteq> List.find (\<lambda>b. nRef (node_at t b) \<noteq> 1) ps"
    using path(2) by (metis distinct.simps(2) find_Some_iff nth_mem)
  have A: "hash_inv t3" "only_cache t2 t3" "iDepth t3 = (if \<exists>b\<in>set (going t ps). iNode (node_at t b) = 1 then -1 else iDepth t2)"
    "(rc1, sqlRc t3, map_of (nodeTab t3)) = save_rows (dirty_rows t (rev (going t ps))) (sqlRc t) (map_of (nodeTab t))"
    "\<And>j. 0 < sint j \<Longrightarrow> nodeHashLookup t3 j =
       (if \<exists>b\<in>set (going t ps). iNode (node_at t b) = j then None else nodeHashLookup t j)"
    "\<And>b. map_option no_link (heap t3 b) = (if b \<in> set (going t ps) then None
       else if Some b = List.find (\<lambda>b. nRef (node_at t b) \<noteq> 1) ps
         then map_option (\<lambda>n. no_link (n\<lparr>nRef := nRef n - 1\<rparr>)) (heap t2 b)
       else map_option no_link (heap t2 b))"
    using above s2 n2 sub dirty_rows_cong [of "rev (going t ps)" t2 t]
    by (auto simp: released_def g2 f2 e2 same_table_def subset_iff)
  have "a \<notin> set (going t ps)" using sub path(2) by auto
  with nf have "map_option no_link (heap t3 a) = Some (no_link (?n\<lparr>nRef := 0\<rparr>))" by (simp add: A(6) h2)
  then obtain n3 where h3: "heap t3 a = Some n3" and n3: "no_link n3 = no_link (?n\<lparr>nRef := 0\<rparr>)" by auto
  note F = no_link_fields [OF n3, simplified]
  have i0: "iNode n3 \<noteq> 0" using pos F(2) by auto
  have diff: "iNode (node_at t b) \<noteq> iNode ?n" if "b \<in> set ps" for b
    using that path(1,2) cached_unique [of t a b] by auto
  have l3: "nodeHashLookup t3 (iNode ?n) = Some a" using A(5) [OF pos] sub diff found by auto
  have W: "same_table t3 t4" "\<And>b. b \<noteq> a \<Longrightarrow> heap t4 b = heap t3 b" "iDepth t4 = iDepth t3" "only_cache t3 t4"
    "(rc, sqlRc t4, map_of (nodeTab t4)) = (if rc1 = SQLITE_OK
       then save_rows (if isDirty ?n then [(iNode ?n, zData ?n)] else []) (sqlRc t3) (map_of (nodeTab t3))
       else (rc1, sqlRc t3, map_of (nodeTab t3)))"
  proof -
    have "same_table t3 t4 \<and> (\<forall>b. b \<noteq> a \<longrightarrow> heap t4 b = heap t3 b) \<and> iDepth t4 = iDepth t3 \<and> only_cache t3 t4 \<and>
      (rc, sqlRc t4, map_of (nodeTab t4)) = (if rc1 = SQLITE_OK
       then save_rows (if isDirty ?n then [(iNode ?n, zData ?n)] else []) (sqlRc t3) (map_of (nodeTab t3))
       else (rc1, sqlRc t3, map_of (nodeTab t3)))"
    proof (cases "rc1 = SQLITE_OK")
      case True
      then have "nodeWrite a t3 = (rc, t4)" using wr by simp
      note N = nodeWrite_numbered [OF A(1) h3 i0 this]
      show ?thesis using N(1,3,4,5) True F by (simp add: N(2))
    qed (use wr A(1) in auto)
    then show "same_table t3 t4" "\<And>b. b \<noteq> a \<Longrightarrow> heap t4 b = heap t3 b" "iDepth t4 = iDepth t3" "only_cache t3 t4"
      "(rc, sqlRc t4, map_of (nodeTab t4)) = (if rc1 = SQLITE_OK
       then save_rows (if isDirty ?n then [(iNode ?n, zData ?n)] else []) (sqlRc t3) (map_of (nodeTab t3))
       else (rc1, sqlRc t3, map_of (nodeTab t3)))" by auto
  qed
  note i4 = same_table_inv [OF W(1)]
  have l4: "nodeHashLookup t4 (iNode ?n) = Some a" using W(1) l3 pos by (simp add: same_table_def)
  have h4: "hashed t4 a" using l4 nodeHashLookup_Some [OF i4 pos] by simp
  note D = nh.delete_inv [OF i4 pos l4] nh.lookup_delete [OF i4 pos l4]
  have fr: "same_table (nodeHashDelete a t4) ?u"
    using not_hashed_delete [OF i4 h4] by (intro same_table_free D(1)) auto
  have tab: "nodeTab ?u = nodeTab t4" "sqlRc ?u = sqlRc t4" "iDepth ?u = iDepth t4"
    by (simp_all add: sqlite3_free_def)
  have "only_cache t ?u"
    using only_cache_trans [OF only_cache_trans [OF only_cache_trans [OF o2 A(2)] W(4)]
        only_cache_trans [OF only_cache_delete only_cache_free]] .
  moreover have "map_option no_link (heap ?u b) = (if b = a then None else map_option no_link (heap t3 b))" for b
    using no_link_delete [OF i4 h4, of b] W(2) by (simp add: sqlite3_free_def)
  then have "map_option no_link (heap ?u b) = (if b \<in> set (going t (a # ps)) then None
     else if Some b = List.find (\<lambda>b. nRef (node_at t b) \<noteq> 1) (a # ps)
       then map_option (\<lambda>n. no_link (n\<lparr>nRef := nRef n - 1\<rparr>)) (heap t b)
     else map_option no_link (heap t b))" for b
    unfolding g f by (simp add: A(6) h2)
  moreover have "nodeHashLookup ?u j =
      (if \<exists>b\<in>set (going t (a # ps)). iNode (node_at t b) = j then None else nodeHashLookup t j)" if "0 < sint j" for j
    using fr D(2) [OF that] W(1) A(5) [OF that] that unfolding g by (auto simp: same_table_def)
  moreover have "(rc, sqlRc ?u, map_of (nodeTab ?u)) =
      save_rows (dirty_rows t (rev (going t (a # ps)))) (sqlRc t) (map_of (nodeTab t))"
    using W(5) A(4) unfolding g tab by (auto simp: dirty_rows_def save_rows_append split: prod.split)
  ultimately show ?thesis
    using fr W(3) A(3) e2 unfolding released_def g by (simp add: same_table_def tab)
qed

lemma released_run:
  assumes "hash_inv t" "ancestry t a ps" "\<forall>b\<in>set (a # ps). cached t b" "length ps < k"
    and "nodeRelease_rec k (Some a) t = (rc, u)"
    and above: "\<And>k' t2 rc1 t3. k = Suc k' \<Longrightarrow>
      nodeRelease_rec k' (case ps of [] \<Rightarrow> None | b # _ \<Rightarrow> Some b) t2 = (rc1, t3) \<Longrightarrow> same_table t t2 \<Longrightarrow>
      (\<And>c. c \<in> set ps \<Longrightarrow> heap t2 c = heap t c) \<Longrightarrow> released t2 ps rc1 t3"
  shows "released t (a # ps) rc u"
proof -
  obtain k' where k: "k = Suc k'" using assms(4) by (cases k) auto
  let ?n = "node_at t a"
  have ha: "heap t a = Some ?n" using assms(3) by (auto simp: cached_def node_at_def)
  define t1 where "t1 = upd_node (\<lambda>n. n\<lparr>nRef := nRef n - 1\<rparr>) a t"
  define t2 where "t2 = (if iNode ?n = 1 then t1\<lparr>iDepth := -1\<rparr> else t1)"
  have n1: "node_at t1 a = ?n\<lparr>nRef := nRef ?n - 1\<rparr>" "node_at t2 a = ?n\<lparr>nRef := nRef ?n - 1\<rparr>"
    by (simp_all add: t1_def t2_def upd_node_def node_at_def)
  have par: "pParent ?n = (case ps of [] \<Rightarrow> None | b # _ \<Rightarrow> Some b)" using assms(2) by (cases ps) auto
  show ?thesis
  proof (cases "nRef ?n = 1")
    case False
    then have "(rc, u) = (SQLITE_OK, t1)" using assms(5) n1 by (simp add: k t1_def [symmetric] Let_def)
    then show ?thesis using released_kept [OF assms(1) _ False] ha by (simp add: t1_def)
  next
    case True
    obtain rc1 t3 where p: "nodeRelease_rec k' (pParent ?n) t2 = (rc1, t3)" by (metis prod.exhaust)
    obtain rc4 t4 where w: "(if rc1 = SQLITE_OK then nodeWrite a t3 else (rc1, t3)) = (rc4, t4)"
      by (metis prod.exhaust)
    have s1: "same_table t t1" unfolding t1_def using ha by (intro same_table_upd assms(1)) auto
    then have s2: "same_table t t2"
      by (intro same_table_trans [OF s1] same_table_fields same_table_inv [OF s1]) (auto simp: t2_def)
    have d: "distinct (a # ps)" by (rule ancestry_distinct [OF assms(2)])
    have "heap t2 c = heap t c" if "c \<in> set ps" for c
      using that d by (auto simp: t2_def t1_def upd_node_def)
    then have "released t2 ps rc1 t3" using above [OF k _ s2] p par by simp
    note R = released_step [OF assms(1,3) d True, folded t1_def, folded t2_def, OF this w [symmetric]]
    have "pParent (node_at t2 a) = pParent ?n" by (simp add: n1)
    moreover have "(if pParent ?n \<noteq> None then nodeRelease_rec k' (pParent ?n) t2 else (SQLITE_OK, t2)) = (rc1, t3)"
      using p by (cases "pParent ?n") auto
    ultimately have "(rc, u) = (rc4, sqlite3_free (Some a) (nodeHashDelete a t4))"
      using assms(5) True n1(1) w by (simp add: k t1_def [symmetric] t2_def [symmetric] Let_def split: if_splits)
    with R show ?thesis by simp
  qed
qed

lemma released_rec:
  assumes "hash_inv t" "ancestry t a ps" "\<forall>b\<in>set (a # ps). cached t b" "length ps < k"
    and "nodeRelease_rec k (Some a) t = (rc, u)"
  shows "released t (a # ps) rc u"
  using assms
proof (induction ps arbitrary: a k t rc u)
  case (Nil a k t rc u)
  show ?case
  proof (rule released_run [OF Nil], goal_cases)
    case (1 k' t2 rc1 t3)
    then have "rc1 = SQLITE_OK" "t3 = t2" "hash_inv t2" using same_table_inv by auto
    then show ?case using released_none by simp
  qed
next
  case (Cons b qs a k t rc u)
  show ?case
  proof (rule released_run [OF Cons.prems], goal_cases)
    case (1 k' t2 rc1 t3)
    then have k: "k = Suc k'" and r: "nodeRelease_rec k' (Some b) t2 = (rc1, t3)" and s: "same_table t t2"
      and n: "\<And>c. c \<in> set (b # qs) \<Longrightarrow> heap t2 c = heap t c" by auto
    have e: "node_at t2 c = node_at t c" if "c \<in> set (b # qs)" for c using n [OF that] by (simp add: node_at_def)
    have "\<forall>c\<in>set (b # qs). cached t2 c"
      using Cons.prems(3) e n s by (auto simp: cached_def same_table_def)
    moreover have "ancestry t2 b qs" using Cons.prems(2) e ancestry_cong [of b qs t2 t] by auto
    ultimately show ?case
      using Cons.IH [OF same_table_inv [OF s] _ _ _ r] Cons.prems(4) k by simp
  qed
qed

section \<open>Properties\<close>

text \<open>C16: The hash table of nodes is a map from node numbers to addresses: under its invariant
  an inserted node is found under its number and nothing else changes; any node that is found can be
  deleted, is then no longer found, and every other lookup is as before; and deleting an inserted node
  restores every lookup. The invariant is kept throughout.\<close>

theorem node_hash_is_map:
  assumes "hash_inv t" "carries_number t a i" "nodeHashLookup t i = None" "0 < sint j"
  shows "hash_inv (nodeHashInsert a t) \<and>
    nodeHashLookup (nodeHashInsert a t) j = (if j = i then Some a else nodeHashLookup t j) \<and>
    hash_inv (nodeHashDelete a (nodeHashInsert a t)) \<and>
    nodeHashLookup (nodeHashDelete a (nodeHashInsert a t)) j = nodeHashLookup t j \<and>
    (\<forall>k b. 0 < sint k \<and> nodeHashLookup t k = Some b \<longrightarrow> hash_inv (nodeHashDelete b t) \<and>
       nodeHashLookup (nodeHashDelete b t) j = (if j = k then None else nodeHashLookup t j))"
proof -
  have "hash_inv (nodeHashDelete b t) \<and>
      nodeHashLookup (nodeHashDelete b t) j = (if j = k then None else nodeHashLookup t j)"
    if "0 < sint k \<and> nodeHashLookup t k = Some b" for k b
    using that nh.delete_inv [of t k b] nh.lookup_delete [of t k b j] assms(1,4) by simp
  then show ?thesis using assms nh.insert_inv nh.lookup_insert nh.delete_insert by simp
qed

text \<open>C6: Acquiring a node keeps the cache a map and the tables unchanged. It succeeds exactly when the
  node is cached, or the statement succeeds, the row has the size of a node, memory suffices and the
  depth and the cell count are possible; the result code is otherwise that of the statement, of the lack of
  memory or of corruption. On success the returned node has the number asked for, is the cached one
  with one more reference if it was cached (and adopts the parent if it had none), and is otherwise well
  formed with the bytes of its row; on failure every lookup is as before.\<close>

theorem nodeAcquire_correct:
  assumes "hash_inv t" "valid_ptr t par" "0 < sint i" "par = None \<or> par \<noteq> nodeHashLookup t i"
    and "nodeAcquire i par t = (rc, p, u)"
  shows "acquired t i par rc p u"
proof (cases "nodeHashLookup t i")
  case None
  then show ?thesis using nodeAcquire_miss [OF assms(1-3)] assms(5) by simp
next
  case (Some a)
  then have "par \<noteq> Some a" using assms(4) by auto
  with Some show ?thesis using nodeAcquire_hit [OF assms(1-3) Some] assms(5) by simp
qed

text \<open>C15: No change to a node is lost. When a reference to a cached node goes, whose ancestors are
  cached too, and it is the last one, the node gives up its reference to its parent, which may have been the
  last one in turn, and so on upwards. The nodes that go leave the cache and memory; their dirty pages
  become their rows, those of the upper nodes first, up to the first statement that fails, whose error is
  reported. The first ancestor with another reference loses one; all other nodes, lookups, tables and
  fields stay as they are; forgetting the root forgets the depth of the tree.\<close>

theorem nodeRelease_writes_back:
  assumes "hash_inv t" "ancestry t a ps" "\<forall>b\<in>set (a # ps). cached t b" "nodeRelease (Some a) t = (rc, u)"
  shows "released t (a # ps) rc u"
proof -
  have "set (a # ps) \<subseteq> {..<nextAddr t}"
    using assms(1,3) heap_bound by (auto simp: cached_def)
  then have "length (a # ps) \<le> nextAddr t"
    using distinct_card [OF ancestry_distinct [OF assms(2)]] card_mono [of "{..<nextAddr t}" "set (a # ps)"] by simp
  then show ?thesis
    using released_rec [OF assms(1-3), of "nextAddr t"] assms(4) by (simp add: nodeRelease_def)
qed

text \<open>A table with one cached node, for the witnesses.\<close>

definition sample_cached :: Rtree where
  "sample_cached = (sample_rtree RTREE_COORD_INT32)\<lparr>heap := [0 \<mapsto> sample_node\<lparr>isDirty := True\<rparr>], nextAddr := 1\<rparr>"

lemma hash_inv_empty: "aHash t = replicate HASHSIZE None \<Longrightarrow> (\<And>a. heap t a \<noteq> None \<Longrightarrow> a < nextAddr t) \<Longrightarrow> hash_inv t"
  unfolding hash_inv_def by (auto simp: wf_bucket_def intro!: exI [of _ "[]"])

lemma sample_cached_inv:
  "hash_inv (sample_rtree et)" "hash_inv sample_cached" "carries_number sample_cached 0 1"
  "nodeHashLookup sample_cached 1 = None"
proof -
  show "hash_inv (sample_rtree et)" "hash_inv sample_cached"
    by (auto intro!: hash_inv_empty simp: sample_cached_def sample_rtree_def split: if_splits)
  show "carries_number sample_cached 0 1" by (simp add: carries_number_def sample_cached_def sample_node_def)
  have "nodeHash 1 = 1" by (simp add: nodeHash_def signed_modulo_int_def sdiv_nonneg)
  then show "nodeHashLookup sample_cached 1 = None"
    by (simp add: nodeHashLookup_def sample_cached_def sample_rtree_def)
qed

theorem node_hash_is_map_witness:
  "nodeHashLookup (nodeHashInsert 0 sample_cached) 1 = Some 0 \<and>
   nodeHashLookup (nodeHashDelete 0 (nodeHashInsert 0 sample_cached)) 1 = None"
  using node_hash_is_map [OF sample_cached_inv(2-4), of 1] sample_cached_inv(4) by simp

theorem nodeAcquire_correct_witness:
  "(let (rc, p, u) = nodeAcquire 1 None (sample_rtree RTREE_COORD_INT32)
    in acquired (sample_rtree RTREE_COORD_INT32) 1 None rc p u \<and> rc = SQLITE_OK)"
proof -
  let ?t = "sample_rtree RTREE_COORD_INT32"
  obtain rc p u where r: "nodeAcquire 1 None ?t = (rc, p, u)" by (cases "nodeAcquire 1 None ?t")
  have a: "acquired ?t 1 None rc p u"
    using nodeAcquire_correct [OF sample_cached_inv(1) _ _ _ r] by (simp add: valid_ptr_def)
  have "nodeHash 1 = 1" by (simp add: nodeHash_def signed_modulo_int_def sdiv_nonneg)
  then have "acquire_code ?t 1 = SQLITE_OK"
    by (simp add: acquire_code_def nodeHashLookup_def sample_rtree_def step_stmt_def sqlite3_malloc_def
        readInt16_def nMaxCell_def sdiv_nonneg)
  moreover have "rc = acquire_code ?t 1" using a by (simp add: acquired_def)
  ultimately show ?thesis using a r by simp
qed

text \<open>A dirty leaf below a dirty root, both with one reference: releasing the leaf writes both rows.\<close>

definition sample_branch :: Rtree where
  "sample_branch = nodeHashInsert 1 (nodeHashInsert 0 ((sample_rtree RTREE_COORD_INT32)\<lparr>nextAddr := 2,
     heap := [0 \<mapsto> sample_node\<lparr>isDirty := True\<rparr>,
              1 \<mapsto> sample_node\<lparr>isDirty := True, iNode := 2, pParent := Some 0\<rparr>]\<rparr>))"

lemma hash_chain_None: "hash_chain k t None i = None"
  by (cases k) auto

lemma sample_branch_inv: "hash_inv sample_branch" "ancestry sample_branch 1 [0]" "\<forall>a\<in>set [1, 0]. cached sample_branch a"
proof -
  define t0 where "t0 = (sample_rtree RTREE_COORD_INT32)\<lparr>nextAddr := 2,
     heap := [0 \<mapsto> sample_node\<lparr>isDirty := True\<rparr>, 1 \<mapsto> sample_node\<lparr>isDirty := True, iNode := 2, pParent := Some 0\<rparr>]\<rparr>"
  have h: "nodeHash 1 = 1" "nodeHash 2 = 2" by (simp_all add: nodeHash_def signed_modulo_int_def sdiv_nonneg)
  have i0: "hash_inv t0"
    by (auto intro!: hash_inv_empty simp: t0_def sample_rtree_def split: if_splits)
  have c0: "carries_number t0 0 1" "nodeHashLookup t0 1 = None" "nodeHashLookup t0 2 = None"
    by (simp_all add: carries_number_def t0_def sample_node_def nodeHashLookup_def sample_rtree_def h hash_chain_None)
  define t1 where "t1 = nodeHashInsert 0 t0"
  note I1 = nh.insert_inv [OF i0 c0(1,2)] nh.lookup_insert [OF i0 c0(1,2)]
  have c1: "carries_number t1 1 2" "nodeHashLookup t1 2 = None"
    using I1(2) [of 2] c0(3)
    by (simp_all add: carries_number_def t1_def t0_def nodeHashInsert_def Let_def upd_node_def sample_node_def)
  note I2 = nh.insert_inv [OF I1(1) [folded t1_def] c1] nh.lookup_insert [OF I1(1) [folded t1_def] c1]
  have b: "sample_branch = nodeHashInsert 1 t1" by (simp add: sample_branch_def t0_def t1_def)
  show "hash_inv sample_branch" unfolding b by (rule I2(1))
  have n: "iNode (node_at sample_branch 0) = 1" "iNode (node_at sample_branch 1) = 2"
    "pParent (node_at sample_branch 0) = None" "pParent (node_at sample_branch 1) = Some 0"
    "heap sample_branch 0 \<noteq> None" "heap sample_branch 1 \<noteq> None"
    by (simp_all add: b t1_def t0_def nodeHashInsert_def Let_def upd_node_def node_at_def sample_node_def)
  show "ancestry sample_branch 1 [0]" using n by simp
  have "nodeHashLookup sample_branch 1 = Some 0" "nodeHashLookup sample_branch 2 = Some 1"
    using I2(2) [of 1] I2(2) [of 2] I1(2) [of 1] by (simp_all add: b t1_def)
  with n show "\<forall>a\<in>set [1, 0]. cached sample_branch a" by (simp add: cached_def del: not_None_eq)
qed

theorem nodeRelease_writes_back_witness:
  "(let (rc, u) = nodeRelease (Some 1) sample_branch
    in released sample_branch [1, 0] rc u \<and> going sample_branch [1, 0] = [1, 0])"
proof -
  have "nRef (node_at sample_branch 0) = 1" "nRef (node_at sample_branch 1) = 1"
    by (simp_all add: sample_branch_def nodeHashInsert_def Let_def upd_node_def node_at_def sample_node_def)
  then have "going sample_branch [1, 0] = [1, 0]" by (simp add: going_def)
  moreover obtain rc u where "nodeRelease (Some 1) sample_branch = (rc, u)" by (metis prod.exhaust)
  ultimately show ?thesis
    using nodeRelease_writes_back [OF sample_branch_inv] by simp
qed

text \<open>The bucket index of a node number stays inside the hash table exactly for the numbers that
  are not negative and the negative multiples of its size; for every other negative number, which
  only a corrupt table can hold, the index is negative.\<close>

theorem nodeHash_in_bounds_iff:
  "0 \<le> nodeHash i \<and> nodeHash i < int HASHSIZE \<longleftrightarrow> 0 \<le> sint i \<or> int HASHSIZE dvd sint i"
proof (cases "0 \<le> sint i")
  case True
  then show ?thesis by (simp add: nodeHash_nonneg)
next
  case False
  then have "nodeHash i = - ((- sint i) mod 97)"
    by (simp add: nodeHash_def signed_modulo_int_def signed_divide_int_def sgn_if minus_div_mult_eq_mod [symmetric])
  moreover have "0 \<le> (- sint i) mod 97" by simp
  ultimately have "0 \<le> nodeHash i \<and> nodeHash i < int HASHSIZE \<longleftrightarrow> (- sint i) mod 97 = 0" by auto
  with False show ?thesis by (simp add: dvd_eq_mod_eq_0 [symmetric])
qed

text \<open>When the row of a child is corrupt (its cell count exceeds the page), \<open>nodeAcquire\<close> frees the
  child and reports the corruption, but the reference the child took on its parent stays.\<close>

theorem nodeAcquire_corrupt_leaks_parent:
  assumes "nodeHashLookup t i = None" "i \<noteq> 1" "sqlRc t = []" "mallocFails t = []"
    and "map_of (nodeTab t) i = Some z" "int (length z) = iNodeSize t" "readInt16 (drop 2 z) > nMaxCell t"
    and "heap t b = Some m" "b < nextAddr t"
  shows "(let (rc, p, u) = nodeAcquire i (Some b) t
    in rc = SQLITE_CORRUPT_VTAB \<and> p = None \<and> nRef (node_at u b) = nRef (node_at t b) + 1)"
  using assms
  by (simp add: nodeAcquire_def read_node_def step_stmt_def sqlite3_malloc_def alloc_node_def nodeReference_def
      upd_node_def node_at_def NCELL_def nMaxCell_def sqlite3_free_def Let_def)

theorem nodeAcquire_corrupt_leaks_parent_witness:
  "(let t = sample_cached\<lparr>nodeTab := [(2, [0, 0, 9, 9] @ replicate 48 0)]\<rparr>; (rc, p, u) = nodeAcquire 2 (Some 0) t
    in rc = SQLITE_CORRUPT_VTAB \<and> nRef (node_at u 0) = 2)"
proof -
  let ?t = "sample_cached\<lparr>nodeTab := [(2, [0, 0, 9, 9] @ replicate 48 0)]\<rparr>"
  have "nodeHash 2 = 2" by (simp add: nodeHash_def signed_modulo_int_def sdiv_nonneg)
  then have l: "nodeHashLookup ?t 2 = None" by (simp add: nodeHashLookup_def sample_cached_def sample_rtree_def)
  have z: "readInt16 (drop 2 ([0, 0, 9, 9] @ replicate 48 0)) > nMaxCell ?t"
    by (simp add: readInt16_def nMaxCell_def sample_cached_def sample_rtree_def sdiv_nonneg)
  show ?thesis
    using nodeAcquire_corrupt_leaks_parent [OF l _ _ _ _ _ z, of 0 "sample_node\<lparr>isDirty := True\<rparr>"]
    by (simp add: sample_cached_def sample_rtree_def node_at_def sample_node_def case_prod_beta)
qed

end
