(* ===== verification/Rtree_Queue.thy ===== *)
theory Rtree_Queue
  imports Rtree_Query Rtree_Store
begin

text \<open>
  The priority queue of search points of an r-tree cursor: the binary heap \<open>aPoint\<close> with the
  point of least score cached in \<open>sPoint\<close> before it, the parallel cache \<open>aNode\<close> of nodes,
  and the counters \<open>anQueue\<close> by level. The sifting loops are shown equal to the textbook
  operations on an array heap, whose laws are proved in a locale for any order; the cursor
  operations then form a priority queue over the multiset of points.
\<close>

section \<open>The cursor\<close>

record RtreeCursor =
  atEOF :: bool
  bPoint :: bool
  iStrategy :: int
  aConstraint :: "RtreeConstraint list"
  nPointAlloc :: nat
  aPoint :: "RtreeSearchPoint list"
  sPoint :: RtreeSearchPoint
  aNode :: "nptr list"
  anQueue :: "u32 list"

definition rtreeSearchPointCompare :: "RtreeSearchPoint \<Rightarrow> RtreeSearchPoint \<Rightarrow> int" where
  "rtreeSearchPointCompare a b =
     (if flt (rScore a) (rScore b) then -1
      else if flt (rScore b) (rScore a) then 1
      else if iLevel a < iLevel b then -1
      else if iLevel b < iLevel a then 1
      else 0)"

text \<open>A release whose result code the code discards.\<close>

definition release :: "nptr \<Rightarrow> Rtree \<Rightarrow> Rtree" where
  "release p t = snd (nodeRelease p t)"

definition swap :: "'a list \<Rightarrow> nat \<Rightarrow> nat \<Rightarrow> 'a list" where
  "swap xs i j = xs[i := xs ! j, j := xs ! i]"

definition rtreeSearchPointSwap :: "nat \<Rightarrow> nat \<Rightarrow> RtreeCursor \<times> Rtree \<Rightarrow> RtreeCursor \<times> Rtree" where
  "rtreeSearchPointSwap i j = (\<lambda>(p, t).
     let p = p\<lparr>aPoint := swap (aPoint p) i j\<rparr>; i = i + 1; j = j + 1
     in if i < RTREE_CACHE_SZ then
          if j \<ge> RTREE_CACHE_SZ then (p\<lparr>aNode := (aNode p)[i := None]\<rparr>, release (aNode p ! i) t)
          else (p\<lparr>aNode := swap (aNode p) i j\<rparr>, t)
        else (p, t))"

definition rtreeSearchPointFirst :: "RtreeCursor \<Rightarrow> RtreeSearchPoint option" where
  "rtreeSearchPointFirst p =
     (if bPoint p then Some (sPoint p) else if aPoint p \<noteq> [] then Some (aPoint p ! 0) else None)"

definition rtreeNodeOfFirstSearchPoint ::
  "int \<Rightarrow> RtreeCursor \<times> Rtree \<Rightarrow> int \<times> nptr \<times> RtreeCursor \<times> Rtree" where
  "rtreeNodeOfFirstSearchPoint rc = (\<lambda>(p, t).
     let ii = (if bPoint p then 0 else 1)
     in case aNode p ! ii of
          None \<Rightarrow>
            let (rc, n, t) = nodeAcquire (if bPoint p then sp_id (sPoint p) else sp_id (aPoint p ! 0)) None t
            in (rc, n, p\<lparr>aNode := (aNode p)[ii := n]\<rparr>, t)
        | Some a \<Rightarrow> (rc, Some a, p, t))"

section \<open>Pushing\<close>

text \<open>The loop of \<open>rtreeEnqueue\<close>; it returns the index the new point ends at.\<close>

function enqueue_loop :: "nat \<Rightarrow> RtreeCursor \<times> Rtree \<Rightarrow> nat \<times> RtreeCursor \<times> Rtree" where
  "enqueue_loop i s =
     (if 0 < i then
        let j = (i - 1) div 2
        in if rtreeSearchPointCompare (aPoint (fst s) ! i) (aPoint (fst s) ! j) \<ge> 0 then (i, s)
           else enqueue_loop j (rtreeSearchPointSwap j i s)
      else (i, s))"
  by pat_completeness auto
termination
  by (relation "measure (\<lambda>(i, s). i)") auto

declare enqueue_loop.simps [simp del]

text \<open>
  The fields of the new point other than its key are whatever the memory held; every caller
  sets them next. They are zero here.
\<close>

definition new_point :: "fp \<Rightarrow> u8 \<Rightarrow> RtreeSearchPoint" where
  "new_point score level = \<lparr>rScore = score, sp_id = 0, iLevel = level, eWithin = 0, iCell = 0\<rparr>"

definition rtreeEnqueue ::
  "fp \<Rightarrow> u8 \<Rightarrow> RtreeCursor \<times> Rtree \<Rightarrow> nat option \<times> RtreeCursor \<times> Rtree" where
  "rtreeEnqueue score level = (\<lambda>(p, t).
     let (ok, p, t) =
           (if length (aPoint p) \<ge> nPointAlloc p then
              let (ok, t) = sqlite3_malloc t
              in (ok, if ok then p\<lparr>nPointAlloc := nPointAlloc p * 2 + 8\<rparr> else p, t)
            else (True, p, t))
     in if \<not> ok then (None, p, t)
        else let (i, s) = enqueue_loop (length (aPoint p)) (p\<lparr>aPoint := aPoint p @ [new_point score level]\<rparr>, t)
             in (Some i, s))"

text \<open>Where a search point lives: in \<open>sPoint\<close> or at an index of \<open>aPoint\<close>.\<close>

datatype point_loc = SPoint | APoint nat

definition get_point :: "point_loc \<Rightarrow> RtreeCursor \<Rightarrow> RtreeSearchPoint" where
  "get_point l p = (case l of SPoint \<Rightarrow> sPoint p | APoint i \<Rightarrow> aPoint p ! i)"

definition upd_point :: "(RtreeSearchPoint \<Rightarrow> RtreeSearchPoint) \<Rightarrow> point_loc \<Rightarrow> RtreeCursor \<Rightarrow> RtreeCursor" where
  "upd_point f l p =
     (case l of SPoint \<Rightarrow> p\<lparr>sPoint := f (sPoint p)\<rparr> | APoint i \<Rightarrow> p\<lparr>aPoint := (aPoint p)[i := f (aPoint p ! i)]\<rparr>)"

definition rtreeSearchPointNew ::
  "fp \<Rightarrow> u8 \<Rightarrow> RtreeCursor \<times> Rtree \<Rightarrow> point_loc option \<times> RtreeCursor \<times> Rtree" where
  "rtreeSearchPointNew score level = (\<lambda>(p, t).
     let first = rtreeSearchPointFirst p;
         p = p\<lparr>anQueue := (anQueue p)[unat level := anQueue p ! unat level + 1]\<rparr>
     in if (case first of
              None \<Rightarrow> True
            | Some f \<Rightarrow> flt score (rScore f) \<or> (feq (rScore f) score \<and> level < iLevel f))
        then
          let (ok, p, t) =
                (if bPoint p then
                   case rtreeEnqueue score level (p, t) of
                     (None, p, t) \<Rightarrow> (False, p, t)
                   | (Some i, p, t) \<Rightarrow>
                       let ii = i + 1;
                           (p, t) = (if ii < RTREE_CACHE_SZ then (p\<lparr>aNode := (aNode p)[ii := aNode p ! 0]\<rparr>, t)
                                     else (p, release (aNode p ! 0) t));
                           p = p\<lparr>aNode := (aNode p)[0 := None], aPoint := (aPoint p)[i := sPoint p]\<rparr>
                       in (True, p, t)
                 else (True, p, t))
          in if \<not> ok then (None, p, t)
             else (Some SPoint,
                   p\<lparr>sPoint := (sPoint p)\<lparr>rScore := score, iLevel := level\<rparr>, bPoint := True\<rparr>, t)
        else
          let (i, s) = rtreeEnqueue score level (p, t) in (map_option APoint i, s))"

section \<open>Popping\<close>

text \<open>The sift-down loop of \<open>rtreeSearchPointPop\<close>; \<open>n\<close> is the number of points.\<close>

function pop_loop :: "nat \<Rightarrow> nat \<Rightarrow> RtreeCursor \<times> Rtree \<Rightarrow> RtreeCursor \<times> Rtree" where
  "pop_loop n i s =
     (let j = i * 2 + 1; k = j + 1; a = aPoint (fst s)
      in if j < n then
           if k < n \<and> rtreeSearchPointCompare (a ! k) (a ! j) < 0 then
             if rtreeSearchPointCompare (a ! k) (a ! i) < 0
             then pop_loop n k (rtreeSearchPointSwap i k s) else s
           else
             if rtreeSearchPointCompare (a ! j) (a ! i) < 0
             then pop_loop n j (rtreeSearchPointSwap i j s) else s
         else s)"
  by pat_completeness auto
termination
  by (relation "measure (\<lambda>(n, i, s). n - i)") auto

declare pop_loop.simps [simp del]

definition rtreeSearchPointPop :: "RtreeCursor \<times> Rtree \<Rightarrow> RtreeCursor \<times> Rtree" where
  "rtreeSearchPointPop = (\<lambda>(p, t).
     let i = (if bPoint p then 0 else 1);
         (p, t) = (if aNode p ! i \<noteq> None then (p\<lparr>aNode := (aNode p)[i := None]\<rparr>, release (aNode p ! i) t)
                   else (p, t))
     in if bPoint p then
          let l = unat (iLevel (sPoint p))
          in (p\<lparr>anQueue := (anQueue p)[l := anQueue p ! l - 1], bPoint := False\<rparr>, t)
        else if aPoint p \<noteq> [] then
          let l = unat (iLevel (aPoint p ! 0));
              n = length (aPoint p) - 1;
              p = p\<lparr>anQueue := (anQueue p)[l := anQueue p ! l - 1],
                    aPoint := take n ((aPoint p)[0 := aPoint p ! n])\<rparr>;
              p = (if n < RTREE_CACHE_SZ - 1
                   then p\<lparr>aNode := (aNode p)[1 := aNode p ! (n + 1), n + 1 := None]\<rparr> else p)
          in pop_loop n 0 (p, t)
        else (p, t))"

section \<open>Array heaps\<close>

lemma length_swap [simp]: "length (swap xs i j) = length xs"
  by (simp add: swap_def)

lemma nth_swap:
  "i < length xs \<Longrightarrow> j < length xs \<Longrightarrow> k < length xs \<Longrightarrow>
   swap xs i j ! k = (if k = i then xs ! j else if k = j then xs ! i else xs ! k)"
  by (auto simp: swap_def nth_list_update)

lemma mset_swap_eq [simp]: "i < length xs \<Longrightarrow> j < length xs \<Longrightarrow> mset (swap xs i j) = mset xs"
  by (simp add: swap_def mset_swap)

definition hpar :: "nat \<Rightarrow> nat" where
  "hpar i = (i - 1) div 2"

lemma hpar_less: "0 < i \<Longrightarrow> hpar i < i"
  by (auto simp: hpar_def)

lemma hpar_child: "0 < k \<Longrightarrow> hpar k = i \<longleftrightarrow> k = i * 2 + 1 \<or> k = i * 2 + 2"
  by (auto simp: hpar_def)

text \<open>
  A strict order \<open>lt\<close> on the good elements that is the strict part of a total preorder, and
  the heap property: everywhere, or except between one index and its parent or its children.
\<close>

locale key_order =
  fixes good :: "'a \<Rightarrow> bool" and lt :: "'a \<Rightarrow> 'a \<Rightarrow> bool"
  assumes lt_irrefl: "\<not> lt a a"
    and lt_asym: "lt a b \<Longrightarrow> \<not> lt b a"
    and le_trans: "good a \<Longrightarrow> good b \<Longrightarrow> good c \<Longrightarrow> \<not> lt b a \<Longrightarrow> \<not> lt c b \<Longrightarrow> \<not> lt c a"
begin

lemma fold_min:
  assumes "good m" "list_all good xs"
  shows "fold (\<lambda>x m. if lt x m then x else m) xs m \<in> set (m # xs) \<and>
    (\<forall>y \<in> set (m # xs). \<not> lt y (fold (\<lambda>x m. if lt x m then x else m) xs m))"
  using assms
proof (induction xs arbitrary: m)
  case (Cons x xs)
  let ?m = "if lt x m then x else m"
  let ?r = "fold (\<lambda>x m. if lt x m then x else m) xs ?m"
  have r: "?r \<in> set (?m # xs)" "\<And>y. y \<in> set (?m # xs) \<Longrightarrow> \<not> lt y ?r"
    using Cons.IH [of ?m] Cons.prems by auto
  have "good ?r" "good ?m" using r(1) Cons.prems by (auto simp: list_all_iff split: if_splits)
  moreover have "\<not> lt x ?m" "\<not> lt m ?m" by (auto simp: lt_irrefl lt_asym)
  ultimately have "\<not> lt x ?r" "\<not> lt m ?r"
    using le_trans [of ?r ?m] r(2) [of ?m] Cons.prems by auto
  with r show ?case by (auto split: if_splits)
qed (simp add: lt_irrefl)

end

locale array_heap = key_order
begin

definition heap_at :: "'a list \<Rightarrow> nat \<Rightarrow> bool" where
  "heap_at xs k \<longleftrightarrow> (0 < k \<and> k < length xs \<longrightarrow> \<not> lt (xs ! k) (xs ! hpar k))"

definition is_heap :: "'a list \<Rightarrow> bool" where
  "is_heap xs \<longleftrightarrow> (\<forall>k. heap_at xs k)"

text \<open>The children of \<open>i\<close> are not smaller than its parent.\<close>

definition bridge :: "'a list \<Rightarrow> nat \<Rightarrow> bool" where
  "bridge xs i \<longleftrightarrow> (\<forall>k. 0 < k \<and> k < length xs \<and> hpar k = i \<and> 0 < i \<longrightarrow> \<not> lt (xs ! k) (xs ! hpar i))"

definition heap_up :: "'a list \<Rightarrow> nat \<Rightarrow> bool" where
  "heap_up xs i \<longleftrightarrow> (\<forall>k. k \<noteq> i \<longrightarrow> heap_at xs k) \<and> bridge xs i"

definition heap_down :: "'a list \<Rightarrow> nat \<Rightarrow> bool" where
  "heap_down xs i \<longleftrightarrow> (\<forall>k. hpar k \<noteq> i \<longrightarrow> heap_at xs k) \<and> bridge xs i"

lemma heap_atD: "heap_at xs k \<Longrightarrow> 0 < k \<Longrightarrow> k < length xs \<Longrightarrow> \<not> lt (xs ! k) (xs ! hpar k)"
  by (simp add: heap_at_def)

lemma heap_min: "is_heap xs \<Longrightarrow> list_all good xs \<Longrightarrow> k < length xs \<Longrightarrow> \<not> lt (xs ! k) (xs ! 0)"
proof (induction k rule: less_induct)
  case (less k)
  show ?case
  proof (cases "k = 0")
    case False
    then have p: "hpar k < k" by (simp add: hpar_less)
    then have "\<not> lt (xs ! hpar k) (xs ! 0)" using less by simp
    moreover have "\<not> lt (xs ! k) (xs ! hpar k)" using less False by (simp add: is_heap_def heap_at_def)
    moreover have "0 < length xs" "hpar k < length xs" using less.prems(3) p by linarith+
    then have "good (xs ! k)" "good (xs ! hpar k)" "good (xs ! 0)"
      using less.prems(2,3) by (auto simp: list_all_length)
    ultimately show ?thesis by (metis le_trans)
  qed (simp add: lt_irrefl)
qed

lemma heap_up_done: "heap_up xs i \<Longrightarrow> heap_at xs i \<Longrightarrow> is_heap xs"
  unfolding heap_up_def is_heap_def by metis

text \<open>One step upwards: the exchange of \<open>i\<close> with its parent, by the position of a third index.\<close>

lemma heap_up_step:
  assumes up: "heap_up xs i" and i: "0 < i" "i < length xs" and l: "lt (xs ! i) (xs ! hpar i)"
    and good: "list_all good xs"
  shows "heap_up (swap xs (hpar i) i) (hpar i)"
proof -
  define j where "j = hpar i"
  define ys where "ys = swap xs j i"
  have j: "j < i" "j < length xs" using hpar_less [OF i(1)] i(2) by (auto simp: j_def)
  have y: "ys ! k = (if k = j then xs ! i else if k = i then xs ! j else xs ! k)" if "k < length xs" for k
    using that j i(2) by (simp add: nth_swap ys_def)
  have g: "good (xs ! k)" if "k < length xs" for k using that good by (simp add: list_all_length)
  have ok: "\<not> lt (xs ! k) (xs ! hpar k)" if "0 < k" "k < length xs" "k \<noteq> i" for k
    using up that by (simp add: heap_up_def heap_at_def)
  have br: "\<not> lt (xs ! k) (xs ! j)" if "0 < k" "k < length xs" "hpar k = i" for k
    using up that i by (simp add: heap_up_def bridge_def j_def)
  have ji: "\<not> lt (xs ! j) (xs ! i)" using l by (simp add: j_def lt_asym)
  have sib: "\<not> lt (xs ! k) (xs ! i)" if "0 < k" "k < length xs" "k \<noteq> i" "hpar k = j" for k
    using le_trans [OF g [OF i(2)] g [OF j(2)] g [OF that(2)] ji] ok that by metis
  have "heap_at ys k" if k: "k \<noteq> j" for k
  proof (cases "0 < k \<and> k < length xs")
    case True
    then have p: "hpar k < length xs" using hpar_less [of k] by simp
    show ?thesis
      using True k y [of k] y [OF p] ji br [of k] sib [of k] ok [of k] j_def
      unfolding heap_at_def by metis
  qed (auto simp: heap_at_def ys_def)
  moreover have "bridge ys j" unfolding bridge_def
  proof (intro allI impI, elim conjE)
    fix k assume k: "0 < k" "k < length ys" "hpar k = j" "0 < j"
    then have k': "k < length xs" "hpar j < j" by (auto simp: ys_def hpar_less)
    have top: "\<not> lt (xs ! j) (xs ! hpar j)" using ok [OF k(4) j(2)] j by simp
    have yj: "ys ! hpar j = xs ! hpar j" using y [of "hpar j"] k'(2) j by simp
    have "ys ! k = xs ! j \<or> ys ! k = xs ! k \<and> \<not> lt (xs ! k) (xs ! j)"
      using y [OF k'(1)] k ok [of k] k' by (metis less_irrefl hpar_less)
    then show "\<not> lt (ys ! k) (ys ! hpar j)"
      using top yj le_trans [OF g g [OF j(2)] g [OF k'(1)] top] k'(2) j(2) by auto
  qed
  ultimately show ?thesis by (simp add: heap_up_def ys_def j_def)
qed

text \<open>Downwards: a child that no child of \<open>i\<close> precedes.\<close>

definition least_child :: "'a list \<Rightarrow> nat \<Rightarrow> nat \<Rightarrow> bool" where
  "least_child xs i c \<longleftrightarrow> 0 < c \<and> c < length xs \<and> hpar c = i \<and>
     (\<forall>k. 0 < k \<and> k < length xs \<and> hpar k = i \<longrightarrow> \<not> lt (xs ! k) (xs ! c))"

lemma heap_down_leaf:
  assumes "heap_down xs i" "length xs \<le> i * 2 + 1"
  shows "is_heap xs"
proof -
  have "hpar k \<noteq> i" if "0 < k" "k < length xs" for k using that assms(2) by (auto simp: hpar_child)
  then show ?thesis using assms(1) unfolding is_heap_def heap_down_def heap_at_def by metis
qed

lemma heap_down_done:
  assumes "heap_down xs i" "least_child xs i c" "\<not> lt (xs ! c) (xs ! i)" "list_all good xs"
  shows "is_heap xs"
  unfolding is_heap_def heap_at_def
proof (intro allI impI, elim conjE)
  fix k assume k: "0 < k" "k < length xs"
  show "\<not> lt (xs ! k) (xs ! hpar k)"
  proof (cases "hpar k = i")
    case True
    have "i < length xs" using True k hpar_less [of k] by simp
    then have "good (xs ! i)" "good (xs ! c)" "good (xs ! k)"
      using k assms(2,4) by (auto simp: list_all_length least_child_def)
    moreover have "\<not> lt (xs ! k) (xs ! c)" using assms(2) k True by (simp add: least_child_def)
    ultimately show ?thesis using assms(3) True le_trans by metis
  qed (use assms(1) k in \<open>simp add: heap_down_def heap_at_def\<close>)
qed

lemma heap_down_step:
  assumes d: "heap_down xs i" and c: "least_child xs i c" and l: "lt (xs ! c) (xs ! i)"
  shows "heap_down (swap xs i c) c"
proof -
  define ys where "ys = swap xs i c"
  have i: "i < c" "c < length xs" "hpar c = i" "0 < c"
    using c hpar_less [of c] by (auto simp: least_child_def)
  have y: "ys ! k = (if k = i then xs ! c else if k = c then xs ! i else xs ! k)" if "k < length xs" for k
    using that i by (simp add: nth_swap ys_def)
  have ok: "\<not> lt (xs ! k) (xs ! hpar k)" if "0 < k" "k < length xs" "hpar k \<noteq> i" for k
    using d that by (simp add: heap_down_def heap_at_def)
  have least: "\<not> lt (xs ! k) (xs ! c)" if "0 < k" "k < length xs" "hpar k = i" for k
    using c that by (simp add: least_child_def)
  have br: "\<not> lt (xs ! c) (xs ! hpar i)" if "0 < i" using d i that by (simp add: heap_down_def bridge_def)
  have ic: "\<not> lt (xs ! i) (xs ! c)" by (rule lt_asym [OF l])
  have "heap_at ys k" if k: "hpar k \<noteq> c" for k
  proof (cases "0 < k \<and> k < length xs")
    case True
    then have p: "hpar k < length xs" "hpar k \<noteq> k" using hpar_less [of k] by auto
    show ?thesis
      using True k y [of k] y [OF p(1)] p(2) ic br ok [of k] least [of k] i(3)
      unfolding heap_at_def by metis
  qed (auto simp: heap_at_def ys_def)
  moreover have "bridge ys c" unfolding bridge_def
  proof (intro allI impI, elim conjE)
    fix k assume k: "0 < k" "k < length ys" "hpar k = c"
    then have "k < length xs" "c < k" using hpar_less [of k] by (auto simp: ys_def)
    then show "\<not> lt (ys ! k) (ys ! hpar c)"
      using y [of k] y [of i] i k ok [of k] by auto
  qed
  ultimately show ?thesis by (simp add: heap_down_def ys_def)
qed

end

section \<open>The queue of a cursor\<close>

definition good_point :: "RtreeSearchPoint \<Rightarrow> bool" where
  "good_point p \<longleftrightarrow> rScore p \<noteq> NaN"

definition point_less :: "RtreeSearchPoint \<Rightarrow> RtreeSearchPoint \<Rightarrow> bool" where
  "point_less a b \<longleftrightarrow> rtreeSearchPointCompare a b < 0"

lemma point_less_iff:
  "good_point a \<Longrightarrow> good_point b \<Longrightarrow>
   point_less a b \<longleftrightarrow> flt (rScore a) (rScore b) \<or> feq (rScore b) (rScore a) \<and> iLevel a < iLevel b"
  by (auto simp: point_less_def rtreeSearchPointCompare_def good_point_def flt_iff feq_iff)

interpretation sq: array_heap good_point point_less
proof
  fix a b c :: RtreeSearchPoint
  show "\<not> point_less a a" by (simp add: point_less_def rtreeSearchPointCompare_def)
  show "point_less a b \<Longrightarrow> \<not> point_less b a"
    by (auto simp: point_less_def rtreeSearchPointCompare_def flt_iff split: if_splits)
  assume "good_point a" "good_point b" "good_point c" "\<not> point_less b a" "\<not> point_less c b"
  then show "\<not> point_less c a"
    by (auto simp: point_less_iff) (auto simp: good_point_def flt_iff feq_iff)
qed

lemma list_all_mset_cong: "mset xs = mset ys \<Longrightarrow> list_all P xs = list_all P ys"
  by (simp add: list_all_iff) (metis set_mset_mset)

lemma Swap_frame:
  obtains c u where "rtreeSearchPointSwap i j (p, t) = (p\<lparr>aPoint := swap (aPoint p) i j, aNode := c\<rparr>, u)"
proof -
  have "\<exists>c u. rtreeSearchPointSwap i j (p, t) = (p\<lparr>aPoint := swap (aPoint p) i j, aNode := c\<rparr>, u)"
  proof (cases "i + 1 < RTREE_CACHE_SZ")
    case True
    then show ?thesis by (auto simp: rtreeSearchPointSwap_def Let_def)
  next
    case False
    then have "rtreeSearchPointSwap i j (p, t) = (p\<lparr>aPoint := swap (aPoint p) i j, aNode := aNode p\<rparr>, t)"
      by (simp add: rtreeSearchPointSwap_def Let_def)
    then show ?thesis by blast
  qed
  then show ?thesis using that by blast
qed

lemma enqueue_loop_post:
  "i < length (aPoint p) \<Longrightarrow> sq.heap_up (aPoint p) i \<Longrightarrow> list_all good_point (aPoint p) \<Longrightarrow>
   \<exists>i' xs c u. enqueue_loop i (p, t) = (i', p\<lparr>aPoint := xs, aNode := c\<rparr>, u) \<and>
     sq.is_heap xs \<and> mset xs = mset (aPoint p) \<and> i' < length xs \<and> xs ! i' = aPoint p ! i \<and>
     ((\<forall>k < length (aPoint p). k \<noteq> i \<longrightarrow> point_less (aPoint p ! i) (aPoint p ! k)) \<longrightarrow> i' = 0)"
proof (induction i arbitrary: p t rule: less_induct)
  case (less i)
  show ?case
  proof (cases "0 < i \<and> point_less (aPoint p ! i) (aPoint p ! hpar i)")
    case False
    then have "enqueue_loop i (p, t) = (i, p\<lparr>aPoint := aPoint p, aNode := aNode p\<rparr>, t)"
      by (subst enqueue_loop.simps) (auto simp: point_less_def hpar_def Let_def)
    moreover have "sq.is_heap (aPoint p)"
      using less.prems False by (intro sq.heap_up_done [of _ i]) (auto simp: sq.heap_at_def)
    moreover have "i = 0" if "\<forall>k < length (aPoint p). k \<noteq> i \<longrightarrow> point_less (aPoint p ! i) (aPoint p ! k)"
      using that less.prems(1) False hpar_less [of i] by (metis less_irrefl less_trans not_gr0)
    ultimately show ?thesis using less.prems(1) by blast
  next
    case True
    let ?j = "hpar i"
    have j: "?j < i" "?j < length (aPoint p)" using True hpar_less [of i] less.prems(1) by auto
    obtain c u where sw: "rtreeSearchPointSwap ?j i (p, t) = (p\<lparr>aPoint := swap (aPoint p) ?j i, aNode := c\<rparr>, u)"
      by (rule Swap_frame)
    define q where "q = p\<lparr>aPoint := swap (aPoint p) ?j i, aNode := c\<rparr>"
    have e: "enqueue_loop i (p, t) = enqueue_loop ?j (q, u)"
      using True sw by (subst enqueue_loop.simps) (auto simp: point_less_def hpar_def Let_def q_def)
    have m: "mset (aPoint q) = mset (aPoint p)" using j less.prems(1) by (simp add: q_def)
    have n: "aPoint q ! ?j = aPoint p ! i" using j less.prems(1) by (simp add: q_def nth_swap)
    have all: "\<forall>k < length (aPoint q). k \<noteq> ?j \<longrightarrow> point_less (aPoint q ! ?j) (aPoint q ! k)"
      if "\<forall>k < length (aPoint p). k \<noteq> i \<longrightarrow> point_less (aPoint p ! i) (aPoint p ! k)"
      using that j less.prems(1) unfolding n by (auto simp: q_def nth_swap)
    have h: "sq.heap_up (aPoint q) ?j"
      using less.prems True by (simp add: q_def sq.heap_up_step)
    have "?j < length (aPoint q)" "list_all good_point (aPoint q)"
      using j less.prems(3) list_all_mset_cong [OF m] by (auto simp: q_def)
    from less.IH [OF j(1) this(1) h this(2), of u] obtain i' xs c' u' where r: "enqueue_loop ?j (q, u) = (i', q\<lparr>aPoint := xs, aNode := c'\<rparr>, u')"
      "sq.is_heap xs" "mset xs = mset (aPoint q)" "i' < length xs" "xs ! i' = aPoint q ! ?j"
      "(\<forall>k < length (aPoint q). k \<noteq> ?j \<longrightarrow> point_less (aPoint q ! ?j) (aPoint q ! k)) \<longrightarrow> i' = 0"
      by metis
    moreover have "q\<lparr>aPoint := xs, aNode := c'\<rparr> = p\<lparr>aPoint := xs, aNode := c'\<rparr>" by (simp add: q_def)
    ultimately have "enqueue_loop i (p, t) = (i', p\<lparr>aPoint := xs, aNode := c'\<rparr>, u')" by (simp add: e)
    with r(2-6) m n all show ?thesis by metis
  qed
qed

text \<open>The child the sift-down loop compares with, and one iteration of it.\<close>

definition small_child :: "RtreeSearchPoint list \<Rightarrow> nat \<Rightarrow> nat" where
  "small_child a i = (let j = i * 2 + 1; k = j + 1
     in if k < length a \<and> point_less (a ! k) (a ! j) then k else j)"

lemma least_small_child:
  assumes "i * 2 + 1 < length a"
  shows "sq.least_child a i (small_child a i)"
proof -
  have c: "small_child a i = i * 2 + 1 \<or> small_child a i = i * 2 + 2" "small_child a i < length a"
    using assms by (auto simp: small_child_def Let_def)
  then have "hpar (small_child a i) = i" "0 < small_child a i" by (auto simp: hpar_def)
  moreover have "\<not> point_less (a ! k) (a ! small_child a i)" if "0 < k" "k < length a" "hpar k = i" for k
  proof -
    have "k = i * 2 + 1 \<or> k = i * 2 + 2" using that hpar_child [of k i] by simp
    then show ?thesis using that(2) sq.lt_asym sq.lt_irrefl by (auto simp: small_child_def Let_def)
  qed
  ultimately show ?thesis using c(2) by (simp add: sq.least_child_def)
qed

lemma pop_loop_step:
  "n = length (aPoint p) \<Longrightarrow> pop_loop n i (p, t) =
     (let c = small_child (aPoint p) i
      in if i * 2 + 1 < n \<and> point_less (aPoint p ! c) (aPoint p ! i)
         then pop_loop n c (rtreeSearchPointSwap i c (p, t)) else (p, t))"
  by (subst pop_loop.simps) (auto simp: small_child_def point_less_def Let_def)

lemma pop_loop_post:
  "n = length (aPoint p) \<Longrightarrow> sq.heap_down (aPoint p) i \<Longrightarrow> list_all good_point (aPoint p) \<Longrightarrow>
   \<exists>xs c u. pop_loop n i (p, t) = (p\<lparr>aPoint := xs, aNode := c\<rparr>, u) \<and> sq.is_heap xs \<and> mset xs = mset (aPoint p)"
proof (induction "n - i" arbitrary: i p t rule: less_induct)
  case less
  let ?c = "small_child (aPoint p) i"
  have stay: "(p, t) = (p\<lparr>aPoint := aPoint p, aNode := aNode p\<rparr>, t)" by simp
  show ?case
  proof (cases "i * 2 + 1 < n")
    case False
    then have "pop_loop n i (p, t) = (p, t)" using pop_loop_step [OF less.prems(1)] by (simp add: Let_def)
    moreover have "sq.is_heap (aPoint p)"
      using less.prems(1,2) False by (intro sq.heap_down_leaf [of _ i]) auto
    ultimately show ?thesis using stay by metis
  next
    case True
    then have lc: "sq.least_child (aPoint p) i ?c" using less.prems(1) by (simp add: least_small_child)
    show ?thesis
    proof (cases "point_less (aPoint p ! ?c) (aPoint p ! i)")
      case False
      then have "pop_loop n i (p, t) = (p, t)" using pop_loop_step [OF less.prems(1)] by (simp add: Let_def)
      then show ?thesis using sq.heap_down_done [OF less.prems(2) lc False less.prems(3)] stay by metis
    next
      case l: True
      obtain c u where sw: "rtreeSearchPointSwap i ?c (p, t) = (p\<lparr>aPoint := swap (aPoint p) i ?c, aNode := c\<rparr>, u)"
        by (rule Swap_frame)
      define q where "q = p\<lparr>aPoint := swap (aPoint p) i ?c, aNode := c\<rparr>"
      have c: "i < ?c" "?c < n"
        using lc hpar_less [of ?c] less.prems(1) by (auto simp: sq.least_child_def)
      have m: "mset (aPoint q) = mset (aPoint p)" using c less.prems(1) by (simp add: q_def)
      have q: "n = length (aPoint q)" "sq.heap_down (aPoint q) ?c" "list_all good_point (aPoint q)"
        using less.prems sq.heap_down_step [OF less.prems(2) lc l] list_all_mset_cong [OF m] by (auto simp: q_def)
      have "n - ?c < n - i" using c by linarith
      from less.hyps [OF this q, of u] obtain xs c' u' where
        r: "pop_loop n ?c (q, u) = (q\<lparr>aPoint := xs, aNode := c'\<rparr>, u')" "sq.is_heap xs" "mset xs = mset (aPoint q)"
        by metis
      have "pop_loop n i (p, t) = pop_loop n ?c (q, u)"
        using pop_loop_step [OF less.prems(1)] True l sw by (simp add: Let_def q_def)
      moreover have "q\<lparr>aPoint := xs, aNode := c'\<rparr> = p\<lparr>aPoint := xs, aNode := c'\<rparr>" by (simp add: q_def)
      ultimately show ?thesis using r m by metis
    qed
  qed
qed

lemma heap_up_append: "sq.is_heap xs \<Longrightarrow> sq.heap_up (xs @ [x]) (length xs)"
proof -
  assume h: "sq.is_heap xs"
  have "sq.heap_at (xs @ [x]) k" if "k \<noteq> length xs" for k
  proof (cases "0 < k \<and> k < length xs")
    case True
    then have "hpar k < length xs" using hpar_less [of k] by simp
    with True h show ?thesis by (auto simp: sq.is_heap_def sq.heap_at_def nth_append)
  qed (use that in \<open>auto simp: sq.heap_at_def\<close>)
  moreover have "sq.bridge (xs @ [x]) (length xs)"
    unfolding sq.bridge_def by (metis hpar_less length_append_singleton less_Suc_eq not_less_iff_gr_or_eq)
  ultimately show ?thesis by (simp add: sq.heap_up_def)
qed

lemma heap_replace_root:
  assumes "sq.is_heap xs" "\<And>k. 0 < k \<Longrightarrow> k < length xs \<Longrightarrow> \<not> point_less (xs ! k) y"
  shows "sq.is_heap (xs[0 := y])"
  unfolding sq.is_heap_def sq.heap_at_def
proof (intro allI impI, elim conjE)
  fix k assume k: "0 < k" "k < length (xs[0 := y])"
  then have p: "hpar k < length xs" using hpar_less [of k] by simp
  show "\<not> point_less (xs[0 := y] ! k) (xs[0 := y] ! hpar k)"
    using k p assms(2) [of k] assms(1) by (cases "hpar k = 0") (auto simp: sq.is_heap_def sq.heap_at_def)
qed

lemma heap_down_pop:
  assumes "sq.is_heap xs" "n = length xs - 1" "0 < n"
  shows "sq.heap_down (take n (xs[0 := xs ! n])) 0"
proof -
  have "sq.heap_at (take n (xs[0 := xs ! n])) k" if "hpar k \<noteq> 0" for k
  proof (cases "0 < k \<and> k < n")
    case True
    then have "hpar k < n" using hpar_less [of k] by simp
    with True that assms show ?thesis by (auto simp: sq.is_heap_def sq.heap_at_def)
  qed (use assms in \<open>auto simp: sq.heap_at_def\<close>)
  then show ?thesis by (simp add: sq.heap_down_def sq.bridge_def)
qed

lemma mset_pop_root:
  assumes "xs \<noteq> []" "n = length xs - 1"
  shows "mset (take n (xs[0 := xs ! n])) = mset xs - {#xs ! 0#}"
proof (cases "n = 0")
  case True
  then obtain x where "xs = [x]" using assms by (cases xs) auto
  with True show ?thesis by simp
next
  case False
  then obtain y ys z where xs: "xs = y # ys @ [z]"
    using assms by (cases xs; cases "tl xs" rule: rev_cases) auto
  then show ?thesis using assms by (simp add: nth_append)
qed

lemma mset_update_nth:
  "i < length xs \<Longrightarrow> xs ! i = x \<Longrightarrow> mset xs = add_mset x M \<Longrightarrow> mset (xs[i := y]) = add_mset y M"
  by (simp add: mset_update)

lemma rtreeEnqueue_post:
  assumes "sq.is_heap (aPoint p)" "list_all good_point (aPoint p)" "score \<noteq> NaN"
    and "rtreeEnqueue score level (p, t) = (r, q, u)"
  shows "case r of
     None \<Rightarrow> (\<exists>m. q = p\<lparr>nPointAlloc := m\<rparr>) \<and> \<not> fst (sqlite3_malloc t)
   | Some i \<Rightarrow> \<exists>m xs c. q = p\<lparr>nPointAlloc := m, aPoint := xs, aNode := c\<rparr> \<and> sq.is_heap xs \<and>
       mset xs = add_mset (new_point score level) (mset (aPoint p)) \<and> i < length xs \<and>
       xs ! i = new_point score level \<and>
       ((\<forall>x \<in> set (aPoint p). point_less (new_point score level) x) \<longrightarrow> i = 0)"
proof (cases r)
  case None
  then show ?thesis
    using assms(4) by (auto simp: rtreeEnqueue_def Let_def case_prod_beta split: if_splits intro!: exI [of _ "nPointAlloc p"])
next
  case (Some i)
  let ?n = "new_point score level"
  obtain m v where e: "enqueue_loop (length (aPoint p)) (p\<lparr>nPointAlloc := m, aPoint := aPoint p @ [?n]\<rparr>, v) = (i, q, u)"
  proof (cases "length (aPoint p) \<ge> nPointAlloc p")
    case True
    then show ?thesis using that [of "nPointAlloc p * 2 + 8" "snd (sqlite3_malloc t)"] assms(4) Some
      by (auto simp: rtreeEnqueue_def Let_def case_prod_beta prod_eq_iff split: if_splits)
  next
    case False
    then show ?thesis using that [of "nPointAlloc p" t] assms(4) Some
      by (auto simp: rtreeEnqueue_def Let_def case_prod_beta prod_eq_iff split: if_splits)
  qed
  let ?p = "p\<lparr>nPointAlloc := m, aPoint := aPoint p @ [?n]\<rparr>"
  have "list_all good_point (aPoint ?p)" using assms(2,3) by (simp add: good_point_def new_point_def)
  from enqueue_loop_post [of "length (aPoint p)" ?p, OF _ _ this, of v] heap_up_append [OF assms(1), of ?n] e
  obtain xs c where x: "q = ?p\<lparr>aPoint := xs, aNode := c\<rparr>" "sq.is_heap xs" "mset xs = mset (aPoint p @ [?n])"
    "i < length xs" "xs ! i = ?n"
    "(\<forall>k < length (aPoint p @ [?n]). k \<noteq> length (aPoint p) \<longrightarrow> point_less ?n ((aPoint p @ [?n]) ! k)) \<longrightarrow> i = 0"
    by auto
  have "i = 0" if "\<forall>x \<in> set (aPoint p). point_less ?n x" using x(6) that by (auto simp: nth_append)
  moreover have "q = p\<lparr>nPointAlloc := m, aPoint := xs, aNode := c\<rparr>" using x(1) by simp
  moreover have "mset xs = add_mset ?n (mset (aPoint p))" using x(3) by simp
  ultimately show ?thesis unfolding Some option.case using x(2,4,5) by blast
qed

section \<open>The queue as a multiset of points\<close>

definition queue_points :: "RtreeCursor \<Rightarrow> RtreeSearchPoint multiset" where
  "queue_points p = (if bPoint p then {#sPoint p#} else {#}) + mset (aPoint p)"

definition level_count :: "nat \<Rightarrow> RtreeSearchPoint multiset \<Rightarrow> u32" where
  "level_count l M = of_nat (size (filter_mset (\<lambda>x. unat (iLevel x) = l) M))"

definition counters :: "RtreeCursor \<Rightarrow> bool" where
  "counters p \<longleftrightarrow> length (anQueue p) = 41 \<and> list_all (\<lambda>l. anQueue p ! l = level_count l (queue_points p)) [0..<41]"

definition valid_point :: "RtreeSearchPoint \<Rightarrow> bool" where
  "valid_point x \<longleftrightarrow> good_point x \<and> unat (iLevel x) \<le> 40"

definition queue_inv :: "RtreeCursor \<Rightarrow> bool" where
  "queue_inv p \<longleftrightarrow> sq.is_heap (aPoint p) \<and> list_all valid_point (aPoint p) \<and>
     (bPoint p \<longrightarrow> valid_point (sPoint p) \<and> list_all (\<lambda>x. \<not> point_less x (sPoint p)) (aPoint p)) \<and> counters p"

lemma valid_good: "list_all valid_point xs \<Longrightarrow> list_all good_point xs"
  by (auto simp: list_all_iff valid_point_def)

lemma level_count_add [simp]:
  "level_count l (add_mset x M) = (if unat (iLevel x) = l then 1 else 0) + level_count l M"
  by (simp add: level_count_def)

lemma counters_add:
  assumes "counters p" "queue_points q = add_mset x (queue_points p)" "unat (iLevel x) \<le> 40"
    "anQueue q = (anQueue p)[unat (iLevel x) := anQueue p ! unat (iLevel x) + 1]"
  shows "counters q"
  using assms by (auto simp: counters_def list_all_iff nth_list_update)

lemma counters_remove:
  assumes "counters p" "queue_points p = add_mset x (queue_points q)" "unat (iLevel x) \<le> 40"
    "anQueue q = (anQueue p)[unat (iLevel x) := anQueue p ! unat (iLevel x) - 1]"
  shows "counters q"
  using assms by (auto simp: counters_def list_all_iff nth_list_update)

lemma first_is_least:
  assumes "queue_inv p" "rtreeSearchPointFirst p = Some f" "x \<in># queue_points p"
  shows "\<not> point_less x f"
proof (cases "bPoint p")
  case True
  then show ?thesis
    using assms by (auto simp: queue_inv_def rtreeSearchPointFirst_def queue_points_def list_all_iff sq.lt_irrefl)
next
  case False
  then have "f = aPoint p ! 0" "x \<in> set (aPoint p)"
    using assms by (auto simp: rtreeSearchPointFirst_def queue_points_def split: if_splits)
  moreover have "list_all good_point (aPoint p)" using assms(1) by (auto simp: queue_inv_def intro: valid_good)
  ultimately show ?thesis
    using sq.heap_min [of "aPoint p"] assms(1) by (auto simp: queue_inv_def in_set_conv_nth)
qed

lemma first_in_queue: "rtreeSearchPointFirst p = Some f \<Longrightarrow> f \<in># queue_points p"
  by (auto simp: rtreeSearchPointFirst_def queue_points_def split: if_splits)

lemma first_None: "rtreeSearchPointFirst p = None \<longleftrightarrow> queue_points p = {#}"
  by (auto simp: rtreeSearchPointFirst_def queue_points_def)

lemma queue_valid: "queue_inv p \<Longrightarrow> x \<in># queue_points p \<Longrightarrow> valid_point x"
  by (auto simp: queue_inv_def queue_points_def list_all_iff split: if_splits)

lemma Pop_cases:
  "\<exists>c v. rtreeSearchPointPop (p, t) =
     (if bPoint p then
        (p\<lparr>aNode := c, anQueue := (anQueue p)[unat (iLevel (sPoint p)) := anQueue p ! unat (iLevel (sPoint p)) - 1],
           bPoint := False\<rparr>, v)
      else if aPoint p \<noteq> [] then
        pop_loop (length (aPoint p) - 1) 0 (p\<lparr>aNode := c,
          anQueue := (anQueue p)[unat (iLevel (aPoint p ! 0)) := anQueue p ! unat (iLevel (aPoint p ! 0)) - 1],
          aPoint := take (length (aPoint p) - 1) ((aPoint p)[0 := aPoint p ! (length (aPoint p) - 1)])\<rparr>, v)
      else (p\<lparr>aNode := c\<rparr>, v))"
  (is "\<exists>c v. _ = ?rhs c v")
proof -
  let ?i = "if bPoint p then 0 else 1 :: nat" and ?n = "length (aPoint p) - 1"
  define c where "c = (if aNode p ! ?i \<noteq> None then (aNode p)[?i := None] else aNode p)"
  define v where "v = (if aNode p ! ?i \<noteq> None then release (aNode p ! ?i) t else t)"
  define d where "d = (if \<not> bPoint p \<and> aPoint p \<noteq> [] \<and> ?n < RTREE_CACHE_SZ - 1
    then c[1 := c ! (?n + 1), ?n + 1 := None] else c)"
  have "(if aNode p ! ?i \<noteq> None then (p\<lparr>aNode := (aNode p)[?i := None]\<rparr>, release (aNode p ! ?i) t) else (p, t))
      = (p\<lparr>aNode := c\<rparr>, v)"
    by (cases p) (simp add: c_def v_def)
  moreover have o: "p\<lparr>anQueue := a, aPoint := b, aNode := n\<rparr> = p\<lparr>aNode := n, anQueue := a, aPoint := b\<rparr>" for a b n
    by (cases p) simp
  ultimately have "rtreeSearchPointPop (p, t) = ?rhs d v"
    by (simp add: rtreeSearchPointPop_def Let_def d_def o)
  then show ?thesis by blast
qed

lemma Pop_post:
  assumes inv: "queue_inv p" and f: "rtreeSearchPointFirst p = Some f" and r: "rtreeSearchPointPop (p, t) = (q, u)"
  shows "queue_inv q \<and> queue_points p = add_mset f (queue_points q)"
proof (cases "bPoint p")
  case True
  then have s: "f = sPoint p" using f by (simp add: rtreeSearchPointFirst_def)
  from Pop_cases [of p t] r True obtain c where q: "q = p\<lparr>aNode := c,
      anQueue := (anQueue p)[unat (iLevel f) := anQueue p ! unat (iLevel f) - 1], bPoint := False\<rparr>"
    by (auto simp: s)
  then have m: "queue_points p = add_mset f (queue_points q)" using True s by (simp add: queue_points_def)
  have "counters q"
    by (rule counters_remove [OF _ m]) (use inv s True q in \<open>auto simp: queue_inv_def valid_point_def\<close>)
  with m inv q show ?thesis by (simp add: queue_inv_def)
next
  case False
  let ?a = "aPoint p" and ?n = "length (aPoint p) - 1"
  let ?b = "take ?n (?a[0 := ?a ! ?n])"
  have s: "f = ?a ! 0" "?a \<noteq> []" using f False by (auto simp: rtreeSearchPointFirst_def split: if_splits)
  obtain c v where r': "pop_loop ?n 0 (p\<lparr>aNode := c,
      anQueue := (anQueue p)[unat (iLevel f) := anQueue p ! unat (iLevel f) - 1], aPoint := ?b\<rparr>, v) = (q, u)"
    using Pop_cases [of p t] r False s by (auto simp del: One_nat_def)
  define P where "P = p\<lparr>aNode := c, anQueue := (anQueue p)[unat (iLevel f) := anQueue p ! unat (iLevel f) - 1], aPoint := ?b\<rparr>"
  have mb: "mset ?a = add_mset f (mset ?b)" using mset_pop_root [OF s(2) refl] s by simp
  have hd: "sq.heap_down ?b 0"
    using inv heap_down_pop [of ?a ?n] by (cases "?n = 0") (auto simp: queue_inv_def sq.heap_down_def sq.heap_at_def sq.bridge_def)
  have va: "list_all valid_point ?a" using inv by (simp add: queue_inv_def)
  then have vb: "list_all valid_point ?b" "valid_point f"
    using list_all_mset_cong [of ?a "f # ?b" valid_point] mb by auto
  have P: "?n = length (aPoint P)" "sq.heap_down (aPoint P) 0" "list_all good_point (aPoint P)" "aPoint P = ?b"
    using hd valid_good [OF vb(1)] by (auto simp: P_def)
  from pop_loop_post [OF P(1-3), of v] obtain xs d u' where
    "pop_loop ?n 0 (P, v) = (P\<lparr>aPoint := xs, aNode := d\<rparr>, u')" and x: "sq.is_heap xs" "mset xs = mset ?b"
    unfolding P(4) by metis
  with r' [folded P_def] have q: "q = P\<lparr>aPoint := xs, aNode := d\<rparr>" "sq.is_heap xs" "mset xs = mset ?b" by simp_all
  note q = q(1) [unfolded P_def] q(2,3)
  have m: "queue_points p = add_mset f (queue_points q)" using q mb False by (simp add: queue_points_def)
  moreover have "counters q"
    by (rule counters_remove [OF _ m]) (use inv vb(2) q(1) in \<open>auto simp: queue_inv_def valid_point_def\<close>)
  moreover have "list_all valid_point xs" using vb(1) list_all_mset_cong [OF q(3)] by simp
  ultimately show ?thesis using q(1,2) False by (simp add: queue_inv_def)
qed

lemma point_less_key:
  "point_less (s\<lparr>rScore := score, iLevel := level\<rparr>) x \<longleftrightarrow> point_less (new_point score level) x"
  "point_less x (s\<lparr>rScore := score, iLevel := level\<rparr>) \<longleftrightarrow> point_less x (new_point score level)"
  by (simp_all add: point_less_def rtreeSearchPointCompare_def new_point_def)

text \<open>The three ways a new point enters: before the cached one, into the free cache, or into the heap.\<close>

lemma New_heap:
  assumes inv: "queue_inv p" and k: "score \<noteq> NaN" "unat level \<le> 40"
    and ge: "bPoint p \<Longrightarrow> \<not> point_less (new_point score level) (sPoint p)"
    and r: "rtreeEnqueue score level (p\<lparr>anQueue := (anQueue p)[unat level := anQueue p ! unat level + 1]\<rparr>, t) = (Some i, q, u)"
  shows "queue_inv q \<and> queue_points q = add_mset (aPoint q ! i) (queue_points p) \<and> i < length (aPoint q) \<and>
    aPoint q ! i = new_point score level"
proof -
  let ?p = "p\<lparr>anQueue := (anQueue p)[unat level := anQueue p ! unat level + 1]\<rparr>" and ?n = "new_point score level"
  have p: "sq.is_heap (aPoint ?p)" "list_all good_point (aPoint ?p)"
    using inv by (auto simp: queue_inv_def intro: valid_good)
  from rtreeEnqueue_post [OF p k(1) r] obtain m xs c where q: "q = ?p\<lparr>nPointAlloc := m, aPoint := xs, aNode := c\<rparr>"
    and x: "sq.is_heap xs" "mset xs = add_mset ?n (mset (aPoint p))" "i < length xs" "xs ! i = ?n" by auto
  have v: "list_all valid_point xs" "bPoint p \<Longrightarrow> list_all (\<lambda>x. \<not> point_less x (sPoint p)) xs"
    using inv ge k list_all_mset_cong [of xs "?n # aPoint p"] x(2)
    by (auto simp: queue_inv_def valid_point_def good_point_def new_point_def)
  have m: "queue_points q = add_mset ?n (queue_points p)" using x q by (simp add: queue_points_def)
  have "counters q"
    by (rule counters_add [OF _ m]) (use inv k q in \<open>auto simp: queue_inv_def new_point_def\<close>)
  then show ?thesis using m q x v inv by (simp add: queue_inv_def)
qed

lemma New_front:
  assumes inv: "queue_inv p" and k: "score \<noteq> NaN" "unat level \<le> 40" and b: "bPoint p"
    and less: "point_less (new_point score level) (sPoint p)"
    and r: "rtreeEnqueue score level (p\<lparr>anQueue := (anQueue p)[unat level := anQueue p ! unat level + 1]\<rparr>, t) = (Some i, q, u)"
  shows "queue_inv (q\<lparr>aNode := c, aPoint := (aPoint q)[i := sPoint q],
       sPoint := (sPoint q)\<lparr>rScore := score, iLevel := level\<rparr>, bPoint := True\<rparr>) \<and>
    queue_points (q\<lparr>aNode := c, aPoint := (aPoint q)[i := sPoint q],
       sPoint := (sPoint q)\<lparr>rScore := score, iLevel := level\<rparr>, bPoint := True\<rparr>)
     = add_mset ((sPoint p)\<lparr>rScore := score, iLevel := level\<rparr>) (queue_points p)"
proof -
  let ?p = "p\<lparr>anQueue := (anQueue p)[unat level := anQueue p ! unat level + 1]\<rparr>" and ?n = "new_point score level"
  let ?s = "(sPoint p)\<lparr>rScore := score, iLevel := level\<rparr>"
  have p: "sq.is_heap (aPoint ?p)" "list_all good_point (aPoint ?p)"
    using inv by (auto simp: queue_inv_def intro: valid_good)
  have g: "good_point ?n" "good_point (sPoint p)"
    using k inv b by (auto simp: good_point_def new_point_def queue_inv_def valid_point_def)
  have below: "\<not> point_less x (sPoint p)" "point_less ?n x" "\<not> point_less x ?n" if "x \<in> set (aPoint p)" for x
  proof -
    have gx: "good_point x" using that p(2) by (auto simp: list_all_iff)
    show 1: "\<not> point_less x (sPoint p)" using that inv b by (auto simp: queue_inv_def list_all_iff)
    then show "point_less ?n x" using sq.le_trans [OF gx g(1) g(2)] sq.le_trans [OF g(2) gx g(1)] less by blast
    then show "\<not> point_less x ?n" by (rule sq.lt_asym)
  qed
  from rtreeEnqueue_post [OF p k(1) r] obtain m xs c' where q: "q = ?p\<lparr>nPointAlloc := m, aPoint := xs, aNode := c'\<rparr>"
    and x: "sq.is_heap xs" "mset xs = add_mset ?n (mset (aPoint p))" "i < length xs" "xs ! i = ?n" and i: "i = 0"
    using below(2) by auto
  then obtain ys where xs: "xs = ?n # ys" by (cases xs) auto
  then have ys: "mset ys = mset (aPoint p)" using x(2) by simp
  then have set: "set ys = set (aPoint p)" by (metis set_mset_mset)
  have "\<not> point_less (xs ! k) (sPoint p)" if "0 < k" "k < length xs" for k
    using that xs below(1) [of "xs ! k"] nth_mem [of "k - 1" ys] set by auto
  from heap_replace_root [OF x(1) this] have h: "sq.is_heap (sPoint p # ys)" using xs by simp
  let ?q = "q\<lparr>aNode := c, aPoint := (aPoint q)[i := sPoint q], sPoint := ?s, bPoint := True\<rparr>"
  have m: "queue_points ?q = add_mset ?s (queue_points p)"
    using q i xs ys b by (simp add: queue_points_def)
  have "counters ?q" by (rule counters_add [OF _ m]) (use inv k q in \<open>auto simp: queue_inv_def\<close>)
  moreover have "list_all valid_point (sPoint p # ys)" "valid_point ?s"
    using inv b set k by (auto simp: queue_inv_def list_all_iff valid_point_def good_point_def)
  moreover have "list_all (\<lambda>x. \<not> point_less x ?s) (sPoint p # ys)"
    using below(3) set sq.lt_asym [OF less] by (auto simp: list_all_iff point_less_key)
  ultimately show ?thesis using h m q i xs by (simp add: queue_inv_def)
qed

lemma New_post:
  assumes inv: "queue_inv p" and k: "score \<noteq> NaN" "unat level \<le> 40"
    and r: "rtreeSearchPointNew score level (p, t) = (Some l, q, u)"
  shows "queue_inv q \<and> queue_points q = add_mset (get_point l q) (queue_points p) \<and>
    rScore (get_point l q) = score \<and> iLevel (get_point l q) = level"
proof -
  let ?p = "p\<lparr>anQueue := (anQueue p)[unat level := anQueue p ! unat level + 1]\<rparr>" and ?n = "new_point score level"
  let ?before = "case rtreeSearchPointFirst p of None \<Rightarrow> True
    | Some f \<Rightarrow> flt score (rScore f) \<or> (feq (rScore f) score \<and> level < iLevel f)"
  have bef: "?before \<longleftrightarrow> (\<forall>f. rtreeSearchPointFirst p = Some f \<longrightarrow> point_less ?n f)"
  proof (cases "rtreeSearchPointFirst p")
    case (Some f)
    then have "good_point f" "good_point ?n"
      using queue_valid [OF inv first_in_queue [OF Some]] k by (auto simp: valid_point_def good_point_def new_point_def)
    with Some show ?thesis by (simp add: point_less_iff) (simp add: new_point_def)
  qed simp
  consider "\<not> ?before" | "?before" "\<not> bPoint p" | "?before" "bPoint p" by blast
  then show ?thesis
  proof cases
    case 1
    then obtain i where e: "rtreeEnqueue score level (?p, t) = (Some i, q, u)" "l = APoint i"
      using r by (auto simp: rtreeSearchPointNew_def Let_def case_prod_beta prod_eq_iff split: option.splits)
    have "bPoint p \<Longrightarrow> \<not> point_less ?n (sPoint p)" using 1 bef by (auto simp: rtreeSearchPointFirst_def)
    from New_heap [OF inv k this e(1)] e(2) show ?thesis by (simp add: get_point_def new_point_def)
  next
    case 2
    let ?s = "(sPoint p)\<lparr>rScore := score, iLevel := level\<rparr>"
    have q: "q = ?p\<lparr>sPoint := ?s, bPoint := True\<rparr>" "l = SPoint"
      using 2 r by (auto simp: rtreeSearchPointNew_def Let_def)
    have "\<not> point_less x ?s" if x: "x \<in> set (aPoint p)" for x
    proof -
      from x have f: "rtreeSearchPointFirst p = Some (aPoint p ! 0)" using 2 by (auto simp: rtreeSearchPointFirst_def)
      have q: "x \<in># queue_points p" using x by (simp add: queue_points_def)
      have g: "good_point ?n" "good_point (aPoint p ! 0)" "good_point x"
        using k queue_valid [OF inv first_in_queue [OF f]] queue_valid [OF inv q]
        by (auto simp: good_point_def new_point_def valid_point_def)
      have "point_less ?n (aPoint p ! 0)" using 2(1) bef f by simp
      then have "\<not> point_less x ?n"
        using sq.le_trans [OF g] first_is_least [OF inv f q] sq.lt_asym by blast
      then show ?thesis by (simp add: point_less_key)
    qed
    moreover have m: "queue_points q = add_mset ?s (queue_points p)" using q 2 by (simp add: queue_points_def)
    have "counters q" by (rule counters_add [OF _ m]) (use inv k q in \<open>auto simp: queue_inv_def\<close>)
    ultimately show ?thesis
      using inv q m k by (auto simp: queue_inv_def list_all_iff get_point_def valid_point_def good_point_def)
  next
    case 3
    have less: "point_less ?n (sPoint p)" using 3 bef by (simp add: rtreeSearchPointFirst_def)
    from 3 r obtain i q' u' c where e: "rtreeEnqueue score level (?p, t) = (Some i, q', u')"
      and q: "q = q'\<lparr>aNode := c, aPoint := (aPoint q')[i := sPoint q'],
        sPoint := (sPoint q')\<lparr>rScore := score, iLevel := level\<rparr>, bPoint := True\<rparr>" "l = SPoint"
      by (auto simp: rtreeSearchPointNew_def Let_def split: option.splits if_splits prod.splits)
    have "sPoint q' = sPoint p"
      using rtreeEnqueue_post [OF _ _ k(1) e] inv by (auto simp: queue_inv_def valid_good)
    with New_front [OF inv k 3(2) less e, of c] q show ?thesis by (simp add: get_point_def)
  qed
qed

text \<open>
  The only way a point is refused: the array is full and its reallocation fails. The counter of
  its level, which the code increments first, keeps the increment.
\<close>

lemma New_fails:
  assumes "rtreeSearchPointNew score level (p, t) = (None, q, u)"
  shows "nPointAlloc p \<le> length (aPoint p) \<and> \<not> fst (sqlite3_malloc t) \<and> u = snd (sqlite3_malloc t) \<and>
    q = p\<lparr>anQueue := (anQueue p)[unat level := anQueue p ! unat level + 1]\<rparr>"
  using assms by (auto simp: rtreeSearchPointNew_def rtreeEnqueue_def Let_def split: option.splits if_splits prod.splits)

section \<open>The interface: a priority queue\<close>

text \<open>
  What the search relies on: the first point is one that no queued point precedes, a new point
  joins the others, and popping removes exactly the first. Popping until the queue is empty
  yields every point once, in an order where no point precedes an earlier one.
\<close>

locale search_queue =
  fixes inv :: "'s \<Rightarrow> bool" and content :: "'s \<Rightarrow> 'p multiset" and precedes :: "'p \<Rightarrow> 'p \<Rightarrow> bool"
    and first :: "'s \<Rightarrow> 'p option" and pop :: "'s \<Rightarrow> 's"
  assumes first_None: "first s = None \<longleftrightarrow> content s = {#}"
    and first_least: "inv s \<Longrightarrow> first s = Some f \<Longrightarrow> x \<in># content s \<Longrightarrow> \<not> precedes x f"
    and pop_inv: "inv s \<Longrightarrow> first s = Some f \<Longrightarrow> inv (pop s)"
    and pop_content: "inv s \<Longrightarrow> first s = Some f \<Longrightarrow> content s = add_mset f (content (pop s))"
begin

fun drain :: "nat \<Rightarrow> 's \<Rightarrow> 'p list" where
  "drain 0 s = []"
| "drain (Suc n) s = (case first s of None \<Rightarrow> [] | Some f \<Rightarrow> f # drain n (pop s))"

lemma drain_content: "inv s \<Longrightarrow> size (content s) \<le> n \<Longrightarrow> mset (drain n s) = content s"
proof (induction n arbitrary: s)
  case (Suc n)
  show ?case
  proof (cases "first s")
    case (Some f)
    then have "content s = add_mset f (content (pop s))" "inv (pop s)" using Suc by (auto intro: pop_content pop_inv)
    with Suc Some show ?thesis by simp
  next
    case None
    then have "content s = {#}" by (simp add: first_None)
    with None show ?thesis by simp
  qed
qed simp

lemma drain_ordered: "inv s \<Longrightarrow> size (content s) \<le> n \<Longrightarrow> sorted_wrt (\<lambda>x y. \<not> precedes y x) (drain n s)"
proof (induction n arbitrary: s)
  case (Suc n)
  show ?case
  proof (cases "first s")
    case (Some f)
    then have c: "content s = add_mset f (content (pop s))" "inv (pop s)" using Suc by (auto intro: pop_content pop_inv)
    then have "set (drain n (pop s)) = set_mset (content (pop s))"
      using drain_content [of "pop s" n] Suc.prems by (metis Suc_le_mono set_mset_mset size_add_mset)
    with c Suc Some show ?thesis using first_least [OF Suc.prems(1) Some] by simp
  qed simp
qed simp

end

interpretation cq: search_queue "\<lambda>(p, t). queue_inv p" "\<lambda>(p, t). queue_points p" point_less
  "\<lambda>(p, t). rtreeSearchPointFirst p" rtreeSearchPointPop
proof
  fix s :: "RtreeCursor \<times> Rtree" and f x
  obtain p t where s: "s = (p, t)" by (cases s)
  obtain q u where r: "rtreeSearchPointPop (p, t) = (q, u)" by (cases "rtreeSearchPointPop (p, t)")
  show "((\<lambda>(p, t). rtreeSearchPointFirst p) s = None) = ((\<lambda>(p, t). queue_points p) s = {#})"
    by (simp add: s first_None)
  assume "(\<lambda>(p, t). queue_inv p) s" "(\<lambda>(p, t). rtreeSearchPointFirst p) s = Some f"
  then have a: "queue_inv p" "rtreeSearchPointFirst p = Some f" by (simp_all add: s)
  then show "x \<in># (\<lambda>(p, t). queue_points p) s \<Longrightarrow> \<not> point_less x f" by (simp add: s first_is_least)
  from Pop_post [OF a r] show "(\<lambda>(p, t). queue_inv p) (rtreeSearchPointPop s)"
    "(\<lambda>(p, t). queue_points p) s = add_mset f ((\<lambda>(p, t). queue_points p) (rtreeSearchPointPop s))"
    by (simp_all add: s r)
qed

section \<open>Properties\<close>

text \<open>C3: The search queue of a cursor is a priority queue. Its first point is one that no queued
  point precedes (by score, then by level); a new point with a number as score is added to the
  multiset of queued points; popping removes exactly the first point; and both keep the heap order,
  the cached first point and the counters of points by level. A point is refused only when the
  array of points is full and its reallocation fails; then the points, the heap and the node cache
  are as before, but the counter of the point's level, incremented before the attempt, stays one
  too high.\<close>

theorem search_queue_is_priority_queue:
  assumes inv: "queue_inv p" and key: "score \<noteq> NaN" "unat level \<le> 40"
  shows "(case rtreeSearchPointFirst p of
       None \<Rightarrow> queue_points p = {#}
     | Some f \<Rightarrow> (\<forall>x \<in># queue_points p. \<not> point_less x f) \<and>
         queue_inv (fst (rtreeSearchPointPop (p, t))) \<and>
         queue_points p = add_mset f (queue_points (fst (rtreeSearchPointPop (p, t))))) \<and>
    (case rtreeSearchPointNew score level (p, t) of
       (None, q, u) \<Rightarrow>
         nPointAlloc p \<le> length (aPoint p) \<and> \<not> fst (sqlite3_malloc t) \<and> u = snd (sqlite3_malloc t) \<and>
         q = p\<lparr>anQueue := (anQueue p)[unat level := anQueue p ! unat level + 1]\<rparr>
     | (Some l, q, u) \<Rightarrow> queue_inv q \<and> queue_points q = add_mset (get_point l q) (queue_points p) \<and>
         rScore (get_point l q) = score \<and> iLevel (get_point l q) = level)"
proof -
  have "case rtreeSearchPointNew score level (p, t) of
       (None, q, u) \<Rightarrow>
         nPointAlloc p \<le> length (aPoint p) \<and> \<not> fst (sqlite3_malloc t) \<and> u = snd (sqlite3_malloc t) \<and>
         q = p\<lparr>anQueue := (anQueue p)[unat level := anQueue p ! unat level + 1]\<rparr>
     | (Some l, q, u) \<Rightarrow> queue_inv q \<and> queue_points q = add_mset (get_point l q) (queue_points p) \<and>
         rScore (get_point l q) = score \<and> iLevel (get_point l q) = level"
    using New_post [OF inv key] New_fails [of score level p t] by (auto split: prod.splits option.splits)
  moreover have "case rtreeSearchPointFirst p of
       None \<Rightarrow> queue_points p = {#}
     | Some f \<Rightarrow> (\<forall>x \<in># queue_points p. \<not> point_less x f) \<and>
         queue_inv (fst (rtreeSearchPointPop (p, t))) \<and>
         queue_points p = add_mset f (queue_points (fst (rtreeSearchPointPop (p, t))))"
    using first_is_least [OF inv] first_None [of p] Pop_post [OF inv _ prod.collapse [symmetric], of _ t]
    by (simp split: option.split)
  ultimately show ?thesis by blast
qed

text \<open>A cursor as \<open>rtreeOpen\<close> makes it: all bytes zero.\<close>

definition empty_cursor :: RtreeCursor where
  "empty_cursor = \<lparr>atEOF = False, bPoint = False, iStrategy = 0, aConstraint = [], nPointAlloc = 0, aPoint = [],
     sPoint = new_point fp_zero 0, aNode = replicate RTREE_CACHE_SZ None, anQueue = replicate 41 0\<rparr>"

lemma queue_inv_empty: "queue_inv empty_cursor"
  by (simp add: queue_inv_def empty_cursor_def sq.is_heap_def sq.heap_at_def counters_def queue_points_def
      level_count_def list_all_iff)

theorem search_queue_is_priority_queue_witness:
  "rtreeSearchPointFirst empty_cursor = None \<and> queue_points empty_cursor = {#} \<and>
   queue_inv (fst (snd (rtreeSearchPointNew fp_zero 3 (empty_cursor, sample_rtree RTREE_COORD_INT32))))"
  using search_queue_is_priority_queue [OF queue_inv_empty, of fp_zero 3 "sample_rtree RTREE_COORD_INT32"]
  by (simp add: fp_zero_def rtreeSearchPointFirst_def empty_cursor_def rtreeSearchPointNew_def Let_def queue_points_def)

text \<open>Popping until the queue is empty yields every queued point exactly once, in the order of
  their scores and levels: no point precedes one popped before it.\<close>

theorem search_points_drain_in_order:
  assumes "queue_inv p" "size (queue_points p) \<le> n"
  shows "mset (cq.drain n (p, t)) = queue_points p \<and>
    sorted_wrt (\<lambda>x y. \<not> point_less y x) (cq.drain n (p, t))"
  using cq.drain_content [of "(p, t)" n] cq.drain_ordered [of "(p, t)" n] assms by simp

definition sample_cursor :: RtreeCursor where
  "sample_cursor = empty_cursor\<lparr>anQueue := (replicate 41 0)[3 := 1], sPoint := new_point fp_zero 3, bPoint := True\<rparr>"

lemma queue_inv_sample: "queue_inv sample_cursor"
proof -
  have "rtreeSearchPointNew fp_zero 3 (empty_cursor, t) = (Some SPoint, sample_cursor, t)" for t
    by (simp add: rtreeSearchPointNew_def rtreeSearchPointFirst_def empty_cursor_def sample_cursor_def new_point_def Let_def)
  from New_post [OF queue_inv_empty _ _ this] show ?thesis by (simp add: fp_zero_def)
qed

theorem search_points_drain_in_order_witness:
  "mset (cq.drain 1 (sample_cursor, sample_rtree RTREE_COORD_INT32)) = {#new_point fp_zero 3#}"
  using search_points_drain_in_order [OF queue_inv_sample, of 1 "sample_rtree RTREE_COORD_INT32"]
  by (simp add: queue_points_def empty_cursor_def sample_cursor_def)

end
