(* ===== verification/Rtree_Cursor.thy ===== *)
theory Rtree_Cursor
  imports Rtree_Queue
begin

text \<open>
  The cursor methods of the r-tree virtual table: choosing a plan (\<open>rtreeBestIndex\<close>), starting a
  scan (\<open>rtreeFilter\<close>), moving to the next matching row (\<open>rtreeStepToLeaf\<close>, \<open>rtreeNext\<close>) and
  reading it. The descent may run for as long as the tree is large, and forever on a node with
  more cells than the 8-bit cell index can count, so it is a partial function with values in the
  option type; the loop over the cells of one node has fuel for the 256 values of that index.
\<close>

section \<open>The life of a table object and of a cursor\<close>

definition rtreeReference :: "Rtree \<Rightarrow> Rtree" where
  "rtreeReference t = t\<lparr>nBusy := nBusy t + 1\<rparr>"

text \<open>At zero users the statements are finalized and the object is freed; nothing uses it then.\<close>

definition rtreeRelease :: "Rtree \<Rightarrow> Rtree" where
  "rtreeRelease t = t\<lparr>nBusy := nBusy t - 1\<rparr>"

definition rtreeOpen :: "Rtree \<Rightarrow> int \<times> RtreeCursor option \<times> Rtree" where
  "rtreeOpen t =
     (let (ok, t) = sqlite3_malloc t
      in if ok then (SQLITE_OK, Some empty_cursor, t) else (SQLITE_NOMEM, None, t))"

definition rtreeClose :: "RtreeCursor \<times> Rtree \<Rightarrow> int \<times> Rtree" where
  "rtreeClose = (\<lambda>(p, t). (SQLITE_OK, fold release (aNode p) t))"

definition rtreeEof :: "RtreeCursor \<Rightarrow> bool" where
  "rtreeEof p = atEOF p"

section \<open>Stepping\<close>

text \<open>
  The callbacks see the counters of the cursor through \<open>pInfo->anQueue\<close>.
\<close>

definition share_queue :: "RtreeCursor \<Rightarrow> RtreeConstraint list" where
  "share_queue p = map (\<lambda>c. if RTREE_MATCH \<le> cop c
     then c\<lparr>pInfo := (pInfo c)\<lparr>qi_anQueue := anQueue p\<rparr>\<rparr> else c) (aConstraint p)"

text \<open>
  The inner \<open>while\<close> of \<open>rtreeStepToLeaf\<close>: the cells of node \<open>n\<close> from the index of the search
  point at \<open>l\<close> on, until one survives the constraints and is pushed. It returns the point the
  variable \<open>p\<close> of the code points to; \<open>None\<close> when the fuel runs out.
\<close>

fun cells_loop ::
  "nat \<Rightarrow> point_loc \<Rightarrow> RtreeNode \<Rightarrow> RtreeCursor \<times> Rtree \<Rightarrow> (int \<times> point_loc \<times> RtreeCursor \<times> Rtree) option" where
  "cells_loop 0 l n s = None"
| "cells_loop (Suc k) l n (p, t) =
     (let x = get_point l p
      in if uint (iCell x) < NCELL n then
           let pCellData = drop (4 + nBytesPerCell t * unat (iCell x)) (zData n);
               (rc, cs, score, w) = constraint_loop (share_queue p) (eCoordType t = RTREE_COORD_INT32)
                  pCellData x (fp_of_int (-1)) FULLY_WITHIN;
               p = p\<lparr>aConstraint := cs\<rparr>
           in if rc \<noteq> SQLITE_OK then Some (rc, l, p, t)
              else
                let p = upd_point (\<lambda>x. x\<lparr>iCell := iCell x + 1\<rparr>) l p; x = get_point l p
                in if w = NOT_WITHIN then cells_loop k l n (p, t)
                   else
                     let level = iLevel x - 1;
                         (xid, xcell) = (if level \<noteq> 0 then (readInt64 pCellData, 0) else (sp_id x, iCell x - 1));
                         (p, t) = (if NCELL n \<le> uint (iCell x) then rtreeSearchPointPop (p, t) else (p, t));
                         score = (if flt score fp_zero then fp_zero else score)
                     in case rtreeSearchPointNew score level (p, t) of
                          (None, p, t) \<Rightarrow> Some (SQLITE_NOMEM, l, p, t)
                        | (Some l, p, t) \<Rightarrow>
                            Some (SQLITE_OK, l, upd_point (\<lambda>x. x\<lparr>eWithin := w, sp_id := xid, iCell := xcell\<rparr>) l p, t)
         else Some (SQLITE_OK, l, p, t))"

definition first_loc :: "RtreeCursor \<Rightarrow> point_loc" where
  "first_loc p = (if bPoint p then SPoint else APoint 0)"

partial_function (option) rtreeStepToLeaf :: "RtreeCursor \<times> Rtree \<Rightarrow> (int \<times> RtreeCursor \<times> Rtree) option" where
  "rtreeStepToLeaf s =
     (case rtreeSearchPointFirst (fst s) of
        None \<Rightarrow> Some (SQLITE_OK, (fst s)\<lparr>atEOF := True\<rparr>, snd s)
      | Some x \<Rightarrow>
          if iLevel x = 0 then Some (SQLITE_OK, (fst s)\<lparr>atEOF := False\<rparr>, snd s)
          else
            let (rc, pNode, s) = rtreeNodeOfFirstSearchPoint SQLITE_OK s
            in if rc \<noteq> SQLITE_OK then Some (rc, s)
               else
                 let n = node_at (snd s) (the pNode)
                 in case cells_loop 256 (first_loc (fst s)) n s of
                      None \<Rightarrow> None
                    | Some (rc, l, s) \<Rightarrow>
                        if rc \<noteq> SQLITE_OK then Some (rc, s)
                        else rtreeStepToLeaf
                          (if NCELL n \<le> uint (iCell (get_point l (fst s))) then rtreeSearchPointPop s else s))"

declare rtreeStepToLeaf.simps [code]

definition rtreeNext :: "RtreeCursor \<times> Rtree \<Rightarrow> (int \<times> RtreeCursor \<times> Rtree) option" where
  "rtreeNext s = rtreeStepToLeaf (rtreeSearchPointPop s)"

section \<open>Reading the current row\<close>

definition rtreeRowid :: "RtreeCursor \<times> Rtree \<Rightarrow> int \<times> i64 option \<times> RtreeCursor \<times> Rtree" where
  "rtreeRowid s =
     (let x = rtreeSearchPointFirst (fst s);
          (rc, pNode, p, t) = rtreeNodeOfFirstSearchPoint SQLITE_OK s
      in (rc,
          case x of
            Some x \<Rightarrow> if rc = SQLITE_OK then Some (nodeGetRowid t (node_at t (the pNode)) (unat (iCell x))) else None
          | None \<Rightarrow> None, p, t))"

datatype sql_result = ResultInt64 i64 | ResultDouble fp | ResultInt int

definition rtreeColumn :: "RtreeCursor \<times> Rtree \<Rightarrow> nat \<Rightarrow> int \<times> sql_result option \<times> RtreeCursor \<times> Rtree" where
  "rtreeColumn s i =
     (let x = rtreeSearchPointFirst (fst s);
          (rc, pNode, p, t) = rtreeNodeOfFirstSearchPoint SQLITE_OK s
      in if rc \<noteq> SQLITE_OK then (rc, None, p, t)
         else case x of
           None \<Rightarrow> (SQLITE_OK, None, p, t)
         | Some x \<Rightarrow>
             let n = node_at t (the pNode)
             in if i = 0 then (SQLITE_OK, Some (ResultInt64 (nodeGetRowid t n (unat (iCell x)))), p, t)
                else let c = nodeGetCoord t n (unat (iCell x)) (i - 1)
                     in (SQLITE_OK,
                         Some (if eCoordType t = RTREE_COORD_REAL32 then ResultDouble (decode32 c) else ResultInt (sint c)),
                         p, t))"

section \<open>Starting a scan\<close>

abbreviation (input) RTREE_GEOMETRY_MAGIC :: u32 where "RTREE_GEOMETRY_MAGIC \<equiv> 0x891245AB"
abbreviation (input) sizeof_RtreeMatchArg :: int where "sizeof_RtreeMatchArg \<equiv> 32"

text \<open>The BLOB of a geometry function and an SQL value, by what their accessors return.\<close>

record RtreeMatchArg =
  ma_magic :: u32
  ma_xGeom :: "(query_info \<Rightarrow> nat \<Rightarrow> fp list \<Rightarrow> int \<Rightarrow> int \<times> int \<times> query_info) option"
  ma_xQueryFunc :: "query_info \<Rightarrow> int \<times> query_info"
  ma_nParam :: int
  ma_aParam :: "fp list"

record sqlite3_value =
  value_isNull :: bool
  value_int :: u32
  value_int64 :: i64
  value_double :: fp
  value_isBlob :: bool
  value_bytes :: int
  value_blob :: RtreeMatchArg

definition zero_info :: query_info where
  "zero_info = \<lparr>qi_aParam = [], qi_pUser = [], qi_aCoord = [], qi_anQueue = [], qi_nCoord = 0, qi_iLevel = 0,
     qi_mxLevel = 0, qi_iRowid = 0, qi_rParentScore = fp_zero, qi_eParentWithin = 0, qi_eWithin = 0,
     qi_rScore = fp_zero\<rparr>"

definition zero_constraint :: RtreeConstraint where
  "zero_constraint = \<lparr>iCoord = 0, cop = 0, rValue = fp_zero, xGeom = (\<lambda>i n xs r. (SQLITE_ERROR, r, i)),
     xQueryFunc = (\<lambda>i. (SQLITE_ERROR, i)), pInfo = zero_info\<rparr>"

definition deserializeGeometry :: "sqlite3_value \<Rightarrow> RtreeConstraint \<Rightarrow> Rtree \<Rightarrow> int \<times> RtreeConstraint \<times> Rtree" where
  "deserializeGeometry v c t =
     (let nBlob = value_bytes v; b = value_blob v
      in if \<not> value_isBlob v then (SQLITE_ERROR, c, t)
         else if nBlob < sizeof_RtreeMatchArg \<or> (nBlob - sizeof_RtreeMatchArg) mod 8 \<noteq> 0 then (SQLITE_ERROR, c, t)
         else
           let (ok, t) = sqlite3_malloc t
           in if \<not> ok then (SQLITE_NOMEM, c, t)
              else if ma_magic b \<noteq> RTREE_GEOMETRY_MAGIC \<or> nBlob \<noteq> sizeof_RtreeMatchArg + (ma_nParam b - 1) * 8
              then (SQLITE_ERROR, c, t)
              else
                let info = zero_info\<lparr>qi_aParam := ma_aParam b\<rparr>;
                    c = (case ma_xGeom b of
                           Some f \<Rightarrow> c\<lparr>xGeom := f\<rparr>
                         | None \<Rightarrow> c\<lparr>cop := RTREE_QUERY, xQueryFunc := ma_xQueryFunc b\<rparr>)
                in (SQLITE_OK, c\<lparr>pInfo := info\<rparr>, t))"

text \<open>
  The loop of \<open>rtreeFilter\<close> over its arguments; after an error the remaining constraints
  keep the zero bytes of the allocation. The \<open>char\<close> of the target is unsigned.
\<close>

fun filter_constraints ::
  "Rtree \<Rightarrow> RtreeCursor \<Rightarrow> u8 list \<Rightarrow> sqlite3_value list \<Rightarrow> int \<times> RtreeConstraint list \<times> Rtree" where
  "filter_constraints t p idxStr [] = (SQLITE_OK, [], t)"
| "filter_constraints t p idxStr (v # vs) =
     (let c = zero_constraint\<lparr>cop := uint (idxStr ! 0), iCoord := nat (uint (idxStr ! 1) - 48)\<rparr>
      in if RTREE_MATCH \<le> cop c then
           let (rc, c, t) = deserializeGeometry v c t
           in if rc \<noteq> SQLITE_OK then (rc, c # map (\<lambda>_. zero_constraint) vs, t)
              else
                let c = c\<lparr>pInfo := (pInfo c)\<lparr>qi_nCoord := nDim t * 2, qi_anQueue := anQueue p, qi_mxLevel := iDepth t + 1\<rparr>\<rparr>;
                    (rc, cs, t) = filter_constraints t p (drop 2 idxStr) vs
                in (rc, c # cs, t)
         else
           let (rc, cs, t) = filter_constraints t p (drop 2 idxStr) vs
           in (rc, c\<lparr>rValue := value_double v\<rparr> # cs, t))"

definition rtreeFilter ::
  "int \<Rightarrow> u8 list \<Rightarrow> sqlite3_value list \<Rightarrow> RtreeCursor \<times> Rtree \<Rightarrow> (int \<times> RtreeCursor \<times> Rtree) option" where
  "rtreeFilter idxNum idxStr argv = (\<lambda>(p, t).
     let t = rtreeReference t; p = empty_cursor\<lparr>iStrategy := idxNum\<rparr>
     in if idxNum = 1 then
          let iRowid = value_int64 (argv ! 0); (rc, pLeaf, iNode, t) = findLeafNode iRowid t
          in case pLeaf of
               Some a \<Rightarrow>
                 if rc = SQLITE_OK then
                   let (l, p, t) = rtreeSearchPointNew fp_zero 0 (p, t);
                       (rc, iCell) = (case nodeRowidIndex t (node_at t a) iRowid of
                                        Inr i \<Rightarrow> (SQLITE_OK, i) | Inl e \<Rightarrow> (e, 0));
                       p = upd_point (\<lambda>x. x\<lparr>sp_id := the iNode, eWithin := PARTLY_WITHIN, iCell := of_nat iCell\<rparr>) (the l)
                             (p\<lparr>aNode := (aNode p)[0 := Some a]\<rparr>)
                   in Some (rc, p, rtreeRelease t)
                 else Some (rc, p\<lparr>atEOF := True\<rparr>, rtreeRelease t)
             | None \<Rightarrow> Some (rc, p\<lparr>atEOF := True\<rparr>, rtreeRelease t)
        else
          let (rc, pRoot, t) = nodeAcquire 1 None t;
              (rc, p, t) =
                (if rc = SQLITE_OK \<and> argv \<noteq> [] then
                   let (ok, t) = sqlite3_malloc t
                   in if \<not> ok then (SQLITE_NOMEM, p, t)
                      else let (rc, cs, t) = filter_constraints t p idxStr argv in (rc, p\<lparr>aConstraint := cs\<rparr>, t)
                 else (rc, p, t))
          in if rc = SQLITE_OK then
               case rtreeSearchPointNew fp_zero (of_int (iDepth t + 1)) (p, t) of
                 (None, p, t) \<Rightarrow> Some (SQLITE_NOMEM, p, t)
               | (Some l, p, t) \<Rightarrow>
                   let p = upd_point (\<lambda>x. x\<lparr>sp_id := 1, iCell := 0, eWithin := PARTLY_WITHIN\<rparr>) l p;
                       p = p\<lparr>aNode := (aNode p)[0 := pRoot]\<rparr>
                   in map_option (\<lambda>(rc, p, t). (rc, p, rtreeRelease t)) (rtreeStepToLeaf (p, t))
             else Some (rc, p, rtreeRelease (release pRoot t)))"

section \<open>Choosing a plan\<close>

abbreviation (input) SQLITE_INDEX_CONSTRAINT_EQ :: int where "SQLITE_INDEX_CONSTRAINT_EQ \<equiv> 2"
abbreviation (input) SQLITE_INDEX_CONSTRAINT_GT :: int where "SQLITE_INDEX_CONSTRAINT_GT \<equiv> 4"
abbreviation (input) SQLITE_INDEX_CONSTRAINT_LE :: int where "SQLITE_INDEX_CONSTRAINT_LE \<equiv> 8"
abbreviation (input) SQLITE_INDEX_CONSTRAINT_LT :: int where "SQLITE_INDEX_CONSTRAINT_LT \<equiv> 16"
abbreviation (input) SQLITE_INDEX_CONSTRAINT_GE :: int where "SQLITE_INDEX_CONSTRAINT_GE \<equiv> 32"
abbreviation (input) SQLITE_INDEX_CONSTRAINT_MATCH :: int where "SQLITE_INDEX_CONSTRAINT_MATCH \<equiv> 64"

record index_constraint =
  ic_iColumn :: int
  ic_op :: int
  ic_usable :: bool

record index_info =
  aConstraintUsage :: "(int \<times> bool) list"
  idxNum :: int
  idxStr :: "u8 list"
  needToFreeIdxStr :: bool
  estimatedCost :: fp
  estimatedRows :: int

text \<open>The byte of a column, \<open>p->iColumn - 1 + '0'\<close> stored in a \<open>char\<close>.\<close>

definition plan_column :: "int \<Rightarrow> u8" where
  "plan_column i = of_int (i - 1 + 48)"

definition rtree_op :: "int \<Rightarrow> int" where
  "rtree_op k =
     (if k = SQLITE_INDEX_CONSTRAINT_EQ then RTREE_EQ
      else if k = SQLITE_INDEX_CONSTRAINT_GT then RTREE_GT
      else if k = SQLITE_INDEX_CONSTRAINT_LE then RTREE_LE
      else if k = SQLITE_INDEX_CONSTRAINT_LT then RTREE_LT
      else if k = SQLITE_INDEX_CONSTRAINT_GE then RTREE_GE
      else RTREE_MATCH)"

text \<open>
  The loop over the constraints. \<open>ii\<close> is the index of the first of the rest; the result is the
  plan of a lookup by rowid, or the index string with the usage entries set.
\<close>

fun best_loop ::
  "nat \<Rightarrow> index_constraint list \<Rightarrow> u8 list \<Rightarrow> index_info \<Rightarrow> index_info + u8 list \<times> index_info" where
  "best_loop ii [] z info = Inr (z, info)"
| "best_loop ii (c # cs) z info =
     (if \<not> length z < RTREE_MAX_DIMENSIONS * 8 then Inr (z, info)
      else if ic_usable c \<and> ic_iColumn c = 0 \<and> ic_op c = SQLITE_INDEX_CONSTRAINT_EQ then
        Inl (info\<lparr>aConstraintUsage :=
               (map (\<lambda>_. (0, False)) (take ii (aConstraintUsage info)) @ drop ii (aConstraintUsage info))[ii := (1, True)],
               idxNum := 1, estimatedCost := fp_of_int 30, estimatedRows := 1\<rparr>)
      else if ic_usable c \<and> (0 < ic_iColumn c \<or> ic_op c = SQLITE_INDEX_CONSTRAINT_MATCH) then
        let z = z @ [of_int (rtree_op (ic_op c)), plan_column (ic_iColumn c)]
        in best_loop (ii + 1) cs z
             (info\<lparr>aConstraintUsage := (aConstraintUsage info)[ii := (int (length z) div 2, True)]\<rparr>)
      else best_loop (ii + 1) cs z info)"

text \<open>The string is copied up to its first zero byte, the estimate counts all bytes.\<close>

definition rtreeBestIndex :: "Rtree \<Rightarrow> index_constraint list \<Rightarrow> index_info \<Rightarrow> int \<times> index_info \<times> Rtree" where
  "rtreeBestIndex t cs info =
     (case best_loop 0 cs [] info of
        Inl info \<Rightarrow> (SQLITE_OK, info, t)
      | Inr (z, info) \<Rightarrow>
          let info = info\<lparr>idxNum := 2, needToFreeIdxStr := True\<rparr>;
              (ok, t) = (if z \<noteq> [] then sqlite3_malloc t else (True, t))
          in if \<not> ok then (SQLITE_NOMEM, info, t)
             else
               let nRow = nRowEst t sdiv (int (length z) + 1)
               in (SQLITE_OK, info\<lparr>idxStr := takeWhile (\<lambda>b. b \<noteq> 0) z, estimatedCost := fmul (fp_of_int 6) (fp_of_int nRow), estimatedRows := nRow\<rparr>, t))"

section \<open>Lemmas: plans\<close>

text \<open>
  What the planner may offer to a scan: a comparison of a coordinate column, or a MATCH, whose
  right-hand side is the BLOB of a geometry function.
\<close>

definition plannable :: "index_constraint \<Rightarrow> bool" where
  "plannable c \<longleftrightarrow> ic_usable c \<and> 0 < ic_iColumn c \<and> ic_iColumn c \<le> RTREE_MAX_DIMENSIONS * 2 \<and> ic_op c \<in>
     {SQLITE_INDEX_CONSTRAINT_EQ, SQLITE_INDEX_CONSTRAINT_GT, SQLITE_INDEX_CONSTRAINT_LE,
      SQLITE_INDEX_CONSTRAINT_LT, SQLITE_INDEX_CONSTRAINT_GE, SQLITE_INDEX_CONSTRAINT_MATCH}"

definition geometry_blob :: "sqlite3_value \<Rightarrow> bool" where
  "geometry_blob v \<longleftrightarrow> value_isBlob v \<and> ma_magic (value_blob v) = RTREE_GEOMETRY_MAGIC \<and>
     0 < ma_nParam (value_blob v) \<and>
     value_bytes v = sizeof_RtreeMatchArg + (ma_nParam (value_blob v) - 1) * 8"

text \<open>The comparison an SQL operator stands for.\<close>

definition sql_compare :: "int \<Rightarrow> fp \<Rightarrow> fp \<Rightarrow> bool" where
  "sql_compare k x y \<longleftrightarrow>
     k = SQLITE_INDEX_CONSTRAINT_EQ \<and> feq x y \<or>
     k = SQLITE_INDEX_CONSTRAINT_GT \<and> flt y x \<or>
     k = SQLITE_INDEX_CONSTRAINT_LE \<and> fle x y \<or>
     k = SQLITE_INDEX_CONSTRAINT_LT \<and> flt x y \<or>
     k = SQLITE_INDEX_CONSTRAINT_GE \<and> fle y x"

text \<open>
  The decoded constraint \<open>d\<close> does what the planned one asks for with the right-hand side \<open>v\<close>: for a
  comparison it keeps a cell of a leaf exactly when the coordinate of its column compares as the SQL
  operator says; for a MATCH it holds the function and the parameters of the BLOB.
\<close>

definition carries_out :: "Rtree \<Rightarrow> RtreeCursor \<Rightarrow> index_constraint \<Rightarrow> sqlite3_value \<Rightarrow> RtreeConstraint \<Rightarrow> bool" where
  "carries_out t p c v d \<longleftrightarrow>
     (if ic_op c = SQLITE_INDEX_CONSTRAINT_MATCH then
        (case ma_xGeom (value_blob v) of
           Some f \<Rightarrow> cop d = RTREE_MATCH \<and> xGeom d = f
         | None \<Rightarrow> cop d = RTREE_QUERY \<and> xQueryFunc d = ma_xQueryFunc (value_blob v)) \<and>
        qi_aParam (pInfo d) = ma_aParam (value_blob v) \<and> qi_nCoord (pInfo d) = nDim t * 2 \<and>
        qi_anQueue (pInfo d) = anQueue p \<and> qi_mxLevel (pInfo d) = iDepth t + 1
      else
        cop d < RTREE_MATCH \<and>
        (\<forall>eInt cell w. rtreeLeafConstraint d eInt cell w =
           (if sql_compare (ic_op c) (RTREE_DECODE_COORD eInt (drop (8 + nat (ic_iColumn c - 1) * 4) cell)) (value_double v)
            then w else NOT_WITHIN)))"

definition plan_bytes :: "index_constraint list \<Rightarrow> u8 list" where
  "plan_bytes cs = concat (map (\<lambda>c. [of_int (rtree_op (ic_op c)), plan_column (ic_iColumn c)]) cs)"

lemma plan_bytes_simps [simp]:
  "plan_bytes [] = []"
  "plan_bytes (c # cs) = of_int (rtree_op (ic_op c)) # plan_column (ic_iColumn c) # plan_bytes cs"
  by (simp_all add: plan_bytes_def)

lemma length_plan_bytes [simp]: "length (plan_bytes cs) = 2 * length cs"
  by (induction cs) auto

lemma best_loop_plannable:
  "list_all plannable cs \<Longrightarrow> length z = 2 * ii \<Longrightarrow> ii + length cs \<le> 20 \<Longrightarrow>
   length (aConstraintUsage info) = ii + length cs \<Longrightarrow>
   best_loop ii cs z info = Inr (z @ plan_bytes cs, info\<lparr>aConstraintUsage :=
     take ii (aConstraintUsage info) @ map (\<lambda>k. (int k + 1, True)) [ii..<ii + length cs]\<rparr>)"
proof (induction cs arbitrary: ii z info)
  case (Cons c cs)
  let ?z = "z @ [of_int (rtree_op (ic_op c)), plan_column (ic_iColumn c)]"
  let ?info = "info\<lparr>aConstraintUsage := (aConstraintUsage info)[ii := (int ii + 1, True)]\<rparr>"
  have u: "[ii..<ii + length (c # cs)] = ii # [ii + 1..<ii + 1 + length cs]"
    by (subst upt_conv_Cons) simp_all
  have "best_loop ii (c # cs) z info = best_loop (ii + 1) cs ?z ?info"
    using Cons.prems by (simp add: plannable_def add.commute)
  also have "\<dots> = Inr (?z @ plan_bytes cs, ?info\<lparr>aConstraintUsage :=
     take (ii + 1) (aConstraintUsage ?info) @ map (\<lambda>k. (int k + 1, True)) [ii + 1..<ii + 1 + length cs]\<rparr>)"
    using Cons.prems by (intro Cons.IH) auto
  also have "take (ii + 1) (aConstraintUsage ?info) @ map (\<lambda>k. (int k + 1, True)) [ii + 1..<ii + 1 + length cs]
    = take ii (aConstraintUsage info) @ map (\<lambda>k. (int k + 1, True)) [ii..<ii + length (c # cs)]"
    unfolding u using Cons.prems by (simp add: take_Suc_conv_app_nth)
  finally show ?case by simp
qed simp

lemma uint_small_byte: "0 \<le> i \<Longrightarrow> i < 256 \<Longrightarrow> uint (of_int i :: u8) = i"
  by (simp add: uint_word_of_int)

lemma plan_byte_ops:
  assumes "plannable c"
  shows "uint (of_int (rtree_op (ic_op c)) :: u8) = rtree_op (ic_op c)" "of_int (rtree_op (ic_op c)) \<noteq> (0 :: u8)"
    "uint (plan_column (ic_iColumn c)) = ic_iColumn c - 1 + 48" "plan_column (ic_iColumn c) \<noteq> 0"
proof -
  show "uint (of_int (rtree_op (ic_op c)) :: u8) = rtree_op (ic_op c)" "of_int (rtree_op (ic_op c)) \<noteq> (0 :: u8)"
    using assms by (auto simp: plannable_def rtree_op_def)
  show c: "uint (plan_column (ic_iColumn c)) = ic_iColumn c - 1 + 48"
    unfolding plan_column_def by (rule uint_small_byte) (use assms in \<open>auto simp: plannable_def\<close>)
  then show "plan_column (ic_iColumn c) \<noteq> 0" using assms by (auto simp: plannable_def)
qed

lemma plan_bytes_nonzero: "list_all plannable cs \<Longrightarrow> b \<in> set (plan_bytes cs) \<Longrightarrow> b \<noteq> 0"
proof (induction cs)
  case (Cons c cs)
  then show ?case using plan_byte_ops [of c] by (auto simp: plannable_def)
qed simp

lemma rtree_op_MATCH: "plannable c \<Longrightarrow> RTREE_MATCH \<le> rtree_op (ic_op c) \<longleftrightarrow> ic_op c = SQLITE_INDEX_CONSTRAINT_MATCH"
  by (auto simp: plannable_def rtree_op_def)

lemma carries_out_comparison:
  assumes "plannable c" "ic_op c \<noteq> SQLITE_INDEX_CONSTRAINT_MATCH"
  shows "carries_out t p c v (zero_constraint\<lparr>cop := rtree_op (ic_op c), iCoord := nat (ic_iColumn c - 1),
    rValue := value_double v\<rparr>)"
  using assms unfolding plannable_def carries_out_def
  by (auto simp: rtree_op_def rtreeLeafConstraint_def sql_compare_def Let_def)

lemma filter_constraints_plan:
  assumes "mallocFails t = []" "list_all plannable cs" "length vs = length cs"
    and "\<forall>k < length cs. ic_op (cs ! k) = SQLITE_INDEX_CONSTRAINT_MATCH \<longrightarrow> geometry_blob (vs ! k)"
  shows "\<exists>ds. filter_constraints t p (plan_bytes cs) vs = (SQLITE_OK, ds, t) \<and> length ds = length cs \<and>
    (\<forall>k < length cs. carries_out t p (cs ! k) (vs ! k) (ds ! k))"
  using assms(2-)
proof (induction cs arbitrary: vs)
  case (Cons c cs)
  then obtain v vs' where vs: "vs = v # vs'" by (cases vs) auto
  have "ic_op (cs ! k) = SQLITE_INDEX_CONSTRAINT_MATCH \<longrightarrow> geometry_blob (vs' ! k)" if "k < length cs" for k
    using that Cons.prems(3) [rule_format, of "Suc k"] by (simp add: vs)
  then obtain ds where ds: "filter_constraints t p (plan_bytes cs) vs' = (SQLITE_OK, ds, t)" "length ds = length cs"
    "\<forall>k < length cs. carries_out t p (cs ! k) (vs' ! k) (ds ! k)"
    using Cons.IH [of vs'] Cons.prems by (auto simp: vs)
  have c: "plannable c" using Cons.prems by simp
  note B = plan_byte_ops [OF c] rtree_op_MATCH [OF c]
  have "\<exists>d. filter_constraints t p (plan_bytes (c # cs)) vs = (SQLITE_OK, d # ds, t) \<and> carries_out t p c v d"
  proof (cases "ic_op c = SQLITE_INDEX_CONSTRAINT_MATCH")
    case True
    then have "geometry_blob v" using Cons.prems(3) by (auto simp: vs)
    then have g: "deserializeGeometry v z t = (SQLITE_OK, (case ma_xGeom (value_blob v) of
          Some f \<Rightarrow> z\<lparr>xGeom := f\<rparr>
        | None \<Rightarrow> z\<lparr>cop := RTREE_QUERY, xQueryFunc := ma_xQueryFunc (value_blob v)\<rparr>)
          \<lparr>pInfo := zero_info\<lparr>qi_aParam := ma_aParam (value_blob v)\<rparr>\<rparr>, t)" for z
      using assms(1) by (simp add: deserializeGeometry_def geometry_blob_def sqlite3_malloc_def Let_def)
    show ?thesis using True B ds(1) g
      by (auto simp: vs carries_out_def rtree_op_def Let_def split: option.split)
  next
    case False
    then show ?thesis using B ds(1) carries_out_comparison [OF c False] by (simp add: vs)
  qed
  then show ?case using ds by (auto simp: vs nth_Cons less_Suc_eq_0_disj split: nat.split)
qed simp

section \<open>Properties\<close>

text \<open>C18: A plan reaches the scan unchanged. For up to twenty usable constraints on coordinate columns,
  comparisons or MATCH with a geometry, \<open>rtreeBestIndex\<close> asks for every right-hand side in order, and
  \<open>rtreeFilter\<close> reads from the index string constraints that do what was planned: a comparison keeps a
  cell of a leaf exactly when the coordinate of the column stands to the value handed over as the SQL
  operator says, and a MATCH has the function and the parameters of its geometry.\<close>

theorem plan_roundtrip:
  assumes "list_all plannable cs" "length cs \<le> 20" "length (aConstraintUsage info) = length cs"
    and "mallocFails t = []" "length vs = length cs"
    and "\<forall>k < length cs. ic_op (cs ! k) = SQLITE_INDEX_CONSTRAINT_MATCH \<longrightarrow> geometry_blob (vs ! k)"
  shows "(let (rc, info', t') = rtreeBestIndex t cs info; (rc2, ds, u) = filter_constraints t' p (idxStr info') vs
    in rc = SQLITE_OK \<and> idxNum info' = 2 \<and>
       aConstraintUsage info' = map (\<lambda>k. (int k + 1, True)) [0..<length cs] \<and>
       rc2 = SQLITE_OK \<and> length ds = length cs \<and> (\<forall>k < length cs. carries_out t p (cs ! k) (vs ! k) (ds ! k)))"
proof -
  have "best_loop 0 cs [] info = Inr (plan_bytes cs, info\<lparr>aConstraintUsage :=
      map (\<lambda>k. (int k + 1, True)) [0..<length cs]\<rparr>)"
    using best_loop_plannable [OF assms(1), of "[]" 0 info] assms(2,3) by simp
  moreover have tw: "takeWhile (\<lambda>b. b \<noteq> 0) (plan_bytes cs) = plan_bytes cs"
    using plan_bytes_nonzero [OF assms(1)] by (simp add: takeWhile_eq_all_conv)
  ultimately show ?thesis
    using filter_constraints_plan [OF assms(4,1,5,6), of p] assms(4)
    by (auto simp: rtreeBestIndex_def sqlite3_malloc_def case_prod_beta Let_def tw)
qed

definition sample_plan :: "index_constraint list" where
  "sample_plan = [\<lparr>ic_iColumn = 2, ic_op = SQLITE_INDEX_CONSTRAINT_LE, ic_usable = True\<rparr>,
     \<lparr>ic_iColumn = 1, ic_op = SQLITE_INDEX_CONSTRAINT_MATCH, ic_usable = True\<rparr>]"

definition sample_info :: index_info where
  "sample_info = \<lparr>aConstraintUsage = [(0, False), (0, False)], idxNum = 0, idxStr = [], needToFreeIdxStr = False,
     estimatedCost = fp_zero, estimatedRows = 0\<rparr>"

definition sample_value :: sqlite3_value where
  "sample_value = \<lparr>value_isNull = False, value_int = 5, value_int64 = 5, value_double = fp_of_int 5, value_isBlob = False, value_bytes = 0,
     value_blob = \<lparr>ma_magic = 0, ma_xGeom = None, ma_xQueryFunc = (\<lambda>i. (0, i)), ma_nParam = 0, ma_aParam = []\<rparr>\<rparr>"

definition sample_geometry :: sqlite3_value where
  "sample_geometry = sample_value\<lparr>value_isBlob := True, value_bytes := 40,
     value_blob := \<lparr>ma_magic = RTREE_GEOMETRY_MAGIC, ma_xGeom = None, ma_xQueryFunc = (\<lambda>i. (0, i)), ma_nParam = 2,
       ma_aParam = [fp_of_int 1, fp_of_int 2]\<rparr>\<rparr>"

theorem plan_roundtrip_witness:
  "(let (rc, info, t) = rtreeBestIndex (sample_rtree RTREE_COORD_INT32) sample_plan sample_info
    in rc = SQLITE_OK \<and> idxNum info = 2 \<and> aConstraintUsage info = [(1, True), (2, True)])"
proof -
  let ?t = "sample_rtree RTREE_COORD_INT32"
  have p: "list_all plannable sample_plan" "length sample_plan \<le> 20" "length (aConstraintUsage sample_info) = length sample_plan"
    by (simp_all add: sample_plan_def sample_info_def plannable_def)
  have v: "\<forall>k < length sample_plan. ic_op (sample_plan ! k) = SQLITE_INDEX_CONSTRAINT_MATCH \<longrightarrow>
      geometry_blob ([sample_value, sample_geometry] ! k)"
    by (auto simp: sample_plan_def less_Suc_eq geometry_blob_def sample_geometry_def)
  have "mallocFails ?t = []" "length [sample_value, sample_geometry] = length sample_plan"
    by (simp_all add: sample_rtree_def sample_plan_def)
  from plan_roundtrip [OF p this v] show ?thesis
    by (simp add: sample_plan_def case_prod_beta Let_def)
qed

text \<open>A lookup by rowid finds its row: when the rowid table names a leaf that can be loaded and
  holds the row, the cursor stands on a cell whose rowid is the one asked for.\<close>

theorem rowid_lookup_finds_row:
  assumes "sqlRc t = []" "map_of (rowidTab t) rid = Some nod" "value_int64 v = rid"
    and "nodeAcquire nod None (rtreeReference t) = (SQLITE_OK, Some a, u)"
    and "rid \<in> iRowid ` set (node_cells u (node_at u a))" "NCELL (node_at u a) \<le> 256"
  shows "\<exists>q w. rtreeFilter 1 str [v] (p, t) = Some (SQLITE_OK, q, w) \<and> \<not> rtreeEof q \<and>
     rtreeRowid (q, w) = (SQLITE_OK, Some rid, q, w)"
proof -
  obtain i where i: "nodeRowidIndex u (node_at u a) rid = Inr i"
    using nodeRowidIndex_Inl(2) assms(5) by (cases "nodeRowidIndex u (node_at u a) rid") blast+
  note I = nodeRowidIndex_Inr [OF i]
  have "i < 256" using I(1) assms(6) by simp
  then have c: "unat (of_nat i :: u8) = i" by (simp add: unat_of_nat)
  have r: "nodeGetRowid u (node_at u a) i = rid" using I(1,2) by (simp add: node_cells_nth nodeGetRowid_cell)
  have f: "findLeafNode rid (rtreeReference t) = (SQLITE_OK, Some a, Some nod, u)"
    using assms(1,2,4) by (simp add: findLeafNode_def step_stmt_def rtreeReference_def)
  have n: "rtreeSearchPointNew fp_zero 0 (empty_cursor\<lparr>iStrategy := k\<rparr>, u) =
      (Some SPoint, empty_cursor\<lparr>iStrategy := k, anQueue := (replicate 41 0)[0 := 1], sPoint := new_point fp_zero 0, bPoint := True\<rparr>, u)" for k
    by (simp add: rtreeSearchPointNew_def rtreeSearchPointFirst_def empty_cursor_def new_point_def Let_def)
  show ?thesis
    using f n i c r assms(3)
    by (simp add: rtreeFilter_def Let_def upd_point_def rtreeRowid_def rtreeSearchPointFirst_def rtreeEof_def
        rtreeNodeOfFirstSearchPoint_def rtreeRelease_def empty_cursor_def node_at_def nodeGetRowid_def)
qed

definition sample_table :: Rtree where
  "sample_table = (sample_rtree RTREE_COORD_INT32)\<lparr>rowidTab := [(5, 1)],
     nodeTab := [(1, [0, 0, 0, 1, 0, 0, 0, 0, 0, 0, 0, 5, 0, 0, 0, 2, 0, 0, 0, 9] @ replicate 32 0)]\<rparr>"

theorem rowid_lookup_finds_row_witness:
  "\<exists>q w. rtreeFilter 1 [] [sample_value] (empty_cursor, sample_table) = Some (SQLITE_OK, q, w) \<and>
     rtreeRowid (q, w) = (SQLITE_OK, Some 5, q, w)"
proof -
  let ?z = "[0, 0, 0, 1, 0, 0, 0, 0, 0, 0, 0, 5, 0, 0, 0, 2, 0, 0, 0, 9] @ replicate 32 0 :: u8 list"
  have h: "nodeHash 1 = 1" by (simp add: nodeHash_def signed_modulo_int_def sdiv_nonneg)
  define u where "u = snd (snd (nodeAcquire 1 None (rtreeReference sample_table)))"
  have a: "nodeAcquire 1 None (rtreeReference sample_table) = (SQLITE_OK, Some 0, u) \<and> zData (node_at u 0) = ?z \<and>
      nDim u = 1 \<and> nBytesPerCell u = 16"
    unfolding u_def
    by (simp add: nodeAcquire_def nodeHashLookup_def h sample_table_def sample_rtree_def rtreeReference_def
        read_node_def step_stmt_def sqlite3_malloc_def alloc_node_def nodeReference_def node_at_def readInt16_def
        NCELL_def nMaxCell_def sdiv_nonneg nodeHashInsert_def upd_node_def Let_def)
  then have "NCELL (node_at u 0) = 1" "nodeGetRowid u (node_at u 0) 0 = 5"
    by (simp_all add: NCELL_def readInt16_def nodeGetRowid_def readInt64_def)
  then have "5 \<in> iRowid ` set (node_cells u (node_at u 0))" "NCELL (node_at u 0) \<le> 256"
    by (auto simp: node_cells_def nodeGetRowid_cell [symmetric])
  moreover have "sqlRc sample_table = []" "map_of (rowidTab sample_table) 5 = Some 1" "value_int64 sample_value = 5"
    by (simp_all add: sample_table_def sample_rtree_def sample_value_def)
  ultimately show ?thesis
    using rowid_lookup_finds_row [of sample_table 5 1 sample_value 0 u "[]" empty_cursor] a by blast
qed

end
