(* ===== verification/Rtree_Update.thy ===== *)
theory Rtree_Update
  imports Rtree_Cursor
begin

text \<open>
  Changing an r-tree: choosing the leaf for a cell, keeping the boxes of the ancestors, splitting
  and reinserting on overflow, condensing the tree after a deletion, and the \<open>xUpdate\<close> method. The
  functions call each other recursively through the levels of the tree, and walk the chains of parents;
  both take fuel. Running out of it gives the code \<open>FUEL_OUT\<close>, which no function of SQLite
  returns; \<open>INSERT_FUEL\<close> exceeds the two nested calls of \<open>rtreeInsertCell\<close>, one under a reinsertion and
  one under a split, for each of the 41 levels.
\<close>

abbreviation (input) FUEL_OUT :: int where "FUEL_OUT \<equiv> -1"
abbreviation (input) INSERT_FUEL :: nat where "INSERT_FUEL \<equiv> 100"

text \<open>A loop that stops at the first error.\<close>

fun each_ok :: "('a \<Rightarrow> Rtree \<Rightarrow> int \<times> Rtree) \<Rightarrow> 'a list \<Rightarrow> Rtree \<Rightarrow> int \<times> Rtree" where
  "each_ok f [] t = (SQLITE_OK, t)"
| "each_ok f (x # xs) t =
     (let (rc, t) = f x t in if rc \<noteq> SQLITE_OK then (rc, t) else each_ok f xs t)"

section \<open>Choosing a leaf\<close>

text \<open>The loop over the cells of a node: the child with the least growth, then the least area.\<close>

definition best_child :: "Rtree \<Rightarrow> RtreeNode \<Rightarrow> RtreeCell \<Rightarrow> i64 \<times> fp \<times> fp" where
  "best_child t n pCell =
     fold (\<lambda>ii (iBest, fMinGrowth, fMinArea).
         let cell = nodeGetCell t n ii; growth = cellGrowth t cell pCell; area = cellArea t cell
         in if ii = 0 \<or> flt growth fMinGrowth \<or> (feq growth fMinGrowth \<and> flt area fMinArea)
            then (iRowid cell, growth, area) else (iBest, fMinGrowth, fMinArea))
       [0..<nat (NCELL n)] (0, fp_zero, fp_zero)"

fun choose_loop :: "nat \<Rightarrow> int \<Rightarrow> RtreeCell \<Rightarrow> int \<Rightarrow> int \<times> nptr \<times> Rtree \<Rightarrow> int \<times> nptr \<times> Rtree" where
  "choose_loop 0 ii pCell h s = (FUEL_OUT, None, snd (snd s))"
| "choose_loop (Suc k) ii pCell h (rc, pNode, t) =
     (if rc = SQLITE_OK \<and> ii < iDepth t - h then
        let (iBest, _, _) = best_child t (node_at t (the pNode)) pCell;
            (rc, pChild, t) = nodeAcquire iBest pNode t;
            t = release pNode t
        in choose_loop k (ii + 1) pCell h (rc, pChild, t)
      else (rc, pNode, t))"

definition ChooseLeaf :: "RtreeCell \<Rightarrow> int \<Rightarrow> Rtree \<Rightarrow> int \<times> nptr \<times> Rtree" where
  "ChooseLeaf pCell h t = choose_loop 64 0 pCell h (nodeAcquire 1 None t)"

section \<open>Keeping the boxes of the ancestors\<close>

fun adjust_loop :: "nat \<Rightarrow> nat \<Rightarrow> RtreeCell \<Rightarrow> Rtree \<Rightarrow> int \<times> Rtree" where
  "adjust_loop 0 p pCell t = (FUEL_OUT, t)"
| "adjust_loop (Suc k) p pCell t =
     (case pParent (node_at t p) of
        None \<Rightarrow> (SQLITE_OK, t)
      | Some q \<Rightarrow>
          (case nodeParentIndex p t of
             Inl e \<Rightarrow> (SQLITE_CORRUPT_VTAB, t)
           | Inr i \<Rightarrow>
               let cell = nodeGetCell t (node_at t q) (nat i);
                   t = (if \<not> cellContains t cell pCell
                        then upd_node (\<lambda>n. nodeOverwriteCell t n (cellUnion t cell pCell) (nat i)) q t else t)
               in adjust_loop k q pCell t))"

definition AdjustTree :: "nat \<Rightarrow> RtreeCell \<Rightarrow> Rtree \<Rightarrow> int \<times> Rtree" where
  "AdjustTree p pCell t = adjust_loop (Suc (nextAddr t)) p pCell t"

text \<open>The box of the cells of a node, as \<open>fixBoundingBox\<close> computes it.\<close>

definition node_box :: "Rtree \<Rightarrow> RtreeNode \<Rightarrow> RtreeCell" where
  "node_box t n =
     fold (\<lambda>ii box. cellUnion t box (nodeGetCell t n ii)) [1..<nat (NCELL n)] (nodeGetCell t n 0)"

fun fix_box :: "nat \<Rightarrow> nat \<Rightarrow> Rtree \<Rightarrow> int \<times> Rtree" where
  "fix_box 0 p t = (FUEL_OUT, t)"
| "fix_box (Suc k) p t =
     (case pParent (node_at t p) of
        None \<Rightarrow> (SQLITE_OK, t)
      | Some q \<Rightarrow>
          let box = (node_box t (node_at t p))\<lparr>iRowid := iNode (node_at t p)\<rparr>
          in case nodeParentIndex p t of
               Inl e \<Rightarrow> (e, t)
             | Inr i \<Rightarrow> fix_box k q (upd_node (\<lambda>n. nodeOverwriteCell t n box (nat i)) q t))"

definition fixBoundingBox :: "nat \<Rightarrow> Rtree \<Rightarrow> int \<times> Rtree" where
  "fixBoundingBox p t = fix_box (Suc (nextAddr t)) p t"

section \<open>Insertion\<close>

text \<open>The parent of a cached child changes: release the old, reference the new.\<close>

definition reparent :: "i64 \<Rightarrow> nat \<Rightarrow> Rtree \<Rightarrow> Rtree" where
  "reparent iChild p t =
     (case nodeHashLookup t iChild of
        None \<Rightarrow> t
      | Some c \<Rightarrow>
          let t = release (pParent (node_at t c)) t; t = nodeReference (Some p) t
          in upd_node (\<lambda>n. n\<lparr>pParent := Some p\<rparr>) c t)"

definition xSetMapping :: "int \<Rightarrow> i64 \<Rightarrow> i64 \<Rightarrow> Rtree \<Rightarrow> int \<times> Rtree" where
  "xSetMapping h = (if h = 0 then rowidWrite else parentWrite)"

definition updateMapping :: "i64 \<Rightarrow> nat \<Rightarrow> int \<Rightarrow> Rtree \<Rightarrow> int \<times> Rtree" where
  "updateMapping rid p h t =
     (let t = (if 0 < h then reparent rid p t else t) in xSetMapping h rid (iNode (node_at t p)) t)"

text \<open>The distances of \<open>Reinsert\<close>, from the cells of the node and the new one.\<close>

definition center_coord :: "Rtree \<Rightarrow> RtreeCell list \<Rightarrow> nat \<Rightarrow> fp" where
  "center_coord t aCell iDim =
     fdiv (fold (\<lambda>c s. fadd (fadd s (DCOORD t (aCoord c ! (iDim * 2)))) (DCOORD t (aCoord c ! (iDim * 2 + 1)))) aCell fp_zero)
       (fmul (fp_of_int (int (length aCell))) (fp_of_int 2))"

definition cell_distance :: "Rtree \<Rightarrow> RtreeCell list \<Rightarrow> RtreeCell \<Rightarrow> fp" where
  "cell_distance t aCell c =
     fold (\<lambda>iDim s.
         let coord = fsub (DCOORD t (aCoord c ! (iDim * 2 + 1))) (DCOORD t (aCoord c ! (iDim * 2)));
             d = fsub coord (center_coord t aCell iDim)
         in fadd s (fmul d d)) [0..<nDim t] fp_zero"

text \<open>The loop of \<open>Reinsert\<close> that puts the nearest cells back.\<close>

definition refill :: "nat \<Rightarrow> i64 \<Rightarrow> int \<Rightarrow> RtreeCell \<Rightarrow> Rtree \<Rightarrow> int \<times> Rtree" where
  "refill a newRowid h p t =
     (let t = upd_node (\<lambda>n. snd (nodeInsertCell t n p)) a t
      in if iRowid p = newRowid then xSetMapping h (iRowid p) (iNode (node_at t a)) t else (SQLITE_OK, t))"

text \<open>
  \<open>SplitNode\<close> up to the two inserts into the parent: the cells are distributed and both halves
  have numbers. \<open>pLeft\<close> and \<open>pRight\<close> are returned for the clean-up at \<open>splitnode_out\<close>.
\<close>

definition split_prepare ::
  "nat \<Rightarrow> RtreeCell \<Rightarrow> Rtree \<Rightarrow> int \<times> nptr \<times> nptr \<times> RtreeCell \<times> RtreeCell \<times> Rtree" where
  "split_prepare a pCell t =
     (let (ok, t) = sqlite3_malloc t
      in if \<not> ok then (SQLITE_NOMEM, None, None, pCell, pCell, t)
         else
           let aCell = node_cells t (node_at t a) @ [pCell];
               t = upd_node (nodeZero t) a t;
               (pLeft, pRight, t) =
                 (if iNode (node_at t a) = 1 then
                    let (pRight, t) = nodeNew (Some a) t; (pLeft, t) = nodeNew (Some a) t;
                        t = t\<lparr>iDepth := iDepth t + 1\<rparr>;
                        t = upd_node (\<lambda>n. n\<lparr>isDirty := True, zData := writeInt16 (zData n) (iDepth t)\<rparr>) a t
                    in (pLeft, pRight, t)
                  else
                    let (pRight, t) = nodeNew (pParent (node_at t a)) t
                    in (Some a, pRight, nodeReference (Some a) t))
           in case (pLeft, pRight) of
                (Some l, Some r) \<Rightarrow>
                  let clear = (\<lambda>n. n\<lparr>zData := memset (zData n) 0 (nat (iNodeSize t))\<rparr>);
                      t = upd_node clear r (upd_node clear l t);
                      (t, res) = splitNodeStartree t aCell (length aCell) (node_at t l) (node_at t r)
                  in (case res of
                        Inl e \<Rightarrow> (e, pLeft, pRight, pCell, pCell, t)
                      | Inr (nl, nr, bl, br) \<Rightarrow>
                          let t = upd_node (\<lambda>_. nr) r (upd_node (\<lambda>_. nl) l t);
                              (rc, t) = nodeWrite r t;
                              (rc, t) = (if rc = SQLITE_OK \<and> iNode (node_at t l) = 0 then nodeWrite l t else (rc, t))
                          in (rc, pLeft, pRight, bl\<lparr>iRowid := iNode (node_at t l)\<rparr>,
                              br\<lparr>iRowid := iNode (node_at t r)\<rparr>, t))
              | _ \<Rightarrow> (SQLITE_NOMEM, pLeft, pRight, pCell, pCell, t))"

text \<open>The mappings of the cells after the inserts, and the normal releases of the two halves.\<close>

definition split_mappings :: "nat \<Rightarrow> nat \<Rightarrow> nat \<Rightarrow> RtreeCell \<Rightarrow> int \<Rightarrow> Rtree \<Rightarrow> int \<times> Rtree" where
  "split_mappings a l r pCell h t =
     (let rights = map iRowid (node_cells t (node_at t r));
          (rc, t) = each_ok (\<lambda>rid. updateMapping rid r h) rights t
      in if rc \<noteq> SQLITE_OK then (rc, t)
         else if iNode (node_at t a) = 1
         then each_ok (\<lambda>rid. updateMapping rid l h) (map iRowid (node_cells t (node_at t l))) t
         else if iRowid pCell \<notin> set rights then updateMapping (iRowid pCell) l h t
         else (SQLITE_OK, t))"

text \<open>
  \<open>SplitNode\<close> and \<open>Reinsert\<close> call \<open>rtreeInsertCell\<close>, which calls them: the recursive call
  is their first argument \<open>ins\<close>.
\<close>

definition SplitNode ::
  "(nat \<Rightarrow> RtreeCell \<Rightarrow> int \<Rightarrow> Rtree \<Rightarrow> int \<times> Rtree) \<Rightarrow> nat \<Rightarrow> RtreeCell \<Rightarrow> int \<Rightarrow> Rtree \<Rightarrow> int \<times> Rtree" where
  "SplitNode ins a pCell h t =
     (let (rc, pLeft, pRight, bl, br, t) = split_prepare a pCell t;
          l = the pLeft; r = the pRight;
          (rc, t) =
            (if rc \<noteq> SQLITE_OK then (rc, t)
             else if iNode (node_at t a) = 1 then ins (the (pParent (node_at t l))) bl (h + 1) t
             else case nodeParentIndex l t of
                    Inl e \<Rightarrow> (e, t)
                  | Inr i \<Rightarrow>
                      let p = the (pParent (node_at t l))
                      in AdjustTree p bl (upd_node (\<lambda>n. nodeOverwriteCell t n bl (nat i)) p t));
          (rc, t) = (if rc \<noteq> SQLITE_OK then (rc, t)
                     else ins (the (pParent (node_at t r))) br (h + 1) t);
          (rc, t) = (if rc \<noteq> SQLITE_OK then (rc, t) else split_mappings a l r pCell h t);
          (rc, pRight, t) = (if rc \<noteq> SQLITE_OK then (rc, pRight, t)
                             else let (rc, t) = nodeRelease pRight t in (rc, None, t));
          (rc, pLeft, t) = (if rc \<noteq> SQLITE_OK then (rc, pLeft, t)
                            else let (rc, t) = nodeRelease pLeft t in (rc, None, t))
      in (rc, release pLeft (release pRight t)))"

text \<open>Choosing a leaf for each of the cells and inserting it, until an error.\<close>

definition insert_anew ::
  "(nat \<Rightarrow> RtreeCell \<Rightarrow> int \<Rightarrow> Rtree \<Rightarrow> int \<times> Rtree) \<Rightarrow> int \<Rightarrow> RtreeCell \<Rightarrow> Rtree \<Rightarrow> int \<times> Rtree" where
  "insert_anew ins h p t =
     (let (rc, pInsert, t) = ChooseLeaf p h t
      in if rc \<noteq> SQLITE_OK then (rc, t)
         else
           let (rc, t) = ins (the pInsert) p h t; (rc2, t) = nodeRelease pInsert t
           in (if rc = SQLITE_OK then rc2 else rc, t))"

definition Reinsert ::
  "(nat \<Rightarrow> RtreeCell \<Rightarrow> int \<Rightarrow> Rtree \<Rightarrow> int \<times> Rtree) \<Rightarrow> nat \<Rightarrow> RtreeCell \<Rightarrow> int \<Rightarrow> Rtree \<Rightarrow> int \<times> Rtree" where
  "Reinsert ins a pCell h t =
     (let (ok, t) = sqlite3_malloc t
      in if \<not> ok then (SQLITE_NOMEM, t)
         else
           let aCell = node_cells t (node_at t a) @ [pCell];
               nCell = length aCell;
               aDistance = map (cell_distance t aCell) aCell;
               aOrder = SortByDistance aDistance [0..<nCell] nCell;
               t = upd_node (nodeZero t) a t;
               nKeep = nat (int nCell - (RTREE_MINCELLS t + 1));
               (rc, t) = each_ok (refill a (iRowid pCell) h) (map ((!) aCell) (take nKeep aOrder)) t;
               (rc, t) = (if rc = SQLITE_OK then fixBoundingBox a t else (rc, t))
           in if rc = SQLITE_OK then each_ok (insert_anew ins h) (map ((!) aCell) (drop nKeep aOrder)) t else (rc, t))"

primrec rtreeInsertCell_rec :: "nat \<Rightarrow> nat \<Rightarrow> RtreeCell \<Rightarrow> int \<Rightarrow> Rtree \<Rightarrow> int \<times> Rtree" where
  "rtreeInsertCell_rec 0 a pCell h t = (FUEL_OUT, t)"
| "rtreeInsertCell_rec (Suc k) a pCell h t =
     (let t = (if 0 < h then reparent (iRowid pCell) a t else t);
          (full, n) = nodeInsertCell t (node_at t a) pCell;
          t = upd_node (\<lambda>_. n) a t
      in if full then
           if h \<le> iReinsertHeight t \<or> iNode (node_at t a) = 1
           then SplitNode (rtreeInsertCell_rec k) a pCell h t
           else Reinsert (rtreeInsertCell_rec k) a pCell h (t\<lparr>iReinsertHeight := h\<rparr>)
         else
           let (rc, t) = AdjustTree a pCell t
           in if rc = SQLITE_OK then xSetMapping h (iRowid pCell) (iNode (node_at t a)) t else (rc, t))"

definition rtreeInsertCell :: "nat \<Rightarrow> RtreeCell \<Rightarrow> int \<Rightarrow> Rtree \<Rightarrow> int \<times> Rtree" where
  "rtreeInsertCell = rtreeInsertCell_rec INSERT_FUEL"

definition reinsertNodeContent :: "RtreeNode \<Rightarrow> Rtree \<Rightarrow> int \<times> Rtree" where
  "reinsertNodeContent n t = each_ok (insert_anew rtreeInsertCell (sint (iNode n))) (node_cells t n) t"

section \<open>Deletion\<close>

text \<open>The test of \<open>fixLeafParent\<close> for a loop of references: is the number among the ancestors?\<close>

fun among_ancestors :: "nat \<Rightarrow> nptr \<Rightarrow> i64 \<Rightarrow> Rtree \<Rightarrow> bool" where
  "among_ancestors 0 p i t = False"
| "among_ancestors (Suc k) None i t = False"
| "among_ancestors (Suc k) (Some a) i t =
     (if iNode (node_at t a) \<noteq> i then among_ancestors k (pParent (node_at t a)) i t else True)"

fun fix_parents :: "nat \<Rightarrow> nat \<Rightarrow> nat \<Rightarrow> Rtree \<Rightarrow> int \<times> Rtree" where
  "fix_parents 0 leaf c t = (FUEL_OUT, t)"
| "fix_parents (Suc k) leaf c t =
     (if iNode (node_at t c) \<noteq> 1 \<and> pParent (node_at t c) = None then
        let (rc, t) = step_stmt t;
            (rc2, t) =
              (case map_of (parentTab t) (iNode (node_at t c)) of
                 Some i \<Rightarrow>
                   if rc = SQLITE_OK \<and> \<not> among_ancestors (Suc (nextAddr t)) (Some leaf) i t then
                     let (rc2, p, t) = nodeAcquire i None t in (rc2, upd_node (\<lambda>n. n\<lparr>pParent := p\<rparr>) c t)
                   else (SQLITE_OK, t)
               | None \<Rightarrow> (SQLITE_OK, t));
            rc = (if rc = SQLITE_OK then rc2 else rc)
        in if rc \<noteq> SQLITE_OK then (rc, t)
           else case pParent (node_at t c) of
                  None \<Rightarrow> (SQLITE_CORRUPT_VTAB, t)
                | Some q \<Rightarrow> fix_parents k leaf q t
      else (SQLITE_OK, t))"

definition fixLeafParent :: "nat \<Rightarrow> Rtree \<Rightarrow> int \<times> Rtree" where
  "fixLeafParent leaf t = fix_parents (nextAddr t + length (parentTab t) + 2) leaf leaf t"

definition delete_node_row :: "i64 \<Rightarrow> Rtree \<Rightarrow> int \<times> Rtree" where
  "delete_node_row i t =
     (let (rc, t) = step_stmt t
      in (rc, if rc = SQLITE_OK then t\<lparr>nodeTab := AList.delete i (nodeTab t)\<rparr> else t))"

definition delete_parent_row :: "i64 \<Rightarrow> Rtree \<Rightarrow> int \<times> Rtree" where
  "delete_parent_row i t =
     (let (rc, t) = step_stmt t
      in (rc, if rc = SQLITE_OK then t\<lparr>parentTab := AList.delete i (parentTab t)\<rparr> else t))"

text \<open>\<open>removeNode\<close> and \<open>deleteCell\<close> call each other up the tree: \<open>del\<close> is the call of \<open>deleteCell\<close>.\<close>

definition removeNode ::
  "(nat \<Rightarrow> nat \<Rightarrow> int \<Rightarrow> Rtree \<Rightarrow> int \<times> Rtree) \<Rightarrow> nat \<Rightarrow> int \<Rightarrow> Rtree \<Rightarrow> int \<times> Rtree" where
  "removeNode del a h t =
     (let (rc, par, t) =
            (case nodeParentIndex a t of
               Inl e \<Rightarrow> (e, None, t)
             | Inr i \<Rightarrow>
                 let par = pParent (node_at t a);
                     (rc, t) = del (the par) (nat i) (h + 1) (upd_node (\<lambda>n. n\<lparr>pParent := None\<rparr>) a t)
                 in (rc, par, t));
          (rc2, t) = nodeRelease par t;
          rc = (if rc = SQLITE_OK then rc2 else rc)
      in if rc \<noteq> SQLITE_OK then (rc, t)
         else
           let (rc, t) = delete_node_row (iNode (node_at t a)) t
           in if rc \<noteq> SQLITE_OK then (rc, t)
              else
                let (rc, t) = delete_parent_row (iNode (node_at t a)) t
                in if rc \<noteq> SQLITE_OK then (rc, t)
                   else
                     let t = nodeHashDelete a t;
                         t = upd_node (\<lambda>n. n\<lparr>iNode := of_int h, pNext := pDeleted t, nRef := nRef n + 1\<rparr>) a t
                     in (SQLITE_OK, t\<lparr>pDeleted := Some a\<rparr>))"

primrec deleteCell_rec :: "nat \<Rightarrow> nat \<Rightarrow> nat \<Rightarrow> int \<Rightarrow> Rtree \<Rightarrow> int \<times> Rtree" where
  "deleteCell_rec 0 a i h t = (FUEL_OUT, t)"
| "deleteCell_rec (Suc k) a i h t =
     (let (rc, t) = fixLeafParent a t
      in if rc \<noteq> SQLITE_OK then (rc, t)
         else
           let t = upd_node (\<lambda>n. nodeDeleteCell t n i) a t
           in if pParent (node_at t a) \<noteq> None then
                if NCELL (node_at t a) < RTREE_MINCELLS t then removeNode (deleteCell_rec k) a h t
                else fixBoundingBox a t
              else (SQLITE_OK, t))"

definition deleteCell :: "nat \<Rightarrow> nat \<Rightarrow> int \<Rightarrow> Rtree \<Rightarrow> int \<times> Rtree" where
  "deleteCell = deleteCell_rec INSERT_FUEL"

definition newRowid :: "Rtree \<Rightarrow> int \<times> i64 \<times> Rtree" where
  "newRowid t =
     (let (rc, t) = step_stmt t; k = auto_key (rowidTab t);
          t = (if rc = SQLITE_OK then t\<lparr>rowidTab := AList.update k 0 (rowidTab t), lastInsert := k\<rparr> else t)
      in (rc, lastInsert t, t))"

text \<open>The loop that reinserts the contents of the removed nodes and frees them.\<close>

fun reinsert_deleted :: "nat \<Rightarrow> int \<Rightarrow> Rtree \<Rightarrow> int \<times> Rtree" where
  "reinsert_deleted 0 rc t = (FUEL_OUT, t)"
| "reinsert_deleted (Suc k) rc t =
     (case pDeleted t of
        None \<Rightarrow> (rc, t)
      | Some a \<Rightarrow>
          let n = node_at t a;
              (rc, t) = (if rc = SQLITE_OK then reinsertNodeContent n t else (rc, t));
              t = t\<lparr>pDeleted := pNext (node_at t a)\<rparr>
          in reinsert_deleted k rc (sqlite3_free (Some a) t))"

text \<open>The root with one child left: the tree becomes one level lower.\<close>

definition shrink_root :: "nptr \<Rightarrow> Rtree \<Rightarrow> int \<times> Rtree" where
  "shrink_root pRoot t =
     (let iChild = nodeGetRowid t (node_at t (the pRoot)) 0;
          (rc, pChild, t) = nodeAcquire iChild pRoot t;
          (rc, t) = (if rc = SQLITE_OK then removeNode deleteCell (the pChild) (iDepth t - 1) t else (rc, t));
          (rc2, t) = nodeRelease pChild t;
          rc = (if rc = SQLITE_OK then rc2 else rc)
      in if rc = SQLITE_OK then
           let t = t\<lparr>iDepth := iDepth t - 1\<rparr>
           in (rc, upd_node (\<lambda>n. n\<lparr>zData := writeInt16 (zData n) (iDepth t), isDirty := True\<rparr>) (the pRoot) t)
         else (rc, t))"

definition rtreeDeleteRowid :: "i64 \<Rightarrow> Rtree \<Rightarrow> int \<times> Rtree" where
  "rtreeDeleteRowid iDelete t =
     (let (rc, pRoot, t) = nodeAcquire 1 None t;
          (rc, pLeaf, t) = (if rc = SQLITE_OK then let (rc, pLeaf, _, t) = findLeafNode iDelete t in (rc, pLeaf, t)
                            else (rc, None, t));
          (rc, t) =
            (if rc = SQLITE_OK then
               let (rc, t) = (case nodeRowidIndex t (node_at t (the pLeaf)) iDelete of
                                Inl e \<Rightarrow> (e, t) | Inr i \<Rightarrow> deleteCell (the pLeaf) i 0 t);
                   (rc2, t) = nodeRelease pLeaf t
               in (if rc = SQLITE_OK then rc2 else rc, t)
             else (rc, t));
          (rc, t) =
            (if rc = SQLITE_OK then
               let (rc, t) = step_stmt t
               in (rc, if rc = SQLITE_OK then t\<lparr>rowidTab := AList.delete iDelete (rowidTab t)\<rparr> else t)
             else (rc, t));
          (rc, t) = (if rc = SQLITE_OK \<and> 0 < iDepth t \<and> NCELL (node_at t (the pRoot)) = 1
                     then shrink_root pRoot t else (rc, t));
          (rc, t) = reinsert_deleted (Suc (nextAddr t)) rc t
      in if rc = SQLITE_OK then nodeRelease pRoot t else (rc, release pRoot t))"

section \<open>The update method\<close>

definition RNDTOWARDS :: fp where "RNDTOWARDS = fsub (fp_of_int 1) (fdiv (fp_of_int 1) (fp_of_int 8388608))"
definition RNDAWAY :: fp where "RNDAWAY = fadd (fp_of_int 1) (fdiv (fp_of_int 1) (fp_of_int 8388608))"

definition rtreeValueDown :: "fp \<Rightarrow> fp" where
  "rtreeValueDown d =
     (let f = to_float d
      in if flt d f then to_float (fmul d (if flt d fp_zero then RNDAWAY else RNDTOWARDS)) else f)"

definition rtreeValueUp :: "fp \<Rightarrow> fp" where
  "rtreeValueUp d =
     (let f = to_float d
      in if flt f d then to_float (fmul d (if flt d fp_zero then RNDTOWARDS else RNDAWAY)) else f)"

text \<open>The coordinates of a new row, a pair of values at a time; a reversed pair is an error.\<close>

fun row_coords :: "coord_type \<Rightarrow> sqlite3_value list \<Rightarrow> (int + u32 list)" where
  "row_coords et (v # w # vs) =
     (let (a, b) = (if et = RTREE_COORD_REAL32
                    then (encode32 (rtreeValueDown (value_double v)), encode32 (rtreeValueUp (value_double w)))
                    else (value_int v, value_int w))
      in if coord_less et b a then Inl SQLITE_CONSTRAINT
         else map_sum id (\<lambda>cs. a # b # cs) (row_coords et vs))"
| "row_coords et _ = Inr []"

text \<open>
  The part of \<open>rtreeUpdate\<close> before the deletion: the new cell, if the row has one, and whether
  its rowid is known. \<open>replace\<close> says that \<open>sqlite3_vtab_on_conflict\<close> is \<open>SQLITE_REPLACE\<close>.
\<close>

definition update_check ::
  "bool \<Rightarrow> sqlite3_value list \<Rightarrow> Rtree \<Rightarrow> (int + RtreeCell \<times> bool) \<times> int \<times> Rtree" where
  "update_check replace azData t =
     (if 1 < length azData then
        case row_coords (eCoordType t) (take (nDim t * 2) (drop 3 azData)) of
          Inl e \<Rightarrow> (Inl e, e, t)
        | Inr cs \<Rightarrow>
            if \<not> value_isNull (azData ! 2) then
              let rid = value_int64 (azData ! 2); cell = \<lparr>iRowid = rid, aCoord = cs\<rparr>
              in if value_isNull (azData ! 0) \<or> value_int64 (azData ! 0) \<noteq> rid then
                   let (rc, t) = step_stmt t
                   in if rc = SQLITE_OK \<and> map_of (rowidTab t) rid \<noteq> None then
                        if replace then let (rc, t) = rtreeDeleteRowid rid t in (Inr (cell, True), rc, t)
                        else (Inl SQLITE_CONSTRAINT, SQLITE_CONSTRAINT, t)
                      else (Inr (cell, True), rc, t)
                 else (Inr (cell, True), SQLITE_OK, t)
            else (Inr (\<lparr>iRowid = 0, aCoord = cs\<rparr>, False), SQLITE_OK, t)
      else (Inr (\<lparr>iRowid = 0, aCoord = []\<rparr>, False), SQLITE_OK, t))"

definition update_insert :: "RtreeCell \<Rightarrow> bool \<Rightarrow> Rtree \<Rightarrow> int \<times> i64 \<times> Rtree" where
  "update_insert cell bHaveRowid t =
     (let (rc, rid, t) = (if \<not> bHaveRowid then newRowid t else (SQLITE_OK, iRowid cell, t));
          cell = cell\<lparr>iRowid := rid\<rparr>;
          (rc, pLeaf, t) = (if rc = SQLITE_OK then ChooseLeaf cell 0 t else (rc, None, t));
          (rc, t) =
            (if rc = SQLITE_OK then
               let (rc, t) = rtreeInsertCell (the pLeaf) cell 0 (t\<lparr>iReinsertHeight := -1\<rparr>);
                   (rc2, t) = nodeRelease pLeaf t
               in (if rc = SQLITE_OK then rc2 else rc, t)
             else (rc, t))
      in (rc, rid, t))"

definition rtreeUpdate :: "bool \<Rightarrow> sqlite3_value list \<Rightarrow> Rtree \<Rightarrow> int \<times> i64 option \<times> Rtree" where
  "rtreeUpdate replace azData t =
     (let t = rtreeReference t; (chk, rc, t) = update_check replace azData t
      in case chk of
           Inl e \<Rightarrow> (e, None, rtreeRelease t)
         | Inr (cell, bHaveRowid) \<Rightarrow>
             let (rc, t) = (if \<not> value_isNull (azData ! 0) then rtreeDeleteRowid (value_int64 (azData ! 0)) t
                            else (rc, t))
             in if rc = SQLITE_OK \<and> 1 < length azData then
                  let (rc, rid, t) = update_insert cell bHaveRowid t in (rc, Some rid, rtreeRelease t)
                else (rc, None, rtreeRelease t))"

section \<open>Lemmas: the chosen child\<close>






section \<open>Lemmas: the ancestors of a node\<close>

definition node_ok :: "Rtree \<Rightarrow> nat \<Rightarrow> bool" where
  "node_ok t a \<longleftrightarrow> heap t a \<noteq> None \<and> wf_node t (node_at t a) \<and> list_all (num_cell t) (node_cells t (node_at t a))"

text \<open>Every ancestor's cell for the node below it contains the given cell.\<close>

fun path_contains :: "Rtree \<Rightarrow> RtreeCell \<Rightarrow> nat \<Rightarrow> nat list \<Rightarrow> bool" where
  "path_contains t c p [] \<longleftrightarrow> True"
| "path_contains t c p (q # qs) \<longleftrightarrow>
     (case nodeParentIndex p t of
        Inl e \<Rightarrow> False
      | Inr i \<Rightarrow> cellContains t (node_cells t (node_at t q) ! nat i) c) \<and> path_contains t c q qs"

definition same_geom :: "Rtree \<Rightarrow> Rtree \<Rightarrow> bool" where
  "same_geom u t \<longleftrightarrow> nDim u = nDim t \<and> eCoordType u = eCoordType t \<and> nBytesPerCell u = nBytesPerCell t \<and>
     iNodeSize u = iNodeSize t"

lemma same_geom_upd [simp]: "same_geom (upd_node f a t) t"
  by (simp add: same_geom_def upd_node_def)

lemma same_geomD:
  assumes "same_geom u t"
  shows "wf_rtree u = wf_rtree t" "wf_node u = wf_node t" "wf_cell u = wf_cell t" "num_cell u = num_cell t"
    "node_cells u = node_cells t" "cellContains u = cellContains t" "nodeGetCell u = nodeGetCell t"
  using assms same_geometry [of u t]
  by (auto simp: same_geom_def fun_eq_iff nodeGetCell_def nodeGetRowid_def)

lemma nodeRowidIndex_unique:
  assumes "j < length (node_cells t n)" "iRowid (node_cells t n ! j) = r"
    and "\<And>l. l < j \<Longrightarrow> iRowid (node_cells t n ! l) \<noteq> r"
  shows "nodeRowidIndex t n r = Inr j"
proof (cases "nodeRowidIndex t n r")
  case (Inl e)
  then show ?thesis using nodeRowidIndex_Inl(2) [OF Inl] assms(1,2) nth_mem by blast
next
  case (Inr i)
  note I = nodeRowidIndex_Inr [OF Inr]
  have "i = j" using I assms by (metis linorder_neqE_nat)
  with Inr show ?thesis by simp
qed

lemma node_at_upd: "node_at (upd_node f a t) b = (if b = a then f (node_at t a) else node_at t b)"
  by (simp add: upd_node_def node_at_def)

lemma heap_upd: "heap (upd_node f a t) b \<noteq> None \<longleftrightarrow> b = a \<or> heap t b \<noteq> None"
  by (simp add: upd_node_def)

lemma nodeOverwriteCell_fields [simp]:
  "pParent (nodeOverwriteCell t n c i) = pParent n" "iNode (nodeOverwriteCell t n c i) = iNode n"
  by (simp_all add: nodeOverwriteCell_def)

text \<open>
  What the loops over the ancestors leave as it was. Outside of the node memory nothing changes:
  not the tables, the hash table or the depth. No node outside \<open>S\<close> changes. In the nodes of \<open>S\<close> only
  the page and its dirty mark do: reference counts, parents, numbers and hash links stay, and so do the
  header of the page and the rowids of the cells, in their order; a node that did change is dirty.
\<close>

definition only_nodes :: "Rtree \<Rightarrow> Rtree \<Rightarrow> bool" where
  "only_nodes t u \<longleftrightarrow> u = t\<lparr>heap := heap u\<rparr>"

lemma only_nodes_refl [simp]: "only_nodes t t"
  by (simp add: only_nodes_def)

lemma only_nodes_upd: "only_nodes t (upd_node f a t)"
  by (simp add: only_nodes_def upd_node_def)

lemma only_nodes_trans: "only_nodes t u \<Longrightarrow> only_nodes u v \<Longrightarrow> only_nodes t v"
  by (cases t, cases u, cases v) (simp add: only_nodes_def)

definition page_only :: "RtreeNode \<Rightarrow> RtreeNode \<Rightarrow> bool" where
  "page_only n m \<longleftrightarrow> m = n\<lparr>zData := zData m, isDirty := isDirty m\<rparr> \<and> length (zData m) = length (zData n) \<and>
     take 4 (zData m) = take 4 (zData n) \<and> (m = n \<or> isDirty m)"

definition walk_frame :: "Rtree \<Rightarrow> nat set \<Rightarrow> Rtree \<Rightarrow> bool" where
  "walk_frame t S u \<longleftrightarrow> same_geom u t \<and> only_nodes t u \<and> (\<forall>a. a \<notin> S \<longrightarrow> heap u a = heap t a) \<and>
     (\<forall>a. page_only (node_at t a) (node_at u a)) \<and>
     (\<forall>a. pParent (node_at u a) = pParent (node_at t a) \<and> iNode (node_at u a) = iNode (node_at t a) \<and>
       map iRowid (node_cells t (node_at u a)) = map iRowid (node_cells t (node_at t a))) \<and>
     (\<forall>a. node_ok t a \<longrightarrow> node_ok u a)"

lemma page_only_refl [simp]: "page_only n n"
  by (simp add: page_only_def)

lemma page_only_trans: "page_only n m \<Longrightarrow> page_only m k \<Longrightarrow> page_only n k"
  by (cases n; cases m; cases k) (auto simp: page_only_def)

lemma walk_frame_refl [simp]: "walk_frame t S t"
  by (simp add: walk_frame_def same_geom_def)

lemma walk_frame_mono: "walk_frame t S u \<Longrightarrow> S \<subseteq> T \<Longrightarrow> walk_frame t T u"
  by (auto simp: walk_frame_def)

lemma walk_frame_trans:
  assumes "walk_frame t S u" "walk_frame u S v"
  shows "walk_frame t S v"
proof -
  have "only_nodes t v" using assms only_nodes_trans by (auto simp: walk_frame_def)
  moreover have "page_only (node_at t a) (node_at v a)" for a
    using assms page_only_trans [of "node_at t a" "node_at u a" "node_at v a"] by (simp add: walk_frame_def)
  ultimately show ?thesis
    using assms same_geomD(5) [of u t] by (simp add: walk_frame_def same_geom_def)
qed

lemma walk_frame_node: "walk_frame t S u \<Longrightarrow> a \<notin> S \<Longrightarrow> node_at u a = node_at t a"
  by (simp add: walk_frame_def node_at_def)

lemma nodeRowidIndex_rowids:
  assumes "map iRowid (node_cells u m) = map iRowid (node_cells t n)"
  shows "nodeRowidIndex u m r = nodeRowidIndex t n r"
proof -
  have l: "length (node_cells u m) = length (node_cells t n)" using assms map_eq_imp_length_eq by blast
  have r: "iRowid (node_cells u m ! j) = iRowid (node_cells t n ! j)" if "j < length (node_cells t n)" for j
    using assms l that by (metis nth_map)
  show ?thesis
  proof (cases "nodeRowidIndex t n r")
    case (Inr j)
    note I = nodeRowidIndex_Inr [OF Inr]
    have "nodeRowidIndex u m r = Inr j"
      by (rule nodeRowidIndex_unique) (use I l r in auto)
    with Inr show ?thesis by simp
  next
    case (Inl e)
    have "r \<notin> iRowid ` set (node_cells u m)"
      using nodeRowidIndex_Inl(2) [OF Inl] assms by (metis list.set_map)
    then have "nodeRowidIndex u m r \<noteq> Inr j" for j
      using nodeRowidIndex_Inr(1,2) [of u m r j] by (metis image_eqI nth_mem)
    then show ?thesis
      using Inl nodeRowidIndex_Inl(1) by (metis sum.exhaust)
  qed
qed

lemma walk_frame_index:
  assumes "walk_frame t S u"
  shows "nodeParentIndex p u = nodeParentIndex p t"
proof (cases "pParent (node_at t p)")
  case (Some q)
  have "map iRowid (node_cells u (node_at u q)) = map iRowid (node_cells t (node_at t q))"
    using assms same_geomD(5) by (auto simp: walk_frame_def)
  from nodeRowidIndex_rowids [OF this, of "iNode (node_at t p)"] show ?thesis
    using assms Some by (simp add: nodeParentIndex_def walk_frame_def)
qed (use assms in \<open>auto simp: nodeParentIndex_def walk_frame_def\<close>)

lemma nodeParentIndex_Inr:
  assumes "nodeParentIndex p t = Inr i" "pParent (node_at t p) = Some q"
  shows "nat i < length (node_cells t (node_at t q))" "iRowid (node_cells t (node_at t q) ! nat i) = iNode (node_at t p)"
proof -
  obtain j where "nodeRowidIndex t (node_at t q) (iNode (node_at t p)) = Inr j" "i = int j"
    using assms by (cases "nodeRowidIndex t (node_at t q) (iNode (node_at t p))") (auto simp: nodeParentIndex_def)
  then show "nat i < length (node_cells t (node_at t q))"
      "iRowid (node_cells t (node_at t q) ! nat i) = iNode (node_at t p)"
    using nodeRowidIndex_Inr by auto
qed

lemma overwrite_frame:
  assumes "wf_rtree t" "node_ok t q" "nodeParentIndex p t = Inr i" "pParent (node_at t p) = Some q"
    and "num_cell t b" "iRowid b = iNode (node_at t p)"
  defines "u \<equiv> upd_node (\<lambda>n. nodeOverwriteCell t n b (nat i)) q t"
  shows "walk_frame t {q} u" "node_cells t (node_at u q) = (node_cells t (node_at t q))[nat i := b]"
proof -
  let ?n = "node_at t q"
  note I = nodeParentIndex_Inr [OF assms(3,4)]
  have i: "int (nat i) < NCELL ?n" using I(1) by (simp add: NCELL_bounds)
  then have mx: "int (nat i) < nMaxCell t" using assms(2) by (simp add: node_ok_def wf_node_def)
  have b: "wf_cell t b" using assms(5) by (simp add: num_cell_def)
  have n: "wf_node t ?n" "list_all (num_cell t) (node_cells t ?n)" "heap t q \<noteq> None"
    using assms(2) by (auto simp: node_ok_def)
  note C = nodeOverwriteCell_cells [OF assms(1) n(1) b i]
  have g: "same_geom u t" by (simp add: u_def)
  have nu: "node_at u a = (if a = q then nodeOverwriteCell t ?n b (nat i) else node_at t a)"
      "heap u a \<noteq> None \<longleftrightarrow> a = q \<or> heap t a \<noteq> None" for a
    by (simp_all add: u_def node_at_upd heap_upd del: not_None_eq)
  have hu: "heap u a = heap t a" if "a \<noteq> q" for a using that by (simp add: u_def upd_node_def)
  show c: "node_cells t (node_at u q) = (node_cells t ?n)[nat i := b]" by (simp add: u_def node_at_upd C)
  have r: "map iRowid ((node_cells t ?n)[nat i := b]) = map iRowid (node_cells t ?n)"
    using I assms(6) by (simp add: map_update del: length_node_cells) (metis I(1) list_update_id nth_map)
  have "node_ok u a" if "node_ok t a" for a
  proof (cases "a = q")
    case True
    have "list_all (num_cell t) ((node_cells t ?n)[nat i := b])"
      using n(2) assms(5) by (auto simp: list_all_iff dest!: set_update_subset_insert [THEN subsetD])
    then show ?thesis using True C g n(3) by (simp add: node_ok_def same_geomD [OF g] nu del: not_None_eq)
  qed (use that in \<open>auto simp: node_ok_def same_geomD [OF g] nu simp del: not_None_eq\<close>)
  moreover have "page_only ?n (nodeOverwriteCell t ?n b (nat i))"
    using take4_nodeOverwriteCell [OF assms(1) n(1) b mx] length_nodeOverwriteCell [OF assms(1) n(1) b mx]
    by (simp add: page_only_def) (simp add: nodeOverwriteCell_def)
  moreover have "only_nodes t u" by (simp add: u_def only_nodes_upd)
  ultimately show "walk_frame t {q} u"
    unfolding walk_frame_def using g c r hu by (auto simp: nu(1))
qed

lemma contains_list_trans:
  assumes "list_all2 (cellContains t) xs ys" "list_all2 (cellContains t) ys zs"
    and "list_all (num_cell t) xs" "list_all (num_cell t) ys" "list_all (num_cell t) zs"
  shows "list_all2 (cellContains t) xs zs"
proof (rule list_all2_all_nthI)
  show l: "length xs = length zs" using assms(1,2) by (simp add: list_all2_conv_all_nth)
  show "cellContains t (xs ! i) (zs ! i)" if "i < length xs" for i
    by (rule rt.contains_trans [of t _ "ys ! i"])
      (use assms l that in \<open>auto simp: list_all2_conv_all_nth list_all_length\<close>)
qed

lemma contains_list_refl: "list_all (num_cell t) xs \<Longrightarrow> list_all2 (cellContains t) xs xs"
  using rt.contains_refl by (auto simp: list_all2_conv_all_nth list_all_length)

text \<open>
  What \<open>AdjustTree\<close> makes of each ancestor, up to the first that has no cell for the node below it:
  that cell becomes the union with the inserted one, unless it contained it already; the others stay.
\<close>

fun path_adjusted :: "Rtree \<Rightarrow> Rtree \<Rightarrow> RtreeCell \<Rightarrow> nat \<Rightarrow> nat list \<Rightarrow> bool" where
  "path_adjusted t u c p [] \<longleftrightarrow> True"
| "path_adjusted t u c p (q # qs) \<longleftrightarrow>
     (case nodeParentIndex p t of
        Inl e \<Rightarrow> \<forall>a\<in>set (q # qs). heap u a = heap t a
      | Inr i \<Rightarrow>
          let old = node_cells t (node_at t q); cell = old ! nat i
          in node_cells u (node_at u q) = old[nat i := if cellContains t cell c then cell else cellUnion t cell c] \<and>
             path_adjusted t u c q qs)"

lemma path_adjusted_frame:
  assumes "walk_frame t {a} v" "a \<notin> set ps"
  shows "path_adjusted v u c p ps = path_adjusted t u c p ps"
  using assms(2)
proof (induction ps arbitrary: p)
  case (Cons q qs)
  have g: "same_geom v t" using assms(1) by (simp add: walk_frame_def)
  have "cellUnion v = cellUnion t" using g by (simp add: fun_eq_iff cellUnion_def same_geom_def)
  moreover have "node_at v q = node_at t q" "\<forall>b\<in>set (q # qs). heap v b = heap t b"
    using walk_frame_node [OF assms(1), of q] Cons.prems assms(1) by (auto simp: walk_frame_def)
  ultimately show ?case using Cons walk_frame_index [OF assms(1), of p]
    by (auto simp: same_geomD [OF g] Let_def split: sum.split)
qed simp

lemma adjust_loop_post:
  assumes "wf_rtree t" "num_cell t c" "ancestry t p ps" "distinct (p # ps)" "\<forall>a\<in>set ps. node_ok t a"
    and "length ps < k" "adjust_loop k p c t = (rc, u)"
  shows "walk_frame t (set ps) u \<and> (rc = SQLITE_OK \<or> rc = SQLITE_CORRUPT_VTAB) \<and>
    (\<forall>a. node_ok t a \<longrightarrow> list_all2 (cellContains t) (node_cells t (node_at u a)) (node_cells t (node_at t a))) \<and>
    (rc = SQLITE_OK \<longrightarrow> path_contains u c p ps) \<and> path_adjusted t u c p ps"
  using assms
proof (induction ps arbitrary: k p t)
  case Nil
  then obtain k' where "k = Suc k'" by (cases k) auto
  with Nil show ?case
    by (auto intro: contains_list_refl simp: node_ok_def)
next
  case (Cons q qs)
  obtain k' where k: "k = Suc k'" using Cons.prems(6) by (cases k) auto
  have q: "pParent (node_at t p) = Some q" "ancestry t q qs" using Cons.prems(3) by auto
  have ok: "node_ok t q" "\<forall>a\<in>set qs. node_ok t a" using Cons.prems(5) by auto
  have self: "list_all2 (cellContains t) (node_cells t (node_at t a)) (node_cells t (node_at t a))" if "node_ok t a" for a
    using that by (auto intro: contains_list_refl simp: node_ok_def)
  show ?case
  proof (cases "nodeParentIndex p t")
    case (Inl e)
    then show ?thesis using Cons.prems(7) q self by (auto simp: k)
  next
    case (Inr i)
    note I = nodeParentIndex_Inr [OF Inr q(1)]
    let ?cell = "node_cells t (node_at t q) ! nat i"
    have cell: "nodeGetCell t (node_at t q) (nat i) = ?cell" using I(1) by (simp add: node_cells_nth)
    have nc: "num_cell t ?cell" using ok(1) I(1) by (simp add: node_ok_def list_all_length)
    define b where "b = (if cellContains t ?cell c then ?cell else cellUnion t ?cell c)"
    have b: "num_cell t b" "cellContains t b c" "cellContains t b ?cell"
      using nc Cons.prems(2) rt.valid_union rt.union_left rt.union_right rt.contains_refl by (auto simp: b_def)
    have br: "iRowid b = iNode (node_at t p)" using I(2) by (simp add: b_def cellUnion_def)
    define v where "v = (if cellContains t ?cell c then t else upd_node (\<lambda>n. nodeOverwriteCell t n b (nat i)) q t)"
    note O = overwrite_frame [OF Cons.prems(1) ok(1) Inr q(1) b(1) br]
    have v: "walk_frame t {q} v" "node_cells t (node_at v q) = (node_cells t (node_at t q))[nat i := b]"
      using O by (auto simp: v_def b_def)
    have run: "adjust_loop k' q c v = (rc, u)"
      using Cons.prems(7) q(1) Inr by (simp add: k cell v_def b_def Let_def split: if_splits)
    have g: "same_geom v t" using v(1) by (simp add: walk_frame_def)
    have va: "ancestry v q qs" using q(2) v(1) by (subst ancestry_cong [of _ _ v t]) (auto simp: walk_frame_def)
    have IH: "walk_frame v (set qs) u \<and> (rc = SQLITE_OK \<or> rc = SQLITE_CORRUPT_VTAB) \<and>
        (\<forall>a. node_ok v a \<longrightarrow> list_all2 (cellContains v) (node_cells v (node_at u a)) (node_cells v (node_at v a))) \<and>
        (rc = SQLITE_OK \<longrightarrow> path_contains u c q qs) \<and> path_adjusted v u c q qs"
      by (rule Cons.IH [OF _ _ va _ _ _ run])
        (use Cons.prems(1,2,4,6) ok(2) v(1) k in \<open>auto simp: same_geomD [OF g] walk_frame_def\<close>)
    have fr: "walk_frame t (set (q # qs)) u"
      by (rule walk_frame_trans [OF walk_frame_mono [OF v(1)] walk_frame_mono [of v "set qs"]]) (use IH in auto)
    have grow: "list_all2 (cellContains t) (node_cells t (node_at u a)) (node_cells t (node_at t a))" if a: "node_ok t a" for a
    proof (rule contains_list_trans)
      show "list_all2 (cellContains t) (node_cells t (node_at u a)) (node_cells t (node_at v a))"
        using IH a v(1) by (simp add: same_geomD [OF g] walk_frame_def)
      show "list_all2 (cellContains t) (node_cells t (node_at v a)) (node_cells t (node_at t a))"
      proof (cases "a = q")
        case True
        then show ?thesis using v(2) self [OF ok(1)] b(3) I(1)
          by (auto simp: list_all2_conv_all_nth nth_list_update simp del: length_node_cells)
      next
        case False
        then show ?thesis using walk_frame_node [OF v(1), of a] self [OF a] by simp
      qed
    qed (use a v(1) fr in \<open>auto simp: walk_frame_def node_ok_def same_geomD\<close>)
    have uq: "node_at u q = node_at v q" using walk_frame_node IH Cons.prems(4) by auto
    have "nodeParentIndex p u = Inr i" using walk_frame_index [OF fr] Inr by simp
    moreover have "cellContains u (node_cells u (node_at u q) ! nat i) c"
    proof -
      have "same_geom u t" using fr by (simp add: walk_frame_def)
      then show ?thesis using uq v(2) I(1) b(2) by (simp add: same_geomD)
    qed
    moreover have "path_adjusted t u c p (q # qs)"
    proof -
      have "path_adjusted t u c q qs" using IH path_adjusted_frame [OF v(1)] Cons.prems(4) by simp
      moreover have "same_geom u t" using fr by (simp add: walk_frame_def)
      ultimately show ?thesis using Inr uq v(2) by (simp add: b_def same_geomD Let_def)
    qed
    ultimately show ?thesis using fr grow IH by auto
  qed
qed

lemma ancestors_fuel: "distinct ps \<Longrightarrow> \<forall>a\<in>set ps. a < n \<Longrightarrow> length ps < Suc n"
  using card_mono [of "{..<n}" "set ps"] by (auto simp: distinct_card subset_iff)

section \<open>Lemmas: the box of a node\<close>

lemma node_box_unions:
  assumes "node_cells t n \<noteq> []"
  shows "node_box t n = rt.unions t (tl (node_cells t n)) (hd (node_cells t n))"
proof -
  have "[0..<nat (NCELL n)] = 0 # [1..<nat (NCELL n)]"
    using assms by (simp add: node_cells_def upt_conv_Cons)
  then have "node_cells t n = nodeGetCell t n 0 # map (nodeGetCell t n) [1..<nat (NCELL n)]"
    by (simp add: node_cells_def)
  then show ?thesis by (simp add: node_box_def rt.unions_def fold_map o_def)
qed

lemma iRowid_irrelevant [simp]:
  "num_cell t (c\<lparr>iRowid := r\<rparr>) = num_cell t c"
  "cellContains t (c\<lparr>iRowid := r\<rparr>) d = cellContains t c d"
  "cellContains t d (c\<lparr>iRowid := r\<rparr>) = cellContains t d c"
  by (simp_all add: num_cell_def wf_cell_def cellContains_def)

lemma node_box_least:
  assumes "node_ok t a" "node_cells t (node_at t a) \<noteq> []"
  defines "b \<equiv> node_box t (node_at t a)"
  shows "num_cell t b" "c \<in> set (node_cells t (node_at t a)) \<Longrightarrow> cellContains t b c"
    "num_cell t d \<Longrightarrow> (\<forall>c\<in>set (node_cells t (node_at t a)). cellContains t d c) \<Longrightarrow> cellContains t d b"
proof -
  obtain x xs where x: "node_cells t (node_at t a) = x # xs" using assms(2) by (meson neq_Nil_conv)
  have v: "num_cell t x" "list_all (num_cell t) xs" using assms(1) x by (auto simp: node_ok_def)
  have b: "b = rt.unions t xs x" using node_box_unions [OF assms(2)] by (simp add: b_def x)
  show "num_cell t b" using rt.valid_unions v by (simp add: b)
  show "c \<in> set (node_cells t (node_at t a)) \<Longrightarrow> cellContains t b c"
    using rt.unions_seed [OF v] rt.unions_member [OF v] by (auto simp: b x)
  show "num_cell t d \<Longrightarrow> (\<forall>c\<in>set (node_cells t (node_at t a)). cellContains t d c) \<Longrightarrow> cellContains t d b"
    using rt.unions_least [OF v] by (auto simp: b x)
qed

text \<open>Every ancestor's cell for the node below it is the box of that node.\<close>

fun path_tight :: "Rtree \<Rightarrow> nat \<Rightarrow> nat list \<Rightarrow> bool" where
  "path_tight t p [] \<longleftrightarrow> True"
| "path_tight t p (q # qs) \<longleftrightarrow>
     (case nodeParentIndex p t of
        Inl e \<Rightarrow> False
      | Inr i \<Rightarrow> node_cells t (node_at t q) ! nat i = (node_box t (node_at t p))\<lparr>iRowid := iNode (node_at t p)\<rparr>) \<and>
     path_tight t q qs"

lemma node_box_geom: "same_geom u t \<Longrightarrow> node_box u n = node_box t n"
  by (simp add: node_box_def same_geomD cellUnion_def) (simp add: same_geom_def cellUnion_def)

lemma fix_box_post:
  assumes "wf_rtree t" "ancestry t p ps" "distinct (p # ps)" "\<forall>a\<in>set (p # ps). node_ok t a"
    and "node_cells t (node_at t p) \<noteq> []" "length ps < k" "fix_box k p t = (rc, u)"
  shows "walk_frame t (set ps) u \<and> (rc = SQLITE_OK \<or> rc = SQLITE_CORRUPT_VTAB) \<and>
    (rc = SQLITE_OK \<longrightarrow> path_tight u p ps)"
  using assms
proof (induction ps arbitrary: k p t)
  case Nil
  then obtain k' where "k = Suc k'" by (cases k) auto
  with Nil show ?case by auto
next
  case (Cons q qs)
  obtain k' where k: "k = Suc k'" using Cons.prems(6) by (cases k) auto
  have q: "pParent (node_at t p) = Some q" "ancestry t q qs" using Cons.prems(2) by auto
  have ok: "node_ok t p" "node_ok t q" "\<forall>a\<in>set qs. node_ok t a" using Cons.prems(4) by auto
  define b where "b = (node_box t (node_at t p))\<lparr>iRowid := iNode (node_at t p)\<rparr>"
  show ?case
  proof (cases "nodeParentIndex p t")
    case (Inl e)
    have "e = SQLITE_CORRUPT_VTAB"
      using Inl q(1) nodeRowidIndex_Inl(1)
      by (cases "nodeRowidIndex t (node_at t q) (iNode (node_at t p))") (auto simp: nodeParentIndex_def)
    then show ?thesis using Cons.prems(7) q Inl by (auto simp: k)
  next
    case (Inr i)
    note I = nodeParentIndex_Inr [OF Inr q(1)]
    have b: "num_cell t b" "iRowid b = iNode (node_at t p)"
      using node_box_least(1) [OF ok(1) Cons.prems(5)] by (simp_all add: b_def)
    define v where "v = upd_node (\<lambda>n. nodeOverwriteCell t n b (nat i)) q t"
    note v = overwrite_frame [OF Cons.prems(1) ok(2) Inr q(1) b, folded v_def]
    have run: "fix_box k' q v = (rc, u)"
      using Cons.prems(7) q(1) Inr by (simp add: k v_def b_def Let_def)
    have g: "same_geom v t" using v(1) by (simp add: walk_frame_def)
    have va: "ancestry v q qs" using q(2) v(1) by (subst ancestry_cong [of _ _ v t]) (auto simp: walk_frame_def)
    have ne: "node_cells v (node_at v q) \<noteq> []"
      using I(1) v(2) by (auto simp: same_geomD(5) [OF g] simp del: length_node_cells)
    have IH: "walk_frame v (set qs) u \<and> (rc = SQLITE_OK \<or> rc = SQLITE_CORRUPT_VTAB) \<and>
        (rc = SQLITE_OK \<longrightarrow> path_tight u q qs)"
      by (rule Cons.IH [OF _ va _ _ ne _ run])
        (use Cons.prems(1,3,6) ok v(1) k in \<open>auto simp: same_geomD [OF g] walk_frame_def\<close>)
    have fr: "walk_frame t (set (q # qs)) u"
      by (rule walk_frame_trans [OF walk_frame_mono [OF v(1)] walk_frame_mono [of v "set qs"]]) (use IH in auto)
    have gu: "same_geom u t" using fr by (simp add: walk_frame_def)
    have uq: "node_at u q = node_at v q" "node_at u p = node_at t p"
      using walk_frame_node [of v "set qs" u q] walk_frame_node [OF fr, of p] IH Cons.prems(3) by auto
    have "nodeParentIndex p u = Inr i" using walk_frame_index [OF fr] Inr by simp
    moreover have "node_cells u (node_at u q) ! nat i = (node_box u (node_at u p))\<lparr>iRowid := iNode (node_at u p)\<rparr>"
      using uq v(2) I(1) by (simp add: same_geomD [OF gu] node_box_geom [OF gu] b_def)
    ultimately show ?thesis using fr IH by auto
  qed
qed

lemma row_coords_step:
  obtains a b where "row_coords et (v # w # vs) =
    (if coord_less et b a then Inl SQLITE_CONSTRAINT else map_sum id (\<lambda>cs. a # b # cs) (row_coords et vs))"
proof (cases "et = RTREE_COORD_REAL32")
  case True
  show thesis
    by (rule that [of "encode32 (rtreeValueUp (value_double w))" "encode32 (rtreeValueDown (value_double v))"])
      (simp add: True)
next
  case False
  show thesis by (rule that [of "value_int w" "value_int v"]) (simp add: False)
qed

declare row_coords.simps(1) [simp del]

lemma row_coords_refuse: "row_coords et vs = Inl e \<Longrightarrow> e = SQLITE_CONSTRAINT"
proof (induction vs rule: induct_list012)
  case (3 v w vs)
  obtain a b where r: "row_coords et (v # w # vs) =
      (if coord_less et b a then Inl SQLITE_CONSTRAINT else map_sum id (\<lambda>cs. a # b # cs) (row_coords et vs))"
    by (rule row_coords_step)
  show ?case using 3(1) 3(3) [unfolded r] by (cases "row_coords et vs") (simp_all split: if_splits)
qed auto

lemma row_coords_ok:
  "row_coords et vs = Inr cs \<Longrightarrow> length cs = 2 * (length vs div 2) \<and>
     (\<forall>i < length vs div 2. \<not> coord_less et (cs ! (2 * i + 1)) (cs ! (2 * i)))"
proof (induction vs arbitrary: cs rule: induct_list012)
  case (3 v w vs)
  obtain a b where r: "row_coords et (v # w # vs) =
      (if coord_less et b a then Inl SQLITE_CONSTRAINT else map_sum id (\<lambda>cs. a # b # cs) (row_coords et vs))"
    by (rule row_coords_step)
  with 3(3) obtain ds where d: "\<not> coord_less et b a" "row_coords et vs = Inr ds" "cs = a # b # ds"
    by (cases "row_coords et vs") (auto split: if_splits)
  note IH = 3(1) [OF d(2)]
  have "\<not> coord_less et (cs ! (2 * i + 1)) (cs ! (2 * i))" if "i < Suc (length vs div 2)" for i
    using IH d that by (cases i) auto
  then show ?case using IH d by simp
qed auto

text \<open>
  What makes a pair of values no interval: the integer for the lower bound exceeds the one for the upper
  bound; or in a table of floats, the lower bound, rounded down and stored in 32 bits, is greater than
  the upper bound, rounded up and stored.
\<close>

definition reversed_pair :: "coord_type \<Rightarrow> sqlite3_value \<Rightarrow> sqlite3_value \<Rightarrow> bool" where
  "reversed_pair et lo hi =
     (case et of
        RTREE_COORD_INT32 \<Rightarrow> sint (value_int hi) < sint (value_int lo)
      | RTREE_COORD_REAL32 \<Rightarrow> 
          flt (decode32 (encode32 (rtreeValueUp (value_double hi)))) (decode32 (encode32 (rtreeValueDown (value_double lo)))))"

lemma row_coords_reversed:
  "(\<exists>e. row_coords et vs = Inl e) \<longleftrightarrow>
     (\<exists>i < length vs div 2. reversed_pair et (vs ! (2 * i)) (vs ! (2 * i + 1)))"
proof (induction vs rule: induct_list012)
  case (3 v w vs)
  have h: "(\<exists>e. row_coords et (v # w # vs) = Inl e) \<longleftrightarrow> reversed_pair et v w \<or> (\<exists>e. row_coords et vs = Inl e)"
    by (cases "row_coords et vs"; cases et) (auto simp: row_coords.simps(1) reversed_pair_def coord_less_def)
  have "(\<exists>i < length (v # w # vs) div 2. reversed_pair et ((v # w # vs) ! (2 * i)) ((v # w # vs) ! (2 * i + 1))) \<longleftrightarrow>
      reversed_pair et v w \<or> (\<exists>i < length vs div 2. reversed_pair et (vs ! (2 * i)) (vs ! (2 * i + 1)))"
    by (simp add: Ex_less_Suc2)
  with h 3(1) show ?case by simp
qed auto

section \<open>Properties\<close>


text \<open>C4: \<open>AdjustTree\<close> makes every ancestor's cell on the path to the root contain the inserted cell: the
  cell becomes its union with the inserted one, unless it contained it, so no box shrinks. Every other
  cell of the ancestors stays, and nothing else changes: not the tables, the hash table, the reference
  counts, the links or the rowids, and no node off the path; an ancestor whose page changed is dirty. It
  fails only with the corruption code, above the first node without a cell in its parent, and it
  always ends when the parent links do not loop.\<close>

theorem AdjustTree_covers_path:
  assumes "wf_rtree t" "num_cell t c" "ancestry t p ps" "distinct (p # ps)"
    and "\<forall>a\<in>set ps. node_ok t a \<and> a < nextAddr t" "AdjustTree p c t = (rc, u)"
  shows "(rc = SQLITE_OK \<or> rc = SQLITE_CORRUPT_VTAB) \<and> (rc = SQLITE_OK \<longrightarrow> path_contains u c p ps) \<and>
    path_adjusted t u c p ps \<and> walk_frame t (set ps) u \<and>
    (\<forall>a. node_ok t a \<longrightarrow> list_all2 (cellContains t) (node_cells t (node_at u a)) (node_cells t (node_at t a)))"
  using adjust_loop_post [OF assms(1-4), of "Suc (nextAddr t)" rc u] ancestors_fuel [of ps "nextAddr t"] assms(4-6)
  by (auto simp: AdjustTree_def)

text \<open>C14: After a successful \<open>fixBoundingBox\<close> every ancestor's cell on the path is the least box around
  the cells of the node below it; nothing off the path and no rowid changes, and the only error is
  the corruption code.\<close>

theorem fixBoundingBox_tight:
  assumes "wf_rtree t" "ancestry t p ps" "distinct (p # ps)" "node_cells t (node_at t p) \<noteq> []"
    and "\<forall>a\<in>set (p # ps). node_ok t a \<and> a < nextAddr t" "fixBoundingBox p t = (rc, u)"
  shows "(rc = SQLITE_OK \<or> rc = SQLITE_CORRUPT_VTAB) \<and> (rc = SQLITE_OK \<longrightarrow> path_tight u p ps) \<and>
    walk_frame t (set ps) u \<and>
    (\<forall>c\<in>set (node_cells u (node_at u p)). cellContains u (node_box u (node_at u p)) c) \<and>
    (\<forall>d. num_cell u d \<and> (\<forall>c\<in>set (node_cells u (node_at u p)). cellContains u d c) \<longrightarrow>
       cellContains u d (node_box u (node_at u p)))"
proof -
  have post: "walk_frame t (set ps) u \<and> (rc = SQLITE_OK \<or> rc = SQLITE_CORRUPT_VTAB) \<and>
      (rc = SQLITE_OK \<longrightarrow> path_tight u p ps)"
    using fix_box_post [OF assms(1-3), of "Suc (nextAddr t)" rc u] ancestors_fuel [of ps "nextAddr t"] assms(3-6)
    by (auto simp: fixBoundingBox_def)
  have "node_at u p = node_at t p" using post walk_frame_node assms(3) by auto
  moreover have g: "same_geom u t" "node_ok u p" using post assms(5) by (auto simp: walk_frame_def)
  ultimately have "node_cells u (node_at u p) \<noteq> []" using assms(4) same_geomD(5) [OF g(1)] by simp
  with post g(2) show ?thesis using node_box_least(2,3) by blast
qed

text \<open>The coordinates of a new row: a row with a reversed pair is refused with the constraint code, and
  in every other row no lower bound exceeds its upper bound.\<close>

theorem row_coords_ordered:
  "case row_coords et vs of
     Inl e \<Rightarrow> e = SQLITE_CONSTRAINT
   | Inr cs \<Rightarrow> length cs = 2 * (length vs div 2) \<and>
       (\<forall>i < length vs div 2. \<not> coord_less et (cs ! (2 * i + 1)) (cs ! (2 * i)))"
  using row_coords_refuse row_coords_ok by (auto split: sum.split)

text \<open>C19: The two refusals of an insertion. A row with a reversed pair of coordinates, and, unless the
  conflict mode is REPLACE, a row whose rowid is in use give the constraint code; the tables, the
  cached nodes and the reference count are as before. A pair is reversed when the integer for the lower
  bound is the greater one or, in a table of floats, when the lower bound, rounded down and stored,
  exceeds the upper bound, rounded up and stored.\<close>

theorem rtreeUpdate_refuses:
  assumes "length azData = 2 * nDim t + 3" "sqlRc t = []"
    and "(\<exists>i < nDim t. reversed_pair (eCoordType t) (azData ! (2 * i + 3)) (azData ! (2 * i + 4))) \<or>
     \<not> replace \<and> \<not> value_isNull (azData ! 2) \<and> map_of (rowidTab t) (value_int64 (azData ! 2)) \<noteq> None \<and>
       (value_isNull (azData ! 0) \<or> value_int64 (azData ! 0) \<noteq> value_int64 (azData ! 2))"
  shows "rtreeUpdate replace azData t = (SQLITE_CONSTRAINT, None, t)"
proof -
  let ?t = "rtreeReference t"
  define vs where "vs = take (nDim t * 2) (drop 3 azData)"
  have rel: "rtreeRelease ?t = t" by (simp add: rtreeRelease_def rtreeReference_def)
  have f: "eCoordType ?t = eCoordType t" "nDim ?t = nDim t" "rowidTab ?t = rowidTab t" "step_stmt ?t = (SQLITE_OK, ?t)"
    using assms(2) by (simp_all add: rtreeReference_def step_stmt_def)
  have vs: "length vs div 2 = nDim t" "i < nDim t \<Longrightarrow> vs ! (2 * i) = azData ! (2 * i + 3)"
    "i < nDim t \<Longrightarrow> vs ! (2 * i + 1) = azData ! (2 * i + 4)" for i
    using assms(1) by (auto simp: vs_def add.commute)
  show ?thesis
  proof (cases "row_coords (eCoordType t) vs")
    case (Inl e)
    then have "e = SQLITE_CONSTRAINT" using row_coords_refuse by blast
    with Inl show ?thesis
      using assms(1) rel by (simp add: rtreeUpdate_def update_check_def f vs_def Let_def)
  next
    case (Inr cs)
    then have "\<not> (\<exists>i < nDim t. reversed_pair (eCoordType t) (azData ! (2 * i + 3)) (azData ! (2 * i + 4)))"
      using row_coords_reversed [of "eCoordType t" vs] vs by auto
    with Inr assms(3) show ?thesis
      using assms(1) rel by (auto simp: rtreeUpdate_def update_check_def f vs_def Let_def)
  qed
qed

text \<open>\<open>rtreeValueDown\<close> and \<open>rtreeValueUp\<close> are meant to round a double down and up to a float. Where the
  float is subnormal the correction by a factor does not reach the next float: the results lie on
  the wrong side of the value.\<close>

theorem subnormal_rounding_wrong:
  "flt (Fin False 7 (-151)) (rtreeValueDown (Fin False 7 (-151))) \<and>
   flt (rtreeValueUp (Fin False 5 (-151))) (Fin False 5 (-151))"
  by code_simp

section \<open>Witnesses\<close>

text \<open>A tree of two cached nodes: a root whose only cell is for the leaf below it.\<close>

definition sample_path :: Rtree where
  "sample_path = (sample_rtree RTREE_COORD_INT32)\<lparr>nextAddr := 2,
     heap := [0 \<mapsto> sample_node,
              1 \<mapsto> sample_node\<lparr>pParent := Some 0, iNode := 0x0707070707070707\<rparr>]\<rparr>"

abbreviation (input) sample_new :: RtreeCell where "sample_new \<equiv> \<lparr>iRowid = 5, aCoord = [2, 9]\<rparr>"

lemma sample_path_ok:
  "wf_rtree sample_path" "ancestry sample_path 1 [0]" "num_cell sample_path sample_new"
  "\<forall>a\<in>set [1, 0]. node_ok sample_path a \<and> a < nextAddr sample_path"
  "node_cells sample_path (node_at sample_path 1) \<noteq> []"
proof -
  have g: "same_geom sample_path (sample_rtree RTREE_COORD_INT32)" by (simp add: sample_path_def same_geom_def)
  note G = same_geomD [OF g]
  have n: "node_at sample_path 0 = sample_node"
      "node_at sample_path 1 = sample_node\<lparr>pParent := Some 0, iNode := 0x0707070707070707\<rparr>"
    by (simp_all add: sample_path_def node_at_def)
  show "wf_rtree sample_path" by (simp add: G wf_sample_rtree)
  show "ancestry sample_path 1 [0]" by (simp add: n del: One_nat_def) (simp add: sample_node_def)
  show "num_cell sample_path sample_new" by (simp add: G num_cell_def wf_cell_def coord_num_def sample_rtree_def)
  have w: "wf_node (sample_rtree RTREE_COORD_INT32) (sample_node\<lparr>pParent := p, iNode := i\<rparr>)" for p i
    using wf_sample_node(1) [of RTREE_COORD_INT32] by (simp add: wf_node_def NCELL_def)
  have c: "num_cell (sample_rtree RTREE_COORD_INT32) c"
    if "c \<in> set (node_cells (sample_rtree RTREE_COORD_INT32) n)" for c n
    using that by (auto simp: node_cells_def num_cell_def coord_num_def list_all_iff sample_rtree_def)
  show "\<forall>a\<in>set [1, 0]. node_ok sample_path a \<and> a < nextAddr sample_path"
    using c w wf_sample_node(1) [of RTREE_COORD_INT32] unfolding node_ok_def G
    by (auto simp: n list_all_iff simp del: One_nat_def) (simp_all add: sample_path_def)
  have "length (node_cells sample_path (node_at sample_path 1)) = 1"
    using wf_sample_node(2) by (simp add: n NCELL_def del: One_nat_def)
  then show "node_cells sample_path (node_at sample_path 1) \<noteq> []" by (metis list.size(3) zero_neq_one)
qed


theorem AdjustTree_covers_path_witness:
  "fst (AdjustTree 1 sample_new sample_path) = SQLITE_OK \<and>
   path_contains (snd (AdjustTree 1 sample_new sample_path)) sample_new 1 [0]"
proof -
  obtain rc u where r: "AdjustTree 1 sample_new sample_path = (rc, u)" by fastforce
  have "fst (AdjustTree 1 sample_new sample_path) = SQLITE_OK" by code_simp
  then show ?thesis
    using AdjustTree_covers_path [OF sample_path_ok(1,3,2) _ _ r] sample_path_ok(4) r by simp
qed

theorem fixBoundingBox_tight_witness:
  "fst (fixBoundingBox 1 sample_path) = SQLITE_OK \<and> path_tight (snd (fixBoundingBox 1 sample_path)) 1 [0]"
proof -
  obtain rc u where r: "fixBoundingBox 1 sample_path = (rc, u)" by fastforce
  have "fst (fixBoundingBox 1 sample_path) = SQLITE_OK" by code_simp
  then show ?thesis
    using fixBoundingBox_tight [OF sample_path_ok(1,2) _ sample_path_ok(5,4) r] r by simp
qed

definition update_value :: "int \<Rightarrow> sqlite3_value" where
  "update_value i = \<lparr>value_isNull = False, value_int = of_int i, value_int64 = of_int i, value_double = fp_of_int i,
     value_isBlob = False, value_bytes = 0, value_blob = undefined\<rparr>"

theorem row_coords_ordered_witness:
  "\<exists>cs. row_coords RTREE_COORD_INT32 [update_value 2, update_value 9] = Inr cs \<and> length cs = 2 \<and>
     \<not> coord_less RTREE_COORD_INT32 (cs ! 1) (cs ! 0)"
  using row_coords_ordered [where et = RTREE_COORD_INT32 and vs = "[update_value 2, update_value 9]"]
  by (simp add: row_coords.simps(1) update_value_def coord_less_def)

theorem rtreeUpdate_refuses_witness:
  "(let t = (sample_rtree RTREE_COORD_INT32)\<lparr>rowidTab := [(4, 1)]\<rparr>;
        row = (\<lambda>r a b. [(update_value 0)\<lparr>value_isNull := True\<rparr>, update_value 0, update_value r, update_value a, update_value b])
    in rtreeUpdate False (row 7 9 2) t = (SQLITE_CONSTRAINT, None, t) \<and>
       rtreeUpdate False (row 4 2 9) t = (SQLITE_CONSTRAINT, None, t))"
proof -
  let ?t = "(sample_rtree RTREE_COORD_INT32)\<lparr>rowidTab := [(4, 1)]\<rparr>"
  let ?row = "\<lambda>r a b. [(update_value 0)\<lparr>value_isNull := True\<rparr>, update_value 0, update_value r, update_value a, update_value b]"
  have t: "sqlRc ?t = []" "nDim ?t = 1" "eCoordType ?t = RTREE_COORD_INT32" by (simp_all add: sample_rtree_def)
  have "rtreeUpdate False (?row 7 9 2) ?t = (SQLITE_CONSTRAINT, None, ?t)"
    by (rule rtreeUpdate_refuses) (use t in \<open>auto simp: update_value_def reversed_pair_def\<close>)
  moreover have "rtreeUpdate False (?row 4 2 9) ?t = (SQLITE_CONSTRAINT, None, ?t)"
    by (rule rtreeUpdate_refuses) (use t in \<open>auto simp: update_value_def\<close>)
  ultimately show ?thesis by (simp add: Let_def)
qed

end
