(* ===== verification/Rtree_Init.thy ===== *)
theory Rtree_Init
  imports Rtree_Update
begin

text \<open>
  The life of an r-tree table: creating and connecting to it, dropping and renaming it, the
  estimate of its size, and the SQL functions behind the MATCH operator. The database connection is the
  environment part of the record \<open>Rtree\<close>: its shadow tables, the codes the
  coming SQL calls return and the outcomes of the coming allocations. What a query on the rest of
  the database returns (the page size, a row of \<open>sqlite_stat1\<close>) is an argument. Texts formatted only for
  SQL statements are represented by whether their allocation succeeds. The main lemmas
  show that the tables set up here satisfy the assumptions the other theories make
  of an r-tree.
\<close>

section \<open>Setting up a table\<close>

abbreviation (input) RTREE_DEFAULT_ROWEST :: int where "RTREE_DEFAULT_ROWEST \<equiv> 1048576"
abbreviation (input) RTREE_MIN_ROWEST :: int where "RTREE_MIN_ROWEST \<equiv> 100"
abbreviation (input) N_STATEMENT :: nat where "N_STATEMENT \<equiv> 9"

text \<open>An error message: one of the fixed texts, or the text of the connection's last error.\<close>

datatype err_msg = ErrText string | ErrOfDb

definition set_err :: "err_msg \<Rightarrow> Rtree \<Rightarrow> err_msg option \<times> Rtree" where
  "set_err m t = (let (ok, t) = sqlite3_malloc t in (if ok then Some m else None, t))"

text \<open>\<open>row\<close> is the row of the query, if it has one; \<open>zSql\<close> tells whether the text could be formatted.\<close>

definition getIntFromStmt :: "bool \<Rightarrow> int option \<Rightarrow> int \<Rightarrow> Rtree \<Rightarrow> int \<times> int \<times> Rtree" where
  "getIntFromStmt zSql row piVal t =
     (if zSql then
        let (rc, t) = step_stmt t
        in if rc = SQLITE_OK then
             let piVal = (case row of Some v \<Rightarrow> v | None \<Rightarrow> piVal); (rc, t) = step_stmt t
             in (rc, piVal, t)
           else (rc, piVal, t)
      else (SQLITE_NOMEM, piVal, t))"

definition getNodeSize :: "int option \<Rightarrow> bool \<Rightarrow> Rtree \<Rightarrow> int \<times> err_msg option \<times> Rtree" where
  "getNodeSize pageSize isCreate t =
     (let (zSql, t) = sqlite3_malloc t
      in if isCreate then
           let (rc, iPageSize, t) = getIntFromStmt zSql pageSize 0 t
           in if rc = SQLITE_OK then
                let t = t\<lparr>iNodeSize := iPageSize - 64\<rparr>;
                    t = (if 4 + int (nBytesPerCell t) * RTREE_MAXCELLS < iNodeSize t
                         then t\<lparr>iNodeSize := 4 + int (nBytesPerCell t) * RTREE_MAXCELLS\<rparr> else t)
                in (rc, None, t)
              else let (err, t) = set_err ErrOfDb t in (rc, err, t)
         else
           let (rc, n, t) = getIntFromStmt zSql (map_option (int \<circ> length) (map_of (nodeTab t) 1)) (iNodeSize t) t;
               t = t\<lparr>iNodeSize := n\<rparr>
           in if rc \<noteq> SQLITE_OK then let (err, t) = set_err ErrOfDb t in (rc, err, t) else (rc, None, t))"

definition rtreeQueryStat1 :: "int option \<Rightarrow> Rtree \<Rightarrow> int \<times> Rtree" where
  "rtreeQueryStat1 stat t =
     (let (zSql, t) = sqlite3_malloc t
      in if \<not> zSql then (SQLITE_NOMEM, t)
         else
           let (rc, t) = step_stmt t;
               (rc, nRow, t) =
                 (if rc = SQLITE_OK then
                    let (rc, t) = step_stmt t in (rc, case stat of Some n \<Rightarrow> n | None \<Rightarrow> 0, t)
                  else (if rc \<noteq> SQLITE_NOMEM then SQLITE_OK else rc, 0, t))
           in (rc, if rc = SQLITE_OK
                   then t\<lparr>nRowEst := (if nRow = 0 then RTREE_DEFAULT_ROWEST
                                       else if nRow < RTREE_MIN_ROWEST then RTREE_MIN_ROWEST else nRow)\<rparr>
                   else t))"

text \<open>The loop that prepares the statements, \<open>k\<close> of which are left.\<close>

fun prepare_loop :: "nat \<Rightarrow> int \<Rightarrow> Rtree \<Rightarrow> int \<times> Rtree" where
  "prepare_loop 0 rc t = (rc, t)"
| "prepare_loop (Suc k) rc t =
     (if rc = SQLITE_OK then
        let (zSql, t) = sqlite3_malloc t;
            (rc, t) = (if zSql then step_stmt t else (SQLITE_NOMEM, t))
        in prepare_loop k rc t
      else (rc, t))"

definition rtreeSqlInit :: "int option \<Rightarrow> bool \<Rightarrow> Rtree \<Rightarrow> int \<times> Rtree" where
  "rtreeSqlInit stat isCreate t =
     (let (rc, t) =
            (if isCreate then
               let (zCreate, t) = sqlite3_malloc t
               in if \<not> zCreate then (SQLITE_NOMEM, t)
                  else let (rc, t) = step_stmt t
                       in (rc, if rc = SQLITE_OK
                               then t\<lparr>nodeTab := [(1, replicate (nat (iNodeSize t)) 0)], rowidTab := [], parentTab := []\<rparr>
                               else t)
             else (SQLITE_OK, t))
      in if rc \<noteq> SQLITE_OK then (rc, t)
         else let (rc, t) = rtreeQueryStat1 stat t in prepare_loop N_STATEMENT rc t)"

text \<open>The text of the declaration: each append may fail, and then the rest is skipped.\<close>

fun append_columns :: "string option \<Rightarrow> string list \<Rightarrow> Rtree \<Rightarrow> string option \<times> Rtree" where
  "append_columns z [] t = (z, t)"
| "append_columns None (c # cs) t = (None, t)"
| "append_columns (Some z) (c # cs) t =
     (let (ok, t) = sqlite3_malloc t in append_columns (if ok then Some (z @ '', '' @ c) else None) cs t)"

definition declare_text :: "string list \<Rightarrow> Rtree \<Rightarrow> string option \<times> Rtree" where
  "declare_text argv t =
     (let (ok, t) = sqlite3_malloc t;
          (z, t) = append_columns (if ok then Some (''CREATE TABLE x('' @ argv ! 3) else None) (drop 4 argv) t
      in case z of
           None \<Rightarrow> (None, t)
         | Some z \<Rightarrow> let (ok, t) = sqlite3_malloc t in (if ok then Some (z @ '');'') else None, t))"

definition init_error :: "nat \<Rightarrow> string option" where
  "init_error argc =
     [None, Some ''Wrong number of columns for an rtree table'', Some ''Too few columns for an rtree table'',
      Some ''Too many columns for an rtree table'']
     ! (if argc < 6 then 2 else if argc > RTREE_MAX_DIMENSIONS * 2 + 4 then 3 else argc mod 2)"

text \<open>
  The new structure: zero bytes but for the fields set. The tables and the environment are those of
  the connection \<open>t\<close>.
\<close>

definition new_rtree :: "nat \<Rightarrow> coord_type \<Rightarrow> Rtree \<Rightarrow> Rtree" where
  "new_rtree argc et t =
     (let dim = (argc - 4) div 2
      in \<lparr>iNodeSize = 0, nDim = dim, eCoordType = et, nBytesPerCell = 8 + dim * 4 * 2, iDepth = 0, nBusy = 1,
          nRowEst = 0, pDeleted = None, iReinsertHeight = 0, aHash = replicate HASHSIZE None,
          heap = Map.empty, nextAddr = 0, nodeTab = nodeTab t, rowidTab = rowidTab t, parentTab = parentTab t,
          lastInsert = lastInsert t, sqlRc = sqlRc t, mallocFails = mallocFails t\<rparr>)"

definition rtreeInit ::
  "bool \<Rightarrow> int option \<Rightarrow> int option \<Rightarrow> string list \<Rightarrow> bool \<Rightarrow> Rtree \<Rightarrow> int \<times> bool \<times> err_msg option \<times> Rtree" where
  "rtreeInit pAux pageSize stat argv isCreate t =
     (let argc = length argv
      in case init_error argc of
           Some m \<Rightarrow> let (err, t) = set_err (ErrText m) t in (SQLITE_ERROR, False, err, t)
         | None \<Rightarrow>
             let (ok, t) = sqlite3_malloc t
             in if \<not> ok then (SQLITE_NOMEM, False, None, t)
                else
                  let t = new_rtree argc (if pAux then RTREE_COORD_INT32 else RTREE_COORD_REAL32) t;
                      (rc, err, t) = getNodeSize pageSize isCreate t;
                      (rc, err, t) =
                        (if rc = SQLITE_OK then
                           let (rc, t) = rtreeSqlInit stat isCreate t
                           in if rc \<noteq> SQLITE_OK then let (err, t) = set_err ErrOfDb t in (rc, err, t)
                              else
                                let (zSql, t) = declare_text argv t
                                in case zSql of
                                     None \<Rightarrow> (SQLITE_NOMEM, err, t)
                                   | Some z \<Rightarrow>
                                       let (rc, t) = step_stmt t
                                       in if rc \<noteq> SQLITE_OK then let (err, t) = set_err ErrOfDb t in (rc, err, t)
                                          else (rc, err, t)
                         else (rc, err, t))
                  in if rc = SQLITE_OK then (rc, True, err, t) else (rc, False, err, rtreeRelease t))"

definition rtreeCreate ::
  "bool \<Rightarrow> int option \<Rightarrow> int option \<Rightarrow> string list \<Rightarrow> Rtree \<Rightarrow> int \<times> bool \<times> err_msg option \<times> Rtree" where
  "rtreeCreate pAux pageSize stat argv t = rtreeInit pAux pageSize stat argv True t"

definition rtreeConnect ::
  "bool \<Rightarrow> int option \<Rightarrow> int option \<Rightarrow> string list \<Rightarrow> Rtree \<Rightarrow> int \<times> bool \<times> err_msg option \<times> Rtree" where
  "rtreeConnect pAux pageSize stat argv t = rtreeInit pAux pageSize stat argv False t"

section \<open>Leaving, dropping and renaming a table\<close>

definition rtreeDisconnect :: "Rtree \<Rightarrow> int \<times> Rtree" where
  "rtreeDisconnect t = (SQLITE_OK, rtreeRelease t)"

definition rtreeDestroy :: "Rtree \<Rightarrow> int \<times> Rtree" where
  "rtreeDestroy t =
     (let (zCreate, t) = sqlite3_malloc t;
          (rc, t) = (if \<not> zCreate then (SQLITE_NOMEM, t)
                     else let (rc, t) = step_stmt t
                          in (rc, if rc = SQLITE_OK then t\<lparr>nodeTab := [], rowidTab := [], parentTab := []\<rparr> else t))
      in if rc = SQLITE_OK then (rc, rtreeRelease t) else (rc, t))"

text \<open>Renaming moves the rows of the three tables to new names and keeps them.\<close>

definition rtreeRename :: "Rtree \<Rightarrow> int \<times> Rtree" where
  "rtreeRename t = (let (zSql, t) = sqlite3_malloc t in if zSql then step_stmt t else (SQLITE_NOMEM, t))"

section \<open>SQL functions\<close>

record RtreeGeomCallback =
  cb_xGeom :: "(query_info \<Rightarrow> nat \<Rightarrow> fp list \<Rightarrow> int \<Rightarrow> int \<times> int \<times> query_info) option"
  cb_xQueryFunc :: "query_info \<Rightarrow> int \<times> query_info"

text \<open>
  The BLOB value a geometry function returns: the structure with the parameters and its size;
  \<open>None\<close> is the error of a failed allocation. A value has the accessors of other types as well, which
  nothing reads from a BLOB; \<open>v\<close> gives them.
\<close>

definition geomCallback ::
  "RtreeGeomCallback \<Rightarrow> sqlite3_value list \<Rightarrow> sqlite3_value \<Rightarrow> Rtree \<Rightarrow> sqlite3_value option \<times> Rtree" where
  "geomCallback pGeomCtx aArg v t =
     (let nArg = int (length aArg); nBlob = sizeof_RtreeMatchArg + (nArg - 1) * 8; (ok, t) = sqlite3_malloc t
      in if \<not> ok then (None, t)
         else (Some (v\<lparr>value_isNull := False, value_isBlob := True, value_bytes := nBlob,
                 value_blob := \<lparr>ma_magic = RTREE_GEOMETRY_MAGIC, ma_xGeom = cb_xGeom pGeomCtx,
                   ma_xQueryFunc = cb_xQueryFunc pGeomCtx, ma_nParam = nArg, ma_aParam = map value_double aArg\<rparr>\<rparr>), t))"

definition rtreedepth :: "bool \<Rightarrow> u8 list \<Rightarrow> string + int" where
  "rtreedepth isBlob zBlob =
     (if \<not> isBlob \<or> length zBlob < 2 then Inl ''Invalid argument to rtreedepth()'' else Inr (readInt16 zBlob))"

section \<open>Lemmas: what the calls leave as it was\<close>

text \<open>Everything but the environment.\<close>

definition env_step :: "Rtree \<Rightarrow> Rtree \<Rightarrow> bool" where
  "env_step t u \<longleftrightarrow> (\<exists>r m. u = t\<lparr>sqlRc := r, mallocFails := m\<rparr>)"

lemma env_stepI: "env_step t (t\<lparr>sqlRc := r, mallocFails := m\<rparr>)"
  unfolding env_step_def by blast

lemma env_step_refl [simp]: "env_step t t"
  using env_stepI [where t = t and r = "sqlRc t" and m = "mallocFails t"] by simp

lemma env_step_trans: "env_step t u \<Longrightarrow> env_step u v \<Longrightarrow> env_step t v"
proof -
  assume "env_step t u" "env_step u v"
  then obtain r m where "v = t\<lparr>sqlRc := r, mallocFails := m\<rparr>" by (auto simp: env_step_def)
  then show ?thesis by (simp add: env_stepI)
qed

lemma env_step_malloc: "sqlite3_malloc t = (ok, u) \<Longrightarrow> env_step t u"
  by (cases t) (auto simp: sqlite3_malloc_def env_step_def split: list.splits)

lemma env_step_stmt: "step_stmt t = (rc, u) \<Longrightarrow> env_step t u"
  by (cases t) (auto simp: step_stmt_def env_step_def split: list.splits)

lemma env_step_set_err: "set_err m t = (e, u) \<Longrightarrow> env_step t u"
  by (auto simp: set_err_def Let_def split: prod.splits intro: env_step_malloc)

lemmas env_steps = env_step_malloc env_step_stmt env_step_set_err

lemma getIntFromStmt_post:
  assumes "getIntFromStmt z row d t = (rc, v, u)"
  shows "env_step t u" "rc = SQLITE_OK \<Longrightarrow> v = (case row of Some v \<Rightarrow> v | None \<Rightarrow> d)"
proof -
  show "env_step t u"
    using assms by (auto simp: getIntFromStmt_def Let_def split: if_splits prod.splits
        dest!: env_step_stmt intro: env_step_trans)
  show "rc = SQLITE_OK \<Longrightarrow> v = (case row of Some v \<Rightarrow> v | None \<Rightarrow> d)"
    using assms by (auto simp: getIntFromStmt_def Let_def split: if_splits prod.splits)
qed

lemma prepare_loop_env: "prepare_loop k rc t = (rc', u) \<Longrightarrow> env_step t u"
proof (induction k arbitrary: rc t)
  case (Suc k)
  show ?case
  proof (cases "rc = SQLITE_OK")
    case True
    obtain z t1 where m: "sqlite3_malloc t = (z, t1)" by fastforce
    obtain r t2 where r: "(if z then step_stmt t1 else (SQLITE_NOMEM, t1)) = (r, t2)" by fastforce
    have "prepare_loop k r t2 = (rc', u)" using Suc.prems True by (simp add: m r)
    then have "env_step t2 u" by (rule Suc.IH)
    moreover have "env_step t1 t2" using r by (auto split: if_splits intro: env_step_stmt)
    ultimately show ?thesis using env_step_malloc [OF m] by (blast intro: env_step_trans)
  qed (use Suc.prems in simp)
qed simp

lemma append_columns_env: "append_columns z cs t = (z', u) \<Longrightarrow> env_step t u"
proof (induction z cs t rule: append_columns.induct)
  case (3 z c cs t)
  obtain ok t1 where m: "sqlite3_malloc t = (ok, t1)" by fastforce
  then show ?case using 3 env_step_malloc [OF m] by (auto intro: env_step_trans)
qed auto

lemma declare_text_env: "declare_text argv t = (z, u) \<Longrightarrow> env_step t u"
  by (auto simp: declare_text_def Let_def split: prod.splits option.splits
      dest!: append_columns_env env_step_malloc intro: env_step_trans)

lemma getNodeSize_create:
  assumes "getNodeSize (Some p) True t = (SQLITE_OK, err, u)"
  shows "env_step (t\<lparr>iNodeSize := min (p - 64) (4 + int (nBytesPerCell t) * RTREE_MAXCELLS)\<rparr>) u"
proof -
  obtain z t1 where m: "sqlite3_malloc t = (z, t1)" by fastforce
  obtain rc v t2 where g: "getIntFromStmt z (Some p) 0 t1 = (rc, v, t2)" by (metis prod_cases3)
  have rc: "rc = SQLITE_OK"
    using assms by (simp add: getNodeSize_def m g split: if_splits prod.splits)
  have e: "env_step t t2" using env_step_malloc [OF m] getIntFromStmt_post(1) [OF g] by (rule env_step_trans)
  have v: "v = p" using getIntFromStmt_post(2) [OF g rc] by simp
  have "u = t2\<lparr>iNodeSize := min (p - 64) (4 + int (nBytesPerCell t2) * RTREE_MAXCELLS)\<rparr>"
    using assms by (auto simp: getNodeSize_def m g rc v Let_def min_def split: if_splits)
  with e show ?thesis by (cases t) (auto simp: env_step_def)
qed

lemma rtreeQueryStat1_post:
  assumes "rtreeQueryStat1 stat t = (SQLITE_OK, u)"
  shows "\<exists>n \<ge> RTREE_MIN_ROWEST. env_step (t\<lparr>nRowEst := n\<rparr>) u"
proof -
  obtain z t1 where m: "sqlite3_malloc t = (z, t1)" by fastforce
  obtain rc t2 where s: "step_stmt t1 = (rc, t2)" by fastforce
  obtain rc' t3 where s': "step_stmt t2 = (rc', t3)" by fastforce
  have e: "env_step t t2" "env_step t t3"
    using env_step_malloc [OF m] env_step_stmt [OF s] env_step_stmt [OF s'] by (blast intro: env_step_trans)+
  have up: "env_step (t\<lparr>nRowEst := n\<rparr>) (v\<lparr>nRowEst := n\<rparr>)" if "env_step t v" for v n
    using that by (cases t) (auto simp: env_step_def)
  obtain v n where "u = v\<lparr>nRowEst := n\<rparr>" "RTREE_MIN_ROWEST \<le> n" "v = t2 \<or> v = t3"
    using assms by (auto simp: rtreeQueryStat1_def m s s' Let_def split: if_splits)
  then show ?thesis using up e by blast
qed

lemma rtreeSqlInit_create:
  assumes "rtreeSqlInit stat True t = (SQLITE_OK, u)"
  shows "\<exists>n \<ge> RTREE_MIN_ROWEST. env_step (t\<lparr>nodeTab := [(1, replicate (nat (iNodeSize t)) 0)], rowidTab := [],
    parentTab := [], nRowEst := n\<rparr>) u"
proof -
  let ?c = "\<lambda>t. t\<lparr>nodeTab := [(1, replicate (nat (iNodeSize t)) 0)], rowidTab := [], parentTab := []\<rparr>"
  obtain z t1 where m: "sqlite3_malloc t = (z, t1)" by fastforce
  obtain rc t2 where s: "step_stmt t1 = (rc, t2)" by fastforce
  have zr: "z" "rc = SQLITE_OK"
    using assms by (auto simp: rtreeSqlInit_def m s split: if_splits)
  obtain rc' t3 where q: "rtreeQueryStat1 stat (?c t2) = (rc', t3)" by fastforce
  have p: "prepare_loop N_STATEMENT rc' t3 = (SQLITE_OK, u)"
    using assms by (simp add: rtreeSqlInit_def m s zr q)
  have "prepare_loop N_STATEMENT r t3 = (SQLITE_OK, u) \<Longrightarrow> r = SQLITE_OK" for r
    by (cases "r = SQLITE_OK") (simp_all add: numeral_eq_Suc)
  with p have "rc' = SQLITE_OK" by blast
  with q obtain n where n: "RTREE_MIN_ROWEST \<le> n" "env_step ((?c t2)\<lparr>nRowEst := n\<rparr>) t3"
    using rtreeQueryStat1_post by blast
  have "env_step t t2" using env_step_malloc [OF m] env_step_stmt [OF s] by (rule env_step_trans)
  then have "env_step ((?c t)\<lparr>nRowEst := n\<rparr>) ((?c t2)\<lparr>nRowEst := n\<rparr>)"
    by (cases t) (auto simp: env_step_def)
  then have "env_step ((?c t)\<lparr>nRowEst := n\<rparr>) u"
    using n(2) prepare_loop_env [OF p] by (blast intro: env_step_trans)
  with n(1) show ?thesis by auto
qed

text \<open>The structure \<open>rtreeCreate\<close> returns.\<close>

lemma rtreeCreate_shape:
  assumes "rtreeCreate pAux (Some p) stat argv t = (SQLITE_OK, True, err, u)"
  defines "et \<equiv> (if pAux then RTREE_COORD_INT32 else RTREE_COORD_REAL32)"
    and "sz \<equiv> min (p - 64) (4 + int (8 + (length argv - 4) div 2 * 4 * 2) * RTREE_MAXCELLS)"
  shows "init_error (length argv) = None" "\<exists>n \<ge> RTREE_MIN_ROWEST. env_step ((new_rtree (length argv) et t)\<lparr>iNodeSize := sz,
    nodeTab := [(1, replicate (nat sz) 0)], rowidTab := [], parentTab := [], nRowEst := n\<rparr>) u"
proof -
  show ie: "init_error (length argv) = None"
  proof (cases "init_error (length argv)")
    case (Some m)
    then show ?thesis using assms(1) by (simp add: rtreeCreate_def rtreeInit_def split: prod.splits)
  qed
  obtain ok t1 where m: "sqlite3_malloc t = (ok, t1)" by fastforce
  have ok: ok using assms(1) by (simp add: rtreeCreate_def rtreeInit_def ie m split: if_splits)
  let ?n = "new_rtree (length argv) et t1"
  obtain rc e t2 where g: "getNodeSize (Some p) True ?n = (rc, e, t2)" by (metis prod_cases3)
  obtain rc' t3 where q: "rtreeSqlInit stat True t2 = (rc', t3)" by fastforce
  obtain z t4 where d: "declare_text argv t3 = (z, t4)" by fastforce
  obtain rc'' t5 where s: "step_stmt t4 = (rc'', t5)" by fastforce
  have r: "rc = SQLITE_OK" "rc' = SQLITE_OK" "u = t5"
    using assms(1)
    by (auto simp: rtreeCreate_def rtreeInit_def ie m ok g q d s et_def [symmetric] split: if_splits prod.splits option.splits)
  have n: "env_step (new_rtree (length argv) et t) ?n"
    using env_step_malloc [OF m] by (auto simp: env_step_def new_rtree_def Let_def)
  have g': "env_step (?n\<lparr>iNodeSize := sz\<rparr>) t2"
    using getNodeSize_create [OF g [unfolded r(1)]] by (simp add: sz_def new_rtree_def Let_def)
  then have "iNodeSize t2 = sz" by (auto simp: env_step_def)
  with rtreeSqlInit_create [OF q [unfolded r(2)]] obtain k where k: "RTREE_MIN_ROWEST \<le> k"
    "env_step (t2\<lparr>nodeTab := [(1, replicate (nat sz) 0)], rowidTab := [], parentTab := [], nRowEst := k\<rparr>) t3" by auto
  have "env_step t3 u"
    using declare_text_env [OF d] env_step_stmt [OF s] r(3) by (auto intro: env_step_trans)
  with k(2) g' n obtain r m where "u = (new_rtree (length argv) et t)\<lparr>iNodeSize := sz,
      nodeTab := [(1, replicate (nat sz) 0)], rowidTab := [], parentTab := [], nRowEst := k, sqlRc := r, mallocFails := m\<rparr>"
    by (auto simp: env_step_def)
  then have "env_step ((new_rtree (length argv) et t)\<lparr>iNodeSize := sz,
      nodeTab := [(1, replicate (nat sz) 0)], rowidTab := [], parentTab := [], nRowEst := k\<rparr>) u"
    by (simp only: env_stepI)
  with k(1) show "\<exists>n \<ge> RTREE_MIN_ROWEST. env_step ((new_rtree (length argv) et t)\<lparr>iNodeSize := sz,
    nodeTab := [(1, replicate (nat sz) 0)], rowidTab := [], parentTab := [], nRowEst := n\<rparr>) u" by blast
qed

lemma init_error_dims:
  "init_error argc = None \<Longrightarrow> 1 \<le> (argc - 4) div 2 \<and> (argc - 4) div 2 \<le> RTREE_MAX_DIMENSIONS"
  by (auto simp: init_error_def nth_Cons split: if_splits nat.splits)

lemma created_size:
  fixes b :: nat
  assumes "1 \<le> d" "d \<le> RTREE_MAX_DIMENSIONS" "b = 8 + d * 4 * 2" "512 \<le> p"
  defines "sz \<equiv> min (p - 64) (4 + int b * RTREE_MAXCELLS)"
  shows "4 \<le> sz" "3 \<le> (sz - 4) div int b" "(sz - 4) div int b \<le> RTREE_MAXCELLS"
proof -
  have b: "16 \<le> b" "b \<le> 48" using assms(1-3) by auto
  show "4 \<le> sz" using assms(4) by (simp add: sz_def)
  have "3 * int b \<le> sz - 4" using b assms(4) by (simp add: sz_def min_def)
  then have "3 * int b div int b \<le> (sz - 4) div int b" by (rule zdiv_mono1) (use b in simp)
  then show "3 \<le> (sz - 4) div int b" using b by simp
  have "(sz - 4) div int b \<le> (int b * RTREE_MAXCELLS) div int b"
    by (rule zdiv_mono1) (use b in \<open>auto simp: sz_def\<close>)
  then show "(sz - 4) div int b \<le> RTREE_MAXCELLS" using b by simp
qed

section \<open>Properties\<close>

text \<open>C25: A table that \<open>rtreeCreate\<close> sets up satisfies what the rest of the extension assumes of an r-tree:
  the geometry is well formed, a node holds between 3 and \<open>RTREE_MAXCELLS\<close> cells, the hash table of nodes is
  empty and sound, the node table holds an empty root, and the estimate of rows is at least \<open>RTREE_MIN_ROWEST\<close>.
  The page size is any SQLite allows.\<close>

theorem rtreeCreate_establishes_invariant:
  assumes "512 \<le> p" "rtreeCreate pAux (Some p) stat argv t = (SQLITE_OK, True, err, u)"
  shows "wf_rtree u \<and> 3 \<le> nMaxCell u \<and> nMaxCell u \<le> RTREE_MAXCELLS \<and> hash_inv u \<and> nBusy u = 1 \<and>
    RTREE_MIN_ROWEST \<le> nRowEst u \<and> rowidTab u = [] \<and> parentTab u = [] \<and>
    (\<exists>z. nodeTab u = [(1, z)] \<and> int (length z) = iNodeSize u \<and> readInt16 z = 0 \<and> readInt16 (drop 2 z) = 0)"
proof -
  let ?d = "(length argv - 4) div 2" and ?et = "if pAux then RTREE_COORD_INT32 else RTREE_COORD_REAL32"
  define b where "b = 8 + ?d * 4 * 2"
  define sz where "sz = min (p - 64) (4 + int b * RTREE_MAXCELLS)"
  note d = init_error_dims [OF rtreeCreate_shape(1) [OF assms(2)]]
  obtain n where n: "RTREE_MIN_ROWEST \<le> n" and e: "env_step ((new_rtree (length argv) ?et t)\<lparr>iNodeSize := sz,
      nodeTab := [(1, replicate (nat sz) 0)], rowidTab := [], parentTab := [], nRowEst := n\<rparr>) u"
    using rtreeCreate_shape(2) [OF assms(2)] unfolding sz_def b_def by blast
  note c = created_size [OF _ _ b_def assms(1), folded sz_def]
  have f: "iNodeSize u = sz" "nDim u = ?d" "nBytesPerCell u = b" "nBusy u = 1" "nRowEst u = n" "rowidTab u = []" "parentTab u = []"
      "nodeTab u = [(1, replicate (nat sz) 0)]" "aHash u = replicate HASHSIZE None" "heap u = Map.empty"
    using e by (auto simp: env_step_def new_rtree_def Let_def b_def)
  have m: "nMaxCell u = (sz - 4) div int b" unfolding nMaxCell_def f by (rule sdiv_nonneg) (use c d in \<open>auto simp: b_def\<close>)
  have w: "wf_rtree u" using c d m by (simp add: wf_rtree_def f b_def)
  have h: "hash_inv u" by (rule hash_inv_empty) (simp_all add: f)
  have l: "4 \<le> nat sz" using c(1) d by simp
  then obtain k where "nat sz = 4 + k" using le_Suc_ex by blast
  then obtain r where "replicate (nat sz) (0::u8) = 0 # 0 # 0 # 0 # r" by (simp add: numeral_eq_Suc)
  then have "readInt16 (replicate (nat sz) 0) = 0 \<and> readInt16 (drop 2 (replicate (nat sz) 0)) = 0"
    by (simp add: readInt16_def numeral_2_eq_2 del: drop_replicate)
  moreover have "int (length (replicate (nat sz) (0::u8))) = iNodeSize u" using l by (simp add: f)
  ultimately show ?thesis using w h m c d n f by auto
qed

text \<open>The BLOB of a geometry function with at least one parameter is accepted by the MATCH operator, which
  recovers the callback and the parameters; without parameters the BLOB is too
  short and is refused.\<close>

theorem geometry_blob_roundtrip:
  assumes "geomCallback cb aArg v t = (Some w, t')" "fst (sqlite3_malloc t')"
  shows "case deserializeGeometry w c t' of
      (rc, c', u) \<Rightarrow>
        (if aArg = [] then rc = SQLITE_ERROR \<and> c' = c
         else rc = SQLITE_OK \<and> qi_aParam (pInfo c') = map value_double aArg \<and>
           (case cb_xGeom cb of
              Some f \<Rightarrow> xGeom c' = f \<and> cop c' = cop c
            | None \<Rightarrow> xQueryFunc c' = cb_xQueryFunc cb \<and> cop c' = RTREE_QUERY))"
proof -
  let ?n = "sizeof_RtreeMatchArg + (int (length aArg) - 1) * 8"
  have w: "value_isBlob w" "value_bytes w = ?n" "ma_magic (value_blob w) = RTREE_GEOMETRY_MAGIC"
      "ma_nParam (value_blob w) = int (length aArg)" "ma_aParam (value_blob w) = map value_double aArg"
      "ma_xGeom (value_blob w) = cb_xGeom cb" "ma_xQueryFunc (value_blob w) = cb_xQueryFunc cb"
    using assms(1) by (auto simp: geomCallback_def Let_def split: if_splits prod.splits)
  obtain u where m: "sqlite3_malloc t' = (True, u)" using assms(2) by (cases "sqlite3_malloc t'") auto
  show ?thesis
  proof (cases aArg)
    case Nil
    then show ?thesis by (simp add: deserializeGeometry_def w)
  next
    case (Cons a as)
    then have n: "\<not> ?n < sizeof_RtreeMatchArg" "(?n - sizeof_RtreeMatchArg) mod 8 = 0" by simp_all
    then show ?thesis
      using Cons by (auto simp: deserializeGeometry_def w m Let_def split: option.splits)
  qed
qed

text \<open>\<open>rtreeConnect\<close> takes the node size from the root node as it is, without a lower limit: a table whose root
  node is shorter than a node header is accepted.\<close>

theorem rtreeConnect_accepts_any_root:
  assumes "init_error (length argv) = None" "map_of (nodeTab t) 1 = Some z" "sqlRc t = []" "mallocFails t = []"
  shows "\<exists>u. rtreeConnect pAux p stat argv t = (SQLITE_OK, True, None, u) \<and> iNodeSize u = int (length z)"
proof -
  have s: "step_stmt u = (SQLITE_OK, u)" if "sqlRc u = []" for u using that by (simp add: step_stmt_def)
  have m: "sqlite3_malloc u = (True, u)" if "mallocFails u = []" for u using that by (simp add: sqlite3_malloc_def)
  have pl: "prepare_loop k SQLITE_OK u = (SQLITE_OK, u)" if "sqlRc u = []" "mallocFails u = []" for k u
    using that by (induction k) (simp_all add: s m)
  have ac: "\<exists>x'. append_columns (Some x) cs u = (Some x', u)" if "mallocFails u = []" for x cs u
    using that by (induction cs arbitrary: x) (simp_all add: m)
  have dt: "\<exists>x. declare_text argv u = (Some x, u)" if u: "mallocFails u = []" for u
  proof -
    obtain x where "append_columns (Some (''CREATE TABLE x('' @ argv ! 3)) (drop 4 argv) u = (Some x, u)"
      using ac [OF u] by blast
    then show ?thesis by (simp add: declare_text_def m [OF u])
  qed
  define a where "a = (new_rtree (length argv) (if pAux then RTREE_COORD_INT32 else RTREE_COORD_REAL32) t)\<lparr>iNodeSize := int (length z)\<rparr>"
  have g: "getNodeSize p False (new_rtree (length argv) (if pAux then RTREE_COORD_INT32 else RTREE_COORD_REAL32) t) = (SQLITE_OK, None, a)"
    using assms(2-4) by (simp add: getNodeSize_def getIntFromStmt_def s m a_def new_rtree_def Let_def)
  obtain k where q: "rtreeSqlInit stat False a = (SQLITE_OK, a\<lparr>nRowEst := k\<rparr>)"
    using assms(3,4) by (auto simp: rtreeSqlInit_def rtreeQueryStat1_def s m pl a_def new_rtree_def Let_def)
  obtain x where "declare_text argv (a\<lparr>nRowEst := k\<rparr>) = (Some x, a\<lparr>nRowEst := k\<rparr>)"
    using dt [of "a\<lparr>nRowEst := k\<rparr>"] assms(4) by (auto simp: a_def new_rtree_def Let_def)
  moreover have "step_stmt (a\<lparr>nRowEst := k\<rparr>) = (SQLITE_OK, a\<lparr>nRowEst := k\<rparr>)"
    using assms(3) by (simp add: s a_def new_rtree_def Let_def)
  ultimately have "rtreeConnect pAux p stat argv t = (SQLITE_OK, True, None, a\<lparr>nRowEst := k\<rparr>)"
    by (simp add: rtreeConnect_def rtreeInit_def assms(1) m [OF assms(4)] g q)
  then show ?thesis by (simp add: a_def)
qed

section \<open>Witnesses\<close>

definition sample_argv :: "string list" where
  "sample_argv = [''rtree'', ''main'', ''places'', ''id'', ''x0'', ''x1'']"

lemma sample_argv_ok: "init_error (length sample_argv) = None"
  by (simp add: sample_argv_def init_error_def)

theorem rtreeCreate_establishes_invariant_witness:
  "\<exists>err u. rtreeCreate False (Some 1024) None sample_argv (sample_rtree RTREE_COORD_REAL32) = (SQLITE_OK, True, err, u) \<and>
     wf_rtree u \<and> 3 \<le> nMaxCell u"
proof -
  let ?r = "rtreeCreate False (Some 1024) None sample_argv (sample_rtree RTREE_COORD_REAL32)"
  have "fst ?r = SQLITE_OK \<and> fst (snd ?r)"
    by code_simp
  then obtain err u where r: "?r = (SQLITE_OK, True, err, u)" by (metis eq_fst_iff prod.collapse)
  then show ?thesis using rtreeCreate_establishes_invariant [OF _ r] by auto
qed

theorem geometry_blob_roundtrip_witness:
  "\<exists>w. geomCallback \<lparr>cb_xGeom = None, cb_xQueryFunc = (\<lambda>i. (SQLITE_OK, i))\<rparr> [update_value 7] (update_value 0)
     (sample_rtree RTREE_COORD_REAL32) = (Some w, sample_rtree RTREE_COORD_REAL32) \<and>
   fst (deserializeGeometry w zero_constraint (sample_rtree RTREE_COORD_REAL32)) = SQLITE_OK"
proof -
  let ?t = "sample_rtree RTREE_COORD_REAL32" and ?cb = "\<lparr>cb_xGeom = None, cb_xQueryFunc = (\<lambda>i. (SQLITE_OK, i))\<rparr> :: RtreeGeomCallback"
  have m: "sqlite3_malloc ?t = (True, ?t)" by (simp add: sqlite3_malloc_def sample_rtree_def)
  obtain w where w: "geomCallback ?cb [update_value 7] (update_value 0) ?t = (Some w, ?t)"
    by (simp add: geomCallback_def m)
  then show ?thesis using geometry_blob_roundtrip [OF w, of zero_constraint] m by (auto split: prod.splits)
qed

theorem rtreeConnect_accepts_any_root_witness:
  "\<exists>u. rtreeConnect False None None sample_argv ((sample_rtree RTREE_COORD_REAL32)\<lparr>nodeTab := [(1, [0])]\<rparr>)
     = (SQLITE_OK, True, None, u) \<and> iNodeSize u = 1"
  using rtreeConnect_accepts_any_root [OF sample_argv_ok, of "(sample_rtree RTREE_COORD_REAL32)\<lparr>nodeTab := [(1, [0])]\<rparr>" "[0]"]
  by (simp add: sample_rtree_def)

end
