(* ===== verification/Spec2Isabelle.thy ===== *)
theory Spec2Isabelle
  imports Varint Int64 Hash_Table Rowset Bitvec_Set Wal_Read Like Record_Compare Complete Rtree_Init
begin

text \<open>
  A verification of the C code of LSTAndroid. The application keeps the trajectories of a device in a spatial
  index, an r-tree table of the SQLite 3.8.7 amalgamation it ships and compiles with
  \<^verbatim>\<open>SQLITE_ENABLE_RTREE\<close> (\<^verbatim>\<open>src/app/jni/sqlite/sqlite3.c\<close>; the build is
  \<^verbatim>\<open>src/app/jni/sqlite/Android.mk\<close>). The development models the r-tree extension
  from the bytes of a node up to the virtual table methods, and, below it, self-contained support modules of the
  library. All source names refer to that file. The target is 32-bit ARM: little-endian, pointers of four bytes.

  \<^bold>\<open>The r-tree, bottom up.\<close> A table has three shadow tables: nodes, the node of every rowid, and the
  parent of every node. A node is a byte string with a cell count and cells of a 64-bit integer and two coordinates per
  dimension.

  \<^item> \<^verbatim>\<open>Fp\<close>: the C types float and double, exact arithmetic and one rounding per operation.
  \<^item> \<^verbatim>\<open>Rtree_Node\<close>: the records \<open>Rtree\<close>, \<open>RtreeNode\<close> and \<open>RtreeCell\<close>, and the operations on
    a node image (\<open>nodeGetCell\<close>, \<open>nodeInsertCell\<close>, \<open>nodeOverwriteCell\<close>, \<open>nodeDeleteCell\<close>, ...).
    They refine append, update and removal on the list of the cells.
  \<^item> \<^verbatim>\<open>Rtree_Geom\<close>: \<open>cellArea\<close>, \<open>cellUnion\<close>, \<open>cellContains\<close>, \<open>cellOverlap\<close>, the merge sorts and
    \<open>splitNodeStartree\<close>. Locale \<open>bounding_box\<close> states that containment is a preorder and
    the union a least upper bound; the sorts share the locale \<open>index_merge_sort\<close>. The split distributes exactly the given cells,
    fills both nodes to a third and returns boxes that cover them.
  \<^item> \<^verbatim>\<open>Rtree_Query\<close>: decoding of coordinates, the constraint tests, geometry callbacks. A box is never
    pruned while a row inside satisfies the comparisons. The callbacks belong to the application and are fields of a constraint.
  \<^item> \<^verbatim>\<open>Rtree_Store\<close>: the cache of nodes with its reference counts and hash table, loading and
    writing back (\<open>nodeAcquire\<close>, \<open>nodeRelease\<close>, \<open>nodeWrite\<close>), with every result code. A release goes up the chain of
    cached parents and writes the topmost dirty page first. Locale \<open>keyed_table\<close> is the contract
    of the hash table; the invariant says that every bucket is a finite chain of the nodes that hash to it.
  \<^item> \<^verbatim>\<open>Rtree_Queue\<close>: the priority queue of search points of a cursor. The sifting loops equal the
    operations of locale \<open>array_heap\<close>, and locale \<open>search_queue\<close> gives the drain in order.
  \<^item> \<^verbatim>\<open>Rtree_Cursor\<close>: planning, filtering, stepping and reading rows. The bytes of the plan
    written by \<open>rtreeBestIndex\<close> are decoded by \<open>rtreeFilter\<close> to constraints that compare the planned column as the SQL operator says, or call the geometry function.
  \<^item> \<^verbatim>\<open>Rtree_Update\<close>: \<open>ChooseLeaf\<close>, \<open>AdjustTree\<close>, \<open>SplitNode\<close>, \<open>Reinsert\<close>, \<open>deleteCell\<close>, \<open>fixBoundingBox\<close>
    and \<open>rtreeUpdate\<close>. After an insertion the ancestors cover the new cell and nothing else has changed; after a deletion their boxes are tight;
    refused rows change nothing.
  \<^item> \<^verbatim>\<open>Rtree_Init\<close>: \<open>rtreeInit\<close> and the methods built on it, geometry functions and \<open>rtreedepth\<close>.
    A created table satisfies the well-formedness and the hash table invariant the other theories assume.

  \<^bold>\<open>Support modules.\<close>

  \<^item> \<^verbatim>\<open>Prelude\<close>: integer widths, result codes, memory blocks, big-endian byte strings.
  \<^item> \<^verbatim>\<open>Varint\<close> (util.c): variable-length integers, equal to a byte-by-byte reading, and their round trip.
  \<^item> \<^verbatim>\<open>Ctype\<close> (global.c, util.c): character tables, comparison without case, quotes, hexadecimal text.
  \<^item> \<^verbatim>\<open>Int64\<close> (util.c): arithmetic with overflow tests, integer literals in three encodings, logarithmic estimates. Of UTF-16 text of odd length the
    code reads the byte behind the text, which is an argument of the model.
  \<^item> \<^verbatim>\<open>Hash_Table\<close> (hash.c): the generic hash table on an explicit heap of elements; it refines a
    map on case-folded keys, free of invalid accesses and leaks. Its contract is the locale \<open>dictionary\<close>.
  \<^item> \<^verbatim>\<open>Rowset\<close> (rowset.c): sets of rowids; sorted extraction, and the answers of batched tests by the
    locale \<open>batched_set\<close>.
  \<^item> \<^verbatim>\<open>Bitvec_Set\<close> (bitvec.c): the bitmaps of journalled pages in their three representations. Locale
    \<open>bit_set\<close> is their contract: after any sequence of operations a bit is found as in a set of numbers.
  \<^item> \<^verbatim>\<open>Record_Format\<close> (vdbeaux.c, \<open>OP_MakeRecord\<close> of vdbe.c): the records in which rows and index keys are
    stored. A record that is made and unpacked again gives the same values, and the rowid of an index entry is found at its end.
  \<^item> \<^verbatim>\<open>Record_Compare\<close> (vdbeaux.c): the comparison of a serialised record with a key, in its general and its two
    specialised versions, which all give the order of the rows of values.
  \<^item> \<^verbatim>\<open>Wal_Index\<close> (wal.c): the index of the write-ahead log. A lookup returns the latest frame of a page, and a
    reader keeps its snapshot while writers append, commit and roll back: the steps of the connections are the relation \<open>wal_step\<close>.
  \<^item> \<^verbatim>\<open>Wal_Checkpoint\<close> (wal.c): checkpoints, with the merge sort and the iterator over the pages of the log. Locale
    \<open>frame_lookup\<close> is the interface between a reader and the index; a checkpoint changes nothing a reader sees, copies the latest
    frames, and finishes when it is not hindered.
  \<^item> \<^verbatim>\<open>Wal_File\<close> (wal.c): the file of the log: checksums, frames, \<open>sqlite3WalFrames\<close> and \<open>walIndexRecover\<close>. Writing refines appending to a list
    of frames, and recovery finds the committed ones again, so that a commit survives a crash.
  \<^item> \<^verbatim>\<open>Wal_Read\<close> (wal.c): read and write transactions, with other connections that change the index at any observation. A reader
    that has begun keeps its pages whatever steps others take: the relation \<open>others_step\<close> has writes to the log, changes of read marks
    and checkpoints of any commit. Frames read back as they were written.
  \<^item> \<^verbatim>\<open>Utf\<close> (utf.c, vdbemem.c): characters in UTF-8 and in both byte orders of UTF-16, and the change of the encoding of a string
    cell. It stores the same characters in the form of the Unicode standard, and never reads or writes outside its buffers.
  \<^item> \<^verbatim>\<open>Like\<close> (func.c): the comparison of a text with a pattern for LIKE and GLOB, equal to the division of the text among the elements of
    the pattern.
  \<^item> \<^verbatim>\<open>Complete\<close> (complete.c): the scanner and state machine of \<open>sqlite3_complete\<close>, equal to the
    division of a text into statements.

  \<^bold>\<open>State and effects.\<close> A C structure is a record with the fields of the source. The r-tree functions take and return the
  record \<open>Rtree\<close>, which beside the C fields holds the heap of nodes, the shadow tables as association lists, the
  result codes of the statements still to be run and the outcomes of the allocations still to be made; in this way every
  error path is reachable in the model. Result codes are integers as in the source. Where a module allocates by itself
  (hash tables, sets of rowids) the outcome is an argument.

  \<^bold>\<open>Loops and fuel.\<close> Recursion is structural or has a measure, with these exceptions. Chains of nodes in the cache and chains of
  parents take \<open>nextAddr\<close> steps, the number of addresses handed out, which no chain without repetition exceeds. The
  insertion takes \<open>INSERT_FUEL\<close>, more than two nested calls on each of the 41 levels; running out is the code
  \<open>FUEL_OUT\<close>, which is distinct from every result code. Setting a bit of a bitmap takes seven nested calls, which are shown to be enough for every size. Loops along pointers in \<open>Hash_Table\<close>, the descent
  of a cursor, the probes in \<open>Bitvec_Set\<close> and the construction of trees in \<open>Rowset\<close> are partial functions, and the theorems state that they
  return a result.

  \<^bold>\<open>Not modelled.\<close> The SQL compiler, the virtual machine but for the making of records, the b-tree, the pager, the page cache and the operating system
  layers: the r-tree reaches them through prepared statements only, whose results are inputs of the model. The memory
  allocators, which appear as operations that may fail. The formatted output (\<open>rtreenode\<close>, printf.c) and the
  conversions between text and floating point, \<open>sqlite3_complete16\<close>, full-text search and ICU, which are not
  compiled in, and the JNI bindings, which only pass values between Java and the C interface.
\<close>

end
